(* ===== verification/Prelude.thy ===== *)
theory Prelude
  imports Complex_Main "HOL-Library.Word"
begin

text \<open>
  Shared vocabulary of the development: the lemma collections the component proofs draw
  on, the error values that stand for undefined behaviour of the C code, C integer
  arithmetic (truncating division, two's complement wrap-around), and generic facts about
  lists that several components use.
\<close>

named_theorems pd_simps \<open>rewrite rules for the operations of the Pd model\<close>
named_theorems pd_defs \<open>definitions that component proofs unfold together\<close>
named_theorems pd_intros \<open>introduction rules for the component invariants\<close>

subsection \<open>Undefined behaviour as values\<close>

text \<open>
  A step of the C program that has no defined result (a null pointer is dereferenced, memory is used that was freed, a
  buffer is written outside its bounds, a loop follows a list off its end, a union member
  is read that was not the one stored, an integer division traps) is a value of this type, returned on the left of a
  sum.
\<close>

datatype cerror = NullDeref | UseAfterFree | OutOfBounds | TypeConfusion | DivideTrap

type_synonym 'a cresult = "cerror + 'a"

definition cbind :: "'a cresult \<Rightarrow> ('a \<Rightarrow> 'b cresult) \<Rightarrow> 'b cresult" where
  "cbind r f = (case r of Inl e \<Rightarrow> Inl e | Inr a \<Rightarrow> f a)"

lemma cbind_simps [simp]:
  "cbind (Inl e) f = Inl e"
  "cbind (Inr a) f = f a"
  by (simp_all add: cbind_def)

lemma cbind_eq_Inr_iff:
  "cbind r f = Inr b \<longleftrightarrow> (\<exists>a. r = Inr a \<and> f a = Inr b)"
  by (cases r) auto

lemma cbind_cong [fundef_cong]:
  "r = r' \<Longrightarrow> (\<And>a. r' = Inr a \<Longrightarrow> f a = g a) \<Longrightarrow> cbind r f = cbind r' g"
  by (cases r') auto

text \<open>The same for functions that may also run on for ever, which is \<open>None\<close>.\<close>

definition rbind :: "'a cresult option \<Rightarrow> ('a \<Rightarrow> 'b cresult option) \<Rightarrow> 'b cresult option" where
  "rbind m f = (case m of None \<Rightarrow> None | Some (Inl e) \<Rightarrow> Some (Inl e) | Some (Inr a) \<Rightarrow> f a)"

lemma rbind_simps [simp]: "rbind None f = None" "rbind (Some (Inl e)) f = Some (Inl e)" "rbind (Some (Inr a)) f = f a"
  by (simp_all add: rbind_def)

subsection \<open>C integers\<close>

text \<open>The value of an \<open>int\<close> after wrap-around to 32 bits in two's complement.\<close>

definition wrap32 :: "int \<Rightarrow> int" where
  "wrap32 i = (i + 2 ^ 31) mod 2 ^ 32 - 2 ^ 31"

lemma wrap32_range: "- (2 ^ 31) \<le> wrap32 i \<and> wrap32 i < 2 ^ 31"
  by (simp add: wrap32_def)

lemma wrap32_id [simp]: "- (2 ^ 31) \<le> i \<Longrightarrow> i < 2 ^ 31 \<Longrightarrow> wrap32 i = i"
  by (simp add: wrap32_def)

text \<open>C's division and remainder round towards zero.\<close>

definition cdiv :: "int \<Rightarrow> int \<Rightarrow> int" where
  "cdiv a b = sgn a * sgn b * (\<bar>a\<bar> div \<bar>b\<bar>)"

definition cmod :: "int \<Rightarrow> int \<Rightarrow> int" where
  "cmod a b = sgn a * (\<bar>a\<bar> mod \<bar>b\<bar>)"

lemma cdiv_cmod: "cdiv a b * b + cmod a b = a"
proof -
  have b: "sgn b * b = \<bar>b\<bar>" and a: "sgn a * \<bar>a\<bar> = a"
    by (auto simp: sgn_if)
  have "cdiv a b * b + cmod a b = sgn a * ((\<bar>a\<bar> div \<bar>b\<bar>) * (sgn b * b) + \<bar>a\<bar> mod \<bar>b\<bar>)"
    by (simp only: cdiv_def cmod_def distrib_left mult_ac)
  also have "\<dots> = a" by (simp only: b div_mult_mod_eq a)
  finally show ?thesis .
qed

lemma cmod_abs_less: "b \<noteq> 0 \<Longrightarrow> \<bar>cmod a b\<bar> < \<bar>b\<bar>"
  by (cases a "0::int" rule: linorder_cases) (auto simp: cmod_def)

lemma cmod_nonneg: "0 \<le> a \<Longrightarrow> cmod a b = a mod \<bar>b\<bar>"
  by (cases "a = 0") (auto simp: cmod_def)

lemma cmod_neg: "a < 0 \<Longrightarrow> cmod a b = - ((- a) mod \<bar>b\<bar>)"
  by (auto simp: cmod_def)

text \<open>Subtraction of \<open>unsigned int\<close> values wraps around modulo two to the 32.\<close>

definition u32_sub :: "nat \<Rightarrow> nat \<Rightarrow> nat" where
  "u32_sub a b = nat ((int a - int b) mod 2 ^ 32)"

lemma u32_sub_le [simp]: "b \<le> a \<Longrightarrow> a < 2 ^ 32 \<Longrightarrow> u32_sub a b = a - b"
  by (simp add: u32_sub_def of_nat_diff nat_diff_distrib)

subsection \<open>Lists\<close>

text \<open>
  A singly linked list whose first element satisfying a test is unlinked: the shape of
  every removal in the code.
\<close>

fun remove_first :: "('a \<Rightarrow> bool) \<Rightarrow> 'a list \<Rightarrow> 'a list" where
  "remove_first P [] = []"
| "remove_first P (x # xs) = (if P x then xs else x # remove_first P xs)"

lemma remove_first_eq_remove1: "remove_first (\<lambda>y. y = x) xs = remove1 x xs"
  by (induction xs) auto

lemma remove_first_none [simp]: "(\<forall>x \<in> set xs. \<not> P x) \<Longrightarrow> remove_first P xs = xs"
  by (induction xs) auto

lemma set_remove_first_subset: "set (remove_first P xs) \<subseteq> set xs"
  by (induction xs) auto

lemma length_remove_first:
  "(\<exists>x \<in> set xs. P x) \<Longrightarrow> Suc (length (remove_first P xs)) = length xs"
  by (induction xs) auto

lemma takeWhile_all: "(\<forall>x \<in> set xs. P x) \<Longrightarrow> takeWhile P (xs @ ys) = xs @ takeWhile P ys"
  by (induction xs) auto

lemma dropWhile_all: "(\<forall>x \<in> set xs. P x) \<Longrightarrow> dropWhile P (xs @ ys) = dropWhile P ys"
  by (induction xs) auto

end
