(* ===== verification/PdFloat.thy ===== *)
theory PdFloat
  imports Prelude
begin

text \<open>
  IEEE 754 floating point as the C code uses it: \<open>t_float\<close> is binary32, \<open>double\<close> is
  binary64, both rounding to nearest, ties to even. A finite non-negative-zero value is
  kept as the rational number it denotes, so comparisons are comparisons of rationals and
  every operation computes the exact result and rounds it once.
\<close>

datatype fl = NaN | Inf bool | NZero | Fin rat

record ffmt =
  f_prec :: nat
  f_emin :: int
  f_emax :: int

definition binary32 :: ffmt where
  "binary32 = \<lparr>f_prec = 24, f_emin = -149, f_emax = 128\<rparr>"

definition binary64 :: ffmt where
  "binary64 = \<lparr>f_prec = 53, f_emin = -1074, f_emax = 1024\<rparr>"

subsection \<open>Rounding\<close>

text \<open>
  Integer logarithm, and its extension to positive rationals: the largest \<open>k\<close> with
  \<open>b powi k \<le> q\<close>. Base 2 serves rounding, base 10 the conversion to text.
\<close>

function ilog :: "int \<Rightarrow> int \<Rightarrow> int" where
  "ilog b n = (if n < b \<or> b < 2 then 0 else 1 + ilog b (n div b))"
  by pat_completeness auto
termination
  by (relation "measure (\<lambda>(b, n). nat n)") (auto simp: int_div_less_self)

declare ilog.simps [simp del]

definition rlog :: "int \<Rightarrow> rat \<Rightarrow> int" where
  "rlog b q = (let (n, d) = quotient_of q; k = ilog b n - ilog b d
     in if of_int b powi k \<le> q then k else k - 1)"

definition rhe :: "rat \<Rightarrow> int" where
  "rhe q = (let f = \<lfloor>q\<rfloor>; r = q - of_int f in
     if r < 1 / 2 then f else if 1 / 2 < r then f + 1 else if even f then f else f + 1)"

definition ulp_exp :: "ffmt \<Rightarrow> rat \<Rightarrow> int" where
  "ulp_exp fm q = max (rlog 2 q - (int (f_prec fm) - 1)) (f_emin fm)"

definition fround :: "ffmt \<Rightarrow> rat \<Rightarrow> fl" where
  "fround fm q = (if q = 0 then Fin 0 else
     (let u = ulp_exp fm \<bar>q\<bar>; v = of_int (rhe (\<bar>q\<bar> / 2 powi u)) * 2 powi u
      in if v \<ge> 2 powi f_emax fm then Inf (q < 0)
         else if v = 0 then (if q < 0 then NZero else Fin 0)
         else Fin (if q < 0 then - v else v)))"

subsection \<open>Comparison and arithmetic\<close>

fun fval :: "fl \<Rightarrow> rat" where
  "fval (Fin q) = q"
| "fval _ = 0"

fun fneg_sign :: "fl \<Rightarrow> bool" where
  "fneg_sign NaN = False"
| "fneg_sign (Inf s) = s"
| "fneg_sign NZero = True"
| "fneg_sign (Fin q) = (q < 0)"

fun flt :: "fl \<Rightarrow> fl \<Rightarrow> bool" where
  "flt NaN _ = False"
| "flt _ NaN = False"
| "flt (Inf s) (Inf t) = (s \<and> \<not> t)"
| "flt (Inf s) _ = s"
| "flt _ (Inf t) = (\<not> t)"
| "flt x y = (fval x < fval y)"

fun feq :: "fl \<Rightarrow> fl \<Rightarrow> bool" where
  "feq NaN _ = False"
| "feq _ NaN = False"
| "feq (Inf s) (Inf t) = (s = t)"
| "feq (Inf s) _ = False"
| "feq _ (Inf t) = False"
| "feq x y = (fval x = fval y)"

definition fle :: "fl \<Rightarrow> fl \<Rightarrow> bool" where
  "fle x y \<longleftrightarrow> flt x y \<or> feq x y"

fun fneg :: "fl \<Rightarrow> fl" where
  "fneg NaN = NaN"
| "fneg (Inf s) = Inf (\<not> s)"
| "fneg NZero = Fin 0"
| "fneg (Fin q) = (if q = 0 then NZero else Fin (- q))"

fun fadd :: "ffmt \<Rightarrow> fl \<Rightarrow> fl \<Rightarrow> fl" where
  "fadd fm NaN _ = NaN"
| "fadd fm _ NaN = NaN"
| "fadd fm (Inf s) (Inf t) = (if s = t then Inf s else NaN)"
| "fadd fm (Inf s) _ = Inf s"
| "fadd fm _ (Inf t) = Inf t"
| "fadd fm NZero NZero = NZero"
| "fadd fm x y = fround fm (fval x + fval y)"

definition fsub :: "ffmt \<Rightarrow> fl \<Rightarrow> fl \<Rightarrow> fl" where
  "fsub fm x y = fadd fm x (fneg y)"

definition signed_zero :: "bool \<Rightarrow> fl" where
  "signed_zero s = (if s then NZero else Fin 0)"

definition fzero :: "fl \<Rightarrow> bool" where
  "fzero x \<longleftrightarrow> feq x (Fin 0)"

fun is_inf :: "fl \<Rightarrow> bool" where
  "is_inf (Inf s) = True"
| "is_inf _ = False"

definition fmul :: "ffmt \<Rightarrow> fl \<Rightarrow> fl \<Rightarrow> fl" where
  "fmul fm x y = (let s = (fneg_sign x \<noteq> fneg_sign y) in
     if x = NaN \<or> y = NaN \<or> (is_inf x \<and> fzero y) \<or> (fzero x \<and> is_inf y) then NaN
     else if is_inf x \<or> is_inf y then Inf s
     else if fzero x \<or> fzero y then signed_zero s
     else fround fm (fval x * fval y))"

definition fdiv :: "ffmt \<Rightarrow> fl \<Rightarrow> fl \<Rightarrow> fl" where
  "fdiv fm x y = (let s = (fneg_sign x \<noteq> fneg_sign y) in
     if x = NaN \<or> y = NaN \<or> (is_inf x \<and> is_inf y) \<or> (fzero x \<and> fzero y) then NaN
     else if is_inf x \<or> fzero y then Inf s
     else if is_inf y \<or> fzero x then signed_zero s
     else fround fm (fval x / fval y))"

fun fabs :: "fl \<Rightarrow> fl" where
  "fabs NaN = NaN"
| "fabs (Inf s) = Inf False"
| "fabs NZero = Fin 0"
| "fabs (Fin q) = Fin \<bar>q\<bar>"

subsection \<open>Conversions\<close>

text \<open>
  Conversion of an integer to a floating type rounds; conversion of a floating value to
  \<open>int\<close> truncates. Outside the range of \<open>int\<close> (NaN and the infinities included) C leaves
  the result open; the model takes the value the x86 conversion instruction delivers.
\<close>

definition fl_of_int :: "ffmt \<Rightarrow> int \<Rightarrow> fl" where
  "fl_of_int fm i = fround fm (of_int i)"

definition rat_trunc :: "rat \<Rightarrow> int" where
  "rat_trunc q = (if q < 0 then \<lceil>q\<rceil> else \<lfloor>q\<rfloor>)"

fun int_of_fl :: "fl \<Rightarrow> int" where
  "int_of_fl (Fin q) =
     (let i = rat_trunc q in if - (2 ^ 31) \<le> i \<and> i < 2 ^ 31 then i else - (2 ^ 31))"
| "int_of_fl NZero = 0"
| "int_of_fl _ = - (2 ^ 31)"

text \<open>\<open>t_int\<close> is \<open>long\<close>, 64 bits wide.\<close>

fun long_of_fl :: "fl \<Rightarrow> int" where
  "long_of_fl (Fin q) =
     (let i = rat_trunc q in if - (2 ^ 63) \<le> i \<and> i < 2 ^ 63 then i else - (2 ^ 63))"
| "long_of_fl NZero = 0"
| "long_of_fl _ = - (2 ^ 63)"

fun fl_convert :: "ffmt \<Rightarrow> fl \<Rightarrow> fl" where
  "fl_convert fm (Fin q) = fround fm q"
| "fl_convert fm x = x"

definition fl_bool :: "bool \<Rightarrow> fl" where
  "fl_bool b = (if b then Fin 1 else Fin 0)"

subsection \<open>Correctness of rounding\<close>

lemma ilog_bounds:
  "2 \<le> b \<Longrightarrow> 0 < n \<Longrightarrow> 0 \<le> ilog b n \<and> of_int b powi ilog b n \<le> (of_int n :: rat) \<and>
    of_int n < (of_int b :: rat) powi (ilog b n + 1)"
proof (induction b n rule: ilog.induct)
  case (1 b n)
  show ?case
  proof (cases "n < b \<or> b < 2")
    case True
    with "1.prems" show ?thesis by (auto simp: ilog.simps [of b n])
  next
    case False
    define h where "h = ilog b (n div b)"
    from False have "0 < n div b" by (simp add: pos_imp_zdiv_pos_iff)
    with "1.IH" False have h: "0 \<le> h" "of_int b powi h \<le> (of_int (n div b) :: rat)"
      "of_int (n div b) < (of_int b :: rat) powi (h + 1)"
      by (simp_all add: h_def)
    from h(3) have "of_int (n div b) < (of_int (b ^ nat (h + 1)) :: rat)"
      using h(1) by (simp add: power_int_def)
    then have "n div b + 1 \<le> b ^ nat (h + 1)" by (simp only: of_int_less_iff)
    then have "b * (n div b + 1) \<le> b * b ^ nat (h + 1)" using False by simp
    moreover have "n < b * (n div b + 1)"
    proof -
      have "n mod b < b" using False by simp
      with mult_div_mod_eq [of b n] show ?thesis unfolding distrib_left by linarith
    qed
    ultimately have "(of_int n :: rat) < of_int (b * b ^ nat (h + 1))"
      by (simp only: of_int_less_iff)
    then have hi: "(of_int n :: rat) < of_int b powi (h + 2)"
      using h(1) False by (simp add: power_int_def nat_add_distrib mult.commute)
    have "b * (n div b) \<le> n" using False pos_mod_sign [of b n] mult_div_mod_eq [of b n] by linarith
    then have "(of_int b * of_int (n div b) :: rat) \<le> of_int n"
      by (metis of_int_le_iff of_int_mult)
    moreover have "(of_int b :: rat) * of_int b powi h \<le> of_int b * of_int (n div b)"
      using h(2) False by (intro mult_left_mono) auto
    ultimately have "(of_int b :: rat) * of_int b powi h \<le> of_int n" by (rule order_trans [rotated])
    then have lo: "(of_int b :: rat) powi (h + 1) \<le> of_int n"
      using False by (simp add: power_int_add mult.commute)
    from hi lo h(1) False show ?thesis
      by (simp add: ilog.simps [of b n] h_def [symmetric] add.commute)
  qed
qed

lemma rlog_bounds:
  assumes q0: "0 < q" and b: "2 \<le> b"
  shows "of_int b powi rlog b q \<le> q \<and> q < of_int b powi (rlog b q + 1)"
proof -
  obtain n d where nd: "quotient_of q = (n, d)" by force
  then have d: "0 < d" and q: "q = of_int n / of_int d"
    by (auto dest: quotient_of_denom_pos quotient_of_div)
  with q0 have n: "0 < n" by (simp add: zero_less_divide_iff)
  note N = ilog_bounds [OF b n] and D = ilog_bounds [OF b d]
  have b0: "(of_int b :: rat) \<noteq> 0" using b by simp
  have "q < of_int b powi (ilog b n + 1) / of_int b powi ilog b d"
    unfolding q using N D d n b by (intro frac_less) auto
  then have hi: "q < of_int b powi (ilog b n - ilog b d + 1)"
    using b0 by (simp add: power_int_add power_int_diff mult.commute)
  have "of_int b powi ilog b n / of_int b powi (ilog b d + 1) \<le> q"
    unfolding q using N D n d by (intro frac_le) auto
  then have lo: "of_int b powi (ilog b n - ilog b d - 1) \<le> q"
    using b0 by (simp add: power_int_add power_int_diff field_simps)
  show ?thesis
    using hi lo by (auto simp: rlog_def nd Let_def)
qed

text \<open>The logarithm is determined by these bounds.\<close>

lemma rlog_unique:
  assumes b: "2 \<le> b" and lo: "of_int b powi k \<le> q" and hi: "q < of_int b powi (k + 1)"
  shows "rlog b q = k"
proof -
  have b1: "1 \<le> (of_int b :: rat)" using b by simp
  have "0 < (of_int b :: rat) powi k" using b by simp
  with lo have q: "0 < q" by linarith
  note r = rlog_bounds [OF q b]
  have "\<not> rlog b q + 1 \<le> k"
    using power_int_increasing [OF _ b1, of "rlog b q + 1" k] r lo by force
  moreover have "\<not> k + 1 \<le> rlog b q"
    using power_int_increasing [OF _ b1, of "k + 1" "rlog b q"] r hi by force
  ultimately show ?thesis by simp
qed

lemma rhe_of_int [simp]: "rhe (of_int i) = i"
  by (simp add: rhe_def)

lemma fround_zero [simp]: "fround fm 0 = Fin 0"
  by (simp add: fround_def)

text \<open>A value with few enough significant bits is not changed by rounding.\<close>

lemma fround_exact:
  assumes q: "q = of_int m * 2 powi e" and m: "\<bar>m\<bar> < 2 ^ f_prec fm"
    and e: "f_emin fm \<le> e" and big: "\<bar>q\<bar> < 2 powi f_emax fm"
  shows "fround fm q = Fin q"
proof (cases "q = 0")
  case True
  then show ?thesis by simp
next
  case False
  then have pos: "0 < \<bar>q\<bar>" by simp
  define u where "u = ulp_exp fm \<bar>q\<bar>"
  have aq: "\<bar>q\<bar> = of_int \<bar>m\<bar> * 2 powi e"
    by (simp add: q abs_mult)
  have "2 powi rlog 2 \<bar>q\<bar> \<le> \<bar>q\<bar>" using rlog_bounds [OF pos, of 2] by simp
  also have "\<bar>q\<bar> < 2 ^ f_prec fm * 2 powi e"
  proof -
    have "(of_int \<bar>m\<bar> :: rat) < of_int (2 ^ f_prec fm)"
      using m by (simp only: of_int_less_iff)
    then have "(of_int \<bar>m\<bar> :: rat) < 2 ^ f_prec fm" by simp
    then show ?thesis unfolding aq by (intro mult_strict_right_mono) simp_all
  qed
  also have "\<dots> = 2 powi (int (f_prec fm) + e)"
    by (simp add: power_int_add)
  finally have "rlog 2 \<bar>q\<bar> < int (f_prec fm) + e"
    by (metis not_less power_int_increasing one_le_numeral)
  with e have ue: "u \<le> e" by (simp add: u_def ulp_exp_def)
  have "\<bar>q\<bar> / 2 powi u = of_int \<bar>m\<bar> * 2 powi (e - u)"
    by (simp add: aq power_int_diff)
  also have "\<dots> = of_int (\<bar>m\<bar> * 2 ^ nat (e - u))"
    using ue by (simp add: power_int_def)
  finally have "rhe (\<bar>q\<bar> / 2 powi u) = \<bar>m\<bar> * 2 ^ nat (e - u)"
    by (simp only: rhe_of_int)
  moreover have "(of_int (\<bar>m\<bar> * 2 ^ nat (e - u)) :: rat) * 2 powi u = \<bar>q\<bar>"
  proof -
    have "(of_int (\<bar>m\<bar> * 2 ^ nat (e - u)) :: rat) = of_int \<bar>m\<bar> * 2 powi (e - u)"
      using ue by (simp add: power_int_def)
    then show ?thesis by (simp add: aq power_int_diff)
  qed
  ultimately have v: "of_int (rhe (\<bar>q\<bar> / 2 powi u)) * 2 powi u = \<bar>q\<bar>" by simp
  show ?thesis
    unfolding fround_def Let_def u_def [symmetric] v using False big by auto
qed

lemma fround_of_int:
  assumes "\<bar>i\<bar> < 2 ^ f_prec fm" "f_emin fm \<le> 0" "int (f_prec fm) \<le> f_emax fm"
  shows "fround fm (of_int i) = Fin (of_int i)"
proof (rule fround_exact [where m = i and e = 0])
  have "(of_int \<bar>i\<bar> :: rat) < of_int (2 ^ f_prec fm)"
    using assms(1) by (simp only: of_int_less_iff)
  then have "\<bar>of_int i :: rat\<bar> < 2 powi int (f_prec fm)" by simp
  also have "\<dots> \<le> 2 powi f_emax fm" using assms(3) by (intro power_int_increasing) auto
  finally show "\<bar>of_int i :: rat\<bar> < 2 powi f_emax fm" .
qed (use assms in auto)

lemma fl_of_int_binary32 [pd_simps]: "\<bar>i\<bar> < 2 ^ 24 \<Longrightarrow> fl_of_int binary32 i = Fin (of_int i)"
  unfolding fl_of_int_def by (rule fround_of_int) (simp_all add: binary32_def)

lemma fl_of_int_binary64 [pd_simps]: "\<bar>i\<bar> < 2 ^ 53 \<Longrightarrow> fl_of_int binary64 i = Fin (of_int i)"
  unfolding fl_of_int_def by (rule fround_of_int) (simp_all add: binary64_def)

lemma rat_trunc_of_int [simp]: "rat_trunc (of_int i) = i"
  by (simp add: rat_trunc_def)

lemma int_of_fl_of_int [simp]:
  "- (2 ^ 31) \<le> i \<Longrightarrow> i < 2 ^ 31 \<Longrightarrow> int_of_fl (Fin (of_int i)) = i"
  by (simp add: Let_def)

lemma int_of_fl_range: "- (2 ^ 31) \<le> int_of_fl x \<and> int_of_fl x < 2 ^ 31"
  by (cases x) (auto simp: Let_def)

text \<open>Rounding stays between integers that are represented exactly.\<close>

lemma rhe_le_int: "x \<le> of_int i \<Longrightarrow> rhe x \<le> i"
proof -
  assume x: "x \<le> of_int i"
  then have "\<lfloor>x\<rfloor> \<le> i" by linarith
  moreover have "\<lfloor>x\<rfloor> + 1 \<le> i" if "1 / 2 \<le> x - of_int \<lfloor>x\<rfloor>" using x that by linarith
  ultimately show "rhe x \<le> i" by (auto simp: rhe_def Let_def)
qed

lemma rhe_ge_int: "of_int i \<le> x \<Longrightarrow> i \<le> rhe x"
  by (auto simp: rhe_def Let_def le_floor_iff intro: order_trans [of i "\<lfloor>x\<rfloor>"])

lemma fround_between:
  assumes "0 \<le> a" "of_int a \<le> q" "q \<le> of_int b" "b < 2 ^ f_prec fm" "f_emin fm \<le> 0" "int (f_prec fm) \<le> f_emax fm"
  shows "\<exists>v. fround fm q = Fin v \<and> of_int a \<le> v \<and> v \<le> of_int b"
proof (cases "q = 0")
  case True
  then show ?thesis using assms(1-3) by simp
next
  case False
  have "0 \<le> (of_int a :: rat)" using assms(1) by simp
  then have q: "0 < q" using assms(2) False by linarith
  let ?u = "ulp_exp fm q" and ?k = "rlog 2 q"
  have k: "2 powi ?k \<le> q" using rlog_bounds [OF q, of 2] by simp
  have "(of_int b :: rat) < of_int (2 ^ f_prec fm)" using assms(4) by (simp only: of_int_less_iff)
  then have b: "(of_int b :: rat) < 2 powi int (f_prec fm)" by simp
  have "?k < int (f_prec fm)"
  proof (rule ccontr)
    assume "\<not> ?thesis"
    then have "(2 :: rat) powi int (f_prec fm) \<le> 2 powi ?k" by (intro power_int_increasing) auto
    then show False using k b assms(3) by linarith
  qed
  then have u: "?u \<le> 0" using assms(5) by (simp add: ulp_exp_def)
  have scale: "of_int (i * 2 ^ nat (- ?u)) = (of_int i / 2 powi ?u :: rat)" for i
    using u by (simp add: power_int_def field_simps)
  have "q / 2 powi ?u \<le> of_int (b * 2 ^ nat (- ?u))" unfolding scale using assms(3) by (intro divide_right_mono) auto
  then have "rhe (q / 2 powi ?u) \<le> b * 2 ^ nat (- ?u)" by (rule rhe_le_int)
  then have "of_int (rhe (q / 2 powi ?u)) \<le> (of_int b / 2 powi ?u :: rat)" by (metis scale of_int_le_iff)
  then have vb: "of_int (rhe (q / 2 powi ?u)) * 2 powi ?u \<le> (of_int b :: rat)" by (simp add: pos_le_divide_eq)
  have "of_int (a * 2 ^ nat (- ?u)) \<le> q / 2 powi ?u" unfolding scale using assms(2) by (intro divide_right_mono) auto
  then have "a * 2 ^ nat (- ?u) \<le> rhe (q / 2 powi ?u)" by (rule rhe_ge_int)
  then have "(of_int a / 2 powi ?u :: rat) \<le> of_int (rhe (q / 2 powi ?u))" by (metis scale of_int_le_iff)
  then have va: "of_int a \<le> (of_int (rhe (q / 2 powi ?u)) * 2 powi ?u :: rat)" by (simp add: pos_divide_le_eq)
  have "(2 :: rat) powi int (f_prec fm) \<le> 2 powi f_emax fm" using assms(6) by (intro power_int_increasing) auto
  then have "of_int (rhe (q / 2 powi ?u)) * 2 powi ?u < (2 :: rat) powi f_emax fm" using vb b by linarith
  then show ?thesis using va vb q by (auto simp: fround_def Let_def)
qed

lemma fround32_between:
  "0 \<le> a \<Longrightarrow> of_int a \<le> q \<Longrightarrow> q \<le> of_int b \<Longrightarrow> b < 2 ^ 24 \<Longrightarrow> \<exists>v. fround binary32 q = Fin v \<and> of_int a \<le> v \<and> v \<le> of_int b"
  by (rule fround_between) (simp_all add: binary32_def)

subsection \<open>Comparison is a linear order away from NaN\<close>

lemma flt_irrefl [simp]: "\<not> flt x x"
  by (cases x) auto

lemma flt_NaN [simp]: "\<not> flt x NaN" "\<not> flt NaN x"
  by (cases x; simp)+

lemma fle_NaN [simp]: "\<not> fle x NaN" "\<not> fle NaN x"
  by (cases x; simp add: fle_def)+

lemma flt_trans: "flt x y \<Longrightarrow> flt y z \<Longrightarrow> flt x z"
  by (cases x; cases y; cases z) auto

lemma fle_trans: "fle x y \<Longrightarrow> fle y z \<Longrightarrow> fle x z"
  by (cases x; cases y; cases z) (auto simp: fle_def)

lemma fle_flt_trans: "fle x y \<Longrightarrow> flt y z \<Longrightarrow> flt x z"
  by (cases x; cases y; cases z) (auto simp: fle_def)

lemma flt_fle_trans: "flt x y \<Longrightarrow> fle y z \<Longrightarrow> flt x z"
  by (cases x; cases y; cases z) (auto simp: fle_def)

lemma fle_refl: "x \<noteq> NaN \<Longrightarrow> fle x x"
  by (cases x) (auto simp: fle_def)

lemma flt_imp_fle: "flt x y \<Longrightarrow> fle x y"
  by (simp add: fle_def)

lemma not_flt: "x \<noteq> NaN \<Longrightarrow> y \<noteq> NaN \<Longrightarrow> \<not> flt x y \<longleftrightarrow> fle y x"
  by (cases x; cases y) (auto simp: fle_def)

lemma not_fle: "x \<noteq> NaN \<Longrightarrow> y \<noteq> NaN \<Longrightarrow> \<not> fle x y \<longleftrightarrow> flt y x"
  by (cases x; cases y) (auto simp: fle_def)

lemma flt_Fin [simp]: "flt (Fin a) (Fin b) = (a < b)" by simp

lemma fle_Fin [simp]: "fle (Fin a) (Fin b) = (a \<le> b)"
  by (auto simp: fle_def)

lemma feq_Fin [simp]: "feq (Fin a) (Fin b) = (a = b)" by simp

end
