(* ===== verification/CLib.thy ===== *)
theory CLib
  imports PdFloat
begin

text \<open>
  The C library functions the sources call on text: character tests, \<open>sprintf\<close> with
  \<open>%d\<close> and \<open>%g\<close>, \<open>atoi\<close>, \<open>atof\<close> and \<open>strchr\<close>. A C string is the \<open>string\<close> of
  the characters before its terminating zero.
\<close>

subsection \<open>Characters and decimal digits\<close>

definition is_digit :: "char \<Rightarrow> bool" where
  "is_digit c \<longleftrightarrow> 48 \<le> (of_char c :: int) \<and> (of_char c :: int) \<le> 57"

definition digit_val :: "char \<Rightarrow> int" where
  "digit_val c = of_char c - 48"

definition digit_char :: "int \<Rightarrow> char" where
  "digit_char d = char_of (48 + d)"

lemma digit_char_0: "digit_char 0 = CHR ''0''"
  by code_simp

lemma digit_char [simp]:
  "0 \<le> d \<Longrightarrow> d < 10 \<Longrightarrow> is_digit (digit_char d)"
  "0 \<le> d \<Longrightarrow> d < 10 \<Longrightarrow> digit_val (digit_char d) = d"
  by (simp_all add: is_digit_def digit_val_def digit_char_def)

function digits :: "int \<Rightarrow> string" where
  "digits n = (if n < 10 then [digit_char n] else digits (n div 10) @ [digit_char (n mod 10)])"
  by pat_completeness auto
termination
  by (relation "measure nat") auto

declare digits.simps [simp del]

definition digits_val :: "string \<Rightarrow> int" where
  "digits_val s = foldl (\<lambda>a c. 10 * a + digit_val c) 0 s"

fun pad :: "nat \<Rightarrow> int \<Rightarrow> string" where
  "pad 0 i = []"
| "pad (Suc k) i = pad k (i div 10) @ [digit_char (i mod 10)]"

lemma digits_nonempty [simp]: "digits n \<noteq> []"
  by (subst digits.simps) simp

lemma digits_all_digit: "0 \<le> n \<Longrightarrow> c \<in> set (digits n) \<Longrightarrow> is_digit c"
proof (induction n rule: digits.induct)
  case (1 n)
  then show ?case by (cases "n < 10") (auto simp: digits.simps [of n])
qed

lemma digits_val_snoc: "digits_val (s @ [c]) = 10 * digits_val s + digit_val c"
  by (simp add: digits_val_def)

lemma digits_val_digits [simp]: "0 \<le> n \<Longrightarrow> digits_val (digits n) = n"
proof (induction n rule: digits.induct)
  case (1 n)
  then show ?case
    by (cases "n < 10") (auto simp: digits.simps [of n] digits_val_snoc digits_val_def)
qed

lemma length_pad [simp]: "length (pad k i) = k"
  by (induction k i rule: pad.induct) auto

lemma pad_zero [simp]: "pad k 0 = replicate k (digit_char 0)"
  by (induction k) (auto simp: replicate_append_same)

subsection \<open>sprintf\<close>

definition fmt_d :: "int \<Rightarrow> string" where
  "fmt_d i = (if i < 0 then ''-'' @ digits (- i) else digits i)"

definition strip_zeros :: "string \<Rightarrow> string" where
  "strip_zeros s = rev (dropWhile (\<lambda>c. c = digit_char 0) (rev s))"

definition with_point :: "string \<Rightarrow> string" where
  "with_point s = (if strip_zeros s = [] then [] else ''.'' @ strip_zeros s)"

text \<open>
  \<open>%g\<close> with the default precision of six significant digits: the value is rounded to
  six digits, then shown in fixed or exponential style according to its decimal
  exponent, with trailing zeros removed.
\<close>

definition g_digits :: "rat \<Rightarrow> int \<times> int" where
  "g_digits a = (let x = rlog 10 a; m = rhe (a / 10 powi (x - 5))
     in if m \<ge> 1000000 then (100000, x + 1) else (m, x))"

definition g_exponent :: "int \<Rightarrow> string" where
  "g_exponent x = ''e'' @ (if x < 0 then ''-'' else ''+'') @
     (if \<bar>x\<bar> < 10 then ''0'' else []) @ digits \<bar>x\<bar>"

definition g_body :: "int \<Rightarrow> int \<Rightarrow> string" where
  "g_body m x = (if -4 \<le> x \<and> x < 6
     then digits (m div 10 ^ nat (5 - x)) @ with_point (pad (nat (5 - x)) (m mod 10 ^ nat (5 - x)))
     else digits (m div 100000) @ with_point (pad 5 (m mod 100000)) @ g_exponent x)"

fun fmt_g :: "fl \<Rightarrow> string" where
  "fmt_g NaN = ''nan''"
| "fmt_g (Inf s) = (if s then ''-inf'' else ''inf'')"
| "fmt_g NZero = ''-0''"
| "fmt_g (Fin q) = (if q = 0 then ''0'' else
     (if q < 0 then ''-'' else []) @ (case g_digits \<bar>q\<bar> of (m, x) \<Rightarrow> g_body m x))"

subsection \<open>atoi, atof, strchr\<close>

fun split_sign :: "string \<Rightarrow> bool \<times> string" where
  "split_sign (c # r) =
     (if c = CHR ''-'' then (True, r) else if c = CHR ''+'' then (False, r) else (False, c # r))"
| "split_sign [] = (False, [])"

text \<open>
  \<open>atoi\<close> is \<open>strtol\<close> truncated to \<open>int\<close>: the 64-bit conversion saturates, the
  truncation wraps. No call in the sources passes leading white space.
\<close>

definition atoi :: "string \<Rightarrow> int" where
  "atoi s = (case split_sign s of (neg, t) \<Rightarrow>
     (let v = digits_val (takeWhile is_digit t)
      in wrap32 (if neg then max (- v) (- (2 ^ 63)) else min v (2 ^ 63 - 1))))"

text \<open>
  \<open>atof\<close> on decimal syntax (the sources call it only on text already recognised as a
  decimal number): sign, digits, fraction, exponent.
\<close>

fun split_frac :: "string \<Rightarrow> string \<times> string" where
  "split_frac (c # r) =
     (if c = CHR ''.'' then (takeWhile is_digit r, dropWhile is_digit r) else ([], c # r))"
| "split_frac [] = ([], [])"

fun read_exp :: "string \<Rightarrow> int" where
  "read_exp (c # r) =
     (if c = CHR ''e'' \<or> c = CHR ''E''
      then (case split_sign r of (neg, t) \<Rightarrow>
        (let v = digits_val (takeWhile is_digit t) in if neg then - v else v))
      else 0)"
| "read_exp [] = 0"

definition atof :: "string \<Rightarrow> fl" where
  "atof s = (case split_sign s of (neg, t) \<Rightarrow>
     (case split_frac (dropWhile is_digit t) of (fp, t2) \<Rightarrow>
       (let v = of_int (digits_val (takeWhile is_digit t @ fp)) * 10 powi (read_exp t2 - int (length fp))
        in if neg then fneg (fround binary64 v) else fround binary64 v)))"

fun strchr :: "string \<Rightarrow> char \<Rightarrow> nat option" where
  "strchr [] c = None"
| "strchr (x # xs) c = (if x = c then Some 0 else map_option Suc (strchr xs c))"

lemma strchr_Some: "strchr s c = Some i \<Longrightarrow> i < length s \<and> s ! i = c \<and> c \<notin> set (take i s)"
  by (induction s arbitrary: i) (auto split: if_splits)

lemma strchr_None: "strchr s c = None \<longleftrightarrow> c \<notin> set s"
  by (induction s) auto

subsection \<open>Integers survive printing and reading\<close>

lemma takeWhile_digits [simp]: "0 \<le> n \<Longrightarrow> takeWhile is_digit (digits n) = digits n"
  by (auto intro: takeWhile_eq_all_conv [THEN iffD2] dest: digits_all_digit)

lemma dropWhile_digits [simp]: "0 \<le> n \<Longrightarrow> dropWhile is_digit (digits n) = []"
  by (auto dest: digits_all_digit)

lemma with_point_zeros [simp]: "with_point (replicate k (digit_char 0)) = []"
  by (induction k) (simp_all add: with_point_def strip_zeros_def replicate_append_same [symmetric])

lemma g_digits_of_int:
  assumes "0 < i" "i < 1000000"
  obtains x where "0 \<le> x" "x < 6" "g_digits (of_int i) = (i * 10 ^ nat (5 - x), x)"
proof -
  define x where "x = rlog 10 (of_int i)"
  have b: "10 powi x \<le> (of_int i :: rat)" "of_int i < (10::rat) powi (x + 1)"
    using rlog_bounds [of "of_int i" 10] assms by (auto simp: x_def)
  have "1 \<le> (of_int i :: rat)" using assms by simp
  with b(2) have "(10::rat) powi 0 < 10 powi (x + 1)" by simp
  then have x0: "0 \<le> x"
    using power_int_increasing [of "x + 1" 0 "10::rat"] by force
  have "(of_int i :: rat) < of_int 1000000" using assms(2) by (simp only: of_int_less_iff)
  with b(1) have "(10::rat) powi x < 10 powi 6" by simp
  then have x6: "x < 6"
    using power_int_increasing [of 6 x "10::rat"] by force
  have "(of_int i :: rat) / 10 powi (x - 5) = of_int (i * 10 ^ nat (5 - x))"
  proof -
    have "x - 5 = - int (nat (5 - x))" using x6 by simp
    then have "(10::rat) powi (x - 5) = inverse (10 ^ nat (5 - x))"
      by (simp only: power_int_minus power_int_of_nat)
    then show ?thesis by (simp add: divide_inverse)
  qed
  then have m: "rhe (of_int i / 10 powi (x - 5)) = i * 10 ^ nat (5 - x)"
    by (simp only: rhe_of_int)
  have "(of_int i :: rat) < of_int (10 ^ nat (x + 1))"
    using b(2) x0 by (simp add: power_int_def)
  then have "i < 10 ^ nat (x + 1)" by (simp only: of_int_less_iff)
  then have "i * 10 ^ nat (5 - x) < 10 ^ nat (x + 1) * 10 ^ nat (5 - x)" by simp
  also have "\<dots> = 10 ^ nat 6"
    using x0 x6 by (simp only: power_add [symmetric] nat_add_distrib [symmetric]) simp
  finally have "i * 10 ^ nat (5 - x) < 1000000" by simp
  with m show ?thesis
    using x0 x6 that by (simp add: g_digits_def x_def [symmetric] Let_def)
qed

lemma fmt_g_of_int: "\<bar>i\<bar> < 1000000 \<Longrightarrow> fmt_g (Fin (of_int i)) = fmt_d i"
proof (cases "i = 0")
  case True
  then show ?thesis by (simp add: fmt_d_def digits.simps [of 0] digit_char_0)
next
  case False
  assume i: "\<bar>i\<bar> < 1000000"
  with False obtain x where x: "0 \<le> x" "x < 6" "g_digits (of_int \<bar>i\<bar>) = (\<bar>i\<bar> * 10 ^ nat (5 - x), x)"
    by (auto intro: g_digits_of_int [of "\<bar>i\<bar>"])
  then show ?thesis using False by (auto simp: g_body_def fmt_d_def)
qed

lemma digit_not_sign: "is_digit c \<Longrightarrow> c \<noteq> CHR ''-'' \<and> c \<noteq> CHR ''+''"
  by (auto simp: is_digit_def)

lemma split_sign_digits [simp]: "0 \<le> n \<Longrightarrow> split_sign (digits n) = (False, digits n)"
  using digits_all_digit [of n "hd (digits n)"] digit_not_sign
  by (cases "digits n") auto

lemma atof_digits: "0 \<le> n \<Longrightarrow> n < 2 ^ 53 \<Longrightarrow> atof (digits n) = Fin (of_int n)"
  using fl_of_int_binary64 [of n] by (simp add: atof_def fl_of_int_def)

lemma atof_fmt_d: "0 < \<bar>i\<bar> \<Longrightarrow> \<bar>i\<bar> < 2 ^ 53 \<Longrightarrow> atof (fmt_d i) = Fin (of_int i)"
proof (cases "i < 0")
  case True
  assume "\<bar>i\<bar> < 2 ^ 53"
  with True have "atof (fmt_d i) = fneg (fround binary64 (of_int (- i)))"
    by (simp add: atof_def fmt_d_def)
  also have "fround binary64 (of_int (- i)) = Fin (of_int (- i))"
    using True \<open>\<bar>i\<bar> < 2 ^ 53\<close> fl_of_int_binary64 [of "- i"] by (simp add: fl_of_int_def)
  finally show ?thesis using True by simp
next
  case False
  assume "\<bar>i\<bar> < 2 ^ 53"
  with False show ?thesis by (simp add: fmt_d_def atof_digits)
qed

lemma atof_fmt_d_zero: "atof (fmt_d 0) = Fin 0"
  by (simp add: fmt_d_def atof_digits)

lemma atoi_digits: "0 \<le> n \<Longrightarrow> n < 2 ^ 31 \<Longrightarrow> atoi (digits n) = n"
  by (simp add: atoi_def)

end
