(* ===== verification/Atoms.thy ===== *)
theory Atoms
  imports CLib
begin

text \<open>
  Atoms, the values Pd messages are made of, and the accessors and the printer of
  \<open>m_atom.c\<close>. A symbol is its name: symbols are interned, so the pointer comparisons of
  the C code are comparisons of names (theory \<open>Symtab\<close> proves this of \<open>gensym\<close>).
\<close>

type_synonym t_symbol = string
type_synonym t_gpointer = nat

datatype t_atom =
    FLOAT fl
  | SYMBOL t_symbol
  | POINTER t_gpointer
  | SEMI
  | COMMA
  | DOLLAR int
  | DOLLSYM t_symbol

subsection \<open>Accessors\<close>

fun atom_getfloat :: "t_atom \<Rightarrow> fl" where
  "atom_getfloat (FLOAT f) = f"
| "atom_getfloat _ = Fin 0"

definition atom_getint :: "t_atom \<Rightarrow> int" where
  "atom_getint a = long_of_fl (atom_getfloat a)"

fun atom_getsymbol :: "t_atom \<Rightarrow> t_symbol" where
  "atom_getsymbol (SYMBOL s) = s"
| "atom_getsymbol _ = ''float''"

fun atom_gensym :: "t_atom \<Rightarrow> t_symbol" where
  "atom_gensym (SYMBOL s) = s"
| "atom_gensym (FLOAT f) = fmt_g f"
| "atom_gensym _ = ''???''"

definition atom_getfloatarg :: "nat \<Rightarrow> t_atom list \<Rightarrow> fl" where
  "atom_getfloatarg which argv =
     (if length argv \<le> which then Fin 0
      else case argv ! which of FLOAT f \<Rightarrow> f | _ \<Rightarrow> Fin 0)"

definition atom_getintarg :: "nat \<Rightarrow> t_atom list \<Rightarrow> int" where
  "atom_getintarg which argv = long_of_fl (atom_getfloatarg which argv)"

definition atom_getsymbolarg :: "nat \<Rightarrow> t_atom list \<Rightarrow> t_symbol" where
  "atom_getsymbolarg which argv =
     (if length argv \<le> which then []
      else case argv ! which of SYMBOL s \<Rightarrow> s | _ \<Rightarrow> [])"

subsection \<open>Printing an atom into a buffer\<close>

abbreviation bslash :: char where
  "bslash \<equiv> CHR 0x5C"

text \<open>A string with its terminating zero is stored in a buffer of the given size.\<close>

definition put_cstr :: "nat \<Rightarrow> string \<Rightarrow> string cresult" where
  "put_cstr bufsize s = (if length s < bufsize then Inr s else Inl OutOfBounds)"

text \<open>The characters that are quoted; \<open>$\<close> only in front of a digit.\<close>

definition special :: "char \<Rightarrow> string \<Rightarrow> bool" where
  "special c cs \<longleftrightarrow> c = CHR '';'' \<or> c = CHR '','' \<or> c = bslash \<or>
     (c = CHR ''$'' \<and> cs \<noteq> [] \<and> is_digit (hd cs))"

fun needs_quote :: "string \<Rightarrow> bool" where
  "needs_quote [] = False"
| "needs_quote (c # cs) = (special c cs \<or> needs_quote cs)"

text \<open>
  The copying loop: \<open>bp\<close> characters are in the buffer, no character is started at or
  beyond \<open>ep\<close>. Returns what the loop adds and what is left of the name.
\<close>

fun quote_loop :: "nat \<Rightarrow> nat \<Rightarrow> string \<Rightarrow> string \<times> string" where
  "quote_loop ep bp [] = ([], [])"
| "quote_loop ep bp (c # cs) =
     (if bp < ep then
        (let e = (if special c cs then [bslash, c] else [c]);
             (out, rest) = quote_loop ep (bp + length e) cs
         in (e @ out, rest))
      else ([], c # cs))"

fun atom_string :: "t_atom \<Rightarrow> nat \<Rightarrow> string cresult" where
  "atom_string SEMI bufsize = put_cstr bufsize '';''"
| "atom_string COMMA bufsize = put_cstr bufsize '',''"
| "atom_string (POINTER gp) bufsize = put_cstr bufsize ''(pointer)''"
| "atom_string (FLOAT f) bufsize =
     (let tbuf = fmt_g f in
      if length tbuf < u32_sub bufsize 1 then put_cstr bufsize tbuf
      else if flt f (Fin 0) then put_cstr bufsize ''-''
      else put_cstr bufsize ''+'')"
| "atom_string (SYMBOL s) bufsize =
     (if needs_quote s then
        (let (out, rest) = quote_loop (u32_sub bufsize 2) 0 s
         in put_cstr bufsize (if rest \<noteq> [] then out @ ''*'' else out))
      else if length s < u32_sub bufsize 1 then put_cstr bufsize s
      else if bufsize < 2 then Inl OutOfBounds
      else put_cstr bufsize (take (bufsize - 2) s @ ''*''))"
| "atom_string (DOLLAR i) bufsize = put_cstr bufsize (''$'' @ fmt_d i)"
| "atom_string (DOLLSYM s) bufsize =
     (if bufsize = 0 then Inl OutOfBounds else Inr (take (bufsize - 1) s))"

subsection \<open>What the printer writes\<close>

text \<open>The quoted form of a name when the buffer is large enough.\<close>

fun quoted :: "string \<Rightarrow> string" where
  "quoted [] = []"
| "quoted (c # cs) = (if special c cs then [bslash, c] else [c]) @ quoted cs"

lemma quoted_unquoted [simp]: "\<not> needs_quote s \<Longrightarrow> quoted s = s"
  by (induction s) auto

lemma length_quoted: "length s \<le> length (quoted s)"
  by (induction s) auto

lemma quoted_eq_Nil [simp]: "quoted s = [] \<longleftrightarrow> s = []"
  by (cases s) auto

lemma quote_loop_complete:
  "bp + length (quoted s) \<le> ep \<Longrightarrow> quote_loop ep bp s = (quoted s, [])"
  by (induction ep bp s rule: quote_loop.induct) (auto simp: Let_def split: if_splits)

text \<open>However long the name, the loop stops at most one character past \<open>ep\<close>.\<close>

lemma quote_loop_bound:
  "bp \<le> ep \<Longrightarrow> bp + length (fst (quote_loop ep bp s)) \<le> Suc ep"
proof (induction ep bp s rule: quote_loop.induct)
  case (2 ep bp c cs)
  show ?case
  proof (cases "bp < ep")
    case True
    define e where "e = (if special c cs then [bslash, c] else [c])"
    have e: "1 \<le> length e" "length e \<le> 2" by (simp_all add: e_def)
    show ?thesis
    proof (cases "bp + length e \<le> ep")
      case True
      with "2.IH" [OF \<open>bp < ep\<close> e_def, of] have
        "bp + length e + length (fst (quote_loop ep (bp + length e) cs)) \<le> Suc ep"
        by (simp add: e_def)
      with \<open>bp < ep\<close> show ?thesis
        by (auto simp: e_def [symmetric] Let_def split: prod.splits)
    next
      case False
      then have "quote_loop ep (bp + length e) cs = ([], cs)" by (cases cs) auto
      with \<open>bp < ep\<close> e show ?thesis by (simp add: e_def [symmetric] Let_def)
    qed
  next
    case False
    with "2.prems" show ?thesis by simp
  qed
qed simp

lemma atom_string_symbol:
  assumes "length (quoted s) \<le> bufsize - 2" "2 \<le> bufsize" "bufsize < 2 ^ 32"
  shows "atom_string (SYMBOL s) bufsize = Inr (quoted s)"
proof (cases "needs_quote s")
  case True
  with assms show ?thesis
    using quote_loop_complete [of 0 s "bufsize - 2"] by (simp add: put_cstr_def)
next
  case False
  with assms have "length s < bufsize - 1" "length s < bufsize" by auto
  with False assms show ?thesis by (simp add: put_cstr_def)
qed

lemma put_cstr_length: "put_cstr n s = Inr t \<Longrightarrow> length t < n"
  by (auto simp: put_cstr_def split: if_splits)

lemma length_digits: "0 \<le> n \<Longrightarrow> n < 10 ^ Suc k \<Longrightarrow> length (digits n) \<le> Suc k"
proof (induction k arbitrary: n)
  case 0
  then show ?case by (simp add: digits.simps [of n])
next
  case (Suc k)
  from Suc.prems have "n div 10 < 10 ^ Suc k" "0 \<le> n div 10" by auto
  then have "length (digits (n div 10)) \<le> Suc k" using Suc.IH by blast
  then show ?case by (simp add: digits.simps [of n])
qed

text \<open>When is printing safe? With a buffer of at least 16 bytes, every atom but a symbol
  that has to be quoted is printed without writing outside the buffer; a symbol that has to
  be quoted is, if its quoted form leaves two bytes of the buffer free.\<close>

theorem atom_string_fits:
  assumes size: "16 \<le> bufsize" "bufsize < 2 ^ 32"
    and dollar: "\<And>i. a = DOLLAR i \<Longrightarrow> - (2 ^ 31) \<le> i \<and> i < 2 ^ 31"
    and sym: "\<And>s. a = SYMBOL s \<Longrightarrow> needs_quote s \<Longrightarrow> length (quoted s) \<le> bufsize - 2"
  shows "\<exists>t. atom_string a bufsize = Inr t \<and> length t < bufsize"
proof (cases a)
  case (SYMBOL s)
  show ?thesis
  proof (cases "needs_quote s")
    case True
    with SYMBOL size sym have l: "length (quoted s) \<le> bufsize - 2" by simp
    with size have "atom_string (SYMBOL s) bufsize = Inr (quoted s)"
      by (intro atom_string_symbol) auto
    with SYMBOL l size show ?thesis by simp
  next
    case False
    with SYMBOL size show ?thesis by (auto simp: put_cstr_def)
  qed
next
  case (DOLLAR i)
  then have "\<bar>i\<bar> < 10 ^ Suc 9" using dollar [of i] by auto
  then have "length (digits \<bar>i\<bar>) \<le> 10" using length_digits [of "\<bar>i\<bar>" 9] by simp
  then have "length (fmt_d i) \<le> 11" by (auto simp: fmt_d_def abs_if split: if_splits)
  with DOLLAR size show ?thesis by (simp add: put_cstr_def)
qed (use size in \<open>auto simp: put_cstr_def Let_def\<close>)

theorem atom_string_fits_witness:
  "\<exists>t. atom_string (SYMBOL ''a;b'') 20 = Inr t \<and> length t < 20"
  by (rule atom_string_fits) (simp_all add: special_def)

text \<open>\<^bold>\<open>C31\<close>: The quoting loop of \<open>atom_string\<close> can write one byte past the end of the buffer:
  for every buffer size from three up there is a symbol on which it does.\<close>

theorem atom_string_overflow:
  assumes "3 \<le> bufsize" "bufsize < 2 ^ 32"
  shows "atom_string (SYMBOL (replicate (bufsize - 3) (CHR ''a'') @ '';;'')) bufsize
    = Inl OutOfBounds"
proof -
  have loop: "quote_loop (n + k + 1) k (replicate n (CHR ''a'') @ '';;'')
    = (replicate n (CHR ''a'') @ [bslash, CHR '';''], '';'')" for n k
  proof (induction n arbitrary: k)
    case 0
    show ?case by (simp add: special_def)
  next
    case (Suc n)
    from Suc.IH [of "Suc k"] show ?case by (simp add: special_def)
  qed
  have q: "needs_quote (replicate n (CHR ''a'') @ '';;'')" for n
    by (induction n) (auto simp: special_def)
  have "bufsize - 2 = (bufsize - 3) + 0 + 1" using assms by simp
  then have "quote_loop (u32_sub bufsize 2) 0 (replicate (bufsize - 3) (CHR ''a'') @ '';;'')
    = (replicate (bufsize - 3) (CHR ''a'') @ [bslash, CHR '';''], '';'')"
    using assms loop [of "bufsize - 3" 0] by simp
  then show ?thesis
    using assms by (simp add: q put_cstr_def)
qed

theorem atom_string_overflow_witness:
  "atom_string (SYMBOL (replicate (10 - 3) (CHR ''a'') @ '';;'')) 10 = Inl OutOfBounds"
  by (rule atom_string_overflow) simp_all

end
