(* ===== verification/Binbuf.thy ===== *)
theory Binbuf
  imports Atoms
begin

text \<open>
  Binbufs (\<open>m_binbuf.c\<close>): vectors of atoms, their conversion from and to text, the two
  encodings used when patches are saved and restored, the expansion of dollar symbols,
  and the evaluator that turns a binbuf into messages.
\<close>

type_synonym t_binbuf = "t_atom list"

definition MAXPDSTRING :: nat where
  "MAXPDSTRING = 1000"

subsection \<open>Vector operations\<close>

definition binbuf_new :: t_binbuf where
  "binbuf_new = []"

definition binbuf_duplicate :: "t_binbuf \<Rightarrow> t_binbuf" where
  "binbuf_duplicate y = map (\<lambda>i. y ! i) [0..<length y]"

definition binbuf_clear :: "t_binbuf \<Rightarrow> t_binbuf" where
  "binbuf_clear x = take 0 x"

definition binbuf_add :: "t_binbuf \<Rightarrow> t_atom list \<Rightarrow> t_binbuf" where
  "binbuf_add x argv = x @ argv"

definition binbuf_addsemi :: "t_binbuf \<Rightarrow> t_binbuf" where
  "binbuf_addsemi x = binbuf_add x [SEMI]"

definition binbuf_getnatom :: "t_binbuf \<Rightarrow> nat" where
  "binbuf_getnatom x = length x"

text \<open>The variadic arguments of \<open>binbuf_addv\<close>, fetched with the type the format asks for.\<close>

datatype vararg = VInt int | VDouble fl | VSym t_symbol

definition MAXADDMESSV :: nat where
  "MAXADDMESSV = 100"

fun addv_args :: "nat \<Rightarrow> string \<Rightarrow> vararg list \<Rightarrow> t_atom list cresult" where
  "addv_args nargs [] va = Inr []"
| "addv_args nargs (c # fp) va =
     (if nargs \<ge> MAXADDMESSV then Inr []
      else if c = CHR ''i'' then
        (case va of VInt i # va' \<Rightarrow>
           cbind (addv_args (Suc nargs) fp va') (\<lambda>l. Inr (FLOAT (fl_of_int binary32 i) # l))
         | _ \<Rightarrow> Inl TypeConfusion)
      else if c = CHR ''f'' then
        (case va of VDouble f # va' \<Rightarrow>
           cbind (addv_args (Suc nargs) fp va') (\<lambda>l. Inr (FLOAT (fl_convert binary32 f) # l))
         | _ \<Rightarrow> Inl TypeConfusion)
      else if c = CHR ''s'' then
        (case va of VSym s # va' \<Rightarrow>
           cbind (addv_args (Suc nargs) fp va') (\<lambda>l. Inr (SYMBOL s # l))
         | _ \<Rightarrow> Inl TypeConfusion)
      else if c = CHR '';'' then cbind (addv_args (Suc nargs) fp va) (\<lambda>l. Inr (SEMI # l))
      else if c = CHR '','' then cbind (addv_args (Suc nargs) fp va) (\<lambda>l. Inr (COMMA # l))
      else Inr [])"

definition binbuf_addv :: "t_binbuf \<Rightarrow> string \<Rightarrow> vararg list \<Rightarrow> t_binbuf cresult" where
  "binbuf_addv x fmt va = cbind (addv_args 0 fmt va) (\<lambda>arg. Inr (binbuf_add x arg))"

subsection \<open>Text to binbuf\<close>

definition is_space :: "char \<Rightarrow> bool" where
  "is_space c \<longleftrightarrow> c = CHR '' '' \<or> c = CHR 0x0A \<or> c = CHR 0x0D \<or> c = CHR 0x09"

definition is_delim :: "char \<Rightarrow> bool" where
  "is_delim c \<longleftrightarrow> is_space c \<or> c = CHR '','' \<or> c = CHR '';''"

definition cstr :: "string \<Rightarrow> string" where
  "cstr s = takeWhile (\<lambda>c. c \<noteq> CHR 0x00) s"

text \<open>The number recogniser: states 0 to 8, and -1 for text that is no number.\<close>

definition float_step :: "int \<Rightarrow> char \<Rightarrow> int" where
  "float_step floatstate c = (let
      digit = is_digit c; dot = (c = CHR ''.''); minus = (c = CHR ''-'');
      plusminus = (minus \<or> c = CHR ''+''); expon = (c = CHR ''e'' \<or> c = CHR ''E'')
    in if floatstate = 0 then (if minus then 1 else if digit then 2 else if dot then 3 else -1)
       else if floatstate = 1 then (if digit then 2 else if dot then 3 else -1)
       else if floatstate = 2 then (if dot then 4 else if expon then 6 else if \<not> digit then -1 else 2)
       else if floatstate = 3 then (if digit then 5 else -1)
       else if floatstate = 4 then (if digit then 5 else if expon then 6 else -1)
       else if floatstate = 5 then (if expon then 6 else if \<not> digit then -1 else 5)
       else if floatstate = 6 then (if plusminus then 7 else if digit then 8 else -1)
       else if floatstate = 7 then (if digit then 8 else -1)
       else if floatstate = 8 then (if \<not> digit then -1 else 8)
       else floatstate)"

definition float_accept :: "int \<Rightarrow> bool" where
  "float_accept floatstate \<longleftrightarrow>
     floatstate = 2 \<or> floatstate = 4 \<or> floatstate = 5 \<or> floatstate = 8"

record tok =
  t_buf :: string
  t_fs :: int
  t_slash :: bool
  t_dollar :: bool

definition tok_init :: tok where
  "tok_init = \<lparr>t_buf = [], t_fs = 0, t_slash = False, t_dollar = False\<rparr>"

text \<open>One turn of the scanning loop on character \<open>c\<close>, with \<open>cs\<close> the text behind it.\<close>

definition tok_step :: "char \<Rightarrow> string \<Rightarrow> tok \<Rightarrow> tok" where
  "tok_step c cs st = (let lastslash = t_slash st; slash = (c = bslash) in
     \<lparr>t_buf = (if slash then t_buf st else t_buf st @ [c]),
      t_fs = (if t_fs st \<ge> 0 then float_step (t_fs st) c else t_fs st),
      t_slash = slash,
      t_dollar = (if \<not> lastslash \<and> c = CHR ''$'' \<and> cs \<noteq> [] \<and> is_digit (hd cs) then True
                  else t_dollar st)\<rparr>)"

fun scan_atom :: "string \<Rightarrow> tok \<Rightarrow> tok \<times> string" where
  "scan_atom [] st = (st, [])"
| "scan_atom (c # cs) st = (let st' = tok_step c cs st in
     if cs \<noteq> [] \<and> length (t_buf st') \<noteq> MAXPDSTRING \<and> (t_slash st' \<or> \<not> is_delim (hd cs))
     then scan_atom cs st' else (st', cs))"

definition make_atom :: "tok \<Rightarrow> t_atom" where
  "make_atom st = (let buf = cstr (t_buf st) in
     if float_accept (t_fs st) then FLOAT (fl_convert binary32 (atof buf))
     else if t_dollar st then
       (if buf \<noteq> [] \<and> hd buf = CHR ''$'' \<and> (\<forall>c \<in> set (tl buf). is_digit c)
        then DOLLAR (atoi (tl buf)) else DOLLSYM buf)
     else SYMBOL buf)"

lemma length_scan_atom: "length (snd (scan_atom cs st)) \<le> length cs"
proof (induction cs arbitrary: st)
  case Nil
  show ?case by simp
next
  case (Cons c cs)
  show ?case using Cons.IH by (simp add: Let_def le_SucI)
qed

lemma length_scan_atom_Cons: "length (snd (scan_atom (c # cs) st)) \<le> length cs"
  using length_scan_atom [of cs] by (simp add: Let_def)

function binbuf_text :: "string \<Rightarrow> t_binbuf" where
  "binbuf_text tx = (case dropWhile is_space tx of
      [] \<Rightarrow> []
    | c # cs \<Rightarrow>
        (if c = CHR '';'' then SEMI # binbuf_text cs
         else if c = CHR '','' then COMMA # binbuf_text cs
         else (case scan_atom (c # cs) tok_init of (st, rest) \<Rightarrow> make_atom st # binbuf_text rest)))"
  by pat_completeness auto
termination
proof (relation "measure length", goal_cases)
  case 1
  show ?case by simp
next
  case (2 tx c cs)
  then show ?case using length_dropWhile_le [of is_space tx] by simp
next
  case (3 tx c cs)
  then show ?case using length_dropWhile_le [of is_space tx] by simp
next
  case (4 tx c cs st rest)
  from 4(4) have "snd (scan_atom (c # cs) tok_init) = rest" by (metis snd_conv)
  then show ?case
    using length_dropWhile_le [of is_space tx] length_scan_atom_Cons [of c cs tok_init] 4(1)
    by (simp del: scan_atom.simps)
qed

declare binbuf_text.simps [simp del]

subsection \<open>Binbuf to text\<close>

definition is_sep :: "t_atom \<Rightarrow> bool" where
  "is_sep a \<longleftrightarrow> a = SEMI \<or> a = COMMA"

definition trim_space :: "string \<Rightarrow> string" where
  "trim_space buf = (if buf \<noteq> [] \<and> last buf = CHR '' '' then butlast buf else buf)"

fun gettext_loop :: "string \<Rightarrow> t_atom list \<Rightarrow> string cresult" where
  "gettext_loop buf [] = Inr (trim_space buf)"
| "gettext_loop buf (a # as) =
     (let buf1 = (if is_sep a then trim_space buf else buf) in
      cbind (atom_string a MAXPDSTRING) (\<lambda>str.
        gettext_loop (buf1 @ str @ [if a = SEMI then CHR 0x0A else CHR '' '']) as))"

definition binbuf_gettext :: "t_binbuf \<Rightarrow> string cresult" where
  "binbuf_gettext x = gettext_loop [] x"

subsection \<open>Saving into and restoring from messages\<close>

fun save_atom :: "t_atom \<Rightarrow> t_atom cresult" where
  "save_atom SEMI = Inr (SYMBOL '';'')"
| "save_atom COMMA = Inr (SYMBOL '','')"
| "save_atom (DOLLAR i) = Inr (SYMBOL (''$'' @ fmt_d i))"
| "save_atom (DOLLSYM s) = cbind (atom_string (DOLLSYM s) MAXPDSTRING) (\<lambda>t. Inr (SYMBOL t))"
| "save_atom (SYMBOL s) = (if s = '';'' then Inr (SYMBOL '';'')
     else if s = '','' then Inr (SYMBOL '','') else Inr (SYMBOL s))"
| "save_atom (FLOAT f) = Inr (FLOAT f)"
| "save_atom (POINTER gp) = Inr (POINTER gp)"

fun save_atoms :: "t_atom list \<Rightarrow> t_atom list cresult" where
  "save_atoms [] = Inr []"
| "save_atoms (a # as) = cbind (save_atom a) (\<lambda>b. cbind (save_atoms as) (\<lambda>bs. Inr (b # bs)))"

definition binbuf_addbinbuf :: "t_binbuf \<Rightarrow> t_binbuf \<Rightarrow> t_binbuf cresult" where
  "binbuf_addbinbuf x y = cbind (save_atoms (binbuf_add binbuf_new y)) (\<lambda>z. Inr (binbuf_add x z))"

fun restore_atom :: "t_atom \<Rightarrow> t_atom" where
  "restore_atom (SYMBOL str) =
     (if str = '';'' then SEMI
      else if str = '','' then COMMA
      else case strchr str (CHR ''$'') of
        None \<Rightarrow> SYMBOL str
      | Some i \<Rightarrow>
          if Suc i < length str \<and> is_digit (str ! Suc i) then
            (if hd str \<noteq> CHR ''$'' \<or> (\<exists>c \<in> set (tl str). \<not> is_digit c) then DOLLSYM str
             else DOLLAR (atoi (tl str)))
          else SYMBOL str)"
| "restore_atom a = a"

definition binbuf_restore :: "t_binbuf \<Rightarrow> t_atom list \<Rightarrow> t_binbuf" where
  "binbuf_restore x argv = x @ map restore_atom argv"

subsection \<open>Dollar symbols\<close>

text \<open>
  \<open>s\<close> is the text behind the dollar sign. The counting loop reads the first digit
  twice, so that after \<open>d > 0\<close> digits \<open>arglen\<close> is \<open>d + 1\<close>. Returns the number of
  characters to skip and the expansion.
\<close>

definition binbuf_expanddollsym ::
    "string \<Rightarrow> t_atom \<Rightarrow> t_atom list \<Rightarrow> bool \<Rightarrow> (nat \<times> string) cresult" where
  "binbuf_expanddollsym s dollar0 av tonew = (let
      argno = atoi s;
      d = length (takeWhile is_digit s);
      arglen = (if d = 0 then 0 else d + 1)
    in if arglen = 0 then Inr (0, ''$'')
       else if argno < 0 \<or> argno > int (length av) then
         (if \<not> tonew then Inr (0, []) else Inr (arglen - 1, ''$'' @ fmt_d argno))
       else if argno = 0 then
         cbind (atom_string dollar0 (MAXPDSTRING div 2 - 1)) (\<lambda>buf. Inr (arglen - 1, buf))
       else
         cbind (atom_string (av ! nat (argno - 1)) (MAXPDSTRING div 2 - 1)) (\<lambda>buf. Inr (arglen - 1, buf)))"

text \<open>Appending to \<open>buf2\<close>, which has room for \<open>MAXPDSTRING\<close> bytes with the final zero.\<close>

definition buf2_cat :: "string \<Rightarrow> string \<Rightarrow> string cresult" where
  "buf2_cat buf2 s = put_cstr MAXPDSTRING (buf2 @ s)"

lemma strchr_drop_less: "strchr t c = Some k \<Longrightarrow> length (drop (Suc k) t) < length t"
  by (drule strchr_Some) auto

function realize_loop ::
    "t_atom \<Rightarrow> t_atom list \<Rightarrow> bool \<Rightarrow> string \<Rightarrow> string \<Rightarrow> t_symbol option cresult" where
  "realize_loop dollar0 av tonew str buf2 =
     (case binbuf_expanddollsym str dollar0 av tonew of
        Inl e \<Rightarrow> Inl e
      | Inr (nxt, buf) \<Rightarrow>
          if \<not> tonew \<and> nxt = 0 \<and> buf = [] then Inr None
          else (case buf2_cat buf2 (take (MAXPDSTRING div 2 - 1) buf) of
              Inl e \<Rightarrow> Inl e
            | Inr b1 \<Rightarrow>
                (let str1 = drop nxt str in
                 case strchr str1 (CHR ''$'') of
                   None \<Rightarrow> cbind (buf2_cat b1 str1) (\<lambda>b. Inr (Some b))
                 | Some k \<Rightarrow> (case buf2_cat b1 (take k str1) of
                       Inl e \<Rightarrow> Inl e
                     | Inr b2 \<Rightarrow> realize_loop dollar0 av tonew (drop (Suc k) str1) b2))))"
  by pat_completeness auto
termination
proof (relation "measure (\<lambda>(d, av, t, str, b). length str)", goal_cases)
  case 1
  show ?case by simp
next
  case (2 dollar0 av tonew str buf2 p nxt buf b1 str1 k b2)
  then show ?case using strchr_drop_less [of str1 "CHR ''$''" k] by simp
qed

declare realize_loop.simps [simp del]

definition binbuf_realizedollsym ::
    "int \<Rightarrow> t_symbol \<Rightarrow> t_atom list \<Rightarrow> bool \<Rightarrow> t_symbol option cresult" where
  "binbuf_realizedollsym dollarzero s av tonew =
     (case strchr s (CHR ''$'') of
        None \<Rightarrow> Inr (Some s)
      | Some k \<Rightarrow>
          if k \<ge> MAXPDSTRING then Inr (Some s)
          else realize_loop (FLOAT (fl_of_int binary32 dollarzero)) av tonew (drop (Suc k) s) (take k s))"

end
