(* ===== verification/BinbufText.thy ===== *)
theory BinbufText
  imports Binbuf
begin

text \<open>
  Printing a binbuf and reading the text back: how the scanner of \<open>binbuf_text\<close> treats
  the text \<open>atom_string\<close> writes for one atom, how the texts of the atoms are joined by
  \<open>binbuf_gettext\<close>, and the round trip for whole binbufs.
\<close>

subsection \<open>The scanner on plain and on quoted text\<close>

lemma float_step_neg [simp]: "f < 0 \<Longrightarrow> float_step f c = f"
  by (simp add: float_step_def Let_def)

lemma foldl_float_step_neg [simp]: "f < 0 \<Longrightarrow> foldl float_step f s = f"
  by (induction s) simp_all

text \<open>A character no number contains sends the recogniser to its rejecting state for good.\<close>

lemma float_step_other:
  assumes "-1 \<le> f" "f \<le> 8" "c = bslash \<or> c = CHR ''$''"
  shows "float_step f c = -1"
proof (cases "f = -1")
  case False
  with assms(1,2)
  have f: "f = 0 \<or> f = 1 \<or> f = 2 \<or> f = 3 \<or> f = 4 \<or> f = 5 \<or> f = 6 \<or> f = 7 \<or> f = 8"
    by presburger
  have "\<not> is_digit c" "c \<noteq> CHR ''.''" "c \<noteq> CHR ''-''" "c \<noteq> CHR ''+''" "c \<noteq> CHR ''e''" "c \<noteq> CHR ''E''"
    using assms(3) by (auto simp: is_digit_def)
  then show ?thesis using f by (elim disjE) (simp_all add: float_step_def Let_def)
qed simp

lemma float_step_range: "-1 \<le> f \<Longrightarrow> f \<le> 8 \<Longrightarrow> -1 \<le> float_step f c \<and> float_step f c \<le> 8"
  by (simp add: float_step_def Let_def)

lemma tok_step_simps [simp]:
  "t_fs (tok_step c cs st) = float_step (t_fs st) c"
  "t_slash (tok_step c cs st) = (c = bslash)"
  "t_buf (tok_step c cs st) = (if c = bslash then t_buf st else t_buf st @ [c])"
  by (auto simp: tok_step_def Let_def)

fun dollar_digit :: "string \<Rightarrow> bool" where
  "dollar_digit [] = False"
| "dollar_digit (c # cs) = ((c = CHR ''$'' \<and> cs \<noteq> [] \<and> is_digit (hd cs)) \<or> dollar_digit cs)"

lemma delim_not_digit: "is_delim c \<Longrightarrow> \<not> is_digit c"
  by (auto simp: is_delim_def is_space_def is_digit_def)

abbreviation ends_token :: "string \<Rightarrow> bool" where
  "ends_token r \<equiv> r = [] \<or> is_delim (hd r)"

definition plain :: "string \<Rightarrow> bool" where
  "plain s \<longleftrightarrow> (\<forall>c \<in> set s. \<not> is_delim c \<and> c \<noteq> bslash \<and> c \<noteq> CHR 0x00)"

lemma cstr_plain [simp]: "(\<forall>c \<in> set s. c \<noteq> CHR 0x00) \<Longrightarrow> cstr s = s"
  by (simp add: cstr_def takeWhile_eq_all_conv)

lemma scan_plain:
  assumes "s \<noteq> []" "plain s" "ends_token r"
    "length (t_buf st) + length s < MAXPDSTRING" "\<not> t_slash st"
  shows "scan_atom (s @ r) st =
    (\<lparr>t_buf = t_buf st @ s, t_fs = foldl float_step (t_fs st) s, t_slash = False,
      t_dollar = (t_dollar st \<or> dollar_digit s)\<rparr>, r)"
  using assms
proof (induction s arbitrary: st)
  case Nil
  then show ?case by simp
next
  case (Cons c cs)
  let ?st = "tok_step c (cs @ r) st"
  have c: "c \<noteq> bslash" "\<not> is_delim c" using Cons.prems by (auto simp: plain_def)
  show ?case
  proof (cases cs)
    case Nil
    with Cons.prems c show ?thesis
      by (auto simp: Let_def tok_step_def delim_not_digit split: if_splits)
  next
    case (Cons d ds)
    then have "\<not> is_delim d" using Cons.prems by (simp add: plain_def)
    then have "scan_atom ((c # cs) @ r) st = scan_atom (cs @ r) ?st"
      using Cons Cons.prems c by (simp add: Let_def)
    also have "\<dots> = (\<lparr>t_buf = t_buf ?st @ cs, t_fs = foldl float_step (t_fs ?st) cs,
        t_slash = False, t_dollar = (t_dollar ?st \<or> dollar_digit cs)\<rparr>, r)"
      using Cons Cons.prems c by (intro Cons.IH) (auto simp: plain_def)
    finally show ?thesis using c Cons.prems Cons
      by (auto simp: tok_step_def Let_def)
  qed
qed

text \<open>A quoted name: the backslashes disappear, and nothing in it counts as a dollar.\<close>

lemma scan_step:
  assumes "cs \<noteq> []" "length (t_buf (tok_step c cs st)) < MAXPDSTRING" "c = bslash \<or> \<not> is_delim (hd cs)"
  shows "scan_atom (c # cs) st = scan_atom cs (tok_step c cs st)"
  using assms by (auto simp: Let_def)

lemma scan_stop:
  assumes "ends_token r" "c \<noteq> bslash"
  shows "scan_atom (c # r) st = (tok_step c r st, r)"
  using assms by (auto simp: Let_def)

lemma hd_quoted_not_delim:
  "s \<noteq> [] \<Longrightarrow> \<forall>c \<in> set s. \<not> is_space c \<Longrightarrow> \<not> is_delim (hd (quoted s @ r))"
  by (cases s) (auto simp: special_def is_delim_def is_space_def)

lemma quoted_no_dollar:
  assumes "\<not> special c cs" "ends_token r"
  shows "\<not> (c = CHR ''$'' \<and> quoted cs @ r \<noteq> [] \<and> is_digit (hd (quoted cs @ r)))"
  using assms delim_not_digit
  by (cases cs) (auto simp: special_def is_digit_def)

lemma scan_quoted:
  assumes "s \<noteq> []" "\<forall>c \<in> set s. \<not> is_space c \<and> c \<noteq> bslash" "ends_token r"
    "length (t_buf st) + length s < MAXPDSTRING" "\<not> t_slash st" "-1 \<le> t_fs st" "t_fs st \<le> 8"
  shows "scan_atom (quoted s @ r) st =
    (\<lparr>t_buf = t_buf st @ s,
      t_fs = (if needs_quote s then -1 else foldl float_step (t_fs st) s), t_slash = False,
      t_dollar = t_dollar st\<rparr>, r)"
  using assms
proof (induction s arbitrary: st)
  case Nil
  then show ?case by simp
next
  case (Cons c cs)
  let ?q = "quoted cs @ r"
  define st' where "st' = (if special c cs then tok_step c ?q (tok_step bslash (c # ?q) st)
    else tok_step c ?q st)"
  have c: "c \<noteq> bslash" "\<not> is_space c" using Cons.prems by auto
  have fsb: "float_step (t_fs st) bslash = -1"
    using Cons.prems(6,7) by (rule float_step_other) simp
  have st': "t_buf st' = t_buf st @ [c]" "\<not> t_slash st'" "t_dollar st' = t_dollar st"
    "t_fs st' = (if special c cs then -1 else float_step (t_fs st) c)"
  proof -
    have "t_dollar st' = t_dollar st"
    proof (cases "special c cs")
      case True
      then show ?thesis by (simp add: st'_def tok_step_def Let_def)
    next
      case False
      with quoted_no_dollar [of c cs r] Cons.prems(3) show ?thesis
        unfolding st'_def tok_step_def Let_def by (simp only: if_False simp_thms) auto
    qed
    then show "t_buf st' = t_buf st @ [c]" "\<not> t_slash st'" "t_dollar st' = t_dollar st"
      "t_fs st' = (if special c cs then -1 else float_step (t_fs st) c)"
      using c by (simp_all add: st'_def fsb)
  qed
  have range: "-1 \<le> t_fs st'" "t_fs st' \<le> 8"
    using float_step_range [OF Cons.prems(6,7), of c] by (auto simp: st')
  have first: "scan_atom (quoted (c # cs) @ r) st = scan_atom (c # ?q) (if special c cs
      then tok_step bslash (c # ?q) st else st)"
  proof (cases "special c cs")
    case True
    have "scan_atom (bslash # c # ?q) st = scan_atom (c # ?q) (tok_step bslash (c # ?q) st)"
      using Cons.prems by (intro scan_step) auto
    with True show ?thesis by simp
  qed simp
  show ?case
  proof (cases "cs = []")
    case True
    with first Cons.prems c have "scan_atom (quoted (c # cs) @ r) st = (st', r)"
      by (auto simp: st'_def intro!: scan_stop)
    with True st' show ?thesis by simp
  next
    case False
    have "scan_atom (quoted (c # cs) @ r) st = scan_atom ?q st'"
      using first False Cons.prems c hd_quoted_not_delim [OF False, of r]
      by (auto simp: st'_def intro!: scan_step)
    also have "\<dots> = (\<lparr>t_buf = t_buf st' @ cs,
        t_fs = (if needs_quote cs then -1 else foldl float_step (t_fs st') cs), t_slash = False,
        t_dollar = t_dollar st'\<rparr>, r)"
      using False Cons.prems st' range by (intro Cons.IH) auto
    finally show ?thesis using st' by auto
  qed
qed

subsection \<open>Atoms that survive\<close>

text \<open>
  Printing loses information on some atoms: floats that six digits do not determine,
  symbols that are empty, look like numbers, or contain white space or backslashes. The
  others are read back as they were.
\<close>

fun printable :: "t_atom \<Rightarrow> bool" where
  "printable (FLOAT f) = (case f of Fin q \<Rightarrow> q = of_int \<lfloor>q\<rfloor> \<and> \<bar>q\<bar> < 1000000 | _ \<Rightarrow> False)"
| "printable (SYMBOL s) = (s \<noteq> [] \<and> (\<forall>c \<in> set s. \<not> is_space c \<and> c \<noteq> bslash \<and> c \<noteq> CHR 0x00) \<and>
     (needs_quote s \<or> \<not> float_accept (foldl float_step 0 s)) \<and>
     length (quoted s) \<le> MAXPDSTRING - 2)"
| "printable (DOLLAR i) = (0 \<le> i \<and> i < 2 ^ 31)"
| "printable (DOLLSYM s) = (plain s \<and> dollar_digit s \<and>
     \<not> (hd s = CHR ''$'' \<and> (\<forall>c \<in> set (tl s). is_digit c)) \<and> length s \<le> MAXPDSTRING - 2)"
| "printable (POINTER gp) = False"
| "printable SEMI = True"
| "printable COMMA = True"

lemma foldl_float_step_digits: "\<forall>c \<in> set s. is_digit c \<Longrightarrow> foldl float_step 2 s = 2"
proof (induction s)
  case (Cons c s)
  then have "float_step 2 c = 2" by (auto simp: float_step_def Let_def is_digit_def)
  with Cons show ?case by simp
qed simp

lemma float_step_digit: "is_digit c \<Longrightarrow> f = 0 \<or> f = 1 \<Longrightarrow> float_step f c = 2"
  using digit_not_sign [of c] by (auto simp: float_step_def Let_def)

lemma float_state_fmt_d: "foldl float_step 0 (fmt_d i) = 2"
proof -
  have "foldl float_step f (digits n) = 2" if "0 \<le> n" "f = 0 \<or> f = 1" for n f
    using that digits_all_digit [OF that(1)] float_step_digit foldl_float_step_digits
    by (cases "digits n") auto
  then show ?thesis
    by (auto simp: fmt_d_def float_step_def Let_def is_digit_def)
qed

lemma digit_plain: "is_digit c \<Longrightarrow> \<not> is_delim c \<and> c \<noteq> bslash \<and> c \<noteq> CHR 0x00 \<and> c \<noteq> CHR ''$''"
  by (auto simp: is_digit_def is_delim_def is_space_def)

lemma plain_digits: "0 \<le> n \<Longrightarrow> plain (digits n)"
  by (auto simp: plain_def dest!: digits_all_digit digit_plain)

lemma plain_fmt_d: "plain (fmt_d i)"
  using plain_digits [of i] plain_digits [of "- i"]
  by (auto simp: fmt_d_def plain_def is_delim_def is_space_def)

definition token :: "t_atom \<Rightarrow> string" where
  "token a = (case atom_string a MAXPDSTRING of Inr s \<Rightarrow> s | Inl e \<Rightarrow> [])"

lemma atom_string_printable_symbol:
  "printable (SYMBOL s) \<Longrightarrow> atom_string (SYMBOL s) MAXPDSTRING = Inr (quoted s)"
  by (rule atom_string_symbol) (simp_all add: MAXPDSTRING_def)

lemma atom_string_printable: "printable a \<Longrightarrow> atom_string a MAXPDSTRING = Inr (token a)"
proof (cases a)
  case (SYMBOL s)
  assume "printable a"
  with SYMBOL show ?thesis
    using atom_string_printable_symbol [of s] by (simp add: token_def)
next
  case (DOLLAR i)
  assume "printable a"
  with DOLLAR have "length (digits i) \<le> 10"
    using length_digits [of i 9] by simp
  with DOLLAR \<open>printable a\<close> show ?thesis
    by (simp add: token_def put_cstr_def MAXPDSTRING_def fmt_d_def)
qed (auto simp: token_def put_cstr_def MAXPDSTRING_def Let_def)

lemma token_symbol: "printable (SYMBOL s) \<Longrightarrow> token (SYMBOL s) = quoted s"
  using atom_string_printable_symbol [of s] by (simp add: token_def)

lemma token_int: "\<bar>i\<bar> < 1000000 \<Longrightarrow> token (FLOAT (Fin (of_int i))) = fmt_d i"
proof -
  assume i: "\<bar>i\<bar> < 1000000"
  then have "length (digits \<bar>i\<bar>) \<le> 6" using length_digits [of "\<bar>i\<bar>" 5] by simp
  then have "length (fmt_d i) \<le> 7" by (auto simp: fmt_d_def abs_if split: if_splits)
  with i show ?thesis
    by (simp add: token_def fmt_g_of_int put_cstr_def MAXPDSTRING_def del: fmt_g.simps)
qed

lemma token_dollar: "printable (DOLLAR i) \<Longrightarrow> token (DOLLAR i) = ''$'' @ digits i"
  using length_digits [of i 9]
  by (simp add: token_def put_cstr_def MAXPDSTRING_def fmt_d_def)

lemma token_dollsym: "printable (DOLLSYM s) \<Longrightarrow> token (DOLLSYM s) = s"
  by (simp add: token_def MAXPDSTRING_def)

text \<open>A token starts with a character that is neither white space nor a separator.\<close>

lemma binbuf_text_token:
  assumes "t \<noteq> []" "\<not> is_delim (hd t)" "scan_atom (t @ r) tok_init = (st, r)"
  shows "binbuf_text (t @ r) = make_atom st # binbuf_text r"
proof -
  obtain c cs where t: "t = c # cs" using assms(1) by (cases t) auto
  with assms(2) have "\<not> is_space c" "c \<noteq> CHR '';''" "c \<noteq> CHR '',''" by (auto simp: is_delim_def)
  with assms(3) t show ?thesis
    by (subst binbuf_text.simps) (simp del: scan_atom.simps)
qed

lemma binbuf_text_plain:
  assumes "t \<noteq> []" "plain t" "ends_token r" "length t < MAXPDSTRING"
  shows "binbuf_text (t @ r) = make_atom \<lparr>t_buf = t, t_fs = foldl float_step 0 t,
    t_slash = False, t_dollar = dollar_digit t\<rparr> # binbuf_text r"
proof (rule binbuf_text_token)
  show "\<not> is_delim (hd t)" using assms by (auto simp: plain_def)
  show "scan_atom (t @ r) tok_init = (\<lparr>t_buf = t, t_fs = foldl float_step 0 t,
      t_slash = False, t_dollar = dollar_digit t\<rparr>, r)"
    using scan_plain [of t r tok_init] assms by (simp add: tok_init_def)
qed (rule assms)

lemma foldl_float_step_dollar:
  "dollar_digit s \<Longrightarrow> -1 \<le> f \<Longrightarrow> f \<le> 8 \<Longrightarrow> foldl float_step f s = -1"
proof (induction s arbitrary: f)
  case (Cons c s)
  note r = float_step_range [OF Cons.prems(2,3), of c]
  show ?case
  proof (cases "dollar_digit s")
    case True
    with Cons.IH [of "float_step f c"] r show ?thesis by simp
  next
    case False
    with Cons.prems have "float_step f c = -1" by (intro float_step_other) auto
    then show ?thesis by simp
  qed
qed simp

lemma parse_token:
  assumes "printable a" "\<not> is_sep a" "ends_token r"
  shows "binbuf_text (token a @ r) = a # binbuf_text r"
proof (cases a)
  case (FLOAT f)
  with assms obtain q where q: "f = Fin q" "q = of_int \<lfloor>q\<rfloor>" "\<bar>q\<bar> < 1000000"
    by (cases f) auto
  define i where "i = \<lfloor>q\<rfloor>"
  have fi: "f = Fin (of_int i)" using q by (simp add: i_def)
  have "\<bar>of_int i :: rat\<bar> < of_int 1000000" using q by (simp add: i_def)
  then have i: "\<bar>i\<bar> < 1000000" by (metis of_int_abs of_int_less_iff)
  then have len: "length (fmt_d i) < MAXPDSTRING"
    using length_digits [of "\<bar>i\<bar>" 5] by (auto simp: fmt_d_def MAXPDSTRING_def abs_if split: if_splits)
  have ne: "fmt_d i \<noteq> []" by (simp add: fmt_d_def)
  have v: "fl_convert binary32 (atof (fmt_d i)) = Fin (of_int i)"
    using i atof_fmt_d [of i] atof_fmt_d_zero fl_of_int_binary32 [of i]
    by (cases "i = 0") (auto simp: fl_of_int_def)
  have "binbuf_text (fmt_d i @ r) = FLOAT (Fin (of_int i)) # binbuf_text r"
    using binbuf_text_plain [OF ne plain_fmt_d assms(3) len] plain_fmt_d [of i] v
    by (simp add: make_atom_def float_state_fmt_d float_accept_def plain_def Let_def)
  then show ?thesis using FLOAT fi i by (simp add: token_int)
next
  case (SYMBOL s)
  with assms have s: "printable (SYMBOL s)" by simp
  define st where "st = \<lparr>t_buf = s, t_fs = (if needs_quote s then -1 else foldl float_step 0 s),
    t_slash = False, t_dollar = False\<rparr>"
  have scan: "scan_atom (quoted s @ r) tok_init = (st, r)"
    using scan_quoted [of s r tok_init] s assms(3) length_quoted [of s]
    by (simp add: tok_init_def MAXPDSTRING_def st_def)
  have "\<not> float_accept (t_fs st)" "cstr s = s"
    using s by (auto simp: st_def float_accept_def)
  then have "make_atom st = SYMBOL s" by (simp add: make_atom_def st_def)
  moreover have "\<not> is_delim (hd (quoted s))" "quoted s \<noteq> []"
    using s hd_quoted_not_delim [of s "[]"] by simp_all
  ultimately have "binbuf_text (quoted s @ r) = SYMBOL s # binbuf_text r"
    using binbuf_text_token [OF _ _ scan] by simp
  then show ?thesis using SYMBOL s token_symbol by simp
next
  case (DOLLAR i)
  with assms have i: "printable (DOLLAR i)" by simp
  then have d: "\<forall>c \<in> set (digits i). is_digit c" "plain (digits i)"
    using digits_all_digit plain_digits by auto
  then have dd: "dollar_digit (''$'' @ digits i)" by (cases "digits i") auto
  have p: "plain (''$'' @ digits i)" using d by (simp add: plain_def is_delim_def is_space_def)
  have len: "length (''$'' @ digits i) < MAXPDSTRING"
    using length_digits [of i 9] i by (simp add: MAXPDSTRING_def)
  have fs: "\<not> float_accept (foldl float_step 0 (''$'' @ digits i))"
    using foldl_float_step_dollar [OF dd, of 0] by (simp add: float_accept_def)
  have "cstr (''$'' @ digits i) = ''$'' @ digits i" using p by (intro cstr_plain) (simp add: plain_def)
  then have "make_atom \<lparr>t_buf = ''$'' @ digits i, t_fs = foldl float_step 0 (''$'' @ digits i),
    t_slash = False, t_dollar = dollar_digit (''$'' @ digits i)\<rparr> = DOLLAR i"
    using fs dd d(1) i by (simp add: make_atom_def Let_def atoi_digits)
  then have "binbuf_text ((''$'' @ digits i) @ r) = DOLLAR i # binbuf_text r"
    using binbuf_text_plain [OF _ p assms(3) len] by simp
  then show ?thesis using DOLLAR i by (simp add: token_dollar)
next
  case (DOLLSYM s)
  with assms have s: "printable (DOLLSYM s)" by simp
  then have ne: "s \<noteq> []" by auto
  have fs: "\<not> float_accept (foldl float_step 0 s)"
    using s foldl_float_step_dollar [of s 0] by (simp add: float_accept_def)
  have "cstr s = s" using s by (intro cstr_plain) (simp add: plain_def)
  then have "make_atom \<lparr>t_buf = s, t_fs = foldl float_step 0 s, t_slash = False,
    t_dollar = dollar_digit s\<rparr> = DOLLSYM s"
    using fs s by (simp add: make_atom_def Let_def)
  then have "binbuf_text (s @ r) = DOLLSYM s # binbuf_text r"
    using binbuf_text_plain [of s r] s ne assms(3) by (simp add: MAXPDSTRING_def)
  then show ?thesis using DOLLSYM s token_dollsym by simp
qed (use assms in \<open>auto simp: is_sep_def\<close>)

subsection \<open>Joining the tokens\<close>

definition sep_after :: "t_atom \<Rightarrow> t_atom list \<Rightarrow> string" where
  "sep_after a as = (if a = SEMI then [CHR 0x0A]
     else if as = [] \<or> is_sep (hd as) then [] else '' '')"

fun render :: "t_atom list \<Rightarrow> string" where
  "render [] = []"
| "render (a # as) = token a @ sep_after a as @ render as"

lemma trim_space_simps [simp]:
  "trim_space (buf @ '' '') = buf"
  "buf = [] \<or> last buf \<noteq> CHR '' '' \<Longrightarrow> trim_space buf = buf"
  by (auto simp: trim_space_def)

lemma gettext_loop_render:
  assumes "\<forall>a \<in> set as. printable a"
  shows "(buf = [] \<or> last buf \<noteq> CHR '' '' \<longrightarrow> gettext_loop buf as = Inr (buf @ render as)) \<and>
    gettext_loop (buf @ '' '') as =
      Inr (buf @ (if as = [] \<or> is_sep (hd as) then render as else '' '' @ render as))"
  using assms
proof (induction as arbitrary: buf)
  case Nil
  show ?case by simp
next
  case (Cons a as)
  have tok: "atom_string a MAXPDSTRING = Inr (token a)"
    using Cons.prems by (simp add: atom_string_printable)
  define sep where "sep = (if a = SEMI then CHR 0x0A else CHR '' '')"
  have rest: "gettext_loop (b @ token a @ [sep]) as = Inr (b @ render (a # as))" for b
    using Cons.IH [of "b @ token a"] Cons.IH [of "b @ token a @ [CHR 0x0A]"] Cons.prems
    by (cases "a = SEMI") (auto simp: sep_def sep_after_def)
  show ?case
    by (auto simp: tok Let_def sep_def [symmetric] rest rest [of "buf @ '' ''", simplified])
qed

lemma binbuf_text_space [simp]: "is_space c \<Longrightarrow> binbuf_text (c # r) = binbuf_text r"
  by (simp add: binbuf_text.simps [of "c # r"] binbuf_text.simps [of r])

lemma binbuf_text_sep [simp]:
  "binbuf_text (CHR '';'' # r) = SEMI # binbuf_text r"
  "binbuf_text (CHR '','' # r) = COMMA # binbuf_text r"
  by (simp_all add: binbuf_text.simps [of "CHR '';'' # r"] binbuf_text.simps [of "CHR '','' # r"]
      is_space_def)

lemma binbuf_text_Nil [simp]: "binbuf_text [] = []"
  by (simp add: binbuf_text.simps)

lemma token_sep [simp]: "token SEMI = '';''" "token COMMA = '',''"
  by (simp_all add: token_def put_cstr_def MAXPDSTRING_def)

lemma ends_token_render: "ends_token (sep_after a as @ render as)" if "a \<noteq> SEMI"
  using that by (cases as) (auto simp: sep_after_def is_sep_def is_delim_def is_space_def)

lemma binbuf_text_sep_after: "binbuf_text (sep_after a as @ r) = binbuf_text r"
  by (simp add: sep_after_def is_space_def)

lemma binbuf_text_render: "\<forall>a \<in> set as. printable a \<Longrightarrow> binbuf_text (render as) = as"
proof (induction as)
  case (Cons a as)
  then have IH: "binbuf_text (render as) = as" and a: "printable a" by simp_all
  show ?case
  proof (cases "is_sep a")
    case True
    then show ?thesis using IH by (auto simp: is_sep_def binbuf_text_sep_after)
  next
    case False
    then have "a \<noteq> SEMI" by (auto simp: is_sep_def)
    with parse_token [OF a False ends_token_render] IH show ?thesis
      by (simp add: binbuf_text_sep_after)
  qed
qed simp

text \<open>\<^bold>\<open>C5\<close>: Reading back what was printed: \<open>binbuf_gettext\<close> prints a binbuf without a buffer overrun, and \<open>binbuf_text\<close> turns the
  text back into the same binbuf, where each atom is a separator, a whole number between -1000000 and 1000000 (both excluded), a dollar argument
  from 0 to \<open>2 ^ 31 - 1\<close>, a dollar symbol or a symbol as follows. A symbol is not empty, has no white space, backslash or zero byte,
  does not look like a number (unless a character in it is quoted) and is at most 998 bytes long together with the backslashes that it
  is printed with (before each \<open>;\<close> and \<open>,\<close>, and before each dollar sign that a digit follows). A dollar symbol has no white space, separator,
  backslash or zero byte, has a dollar sign followed by a digit, is not a dollar sign with digits only behind it, and is at most 998 bytes
  long. Longer ones may overrun the buffer or be cut.\<close>

theorem binbuf_text_gettext:
  assumes "\<forall>a \<in> set x. printable a"
  shows "\<exists>t. binbuf_gettext x = Inr t \<and> binbuf_text t = x"
  using gettext_loop_render [OF assms, of "[]"] binbuf_text_render [OF assms]
  by (simp add: binbuf_gettext_def)

theorem binbuf_text_gettext_witness:
  "\<exists>t. binbuf_gettext [SYMBOL ''a;b'', FLOAT (Fin (-12)), COMMA, DOLLAR 1, SEMI] = Inr t
     \<and> binbuf_text t = [SYMBOL ''a;b'', FLOAT (Fin (-12)), COMMA, DOLLAR 1, SEMI]"
  by (rule binbuf_text_gettext) (simp add: special_def is_space_def MAXPDSTRING_def)

text \<open>An escaped backslash is not read back: \<open>atom_string\<close> doubles the backslash of a
  symbol, and \<open>binbuf_text\<close> drops both, so that the symbol comes back without it.\<close>

theorem backslash_lost:
  "binbuf_gettext [SYMBOL [CHR ''a'', bslash, CHR ''b'']] = Inr [CHR ''a'', bslash, bslash, CHR ''b'']
   \<and> binbuf_text [CHR ''a'', bslash, bslash, CHR ''b''] = [SYMBOL ''ab'']"
proof
  show "binbuf_gettext [SYMBOL [CHR ''a'', bslash, CHR ''b'']] = Inr [CHR ''a'', bslash, bslash, CHR ''b'']"
    by (simp add: binbuf_gettext_def MAXPDSTRING_def special_def put_cstr_def is_sep_def trim_space_def)
  show "binbuf_text [CHR ''a'', bslash, bslash, CHR ''b''] = [SYMBOL ''ab'']"
    by (simp add: binbuf_text.simps [of "[CHR ''a'', bslash, bslash, CHR ''b'']"] is_space_def is_delim_def
      tok_step_def tok_init_def make_atom_def float_step_def is_digit_def float_accept_def cstr_def MAXPDSTRING_def)
qed

end
