(* ===== verification/BinbufSave.thy ===== *)
theory BinbufSave
  imports BinbufText
begin

text \<open>
  The encodings of saved patches: \<open>binbuf_addbinbuf\<close> turns separators and dollar
  arguments into symbols, \<open>binbuf_restore\<close> turns them back; and the expansion of dollar
  symbols.
\<close>

subsection \<open>Saving and restoring\<close>

definition first_dollar_digit :: "string \<Rightarrow> bool" where
  "first_dollar_digit s = (case strchr s (CHR ''$'') of None \<Rightarrow> False
     | Some i \<Rightarrow> Suc i < length s \<and> is_digit (s ! Suc i))"

text \<open>The atoms whose saved form is told apart from that of every other atom.\<close>

fun savable :: "t_atom \<Rightarrow> bool" where
  "savable (SYMBOL s) = (s \<noteq> '';'' \<and> s \<noteq> '','' \<and> \<not> first_dollar_digit s)"
| "savable (DOLLAR i) = (0 \<le> i \<and> i < 2 ^ 31)"
| "savable (DOLLSYM s) = (first_dollar_digit s \<and>
     (hd s \<noteq> CHR ''$'' \<or> (\<exists>c \<in> set (tl s). \<not> is_digit c)) \<and> length s < MAXPDSTRING)"
| "savable _ = True"

lemma restore_save_atom:
  "savable a \<Longrightarrow> \<exists>b. save_atom a = Inr b \<and> restore_atom b = a"
proof (cases a)
  case (SYMBOL s)
  assume "savable a"
  with SYMBOL show ?thesis by (auto simp: first_dollar_digit_def split: option.splits)
next
  case (DOLLAR i)
  assume "savable a"
  with DOLLAR have i: "0 \<le> i" "i < 2 ^ 31" by auto
  obtain d ds where d: "digits i = d # ds" by (cases "digits i") auto
  moreover have "\<forall>c \<in> set (digits i). is_digit c" using i digits_all_digit by blast
  ultimately show ?thesis using DOLLAR i atoi_digits [of i] by (auto simp: fmt_d_def)
next
  case (DOLLSYM s)
  assume "savable a"
  with DOLLSYM show ?thesis
    by (auto simp: first_dollar_digit_def MAXPDSTRING_def split: option.splits)
qed auto

lemma restore_save_atoms:
  "\<forall>a \<in> set y. savable a \<Longrightarrow> \<exists>z. save_atoms y = Inr z \<and> map restore_atom z = y"
proof (induction y)
  case (Cons a y)
  then show ?case using restore_save_atom [of a] by auto
qed simp

text \<open>\<^bold>\<open>C6\<close>: Saving and restoring: \<open>binbuf_restore\<close> gives back the atoms that \<open>binbuf_addbinbuf\<close> saved, where they are separators, numbers,
  pointers, dollar arguments from 0 to \<open>2 ^ 31 - 1\<close>, symbols that are neither \<open>;\<close> nor \<open>,\<close> and in which no digit follows the first dollar sign
  (a symbol such as \<open>a$1\<close> would come back as a dollar symbol), and dollar symbols of at most 999 bytes in which a digit follows the
  first dollar sign and that are not a dollar sign with digits only behind it (those come back as dollar arguments).\<close>

theorem binbuf_restore_addbinbuf:
  assumes "\<forall>a \<in> set y. savable a"
  shows "\<exists>z. binbuf_addbinbuf [] y = Inr z \<and> binbuf_restore x z = x @ y"
  using restore_save_atoms [OF assms]
  by (auto simp: binbuf_addbinbuf_def binbuf_restore_def binbuf_add_def binbuf_new_def)

theorem binbuf_restore_addbinbuf_witness:
  "\<exists>z. binbuf_addbinbuf [] [SYMBOL ''foo'', SEMI, DOLLAR 2, DOLLSYM ''a$1''] = Inr z
     \<and> binbuf_restore [COMMA] z = [COMMA] @ [SYMBOL ''foo'', SEMI, DOLLAR 2, DOLLSYM ''a$1'']"
  by (rule binbuf_restore_addbinbuf)
    (simp add: first_dollar_digit_def is_digit_def MAXPDSTRING_def)

text \<open>What the encoding does not tell apart: the symbol \<open>;\<close> comes back as a separator,
  and a dollar symbol whose first dollar sign is not followed by a digit comes back as a
  plain symbol, although \<open>binbuf_text\<close> reads it as a dollar symbol.\<close>

theorem save_restore_collisions:
  "binbuf_addbinbuf [] [SYMBOL '';''] = Inr [SYMBOL '';'']
   \<and> binbuf_restore [] [SYMBOL '';''] = [SEMI]
   \<and> binbuf_text ''$a$1'' = [DOLLSYM ''$a$1'']
   \<and> binbuf_addbinbuf [] [DOLLSYM ''$a$1''] = Inr [SYMBOL ''$a$1'']
   \<and> binbuf_restore [] [SYMBOL ''$a$1''] = [SYMBOL ''$a$1'']"
proof (intro conjI)
  show "binbuf_text ''$a$1'' = [DOLLSYM ''$a$1'']"
    using parse_token [of "DOLLSYM ''$a$1''" "[]"]
    by (simp add: token_dollsym plain_def is_delim_def is_space_def is_digit_def MAXPDSTRING_def
        is_sep_def token_def)
qed (simp_all add: binbuf_addbinbuf_def binbuf_add_def binbuf_new_def binbuf_restore_def
    MAXPDSTRING_def is_digit_def)

subsection \<open>Expanding dollar symbols\<close>

lemma takeWhile_digits_append:
  assumes "0 \<le> n" "q = [] \<or> \<not> is_digit (hd q)"
  shows "takeWhile is_digit (digits n @ q) = digits n"
  using assms digits_all_digit [OF assms(1)]
  by (subst takeWhile_all) (auto simp: takeWhile_eq_Nil_iff)

lemma atoi_digits_append:
  assumes "0 \<le> n" "n < 2 ^ 31" "q = [] \<or> \<not> is_digit (hd q)"
  shows "atoi (digits n @ q) = n"
proof -
  have "split_sign (digits n @ q) = (False, digits n @ q)"
    using digits_all_digit [OF assms(1), of "hd (digits n)"] digit_not_sign
    by (cases "digits n") auto
  then show ?thesis
    using assms by (simp add: atoi_def takeWhile_digits_append)
qed

lemma strchr_append_notin: "c \<notin> set p \<Longrightarrow> strchr (p @ c # q) c = Some (length p)"
  by (induction p) auto

text \<open>One argument in the middle of a symbol, everything fitting its buffer.\<close>

lemma expanddollsym_arg:
  assumes "1 \<le> n" "n \<le> length av" "n < 2 ^ 31" "q = [] \<or> \<not> is_digit (hd q)"
    "atom_string (av ! (n - 1)) (MAXPDSTRING div 2 - 1) = Inr t"
  shows "binbuf_expanddollsym (digits (int n) @ q) d0 av tonew = Inr (length (digits (int n)), t)"
proof -
  have "nat (int n - 1) = n - 1" using assms by simp
  moreover have "atoi (digits (int n) @ q) = int n"
    using assms by (intro atoi_digits_append) auto
  ultimately show ?thesis
    using assms by (simp add: binbuf_expanddollsym_def takeWhile_digits_append)
qed

text \<open>Expanding a dollar symbol: in \<open>p$nq\<close>, where neither \<open>p\<close> nor \<open>q\<close> contains a
  dollar sign and \<open>q\<close> does not continue the number, the argument number \<open>n\<close> of the
  message is substituted as \<open>atom_string\<close> prints it, provided the pieces fit the buffers.\<close>

theorem realizedollsym_substitutes:
  assumes "CHR ''$'' \<notin> set p" "CHR ''$'' \<notin> set q" "q = [] \<or> \<not> is_digit (hd q)"
    "1 \<le> n" "n \<le> length av" "n < 2 ^ 31"
    "atom_string (av ! (n - 1)) (MAXPDSTRING div 2 - 1) = Inr t"
    "length p + length t + length q < MAXPDSTRING"
  shows "binbuf_realizedollsym dz (p @ ''$'' @ digits (int n) @ q) av tonew = Inr (Some (p @ t @ q))"
proof -
  have t: "length t < MAXPDSTRING div 2 - 1"
  proof (cases "av ! (n - 1)")
    case (DOLLSYM s)
    with assms(7) show ?thesis by (auto simp: MAXPDSTRING_def)
  qed (use assms(7) in \<open>auto simp: Let_def MAXPDSTRING_def split: if_splits prod.splits dest: put_cstr_length\<close>)
  have ex: "binbuf_expanddollsym (digits (int n) @ q) d0 av tonew = Inr (length (digits (int n)), t)" for d0
    using assms by (intro expanddollsym_arg) auto
  have "strchr q (CHR ''$'') = None" using assms by (simp add: strchr_None)
  then have "realize_loop d0 av tonew (digits (int n) @ q) p = Inr (Some (p @ t @ q))" for d0
    using t assms(8) by (subst realize_loop.simps) (simp add: ex buf2_cat_def put_cstr_def)
  moreover have "strchr (p @ ''$'' @ digits (int n) @ q) (CHR ''$'') = Some (length p)"
    using assms(1) by (simp add: strchr_append_notin)
  ultimately show ?thesis
    using assms(8) by (simp add: binbuf_realizedollsym_def)
qed

theorem realizedollsym_substitutes_witness:
  "binbuf_realizedollsym 0 (''a-'' @ ''$'' @ digits (int 1) @ ''b'') [SYMBOL ''foo''] True
     = Inr (Some (''a-'' @ ''foo'' @ ''b''))"
  by (rule realizedollsym_substitutes)
    (simp_all add: is_digit_def MAXPDSTRING_def special_def put_cstr_def)

text \<open>An argument the message does not supply: in a message box (\<open>tonew\<close> off) the whole
  symbol is rejected, in an object box the number is kept in the name.\<close>

theorem realizedollsym_missing:
  assumes "CHR ''$'' \<notin> set p" "CHR ''$'' \<notin> set q" "q = [] \<or> \<not> is_digit (hd q)"
    "length av < n" "n < 2 ^ 31" "length p + length (''$'' @ digits (int n)) + length q < MAXPDSTRING"
  shows "binbuf_realizedollsym dz (p @ ''$'' @ digits (int n) @ q) av tonew =
    Inr (if tonew then Some (p @ ''$'' @ digits (int n) @ q) else None)"
proof -
  have a: "atoi (digits (int n) @ q) = int n"
    using assms by (intro atoi_digits_append) auto
  have len: "length (digits (int n)) \<le> 10"
    using length_digits [of "int n" 9] assms(5) by auto
  have ex: "binbuf_expanddollsym (digits (int n) @ q) d0 av tonew =
      Inr (if tonew then (length (digits (int n)), ''$'' @ digits (int n)) else (0, []))" for d0
    using assms a by (simp add: binbuf_expanddollsym_def takeWhile_digits_append fmt_d_def Let_def)
  have "strchr q (CHR ''$'') = None" using assms by (simp add: strchr_None)
  then have "realize_loop d0 av tonew (digits (int n) @ q) p =
      Inr (if tonew then Some (p @ ''$'' @ digits (int n) @ q) else None)" for d0
    using assms(6) len
    by (subst realize_loop.simps) (simp add: ex buf2_cat_def put_cstr_def MAXPDSTRING_def)
  moreover have "strchr (p @ ''$'' @ digits (int n) @ q) (CHR ''$'') = Some (length p)"
    using assms(1) by (simp add: strchr_append_notin)
  ultimately show ?thesis
    using assms(6) by (simp add: binbuf_realizedollsym_def)
qed

theorem realizedollsym_missing_witness:
  "binbuf_realizedollsym 0 (''a-'' @ ''$'' @ digits (int 3) @ ''b'') [SYMBOL ''foo''] False
     = Inr (if False then Some (''a-'' @ ''$'' @ digits (int 3) @ ''b'') else None)"
  by (rule realizedollsym_missing)
    (simp_all add: is_digit_def MAXPDSTRING_def digits.simps [of 3])

end
