(* ===== verification/BinbufEval.thy ===== *)
theory BinbufEval
  imports Binbuf
begin

text \<open>
  The message evaluator \<open>binbuf_eval\<close>: it walks over a binbuf, finds the receiver of each
  message, substitutes the dollar arguments and sends the message on. What a receiver does
  with a message is open (any class may define it), so the state of the rest of Pd, the
  lookup \<open>s_thing\<close>, the sending of a message and the console are arguments.
\<close>

datatype t_mess =
    TYPEDMESS t_symbol "t_atom list"
  | PD_FLOAT fl
  | PD_LIST "t_atom list"

datatype eval_error =
    NotEnoughArguments int
  | SymbolNeeded int
  | DollsymNotEnough t_symbol
  | NoSuchObject t_symbol
  | ArgumentOutOfRange int
  | DollsymOutOfRange t_symbol
  | BadItem

record ('t, 'w) eval_env =
  ev_thing :: "'w \<Rightarrow> t_symbol \<Rightarrow> 't option"
  ev_send :: "'t \<Rightarrow> t_mess \<Rightarrow> 'w \<Rightarrow> 'w"
  ev_error :: "eval_error \<Rightarrow> 'w \<Rightarrow> 'w"
  ev_objectmaker :: 't
  ev_dollarzero :: "'w \<Rightarrow> int"

definition SMALLMSG :: nat where
  "SMALLMSG = 5"

subsection \<open>Size of the message stack\<close>

fun max_nargs :: "int \<Rightarrow> nat \<Rightarrow> t_atom list \<Rightarrow> nat" where
  "max_nargs j m [] = m"
| "max_nargs j m (a # as) =
     (if a = SEMI then max_nargs (-1) m as
      else if a = COMMA then max_nargs 0 m as
      else if j + 1 > int m then max_nargs (j + 1) (nat (j + 1)) as
      else max_nargs (j + 1) m as)"

text \<open>The number of atoms \<open>mstack\<close> has room for.\<close>

definition stack_size :: "('t, 'w) eval_env \<Rightarrow> 't option \<Rightarrow> t_atom list \<Rightarrow> nat" where
  "stack_size E target x =
     (if length x \<le> SMALLMSG then SMALLMSG
      else (let maxnargs = (if target = Some (ev_objectmaker E) then length x
              else max_nargs (if target \<noteq> None then 0 else -1) 0 x)
            in if maxnargs \<le> SMALLMSG then SMALLMSG else maxnargs))"

subsection \<open>Finding the receiver\<close>

text \<open>The symbol that names the receiver, or the complaint.\<close>

definition dest_symbol ::
    "('t, 'w) eval_env \<Rightarrow> t_atom list \<Rightarrow> t_atom \<Rightarrow> 'w \<Rightarrow> (eval_error + t_symbol) cresult" where
  "dest_symbol E argv a w = (case a of
      DOLLAR i \<Rightarrow>
        (if i \<le> 0 \<or> i > int (length argv) then Inr (Inl (NotEnoughArguments i))
         else case argv ! nat (i - 1) of SYMBOL s \<Rightarrow> Inr (Inr s) | _ \<Rightarrow> Inr (Inl (SymbolNeeded i)))
    | DOLLSYM n \<Rightarrow> cbind (binbuf_realizedollsym (ev_dollarzero E w) n argv False)
        (\<lambda>r. Inr (case r of None \<Rightarrow> Inl (DollsymNotEnough n) | Some s \<Rightarrow> Inr s))
    | _ \<Rightarrow> Inr (Inr (atom_getsymbol a)))"

definition dest_target ::
    "('t, 'w) eval_env \<Rightarrow> t_atom list \<Rightarrow> t_atom \<Rightarrow> 'w \<Rightarrow> (eval_error + 't) cresult" where
  "dest_target E argv a w = cbind (dest_symbol E argv a w) (\<lambda>r. Inr (case r of
      Inl e \<Rightarrow> Inl e
    | Inr s \<Rightarrow> (case ev_thing E w s of None \<Rightarrow> Inl (NoSuchObject s) | Some t \<Rightarrow> Inr t)))"

definition is_separator :: "t_atom \<Rightarrow> bool" where
  "is_separator a \<longleftrightarrow> a = SEMI \<or> a = COMMA"

function get_target ::
    "('t, 'w) eval_env \<Rightarrow> t_atom list \<Rightarrow> t_atom list \<Rightarrow> 'w \<Rightarrow> ('t option \<times> t_atom list \<times> 'w) cresult" where
  "get_target E argv ats w = (case dropWhile is_separator ats of
      [] \<Rightarrow> Inr (None, [], w)
    | a # rest \<Rightarrow> (case dest_target E argv a w of
        Inl e \<Rightarrow> Inl e
      | Inr (Inl e) \<Rightarrow> get_target E argv (dropWhile (\<lambda>b. b \<noteq> SEMI) rest) (ev_error E e w)
      | Inr (Inr t) \<Rightarrow> Inr (Some t, rest, w)))"
  by pat_completeness auto
termination
proof (relation "measure (\<lambda>(E, argv, ats, w). length ats)", goal_cases)
  case 1
  show ?case by simp
next
  case (2 E argv ats w a rest)
  then show ?case
    using length_dropWhile_le [of is_separator ats] length_dropWhile_le [of "\<lambda>b. b \<noteq> SEMI" rest] by simp
qed

declare get_target.simps [simp del]

subsection \<open>Collecting one message\<close>

text \<open>
  The inner loop fills \<open>mstack\<close>: one step gives the atom to push (\<open>Some\<close>) or, at the end
  of the message, \<open>None\<close>.
\<close>

definition push_atom ::
    "('t, 'w) eval_env \<Rightarrow> t_atom list \<Rightarrow> 't \<Rightarrow> t_atom \<Rightarrow> 'w \<Rightarrow> (t_atom \<times> 'w) cresult" where
  "push_atom E argv target a w = (case a of
      SEMI \<Rightarrow> Inr (SYMBOL '';'', w)
    | COMMA \<Rightarrow> Inr (SYMBOL '','', w)
    | DOLLAR i \<Rightarrow>
        (if i > 0 \<and> i \<le> int (length argv) then Inr (argv ! nat (i - 1), w)
         else if i = 0 then Inr (FLOAT (fl_of_int binary32 (ev_dollarzero E w)), w)
         else if target = ev_objectmaker E then Inr (FLOAT (Fin 0), w)
         else Inr (FLOAT (Fin 0), ev_error E (ArgumentOutOfRange i) w))
    | DOLLSYM n \<Rightarrow> cbind (binbuf_realizedollsym (ev_dollarzero E w) n argv (target = ev_objectmaker E))
        (\<lambda>r. Inr (case r of None \<Rightarrow> (SYMBOL n, ev_error E (DollsymOutOfRange n) w) | Some s \<Rightarrow> (SYMBOL s, w)))
    | _ \<Rightarrow> Inr (a, w))"

fun is_POINTER :: "t_atom \<Rightarrow> bool" where
  "is_POINTER (POINTER gp) = True"
| "is_POINTER _ = False"

datatype collected =
    GotMess "t_atom list" bool "t_atom list"
  | Broken

fun collect ::
    "('t, 'w) eval_env \<Rightarrow> nat \<Rightarrow> t_atom list \<Rightarrow> 't \<Rightarrow> t_atom list \<Rightarrow> t_atom list \<Rightarrow> 'w \<Rightarrow> (collected \<times> 'w) cresult" where
  "collect E cap argv target mstack [] w = Inr (GotMess mstack False [], w)"
| "collect E cap argv target mstack (a # ats) w =
     (if a = SEMI \<and> target \<noteq> ev_objectmaker E then Inr (GotMess mstack True (a # ats), w)
      else if a = COMMA \<and> target \<noteq> ev_objectmaker E then Inr (GotMess mstack False (a # ats), w)
      else if is_POINTER a then Inr (Broken, ev_error E BadItem w)
      else (case push_atom E argv target a w of
          Inl e \<Rightarrow> Inl e
        | Inr (b, w') \<Rightarrow>
            if length mstack < cap then collect E cap argv target (mstack @ [b]) ats w'
            else Inl OutOfBounds))"

definition send_message :: "('t, 'w) eval_env \<Rightarrow> 't \<Rightarrow> t_atom list \<Rightarrow> 'w \<Rightarrow> 'w" where
  "send_message E target mstack w = (case mstack of
      [] \<Rightarrow> w
    | SYMBOL s # args \<Rightarrow> ev_send E target (TYPEDMESS s args) w
    | FLOAT f # args \<Rightarrow>
        (if args = [] then ev_send E target (PD_FLOAT f) w else ev_send E target (PD_LIST mstack) w)
    | _ \<Rightarrow> w)"

lemma length_get_target:
  "get_target E argv ats w = Inr (t, rest, w') \<Longrightarrow> length rest \<le> length ats"
proof (induction E argv ats w rule: get_target.induct)
  case (1 E argv ats w)
  show ?case
  proof (cases "dropWhile is_separator ats")
    case Nil
    with "1.prems" show ?thesis by (simp add: get_target.simps [of E argv ats w])
  next
    case (Cons a as)
    have l: "Suc (length as) \<le> length ats"
      using length_dropWhile_le [of is_separator ats] Cons by simp
    show ?thesis
    proof (cases "dest_target E argv a w")
      case (Inl e)
      with "1.prems" Cons show ?thesis by (simp add: get_target.simps [of E argv ats w])
    next
      case (Inr r)
      show ?thesis
      proof (cases r)
        case (Inl e)
        with Inr Cons "1.prems" "1.IH" [OF Cons Inr Inl]
        have "length rest \<le> length (dropWhile (\<lambda>b. b \<noteq> SEMI) as)"
          by (simp add: get_target.simps [of E argv ats w])
        with l length_dropWhile_le [of "\<lambda>b. b \<noteq> SEMI" as] show ?thesis by linarith
      next
        case (Inr t)
        with \<open>dest_target E argv a w = Inr r\<close> Cons "1.prems" l show ?thesis
          by (simp add: get_target.simps [of E argv ats w])
      qed
    qed
  qed
qed

lemma length_collect:
  "collect E cap argv target mstack ats w = Inr (GotMess m b rest, w') \<Longrightarrow> length rest \<le> length ats"
proof (induction ats arbitrary: mstack w)
  case (Cons a ats)
  then show ?case by (auto split: if_splits sum.splits prod.splits intro: le_SucI)
qed simp

subsection \<open>The evaluator\<close>

function eval_loop ::
    "('t, 'w) eval_env \<Rightarrow> nat \<Rightarrow> t_atom list \<Rightarrow> 't option \<Rightarrow> t_atom list \<Rightarrow> 'w \<Rightarrow> 'w cresult" where
  "eval_loop E cap argv target ats w =
     (case (if target = None then get_target E argv ats w else Inr (target, ats, w)) of
        Inl e \<Rightarrow> Inl e
      | Inr (tgt, at1, w1) \<Rightarrow>
          (case (tgt, at1) of
             (Some t, a # at1') \<Rightarrow>
               (case collect E cap argv t [] at1 w1 of
                  Inl e \<Rightarrow> Inl e
                | Inr (Broken, w2) \<Rightarrow> Inr w2
                | Inr (GotMess mstack semi at2, w2) \<Rightarrow>
                    (let w3 = send_message E t mstack w2 in
                     case at2 of [] \<Rightarrow> Inr w3
                     | sep # at3 \<Rightarrow> eval_loop E cap argv (if semi then None else Some t) at3 w3))
           | _ \<Rightarrow> Inr w1))"
  by pat_completeness auto
termination
proof (relation "measure (\<lambda>(E, cap, argv, target, ats, w). length ats)", goal_cases)
  case 1
  show ?case by simp
next
  case 2
  then show ?case
    by (auto split: if_splits dest!: length_collect length_get_target)
qed

declare eval_loop.simps [simp del]

definition binbuf_eval ::
    "('t, 'w) eval_env \<Rightarrow> t_binbuf \<Rightarrow> 't option \<Rightarrow> t_atom list \<Rightarrow> 'w \<Rightarrow> 'w cresult" where
  "binbuf_eval E x target argv w = eval_loop E (stack_size E target x) argv target x w"

subsection \<open>The message stack is large enough\<close>

lemma max_nargs_ge: "m \<le> max_nargs j m as"
proof (induction j m as rule: max_nargs.induct)
  case (2 j m a as)
  then show ?case by (auto intro: order_trans [rotated])
qed simp

lemma max_nargs_mono: "j \<le> j' \<Longrightarrow> m \<le> m' \<Longrightarrow> max_nargs j m as \<le> max_nargs j' m' as"
proof (induction as arbitrary: j m j' m')
  case (Cons a as)
  show ?case
    using Cons.prems
    by (cases "is_separator a") (auto simp: is_separator_def intro!: Cons.IH)
qed simp

lemma max_nargs_skip:
  "max_nargs (-1) 0 (dropWhile is_separator as) \<le> max_nargs (-1) 0 as"
proof (induction as)
  case (Cons a as)
  show ?case
  proof (cases "is_separator a")
    case True
    have "max_nargs (-1) 0 as \<le> max_nargs 0 0 as" by (rule max_nargs_mono) simp_all
    with True Cons.IH show ?thesis by (auto simp: is_separator_def)
  next
    case False
    then show ?thesis by simp
  qed
qed simp

lemma max_nargs_cleanup:
  "max_nargs (-1) 0 (dropWhile (\<lambda>b. b \<noteq> SEMI) as) \<le> max_nargs j m as"
proof (induction as arbitrary: j m)
  case (Cons a as)
  show ?case
  proof (cases "a = SEMI")
    case True
    then show ?thesis by (simp add: max_nargs_mono)
  next
    case False
    then show ?thesis using Cons.IH by simp
  qed
qed simp

lemma max_nargs_length: "j \<le> int m \<Longrightarrow> 0 \<le> j + 1 \<Longrightarrow> max_nargs j m as \<le> m + length as"
proof (induction as arbitrary: j m)
  case (Cons a as)
  have *: "max_nargs j' m as \<le> m + length as" if "j' \<le> int m" "0 \<le> j' + 1" for j'
    using that by (rule Cons.IH)
  show ?case
  proof (cases "is_separator a \<or> j + 1 \<le> int m")
    case True
    then show ?thesis
      using * [of "-1"] * [of 0] * [of "j + 1"] Cons.prems by (auto simp: is_separator_def)
  next
    case False
    with Cons.prems have "nat (j + 1) = Suc m" by linarith
    moreover have "max_nargs (j + 1) (Suc m) as \<le> Suc m + length as"
      using Cons.prems by (intro Cons.IH) auto
    ultimately show ?thesis using False by (auto simp: is_separator_def)
  qed
qed simp

text \<open>The dollar symbols of a binbuf expand without overrunning their buffers.\<close>

definition dollsyms_fit :: "t_atom list \<Rightarrow> t_atom list \<Rightarrow> bool" where
  "dollsyms_fit argv ats \<longleftrightarrow> (\<forall>n. DOLLSYM n \<in> set ats \<longrightarrow>
     (\<forall>dz tonew. \<exists>r. binbuf_realizedollsym dz n argv tonew = Inr r))"

lemma dollsyms_fit_subset: "dollsyms_fit argv xs \<Longrightarrow> set ys \<subseteq> set xs \<Longrightarrow> dollsyms_fit argv ys"
  by (auto simp: dollsyms_fit_def)

lemma realizedollsym_ok:
  "dollsyms_fit argv (DOLLSYM n # ats) \<Longrightarrow> \<exists>r. binbuf_realizedollsym dz n argv tonew = Inr r"
  by (simp add: dollsyms_fit_def)

lemma push_atom_ok:
  assumes "dollsyms_fit argv (a # ats)"
  shows "\<exists>b w'. push_atom E argv target a w = Inr (b, w')"
proof (cases a)
  case (DOLLSYM n)
  with assms obtain r where
    "binbuf_realizedollsym (ev_dollarzero E w) n argv (target = ev_objectmaker E) = Inr r"
    using realizedollsym_ok by blast
  with DOLLSYM show ?thesis by (cases r) (simp_all add: push_atom_def)
qed (simp_all add: push_atom_def)

lemma dest_target_ok:
  assumes "dollsyms_fit argv (a # ats)"
  shows "\<exists>r. dest_target E argv a w = Inr r"
proof -
  have "\<exists>r. dest_symbol E argv a w = Inr r"
  proof (cases a)
    case (DOLLSYM n)
    with assms obtain r where "binbuf_realizedollsym (ev_dollarzero E w) n argv False = Inr r"
      using realizedollsym_ok by blast
    with DOLLSYM show ?thesis by (simp add: dest_symbol_def)
  qed (auto simp: dest_symbol_def split: t_atom.splits)
  then show ?thesis by (auto simp: dest_target_def)
qed

lemma dest_target_thing:
  assumes "dest_target E argv a w = Inr (Inr t)"
  shows "\<exists>s. ev_thing E w s = Some t"
proof -
  obtain r where "dest_symbol E argv a w = Inr r"
    using assms by (cases "dest_symbol E argv a w") (simp_all add: dest_target_def)
  with assms show ?thesis
    by (cases r) (auto simp: dest_target_def split: option.splits)
qed

text \<open>
  Two invariants of the walk, for the two places the evaluator can be in: before the
  receiver of a message is known, and behind it.
\<close>

lemma get_target_ok:
  assumes "dollsyms_fit argv ats" "max_nargs (-1) 0 ats \<le> cap"
  shows "\<exists>t rest w'. get_target E argv ats w = Inr (t, rest, w') \<and> set rest \<subseteq> set ats \<and>
    (t = None \<longrightarrow> rest = []) \<and> max_nargs 0 0 rest \<le> cap \<and>
    (\<forall>u. t = Some u \<longrightarrow> (\<exists>s v. ev_thing E v s = Some u))"
  using assms
proof (induction E argv ats w rule: get_target.induct)
  case (1 E argv ats w)
  show ?case
  proof (cases "dropWhile is_separator ats")
    case Nil
    then show ?thesis
      by (simp add: get_target.simps [of E argv ats w] del: dropWhile_eq_Nil_conv)
  next
    case (Cons a as)
    have sub: "set (a # as) \<subseteq> set ats" using Cons set_dropWhileD by (metis subsetI)
    with "1.prems" have fit: "dollsyms_fit argv (a # as)" by (blast intro: dollsyms_fit_subset)
    have "\<not> is_separator a" using Cons by (simp add: dropWhile_eq_Cons_conv)
    then have cap: "max_nargs 0 0 as \<le> cap"
      using max_nargs_skip [of ats] Cons "1.prems" by (simp add: is_separator_def)
    obtain r where r: "dest_target E argv a w = Inr r" using dest_target_ok [OF fit, of E w] by blast
    show ?thesis
    proof (cases r)
      case (Inl e)
      let ?rest = "dropWhile (\<lambda>b. b \<noteq> SEMI) as"
      have "set ?rest \<subseteq> set as" using set_dropWhileD by fastforce
      moreover have "max_nargs (-1) 0 ?rest \<le> cap"
        using max_nargs_cleanup [of as 0 0] cap by simp
      ultimately show ?thesis
        using "1.IH" [OF Cons r Inl] fit r Inl Cons sub
        by (fastforce simp: get_target.simps [of E argv ats w] intro: dollsyms_fit_subset)
    next
      case (Inr t)
      then have "\<exists>s v. ev_thing E v s = Some t"
        using r dest_target_thing [of E argv a w t] by blast
      then show ?thesis using r Inr Cons sub cap by (simp add: get_target.simps [of E argv ats w])
    qed
  qed
qed

definition start_count :: "bool \<Rightarrow> int" where
  "start_count semi = (if semi then -1 else 0)"

lemma start_count_simps [simp]: "start_count True = -1" "start_count False = 0"
  by (simp_all add: start_count_def)

lemma collect_ok:
  assumes "dollsyms_fit argv ats" "target \<noteq> ev_objectmaker E"
    "max_nargs (int (length mstack)) (length mstack) ats \<le> cap"
  shows "\<exists>c w'. collect E cap argv target mstack ats w = Inr (c, w') \<and>
    (\<forall>m semi rest. c = GotMess m semi rest \<longrightarrow> set rest \<subseteq> set ats \<and>
      (rest \<noteq> [] \<longrightarrow> max_nargs (start_count semi) 0 (tl rest) \<le> cap))"
  using assms
proof (induction ats arbitrary: mstack w)
  case Nil
  then show ?case by simp
next
  case (Cons a ats)
  show ?case
  proof (cases "is_separator a \<or> is_POINTER a")
    case True
    have "max_nargs j 0 ats \<le> cap" if "max_nargs j (length mstack) ats \<le> cap" for j
      using max_nargs_mono [of j j 0 "length mstack" ats] that by simp
    with True Cons.prems show ?thesis by (auto simp: is_separator_def)
  next
    case False
    then have m: "max_nargs (int (Suc (length mstack))) (Suc (length mstack)) ats \<le> cap"
      using Cons.prems(3) by (auto simp: is_separator_def nat_add_distrib add.commute)
    then have lt: "length mstack < cap"
      using max_nargs_ge [of "Suc (length mstack)" "int (Suc (length mstack))" ats] by linarith
    obtain b w' where b: "push_atom E argv target a w = Inr (b, w')"
      using push_atom_ok [OF Cons.prems(1), of E target w] by blast
    have "dollsyms_fit argv ats"
      using Cons.prems(1) by (rule dollsyms_fit_subset) auto
    then have "\<exists>c w''. collect E cap argv target (mstack @ [b]) ats w' = Inr (c, w'') \<and>
      (\<forall>m semi rest. c = GotMess m semi rest \<longrightarrow> set rest \<subseteq> set ats \<and>
        (rest \<noteq> [] \<longrightarrow> max_nargs (start_count semi) 0 (tl rest) \<le> cap))"
      using m Cons.prems(2) by (intro Cons.IH) simp_all
    moreover have "collect E cap argv target mstack (a # ats) w =
        collect E cap argv target (mstack @ [b]) ats w'"
      using False lt b by (simp add: is_separator_def)
    ultimately show ?thesis by (auto simp: subset_insertI2 simp del: collect.simps)
  qed
qed

text \<open>A message for the object maker swallows the separators too: one message is all there is.\<close>

lemma collect_maker_ok:
  assumes "dollsyms_fit argv ats" "length mstack + length ats \<le> cap"
  shows "\<exists>w'. (\<exists>m. collect E cap argv (ev_objectmaker E) mstack ats w = Inr (GotMess m False [], w')) \<or>
    collect E cap argv (ev_objectmaker E) mstack ats w = Inr (Broken, w')"
  using assms
proof (induction ats arbitrary: mstack w)
  case (Cons a ats)
  obtain b w' where b: "push_atom E argv (ev_objectmaker E) a w = Inr (b, w')"
    using push_atom_ok [OF Cons.prems(1), of E "ev_objectmaker E" w] by blast
  have "dollsyms_fit argv ats"
    using Cons.prems(1) by (rule dollsyms_fit_subset) auto
  with Cons.IH [of "mstack @ [b]" w'] Cons.prems(2) b show ?case by auto
qed simp

lemma eval_loop_ok:
  assumes "dollsyms_fit argv ats" "\<And>v s. ev_thing E v s \<noteq> Some (ev_objectmaker E)"
    "target \<noteq> Some (ev_objectmaker E)" "max_nargs (if target = None then -1 else 0) 0 ats \<le> cap"
  shows "\<exists>w'. eval_loop E cap argv target ats w = Inr w'"
  using assms
proof (induction E cap argv target ats w rule: eval_loop.induct)
  case (1 E cap argv target ats w)
  let ?start = "if target = None then get_target E argv ats w else Inr (target, ats, w)"
  have "\<exists>t at1 w1. ?start = Inr (t, at1, w1) \<and> set at1 \<subseteq> set ats \<and> max_nargs 0 0 at1 \<le> cap \<and>
    t \<noteq> Some (ev_objectmaker E)"
  proof (cases "target = None")
    case True
    with get_target_ok [of argv ats cap E w] "1.prems" show ?thesis by fastforce
  next
    case False
    with "1.prems" show ?thesis by auto
  qed
  then obtain tgt at1 w1 where start: "?start = Inr (tgt, at1, w1)"
    and at1: "set at1 \<subseteq> set ats" "max_nargs 0 0 at1 \<le> cap" "tgt \<noteq> Some (ev_objectmaker E)"
    by blast
  note unfold = eval_loop.simps [of E cap argv target ats w] start
  show ?case
  proof (cases "\<exists>t a as. tgt = Some t \<and> at1 = a # as")
    case False
    then show ?thesis by (cases tgt; cases at1) (simp_all add: unfold)
  next
    case True
    then obtain t a as where t: "tgt = Some t" "at1 = a # as" by blast
    have fit: "dollsyms_fit argv at1" using "1.prems"(1) at1(1) by (rule dollsyms_fit_subset)
    then obtain c w2 where c: "collect E cap argv t [] at1 w1 = Inr (c, w2)"
      and rest: "\<And>m semi rest. c = GotMess m semi rest \<Longrightarrow> set rest \<subseteq> set at1 \<and>
        (rest \<noteq> [] \<longrightarrow> max_nargs (start_count semi) 0 (tl rest) \<le> cap)"
      using collect_ok [of argv at1 t E "[]" cap w1] at1 t by auto
    show ?thesis
    proof (cases c)
      case Broken
      then show ?thesis by (simp add: unfold t c [unfolded t] del: collect.simps)
    next
      case (GotMess m semi at2)
      show ?thesis
      proof (cases at2)
        case Nil
        then show ?thesis by (simp add: unfold t c [unfolded t] GotMess del: collect.simps)
      next
        case (Cons sep at3)
        have fit3: "dollsyms_fit argv at3"
          using fit rest [OF GotMess] Cons by (auto intro: dollsyms_fit_subset)
        have "\<exists>w'. eval_loop E cap argv (if semi then None else Some t) at3 (send_message E t m w2) = Inr w'"
          using "1.IH" [OF start refl refl refl t(1) t(2) c refl GotMess refl Cons]
            fit3 "1.prems"(2) at1(3) t rest [OF GotMess] Cons by (cases semi) simp_all
        then show ?thesis by (simp add: unfold t c [unfolded t] GotMess Cons del: collect.simps)
      qed
    qed
  qed
qed

text \<open>\<^bold>\<open>C3\<close>: The evaluator never overruns its message stack: \<open>mstack\<close>, sized by counting the atoms
  between separators beforehand, has room for every message the walk collects, for every
  receiver including the object maker, as long as the object maker is not reached by name and
  the dollar symbols fit their own buffers. In particular the evaluation always ends.\<close>

theorem binbuf_eval_safe:
  assumes "dollsyms_fit argv x" "\<And>v s. ev_thing E v s \<noteq> Some (ev_objectmaker E)"
  shows "\<exists>w'. binbuf_eval E x target argv w = Inr w'"
proof (cases "target = Some (ev_objectmaker E)")
  case True
  have cap: "length x \<le> stack_size E target x"
    using True by (simp add: stack_size_def)
  have "eval_loop E (stack_size E target x) argv target x w =
      (case x of [] \<Rightarrow> Inr w | a # as \<Rightarrow>
        (case collect E (stack_size E target x) argv (ev_objectmaker E) [] x w of
           Inl e \<Rightarrow> Inl e | Inr (Broken, w2) \<Rightarrow> Inr w2
         | Inr (GotMess m semi at2, w2) \<Rightarrow> (let w3 = send_message E (ev_objectmaker E) m w2 in
            case at2 of [] \<Rightarrow> Inr w3
            | sep # at3 \<Rightarrow> eval_loop E (stack_size E target x) argv
                (if semi then None else Some (ev_objectmaker E)) at3 w3)))"
    using True by (subst eval_loop.simps) (simp split: list.split)
  with collect_maker_ok [of argv x "[]" "stack_size E target x" E w] assms(1) cap
  show ?thesis by (cases x) (auto simp: binbuf_eval_def)
next
  case False
  have "max_nargs (if target = None then -1 else 0) 0 x \<le> stack_size E target x"
    using False max_nargs_length [of "if target = None then -1 else 0" 0 x]
    by (auto simp: stack_size_def SMALLMSG_def Let_def)
  with assms False show ?thesis
    unfolding binbuf_eval_def by (intro eval_loop_ok) auto
qed

text \<open>A world in which the only object is called \<open>a\<close> and messages are recorded.\<close>

definition demo_env :: "(nat, (nat \<times> t_mess) list) eval_env" where
  "demo_env = \<lparr>ev_thing = (\<lambda>w s. if s = ''a'' then Some 1 else None),
     ev_send = (\<lambda>t m w. w @ [(t, m)]), ev_error = (\<lambda>e w. w),
     ev_objectmaker = 0, ev_dollarzero = (\<lambda>w. 1000)\<rparr>"

theorem binbuf_eval_safe_witness:
  "\<exists>w'. binbuf_eval demo_env [SYMBOL ''a'', FLOAT (Fin 1), FLOAT (Fin 2), COMMA, FLOAT (Fin 3),
     SEMI, SYMBOL ''b'', DOLLAR 1] None [] [] = Inr w'"
  by (rule binbuf_eval_safe) (simp_all add: dollsyms_fit_def demo_env_def)

subsection \<open>Which messages are sent\<close>

definition plain_atom :: "t_atom \<Rightarrow> bool" where
  "plain_atom a = (case a of FLOAT f \<Rightarrow> True | SYMBOL s \<Rightarrow> True | _ \<Rightarrow> False)"

lemma collect_plain:
  assumes "\<forall>a \<in> set xs. plain_atom a" "length mstack + length xs \<le> cap"
  shows "collect E cap argv target mstack (xs @ rest) w = collect E cap argv target (mstack @ xs) rest w"
  using assms
proof (induction xs arbitrary: mstack)
  case (Cons a xs)
  then have "a \<noteq> SEMI" "a \<noteq> COMMA" "\<not> is_POINTER a" "push_atom E argv target a w = Inr (a, w)"
    by (auto simp: plain_atom_def push_atom_def split: t_atom.splits)
  with Cons show ?case by simp
qed simp

fun join_comma :: "t_atom list list \<Rightarrow> t_atom list" where
  "join_comma [] = []"
| "join_comma [m] = m"
| "join_comma (m # ms) = m @ COMMA # join_comma ms"

lemma eval_loop_plain:
  assumes "target \<noteq> ev_objectmaker E" "\<forall>m \<in> set ms. (\<forall>a \<in> set m. plain_atom a) \<and> length m \<le> cap"
  shows "eval_loop E cap argv (Some target) (join_comma ms) w = Inr (fold (send_message E target) ms w)"
  using assms(2)
proof (induction ms arbitrary: w rule: join_comma.induct)
  case 1
  show ?case by (subst eval_loop.simps) simp
next
  case (2 m)
  have "collect E cap argv target [] m w = Inr (GotMess m False [], w)"
    using collect_plain [of m "[]" cap E argv target "[]" w] 2 by simp
  then show ?case
    by (subst eval_loop.simps) (cases m; simp add: send_message_def del: collect.simps)
next
  case (3 m m' ms)
  let ?rest = "COMMA # join_comma (m' # ms)"
  have "collect E cap argv target [] (m @ ?rest) w = Inr (GotMess m False ?rest, w)"
    using collect_plain [of m "[]" cap E argv target ?rest w] 3 assms(1) by simp
  moreover have "eval_loop E cap argv (Some target) (join_comma (m' # ms)) (send_message E target m w)
      = Inr (fold (send_message E target) (m' # ms) (send_message E target m w))"
    using 3 by simp
  ultimately show ?case
    by (subst eval_loop.simps) (cases m; simp del: collect.simps)
qed

lemma max_nargs_run:
  "\<forall>a \<in> set m. plain_atom a \<Longrightarrow> length m + k \<le> max_nargs (int k) k (m @ rest)"
proof (induction m arbitrary: k)
  case Nil
  show ?case by (simp add: max_nargs_ge)
next
  case (Cons a m)
  then have "a \<noteq> SEMI" "a \<noteq> COMMA" by (auto simp: plain_atom_def)
  with Cons.IH [of "Suc k"] Cons.prems show ?case by (simp add: nat_add_distrib add.commute)
qed

lemma max_nargs_join:
  "\<forall>m \<in> set ms. \<forall>a \<in> set m. plain_atom a \<Longrightarrow> m \<in> set ms \<Longrightarrow> length m \<le> max_nargs 0 0 (join_comma ms)"
proof (induction ms rule: join_comma.induct)
  case (2 m')
  then show ?case using max_nargs_run [of m' 0 "[]"] by simp
next
  case (3 m1 m2 ms)
  have tail: "max_nargs 0 0 (join_comma (m2 # ms)) \<le> max_nargs (int k) k (m1 @ COMMA # join_comma (m2 # ms))"
    if "\<forall>a \<in> set m1. plain_atom a" for k
    using that
  proof (induction m1 arbitrary: k)
    case Nil
    show ?case by (simp add: max_nargs_mono)
  next
    case (Cons a m1)
    then have "a \<noteq> SEMI" "a \<noteq> COMMA" by (auto simp: plain_atom_def)
    with Cons.IH [of "Suc k"] Cons.prems show ?case by (simp add: nat_add_distrib add.commute)
  qed
  show ?case
    using 3 max_nargs_run [of m1 0 "COMMA # join_comma (m2 # ms)"] tail [of 0] by fastforce
qed simp

text \<open>\<^bold>\<open>C4\<close>: What a message box does: a binbuf of messages made of numbers and symbols, separated by
  commas, sends exactly these messages to its receiver, in order; one that starts with a symbol
  goes out under that selector, one that starts with a number as a float or a list, an empty
  one not at all.\<close>

theorem binbuf_eval_messages:
  assumes "\<forall>m \<in> set ms. \<forall>a \<in> set m. plain_atom a" "target \<noteq> ev_objectmaker E"
  shows "binbuf_eval E (join_comma ms) (Some target) argv w = Inr (fold (send_message E target) ms w)"
proof -
  have "length m \<le> stack_size E (Some target) (join_comma ms)" if "m \<in> set ms" for m
  proof -
    have "length m \<le> max_nargs 0 0 (join_comma ms)" using max_nargs_join [OF assms(1) that] .
    moreover have "max_nargs 0 0 (join_comma ms) \<le> length (join_comma ms)"
      using max_nargs_length [of 0 0 "join_comma ms"] by simp
    ultimately show ?thesis using assms(2) by (auto simp: stack_size_def SMALLMSG_def Let_def)
  qed
  then show ?thesis
    unfolding binbuf_eval_def using assms by (intro eval_loop_plain) auto
qed

theorem binbuf_eval_messages_witness:
  "binbuf_eval demo_env (join_comma [[SYMBOL ''set'', FLOAT (Fin 1)], [], [FLOAT (Fin 2)]]) (Some 1) [] [] =
     Inr (fold (send_message demo_env 1) [[SYMBOL ''set'', FLOAT (Fin 1)], [], [FLOAT (Fin 2)]] [])"
  by (rule binbuf_eval_messages) (simp_all add: plain_atom_def demo_env_def)

end
