(* ===== verification/Clock.thy ===== *)
theory Clock
  imports PdFloat "HOL-Library.Sublist"
begin

text \<open>
  Logical time and clocks (\<open>m_sched.c\<close>). The clocks that are set form a singly linked
  list threaded through the clock structures, sorted by the time at which they expire. The
  model keeps the links: a clock is an entry of a store, addressed by a number, and the
  loops that follow the links may fail on a null link or run on for ever, as the C loops
  would. The refinement to an agenda (a sorted list of clocks and times) shows that under
  the invariant they do neither.
\<close>

type_synonym addr = nat

record t_clock =
  c_settime :: fl
  c_owner :: addr
  c_fn :: nat
  c_next :: "addr option"

record 'w sched =
  heap :: "addr \<rightharpoonup> t_clock"
  clock_setlist :: "addr option"
  sys_time :: fl
  sys_quit :: int
  sched_diddsp :: int
  outlet_eventno :: int
  world :: 'w

definition TIMEUNITPERSEC :: fl where
  "TIMEUNITPERSEC = fmul binary64 (Fin 32) (Fin 441000)"

definition sys_time_per_msec :: fl where
  "sys_time_per_msec = fdiv binary64 TIMEUNITPERSEC (Fin 1000)"

subsection \<open>Clocks\<close>

definition clock_new :: "addr \<Rightarrow> addr \<Rightarrow> nat \<Rightarrow> 'w sched \<Rightarrow> 'w sched" where
  "clock_new x owner fn S =
     S\<lparr>heap := (heap S)(x \<mapsto>
       \<lparr>c_settime = Fin (-1), c_owner = owner, c_fn = fn, c_next = None\<rparr>)\<rparr>"

text \<open>Reading and writing a clock structure through a pointer.\<close>

definition deref :: "'w sched \<Rightarrow> addr option \<Rightarrow> t_clock cresult" where
  "deref S p = (case p of None \<Rightarrow> Inl NullDeref
     | Some x \<Rightarrow> (case heap S x of None \<Rightarrow> Inl NullDeref | Some c \<Rightarrow> Inr c))"

definition set_next :: "addr \<Rightarrow> addr option \<Rightarrow> 'w sched \<Rightarrow> 'w sched" where
  "set_next x n S = (case heap S x of None \<Rightarrow> S
     | Some c \<Rightarrow> S\<lparr>heap := (heap S)(x \<mapsto> c\<lparr>c_next := n\<rparr>)\<rparr>)"

definition set_settime :: "addr \<Rightarrow> fl \<Rightarrow> 'w sched \<Rightarrow> 'w sched" where
  "set_settime x t S = (case heap S x of None \<Rightarrow> S
     | Some c \<Rightarrow> S\<lparr>heap := (heap S)(x \<mapsto> c\<lparr>c_settime := t\<rparr>)\<rparr>)"

text \<open>\<open>while (x2->c_next != x) x2 = x2->c_next;\<close>\<close>

partial_function (option) unset_loop ::
    "'w sched \<Rightarrow> addr \<Rightarrow> addr option \<Rightarrow> addr cresult option" where
  "unset_loop S x x2 = (case x2 of
      None \<Rightarrow> Some (Inl NullDeref)
    | Some y \<Rightarrow> (case heap S y of
        None \<Rightarrow> Some (Inl NullDeref)
      | Some c \<Rightarrow> if c_next c \<noteq> Some x then unset_loop S x (c_next c) else Some (Inr y)))"

definition clock_unset :: "addr \<Rightarrow> 'w sched \<Rightarrow> 'w sched cresult option" where
  "clock_unset x S = (case deref S (Some x) of
      Inl e \<Rightarrow> Some (Inl e)
    | Inr c \<Rightarrow>
        if fle (Fin 0) (c_settime c) then
          (if clock_setlist S = Some x
           then Some (Inr (set_settime x (Fin (-1)) (S\<lparr>clock_setlist := c_next c\<rparr>)))
           else (case unset_loop S x (clock_setlist S) of
               None \<Rightarrow> None
             | Some (Inl e) \<Rightarrow> Some (Inl e)
             | Some (Inr x2) \<Rightarrow> Some (Inr (set_settime x (Fin (-1)) (set_next x2 (c_next c) S)))))
        else Some (Inr S))"

text \<open>The search for the place of a clock: the last clock that does not expire later.\<close>

partial_function (option) set_loop ::
    "'w sched \<Rightarrow> fl \<Rightarrow> addr \<Rightarrow> (addr \<times> addr option) cresult option" where
  "set_loop S setticks cbefore = (case heap S cbefore of
      None \<Rightarrow> Some (Inl NullDeref)
    | Some c \<Rightarrow> (case c_next c of
        None \<Rightarrow> Some (Inr (cbefore, None))
      | Some cafter \<Rightarrow> (case heap S cafter of
          None \<Rightarrow> Some (Inl NullDeref)
        | Some d \<Rightarrow>
            if flt setticks (c_settime d) then Some (Inr (cbefore, Some cafter))
            else set_loop S setticks cafter)))"

text \<open>The part of \<open>clock_set\<close> after the clock is unset and its time stored.\<close>

definition link_clock :: "addr \<Rightarrow> fl \<Rightarrow> 'w sched \<Rightarrow> 'w sched cresult option" where
  "link_clock x setticks S = (case clock_setlist S of
      None \<Rightarrow> Some (Inr ((set_next x (clock_setlist S) S)\<lparr>clock_setlist := Some x\<rparr>))
    | Some h \<Rightarrow> (case deref S (Some h) of
        Inl e \<Rightarrow> Some (Inl e)
      | Inr c \<Rightarrow>
          if fle (c_settime c) setticks then
            (case set_loop S setticks h of
               None \<Rightarrow> None
             | Some (Inl e) \<Rightarrow> Some (Inl e)
             | Some (Inr (cbefore, cafter)) \<Rightarrow>
                 Some (Inr (set_next x cafter (set_next cbefore (Some x) S))))
          else Some (Inr ((set_next x (clock_setlist S) S)\<lparr>clock_setlist := Some x\<rparr>))))"

definition clock_set :: "addr \<Rightarrow> fl \<Rightarrow> 'w sched \<Rightarrow> 'w sched cresult option" where
  "clock_set x setticks0 S =
     (let setticks = (if flt setticks0 (sys_time S) then sys_time S else setticks0) in
      case clock_unset x S of
        None \<Rightarrow> None
      | Some (Inl e) \<Rightarrow> Some (Inl e)
      | Some (Inr S1) \<Rightarrow> link_clock x setticks (set_settime x setticks S1))"

definition clock_getsystimeafter :: "'w sched \<Rightarrow> fl \<Rightarrow> fl" where
  "clock_getsystimeafter S delaytime =
     fadd binary64 (sys_time S) (fmul binary64 sys_time_per_msec delaytime)"

definition clock_delay :: "addr \<Rightarrow> fl \<Rightarrow> 'w sched \<Rightarrow> 'w sched cresult option" where
  "clock_delay x delaytime S =
     clock_set x (fadd binary64 (sys_time S) (fmul binary64 sys_time_per_msec delaytime)) S"

definition clock_getlogicaltime :: "'w sched \<Rightarrow> fl" where
  "clock_getlogicaltime S = sys_time S"

definition clock_gettimesince :: "'w sched \<Rightarrow> fl \<Rightarrow> fl" where
  "clock_gettimesince S prevsystime =
     fdiv binary64 (fsub binary64 (sys_time S) prevsystime) sys_time_per_msec"

definition clock_free :: "addr \<Rightarrow> 'w sched \<Rightarrow> 'w sched cresult option" where
  "clock_free x S = (case clock_unset x S of
      None \<Rightarrow> None
    | Some (Inl e) \<Rightarrow> Some (Inl e)
    | Some (Inr S1) \<Rightarrow> Some (Inr (S1\<lparr>heap := (heap S1)(x := None)\<rparr>)))"

subsection \<open>The agenda\<close>

type_synonym agenda = "(addr \<times> fl) list"

text \<open>A segment of the links, from one pointer to another, and the agenda entries it holds.\<close>

fun seg :: "(addr \<rightharpoonup> t_clock) \<Rightarrow> addr option \<Rightarrow> agenda \<Rightarrow> addr option \<Rightarrow> bool" where
  "seg h p [] q = (p = q)"
| "seg h p ((x, t) # ts) q = (p = Some x \<and>
     (case h x of None \<Rightarrow> False | Some c \<Rightarrow> c_settime c = t \<and> seg h (c_next c) ts q))"

abbreviation chain :: "(addr \<rightharpoonup> t_clock) \<Rightarrow> addr option \<Rightarrow> agenda \<Rightarrow> bool" where
  "chain h p ts \<equiv> seg h p ts None"

definition agenda_sorted :: "agenda \<Rightarrow> bool" where
  "agenda_sorted ts \<longleftrightarrow> sorted_wrt (\<lambda>e f. fle (snd e) (snd f)) ts"

text \<open>The invariant: the links spell out the agenda, a clock is on it exactly if its time
  is not negative, and nothing on it lies in the past.\<close>

definition agenda_of :: "'w sched \<Rightarrow> agenda \<Rightarrow> bool" where
  "agenda_of S ts \<longleftrightarrow> chain (heap S) (clock_setlist S) ts \<and> distinct (map fst ts) \<and>
     agenda_sorted ts \<and> (\<forall>e \<in> set ts. fle (sys_time S) (snd e)) \<and> fle (Fin 0) (sys_time S) \<and>
     (\<forall>x c. heap S x = Some c \<longrightarrow> x \<notin> fst ` set ts \<longrightarrow> flt (c_settime c) (Fin 0))"

definition agenda_remove :: "addr \<Rightarrow> agenda \<Rightarrow> agenda" where
  "agenda_remove x ts = filter (\<lambda>e. fst e \<noteq> x) ts"

definition agenda_insert :: "addr \<Rightarrow> fl \<Rightarrow> agenda \<Rightarrow> agenda" where
  "agenda_insert x t ts =
     takeWhile (\<lambda>e. fle (snd e) t) ts @ (x, t) # dropWhile (\<lambda>e. fle (snd e) t) ts"

lemma seg_append: "seg h p (ts @ us) q \<longleftrightarrow> (\<exists>r. seg h p ts r \<and> seg h r us q)"
  by (induction ts arbitrary: p) (auto split: option.splits)

lemma seg_fun_upd_other: "x \<notin> fst ` set ts \<Longrightarrow> seg (h(x := v)) p ts q = seg h p ts q"
  by (induction h p ts q rule: seg.induct) (auto split: option.splits)

lemma seg_relink:
  assumes "seg h p (pre @ [(y, t)]) q" "y \<notin> fst ` set pre" "h y = Some c"
  shows "seg (h(y \<mapsto> c\<lparr>c_next := r\<rparr>)) p (pre @ [(y, t)]) r"
  using assms by (auto simp: seg_append seg_fun_upd_other)

lemma seg_heap: "seg h p ts q \<Longrightarrow> (x, t) \<in> set ts \<Longrightarrow> \<exists>c. h x = Some c \<and> c_settime c = t"
  by (induction h p ts q rule: seg.induct) (auto split: option.splits)

lemma heap_set_next [simp]:
  "heap S x = Some c \<Longrightarrow> heap (set_next x n S) = (heap S)(x \<mapsto> c\<lparr>c_next := n\<rparr>)"
  by (simp add: set_next_def)

lemma heap_set_settime [simp]:
  "heap S x = Some c \<Longrightarrow> heap (set_settime x t S) = (heap S)(x \<mapsto> c\<lparr>c_settime := t\<rparr>)"
  by (simp add: set_settime_def)

lemma set_next_frame [simp]:
  "clock_setlist (set_next x n S) = clock_setlist S" "sys_time (set_next x n S) = sys_time S"
  "world (set_next x n S) = world S" "sys_quit (set_next x n S) = sys_quit S"
  "sched_diddsp (set_next x n S) = sched_diddsp S" "outlet_eventno (set_next x n S) = outlet_eventno S"
  by (simp_all add: set_next_def split: option.split)

lemma set_settime_frame [simp]:
  "clock_setlist (set_settime x n S) = clock_setlist S" "sys_time (set_settime x n S) = sys_time S"
  "world (set_settime x n S) = world S" "sys_quit (set_settime x n S) = sys_quit S"
  "sched_diddsp (set_settime x n S) = sched_diddsp S" "outlet_eventno (set_settime x n S) = outlet_eventno S"
  by (simp_all add: set_settime_def split: option.split)

text \<open>What clock operations leave alone.\<close>

definition same_frame :: "'w sched \<Rightarrow> 'w sched \<Rightarrow> bool" where
  "same_frame S S' \<longleftrightarrow> sys_time S' = sys_time S \<and> world S' = world S \<and> sys_quit S' = sys_quit S \<and>
     sched_diddsp S' = sched_diddsp S \<and> outlet_eventno S' = outlet_eventno S \<and>
     dom (heap S') = dom (heap S) \<and>
     (\<forall>x c. heap S x = Some c \<longrightarrow> (\<exists>c'. heap S' x = Some c' \<and> c_owner c' = c_owner c \<and> c_fn c' = c_fn c))"

lemma same_frame_refl [simp]: "same_frame S S"
  by (simp add: same_frame_def)

lemma same_frame_trans: "same_frame S T \<Longrightarrow> same_frame T U \<Longrightarrow> same_frame S U"
  by (fastforce simp: same_frame_def)

lemma same_frame_set_next [simp]: "same_frame S (set_next x n S)"
  by (auto simp: same_frame_def set_next_def split: option.split)

lemma same_frame_set_settime [simp]: "same_frame S (set_settime x n S)"
  by (auto simp: same_frame_def set_settime_def split: option.split)

lemma same_frame_links [intro]:
  "same_frame S T \<Longrightarrow> same_frame S (set_next x n T)"
  "same_frame S T \<Longrightarrow> same_frame S (set_settime x t T)"
  by (blast intro: same_frame_trans same_frame_set_next same_frame_set_settime)+

lemma same_frame_heap:
  "same_frame S T \<Longrightarrow> heap S x = Some c \<Longrightarrow> \<exists>c'. heap T x = Some c' \<and> c_owner c' = c_owner c \<and> c_fn c' = c_fn c"
  by (simp add: same_frame_def)

lemma same_frame_setlist [simp]: "same_frame S (T\<lparr>clock_setlist := p\<rparr>) = same_frame S T"
  by (simp add: same_frame_def)

subsection \<open>Unsetting refines removal\<close>

lemma agenda_split:
  assumes "x \<in> fst ` set ts" "clock_setlist S \<noteq> Some x" "chain (heap S) (clock_setlist S) ts"
  obtains pre y t u post where "ts = pre @ (y, t) # (x, u) # post"
proof -
  obtain pre0 u post where ts: "ts = pre0 @ (x, u) # post"
    using assms(1) by (auto dest: split_list)
  show ?thesis
  proof (cases pre0 rule: rev_cases)
    case Nil
    with ts assms show ?thesis by simp
  next
    case (snoc pre e)
    with ts that [of pre "fst e" "snd e" u post] show ?thesis by simp
  qed
qed

lemma unset_loop_finds:
  assumes "seg (heap S) p (pre @ [(y, t)]) (Some x)" "x \<notin> fst ` set (pre @ [(y, t)])"
  shows "unset_loop S x p = Some (Inr y)"
  using assms
proof (induction pre arbitrary: p)
  case Nil
  then show ?case by (subst unset_loop.simps) (auto split: option.splits)
next
  case (Cons e pre)
  obtain z u where e: "e = (z, u)" by (cases e)
  with Cons.prems obtain c where c: "p = Some z" "heap S z = Some c"
    "seg (heap S) (c_next c) (pre @ [(y, t)]) (Some x)"
    by (auto split: option.splits)
  moreover have "c_next c \<noteq> Some x"
    using c(3) Cons.prems(2) by (cases pre) auto
  ultimately show ?case
    using Cons.IH [of "c_next c"] Cons.prems(2) by (subst unset_loop.simps) simp
qed

lemma agenda_remove_decomp:
  "distinct (map fst (pre @ (x, u) # post)) \<Longrightarrow> agenda_remove x (pre @ (x, u) # post) = pre @ post"
proof -
  assume "distinct (map fst (pre @ (x, u) # post))"
  then have "filter (\<lambda>e. fst e \<noteq> x) pre = pre" "filter (\<lambda>e. fst e \<noteq> x) post = post"
    by (auto intro!: filter_True)
  then show ?thesis by (simp add: agenda_remove_def)
qed

lemma agenda_remove_notin: "x \<notin> fst ` set ts \<Longrightarrow> agenda_remove x ts = ts"
  by (auto simp: agenda_remove_def filter_id_conv image_iff)

lemma agenda_sorted_filter: "agenda_sorted ts \<Longrightarrow> agenda_sorted (filter P ts)"
  by (simp add: agenda_sorted_def sorted_wrt_filter)

lemma agenda_time_nonneg:
  "agenda_of S ts \<Longrightarrow> e \<in> set ts \<Longrightarrow> fle (Fin 0) (snd e)"
  by (auto simp: agenda_of_def intro: fle_trans)

text \<open>Changing only the links and the removed clock keeps the rest of the invariant.\<close>

lemma agenda_of_removed:
  assumes "agenda_of S ts" "chain (heap S') (clock_setlist S') (agenda_remove x ts)"
    "sys_time S' = sys_time S"
    "\<And>z c'. heap S' z = Some c' \<Longrightarrow> z \<noteq> x \<Longrightarrow> \<exists>c. heap S z = Some c \<and> c_settime c' = c_settime c"
    "\<And>c'. heap S' x = Some c' \<Longrightarrow> c_settime c' = Fin (-1)"
  shows "agenda_of S' (agenda_remove x ts)"
proof -
  have "flt (c_settime c') (Fin 0)"
    if z: "heap S' z = Some c'" "z \<notin> fst ` set (agenda_remove x ts)" for z c'
  proof (cases "z = x")
    case True
    with assms(5) z show ?thesis by simp
  next
    case False
    with z have "z \<notin> fst ` set ts" by (auto simp: agenda_remove_def image_iff)
    moreover obtain c where "heap S z = Some c" "c_settime c' = c_settime c"
      using assms(4) [OF z(1) False] by blast
    ultimately show ?thesis using assms(1) by (auto simp: agenda_of_def)
  qed
  then show ?thesis
    using assms(1-3)
    by (auto simp: agenda_of_def agenda_remove_def agenda_sorted_filter distinct_map_filter)
qed

lemma flt_not_fle: "flt x y \<Longrightarrow> \<not> fle y x"
  using fle_flt_trans flt_irrefl by blast

lemma clock_unset_agenda:
  assumes inv: "agenda_of S ts" and x: "heap S x = Some c"
  shows "\<exists>S'. clock_unset x S = Some (Inr S') \<and> agenda_of S' (agenda_remove x ts) \<and> same_frame S S'"
proof (cases "x \<in> fst ` set ts")
  case False
  then have "flt (c_settime c) (Fin 0)" using inv x by (auto simp: agenda_of_def)
  then have "\<not> fle (Fin 0) (c_settime c)" by (rule flt_not_fle)
  then show ?thesis
    using False inv x by (simp add: clock_unset_def deref_def agenda_remove_notin)
next
  case True
  have ch: "chain (heap S) (clock_setlist S) ts" and dist: "distinct (map fst ts)"
    using inv by (auto simp: agenda_of_def)
  from True obtain u where u: "(x, u) \<in> set ts" by auto
  with ch x have "c_settime c = u" using seg_heap by fastforce
  then have set: "fle (Fin 0) (c_settime c)" using agenda_time_nonneg [OF inv u] by simp
  show ?thesis
  proof (cases "clock_setlist S = Some x")
    case head: True
    then obtain v post where ts: "ts = (x, v) # post" using ch u by (cases ts) auto
    define S' where "S' = set_settime x (Fin (-1)) (S\<lparr>clock_setlist := c_next c\<rparr>)"
    have h: "heap S' = (heap S)(x \<mapsto> c\<lparr>c_settime := Fin (-1)\<rparr>)" "clock_setlist S' = c_next c"
      "sys_time S' = sys_time S"
      using x by (simp_all add: S'_def)
    have "chain (heap S') (clock_setlist S') (agenda_remove x ts)"
      using ts ch dist x agenda_remove_decomp [of "[]" x v post] by (simp add: h seg_fun_upd_other)
    then have "agenda_of S' (agenda_remove x ts)"
      by (rule agenda_of_removed [OF inv]) (auto simp: h split: if_splits)
    moreover have "clock_unset x S = Some (Inr S')"
      using x set head by (simp add: clock_unset_def deref_def S'_def)
    moreover have "same_frame S S'"
      unfolding S'_def by (rule same_frame_trans [OF _ same_frame_set_settime]) simp
    ultimately show ?thesis by blast
  next
    case False
    obtain pre y t v post where ts: "ts = pre @ (y, t) # (x, v) # post"
      using agenda_split [OF True False ch] .
    have segs: "seg (heap S) (clock_setlist S) (pre @ [(y, t)]) (Some x)" "chain (heap S) (c_next c) post"
      using ch x by (auto simp: ts seg_append split: option.splits)
    then obtain d where d: "heap S y = Some d" using seg_heap [OF segs(1)] by fastforce
    have ne: "y \<noteq> x" "y \<notin> fst ` set pre" "x \<notin> fst ` set pre" "y \<notin> fst ` set post" "x \<notin> fst ` set post"
      using dist by (auto simp: ts image_iff)
    define S' where "S' = set_settime x (Fin (-1)) (set_next y (c_next c) S)"
    have h: "heap S' = (heap S)(y \<mapsto> d\<lparr>c_next := c_next c\<rparr>, x \<mapsto> c\<lparr>c_settime := Fin (-1)\<rparr>)"
      "clock_setlist S' = clock_setlist S" "sys_time S' = sys_time S"
      using x d ne by (simp_all add: S'_def)
    have "seg (heap S') (clock_setlist S) (pre @ [(y, t)]) (c_next c)"
      using seg_relink [OF segs(1) ne(2) d, of "c_next c"] ne
      by (simp add: h seg_fun_upd_other)
    moreover have "chain (heap S') (c_next c) post"
      using segs(2) ne by (simp add: h seg_fun_upd_other)
    ultimately have "chain (heap S') (clock_setlist S') ((pre @ [(y, t)]) @ post)"
      unfolding h(2) seg_append by blast
    moreover have "agenda_remove x ts = (pre @ [(y, t)]) @ post"
      using agenda_remove_decomp [of "pre @ [(y, t)]" x v post] dist by (simp add: ts)
    ultimately have "chain (heap S') (clock_setlist S') (agenda_remove x ts)" by simp
    then have "agenda_of S' (agenda_remove x ts)"
      by (rule agenda_of_removed [OF inv]) (auto simp: h d split: if_splits)
    moreover have "unset_loop S x (clock_setlist S) = Some (Inr y)"
      using segs(1) ne by (intro unset_loop_finds) auto
    then have "clock_unset x S = Some (Inr S')"
      using x set False by (simp add: clock_unset_def deref_def S'_def)
    moreover have "same_frame S S'"
      unfolding S'_def by (rule same_frame_trans [OF same_frame_set_next same_frame_set_settime])
    ultimately show ?thesis by blast
  qed
qed

subsection \<open>Setting refines sorted insertion\<close>

definition clamp_time :: "'w sched \<Rightarrow> fl \<Rightarrow> fl" where
  "clamp_time S t = (if flt t (sys_time S) then sys_time S else t)"

definition first_addr :: "agenda \<Rightarrow> addr option" where
  "first_addr ts = (case ts of [] \<Rightarrow> None | e # es \<Rightarrow> Some (fst e))"

lemma seg_first: "seg h p (ts @ us) None \<Longrightarrow> seg h p ts (first_addr us) \<and> chain h (first_addr us) us"
proof -
  assume "seg h p (ts @ us) None"
  then obtain r where r: "seg h p ts r" "chain h r us" by (auto simp: seg_append)
  then have "r = first_addr us" by (cases us) (auto simp: first_addr_def)
  with r show ?thesis by simp
qed

lemma set_loop_finds:
  assumes "chain (heap S) (Some b) ((b, tb) # ts)" "t \<noteq> NaN" "\<forall>e \<in> set ts. snd e \<noteq> NaN"
  shows "set_loop S t b = Some (Inr (fst (last ((b, tb) # takeWhile (\<lambda>e. fle (snd e) t) ts)),
    first_addr (dropWhile (\<lambda>e. fle (snd e) t) ts)))"
  using assms
proof (induction ts arbitrary: b tb)
  case Nil
  then show ?case by (subst set_loop.simps) (auto simp: first_addr_def split: option.splits)
next
  case (Cons e ts)
  obtain z u where e: "e = (z, u)" by (cases e)
  obtain c d where c: "heap S b = Some c" "c_next c = Some z" "heap S z = Some d" "c_settime d = u"
    "chain (heap S) (Some z) ((z, u) # ts)"
    using Cons.prems(1) by (auto simp: e split: option.splits)
  show ?case
  proof (cases "fle u t")
    case True
    with Cons.prems e have "\<not> flt t u" by (simp add: not_flt)
    with c have "set_loop S t b = set_loop S t z" by (subst set_loop.simps) simp
    also have "\<dots> = Some (Inr (fst (last ((z, u) # takeWhile (\<lambda>e. fle (snd e) t) ts)),
        first_addr (dropWhile (\<lambda>e. fle (snd e) t) ts)))"
      using c(5) Cons.prems by (intro Cons.IH) auto
    finally show ?thesis using True by (simp add: e)
  next
    case False
    with Cons.prems e have "flt t u" by (simp add: not_fle)
    with c False show ?thesis
      by (subst set_loop.simps) (simp add: e first_addr_def)
  qed
qed

lemma sorted_later:
  assumes "agenda_sorted ds" "t \<noteq> NaN" "\<forall>f \<in> set ds. snd f \<noteq> NaN" "ds \<noteq> [] \<Longrightarrow> \<not> fle (snd (hd ds)) t"
  shows "\<forall>f \<in> set ds. flt t (snd f)"
proof (cases ds)
  case (Cons e es)
  with assms have "flt t (snd e)" "\<forall>f \<in> set es. fle (snd e) (snd f)"
    by (auto simp: not_fle agenda_sorted_def)
  then show ?thesis unfolding Cons using flt_fle_trans by auto
qed simp

lemma agenda_insert_decomp:
  assumes "agenda_sorted ts" "t \<noteq> NaN" "\<forall>e \<in> set ts. snd e \<noteq> NaN"
  obtains pre post where "ts = pre @ post" "agenda_insert x t ts = pre @ (x, t) # post"
    "\<forall>e \<in> set pre. fle (snd e) t" "\<forall>f \<in> set post. flt t (snd f)"
proof
  let ?P = "\<lambda>e. fle (snd e) t"
  show split: "ts = takeWhile ?P ts @ dropWhile ?P ts" by simp
  show "agenda_insert x t ts = takeWhile ?P ts @ (x, t) # dropWhile ?P ts"
    by (simp add: agenda_insert_def)
  show "\<forall>e \<in> set (takeWhile ?P ts). fle (snd e) t" by (auto dest: set_takeWhileD)
  show "\<forall>f \<in> set (dropWhile ?P ts). flt t (snd f)"
  proof (rule sorted_later [OF _ assms(2)])
    show "agenda_sorted (dropWhile ?P ts)"
      using assms(1) sorted_wrt_append split unfolding agenda_sorted_def by metis
    show "\<forall>f \<in> set (dropWhile ?P ts). snd f \<noteq> NaN" using assms(3) set_dropWhileD by metis
    show "\<not> fle (snd (hd (dropWhile ?P ts))) t" if "dropWhile ?P ts \<noteq> []"
      using that by (rule hd_dropWhile)
  qed
qed

lemma agenda_sorted_insert:
  assumes "agenda_sorted ts" "t \<noteq> NaN" "\<forall>e \<in> set ts. snd e \<noteq> NaN"
  shows "agenda_sorted (agenda_insert x t ts)"
proof -
  obtain pre post where "ts = pre @ post" and ins: "agenda_insert x t ts = pre @ (x, t) # post"
    and lo: "\<forall>e \<in> set pre. fle (snd e) t" and hi: "\<forall>f \<in> set post. flt t (snd f)"
    using agenda_insert_decomp [OF assms] .
  then show ?thesis
    using assms(1) by (auto simp: ins agenda_sorted_def sorted_wrt_append intro: flt_imp_fle)
qed

lemma set_agenda_insert [simp]: "set (agenda_insert x t ts) = insert (x, t) (set ts)"
proof -
  have "set ts = set (takeWhile (\<lambda>e. fle (snd e) t) ts) \<union> set (dropWhile (\<lambda>e. fle (snd e) t) ts)"
    by (metis set_append takeWhile_dropWhile_id)
  then show ?thesis by (auto simp: agenda_insert_def)
qed

lemma distinct_agenda_insert:
  assumes "distinct (map fst ts)" "x \<notin> fst ` set ts"
  shows "distinct (map fst (agenda_insert x t ts))"
proof -
  obtain pre post where "ts = pre @ post" "agenda_insert x t ts = pre @ (x, t) # post"
    by (metis agenda_insert_def takeWhile_dropWhile_id)
  with assms show ?thesis by auto
qed

lemma agenda_remove_insert:
  "agenda_remove x (agenda_insert x t (agenda_remove x ts)) = agenda_remove x ts"
proof -
  let ?us = "agenda_remove x ts"
  have "filter (\<lambda>e. fst e \<noteq> x) (agenda_insert x t ?us) =
      filter (\<lambda>e. fst e \<noteq> x) (takeWhile (\<lambda>e. fle (snd e) t) ?us @ dropWhile (\<lambda>e. fle (snd e) t) ?us)"
    unfolding agenda_insert_def filter_append by simp
  then show ?thesis by (simp add: agenda_remove_def)
qed

text \<open>Linking a clock in keeps the rest of the invariant.\<close>

lemma agenda_of_inserted:
  assumes "agenda_of S ts" "x \<notin> fst ` set ts" "t \<noteq> NaN" "fle (sys_time S) t"
    "chain (heap S') (clock_setlist S') (agenda_insert x t ts)" "sys_time S' = sys_time S"
    "\<And>z c'. heap S' z = Some c' \<Longrightarrow> z \<noteq> x \<Longrightarrow> \<exists>c. heap S z = Some c \<and> c_settime c' = c_settime c"
  shows "agenda_of S' (agenda_insert x t ts)"
proof -
  have nan: "\<forall>e \<in> set ts. snd e \<noteq> NaN"
    using assms(1) by (auto simp: agenda_of_def)
  have "flt (c_settime c') (Fin 0)"
    if z: "heap S' z = Some c'" "z \<notin> fst ` set (agenda_insert x t ts)" for z c'
  proof -
    from z have "z \<noteq> x" "z \<notin> fst ` set ts" by auto
    moreover from this obtain c where "heap S z = Some c" "c_settime c' = c_settime c"
      using assms(7) [OF z(1)] by blast
    ultimately show ?thesis using assms(1) by (auto simp: agenda_of_def)
  qed
  then show ?thesis
    using assms nan
    by (auto simp: agenda_of_def agenda_sorted_insert distinct_agenda_insert)
qed

lemma agenda_of_settime:
  assumes "agenda_of S ts" "x \<notin> fst ` set ts" "heap S x = Some c"
  shows "chain (heap (set_settime x t S)) (clock_setlist S) ts"
  using assms by (auto simp: agenda_of_def seg_fun_upd_other)

text \<open>The two ways to link a clock in: in front of the list, and behind a clock of it.\<close>

lemma link_front:
  assumes inv: "agenda_of S ts" and x: "x \<notin> fst ` set ts" "heap S x = Some c" and t: "t \<noteq> NaN" "fle (sys_time S) t"
    and front: "takeWhile (\<lambda>e. fle (snd e) t) ts = []"
  shows "agenda_of ((set_next x (clock_setlist S) (set_settime x t S))\<lparr>clock_setlist := Some x\<rparr>) (agenda_insert x t ts)"
proof (rule agenda_of_inserted [OF inv x(1) t])
  let ?S' = "(set_next x (clock_setlist S) (set_settime x t S))\<lparr>clock_setlist := Some x\<rparr>"
  have h: "heap ?S' = (heap S)(x \<mapsto> c\<lparr>c_settime := t, c_next := clock_setlist S\<rparr>)"
    using x(2) by simp
  have "agenda_insert x t ts = (x, t) # ts"
    using front takeWhile_dropWhile_id [of "\<lambda>e. fle (snd e) t" ts] by (simp add: agenda_insert_def)
  then show "chain (heap ?S') (clock_setlist ?S') (agenda_insert x t ts)"
    using inv x by (simp add: h seg_fun_upd_other agenda_of_def)
  show "\<exists>d. heap S z = Some d \<and> c_settime c' = c_settime d" if "heap ?S' z = Some c'" "z \<noteq> x" for z c'
    using that by (simp add: h)
qed simp

lemma link_behind:
  assumes inv: "agenda_of S ts" and x: "x \<notin> fst ` set ts" "heap S x = Some c" and t: "t \<noteq> NaN" "fle (sys_time S) t"
    and split: "takeWhile (\<lambda>e. fle (snd e) t) ts = pre @ [(y, u)]"
  shows "agenda_of (set_next x (first_addr (dropWhile (\<lambda>e. fle (snd e) t) ts))
      (set_next y (Some x) (set_settime x t S))) (agenda_insert x t ts)"
proof (rule agenda_of_inserted [OF inv x(1) t])
  let ?post = "dropWhile (\<lambda>e. fle (snd e) t) ts"
  let ?S' = "set_next x (first_addr ?post) (set_next y (Some x) (set_settime x t S))"
  have ts: "ts = pre @ [(y, u)] @ ?post"
    using takeWhile_dropWhile_id [of "\<lambda>e. fle (snd e) t" ts] split by simp
  have dist: "distinct (map fst (pre @ [(y, u)] @ ?post))" "x \<notin> fst ` set (pre @ [(y, u)] @ ?post)"
    using inv x(1) ts by (auto simp: agenda_of_def)
  then have ne: "y \<noteq> x" "y \<notin> fst ` set pre" "x \<notin> fst ` set pre" "y \<notin> fst ` set ?post" "x \<notin> fst ` set ?post"
    by (auto simp: image_iff)
  have "chain (heap S) (clock_setlist S) ((pre @ [(y, u)]) @ ?post)"
    using inv ts by (simp add: agenda_of_def)
  then have segs: "seg (heap S) (clock_setlist S) (pre @ [(y, u)]) (first_addr ?post)"
    "chain (heap S) (first_addr ?post) ?post"
    using seg_first by blast+
  then obtain d where d: "heap S y = Some d" using seg_heap [OF segs(1)] by fastforce
  have h: "heap ?S' = (heap S)(y \<mapsto> d\<lparr>c_next := Some x\<rparr>, x \<mapsto> c\<lparr>c_settime := t, c_next := first_addr ?post\<rparr>)"
    using x(2) d ne by (simp add: fun_upd_twist)
  have "seg (heap ?S') (clock_setlist S) (pre @ [(y, u)]) (Some x)"
    using seg_relink [OF segs(1) ne(2) d, of "Some x"] ne
    unfolding h by (subst seg_fun_upd_other) auto
  moreover have "chain (heap ?S') (Some x) ((x, t) # ?post)"
    using segs(2) ne by (simp add: h seg_fun_upd_other)
  ultimately have "chain (heap ?S') (clock_setlist S) ((pre @ [(y, u)]) @ (x, t) # ?post)"
    unfolding seg_append by blast
  then show "chain (heap ?S') (clock_setlist ?S') (agenda_insert x t ts)"
    by (simp add: agenda_insert_def split)
  show "\<exists>d. heap S z = Some d \<and> c_settime c' = c_settime d" if "heap ?S' z = Some c'" "z \<noteq> x" for z c'
    using that d by (auto simp: h split: if_splits)
qed simp

text \<open>Setting a clock, from the moment it is unset.\<close>

lemma clamp_time_ok:
  assumes "agenda_of S ts" "t \<noteq> NaN"
  shows "clamp_time S t \<noteq> NaN" "fle (sys_time S) (clamp_time S t)"
proof -
  have "sys_time S \<noteq> NaN" using assms(1) by (auto simp: agenda_of_def)
  then show "clamp_time S t \<noteq> NaN" "fle (sys_time S) (clamp_time S t)"
    using assms(2) by (auto simp: clamp_time_def fle_refl not_flt)
qed

lemma link_clock_agenda:
  assumes inv: "agenda_of S ts" and x: "x \<notin> fst ` set ts" "heap S x = Some c"
    and t: "t \<noteq> NaN" "fle (sys_time S) t"
  shows "\<exists>S'. link_clock x t (set_settime x t S) = Some (Inr S') \<and>
    agenda_of S' (agenda_insert x t ts) \<and> same_frame S S'"
proof (cases "takeWhile (\<lambda>e. fle (snd e) t) ts = []")
  case True
  have "clock_setlist S = None \<or> (\<exists>b d. clock_setlist S = Some b \<and>
      heap (set_settime x t S) b = Some d \<and> \<not> fle (c_settime d) t)"
    using agenda_of_settime [OF inv x, of t] inv True
    by (cases ts) (auto simp: agenda_of_def split: option.splits if_splits)
  then have "link_clock x t (set_settime x t S) =
      Some (Inr ((set_next x (clock_setlist S) (set_settime x t S))\<lparr>clock_setlist := Some x\<rparr>))"
    by (auto simp: link_clock_def deref_def)
  then show ?thesis using link_front [OF inv x t True] by auto
next
  case False
  then obtain b tb es where ts: "ts = (b, tb) # es" and early: "fle tb t"
    by (cases ts) (auto split: if_splits)
  obtain pre y u where split: "takeWhile (\<lambda>e. fle (snd e) t) ts = pre @ [(y, u)]"
    using False by (metis rev_exhaust surj_pair)
  have ch: "chain (heap (set_settime x t S)) (Some b) ((b, tb) # es)" and head: "clock_setlist S = Some b"
    using agenda_of_settime [OF inv x, of t] inv by (auto simp: ts agenda_of_def)
  then obtain d where d: "heap (set_settime x t S) b = Some d" "c_settime d = tb"
    by (auto split: option.splits)
  have nan: "\<forall>e \<in> set es. snd e \<noteq> NaN" using inv by (auto simp: agenda_of_def ts)
  have last: "last ((b, tb) # takeWhile (\<lambda>e. fle (snd e) t) es) = (y, u)"
    using arg_cong [OF split, of last] early by (simp add: ts)
  have "set_loop (set_settime x t S) t b =
      Some (Inr (y, first_addr (dropWhile (\<lambda>e. fle (snd e) t) ts)))"
    using set_loop_finds [OF ch t(1) nan] last early by (simp add: ts)
  then have "link_clock x t (set_settime x t S) = Some (Inr (set_next x
      (first_addr (dropWhile (\<lambda>e. fle (snd e) t) ts)) (set_next y (Some x) (set_settime x t S))))"
    using head d early by (simp add: link_clock_def deref_def)
  moreover have "same_frame S (set_next x n (set_next y m (set_settime x t S)))" for n m
    by (intro same_frame_links same_frame_refl)
  ultimately show ?thesis using link_behind [OF inv x t split] by metis
qed

lemma clock_set_agenda:
  assumes inv: "agenda_of S ts" and x: "heap S x = Some c" and t: "t \<noteq> NaN"
  shows "\<exists>S'. clock_set x t S = Some (Inr S') \<and> same_frame S S' \<and>
    agenda_of S' (agenda_insert x (clamp_time S t) (agenda_remove x ts))"
proof -
  obtain S1 where S1: "clock_unset x S = Some (Inr S1)" "agenda_of S1 (agenda_remove x ts)" "same_frame S S1"
    using clock_unset_agenda [OF inv x] by blast
  obtain c' where c': "heap S1 x = Some c'" using same_frame_heap [OF S1(3) x] by blast
  have "fle (sys_time S1) (clamp_time S t)" using clamp_time_ok [OF inv t] S1(3) by (simp add: same_frame_def)
  moreover have "x \<notin> fst ` set (agenda_remove x ts)" by (auto simp: agenda_remove_def)
  ultimately obtain S' where "link_clock x (clamp_time S t) (set_settime x (clamp_time S t) S1) = Some (Inr S')"
    "agenda_of S' (agenda_insert x (clamp_time S t) (agenda_remove x ts))" "same_frame S1 S'"
    using link_clock_agenda [OF S1(2) _ c'] clamp_time_ok(1) [OF inv t] by blast
  moreover have "clock_set x t S = link_clock x (clamp_time S t) (set_settime x (clamp_time S t) S1)"
    using S1(1) by (simp add: clock_set_def clamp_time_def Let_def)
  ultimately show ?thesis using S1(3) same_frame_trans by metis
qed

end
