(* ===== verification/Sched.thy ===== *)
theory Sched
  imports Clock
begin

text \<open>
  The scheduler tick (\<open>m_sched.c\<close>): advancing logical time by one DSP tick, calling the
  clocks that expire before it ends; the ring buffer of audio I/O errors; the histogram of
  execution phases; and switching the audio mode. The clock methods, the GUI poll and the
  DSP tick are arguments of the model. The locale \<open>timer_queue\<close> is the interface of the
  clock operations and \<open>quiet_clients\<close> the contract between the tick and clock methods that
  set no clock inside the tick.
\<close>

subsection \<open>One tick\<close>

definition outlet_setstacklim :: "'w sched \<Rightarrow> 'w sched" where
  "outlet_setstacklim S = S\<lparr>outlet_eventno := wrap32 (outlet_eventno S + 1)\<rparr>"

partial_function (option) tick_loop ::
    "(addr \<Rightarrow> nat \<Rightarrow> 'w sched \<Rightarrow> 'w sched) \<Rightarrow> ('w sched \<Rightarrow> 'w sched) \<Rightarrow> fl \<Rightarrow> int \<Rightarrow> 'w sched \<Rightarrow>
     (bool \<times> 'w sched) cresult option" where
  "tick_loop fn pollgui next_sys_time countdown S = (case clock_setlist S of
      None \<Rightarrow> Some (Inr (False, S))
    | Some x \<Rightarrow> (case heap S x of
        None \<Rightarrow> Some (Inl NullDeref)
      | Some c \<Rightarrow>
          if flt (c_settime c) next_sys_time then
            (case clock_unset x (S\<lparr>sys_time := c_settime c\<rparr>) of
               None \<Rightarrow> None
             | Some (Inl e) \<Rightarrow> Some (Inl e)
             | Some (Inr S1) \<Rightarrow>
                 (let S2 = fn (c_owner c) (c_fn c) (outlet_setstacklim S1);
                      S3 = (if countdown = 0 then pollgui S2 else S2);
                      k = (if countdown = 0 then 5000 else countdown - 1)
                  in if sys_quit S3 \<noteq> 0 then Some (Inr (True, S3))
                     else tick_loop fn pollgui next_sys_time k S3))
          else Some (Inr (False, S))))"

definition sched_tick ::
    "(addr \<Rightarrow> nat \<Rightarrow> 'w sched \<Rightarrow> 'w sched) \<Rightarrow> ('w sched \<Rightarrow> 'w sched) \<Rightarrow> ('w sched \<Rightarrow> 'w sched) \<Rightarrow>
     fl \<Rightarrow> 'w sched \<Rightarrow> 'w sched cresult option" where
  "sched_tick fn pollgui dsp_tick next_sys_time S =
     (case tick_loop fn pollgui next_sys_time 5000 S of
        None \<Rightarrow> None
      | Some (Inl e) \<Rightarrow> Some (Inl e)
      | Some (Inr (quit, S1)) \<Rightarrow>
          if quit then Some (Inr S1)
          else (let S2 = dsp_tick (S1\<lparr>sys_time := next_sys_time\<rparr>)
                in Some (Inr (S2\<lparr>sched_diddsp := wrap32 (sched_diddsp S2 + 1)\<rparr>))))"

subsection \<open>The error log\<close>

record resync_log =
  oss_resync :: "(int \<times> int) list"
  oss_resyncphase :: int
  oss_nresync :: int
  sched_diored :: bool
  sched_dioredtime :: int

definition NRESYNC :: int where "NRESYNC = 20"

definition sys_log_error :: "int \<Rightarrow> int \<Rightarrow> fl \<Rightarrow> int \<Rightarrow> resync_log \<Rightarrow> resync_log \<times> string list" where
  "sys_log_error diddsp blocksize dacsr type L =
     (let i = nat (oss_resyncphase L);
          phase = (if oss_resyncphase L + 1 = NRESYNC then 0 else oss_resyncphase L + 1);
          red = (type \<noteq> 0 \<and> \<not> sched_diored L \<and> sched_dioredtime L \<le> diddsp)
      in (L\<lparr>oss_resync := (oss_resync L)[i := (diddsp, type)],
            oss_nresync := wrap32 (oss_nresync L + 1), oss_resyncphase := phase,
            sched_diored := (sched_diored L \<or> red),
            sched_dioredtime := wrap32 (diddsp + int_of_fl (fdiv binary64 dacsr (fl_of_int binary64 blocksize)))\<rparr>,
          if red then [''pdtk_pd_dio 1''] else []))"

definition errtype_of :: "int \<Rightarrow> int" where
  "errtype_of e = (if e < 0 \<or> 4 < e then 0 else e)"

fun status_loop :: "(int \<times> int) list \<Rightarrow> nat \<Rightarrow> int \<Rightarrow> (int \<times> int) list" where
  "status_loop ring 0 phase = []"
| "status_loop ring (Suc n) phase =
     (let p = (if phase < 0 then phase + NRESYNC else phase); r = ring ! nat p
      in (fst r, errtype_of (snd r)) # status_loop ring n (p - 1))"

text \<open>The lines of \<open>glob_audiostatus\<close>: the tick of each error and the index of its name.\<close>

definition glob_audiostatus :: "resync_log \<Rightarrow> (int \<times> int) list" where
  "glob_audiostatus L =
     status_loop (oss_resync L) (nat (if NRESYNC \<le> oss_nresync L then NRESYNC else oss_nresync L))
       (oss_resyncphase L - 1)"

subsection \<open>The histogram\<close>

record hist =
  sys_histogram :: "int list list"
  sys_histtime :: fl
  sys_histphase :: int

definition sys_bin :: "int list" where "sys_bin = [0, 2, 5, 10, 20, 30, 50, 100, 1000]"

definition sys_clearhist :: "fl \<Rightarrow> hist \<Rightarrow> hist" where
  "sys_clearhist realtime H =
     H\<lparr>sys_histogram := replicate 10 (replicate 9 0), sys_histtime := realtime\<rparr>"

fun bin_loop :: "int \<Rightarrow> nat \<Rightarrow> nat option" where
  "bin_loop msec 0 = None"
| "bin_loop msec (Suc j) = (if sys_bin ! j \<le> msec then Some j else bin_loop msec j)"

definition sys_addhist :: "fl \<Rightarrow> int \<Rightarrow> hist \<Rightarrow> hist \<times> int" where
  "sys_addhist newtime phase H =
     (let phasewas = sys_histphase H;
          msec = int_of_fl (fmul binary64 (fsub binary64 newtime (sys_histtime H)) (Fin 1000));
          g = (case bin_loop msec (length sys_bin) of
                 None \<Rightarrow> sys_histogram H
               | Some j \<Rightarrow> (sys_histogram H)[nat phasewas :=
                   (sys_histogram H ! nat phasewas)[j := wrap32 (sys_histogram H ! nat phasewas ! j + 1)]])
      in (H\<lparr>sys_histogram := g, sys_histtime := newtime, sys_histphase := phase\<rparr>, phasewas))"

subsection \<open>Audio mode\<close>

text \<open>The second result tells whether the complaint that callbacks cannot be turned off is posted.\<close>

datatype audio_mode = SCHED_AUDIO_NONE | SCHED_AUDIO_POLL | SCHED_AUDIO_CALLBACK

record audio_state =
  sched_useaudio :: audio_mode
  sched_referencerealtime :: fl
  sched_referencelogicaltime :: fl
  au_quit :: int
  sys_time_per_dsp_tick :: fl

definition sched_set_using_audio ::
    "fl \<Rightarrow> fl \<Rightarrow> int \<Rightarrow> fl \<Rightarrow> audio_mode \<Rightarrow> audio_state \<Rightarrow> audio_state \<times> bool" where
  "sched_set_using_audio realtime logicaltime blocksize dacsr flag A =
     (let A1 = A\<lparr>sched_useaudio := flag\<rparr>;
          A2 = (if flag = SCHED_AUDIO_NONE
                then A1\<lparr>sched_referencerealtime := realtime, sched_referencelogicaltime := logicaltime\<rparr>
                else A1);
          A3 = (if flag = SCHED_AUDIO_CALLBACK \<and> sched_useaudio A2 \<noteq> SCHED_AUDIO_CALLBACK
                then A2\<lparr>au_quit := 2\<rparr> else A2);
          posted = (flag \<noteq> SCHED_AUDIO_CALLBACK \<and> sched_useaudio A3 = SCHED_AUDIO_CALLBACK)
      in (A3\<lparr>sys_time_per_dsp_tick :=
             fdiv binary64 (fmul binary64 TIMEUNITPERSEC (fl_of_int binary64 blocksize)) dacsr\<rparr>, posted))"

subsection \<open>The interface of the clock operations\<close>

datatype 'k clock_op = Set 'k fl | Unset 'k

definition clamp :: "fl \<Rightarrow> fl \<Rightarrow> fl" where
  "clamp now t = (if flt t now then now else t)"

text \<open>What a sequence of operations does to the agenda.\<close>

fun spec_op :: "fl \<Rightarrow> 'k clock_op \<Rightarrow> ('k \<times> fl) list \<Rightarrow> ('k \<times> fl) list" where
  "spec_op now (Unset x) ts = filter (\<lambda>e. fst e \<noteq> x) ts"
| "spec_op now (Set x t) ts =
     (let us = filter (\<lambda>e. fst e \<noteq> x) ts; P = (\<lambda>e. fle (snd e) (clamp now t))
      in takeWhile P us @ (x, clamp now t) # dropWhile P us)"

fun op_ok :: "('k \<Rightarrow> bool) \<Rightarrow> 'k clock_op \<Rightarrow> bool" where
  "op_ok known (Unset x) = known x"
| "op_ok known (Set x t) = (known x \<and> t \<noteq> NaN)"

fun run_ops :: "('k clock_op \<Rightarrow> 's \<Rightarrow> 's cresult option) \<Rightarrow> 'k clock_op list \<Rightarrow> 's \<Rightarrow> 's cresult option" where
  "run_ops do [] S = Some (Inr S)"
| "run_ops do (p # ps) S = (case do p S of
      None \<Rightarrow> None | Some (Inl e) \<Rightarrow> Some (Inl e) | Some (Inr S') \<Rightarrow> run_ops do ps S')"

locale timer_queue =
  fixes do :: "'k clock_op \<Rightarrow> 's \<Rightarrow> 's cresult option"
    and holds :: "'s \<Rightarrow> ('k \<times> fl) list \<Rightarrow> bool"
    and known :: "'s \<Rightarrow> 'k \<Rightarrow> bool"
    and now :: "'s \<Rightarrow> fl"
  assumes do_spec: "holds S ts \<Longrightarrow> op_ok (known S) p \<Longrightarrow>
      \<exists>S'. do p S = Some (Inr S') \<and> holds S' (spec_op (now S) p ts) \<and> now S' = now S \<and> known S' = known S"
begin

lemma run_ops_spec:
  assumes "holds S ts" "\<forall>p \<in> set ps. op_ok (known S) p"
  shows "\<exists>S'. run_ops do ps S = Some (Inr S') \<and> holds S' (fold (spec_op (now S)) ps ts) \<and> now S' = now S"
  using assms
proof (induction ps arbitrary: S ts)
  case (Cons p ps)
  then obtain S1 where "do p S = Some (Inr S1)" "holds S1 (spec_op (now S) p ts)"
    "now S1 = now S" "known S1 = known S"
    using do_spec [of S ts p] by auto
  then show ?case using Cons.IH [of S1 "spec_op (now S) p ts"] Cons.prems(2) by auto
qed simp

end

definition clock_do :: "addr clock_op \<Rightarrow> 'w sched \<Rightarrow> 'w sched cresult option" where
  "clock_do p S = (case p of Set x t \<Rightarrow> clock_set x t S | Unset x \<Rightarrow> clock_unset x S)"

lemma same_frame_dom: "same_frame S T \<Longrightarrow> (heap T x \<noteq> None) = (heap S x \<noteq> None)"
  by (auto simp: same_frame_def dom_def set_eq_iff)

interpretation clocks: timer_queue clock_do agenda_of "\<lambda>S x. heap S x \<noteq> None" sys_time
proof
  fix S :: "'w sched" and ts and p :: "addr clock_op"
  assume inv: "agenda_of S ts" and ok: "op_ok (\<lambda>x. heap S x \<noteq> None) p"
  show "\<exists>S'. clock_do p S = Some (Inr S') \<and> agenda_of S' (spec_op (sys_time S) p ts) \<and>
      sys_time S' = sys_time S \<and> (\<lambda>x. heap S' x \<noteq> None) = (\<lambda>x. heap S x \<noteq> None)"
  proof (cases p)
    case (Set x t)
    with ok obtain c where "heap S x = Some c" "t \<noteq> NaN" by auto
    from clock_set_agenda [OF inv this] obtain S' where "clock_set x t S = Some (Inr S')"
      "same_frame S S'" "agenda_of S' (agenda_insert x (clamp_time S t) (agenda_remove x ts))" by blast
    then show ?thesis
      using same_frame_dom [of S S']
      by (auto simp: Set clock_do_def agenda_insert_def agenda_remove_def clamp_def clamp_time_def
          Let_def same_frame_def fun_eq_iff)
  next
    case (Unset x)
    with ok obtain c where "heap S x = Some c" by auto
    from clock_unset_agenda [OF inv this] show ?thesis
      using same_frame_dom by (fastforce simp: Unset clock_do_def agenda_remove_def same_frame_def)
  qed
qed

text \<open>\<^bold>\<open>C1\<close>: Any sequence of \<open>clock_set\<close> and \<open>clock_unset\<close> calls on allocated clocks, with
  times that are not NaN, runs to the end: no search of the linked list follows a null link or
  runs for ever. The list then spells out what the same calls do to a sorted agenda in which an
  entry is replaced, times in the past count as the present, and clocks set for the same time
  stay in the order they were set.\<close>

theorem clock_ops_refine:
  assumes "agenda_of S ts" "\<forall>p \<in> set ps. op_ok (\<lambda>x. heap S x \<noteq> None) p"
  shows "\<exists>S'. run_ops clock_do ps S = Some (Inr S') \<and> agenda_of S' (fold (spec_op (sys_time S)) ps ts) \<and>
    sys_time S' = sys_time S"
  using assms by (rule clocks.run_ops_spec)

definition demo_sched :: "unit sched" where
  "demo_sched = clock_new 2 12 0 (clock_new 1 11 0 (clock_new 0 10 0
     \<lparr>heap = (\<lambda>_. None), clock_setlist = None, sys_time = Fin 5, sys_quit = 0, sched_diddsp = 0,
      outlet_eventno = 0, world = ()\<rparr>))"

definition demo_ops :: "addr clock_op list" where
  "demo_ops = [Set 0 (Fin 30), Set 1 (Fin 2), Set 2 (Fin 30), Set 1 (Fin 30), Unset 0]"

lemma demo_sched_agenda: "agenda_of demo_sched []" and demo_sched_time [simp]: "sys_time demo_sched = Fin 5"
  by (auto simp: agenda_of_def demo_sched_def clock_new_def agenda_sorted_def split: if_splits)

lemma demo_sched_heap:
  "heap demo_sched (Suc 0) = Some \<lparr>c_settime = Fin (-1), c_owner = 11, c_fn = 0, c_next = None\<rparr>"
  "heap demo_sched 2 = Some \<lparr>c_settime = Fin (-1), c_owner = 12, c_fn = 0, c_next = None\<rparr>"
  by (simp_all add: demo_sched_def clock_new_def)

theorem clock_ops_refine_witness:
  "\<exists>S'. run_ops clock_do demo_ops demo_sched = Some (Inr S') \<and>
     agenda_of S' [(2, Fin 30), (1, Fin 30)] \<and> sys_time S' = Fin 5"
proof -
  have "\<forall>p \<in> set demo_ops. op_ok (\<lambda>x. heap demo_sched x \<noteq> None) p"
    by (simp add: demo_sched_def clock_new_def demo_ops_def)
  moreover have "fold (spec_op (Fin 5)) demo_ops [] = [(2, Fin 30), (1, Fin 30)]"
    by (simp add: demo_ops_def Let_def clamp_def)
  ultimately show ?thesis
    using clock_ops_refine [OF demo_sched_agenda, of demo_ops] by simp
qed

subsection \<open>The tick fires what is due\<close>

definition due :: "fl \<Rightarrow> agenda \<Rightarrow> agenda" where
  "due t ts = takeWhile (\<lambda>e. flt (snd e) t) ts"

text \<open>The calls the tick has to make: the time, owner and method of every clock that is due.\<close>

definition calls :: "'w sched \<Rightarrow> agenda \<Rightarrow> (fl \<times> addr \<times> nat) list" where
  "calls S ts = map (\<lambda>(x, t). case heap S x of
     None \<Rightarrow> (t, 0, 0) | Some c \<Rightarrow> (t, c_owner c, c_fn c)) ts"

text \<open>A call that leaves what is due before a time alone and adds events to a trace.\<close>

definition quiet :: "('w sched \<Rightarrow> 'e list) \<Rightarrow> fl \<Rightarrow> 'w sched \<Rightarrow> agenda \<Rightarrow> 'w sched \<Rightarrow> 'e list \<Rightarrow> bool" where
  "quiet trace t S ts S' ev \<longleftrightarrow> (\<exists>ts'. agenda_of S' ts' \<and> due t ts' = due t ts \<and>
     calls S' (due t ts) = calls S (due t ts)) \<and> sys_time S' = sys_time S \<and> sys_quit S' = sys_quit S \<and>
     trace S' = trace S @ ev"

lemma quiet_trans:
  "quiet trace t S ts S1 ev \<Longrightarrow> (\<And>ts1. agenda_of S1 ts1 \<Longrightarrow> quiet trace t S1 ts1 S2 ev2) \<Longrightarrow>
   quiet trace t S ts S2 (ev @ ev2)"
  by (simp add: quiet_def) metis

lemma agenda_of_advance:
  assumes "agenda_of S ((x, t) # ts)"
  shows "agenda_of (S\<lparr>sys_time := t\<rparr>) ((x, t) # ts)"
  using assms by (auto simp: agenda_of_def agenda_sorted_def intro: fle_refl fle_trans)

lemma agenda_of_stacklim [simp]: "agenda_of (outlet_setstacklim S) ts = agenda_of S ts"
  by (simp add: agenda_of_def outlet_setstacklim_def)

lemma calls_cong:
  "(\<And>x c. heap S x = Some c \<Longrightarrow> \<exists>c'. heap T x = Some c' \<and> c_owner c' = c_owner c \<and> c_fn c' = c_fn c) \<Longrightarrow>
   \<forall>e \<in> set ts. heap S (fst e) \<noteq> None \<Longrightarrow> calls T ts = calls S ts"
  by (fastforce simp: calls_def)

lemma agenda_of_head:
  assumes "agenda_of S ((x, t) # ts)"
  obtains c where "heap S x = Some c" "c_settime c = t" "clock_setlist S = Some x"
  using assms by (auto simp: agenda_of_def split: option.splits)

lemma agenda_of_known: "agenda_of S ts \<Longrightarrow> e \<in> set ts \<Longrightarrow> heap S (fst e) \<noteq> None"
  using seg_heap by (cases e) (fastforce simp: agenda_of_def)

text \<open>Taking the first clock off the list.\<close>

lemma take_first:
  assumes inv: "agenda_of S ((x, t) # ts)"
  shows "\<exists>S1. clock_unset x (S\<lparr>sys_time := t\<rparr>) = Some (Inr S1) \<and> agenda_of S1 ts \<and>
    same_frame (S\<lparr>sys_time := t\<rparr>) S1"
proof -
  obtain c where c: "heap S x = Some c" using agenda_of_head [OF inv] .
  have "agenda_remove x ((x, t) # ts) = ts"
    using inv by (auto simp: agenda_of_def agenda_remove_def filter_id_conv image_iff)
  then show ?thesis using clock_unset_agenda [OF agenda_of_advance [OF inv], of x c] c by simp
qed

locale quiet_clients =
  fixes fn :: "addr \<Rightarrow> nat \<Rightarrow> 'w sched \<Rightarrow> 'w sched"
    and pollgui :: "'w sched \<Rightarrow> 'w sched"
    and trace :: "'w sched \<Rightarrow> (fl \<times> addr \<times> nat) list"
    and until :: fl
  assumes fn_quiet: "agenda_of S ts \<Longrightarrow> quiet trace until S ts (fn a m S) [(sys_time S, a, m)]"
    and poll_quiet: "agenda_of S ts \<Longrightarrow> quiet trace until S ts (pollgui S) []"
    and trace_world: "world S = world S' \<Longrightarrow> trace S = trace S'"
begin

lemma fire:
  assumes inv: "agenda_of S ((x, t) # ts)" and c: "heap S x = Some c"
  shows "\<exists>S1. clock_unset x (S\<lparr>sys_time := t\<rparr>) = Some (Inr S1) \<and>
    (\<exists>ts'. agenda_of (fn (c_owner c) (c_fn c) (outlet_setstacklim S1)) ts' \<and> due until ts' = due until ts \<and>
      calls (fn (c_owner c) (c_fn c) (outlet_setstacklim S1)) (due until ts) = calls S (due until ts)) \<and>
    sys_quit (fn (c_owner c) (c_fn c) (outlet_setstacklim S1)) = sys_quit S \<and>
    trace (fn (c_owner c) (c_fn c) (outlet_setstacklim S1)) = trace S @ [(t, c_owner c, c_fn c)]"
proof -
  obtain S1 where S1: "clock_unset x (S\<lparr>sys_time := t\<rparr>) = Some (Inr S1)" "agenda_of S1 ts"
    "same_frame (S\<lparr>sys_time := t\<rparr>) S1"
    using take_first [OF inv] by blast
  let ?S2 = "outlet_setstacklim S1"
  have same: "sys_time ?S2 = t" "sys_quit ?S2 = sys_quit S" "world ?S2 = world S"
    using S1(3) by (simp_all add: same_frame_def outlet_setstacklim_def)
  have "calls ?S2 (due until ts) = calls S (due until ts)"
  proof (rule calls_cong)
    show "\<exists>c'. heap ?S2 z = Some c' \<and> c_owner c' = c_owner d \<and> c_fn c' = c_fn d" if "heap S z = Some d" for z d
      using same_frame_heap [OF S1(3), of z d] that by (simp add: outlet_setstacklim_def)
    show "\<forall>e \<in> set (due until ts). heap S (fst e) \<noteq> None"
      using agenda_of_known [OF inv] by (auto simp: due_def dest: set_takeWhileD)
  qed
  moreover have "quiet trace until ?S2 ts (fn (c_owner c) (c_fn c) ?S2) [(t, c_owner c, c_fn c)]"
    using fn_quiet [of ?S2 ts] S1(2) same(1) by simp
  ultimately show ?thesis
    using S1(1) same(2) trace_world [OF same(3)] by (auto simp: quiet_def)
qed

lemma poll_keeps:
  assumes "agenda_of S ts" "due until ts = ds"
  shows "\<exists>ts'. agenda_of (if b then pollgui S else S) ts' \<and> due until ts' = ds \<and>
    calls (if b then pollgui S else S) ds = calls S ds \<and>
    sys_quit (if b then pollgui S else S) = sys_quit S \<and> trace (if b then pollgui S else S) = trace S"
  using assms poll_quiet [OF assms(1)] by (cases b) (auto simp: quiet_def)

lemma tick_loop_fires:
  assumes "agenda_of S ts" "sys_quit S = 0"
  shows "\<exists>S' ts'. tick_loop fn pollgui until k S = Some (Inr (False, S')) \<and> agenda_of S' ts' \<and>
    due until ts' = [] \<and> sys_quit S' = 0 \<and> trace S' = trace S @ calls S (due until ts)"
  using assms
proof (induction "due until ts" arbitrary: S ts k)
  case Nil
  have "tick_loop fn pollgui until k S = Some (Inr (False, S))"
  proof (cases ts)
    case Nil
    with Nil.prems show ?thesis by (subst tick_loop.simps) (auto simp: agenda_of_def)
  next
    case (Cons e es)
    then obtain x t where ts: "ts = (x, t) # es" by (cases e) auto
    obtain c where "heap S x = Some c" "c_settime c = t" "clock_setlist S = Some x"
      using agenda_of_head Nil.prems(1) ts by blast
    moreover have "\<not> flt t until" using Nil.hyps ts by (auto simp: due_def split: if_splits)
    ultimately show ?thesis by (subst tick_loop.simps) simp
  qed
  then show ?case using Nil by (auto simp: calls_def)
next
  case (Cons e ds)
  obtain x t es where ts: "ts = (x, t) # es" "flt t until" "due until es = ds"
    using Cons.hyps(2) by (cases ts; cases e) (auto simp: due_def split: if_splits)
  obtain c where c: "heap S x = Some c" "c_settime c = t" "clock_setlist S = Some x"
    using agenda_of_head Cons.prems(1) ts by blast
  obtain S1 ts1 where S1: "clock_unset x (S\<lparr>sys_time := t\<rparr>) = Some (Inr S1)"
    and S2: "agenda_of (fn (c_owner c) (c_fn c) (outlet_setstacklim S1)) ts1" "due until ts1 = ds"
      "calls (fn (c_owner c) (c_fn c) (outlet_setstacklim S1)) ds = calls S ds"
      "sys_quit (fn (c_owner c) (c_fn c) (outlet_setstacklim S1)) = 0"
      "trace (fn (c_owner c) (c_fn c) (outlet_setstacklim S1)) = trace S @ [(t, c_owner c, c_fn c)]"
    using fire [of S x t es c] Cons.prems ts c by metis
  define S3 where "S3 = (if k = 0 then pollgui (fn (c_owner c) (c_fn c) (outlet_setstacklim S1))
    else fn (c_owner c) (c_fn c) (outlet_setstacklim S1))"
  obtain ts3 where S3: "agenda_of S3 ts3" "due until ts3 = ds" "calls S3 ds = calls S ds" "sys_quit S3 = 0"
    "trace S3 = trace S @ [(t, c_owner c, c_fn c)]"
    using poll_keeps [OF S2(1,2), of "k = 0"] S2(3-5) unfolding S3_def by metis
  have "tick_loop fn pollgui until k S = tick_loop fn pollgui until (if k = 0 then 5000 else k - 1) S3"
    using c ts S1 S3(4) by (subst tick_loop.simps) (simp add: S3_def Let_def)
  moreover have "calls S (due until ts) = (t, c_owner c, c_fn c) # calls S ds"
    using ts c by (simp add: calls_def due_def)
  ultimately show ?case using Cons.hyps(1) [of ts3 S3 "if k = 0 then 5000 else k - 1"] S3 by simp
qed

end

text \<open>\<^bold>\<open>C2\<close>: When no clock method and no GUI poll sets or unsets a clock that is due in the
  tick, and none asks to quit, \<open>sched_tick\<close> terminates without a memory error after it has
  called the method of exactly the clocks that expire before the end of the tick, each on its
  owner, in the order of their times and with the logical time set to the time of the clock.\<close>

theorem sched_tick_fires:
  assumes "agenda_of S ts" "sys_quit S = 0"
    and "\<And>S ts a m. agenda_of S ts \<Longrightarrow> quiet trace until S ts (fn a m S) [(sys_time S, a, m)]"
    and "\<And>S ts. agenda_of S ts \<Longrightarrow> quiet trace until S ts (pollgui S) []"
    and "\<And>S S'. world S = world S' \<Longrightarrow> trace S = trace S'"
  shows "\<exists>S1 ts1. sched_tick fn pollgui dsp_tick until S =
      Some (Inr (let S2 = dsp_tick (S1\<lparr>sys_time := until\<rparr>) in S2\<lparr>sched_diddsp := wrap32 (sched_diddsp S2 + 1)\<rparr>)) \<and>
    agenda_of S1 ts1 \<and> due until ts1 = [] \<and> trace S1 = trace S @ calls S (due until ts)"
proof -
  have "quiet_clients fn pollgui trace until" using assms(3-5) by unfold_locales
  then show ?thesis
    using quiet_clients.tick_loop_fires [OF _ assms(1,2), of fn pollgui trace until 5000]
    by (auto simp: sched_tick_def Let_def)
qed

definition trace_fn :: "addr \<Rightarrow> nat \<Rightarrow> (fl \<times> addr \<times> nat) list sched \<Rightarrow> (fl \<times> addr \<times> nat) list sched" where
  "trace_fn a m S = S\<lparr>world := world S @ [(sys_time S, a, m)]\<rparr>"

lemma trace_fn_quiet: "agenda_of S ts \<Longrightarrow> quiet world t S ts (trace_fn a m S) [(sys_time S, a, m)]"
  by (auto simp: quiet_def trace_fn_def agenda_of_def calls_def)

lemma quiet_refl: "agenda_of S ts \<Longrightarrow> quiet trace t S ts S []"
  by (auto simp: quiet_def)

definition demo_clocks :: "(fl \<times> addr \<times> nat) list sched" where
  "demo_clocks = \<lparr>heap = [0 \<mapsto> \<lparr>c_settime = Fin 7, c_owner = 10, c_fn = 3, c_next = Some 1\<rparr>,
      1 \<mapsto> \<lparr>c_settime = Fin 9, c_owner = 11, c_fn = 4, c_next = None\<rparr>],
    clock_setlist = Some 0, sys_time = Fin 5, sys_quit = 0, sched_diddsp = 0, outlet_eventno = 0, world = []\<rparr>"

lemma demo_clocks_agenda: "agenda_of demo_clocks [(0, Fin 7), (1, Fin 9)]"
  by (auto simp: agenda_of_def demo_clocks_def agenda_sorted_def split: if_splits)

theorem sched_tick_fires_witness:
  "\<exists>S1 ts1. sched_tick trace_fn id id (Fin 8) demo_clocks =
      Some (Inr (S1\<lparr>sys_time := Fin 8, sched_diddsp := wrap32 (sched_diddsp S1 + 1)\<rparr>)) \<and>
    agenda_of S1 ts1 \<and> due (Fin 8) ts1 = [] \<and> world S1 = [(Fin 7, 10, 3)]"
proof -
  have "\<exists>S1 ts1. sched_tick trace_fn id id (Fin 8) demo_clocks =
      Some (Inr (let S2 = id (S1\<lparr>sys_time := Fin 8\<rparr>) in S2\<lparr>sched_diddsp := wrap32 (sched_diddsp S2 + 1)\<rparr>)) \<and>
    agenda_of S1 ts1 \<and> due (Fin 8) ts1 = [] \<and>
    world S1 = world demo_clocks @ calls demo_clocks (due (Fin 8) [(0, Fin 7), (1, Fin 9)])"
    by (rule sched_tick_fires [OF demo_clocks_agenda _ trace_fn_quiet])
      (simp_all add: demo_clocks_def quiet_refl)
  moreover have "calls demo_clocks (due (Fin 8) [(0, Fin 7), (1, Fin 9)]) = [(Fin 7, 10, 3)]"
    by (simp add: calls_def due_def demo_clocks_def)
  ultimately show ?thesis by (simp add: Let_def demo_clocks_def)
qed

subsection \<open>The error log and the audio mode\<close>

text \<open>The invariant of the ring buffer: it holds the latest errors of the history.\<close>

definition ring_inv :: "(int \<times> int) list \<Rightarrow> resync_log \<Rightarrow> bool" where
  "ring_inv h L \<longleftrightarrow> length (oss_resync L) = 20 \<and> oss_resyncphase L = int (length h mod 20) \<and>
     oss_nresync L = int (length h) \<and>
     (\<forall>i < length h. length h \<le> i + 20 \<longrightarrow> oss_resync L ! (i mod 20) = h ! i)"

lemma ring_slot: "i < n \<Longrightarrow> n < i + 20 \<Longrightarrow> i mod 20 \<noteq> (n::nat) mod 20"
  using mod_eq_dvd_iff_nat [of i n 20] dvd_imp_le [of 20 "n - i"] by fastforce

lemma ring_inv_log:
  assumes inv: "ring_inv h L" and few: "length h < 2 ^ 31 - 1"
  shows "ring_inv (h @ [(diddsp, type)]) (fst (sys_log_error diddsp blocksize dacsr type L))"
proof -
  let ?n = "length h"
  have "(oss_resync L)[?n mod 20 := (diddsp, type)] ! (i mod 20) = (h @ [(diddsp, type)]) ! i"
    if i: "i < Suc ?n" "Suc ?n \<le> i + 20" for i
  proof (cases "i = ?n")
    case True
    then show ?thesis using inv by (simp add: ring_inv_def)
  next
    case False
    then have "i < ?n" "i mod 20 \<noteq> ?n mod 20" using i ring_slot [of i ?n] by auto
    then show ?thesis using inv i by (simp add: ring_inv_def nth_append)
  qed
  then show ?thesis
    using inv few by (simp add: ring_inv_def sys_log_error_def Let_def NRESYNC_def mod_Suc)
qed

lemma status_loop_entries:
  assumes "\<forall>i < length h. length h \<le> i + 20 \<longrightarrow> ring ! (i mod 20) = h ! i"
    and "j \<le> m" "m \<le> length h" "length h \<le> m - j + 20"
  shows "status_loop ring j (int (m mod 20) - 1) =
    map (\<lambda>i. (fst (h ! i), errtype_of (snd (h ! i)))) (rev [m - j..<m])"
  using assms(2-4)
proof (induction j arbitrary: m)
  case (Suc j)
  then obtain k where m: "m = Suc k" by (cases m) auto
  have slot: "(if int (m mod 20) - 1 < 0 then int (m mod 20) - 1 + NRESYNC else int (m mod 20) - 1) = int (k mod 20)"
    by (simp add: m NRESYNC_def mod_Suc)
  have "ring ! (k mod 20) = h ! k" using assms(1) Suc.prems m by simp
  moreover have "status_loop ring j (int (k mod 20) - 1) =
      map (\<lambda>i. (fst (h ! i), errtype_of (snd (h ! i)))) (rev [k - j..<k])"
    using Suc.prems m by (intro Suc.IH) auto
  moreover have "rev [m - Suc j..<m] = k # rev [k - j..<k]" using Suc.prems m by simp
  ultimately show ?case by (simp only: status_loop.simps Let_def slot nat_int list.map)
qed simp

text \<open>After any number of logged errors below the range of the counter, the ring buffer
  of \<open>sys_log_error\<close> makes \<open>glob_audiostatus\<close> report the latest twenty of them (or all, if there
  are fewer), newest first, with unknown error numbers reported as error 0.\<close>

theorem audiostatus_reports_latest:
  assumes "ring_inv [] L" "length h < 2 ^ 31"
  shows "glob_audiostatus (fold (\<lambda>(tick, type) L. fst (sys_log_error tick blocksize dacsr type L)) h L) =
    map (\<lambda>(tick, type). (tick, errtype_of type)) (take 20 (rev h))"
proof -
  let ?log = "\<lambda>(tick, type) L. fst (sys_log_error tick blocksize dacsr type L)"
  have inv: "ring_inv h (fold ?log h L)"
    using assms
  proof (induction h rule: rev_induct)
    case (snoc e h)
    then show ?case using ring_inv_log [of h "fold ?log h L"] by (cases e) simp
  qed simp
  let ?L = "fold ?log h L" and ?k = "min 20 (length h)"
  have "glob_audiostatus ?L = status_loop (oss_resync ?L) ?k (int (length h mod 20) - 1)"
    using inv by (auto simp: glob_audiostatus_def ring_inv_def NRESYNC_def min_def)
  also have "\<dots> = map (\<lambda>i. (fst (h ! i), errtype_of (snd (h ! i)))) (rev [length h - ?k..<length h])"
    using inv by (intro status_loop_entries) (auto simp: ring_inv_def)
  also have "\<dots> = map (\<lambda>(tick, type). (tick, errtype_of type)) (take 20 (rev h))"
    by (rule nth_equalityI) (auto simp: rev_nth case_prod_beta min_def)
  finally show ?thesis .
qed

definition empty_log :: resync_log where
  "empty_log = \<lparr>oss_resync = replicate 20 (0, 0), oss_resyncphase = 0, oss_nresync = 0,
     sched_diored = False, sched_dioredtime = 0\<rparr>"

theorem audiostatus_reports_latest_witness:
  "glob_audiostatus (fold (\<lambda>(tick, type) L. fst (sys_log_error tick 64 (Fin 44100) type L))
     [(3, 1), (5, 9), (8, 4)] empty_log) = [(8, 4), (5, 0), (3, 1)]"
  using audiostatus_reports_latest [of empty_log "[(3, 1), (5, 9), (8, 4)]" 64 "Fin 44100"]
  by (simp add: ring_inv_def empty_log_def errtype_of_def)

text \<open>\<open>sched_set_using_audio\<close> stores the new mode before it compares it with the old
  one, so switching to callbacks never asks for the restart, and switching back never posts the
  complaint, that its code has for these cases.\<close>

theorem set_using_audio_never_restarts:
  "let (A', posted) = sched_set_using_audio realtime logicaltime blocksize dacsr flag A
   in au_quit A' = au_quit A \<and> \<not> posted \<and> sched_useaudio A' = flag"
  by (auto simp: sched_set_using_audio_def Let_def)

end
