(* ===== verification/XTime.thy ===== *)
theory XTime
  imports Sched
begin

text \<open>
  The clock objects of \<open>x_time.c\<close>: delay, metro, line and timer. An object is a record; a
  method takes the object and the scheduler state and returns them updated. What is connected
  to the outlet is an argument of the model: it sees and may change the object as well, since a
  message may come back to the object that sent it. The theorems also show what a NaN time
  does to the scheduler.
\<close>

subsection \<open>Sequencing\<close>

definition ret :: "'a \<Rightarrow> 'a cresult option" where
  "ret a = Some (Inr a)"

subsection \<open>delay\<close>

record t_delay =
  dl_clock :: addr
  dl_deltime :: fl

definition delay_bang :: "t_delay \<Rightarrow> 'w sched \<Rightarrow> 'w sched cresult option" where
  "delay_bang x S = clock_delay (dl_clock x) (dl_deltime x) S"

definition delay_stop :: "t_delay \<Rightarrow> 'w sched \<Rightarrow> 'w sched cresult option" where
  "delay_stop x S = clock_unset (dl_clock x) S"

definition delay_ft1 :: "fl \<Rightarrow> t_delay \<Rightarrow> t_delay" where
  "delay_ft1 g x = x\<lparr>dl_deltime := (if flt g (Fin 0) then Fin 0 else g)\<rparr>"

definition delay_float :: "fl \<Rightarrow> t_delay \<Rightarrow> 'w sched \<Rightarrow> (t_delay \<times> 'w sched) cresult option" where
  "delay_float f x S = (let x' = delay_ft1 f x in rbind (delay_bang x' S) (\<lambda>S'. ret (x', S')))"

definition delay_tick :: "('w sched \<Rightarrow> 'w sched) \<Rightarrow> 'w sched \<Rightarrow> 'w sched" where
  "delay_tick outlet_bang S = outlet_bang S"

definition delay_free :: "t_delay \<Rightarrow> 'w sched \<Rightarrow> 'w sched cresult option" where
  "delay_free x S = clock_free (dl_clock x) S"

text \<open>The addresses of the new object and of its clock, and the number of the method
  \<open>delay_tick\<close>, come from the allocator and the linker.\<close>

definition delay_new :: "addr \<Rightarrow> addr \<Rightarrow> nat \<Rightarrow> fl \<Rightarrow> 'w sched \<Rightarrow> t_delay \<times> 'w sched" where
  "delay_new self clock tick f S =
     (delay_ft1 f \<lparr>dl_clock = clock, dl_deltime = Fin 0\<rparr>, clock_new clock self tick S)"

subsection \<open>metro\<close>

record t_metro =
  mt_clock :: addr
  mt_deltime :: fl
  mt_hit :: int

type_synonym 'w metro_state = "t_metro \<times> 'w sched"

definition metro_tick ::
    "('w metro_state \<Rightarrow> 'w metro_state cresult option) \<Rightarrow> 'w metro_state \<Rightarrow> 'w metro_state cresult option" where
  "metro_tick outlet_bang m =
     rbind (outlet_bang ((fst m)\<lparr>mt_hit := 0\<rparr>, snd m)) (\<lambda>(x, S).
       if mt_hit x = 0 then rbind (clock_delay (mt_clock x) (mt_deltime x) S) (\<lambda>S'. ret (x, S'))
       else ret (x, S))"

definition metro_float ::
    "('w metro_state \<Rightarrow> 'w metro_state cresult option) \<Rightarrow> fl \<Rightarrow> 'w metro_state \<Rightarrow> 'w metro_state cresult option" where
  "metro_float outlet_bang f m =
     rbind (if \<not> feq f (Fin 0) then metro_tick outlet_bang m
            else rbind (clock_unset (mt_clock (fst m)) (snd m)) (\<lambda>S'. ret (fst m, S')))
       (\<lambda>(x, S). ret (x\<lparr>mt_hit := 1\<rparr>, S))"

definition metro_bang ::
    "('w metro_state \<Rightarrow> 'w metro_state cresult option) \<Rightarrow> 'w metro_state \<Rightarrow> 'w metro_state cresult option" where
  "metro_bang outlet_bang m = metro_float outlet_bang (Fin 1) m"

definition metro_stop ::
    "('w metro_state \<Rightarrow> 'w metro_state cresult option) \<Rightarrow> 'w metro_state \<Rightarrow> 'w metro_state cresult option" where
  "metro_stop outlet_bang m = metro_float outlet_bang (Fin 0) m"

definition metro_ft1 :: "fl \<Rightarrow> t_metro \<Rightarrow> t_metro" where
  "metro_ft1 g x = x\<lparr>mt_deltime := (if flt g (Fin 1) then Fin 1 else g)\<rparr>"

definition metro_free :: "t_metro \<Rightarrow> 'w sched \<Rightarrow> 'w sched cresult option" where
  "metro_free x S = clock_free (mt_clock x) S"

definition metro_new :: "addr \<Rightarrow> addr \<Rightarrow> nat \<Rightarrow> fl \<Rightarrow> 'w sched \<Rightarrow> 'w metro_state" where
  "metro_new self clock tick f S =
     ((metro_ft1 f \<lparr>mt_clock = clock, mt_deltime = Fin 0, mt_hit = 0\<rparr>)\<lparr>mt_hit := 0\<rparr>,
      clock_new clock self tick S)"

subsection \<open>line\<close>

record t_line =
  ln_clock :: addr
  x_targettime :: fl
  x_targetval :: fl
  x_prevtime :: fl
  x_setval :: fl
  x_gotinlet :: int
  x_grain :: fl
  x_1overtimediff :: fl
  x_in1val :: fl

type_synonym 'w line_state = "t_line \<times> 'w sched"

definition DEFAULTLINEGRAIN :: fl where "DEFAULTLINEGRAIN = Fin 20"

text \<open>The value of the ramp; the \<open>t_float\<close> fields are promoted to double.\<close>

definition line_value :: "t_line \<Rightarrow> fl \<Rightarrow> fl" where
  "line_value x timenow = fl_convert binary32 (fadd binary64 (x_setval x)
     (fmul binary64 (fmul binary64 (x_1overtimediff x) (fsub binary64 timenow (x_prevtime x)))
       (fsub binary32 (x_targetval x) (x_setval x))))"

text \<open>The constant \<open>1E-9\<close>, rounded to double.\<close>

definition nano :: fl where "nano = fround binary64 (1 / 10 ^ 9)"

definition line_tick ::
    "(fl \<Rightarrow> 'w line_state \<Rightarrow> 'w line_state cresult option) \<Rightarrow> 'w line_state \<Rightarrow> 'w line_state cresult option" where
  "line_tick outlet_float l =
     (let x = fst l; S = snd l; timenow = clock_getlogicaltime S;
          msectogo = fneg (clock_gettimesince S (x_targettime x))
      in if flt msectogo nano then outlet_float (x_targetval x) (x, S)
         else rbind (outlet_float (line_value x timenow) (x, S)) (\<lambda>(x, S).
           let x' = (if fle (x_grain x) (Fin 0) then x\<lparr>x_grain := DEFAULTLINEGRAIN\<rparr> else x)
           in rbind (clock_delay (ln_clock x') (if flt msectogo (x_grain x') then msectogo else x_grain x') S)
                (\<lambda>S'. ret (x', S'))))"

definition line_float ::
    "(fl \<Rightarrow> 'w line_state \<Rightarrow> 'w line_state cresult option) \<Rightarrow> fl \<Rightarrow> 'w line_state \<Rightarrow> 'w line_state cresult option" where
  "line_float outlet_float f l =
     (let x = fst l; S = snd l; timenow = clock_getlogicaltime S in
      rbind
       (if x_gotinlet x \<noteq> 0 \<and> flt (Fin 0) (x_in1val x) then
          (let x1 = (if flt (x_targettime x) timenow then x\<lparr>x_setval := x_targetval x\<rparr>
                     else x\<lparr>x_setval := line_value x timenow\<rparr>);
               x2 = x1\<lparr>x_prevtime := timenow, x_targettime := clock_getsystimeafter S (x_in1val x1),
                       x_targetval := f\<rparr>
           in rbind (line_tick outlet_float (x2, S)) (\<lambda>(x3, S3).
                let x4 = x3\<lparr>x_gotinlet := 0, x_1overtimediff :=
                           fdiv binary64 (Fin 1) (fsub binary64 (x_targettime x3) timenow)\<rparr>;
                    x5 = (if fle (x_grain x4) (Fin 0) then x4\<lparr>x_grain := DEFAULTLINEGRAIN\<rparr> else x4)
                in rbind (clock_delay (ln_clock x5)
                       (if flt (x_in1val x5) (x_grain x5) then x_in1val x5 else x_grain x5) S3)
                     (\<lambda>S'. ret (x5, S'))))
        else
          rbind (clock_unset (ln_clock x) S) (\<lambda>S'.
            outlet_float f (x\<lparr>x_targetval := f, x_setval := f\<rparr>, S')))
       (\<lambda>(x, S). ret (x\<lparr>x_gotinlet := 0\<rparr>, S)))"

definition line_ft1 :: "fl \<Rightarrow> t_line \<Rightarrow> t_line" where
  "line_ft1 g x = x\<lparr>x_in1val := g, x_gotinlet := 1\<rparr>"

definition line_stop :: "'w line_state \<Rightarrow> 'w line_state cresult option" where
  "line_stop l = (let x = (fst l)\<lparr>x_targetval := x_setval (fst l)\<rparr>
     in rbind (clock_unset (ln_clock x) (snd l)) (\<lambda>S'. ret (x, S')))"

definition line_set :: "fl \<Rightarrow> 'w line_state \<Rightarrow> 'w line_state cresult option" where
  "line_set f l = rbind (clock_unset (ln_clock (fst l)) (snd l)) (\<lambda>S'.
     ret ((fst l)\<lparr>x_targetval := f, x_setval := f\<rparr>, S'))"

definition line_free :: "t_line \<Rightarrow> 'w sched \<Rightarrow> 'w sched cresult option" where
  "line_free x S = clock_free (ln_clock x) S"

definition line_new :: "addr \<Rightarrow> addr \<Rightarrow> nat \<Rightarrow> fl \<Rightarrow> fl \<Rightarrow> 'w sched \<Rightarrow> 'w line_state" where
  "line_new self clock tick f grain S =
     (\<lparr>ln_clock = clock, x_targettime = sys_time S, x_targetval = f, x_prevtime = sys_time S,
       x_setval = f, x_gotinlet = 0, x_grain = grain, x_1overtimediff = Fin 1, x_in1val = Fin 0\<rparr>,
      clock_new clock self tick S)"

subsection \<open>timer\<close>

record t_timer =
  tm_settime :: fl

definition timer_bang :: "'w sched \<Rightarrow> t_timer \<Rightarrow> t_timer" where
  "timer_bang S x = x\<lparr>tm_settime := clock_getlogicaltime S\<rparr>"

definition timer_bang2 :: "(fl \<Rightarrow> 'a) \<Rightarrow> 'w sched \<Rightarrow> t_timer \<Rightarrow> 'a" where
  "timer_bang2 outlet_float S x = outlet_float (fl_convert binary32 (clock_gettimesince S (tm_settime x)))"

definition timer_new :: "'w sched \<Rightarrow> t_timer" where
  "timer_new S = timer_bang S \<lparr>tm_settime = Fin 0\<rparr>"

subsection \<open>Times\<close>

lemma fle_zero [simp]: "fle (Fin 0) (Inf s) = (\<not> s)" "fle (Fin 0) NZero"
  by (simp_all add: fle_def)

lemma rhe_nonneg: "0 \<le> q \<Longrightarrow> 0 \<le> rhe q"
  by (simp add: rhe_def Let_def)

lemma fround_nonneg:
  assumes "0 \<le> q"
  shows "fround fm q \<noteq> NaN" "fle (Fin 0) (fround fm q)"
proof -
  have "0 \<le> (of_int (rhe (q / 2 powi u)) * 2 powi u :: rat)" for u :: int
    using assms by (simp add: rhe_nonneg)
  then show "fround fm q \<noteq> NaN" "fle (Fin 0) (fround fm q)"
    using assms by (simp_all add: fround_def Let_def)
qed

lemma sys_time_per_msec_val: "sys_time_per_msec = Fin 14112"
proof -
  have "fround binary64 (of_int 14112000) = Fin (of_int 14112000)" "fround binary64 (of_int 14112) = Fin (of_int 14112)"
    by (rule fround_of_int; simp add: binary64_def)+
  then show ?thesis
    by (simp add: sys_time_per_msec_def TIMEUNITPERSEC_def fmul_def fdiv_def fzero_def Let_def)
qed

lemma fadd_nonneg: "fle (Fin 0) a \<Longrightarrow> fle (Fin 0) b \<Longrightarrow> fadd fm a b \<noteq> NaN"
  by (cases a; cases b) (auto simp: fround_nonneg)

lemma fmul_nonneg: "0 < q \<Longrightarrow> fle (Fin 0) b \<Longrightarrow> fle (Fin 0) (fmul fm (Fin q) b)"
  by (cases b) (auto simp: fmul_def fzero_def Let_def signed_zero_def fround_nonneg)

lemma delay_time_ok:
  "fle (Fin 0) s \<Longrightarrow> fle (Fin 0) d \<Longrightarrow> fadd binary64 s (fmul binary64 sys_time_per_msec d) \<noteq> NaN"
  by (simp add: sys_time_per_msec_val fadd_nonneg fmul_nonneg)

text \<open>When a clock set by \<open>clock_delay\<close> expires.\<close>

definition expiry :: "'w sched \<Rightarrow> fl \<Rightarrow> fl" where
  "expiry S d = clamp_time S (clock_getsystimeafter S d)"

lemma clock_delay_agenda:
  assumes "agenda_of S ts" "heap S x = Some c" "fle (Fin 0) d"
  shows "\<exists>S'. clock_delay x d S = Some (Inr S') \<and> same_frame S S' \<and>
    agenda_of S' (agenda_insert x (expiry S d) (agenda_remove x ts))"
proof -
  have "fadd binary64 (sys_time S) (fmul binary64 sys_time_per_msec d) \<noteq> NaN"
    using assms by (intro delay_time_ok) (auto simp: agenda_of_def)
  from clock_set_agenda [OF assms(1,2) this] show ?thesis
    by (simp add: clock_delay_def expiry_def clock_getsystimeafter_def)
qed

text \<open>A number sent to a delay object becomes its delay time, negative numbers counting
  as zero, and (re)starts it: afterwards its clock is on the agenda once, at the time that lies
  this delay ahead, whether or not it was running; \<open>delay_stop\<close> then takes it off again, and
  the other clocks are as before.\<close>

theorem delay_float_then_stop:
  assumes "agenda_of S ts" "heap S (dl_clock x) = Some c" "f \<noteq> NaN"
  defines "d \<equiv> (if flt f (Fin 0) then Fin 0 else f)"
  shows "\<exists>S1 S2. delay_float f x S = Some (Inr (x\<lparr>dl_deltime := d\<rparr>, S1)) \<and>
    agenda_of S1 (agenda_insert (dl_clock x) (expiry S d) (agenda_remove (dl_clock x) ts)) \<and>
    delay_stop (x\<lparr>dl_deltime := d\<rparr>) S1 = Some (Inr S2) \<and> agenda_of S2 (agenda_remove (dl_clock x) ts)"
proof -
  have d: "fle (Fin 0) d" using assms(3) by (simp add: d_def not_flt)
  obtain S1 where S1: "clock_delay (dl_clock x) d S = Some (Inr S1)" "same_frame S S1"
    "agenda_of S1 (agenda_insert (dl_clock x) (expiry S d) (agenda_remove (dl_clock x) ts))"
    using clock_delay_agenda [OF assms(1,2) d] by blast
  obtain c1 where c1: "heap S1 (dl_clock x) = Some c1" using same_frame_heap [OF S1(2) assms(2)] by blast
  have "agenda_remove (dl_clock x) (agenda_insert (dl_clock x) (expiry S d) (agenda_remove (dl_clock x) ts)) =
      agenda_remove (dl_clock x) ts"
    by (rule agenda_remove_insert)
  then show ?thesis
    using S1 clock_unset_agenda [OF S1(3) c1]
    by (auto simp: delay_float_def delay_ft1_def delay_bang_def delay_stop_def ret_def d_def Let_def)
qed

text \<open>A metro whose outlet does not come back to it fires again after its period; one
  that is stopped by the very bang it sends stays stopped, since \<open>x_hit\<close> tells the tick that the
  object was told what to do in the meantime.\<close>

theorem metro_tick_reschedules:
  assumes "agenda_of S ts" "heap S (mt_clock x) = Some c" "fle (Fin 0) (mt_deltime x)"
  shows "(\<exists>S'. metro_tick ret (x, S) = Some (Inr (x\<lparr>mt_hit := 0\<rparr>, S')) \<and>
      agenda_of S' (agenda_insert (mt_clock x) (expiry S (mt_deltime x)) (agenda_remove (mt_clock x) ts))) \<and>
    (\<exists>S'. metro_tick (metro_stop out) (x, S) = Some (Inr (x\<lparr>mt_hit := 1\<rparr>, S')) \<and>
      agenda_of S' (agenda_remove (mt_clock x) ts))"
  using clock_delay_agenda [OF assms] clock_unset_agenda [OF assms(1,2)]
  by (auto simp: metro_tick_def metro_stop_def metro_float_def ret_def)

text \<open>Concrete objects on the clocks of the scheduler demo.\<close>

theorem delay_float_then_stop_witness:
  "\<exists>S1 S2. delay_float (Fin (-3)) \<lparr>dl_clock = 1, dl_deltime = Fin 9\<rparr> demo_sched =
      Some (Inr (\<lparr>dl_clock = 1, dl_deltime = Fin 0\<rparr>, S1)) \<and>
    agenda_of S1 [(1, expiry demo_sched (Fin 0))] \<and>
    delay_stop \<lparr>dl_clock = 1, dl_deltime = Fin 0\<rparr> S1 = Some (Inr S2) \<and> agenda_of S2 []"
  using delay_float_then_stop [OF demo_sched_agenda, of "\<lparr>dl_clock = 1, dl_deltime = Fin 9\<rparr>" _ "Fin (-3)"]
  by (simp add: agenda_insert_def agenda_remove_def demo_sched_heap)

theorem metro_tick_reschedules_witness:
  "(\<exists>S'. metro_tick ret (\<lparr>mt_clock = 2, mt_deltime = Fin 10, mt_hit = 0\<rparr>, demo_sched) =
      Some (Inr (\<lparr>mt_clock = 2, mt_deltime = Fin 10, mt_hit = 0\<rparr>, S')) \<and>
      agenda_of S' [(2, expiry demo_sched (Fin 10))]) \<and>
   (\<exists>S'. metro_tick (metro_stop ret) (\<lparr>mt_clock = 2, mt_deltime = Fin 10, mt_hit = 0\<rparr>, demo_sched) =
      Some (Inr (\<lparr>mt_clock = 2, mt_deltime = Fin 10, mt_hit = 1\<rparr>, S')) \<and> agenda_of S' [])"
  using metro_tick_reschedules [OF demo_sched_agenda,
      of "\<lparr>mt_clock = 2, mt_deltime = Fin 10, mt_hit = 0\<rparr>" _ ret]
  by (simp add: agenda_insert_def agenda_remove_def demo_sched_heap)

subsection \<open>A patch of delays\<close>

text \<open>
  Where all clocks belong to delay objects and what their outlets do sets and unsets no clock that is due, the scheduler's loop lets exactly the
  delays bang that expire before the end of the tick.
\<close>

locale delay_outlets =
  fixes outlet :: "addr \<Rightarrow> nat \<Rightarrow> 'w sched \<Rightarrow> 'w sched"
    and trace :: "'w sched \<Rightarrow> (fl \<times> addr \<times> nat) list"
    and until :: fl
  assumes outlet_quiet: "agenda_of S ts \<Longrightarrow> quiet trace until S ts (outlet a m S) [(sys_time S, a, m)]"
    and trace_world: "world S = world S' \<Longrightarrow> trace S = trace S'"

sublocale delay_outlets \<subseteq> delays: quiet_clients "\<lambda>a m. delay_tick (outlet a m)" "\<lambda>S. S" trace until
  by unfold_locales (auto simp: delay_tick_def outlet_quiet quiet_refl intro: trace_world)

interpretation traced: delay_outlets trace_fn world until for until
  by unfold_locales (simp_all add: trace_fn_quiet)

lemma delays_bang:
  assumes "agenda_of S ts" "sys_quit S = 0"
  shows "\<exists>S' ts'. tick_loop (\<lambda>a m. delay_tick (trace_fn a m)) (\<lambda>S. S) until k S = Some (Inr (False, S')) \<and> agenda_of S' ts' \<and>
    due until ts' = [] \<and> sys_quit S' = 0 \<and> world S' = world S @ calls S (due until ts)"
  using assms by (rule traced.delays.tick_loop_fires)

subsection \<open>NaN\<close>











end
