(* ===== verification/Arith.thy ===== *)
theory Arith
  imports PdFloat
begin

unbundle bit_operations_syntax

text \<open>
  The arithmetic objects (\<open>x_arithmetic.c\<close>), the acoustic conversions (\<open>x_acoustics.c\<close>) and
  the random object (\<open>x_misc.c\<close>). All two-inlet operators share one object type; an operator
  is its value function. The functions of the mathematical library are arguments.
\<close>

subsection \<open>Operators\<close>

record t_binop =
  x_f1 :: fl
  x_f2 :: fl

datatype binop1 = Plus | Minus | Times | Divide | Pow | Max | Min
datatype binop2 = EE | NE | GT | LT | GE | LE
datatype binop3 = BA | LA | BO | LO | LS | RS
datatype binop3i = PC | Mod | Div

fun binop1_val :: "(fl \<Rightarrow> fl \<Rightarrow> fl) \<Rightarrow> binop1 \<Rightarrow> fl \<Rightarrow> fl \<Rightarrow> fl" where
  "binop1_val powf Plus a b = fadd binary32 a b"
| "binop1_val powf Minus a b = fsub binary32 a b"
| "binop1_val powf Times a b = fmul binary32 a b"
| "binop1_val powf Divide a b = (if \<not> fzero b then fdiv binary32 a b else Fin 0)"
| "binop1_val powf Pow a b = (if flt (Fin 0) a then powf a b else Fin 0)"
| "binop1_val powf Max a b = (if flt b a then a else b)"
| "binop1_val powf Min a b = (if flt a b then a else b)"

fun binop2_val :: "binop2 \<Rightarrow> fl \<Rightarrow> fl \<Rightarrow> fl" where
  "binop2_val EE a b = fl_bool (feq a b)"
| "binop2_val NE a b = fl_bool (\<not> feq a b)"
| "binop2_val GT a b = fl_bool (flt b a)"
| "binop2_val LT a b = fl_bool (flt a b)"
| "binop2_val GE a b = fl_bool (fle b a)"
| "binop2_val LE a b = fl_bool (fle a b)"

text \<open>The shift count is taken modulo 32, as the shift instructions of x86 do.\<close>

fun binop3_val :: "binop3 \<Rightarrow> fl \<Rightarrow> fl \<Rightarrow> fl" where
  "binop3_val BA a b = fl_of_int binary32 (int_of_fl a AND int_of_fl b)"
| "binop3_val LA a b = fl_bool (int_of_fl a \<noteq> 0 \<and> int_of_fl b \<noteq> 0)"
| "binop3_val BO a b = fl_of_int binary32 (int_of_fl a OR int_of_fl b)"
| "binop3_val LO a b = fl_bool (int_of_fl a \<noteq> 0 \<or> int_of_fl b \<noteq> 0)"
| "binop3_val LS a b = fl_of_int binary32 (wrap32 (int_of_fl a * 2 ^ nat (int_of_fl b mod 32)))"
| "binop3_val RS a b = fl_of_int binary32 (int_of_fl a div 2 ^ nat (int_of_fl b mod 32))"

text \<open>Integer remainder and quotient; the instruction traps when the quotient does not fit.\<close>

definition idiv :: "int \<Rightarrow> int \<Rightarrow> (int \<times> int) cresult" where
  "idiv a b = (if b = 0 \<or> (a = - (2 ^ 31) \<and> b = -1) then Inl DivideTrap else Inr (cdiv a b, cmod a b))"

fun binop3i_val :: "binop3i \<Rightarrow> fl \<Rightarrow> fl \<Rightarrow> fl cresult" where
  "binop3i_val PC a b =
     (let n2 = int_of_fl b in
      cbind (idiv (int_of_fl a) (if n2 \<noteq> 0 then n2 else 1)) (\<lambda>(q, r). Inr (fl_of_int binary32 r)))"
| "binop3i_val Mod a b =
     (let n = int_of_fl b; n2 = (if n < 0 then wrap32 (- n) else if n = 0 then 1 else n)
      in cbind (idiv (int_of_fl a) n2) (\<lambda>(q, r).
           Inr (fl_of_int binary32 (if r < 0 then wrap32 (r + n2) else r))))"
| "binop3i_val Div a b =
     (let n = int_of_fl b; n2 = (if n < 0 then wrap32 (- n) else if n = 0 then 1 else n);
          n1 = (if int_of_fl a < 0 then wrap32 (int_of_fl a - wrap32 (n2 - 1)) else int_of_fl a)
      in cbind (idiv n1 n2) (\<lambda>(q, r). Inr (fl_of_int binary32 q)))"

definition binop_new :: "fl \<Rightarrow> t_binop" where
  "binop_new f = \<lparr>x_f1 = Fin 0, x_f2 = f\<rparr>"

definition binop_bang :: "(fl \<Rightarrow> fl \<Rightarrow> 'a) \<Rightarrow> t_binop \<Rightarrow> 'a" where
  "binop_bang val x = val (x_f1 x) (x_f2 x)"

definition binop_float :: "(fl \<Rightarrow> fl \<Rightarrow> 'a) \<Rightarrow> fl \<Rightarrow> t_binop \<Rightarrow> t_binop \<times> 'a" where
  "binop_float val f x = (let x' = x\<lparr>x_f1 := f\<rparr> in (x', val (x_f1 x') (x_f2 x')))"

subsection \<open>Mathematical functions and clip\<close>

definition tan_float :: "(fl \<Rightarrow> fl) \<Rightarrow> (fl \<Rightarrow> fl) \<Rightarrow> fl \<Rightarrow> fl" where
  "tan_float sinf cosf f = (let c = cosf f in if fzero c then Fin 0 else fdiv binary32 (sinf f) c)"

definition atan2_float :: "(fl \<Rightarrow> fl \<Rightarrow> fl) \<Rightarrow> fl \<Rightarrow> fl \<Rightarrow> fl" where
  "atan2_float atan2f x_f f = (if fzero f \<and> fzero x_f then Fin 0 else atan2f f x_f)"

definition sqrt_float :: "(fl \<Rightarrow> fl) \<Rightarrow> fl \<Rightarrow> fl" where
  "sqrt_float sqrtf f = (if flt (Fin 0) f then sqrtf f else Fin 0)"

definition log_float :: "(fl \<Rightarrow> fl) \<Rightarrow> fl \<Rightarrow> fl" where
  "log_float logf f = (if flt (Fin 0) f then logf f else Fin (-1000))"

definition MAXLOG :: fl where "MAXLOG = fround binary64 (873365 / 10000)"

definition exp_float :: "(fl \<Rightarrow> fl) \<Rightarrow> fl \<Rightarrow> fl" where
  "exp_float expf f = expf (if flt MAXLOG f then fl_convert binary32 MAXLOG else f)"

definition abs_float :: "fl \<Rightarrow> fl" where
  "abs_float f = fabs f"

text \<open>The library function \<open>floor\<close>, on doubles.\<close>

fun floor_fl :: "fl \<Rightarrow> fl" where
  "floor_fl (Fin q) = Fin (of_int \<lfloor>q\<rfloor>)"
| "floor_fl x = x"

definition wrap_float :: "fl \<Rightarrow> fl" where
  "wrap_float f = fl_convert binary32 (fsub binary64 f (floor_fl f))"

record t_clip =
  cl_f1 :: fl
  cl_f2 :: fl
  cl_f3 :: fl

definition clip_new :: "fl \<Rightarrow> fl \<Rightarrow> t_clip" where
  "clip_new f1 f2 = \<lparr>cl_f1 = Fin 0, cl_f2 = f1, cl_f3 = f2\<rparr>"

definition clip_bang :: "t_clip \<Rightarrow> fl" where
  "clip_bang x = (if flt (cl_f1 x) (cl_f2 x) then cl_f2 x
     else if flt (cl_f3 x) (cl_f1 x) then cl_f3 x else cl_f1 x)"

definition clip_float :: "fl \<Rightarrow> t_clip \<Rightarrow> t_clip \<times> fl" where
  "clip_float f x = (let x' = x\<lparr>cl_f1 := f\<rparr> in (x', clip_bang x'))"

subsection \<open>Acoustic conversions\<close>

definition dbl :: "rat \<Rightarrow> fl" where "dbl q = fround binary64 q"

definition LOGTEN :: fl where "LOGTEN = dbl (2302585092994 / 10 ^ 12)"

definition mtof_exp :: "(fl \<Rightarrow> fl) \<Rightarrow> fl \<Rightarrow> fl" where
  "mtof_exp expd f = fl_convert binary32
     (fmul binary64 (dbl (817579891564 / 10 ^ 11)) (expd (fmul binary64 (dbl (577622650 / 10 ^ 10)) f)))"

definition mtof :: "(fl \<Rightarrow> fl) \<Rightarrow> fl \<Rightarrow> fl" where
  "mtof expd f = (if fle f (Fin (-1500)) then Fin 0
     else if flt (Fin 1499) f then mtof_exp expd (Fin 1499) else mtof_exp expd f)"

definition ftom :: "(fl \<Rightarrow> fl) \<Rightarrow> fl \<Rightarrow> fl" where
  "ftom logd f = (if flt (Fin 0) f then fl_convert binary32
     (fmul binary64 (dbl (173123405046 / 10 ^ 10)) (logd (fmul binary64 (dbl (12231220585 / 10 ^ 11)) f)))
     else Fin (-1500))"

definition db_of :: "fl \<Rightarrow> (fl \<Rightarrow> fl) \<Rightarrow> fl \<Rightarrow> fl" where
  "db_of k logd f = (if fle f (Fin 0) then Fin 0
     else (let val = fl_convert binary32
             (fadd binary64 (Fin 100) (fmul binary64 (fdiv binary64 k LOGTEN) (logd f)))
           in if flt val (Fin 0) then Fin 0 else val))"

definition powtodb :: "(fl \<Rightarrow> fl) \<Rightarrow> fl \<Rightarrow> fl" where
  "powtodb logd f = db_of (Fin 10) logd f"

definition rmstodb :: "(fl \<Rightarrow> fl) \<Rightarrow> fl \<Rightarrow> fl" where
  "rmstodb logd f = db_of (Fin 20) logd f"

definition of_db :: "fl \<Rightarrow> fl \<Rightarrow> (fl \<Rightarrow> fl) \<Rightarrow> fl \<Rightarrow> fl" where
  "of_db k most expd f = (if fle f (Fin 0) then Fin 0
     else (let g = (if flt most f then most else f)
           in fl_convert binary32 (expd (fmul binary64 (fmul binary64 LOGTEN k) (fsub binary64 g (Fin 100))))))"

definition dbtopow :: "(fl \<Rightarrow> fl) \<Rightarrow> fl \<Rightarrow> fl" where
  "dbtopow expd f = of_db (dbl (1 / 10)) (Fin 870) expd f"

definition dbtorms :: "(fl \<Rightarrow> fl) \<Rightarrow> fl \<Rightarrow> fl" where
  "dbtorms expd f = of_db (dbl (5 / 100)) (Fin 485) expd f"

subsection \<open>random\<close>

record t_random =
  rd_f :: fl
  rd_state :: "32 word"

definition makeseed :: "32 word \<Rightarrow> 32 word \<times> 32 word" where
  "makeseed random_nextseed = (let s = random_nextseed * 435898247 + 938284287 in (s, s AND 0x7fffffff))"

definition random_new :: "fl \<Rightarrow> 32 word \<Rightarrow> 32 word \<times> t_random" where
  "random_new f random_nextseed =
     (let (s, seed) = makeseed random_nextseed in (s, \<lparr>rd_f = f, rd_state = seed\<rparr>))"

definition random_bang :: "t_random \<Rightarrow> t_random \<times> fl" where
  "random_bang x =
     (let n = int_of_fl (rd_f x); range = (if n < 1 then 1 else n);
          randval = rd_state x * 472940017 + 832416023;
          nval = int_of_fl (fmul binary64
            (fmul binary64 (fl_of_int binary64 range) (fl_of_int binary64 (uint randval)))
            (fdiv binary64 (Fin 1) (Fin 4294967296)))
      in (x\<lparr>rd_state := randval\<rparr>, fl_of_int binary32 (if range \<le> nval then range - 1 else nval)))"

text \<open>\<open>x->x_state = f\<close> converts a float to \<open>unsigned int\<close>; x86-64 compilers convert to a 64-bit
  integer and keep the lower half.\<close>

definition random_seed :: "fl \<Rightarrow> t_random \<Rightarrow> t_random" where
  "random_seed f x = x\<lparr>rd_state := word_of_int (long_of_fl f)\<rparr>"

subsection \<open>Remainder and quotient\<close>

lemma wrap32_neg: "- (2 ^ 31) < n \<Longrightarrow> n < 0 \<Longrightarrow> wrap32 (- n) = \<bar>n\<bar>"
  by simp

lemma euclid_cmod:
  assumes "0 < m"
  shows "(if cmod a m < 0 then cmod a m + m else cmod a m) = a mod m"
proof (cases "0 \<le> a")
  case True
  then show ?thesis using assms pos_mod_sign [of m a] by (simp add: cmod_nonneg not_less [symmetric])
next
  case False
  then show ?thesis using assms by (auto simp: cmod_neg zmod_zminus1_eq_if)
qed

lemma floor_cdiv:
  assumes "0 < m"
  shows "cdiv (if a < 0 then a - (m - 1) else a) m = a div m"
proof (cases "0 \<le> a")
  case True
  then show ?thesis using assms by (cases "a = 0") (auto simp: cdiv_def sgn_if)
next
  case False
  have "- ((m - 1 - a) div m) = a div m"
  proof -
    have "(m - 1 - a) div m = (- a - 1 + 1 * m) div m" by (simp add: algebra_simps)
    also have "\<dots> = (- a - 1) div m + 1" using assms by (simp only: div_mult_self1)
    also have "(- a - 1) div m = - (a div m) - 1"
    proof -
      have "- a - 1 = (- (a div m) - 1) * m + (m - 1 - a mod m)"
        by (simp add: algebra_simps minus_mult_div_eq_mod [symmetric])
      moreover have "0 \<le> m - 1 - a mod m" "m - 1 - a mod m < m" using assms pos_mod_bound [of m a] pos_mod_sign [of m a] by linarith+
      ultimately show ?thesis by (metis div_mult_self3 div_pos_pos_trivial add.right_neutral less_le_not_le assms)
    qed
    finally show ?thesis by simp
  qed
  then show ?thesis using False assms by (auto simp: cdiv_def sgn_if algebra_simps)
qed

text \<open>The object \<open>mod\<close> never traps and computes the Euclidean remainder of its integer
  parts by the absolute value of the divisor (which counts as 1 when it is 0): the result is
  never negative and less than the divisor, unlike the remainder of C.\<close>

theorem mod_is_euclidean:
  assumes "int_of_fl b \<noteq> - (2 ^ 31)"
  defines "m \<equiv> (if int_of_fl b = 0 then 1 else \<bar>int_of_fl b\<bar>)"
  shows "binop3i_val Mod a b = Inr (fl_of_int binary32 (int_of_fl a mod m))"
proof -
  have range: "- (2 ^ 31) \<le> int_of_fl b" "int_of_fl b < 2 ^ 31" using int_of_fl_range by auto
  then have n2: "(if int_of_fl b < 0 then wrap32 (- int_of_fl b) else if int_of_fl b = 0 then 1 else int_of_fl b) = m"
    using assms(1) by (simp add: m_def wrap32_neg)
  have m: "0 < m" "m < 2 ^ 31" using range assms(1) by (auto simp: m_def)
  have "(if cmod (int_of_fl a) m < 0 then wrap32 (cmod (int_of_fl a) m + m) else cmod (int_of_fl a) m) =
      int_of_fl a mod m"
    using euclid_cmod [OF m(1), of "int_of_fl a"] m cmod_abs_less [of m "int_of_fl a"] by (auto split: if_splits)
  then show ?thesis using m by (simp only: binop3i_val.simps Let_def n2) (simp add: idiv_def)
qed

theorem mod_is_euclidean_witness:
  "binop3i_val Mod (Fin (-7)) (Fin (-3)) = Inr (fl_of_int binary32 2)"
  using mod_is_euclidean [of "Fin (-3)" "Fin (-7)"] by (simp add: rat_trunc_def Let_def)

text \<open>As long as lowering a negative dividend does not leave the range of \<open>int\<close>, the object
  \<open>div\<close> rounds the quotient by the absolute value of the divisor towards minus infinity, so that
  \<open>div\<close> and \<open>mod\<close> belong together.\<close>

theorem div_is_floor:
  assumes "int_of_fl b \<noteq> - (2 ^ 31)"
  defines "m \<equiv> (if int_of_fl b = 0 then 1 else \<bar>int_of_fl b\<bar>)"
  assumes "- (2 ^ 31) \<le> int_of_fl a - (m - 1)"
  shows "binop3i_val Div a b = Inr (fl_of_int binary32 (int_of_fl a div m))"
proof -
  have range: "- (2 ^ 31) \<le> int_of_fl b" "int_of_fl b < 2 ^ 31" using int_of_fl_range by auto
  then have n2: "(if int_of_fl b < 0 then wrap32 (- int_of_fl b) else if int_of_fl b = 0 then 1 else int_of_fl b) = m"
    using assms(1) by (simp add: m_def wrap32_neg)
  have m: "0 < m" "m < 2 ^ 31" using range assms(1) by (auto simp: m_def)
  have "(if int_of_fl a < 0 then wrap32 (int_of_fl a - wrap32 (m - 1)) else int_of_fl a) =
      (if int_of_fl a < 0 then int_of_fl a - (m - 1) else int_of_fl a)"
    using m assms(3) by simp
  then show ?thesis
    using m floor_cdiv [OF m(1), of "int_of_fl a"]
    by (simp only: binop3i_val.simps Let_def n2) (simp add: idiv_def)
qed

theorem div_is_floor_witness: "binop3i_val Div (Fin (-7)) (Fin 3) = Inr (fl_of_int binary32 (-3))"
  using div_is_floor [of "Fin 3" "Fin (-7)"] by (simp add: rat_trunc_def Let_def)

text \<open>The object \<open>%\<close> has the remainder of C, with the sign of the dividend, but it
  traps, which ends the program, exactly if the divisor is \<open>-1\<close> and the dividend converts to the
  least integer, as it does for \<open>-2147483648\<close>, for NaN and for every number outside the range
  of \<open>int\<close>.\<close>

theorem percent_trap_iff:
  "binop3i_val PC a b = (if int_of_fl a = - (2 ^ 31) \<and> int_of_fl b = -1 then Inl DivideTrap
     else Inr (fl_of_int binary32 (cmod (int_of_fl a) (if int_of_fl b = 0 then 1 else int_of_fl b))))"
  by (simp add: idiv_def Let_def)

subsection \<open>Clipping\<close>

text \<open>With ordered bounds, clip returns the number it got if it lies between them, the
  nearer bound if it does not, and its result always lies between the bounds.\<close>

theorem clip_within:
  assumes "fle (cl_f2 x) (cl_f3 x)" "f \<noteq> NaN"
  shows "fle (cl_f2 x) (snd (clip_float f x)) \<and> fle (snd (clip_float f x)) (cl_f3 x) \<and>
    (fle (cl_f2 x) f \<and> fle f (cl_f3 x) \<longrightarrow> snd (clip_float f x) = f) \<and>
    snd (clip_float (snd (clip_float f x)) x) = snd (clip_float f x)"
proof -
  have nan: "cl_f2 x \<noteq> NaN" "cl_f3 x \<noteq> NaN" using assms(1) by auto
  show ?thesis
    using assms nan not_flt [of f "cl_f2 x"] not_flt [of "cl_f3 x" f]
      fle_refl [of "cl_f2 x"] fle_refl [of "cl_f3 x"] not_flt [of "cl_f3 x" "cl_f2 x"]
    by (auto simp: clip_float_def clip_bang_def Let_def)
qed

theorem clip_within_witness:
  "fle (Fin 0) (snd (clip_float (Fin 5) (clip_new (Fin 0) (Fin 1)))) \<and>
   fle (snd (clip_float (Fin 5) (clip_new (Fin 0) (Fin 1)))) (Fin 1)"
  using clip_within [of "clip_new (Fin 0) (Fin 1)" "Fin 5"] by (simp add: clip_new_def)

subsection \<open>The range of random numbers\<close>

lemma rhe_le: "of_int (rhe q) \<le> q + 1 / 2" and rhe_ge: "q - 1 / 2 \<le> of_int (rhe q)"
  by (simp_all add: rhe_def Let_def) linarith+

text \<open>Rounding to double makes a number of ordinary size larger by at most a factor.\<close>

lemma fround_le:
  assumes q: "2 powi (-1000) \<le> q" "q < 2 ^ 100"
  shows "\<exists>v. fround binary64 q = Fin v \<and> q / 2 \<le> v \<and> v \<le> q * (1 + 1 / 2 ^ 53)"
proof -
  have pos: "0 < q" using q(1) by (rule less_le_trans [rotated]) simp
  let ?k = "rlog 2 q" and ?u = "ulp_exp binary64 q"
  have emax: "f_emax binary64 = 1024" by (simp add: binary64_def)
  have k: "2 powi ?k \<le> q" "q < 2 powi (?k + 1)" using rlog_bounds [OF pos, of 2] by auto
  have "(2::rat) powi (-1000) < 2 powi (?k + 1)" using q(1) k(2) by (rule le_less_trans)
  then have "-1000 < ?k + 1" using power_int_increasing [of "?k + 1" "-1000" "2::rat"] by linarith
  then have u: "?u = ?k - 52" by (simp add: ulp_exp_def binary64_def)
  have ulp: "2 powi ?u \<le> q / 2 ^ 52"
    using k(1) by (simp add: u power_int_diff divide_right_mono)
  define v :: rat where "v = of_int (rhe (q / 2 powi ?u)) * 2 powi ?u"
  have "v \<le> (q / 2 powi ?u + 1 / 2) * 2 powi ?u"
    unfolding v_def by (intro mult_right_mono rhe_le) simp
  also have "\<dots> = q + 2 powi ?u / 2" by (simp add: distrib_right)
  also have "\<dots> \<le> q + q / 2 ^ 52 / 2" using ulp by simp
  also have "\<dots> = q * (1 + 1 / 2 ^ 53)" by (simp add: distrib_left)
  finally have v: "v \<le> q * (1 + 1 / 2 ^ 53)" .
  moreover have "q / 2 \<le> v"
  proof -
    have "q - q / 2 ^ 53 \<le> q - 2 powi ?u / 2" using ulp by simp
    also have "\<dots> = (q / 2 powi ?u - 1 / 2) * 2 powi ?u" by (simp add: left_diff_distrib)
    also have "\<dots> \<le> v" unfolding v_def by (intro mult_right_mono rhe_ge) simp
    finally show ?thesis using pos by simp
  qed
  moreover have "v < 2 powi 1024"
  proof -
    have "q * (1 + 1 / 2 ^ 53) < 2 ^ 100 * 2" using q(2) pos by (intro mult_strict_mono) auto
    also have "(2 ^ 100 * 2 :: rat) \<le> 2 powi 1024" by simp
    finally show ?thesis using v by simp
  qed
  ultimately have "fround binary64 q = Fin v"
    using pos emax unfolding fround_def Let_def by (simp add: v_def [symmetric])
  then show ?thesis using v \<open>q / 2 \<le> v\<close> by blast
qed

lemma two_powi_neg: "(2::rat) powi (- int k) = 1 / 2 ^ k"
  by (simp add: power_int_minus inverse_eq_divide)

lemma random_product:
  assumes "1 \<le> q" "q \<le> (2 ^ 31 - 1) * (2 ^ 32 - 1)"
  shows "\<exists>v w. fround binary64 q = Fin v \<and> 0 < v \<and> fround binary64 (v / 2 ^ 32) = Fin w \<and> 0 \<le> w \<and> w < 2 ^ 31"
proof -
  have tiny: "(2::rat) powi (-1000) \<le> 1 / 2 ^ 33" using power_int_increasing [of "-1000" "-33" "2::rat"] two_powi_neg [of 33] by simp
  obtain v where v: "fround binary64 q = Fin v" "q / 2 \<le> v" "v \<le> q * (1 + 1 / 2 ^ 53)"
    using fround_le [of q] assms order_trans [OF tiny, of q] by auto
  have "v \<le> (2 ^ 31 - 1) * (2 ^ 32 - 1) * (1 + 1 / 2 ^ 53)"
    using v(3) mult_right_mono [OF assms(2), of "1 + 1 / 2 ^ 53"] by simp
  then have hi: "v / 2 ^ 32 \<le> (2 ^ 31 - 1) * (2 ^ 32 - 1) * (1 + 1 / 2 ^ 53) / 2 ^ 32" by (rule divide_right_mono) simp
  have lo: "2 powi (-1000) \<le> v / 2 ^ 32"
    using tiny v(2) assms(1) by simp
  obtain w where w: "fround binary64 (v / 2 ^ 32) = Fin w" "v / 2 ^ 32 / 2 \<le> w" "w \<le> v / 2 ^ 32 * (1 + 1 / 2 ^ 53)"
    using fround_le [OF lo] le_less_trans [OF hi, of "2 ^ 100"] by auto
  have "w \<le> (2 ^ 31 - 1) * (2 ^ 32 - 1) * (1 + 1 / 2 ^ 53) / 2 ^ 32 * (1 + 1 / 2 ^ 53)"
    using w(3) mult_right_mono [OF hi, of "1 + 1 / 2 ^ 53"] by simp
  also have "\<dots> < 2 ^ 31" by simp
  finally have "w < 2 ^ 31" .
  moreover have "0 < v" using v(2) assms(1) by linarith
  moreover from this have "0 \<le> v / 2 ^ 32 / 2" by simp
  then have "0 \<le> w" using w(2) by (rule order_trans)
  ultimately show ?thesis using v(1) w(1) by blast
qed

text \<open>Whatever its state, random delivers one of the whole numbers from 0 to its range
  minus 1 (a range below 1 counts as 1): neither the conversions to double nor the final
  conversion to \<open>int\<close> lead out of the range.\<close>

theorem random_in_range:
  "\<exists>n. snd (random_bang x) = fl_of_int binary32 n \<and> 0 \<le> n \<and> n < max 1 (int_of_fl (rd_f x))"
proof -
  define range where "range = (if int_of_fl (rd_f x) < 1 then 1 else int_of_fl (rd_f x))"
  define r where "r = uint (rd_state x * 472940017 + 832416023)"
  have range: "1 \<le> range" "range < 2 ^ 31" using int_of_fl_range [of "rd_f x"] by (auto simp: range_def)
  have r: "0 \<le> r" "r < 2 ^ 32" using uint_bounded [of "rd_state x * 472940017 + 832416023"]
    by (auto simp: r_def)
  let ?p = "fmul binary64 (fl_of_int binary64 range) (fl_of_int binary64 r)"
  let ?c = "fdiv binary64 (Fin 1) (Fin 4294967296)"
  define nval where "nval = int_of_fl (fmul binary64 ?p ?c)"
  have c: "?c = Fin (1 / 2 ^ 32)"
  proof -
    have "fround binary64 (1 / 2 ^ 32) = Fin (1 / 2 ^ 32)"
      using two_powi_neg [of 32] by (intro fround_exact [where m = 1 and e = "-32"]) (simp_all add: binary64_def)
    then show ?thesis by (simp add: fdiv_def fzero_def Let_def)
  qed
  have conv: "fl_of_int binary64 range = Fin (of_int range)" "fl_of_int binary64 r = Fin (of_int r)"
    using range r by (simp_all add: fl_of_int_binary64)
  have "0 \<le> nval"
  proof (cases "r = 0")
    case True
    then have "?p = Fin 0" using range conv by (simp add: fmul_def fzero_def signed_zero_def)
    then show ?thesis by (simp add: nval_def c fmul_def fzero_def signed_zero_def rat_trunc_def)
  next
    case False
    have "1 * 1 \<le> range * r" using range r False by (intro mult_mono) auto
    moreover have "range * r \<le> (2 ^ 31 - 1) * (2 ^ 32 - 1)" using range r by (intro mult_mono) auto
    ultimately have "(1::rat) \<le> of_int (range * r)" "(of_int (range * r) :: rat) \<le> of_int ((2 ^ 31 - 1) * (2 ^ 32 - 1))"
      by (simp_all only: of_int_le_iff of_int_1_le_iff)
    then obtain v w where "fround binary64 (of_int range * of_int r) = Fin v" "0 < v"
      "fround binary64 (v / 2 ^ 32) = Fin w" "0 \<le> w" "w < 2 ^ 31"
      using random_product [of "of_int (range * r)"] by auto
    then show ?thesis
      using range r False by (simp add: nval_def conv c fmul_def fzero_def Let_def rat_trunc_def)
  qed
  then show ?thesis
    using range by (intro exI [of _ "if range \<le> nval then range - 1 else nval"])
      (auto simp: random_bang_def Let_def nval_def range_def r_def)
qed

end
