(* ===== verification/Symtab.thy ===== *)
theory Symtab
  imports Prelude
begin

text \<open>
  The symbol table (\<open>m_class.c\<close>): a hash table of chains of symbols. A symbol is an address
  with a name; \<open>gensym\<close> returns the address. The interface the rest of the program relies on,
  that symbols may be compared by address, is the locale \<open>interning\<close>.
\<close>

type_synonym symaddr = nat

record symtab =
  symhash :: "nat \<Rightarrow> (symaddr \<times> string) list"
  fresh :: symaddr

definition HASHSIZE :: nat where "HASHSIZE = 1024"

text \<open>Plain \<open>char\<close> is signed on x86: its value is extended to \<open>unsigned int\<close> with its sign.\<close>

definition char_word :: "char \<Rightarrow> 32 word" where
  "char_word c = (let n = of_char c :: int in word_of_int (if n < 128 then n else n - 256))"

fun hash_loop :: "string \<Rightarrow> 32 word \<Rightarrow> 32 word \<Rightarrow> 32 word" where
  "hash_loop [] hash1 hash2 = hash2"
| "hash_loop (c # s) hash1 hash2 = hash_loop s (hash1 + char_word c) (hash2 + (hash1 + char_word c))"

definition bucket :: "string \<Rightarrow> nat" where
  "bucket s = unat (and (hash_loop s 0 0) (of_nat (HASHSIZE - 1)))"

text \<open>The chain is searched for the name; a new symbol goes to its end.\<close>

fun chain_loop :: "(symaddr \<times> string) list \<Rightarrow> string \<Rightarrow> symaddr option" where
  "chain_loop [] s = None"
| "chain_loop ((p, n) # ch) s = (if n = s then Some p else chain_loop ch s)"

definition dogensym :: "string \<Rightarrow> symaddr option \<Rightarrow> symtab \<Rightarrow> symtab \<times> symaddr" where
  "dogensym s oldsym T =
     (let b = bucket s in
      case chain_loop (symhash T b) s of
        Some p \<Rightarrow> (T, p)
      | None \<Rightarrow>
          (case oldsym of
             Some p \<Rightarrow> (T\<lparr>symhash := (symhash T)(b := symhash T b @ [(p, s)])\<rparr>, p)
           | None \<Rightarrow> (T\<lparr>symhash := (symhash T)(b := symhash T b @ [(fresh T, s)]), fresh := fresh T + 1\<rparr>, fresh T)))"

definition gensym :: "string \<Rightarrow> symtab \<Rightarrow> symtab \<times> symaddr" where
  "gensym s T = dogensym s None T"

text \<open>The symbols that exist from the start, at addresses of their own (\<open>mess_init\<close>).\<close>

definition symlist :: "string list" where
  "symlist = [''pointer'', ''float'', ''symbol'', ''bang'', ''list'', ''anything'', ''signal'', ''#N'', ''#X'', ''x'', ''y'', '''']"

definition mess_init_syms :: symtab where
  "mess_init_syms = fold (\<lambda>(i, s) T. fst (dogensym s (Some i) T)) (enumerate 0 symlist)
     \<lparr>symhash = (\<lambda>_. []), fresh = length symlist\<rparr>"

subsection \<open>The table as a set of symbols\<close>

definition symbols :: "symtab \<Rightarrow> (symaddr \<times> string) set" where
  "symbols T = (\<Union>b. set (symhash T b))"

definition symtab_ok :: "symtab \<Rightarrow> bool" where
  "symtab_ok T \<longleftrightarrow> (\<forall>b. \<forall>(p, n) \<in> set (symhash T b). b = bucket n \<and> p < fresh T) \<and>
     (\<forall>p n q m. (p, n) \<in> symbols T \<longrightarrow> (q, m) \<in> symbols T \<longrightarrow> (p = q \<longleftrightarrow> n = m))"

lemma chain_loop_Some: "chain_loop ch s = Some p \<Longrightarrow> (p, s) \<in> set ch"
  by (induction ch s rule: chain_loop.induct) (auto split: if_splits)

lemma chain_loop_None: "chain_loop ch s = None \<longleftrightarrow> (\<forall>p. (p, s) \<notin> set ch)"
  by (induction ch s rule: chain_loop.induct) auto

lemma symbols_bucket: "symtab_ok T \<Longrightarrow> (p, s) \<in> symbols T \<longleftrightarrow> (p, s) \<in> set (symhash T (bucket s))"
  by (fastforce simp: symtab_ok_def symbols_def)

lemma symbols_append:
  "symbols (T\<lparr>symhash := (symhash T)(b := symhash T b @ [e])\<rparr>) = insert e (symbols T)"
  "symbols (T\<lparr>symhash := (symhash T)(b := symhash T b @ [e]), fresh := k\<rparr>) = insert e (symbols T)"
  by (auto simp: symbols_def split: if_splits)

lemma dogensym_symbols:
  assumes "symtab_ok T" "dogensym s old T = (T', p)"
  shows "symbols T' = insert (p, s) (symbols T)"
proof (cases "chain_loop (symhash T (bucket s)) s")
  case None
  then show ?thesis using assms(2)
    by (auto simp: dogensym_def Let_def symbols_append split: option.splits)
next
  case (Some q)
  then have "(q, s) \<in> symbols T" using chain_loop_Some by (fastforce simp: symbols_def)
  then show ?thesis using Some assms(2) by (auto simp: dogensym_def Let_def)
qed

definition fresh_addr :: "symtab \<Rightarrow> symaddr \<Rightarrow> bool" where
  "fresh_addr T p \<longleftrightarrow> p < fresh T \<and> (\<forall>n. (p, n) \<notin> symbols T)"

lemma dogensym_ok:
  assumes ok: "symtab_ok T" and call: "dogensym s old T = (T', p)"
    and old: "\<And>q. old = Some q \<Longrightarrow> fresh_addr T q"
  shows "symtab_ok T'"
proof (cases "chain_loop (symhash T (bucket s)) s")
  case None
  have new: "\<forall>q. (q, s) \<notin> symbols T" using None ok by (simp add: symbols_bucket chain_loop_None)
  have addr: "\<forall>n. (p, n) \<notin> symbols T" and less: "p < fresh T'" "fresh T \<le> fresh T'"
    using None call old ok
    by (auto simp: dogensym_def Let_def fresh_addr_def symtab_ok_def symbols_def split: option.splits)
  have "symbols T' = insert (p, s) (symbols T)" using dogensym_symbols [OF ok call] .
  moreover have "\<forall>b. \<forall>(q, n) \<in> set (symhash T' b). b = bucket n \<and> q < fresh T'"
    using None call ok less
    by (fastforce simp: dogensym_def Let_def symtab_ok_def split: option.splits if_splits)
  ultimately show ?thesis using ok new addr by (auto simp: symtab_ok_def)
next
  case (Some q)
  then show ?thesis using ok call by (auto simp: dogensym_def Let_def)
qed

subsection \<open>Interning\<close>

text \<open>Looking up several names, one after the other.\<close>

fun intern_all :: "(string \<Rightarrow> 't \<Rightarrow> 't \<times> 'a) \<Rightarrow> string list \<Rightarrow> 't \<Rightarrow> 't \<times> 'a list" where
  "intern_all f [] T = (T, [])"
| "intern_all f (s # ss) T = (let (T1, p) = f s T; (T2, ps) = intern_all f ss T1 in (T2, p # ps))"

text \<open>What a table of interned names promises: an address stands for one name for good.\<close>

locale interning =
  fixes intern :: "string \<Rightarrow> 't \<Rightarrow> 't \<times> 'a"
    and entry :: "'t \<Rightarrow> ('a \<times> string) set"
    and ok :: "'t \<Rightarrow> bool"
  assumes intern_ok: "ok T \<Longrightarrow> ok (fst (intern s T))"
    and intern_entry: "ok T \<Longrightarrow> entry (fst (intern s T)) = insert (snd (intern s T), s) (entry T)"
    and entry_unique: "ok T \<Longrightarrow> (p, n) \<in> entry T \<Longrightarrow> (q, m) \<in> entry T \<Longrightarrow> (p = q) = (n = m)"
begin

lemma intern_all_entries:
  "ok T \<Longrightarrow> ok (fst (intern_all intern ss T)) \<and> entry T \<subseteq> entry (fst (intern_all intern ss T)) \<and>
    set (zip (snd (intern_all intern ss T)) ss) \<subseteq> entry (fst (intern_all intern ss T)) \<and> length (snd (intern_all intern ss T)) = length ss"
proof (induction ss arbitrary: T)
  case (Cons s ss)
  obtain T1 p where i: "intern s T = (T1, p)" by force
  obtain T2 ps where a: "intern_all intern ss T1 = (T2, ps)" by force
  have "ok T1" "entry T1 = insert (p, s) (entry T)" using Cons.prems i intern_ok intern_entry by (metis fst_conv snd_conv)+
  then show ?case using Cons.IH [of T1] i a by auto
qed simp

lemma intern_all_eq_iff:
  assumes "ok T" "i < length ss" "j < length ss"
  shows "snd (intern_all intern ss T) ! i = snd (intern_all intern ss T) ! j \<longleftrightarrow> ss ! i = ss ! j"
proof -
  let ?ps = "snd (intern_all intern ss T)" and ?T = "fst (intern_all intern ss T)"
  have all: "ok ?T" "set (zip ?ps ss) \<subseteq> entry ?T" "length ?ps = length ss"
    using intern_all_entries [OF assms(1), of ss] by auto
  have "(?ps ! k, ss ! k) \<in> entry ?T" if "k < length ss" for k
    using all(2,3) that nth_mem [of k "zip ?ps ss"] by auto
  then show ?thesis using entry_unique [OF all(1)] assms(2,3) by blast
qed

end

interpretation syms: interning gensym symbols symtab_ok
proof
  fix T s
  assume ok: "symtab_ok T"
  obtain T' p where g: "gensym s T = (T', p)" by force
  show "symtab_ok (fst (gensym s T))" using dogensym_ok [OF ok, of s None T' p] g by (simp add: gensym_def)
  show "symbols (fst (gensym s T)) = insert (snd (gensym s T), s) (symbols T)"
    using dogensym_symbols [OF ok, of s None T' p] g by (simp add: gensym_def)
next
  fix T p n q m
  assume "symtab_ok T" "(p, n) \<in> symbols T" "(q, m) \<in> symbols T"
  then show "(p = q) = (n = m)" by (auto simp: symtab_ok_def)
qed

text \<open>\<^bold>\<open>C22\<close>: Comparing symbols by address is comparing their names. However many names are looked
  up, and whatever was in the table, two calls of \<open>gensym\<close> return the same address exactly if
  they were given the same name, collisions of the hash function included.\<close>

theorem gensym_interns:
  assumes "symtab_ok T" "i < length ss" "j < length ss"
  shows "snd (intern_all gensym ss T) ! i = snd (intern_all gensym ss T) ! j \<longleftrightarrow> ss ! i = ss ! j"
  using assms by (rule syms.intern_all_eq_iff)

lemma static_syms_ok:
  "symtab_ok T \<Longrightarrow> k + length ss \<le> fresh T \<Longrightarrow> (\<And>q n. k \<le> q \<Longrightarrow> (q, n) \<notin> symbols T) \<Longrightarrow>
   symtab_ok (fold (\<lambda>(i, s) T. fst (dogensym s (Some i) T)) (enumerate k ss) T)"
proof (induction ss arbitrary: k T)
  case (Cons s ss)
  obtain T' p where call: "dogensym s (Some k) T = (T', p)" by force
  have "symtab_ok T'"
    using Cons.prems by (intro dogensym_ok [OF _ call]) (auto simp: fresh_addr_def)
  moreover have "fresh T' = fresh T" using call by (auto simp: dogensym_def Let_def split: option.splits)
  moreover have "p \<le> k"
  proof (cases "chain_loop (symhash T (bucket s)) s")
    case (Some q)
    then have "(p, s) \<in> symbols T" "p = q" using call chain_loop_Some by (fastforce simp: dogensym_def symbols_def)+
    then show ?thesis using Cons.prems(3) [of p s] by linarith
  qed (use call in \<open>simp add: dogensym_def Let_def\<close>)
  then have "(q, n) \<notin> symbols T'" if "Suc k \<le> q" for q n
    using that Cons.prems(3) [of q n] dogensym_symbols [OF Cons.prems(1) call] by auto
  ultimately show ?case using Cons.IH [of T' "Suc k"] Cons.prems(2) call by simp
qed simp

text \<open>The table as \<open>mess_init\<close> leaves it is in order.\<close>

lemma mess_init_syms_ok: "symtab_ok mess_init_syms"
  unfolding mess_init_syms_def
  by (rule static_syms_ok) (simp_all add: symtab_ok_def symbols_def symlist_def)

theorem gensym_interns_witness:
  "let ps = snd (intern_all gensym [''float'', ''pan'', ''float''] mess_init_syms)
   in ps ! 0 = ps ! 2 \<and> ps ! 0 \<noteq> ps ! 1"
  using gensym_interns [OF mess_init_syms_ok, of 0 "[''float'', ''pan'', ''float'']" 2]
    gensym_interns [OF mess_init_syms_ok, of 0 "[''float'', ''pan'', ''float'']" 1]
  by (simp add: Let_def del: intern_all.simps)

end
