(* ===== verification/Objects.thy ===== *)
theory Objects
  imports Atoms
begin

text \<open>
  Patchable objects (\<open>m_obj.c\<close>): inlets and what they make of a message, outlets and the
  guard against message recursion, connecting and disconnecting, the traversal of
  connections, and the numbering of signal inlets and outlets. Inlets, outlets and
  connections are linked lists in the code and lists here; symbols are interned, so a symbol
  is its name.
\<close>

subsection \<open>Objects\<close>

datatype inlet_class = InletC | PointerInletC | FloatInletC | SymbolInletC

text \<open>The union of an inlet: the selector to send, a slot to fill, or the value of a signal.\<close>

datatype inletunion = SymTo string | PointerSlot nat | FloatSlot nat | SymSlot nat | FloatSignalValue fl

datatype pdref = ObjRef nat | InletRef nat nat

record t_inlet =
  i_id :: nat
  i_class :: inlet_class
  i_dest :: pdref
  i_symfrom :: "string option"
  i_un :: inletunion

record t_outlet =
  o_id :: nat
  o_sym :: "string option"
  o_connections :: "pdref list"

record t_object =
  ob_inlet :: "t_inlet list"
  ob_outlet :: "t_outlet list"
  c_firstin :: bool
  c_floatsignalin :: int

record t_patch =
  objs :: "nat \<rightharpoonup> t_object"
  dsp_updates :: nat

definition s_signal :: "string option" where "s_signal = Some ''signal''"
definition s_float :: "string option" where "s_float = Some ''float''"
definition s_symbol :: "string option" where "s_symbol = Some ''symbol''"
definition s_pointer :: "string option" where "s_pointer = Some ''pointer''"
definition s_list :: "string option" where "s_list = Some ''list''"
definition s_bang :: "string option" where "s_bang = Some ''bang''"

lemmas sel_defs = s_signal_def s_float_def s_symbol_def s_pointer_def s_list_def s_bang_def

subsection \<open>Creating and freeing inlets and outlets\<close>

definition inlet_new :: "nat \<Rightarrow> pdref \<Rightarrow> string option \<Rightarrow> string \<Rightarrow> t_object \<Rightarrow> t_object" where
  "inlet_new i dest s1 s2 owner = owner\<lparr>ob_inlet := ob_inlet owner @
     [\<lparr>i_id = i, i_class = InletC, i_dest = dest, i_symfrom = s1,
       i_un = (if s1 = s_signal then FloatSignalValue (Fin 0) else SymTo s2)\<rparr>]\<rparr>"

definition signalinlet_new :: "nat \<Rightarrow> nat \<Rightarrow> fl \<Rightarrow> t_object \<Rightarrow> t_object" where
  "signalinlet_new i self f owner =
     (let x = inlet_new i (ObjRef self) s_signal ''signal'' owner
      in x\<lparr>ob_inlet := butlast (ob_inlet x) @ [(last (ob_inlet x))\<lparr>i_un := FloatSignalValue f\<rparr>]\<rparr>)"

definition slotinlet_new :: "nat \<Rightarrow> inlet_class \<Rightarrow> string option \<Rightarrow> inletunion \<Rightarrow> t_object \<Rightarrow> t_object" where
  "slotinlet_new i c s un owner = owner\<lparr>ob_inlet := ob_inlet owner @
     [\<lparr>i_id = i, i_class = c, i_dest = ObjRef 0, i_symfrom = s, i_un = un\<rparr>]\<rparr>"

definition pointerinlet_new :: "nat \<Rightarrow> nat \<Rightarrow> t_object \<Rightarrow> t_object" where
  "pointerinlet_new i gp = slotinlet_new i PointerInletC s_pointer (PointerSlot gp)"

definition floatinlet_new :: "nat \<Rightarrow> nat \<Rightarrow> t_object \<Rightarrow> t_object" where
  "floatinlet_new i fp = slotinlet_new i FloatInletC s_float (FloatSlot fp)"

definition symbolinlet_new :: "nat \<Rightarrow> nat \<Rightarrow> t_object \<Rightarrow> t_object" where
  "symbolinlet_new i sp = slotinlet_new i SymbolInletC s_symbol (SymSlot sp)"

definition inlet_free :: "nat \<Rightarrow> t_object \<Rightarrow> t_object" where
  "inlet_free i owner = owner\<lparr>ob_inlet := remove_first (\<lambda>x. i_id x = i) (ob_inlet owner)\<rparr>"

definition outlet_new :: "nat \<Rightarrow> string option \<Rightarrow> t_object \<Rightarrow> t_object" where
  "outlet_new i s owner = owner\<lparr>ob_outlet := ob_outlet owner @ [\<lparr>o_id = i, o_sym = s, o_connections = []\<rparr>]\<rparr>"

definition outlet_free :: "nat \<Rightarrow> t_object \<Rightarrow> t_object" where
  "outlet_free i owner = owner\<lparr>ob_outlet := remove_first (\<lambda>x. o_id x = i) (ob_outlet owner)\<rparr>"

text \<open>Moving the inlet (outlet) with a given identity to the head of its list.\<close>

definition move_first :: "('a \<Rightarrow> bool) \<Rightarrow> 'a list \<Rightarrow> 'a list" where
  "move_first P xs = (case find P xs of None \<Rightarrow> xs | Some x \<Rightarrow> x # remove_first P xs)"

definition obj_moveinletfirst :: "nat \<Rightarrow> t_object \<Rightarrow> t_object" where
  "obj_moveinletfirst i x = x\<lparr>ob_inlet := move_first (\<lambda>y. i_id y = i) (ob_inlet x)\<rparr>"

definition obj_moveoutletfirst :: "nat \<Rightarrow> t_object \<Rightarrow> t_object" where
  "obj_moveoutletfirst i x = x\<lparr>ob_outlet := move_first (\<lambda>y. o_id y = i) (ob_outlet x)\<rparr>"

subsection \<open>Messages to inlets\<close>

text \<open>What an inlet does: send a message with a selector of its own to its destination
  (\<open>pd_vmess\<close>, \<open>typedmess\<close>), pass the message on unchanged, store a value, or complain.\<close>

datatype message = Bang | Pointer nat | Float fl | Symbol string | List string "t_atom list" | Anything string "t_atom list"

datatype inlet_act =
    Typed pdref string "t_atom list"
  | Pass pdref message
  | SetSignal fl
  | StoreFloat nat fl
  | StoreSymbol nat string
  | StorePointer nat nat
  | Wrong string

text \<open>Reading \<open>i_symto\<close>.\<close>

definition with_symto :: "t_inlet \<Rightarrow> (string \<Rightarrow> 'a) \<Rightarrow> 'a cresult" where
  "with_symto x k = (case i_un x of SymTo s \<Rightarrow> Inr (k s) | _ \<Rightarrow> Inl TypeConfusion)"

definition inlet_wrong :: "string \<Rightarrow> inlet_act cresult" where
  "inlet_wrong s = Inr (Wrong s)"

definition typed :: "t_inlet \<Rightarrow> t_atom list \<Rightarrow> inlet_act cresult" where
  "typed x args = with_symto x (\<lambda>s. Typed (i_dest x) s args)"

definition list_kind :: "string option \<Rightarrow> bool" where
  "list_kind s \<longleftrightarrow> s = s_list \<or> s = s_float \<or> s = s_symbol \<or> s = s_pointer"

definition inlet_bang :: "t_inlet \<Rightarrow> inlet_act cresult" where
  "inlet_bang x = (if i_symfrom x = s_bang then typed x []
     else if i_symfrom x = None then Inr (Pass (i_dest x) Bang)
     else if i_symfrom x = s_list then typed x []
     else inlet_wrong ''bang'')"

definition inlet_pointer :: "t_inlet \<Rightarrow> nat \<Rightarrow> inlet_act cresult" where
  "inlet_pointer x gp = (if i_symfrom x = s_pointer then typed x [POINTER gp]
     else if i_symfrom x = None then Inr (Pass (i_dest x) (Pointer gp))
     else if i_symfrom x = s_list then typed x [POINTER gp]
     else inlet_wrong ''pointer'')"

definition inlet_float :: "t_inlet \<Rightarrow> fl \<Rightarrow> inlet_act cresult" where
  "inlet_float x f = (if i_symfrom x = s_float then typed x [FLOAT f]
     else if i_symfrom x = s_signal then Inr (SetSignal f)
     else if i_symfrom x = None then Inr (Pass (i_dest x) (Float f))
     else if i_symfrom x = s_list then typed x [FLOAT f]
     else inlet_wrong ''float'')"

definition inlet_symbol :: "t_inlet \<Rightarrow> string \<Rightarrow> inlet_act cresult" where
  "inlet_symbol x s = (if i_symfrom x = s_symbol then typed x [SYMBOL s]
     else if i_symfrom x = None then Inr (Pass (i_dest x) (Symbol s))
     else if i_symfrom x = s_list then typed x [SYMBOL s]
     else inlet_wrong ''symbol'')"

definition inlet_list :: "t_inlet \<Rightarrow> string \<Rightarrow> t_atom list \<Rightarrow> inlet_act cresult" where
  "inlet_list x s argv = (if list_kind (i_symfrom x) then typed x argv
     else if i_symfrom x = None then Inr (Pass (i_dest x) (List s argv))
     else (case argv of
         [] \<Rightarrow> inlet_bang x
       | [FLOAT f] \<Rightarrow> inlet_float x f
       | [SYMBOL t] \<Rightarrow> inlet_symbol x t
       | _ \<Rightarrow> inlet_wrong ''list''))"

definition inlet_anything :: "t_inlet \<Rightarrow> string \<Rightarrow> t_atom list \<Rightarrow> inlet_act cresult" where
  "inlet_anything x s argv = (if i_symfrom x = Some s then typed x argv
     else if i_symfrom x = None then Inr (Typed (i_dest x) s argv)
     else inlet_wrong s)"

text \<open>The methods of the optimised inlets store the value.\<close>

definition pointerinlet_pointer :: "t_inlet \<Rightarrow> nat \<Rightarrow> inlet_act cresult" where
  "pointerinlet_pointer x gp = (case i_un x of PointerSlot p \<Rightarrow> Inr (StorePointer p gp) | _ \<Rightarrow> Inl TypeConfusion)"

definition floatinlet_float :: "t_inlet \<Rightarrow> fl \<Rightarrow> inlet_act cresult" where
  "floatinlet_float x f = (case i_un x of FloatSlot p \<Rightarrow> Inr (StoreFloat p f) | _ \<Rightarrow> Inl TypeConfusion)"

definition symbolinlet_symbol :: "t_inlet \<Rightarrow> string \<Rightarrow> inlet_act cresult" where
  "symbolinlet_symbol x s = (case i_un x of SymSlot p \<Rightarrow> Inr (StoreSymbol p s) | _ \<Rightarrow> Inl TypeConfusion)"

subsection \<open>Lists to objects\<close>

text \<open>\<open>obj_list\<close>: one atom for each inlet, the leftmost last.\<close>

definition atom_message :: "t_atom \<Rightarrow> message cresult" where
  "atom_message a = (case a of POINTER gp \<Rightarrow> Inr (Pointer gp) | FLOAT f \<Rightarrow> Inr (Float f)
     | SYMBOL s \<Rightarrow> Inr (Symbol s) | DOLLSYM s \<Rightarrow> Inr (Symbol s) | _ \<Rightarrow> Inl TypeConfusion)"

fun inlets_loop :: "nat \<Rightarrow> t_inlet list \<Rightarrow> t_atom list \<Rightarrow> (pdref \<times> message) list cresult" where
  "inlets_loop self (i # is) (a # as) =
     cbind (atom_message a) (\<lambda>m. cbind (inlets_loop self is as) (\<lambda>ms. Inr ((InletRef self (i_id i), m) # ms)))"
| "inlets_loop self _ _ = Inr []"

definition obj_list :: "nat \<Rightarrow> t_object \<Rightarrow> t_atom list \<Rightarrow> (pdref \<times> message) list cresult" where
  "obj_list self x argv = (case argv of
      [] \<Rightarrow> Inr []
    | a # as \<Rightarrow> cbind (inlets_loop self (ob_inlet x) as) (\<lambda>ms.
        cbind (atom_message a) (\<lambda>m. Inr (ms @ [(ObjRef self, m)]))))"

subsection \<open>Connections\<close>

text \<open>\<open>for (o = list; o && n; o = o->next, n--)\<close>: the element where the loop ends.\<close>

fun walk :: "'a list \<Rightarrow> int \<Rightarrow> 'a option" where
  "walk [] n = None"
| "walk (x # xs) n = (if n = 0 then Some x else walk xs (n - 1))"

definition update_dsp :: "t_outlet \<Rightarrow> t_patch \<Rightarrow> t_patch" where
  "update_dsp out P = (if o_sym out = s_signal then P\<lparr>dsp_updates := dsp_updates P + 1\<rparr> else P)"

text \<open>The address a connection to an inlet points to.\<close>

definition find_inlet :: "nat \<Rightarrow> t_object \<Rightarrow> int \<Rightarrow> pdref option" where
  "find_inlet sink y inno =
     (if c_firstin y \<and> inno = 0 then Some (ObjRef sink)
      else map_option (\<lambda>i. InletRef sink (i_id i)) (walk (ob_inlet y) (if c_firstin y then inno - 1 else inno)))"

definition set_connections :: "nat \<Rightarrow> int \<Rightarrow> pdref list \<Rightarrow> t_patch \<Rightarrow> t_patch" where
  "set_connections source outno cs P = (case objs P source of None \<Rightarrow> P
     | Some x \<Rightarrow> P\<lparr>objs := (objs P)(source \<mapsto> x\<lparr>ob_outlet :=
         (ob_outlet x)[nat outno := (ob_outlet x ! nat outno)\<lparr>o_connections := cs\<rparr>]\<rparr>)\<rparr>)"

definition obj_connect :: "nat \<Rightarrow> int \<Rightarrow> nat \<Rightarrow> int \<Rightarrow> t_patch \<Rightarrow> (bool \<times> t_patch) cresult" where
  "obj_connect source outno sink inno P = (case (objs P source, objs P sink) of
      (Some x, Some y) \<Rightarrow> (case walk (ob_outlet x) outno of
          None \<Rightarrow> Inr (False, P)
        | Some out \<Rightarrow> (case find_inlet sink y inno of
            None \<Rightarrow> Inr (False, P)
          | Some to \<Rightarrow> Inr (True, update_dsp out (set_connections source outno (o_connections out @ [to]) P))))
    | _ \<Rightarrow> Inl NullDeref)"

text \<open>The search for the connection to remove.\<close>

definition obj_disconnect :: "nat \<Rightarrow> int \<Rightarrow> nat \<Rightarrow> int \<Rightarrow> t_patch \<Rightarrow> t_patch cresult" where
  "obj_disconnect source outno sink inno P = (case (objs P source, objs P sink) of
      (Some x, Some y) \<Rightarrow> (case find_inlet sink y inno of
          None \<Rightarrow> Inr P
        | Some to \<Rightarrow> (case walk (ob_outlet x) outno of
            None \<Rightarrow> Inl NullDeref
          | Some out \<Rightarrow> if o_connections out = [] then Inr P
              else Inr (update_dsp out (set_connections source outno (remove1 to (o_connections out)) P))))
    | _ \<Rightarrow> Inl NullDeref)"

subsection \<open>Traversal\<close>

definition obj_noutlets :: "t_object \<Rightarrow> int" where
  "obj_noutlets x = int (length (ob_outlet x))"

definition obj_ninlets :: "t_object \<Rightarrow> int" where
  "obj_ninlets x = int (length (ob_inlet x)) + (if c_firstin x then 1 else 0)"

text \<open>The number of elements before the first one that satisfies a test.\<close>

fun index_of :: "('a \<Rightarrow> bool) \<Rightarrow> 'a list \<Rightarrow> int" where
  "index_of P [] = 0"
| "index_of P (x # xs) = (if P x then 0 else 1 + index_of P xs)"

definition obj_nexttraverseoutlet :: "t_patch \<Rightarrow> pdref \<Rightarrow> (nat \<times> int) cresult" where
  "obj_nexttraverseoutlet P to = (case to of
      ObjRef y \<Rightarrow> Inr (y, 0)
    | InletRef dest i \<Rightarrow> (case objs P dest of None \<Rightarrow> Inl NullDeref
        | Some d \<Rightarrow> Inr (dest, (if c_firstin d then 1 else 0) + index_of (\<lambda>x. i_id x = i) (ob_inlet d))))"

definition obj_starttraverseoutlet :: "t_object \<Rightarrow> int \<Rightarrow> pdref list" where
  "obj_starttraverseoutlet x nout = (case walk (ob_outlet x) nout of None \<Rightarrow> [] | Some out \<Rightarrow> o_connections out)"

subsection \<open>Signal inlets and outlets\<close>

definition is_sig_in :: "t_inlet \<Rightarrow> bool" where "is_sig_in i \<longleftrightarrow> i_symfrom i = s_signal"
definition is_sig_out :: "t_outlet \<Rightarrow> bool" where "is_sig_out out \<longleftrightarrow> o_sym out = s_signal"

definition first_sig :: "t_object \<Rightarrow> bool" where
  "first_sig x \<longleftrightarrow> c_firstin x \<and> c_floatsignalin x \<noteq> 0"

definition obj_nsiginlets :: "t_object \<Rightarrow> int" where
  "obj_nsiginlets x = int (length (filter is_sig_in (ob_inlet x))) + (if first_sig x then 1 else 0)"

text \<open>\<open>for (...; i; i = i->next, m--) if (signal) { if (m == 0) return n; n++; }\<close>\<close>

fun sigindex_loop :: "('a \<Rightarrow> bool) \<Rightarrow> 'a list \<Rightarrow> int \<Rightarrow> int \<Rightarrow> int" where
  "sigindex_loop P [] m n = -1"
| "sigindex_loop P (x # xs) m n =
     (if P x then (if m = 0 then n else sigindex_loop P xs (m - 1) (n + 1)) else sigindex_loop P xs (m - 1) n)"

definition obj_siginletindex :: "t_object \<Rightarrow> int \<Rightarrow> int" where
  "obj_siginletindex x m =
     (if first_sig x then (if m = 0 then 0 else sigindex_loop is_sig_in (ob_inlet x) (m - 1) 1)
      else sigindex_loop is_sig_in (ob_inlet x) m 0)"

definition obj_issignalinlet :: "t_object \<Rightarrow> int \<Rightarrow> bool" where
  "obj_issignalinlet x m =
     (if c_firstin x \<and> m = 0 then first_sig x
      else (case walk (ob_inlet x) (if c_firstin x then m - 1 else m) of
              None \<Rightarrow> False | Some i \<Rightarrow> is_sig_in i))"

definition obj_nsigoutlets :: "t_object \<Rightarrow> int" where
  "obj_nsigoutlets x = int (length (filter is_sig_out (ob_outlet x)))"

definition obj_sigoutletindex :: "t_object \<Rightarrow> int \<Rightarrow> int" where
  "obj_sigoutletindex x m = sigindex_loop is_sig_out (ob_outlet x) m 0"

definition obj_issignaloutlet :: "t_object \<Rightarrow> int \<Rightarrow> bool" where
  "obj_issignaloutlet x m = (case walk (ob_outlet x) m of None \<Rightarrow> False | Some out \<Rightarrow> is_sig_out out)"

definition inlet_getsignalindex :: "nat \<Rightarrow> t_object \<Rightarrow> int" where
  "inlet_getsignalindex i x =
     int (length (filter is_sig_in (takeWhile (\<lambda>y. i_id y \<noteq> i) (ob_inlet x))))"

definition outlet_getsignalindex :: "nat \<Rightarrow> t_object \<Rightarrow> int" where
  "outlet_getsignalindex i x =
     int (length (filter is_sig_out (takeWhile (\<lambda>y. o_id y \<noteq> i) (ob_outlet x))))"

subsection \<open>Inlets and their messages\<close>

fun inlet_message :: "t_inlet \<Rightarrow> message \<Rightarrow> inlet_act cresult" where
  "inlet_message x Bang = inlet_bang x"
| "inlet_message x (Pointer gp) = inlet_pointer x gp"
| "inlet_message x (Float f) = inlet_float x f"
| "inlet_message x (Symbol s) = inlet_symbol x s"
| "inlet_message x (List s argv) = inlet_list x s argv"
| "inlet_message x (Anything s argv) = inlet_anything x s argv"

text \<open>The union of an inlet made by \<open>inlet_new\<close> or \<open>signalinlet_new\<close> fits its kind.\<close>

definition inlet_ok :: "t_inlet \<Rightarrow> bool" where
  "inlet_ok x \<longleftrightarrow> (if i_symfrom x = s_signal then (\<exists>f. i_un x = FloatSignalValue f) else (\<exists>t. i_un x = SymTo t))"

lemma inlet_new_ok: "\<forall>x \<in> set (ob_inlet owner). inlet_ok x \<Longrightarrow>
    (\<forall>x \<in> set (ob_inlet (inlet_new i dest s1 s2 owner)). inlet_ok x) \<and>
    (\<forall>x \<in> set (ob_inlet (signalinlet_new i self f owner)). inlet_ok x)"
  by (auto simp: inlet_new_def signalinlet_new_def inlet_ok_def Let_def)

text \<open>An inlet made by \<open>inlet_new\<close> or \<open>signalinlet_new\<close> treats every message without reading
  the wrong member of its union, with one exception: a message whose selector is the word
  \<open>signal\<close>, arriving at a signal inlet, makes \<open>inlet_anything\<close> take the stored number for the
  address of a symbol.\<close>

theorem inlet_type_confusion_iff:
  assumes "inlet_ok x"
  shows "inlet_message x m = Inl TypeConfusion \<longleftrightarrow>
    i_symfrom x = s_signal \<and> (\<exists>argv. m = Anything ''signal'' argv)"
proof (cases "i_symfrom x = s_signal")
  case True
  then show ?thesis
    using assms
    by (cases m) (auto simp: sel_defs inlet_ok_def inlet_bang_def inlet_pointer_def inlet_float_def inlet_symbol_def
      inlet_list_def inlet_anything_def inlet_wrong_def list_kind_def typed_def with_symto_def
      split: list.splits t_atom.splits)
next
  case False
  then obtain t where "i_un x = SymTo t" using assms by (auto simp: inlet_ok_def)
  then have "typed x args = Inr (Typed (i_dest x) t args)" for args by (simp add: typed_def with_symto_def)
  then show ?thesis
    using False
    by (cases m) (auto simp: inlet_bang_def inlet_pointer_def inlet_float_def inlet_symbol_def
      inlet_list_def inlet_anything_def inlet_wrong_def split: list.splits t_atom.splits)
qed

definition demo_obj :: t_object where
  "demo_obj = outlet_new 0 s_signal (signalinlet_new 1 7 (Fin 440)
     \<lparr>ob_inlet = [], ob_outlet = [], c_firstin = True, c_floatsignalin = 0\<rparr>)"

theorem inlet_type_confusion_iff_witness:
  "inlet_message (hd (ob_inlet demo_obj)) (Anything ''signal'' []) = Inl TypeConfusion"
proof -
  have "inlet_ok (hd (ob_inlet demo_obj))" "i_symfrom (hd (ob_inlet demo_obj)) = s_signal"
    by (simp_all add: demo_obj_def outlet_new_def signalinlet_new_def inlet_new_def inlet_ok_def Let_def)
  then show ?thesis using inlet_type_confusion_iff by blast
qed

subsection \<open>Connecting and disconnecting\<close>

lemma walk_eq: "walk xs n = (if 0 \<le> n \<and> n < int (length xs) then Some (xs ! nat n) else None)"
proof (induction xs arbitrary: n)
  case (Cons x xs)
  then show ?case by (cases "n = 0") (auto simp: nth_Cons' nat_diff_distrib)
qed simp

lemma index_of_nth:
  "distinct (map f xs) \<Longrightarrow> k < length xs \<Longrightarrow> index_of (\<lambda>x. f x = f (xs ! k)) xs = int k"
proof (induction xs arbitrary: k)
  case (Cons x xs)
  then show ?case by (cases k) (auto simp: image_iff dest: nth_mem)
qed simp

definition patch_ok :: "t_patch \<Rightarrow> bool" where
  "patch_ok P \<longleftrightarrow> (\<forall>k x. objs P k = Some x \<longrightarrow> distinct (map i_id (ob_inlet x)))"

lemma objs_update_dsp [simp]: "objs (update_dsp out P) = objs P"
  by (simp add: update_dsp_def)

lemma find_inlet_Some: "find_inlet sink y inno \<noteq> None \<longleftrightarrow> 0 \<le> inno \<and> inno < obj_ninlets y"
  by (auto simp: find_inlet_def walk_eq obj_ninlets_def)

text \<open>The inlets of the objects, and so the meaning of a connection, survive a change of connections.\<close>

lemma traverse_inverts_find:
  assumes "find_inlet sink y inno = Some to" "distinct (map i_id (ob_inlet y))"
    "objs P sink = Some y'" "ob_inlet y' = ob_inlet y" "c_firstin y' = c_firstin y"
  shows "obj_nexttraverseoutlet P to = Inr (sink, inno)"
  using assms index_of_nth [of i_id "ob_inlet y"]
  by (auto simp: find_inlet_def walk_eq obj_nexttraverseoutlet_def split: if_splits)

lemma set_connections_objs:
  assumes "objs P source = Some x" "walk (ob_outlet x) outno = Some out"
  shows "objs (set_connections source outno cs P) =
    (objs P)(source \<mapsto> x\<lparr>ob_outlet := (ob_outlet x)[nat outno := out\<lparr>o_connections := cs\<rparr>]\<rparr>)"
  using assms by (auto simp: set_connections_def walk_eq split: if_splits)

text \<open>\<^bold>\<open>C23\<close>: \<open>obj_connect\<close> succeeds exactly if the outlet and the inlet exist; it then adds one
  connection behind the ones the outlet has, and traversing it gives back the object and the
  inlet number it was made with.\<close>

theorem connect_then_traverse:
  assumes "objs P source = Some x" "objs P sink = Some y" "patch_ok P"
  shows "if 0 \<le> outno \<and> outno < obj_noutlets x \<and> 0 \<le> inno \<and> inno < obj_ninlets y
    then \<exists>P' x' to. obj_connect source outno sink inno P = Inr (True, P') \<and> objs P' source = Some x' \<and>
      obj_starttraverseoutlet x' outno = obj_starttraverseoutlet x outno @ [to] \<and>
      obj_nexttraverseoutlet P' to = Inr (sink, inno)
    else obj_connect source outno sink inno P = Inr (False, P)"
proof (cases "0 \<le> outno \<and> outno < obj_noutlets x \<and> 0 \<le> inno \<and> inno < obj_ninlets y")
  case True
  then obtain out where out: "walk (ob_outlet x) outno = Some out"
    by (auto simp: walk_eq obj_noutlets_def)
  obtain to where to: "find_inlet sink y inno = Some to" using True find_inlet_Some [of sink y inno] by auto
  define P' where "P' = update_dsp out (set_connections source outno (o_connections out @ [to]) P)"
  define x' where "x' = x\<lparr>ob_outlet := (ob_outlet x)[nat outno := out\<lparr>o_connections := o_connections out @ [to]\<rparr>]\<rparr>"
  have objs: "objs P' = (objs P)(source \<mapsto> x')"
    unfolding P'_def x'_def using set_connections_objs [OF assms(1) out] by simp
  have "obj_starttraverseoutlet x' outno = obj_starttraverseoutlet x outno @ [to]"
    using out by (auto simp: obj_starttraverseoutlet_def x'_def walk_eq split: if_splits)
  moreover have "obj_nexttraverseoutlet P' to = Inr (sink, inno)"
    using assms to objs
    by (intro traverse_inverts_find [OF to, where y' = "if sink = source then x' else y"])
      (auto simp: patch_ok_def x'_def)
  moreover have "obj_connect source outno sink inno P = Inr (True, P')"
    using assms out to by (simp add: obj_connect_def P'_def)
  ultimately show ?thesis using True objs by auto
next
  case False
  then have "walk (ob_outlet x) outno = None \<or> find_inlet sink y inno = None"
    using find_inlet_Some [of sink y inno] by (auto simp: walk_eq obj_noutlets_def)
  then show ?thesis using False assms by (auto simp: obj_connect_def split: option.split)
qed

text \<open>\<^bold>\<open>C24\<close>: Disconnecting a connection that was just made, and that was not there before,
  leaves every object as it was.\<close>

theorem connect_then_disconnect:
  assumes "obj_connect source outno sink inno P = Inr (True, P')"
    "objs P source = Some x" "objs P sink = Some y"
    "find_inlet sink y inno = Some to" "to \<notin> set (obj_starttraverseoutlet x outno)"
  shows "\<exists>P''. obj_disconnect source outno sink inno P' = Inr P'' \<and> objs P'' = objs P"
proof -
  obtain out where out: "walk (ob_outlet x) outno = Some out"
    using assms by (auto simp: obj_connect_def split: option.splits)
  define x' where "x' = x\<lparr>ob_outlet := (ob_outlet x)[nat outno := out\<lparr>o_connections := o_connections out @ [to]\<rparr>]\<rparr>"
  have objs: "objs P' = (objs P)(source \<mapsto> x')"
    using assms(1-4) out set_connections_objs [OF assms(2) out] by (auto simp: obj_connect_def x'_def)
  have out': "walk (ob_outlet x') outno = Some (out\<lparr>o_connections := o_connections out @ [to]\<rparr>)"
    using out by (auto simp: x'_def walk_eq split: if_splits)
  have "find_inlet sink (if sink = source then x' else y) inno = Some to"
    using assms(2-4) by (auto simp: find_inlet_def x'_def)
  moreover have "remove1 to (o_connections out @ [to]) = o_connections out"
    using assms(5) out by (simp add: remove1_append obj_starttraverseoutlet_def)
  moreover have "(ob_outlet x')[nat outno := out] = ob_outlet x"
    using out by (auto simp: x'_def walk_eq split: if_splits)
  moreover have "objs P' source = Some x'" using objs by simp
  ultimately show ?thesis
    using assms(2,3) out' objs set_connections_objs [of P' source x' outno _ "o_connections out"]
    by (auto simp: obj_disconnect_def x'_def map_upd_triv)
qed

text \<open>Two objects: a signal source and a sink with a signal inlet behind its first inlet.\<close>

definition demo_patch :: t_patch where
  "demo_patch = \<lparr>objs = [0 \<mapsto> demo_obj, 1 \<mapsto> demo_obj], dsp_updates = 0\<rparr>"

lemma demo_obj_simps [simp]: "obj_noutlets demo_obj = 1" "obj_ninlets demo_obj = 2"
  "obj_starttraverseoutlet demo_obj 0 = []" "find_inlet k demo_obj 1 = Some (InletRef k 1)"
  "c_firstin demo_obj" "distinct (map i_id (ob_inlet demo_obj))"
  by (simp_all add: demo_obj_def obj_noutlets_def obj_ninlets_def obj_starttraverseoutlet_def find_inlet_def
      signalinlet_new_def inlet_new_def outlet_new_def Let_def)

lemma walk_demo: "walk (ob_outlet demo_obj) 0 = Some \<lparr>o_id = 0, o_sym = s_signal, o_connections = []\<rparr>"
  by (simp add: demo_obj_def outlet_new_def signalinlet_new_def inlet_new_def Let_def)

lemma demo_patch_ok: "patch_ok demo_patch"
  by (simp add: patch_ok_def demo_patch_def)

theorem connect_then_traverse_witness:
  "\<exists>P' x' to. obj_connect 0 0 1 1 demo_patch = Inr (True, P') \<and> objs P' 0 = Some x' \<and>
    obj_starttraverseoutlet x' 0 = [to] \<and> obj_nexttraverseoutlet P' to = Inr (1, 1)"
  using connect_then_traverse [of demo_patch 0 demo_obj 1 demo_obj 0 1, OF _ _ demo_patch_ok]
  by (simp add: demo_patch_def)

theorem connect_then_disconnect_witness:
  "\<exists>P' P''. obj_connect 0 0 1 1 demo_patch = Inr (True, P') \<and> obj_disconnect 0 0 1 1 P' = Inr P'' \<and>
    objs P'' = objs demo_patch"
proof -
  obtain P' where P': "obj_connect 0 0 1 1 demo_patch = Inr (True, P')"
    by (simp add: obj_connect_def demo_patch_def walk_demo)
  have "objs demo_patch 0 = Some demo_obj" "objs demo_patch 1 = Some demo_obj" by (simp_all add: demo_patch_def)
  then have "\<exists>P''. obj_disconnect 0 0 1 1 P' = Inr P'' \<and> objs P'' = objs demo_patch"
    using connect_then_disconnect [OF P', of demo_obj demo_obj "InletRef 1 1"] by simp
  with P' show ?thesis by blast
qed

text \<open>Disconnecting from an outlet number that the source object does not have, to an inlet
  that exists, follows a null pointer; \<open>obj_connect\<close> with the same numbers does nothing.\<close>

theorem disconnect_bad_outlet_crashes:
  assumes "objs P source = Some x" "objs P sink = Some y" "obj_noutlets x \<le> outno" "0 \<le> inno" "inno < obj_ninlets y"
  shows "obj_disconnect source outno sink inno P = Inl NullDeref \<and>
    obj_connect source outno sink inno P = Inr (False, P)"
proof -
  obtain to where "find_inlet sink y inno = Some to" using assms find_inlet_Some [of sink y inno] by auto
  then show ?thesis using assms by (simp add: obj_disconnect_def obj_connect_def walk_eq obj_noutlets_def)
qed

theorem disconnect_bad_outlet_crashes_witness:
  "obj_disconnect 0 1 1 0 demo_patch = Inl NullDeref \<and> obj_connect 0 1 1 0 demo_patch = Inr (False, demo_patch)"
  using disconnect_bad_outlet_crashes [of demo_patch 0 demo_obj 1 demo_obj 1 0] by (simp add: demo_patch_def)

subsection \<open>Numbering of signal inlets\<close>

lemma sigindex_loop_eq:
  "sigindex_loop P xs m n = (if 0 \<le> m \<and> m < int (length xs) \<and> P (xs ! nat m)
     then n + int (length (filter P (take (nat m) xs))) else -1)"
proof (induction xs arbitrary: m n)
  case (Cons x xs)
  consider "m < 0" | "m = 0" | "m = int (Suc (nat (m - 1)))" by linarith
  then show ?case
  proof cases
    case 3
    then obtain k where "m = int (Suc k)" ..
    then have n: "nat m = Suc k" "m - 1 = int k" "m \<noteq> 0" "0 \<le> m" "(m < int (length (x # xs))) = (k < length xs)"
      by auto
    show ?thesis by (simp only: sigindex_loop.simps Cons.IH n nth_Cons_Suc take_Suc_Cons filter.simps) simp
  qed (simp_all add: Cons.IH)
qed simp

lemma sigindex_loop_map: "sigindex_loop f xs m n = sigindex_loop id (map f xs) m n"
  by (induction xs arbitrary: m n) auto

text \<open>Which of the inlets of an object, in the numbering of the patch, are signal inlets.\<close>

definition sig_flags :: "t_object \<Rightarrow> bool list" where
  "sig_flags x = (if c_firstin x then [first_sig x] else []) @ map is_sig_in (ob_inlet x)"

lemma obj_issignalinlet_flags:
  "obj_issignalinlet x m \<longleftrightarrow> 0 \<le> m \<and> m < obj_ninlets x \<and> sig_flags x ! nat m"
  by (auto simp: obj_issignalinlet_def sig_flags_def walk_eq obj_ninlets_def nth_Cons' nat_diff_distrib)

lemma count_map: "length (filter id (map f xs)) = length (filter f xs)"
  by (induction xs) auto

text \<open>For an object whose first inlet, if it has one in its class, takes signals,
  \<open>obj_siginletindex\<close> gives every signal inlet the number of signal inlets to its left, and all
  other numbers minus 1, in agreement with \<open>obj_issignalinlet\<close> and \<open>obj_nsiginlets\<close>.\<close>

theorem siginletindex_correct:
  assumes "c_firstin x \<longrightarrow> first_sig x"
  shows "obj_siginletindex x m =
      (if obj_issignalinlet x m then int (length (filter id (take (nat m) (sig_flags x)))) else -1) \<and>
    obj_siginletindex x m < obj_nsiginlets x"
proof -
  have loop: "obj_siginletindex x m = sigindex_loop id (sig_flags x) m 0"
    using assms by (auto simp: obj_siginletindex_def sig_flags_def first_sig_def sigindex_loop_map [of is_sig_in])
  have len: "int (length (sig_flags x)) = obj_ninlets x" by (simp add: sig_flags_def obj_ninlets_def)
  have idx: "obj_siginletindex x m =
      (if obj_issignalinlet x m then int (length (filter id (take (nat m) (sig_flags x)))) else -1)"
    by (auto simp: loop sigindex_loop_eq obj_issignalinlet_flags len)
  have total: "obj_nsiginlets x = int (length (filter id (sig_flags x)))"
    using assms by (auto simp: obj_nsiginlets_def sig_flags_def count_map first_sig_def)
  show ?thesis
  proof (cases "obj_issignalinlet x m")
    case True
    then have m: "nat m < length (sig_flags x)" "sig_flags x ! nat m"
      using len by (auto simp: obj_issignalinlet_flags)
    have "length (filter id (take (nat m) (sig_flags x))) < length (filter id (sig_flags x))"
      using m(2) by (subst (2) id_take_nth_drop [OF m(1)]) simp
    with True idx total show ?thesis by simp
  qed (use idx total in simp)
qed

theorem siginletindex_correct_witness:
  "obj_siginletindex (demo_obj\<lparr>c_floatsignalin := 8\<rparr>) 1 = 1 \<and> obj_nsiginlets (demo_obj\<lparr>c_floatsignalin := 8\<rparr>) = 2"
proof -
  let ?x = "demo_obj\<lparr>c_floatsignalin := 8\<rparr>"
  have "sig_flags ?x = [True, True]" "obj_ninlets ?x = 2" "obj_nsiginlets ?x = 2"
    by (simp_all add: demo_obj_def sig_flags_def first_sig_def is_sig_in_def obj_ninlets_def obj_nsiginlets_def
        signalinlet_new_def inlet_new_def outlet_new_def Let_def)
  moreover from this have "obj_issignalinlet ?x 1" by (simp add: obj_issignalinlet_flags)
  ultimately show ?thesis
    using siginletindex_correct [of ?x 1] by (simp add: first_sig_def)
qed

text \<open>For an object whose first inlet takes messages only, the numbering goes wrong: the
  second inlet is a signal inlet, the only one, but \<open>obj_siginletindex\<close> does not skip the first
  inlet and answers that the second is not a signal inlet.\<close>

theorem siginletindex_skips_wrong:
  assumes "c_firstin x" "c_floatsignalin x = 0" "map is_sig_in (ob_inlet x) = [True]"
  shows "obj_issignalinlet x 1 \<and> obj_nsiginlets x = 1 \<and> obj_siginletindex x 1 = -1"
  using assms by (auto simp: obj_issignalinlet_def obj_nsiginlets_def obj_siginletindex_def first_sig_def Cons_eq_map_conv)

theorem siginletindex_skips_wrong_witness:
  "obj_issignalinlet demo_obj 1 \<and> obj_nsiginlets demo_obj = 1 \<and> obj_siginletindex demo_obj 1 = -1"
  using siginletindex_skips_wrong [of demo_obj]
  by (simp add: demo_obj_def is_sig_in_def signalinlet_new_def inlet_new_def outlet_new_def Let_def)

subsection \<open>Outlets and message recursion\<close>

text \<open>
  What a method does: it may change the state, send messages to outlets, one after the other,
  and go on with the state it finds when they return. \<open>run_act\<close> runs a method, given the way
  outlets send.
\<close>

datatype ('s, 'o) act = Return 's | Send 's 'o message "'s \<Rightarrow> ('s, 'o) act"

primrec run_act :: "('o \<Rightarrow> message \<Rightarrow> 's \<Rightarrow> 's) \<Rightarrow> ('s, 'o) act \<Rightarrow> 's" where
  "run_act send (Return s) = s"
| "run_act send (Send s x m k) = run_act send (k (send x m s))"

definition STACKITER :: nat where "STACKITER = 1000"

text \<open>
  \<open>outlet_bang\<close>, \<open>outlet_float\<close>, \<open>outlet_symbol\<close>, \<open>outlet_list\<close>, \<open>outlet_pointer\<close> and
  \<open>outlet_anything\<close> differ in the message they send only. Nothing else changes \<open>stackcount\<close>, and
  they restore it, so it is an argument: the number of outlets that are sending.
\<close>

function outlet_send ::
    "(pdref \<Rightarrow> message \<Rightarrow> 's \<Rightarrow> ('s, 'o) act) \<Rightarrow> ('o \<Rightarrow> 's \<Rightarrow> pdref list) \<Rightarrow> ('o \<Rightarrow> 's \<Rightarrow> 's) \<Rightarrow>
     nat \<Rightarrow> 'o \<Rightarrow> message \<Rightarrow> 's \<Rightarrow> 's" where
  "outlet_send meth conns stackerror stackcount x m s =
     (if STACKITER \<le> stackcount + 1 then stackerror x s
      else fold (\<lambda>to s. run_act (\<lambda>x' m' s'. outlet_send meth conns stackerror (stackcount + 1) x' m' s')
             (meth to m s)) (conns x s) s)"
  by pat_completeness auto
termination
  by (relation "measure (\<lambda>(_, _, _, c, _). STACKITER - c)") auto

declare outlet_send.simps [simp del]

text \<open>A state that counts the methods called and the errors, and methods that send on what they get.\<close>

definition echo :: "'o \<Rightarrow> pdref \<Rightarrow> message \<Rightarrow> nat \<times> nat \<Rightarrow> (nat \<times> nat, 'o) act" where
  "echo x to m s = Send (fst s + 1, snd s) x m Return"

lemma echo_loop:
  "c < STACKITER \<Longrightarrow> outlet_send (echo x) (\<lambda>_ _. [to]) (\<lambda>_ s. (fst s, snd s + 1)) c x m s =
     (fst s + (STACKITER - 1 - c), snd s + 1)"
proof (induction "STACKITER - c" arbitrary: c s)
  case (Suc n)
  show ?case
  proof (cases "STACKITER \<le> c + 1")
    case True
    then show ?thesis using Suc.prems by (subst outlet_send.simps) simp
  next
    case False
    then show ?thesis
      using Suc.hyps(1) [of "c + 1" "(fst s + 1, snd s)"] Suc.hyps(2)
      by (subst outlet_send.simps) (simp add: echo_def)
  qed
qed simp

text \<open>An outlet connected back to the object it belongs to does not recurse for ever: a
  message sent through it calls the object's method 999 times, then reports one stack overflow,
  and unwinds.\<close>

theorem feedback_loop_is_cut:
  "outlet_send (echo x) (\<lambda>_ _. [to]) (\<lambda>_ s. (fst s, snd s + 1)) 0 x m (0, 0) = (999, 1)"
  using echo_loop [of 0 x to m "(0, 0)"] by (simp add: STACKITER_def)

text \<open>An invariant that every method keeps as long as the outlets it sends through keep it,
  and that the overflow report keeps, holds after any message, at any depth and in any patch,
  cyclic ones included.\<close>

theorem outlet_send_invariant:
  assumes "I s"
    and "\<And>x s. I s \<Longrightarrow> I (stackerror x s)"
    and "\<And>send to m s. (\<And>x m s. I s \<Longrightarrow> I (send x m s)) \<Longrightarrow> I s \<Longrightarrow> I (run_act send (meth to m s))"
  shows "I (outlet_send meth conns stackerror c x m s)"
  using assms(1)
proof (induction "STACKITER - c" arbitrary: c x m s rule: less_induct)
  case less
  show ?case
  proof (cases "STACKITER \<le> c + 1")
    case True
    then show ?thesis using less.prems assms(2) by (subst outlet_send.simps) simp
  next
    case False
    have "I (fold (\<lambda>to s. run_act (outlet_send meth conns stackerror (c + 1)) (meth to m s)) ts s)" if "I s" for ts s
      using that
    proof (induction ts arbitrary: s)
      case (Cons t ts)
      have "I (run_act (outlet_send meth conns stackerror (c + 1)) (meth t m s))"
        using False less.hyps Cons.prems by (intro assms(3)) auto
      then show ?case using Cons.IH by simp
    qed simp
    then show ?thesis using False less.prems by (subst outlet_send.simps) simp
  qed
qed

theorem outlet_send_invariant_witness:
  "5 \<le> fst (outlet_send (echo ()) (\<lambda>_ _. [ObjRef 0, ObjRef 1]) (\<lambda>_ s. (fst s, snd s + 1)) 0 () Bang (5, 0))"
  by (rule outlet_send_invariant [where I = "\<lambda>s. 5 \<le> fst s"]) (auto simp: echo_def)

end
