(* ===== verification/XList.thy ===== *)
theory XList
  imports Objects
begin

text \<open>
  The list objects (\<open>x_list.c\<close>): stored lists and the objects append, prepend, split, trim and
  length. Stored atoms keep the tag and the union word apart, because the code writes the two
  separately; a word that does not belong to its tag reads as a type confusion. A stored pointer
  is copied into the element and counted as a reference to what it points to.
\<close>

subsection \<open>Stored lists\<close>

datatype atag = TFloat | TSymbol | TPointer | TSemi | TComma | TDollar | TDollsym

text \<open>A pointer word addresses a pointer of the sender, or the copy in an element of this list.\<close>

datatype gpref = Ext nat | Own nat
datatype uword = WNone | WFloat fl | WSym string | WPtr gpref | WIndex int

record t_listelem =
  l_tag :: atag
  l_w :: uword
  l_p :: nat

type_synonym refs = "nat \<Rightarrow> int"

record t_alist =
  l_npointer :: nat
  l_vec :: "t_listelem list"

fun encode :: "t_atom \<Rightarrow> atag \<times> uword" where
  "encode (FLOAT f) = (TFloat, WFloat f)"
| "encode (SYMBOL s) = (TSymbol, WSym s)"
| "encode (POINTER gp) = (TPointer, WPtr (Ext gp))"
| "encode SEMI = (TSemi, WNone)"
| "encode COMMA = (TComma, WNone)"
| "encode (DOLLAR i) = (TDollar, WIndex i)"
| "encode (DOLLSYM s) = (TDollsym, WSym s)"

text \<open>What a pointer word points to.\<close>

definition deref_gp :: "t_listelem list \<Rightarrow> uword \<Rightarrow> nat cresult" where
  "deref_gp vec w = (case w of WPtr (Ext gp) \<Rightarrow> Inr gp
     | WPtr (Own i) \<Rightarrow> (if i < length vec then Inr (l_p (vec ! i)) else Inl OutOfBounds)
     | _ \<Rightarrow> Inl TypeConfusion)"

fun decode :: "t_listelem list \<Rightarrow> atag \<Rightarrow> uword \<Rightarrow> t_atom cresult" where
  "decode vec TFloat (WFloat f) = Inr (FLOAT f)"
| "decode vec TSymbol (WSym s) = Inr (SYMBOL s)"
| "decode vec TPointer w = cbind (deref_gp vec w) (\<lambda>gp. Inr (POINTER gp))"
| "decode vec TSemi w = Inr SEMI"
| "decode vec TComma w = Inr COMMA"
| "decode vec TDollar (WIndex i) = Inr (DOLLAR i)"
| "decode vec TDollsym (WSym s) = Inr (DOLLSYM s)"
| "decode vec tag w = Inl TypeConfusion"

definition gpointer_copy :: "nat \<Rightarrow> refs \<Rightarrow> refs" where
  "gpointer_copy gp r = r(gp := r gp + 1)"

definition gpointer_unset :: "nat \<Rightarrow> refs \<Rightarrow> refs" where
  "gpointer_unset gp r = r(gp := r gp - 1)"

definition alist_init :: t_alist where
  "alist_init = \<lparr>l_npointer = 0, l_vec = []\<rparr>"

fun clear_loop :: "t_listelem list \<Rightarrow> t_listelem list \<Rightarrow> refs \<Rightarrow> refs cresult" where
  "clear_loop vec [] r = Inr r"
| "clear_loop vec (e # es) r =
     (if l_tag e = TPointer then cbind (deref_gp vec (l_w e)) (\<lambda>gp. clear_loop vec es (gpointer_unset gp r))
      else clear_loop vec es r)"

definition alist_clear :: "t_alist \<Rightarrow> refs \<Rightarrow> refs cresult" where
  "alist_clear x r = clear_loop (l_vec x) (l_vec x) r"

fun store_loop :: "nat \<Rightarrow> t_atom list \<Rightarrow> t_alist \<Rightarrow> refs \<Rightarrow> t_alist \<times> refs" where
  "store_loop i [] x r = (x, r)"
| "store_loop i (a # as) x r = (case a of
      POINTER gp \<Rightarrow> store_loop (i + 1) as
        (x\<lparr>l_npointer := l_npointer x + 1, l_vec := l_vec x @ [\<lparr>l_tag = TPointer, l_w = WPtr (Own i), l_p = gp\<rparr>]\<rparr>)
        (gpointer_copy gp r)
    | _ \<Rightarrow> store_loop (i + 1) as
        (x\<lparr>l_vec := l_vec x @ [\<lparr>l_tag = fst (encode a), l_w = snd (encode a), l_p = 0\<rparr>]\<rparr>) r)"

definition alist_list :: "t_atom list \<Rightarrow> t_alist \<Rightarrow> refs \<Rightarrow> (t_alist \<times> refs) cresult" where
  "alist_list argv x r = cbind (alist_clear x r) (\<lambda>r1. Inr (store_loop 0 argv \<lparr>l_npointer = 0, l_vec = []\<rparr> r1))"

text \<open>In \<open>alist_anything\<close> the copy goes to element \<open>i+1\<close>, its address to element \<open>i\<close>.\<close>

fun any_loop :: "nat \<Rightarrow> t_atom list \<Rightarrow> t_alist \<Rightarrow> refs \<Rightarrow> t_alist \<times> refs" where
  "any_loop i [] x r = (x, r)"
| "any_loop i (a # as) x r = (case a of
      POINTER gp \<Rightarrow> any_loop (i + 1) as
        (x\<lparr>l_npointer := l_npointer x + 1,
           l_vec := ((l_vec x)[i := (l_vec x ! i)\<lparr>l_w := WPtr (Own i)\<rparr>]) @
             [\<lparr>l_tag = TPointer, l_w = WPtr (Ext gp), l_p = gp\<rparr>]\<rparr>)
        (gpointer_copy gp r)
    | _ \<Rightarrow> any_loop (i + 1) as
        (x\<lparr>l_vec := l_vec x @ [\<lparr>l_tag = fst (encode a), l_w = snd (encode a), l_p = 0\<rparr>]\<rparr>) r)"

definition alist_anything :: "string \<Rightarrow> t_atom list \<Rightarrow> t_alist \<Rightarrow> refs \<Rightarrow> (t_alist \<times> refs) cresult" where
  "alist_anything s argv x r = cbind (alist_clear x r) (\<lambda>r1.
     Inr (any_loop 0 argv \<lparr>l_npointer = 0, l_vec = [\<lparr>l_tag = TSymbol, l_w = WSym s, l_p = 0\<rparr>]\<rparr> r1))"

fun toatoms_loop :: "t_listelem list \<Rightarrow> t_listelem list \<Rightarrow> t_atom list cresult" where
  "toatoms_loop vec [] = Inr []"
| "toatoms_loop vec (e # es) =
     cbind (decode vec (l_tag e) (l_w e)) (\<lambda>a. cbind (toatoms_loop vec es) (\<lambda>as. Inr (a # as)))"

definition alist_toatoms :: "t_alist \<Rightarrow> t_atom list cresult" where
  "alist_toatoms x = toatoms_loop (l_vec x) (l_vec x)"

fun clone_loop :: "t_listelem list \<Rightarrow> nat \<Rightarrow> t_listelem list \<Rightarrow> refs \<Rightarrow> (t_listelem list \<times> refs) cresult" where
  "clone_loop vec i [] r = Inr ([], r)"
| "clone_loop vec i (e # es) r =
     (if l_tag e = TPointer then
        cbind (deref_gp vec (l_w e)) (\<lambda>gp. cbind (clone_loop vec (i + 1) es (gpointer_copy gp r)) (\<lambda>(fs, r').
          Inr (\<lparr>l_tag = TPointer, l_w = WPtr (Own i), l_p = gp\<rparr> # fs, r')))
      else cbind (clone_loop vec (i + 1) es r) (\<lambda>(fs, r'). Inr (e\<lparr>l_p := 0\<rparr> # fs, r')))"

definition alist_clone :: "t_alist \<Rightarrow> refs \<Rightarrow> (t_alist \<times> refs) cresult" where
  "alist_clone x r = cbind (clone_loop (l_vec x) 0 (l_vec x) r) (\<lambda>(fs, r').
     Inr (\<lparr>l_npointer = l_npointer x, l_vec = fs\<rparr>, r'))"

subsection \<open>append and prepend\<close>

text \<open>What append and prepend share: the stored atoms, by way of a clone if there are pointers
  among them, are combined with the incoming ones and sent; the clone is cleared afterwards.\<close>

definition with_stored :: "(t_atom list \<Rightarrow> t_atom list) \<Rightarrow> t_alist \<Rightarrow> refs \<Rightarrow> (message \<times> refs) cresult" where
  "with_stored combine x r =
     (if l_npointer x \<noteq> 0 then
        cbind (alist_clone x r) (\<lambda>(y, r1). cbind (alist_toatoms y) (\<lambda>as. cbind (alist_clear y r1) (\<lambda>r2.
          Inr (List ''list'' (combine as), r2))))
      else cbind (alist_toatoms x) (\<lambda>as. Inr (List ''list'' (combine as), r)))"

definition list_append_new :: "t_atom list \<Rightarrow> refs \<Rightarrow> (t_alist \<times> refs) cresult" where
  "list_append_new argv r = alist_list argv alist_init r"

definition list_append_list :: "t_atom list \<Rightarrow> t_alist \<Rightarrow> refs \<Rightarrow> (message \<times> refs) cresult" where
  "list_append_list argv x r = with_stored (\<lambda>as. argv @ as) x r"

definition list_append_anything :: "string \<Rightarrow> t_atom list \<Rightarrow> t_alist \<Rightarrow> refs \<Rightarrow> (message \<times> refs) cresult" where
  "list_append_anything s argv x r = with_stored (\<lambda>as. (SYMBOL s # argv) @ as) x r"

definition list_prepend_new :: "t_atom list \<Rightarrow> refs \<Rightarrow> (t_alist \<times> refs) cresult" where
  "list_prepend_new argv r = alist_list argv alist_init r"

definition list_prepend_list :: "t_atom list \<Rightarrow> t_alist \<Rightarrow> refs \<Rightarrow> (message \<times> refs) cresult" where
  "list_prepend_list argv x r = with_stored (\<lambda>as. as @ argv) x r"

definition list_prepend_anything :: "string \<Rightarrow> t_atom list \<Rightarrow> t_alist \<Rightarrow> refs \<Rightarrow> (message \<times> refs) cresult" where
  "list_prepend_anything s argv x r = with_stored (\<lambda>as. as @ SYMBOL s # argv) x r"

definition list_free :: "t_alist \<Rightarrow> refs \<Rightarrow> refs cresult" where
  "list_free x r = alist_clear x r"

subsection \<open>split, trim and length\<close>

text \<open>The messages sent, with the number of the outlet, in the order they are sent.\<close>

definition list_split_list :: "fl \<Rightarrow> t_atom list \<Rightarrow> (nat \<times> message) list" where
  "list_split_list x_f argv =
     (let n0 = int_of_fl x_f; n = (if n0 < 0 then 0 else n0) in
      if n \<le> int (length argv) then
        [(2, List ''list'' (drop (nat n) argv)), (1, List ''list'' (take (nat n) argv))]
      else [(3, List ''list'' argv)])"

definition list_split_anything :: "fl \<Rightarrow> string \<Rightarrow> t_atom list \<Rightarrow> (nat \<times> message) list" where
  "list_split_anything x_f s argv = list_split_list x_f (SYMBOL s # argv)"

definition list_trim_list :: "t_atom list \<Rightarrow> message" where
  "list_trim_list argv = (case argv of SYMBOL s # as \<Rightarrow> Anything s as | _ \<Rightarrow> List ''list'' argv)"

definition list_trim_anything :: "string \<Rightarrow> t_atom list \<Rightarrow> message" where
  "list_trim_anything s argv = Anything s argv"

definition list_length_list :: "t_atom list \<Rightarrow> message" where
  "list_length_list argv = Float (fl_of_int binary32 (int (length argv)))"

definition list_length_anything :: "string \<Rightarrow> t_atom list \<Rightarrow> message" where
  "list_length_anything s argv =
     Float (fadd binary32 (fl_of_int binary32 (int (length argv))) (Fin 1))"

subsection \<open>Creation\<close>

datatype list_object = ListAppend "t_atom list" | ListPrepend "t_atom list" | ListSplit fl | ListTrim | ListLength

definition list_new :: "t_atom list \<Rightarrow> list_object option" where
  "list_new argv = (case argv of
      SYMBOL s2 # as \<Rightarrow>
        if s2 = ''append'' then Some (ListAppend as)
        else if s2 = ''prepend'' then Some (ListPrepend as)
        else if s2 = ''split'' then Some (ListSplit (atom_getfloatarg 1 argv))
        else if s2 = ''trim'' then Some ListTrim
        else if s2 = ''length'' then Some ListLength
        else None
    | _ \<Rightarrow> Some (ListAppend argv))"

subsection \<open>A stored list stands for its atoms\<close>

definition elem_of :: "nat \<Rightarrow> t_atom \<Rightarrow> t_listelem" where
  "elem_of i a = (case a of POINTER gp \<Rightarrow> \<lparr>l_tag = TPointer, l_w = WPtr (Own i), l_p = gp\<rparr>
     | _ \<Rightarrow> \<lparr>l_tag = fst (encode a), l_w = snd (encode a), l_p = 0\<rparr>)"

fun elems :: "nat \<Rightarrow> t_atom list \<Rightarrow> t_listelem list" where
  "elems i [] = []"
| "elems i (a # as) = elem_of i a # elems (i + 1) as"

definition is_ptr :: "t_atom \<Rightarrow> bool" where
  "is_ptr a \<longleftrightarrow> (\<exists>gp. a = POINTER gp)"

definition alist_ok :: "t_alist \<Rightarrow> t_atom list \<Rightarrow> bool" where
  "alist_ok x as \<longleftrightarrow> l_vec x = elems 0 as \<and> l_npointer x = length (filter is_ptr as)"

text \<open>The references a list of atoms holds.\<close>

definition held :: "t_atom list \<Rightarrow> refs" where
  "held as gp = int (count_list as (POINTER gp))"

lemma elem_of_not_ptr: "\<not> is_ptr a \<Longrightarrow> elem_of i a = \<lparr>l_tag = fst (encode a), l_w = snd (encode a), l_p = 0\<rparr>"
  and not_ptr_tag: "\<not> is_ptr a \<Longrightarrow> fst (encode a) \<noteq> TPointer"
  and decode_encode: "\<not> is_ptr a \<Longrightarrow> decode vec (fst (encode a)) (snd (encode a)) = Inr a"
  by (auto simp: is_ptr_def elem_of_def split: t_atom.split) (cases a; auto)+

lemma elem_of_ptr [simp]: "elem_of i (POINTER gp) = \<lparr>l_tag = TPointer, l_w = WPtr (Own i), l_p = gp\<rparr>"
  by (simp add: elem_of_def)

lemma store_loop_elems:
  "store_loop i as x r = (x\<lparr>l_npointer := l_npointer x + length (filter is_ptr as), l_vec := l_vec x @ elems i as\<rparr>,
     \<lambda>gp. r gp + held as gp)"
proof (induction as arbitrary: i x r)
  case (Cons a as)
  show ?case
  proof (cases "is_ptr a")
    case True
    then obtain gp where "a = POINTER gp" by (auto simp: is_ptr_def)
    then show ?thesis by (auto simp: Cons.IH held_def gpointer_copy_def is_ptr_def fun_eq_iff)
  next
    case False
    then have "store_loop i (a # as) x r =
        store_loop (i + 1) as (x\<lparr>l_vec := l_vec x @ [elem_of i a]\<rparr>) r"
      by (auto simp: is_ptr_def elem_of_def split: t_atom.split)
    moreover have "held (a # as) = held as" using False by (auto simp: held_def is_ptr_def fun_eq_iff)
    ultimately show ?thesis using False by (simp add: Cons.IH)
  qed
qed (simp add: held_def)

text \<open>The loops over a stored list, from any position on.\<close>

lemma held_pointer:
  "(\<lambda>g. gpointer_unset gp r g - held as g) = (\<lambda>g. r g - held (POINTER gp # as) g)"
  "(\<lambda>g. gpointer_copy gp r g + held as g) = (\<lambda>g. r g + held (POINTER gp # as) g)"
  by (auto simp: gpointer_unset_def gpointer_copy_def held_def fun_eq_iff)

lemma elems_position:
  assumes "vec = pre @ elems (length pre) (a # as)"
  shows "length pre < length vec" "vec ! length pre = elem_of (length pre) a"
    "vec = (pre @ [elem_of (length pre) a]) @ elems (length (pre @ [elem_of (length pre) a])) as"
  using assms by (simp_all add: nth_append)

lemma toatoms_elems:
  "vec = pre @ elems (length pre) as \<Longrightarrow> toatoms_loop vec (elems (length pre) as) = Inr as"
proof (induction as arbitrary: pre)
  case (Cons a as)
  note pos = elems_position [OF Cons.prems]
  show ?case
  proof (cases "is_ptr a")
    case True
    then obtain gp where a: "a = POINTER gp" by (auto simp: is_ptr_def)
    then have "deref_gp vec (WPtr (Own (length pre))) = Inr gp" using pos(1,2) by (simp add: deref_gp_def)
    then show ?thesis using Cons.IH [OF pos(3)] by (simp add: a)
  next
    case False
    then show ?thesis using Cons.IH [OF pos(3)] by (simp add: elem_of_not_ptr decode_encode)
  qed
qed simp

lemma clear_elems:
  "vec = pre @ elems (length pre) as \<Longrightarrow> clear_loop vec (elems (length pre) as) r = Inr (\<lambda>gp. r gp - held as gp)"
proof (induction as arbitrary: pre r)
  case (Cons a as)
  note pos = elems_position [OF Cons.prems]
  show ?case
  proof (cases "is_ptr a")
    case True
    then obtain gp where a: "a = POINTER gp" by (auto simp: is_ptr_def)
    then have "deref_gp vec (WPtr (Own (length pre))) = Inr gp" using pos(1,2) by (simp add: deref_gp_def)
    then show ?thesis
      using Cons.IH [OF pos(3), of "gpointer_unset gp r"] by (simp add: a held_pointer)
  next
    case False
    then have "held (a # as) = held as" by (auto simp: held_def is_ptr_def fun_eq_iff)
    then show ?thesis using False Cons.IH [OF pos(3), of r] by (simp add: elem_of_not_ptr not_ptr_tag)
  qed
qed (simp add: held_def)

lemma clone_elems:
  "vec = pre @ elems (length pre) as \<Longrightarrow>
   clone_loop vec (length pre) (elems (length pre) as) r = Inr (elems (length pre) as, \<lambda>gp. r gp + held as gp)"
proof (induction as arbitrary: pre r)
  case (Cons a as)
  note pos = elems_position [OF Cons.prems]
  show ?case
  proof (cases "is_ptr a")
    case True
    then obtain gp where a: "a = POINTER gp" by (auto simp: is_ptr_def)
    then have "deref_gp vec (WPtr (Own (length pre))) = Inr gp" using pos(1,2) by (simp add: deref_gp_def)
    then show ?thesis
      using Cons.IH [OF pos(3), of "gpointer_copy gp r"] by (simp add: a held_pointer)
  next
    case False
    then have "held (a # as) = held as" by (auto simp: held_def is_ptr_def fun_eq_iff)
    then show ?thesis using False Cons.IH [OF pos(3), of r] by (simp add: elem_of_not_ptr not_ptr_tag)
  qed
qed (simp add: held_def)

lemmas whole = toatoms_elems [of _ "[]", simplified] clear_elems [of _ "[]", simplified] clone_elems [of _ "[]", simplified]

lemma with_stored_ok:
  assumes "alist_ok x as"
  shows "with_stored combine x r = Inr (List ''list'' (combine as), r)"
  using assms by (simp add: with_stored_def alist_ok_def alist_clone_def alist_toatoms_def alist_clear_def whole)

lemma alist_list_ok:
  assumes "alist_ok x as"
  shows "\<exists>y. alist_list bs x r = Inr (y, \<lambda>gp. r gp - held as gp + held bs gp) \<and> alist_ok y bs"
  using assms by (simp add: alist_list_def alist_clear_def alist_ok_def whole store_loop_elems)

text \<open>\<^bold>\<open>C32\<close>: A list that is stored through the right inlet of append or prepend replaces the
  stored one; a list that comes in is sent with the stored one behind it (append) or in front of
  it (prepend), and a message with another selector counts as the list that starts with the
  selector. No pointer is read that the object does not hold, sending leaves every reference
  count as it was, and storing releases the references of the old list and takes those of the new
  one.\<close>

theorem append_prepend_correct:
  assumes "alist_ok x as"
  shows "(\<exists>y. alist_list bs x r = Inr (y, \<lambda>gp. r gp - held as gp + held bs gp) \<and> alist_ok y bs) \<and>
    list_append_list argv x r = Inr (List ''list'' (argv @ as), r) \<and>
    list_append_anything s argv x r = Inr (List ''list'' (SYMBOL s # argv @ as), r) \<and>
    list_prepend_list argv x r = Inr (List ''list'' (as @ argv), r) \<and>
    list_prepend_anything s argv x r = Inr (List ''list'' (as @ SYMBOL s # argv), r)"
  using alist_list_ok [OF assms] with_stored_ok [OF assms]
  by (simp add: list_append_list_def list_append_anything_def list_prepend_list_def list_prepend_anything_def)

lemma alist_init_ok: "alist_ok alist_init []"
  by (simp add: alist_ok_def alist_init_def)

theorem append_prepend_correct_witness:
  "\<exists>y. alist_list [POINTER 4, FLOAT (Fin 1)] alist_init (\<lambda>_. 0) = Inr (y, \<lambda>gp. held [POINTER 4, FLOAT (Fin 1)] gp) \<and>
    list_append_list [SYMBOL ''a''] y (\<lambda>_. 0) = Inr (List ''list'' [SYMBOL ''a'', POINTER 4, FLOAT (Fin 1)], \<lambda>_. 0)"
proof -
  obtain y where y: "alist_list [POINTER 4, FLOAT (Fin 1)] alist_init (\<lambda>_. 0) = Inr (y, \<lambda>gp. held [POINTER 4, FLOAT (Fin 1)] gp)"
    "alist_ok y [POINTER 4, FLOAT (Fin 1)]"
    using append_prepend_correct [OF alist_init_ok, of "[POINTER 4, FLOAT (Fin 1)]" "\<lambda>_. 0"] by (auto simp: held_def)
  then show ?thesis using append_prepend_correct [OF y(2), of "[]" "\<lambda>_. 0" "[SYMBOL ''a'']"] by auto
qed

text \<open>Splitting a list at any point and appending the second part to the first gives the
  list back, pointers included: the order in which split sends its parts, the second first, is the
  order append needs.\<close>

theorem split_then_append:
  assumes "list_split_list f argv = [(2, List ''list'' bs), (1, List ''list'' as)]" "alist_ok x cs"
  shows "\<exists>y r'. alist_list bs x r = Inr (y, r') \<and> list_append_list as y r' = Inr (List ''list'' argv, r')"
proof -
  have "argv = as @ bs" using assms(1) by (auto simp: list_split_list_def Let_def split: if_splits)
  then show ?thesis
    using alist_list_ok [OF assms(2), of bs r] with_stored_ok by (fastforce simp: list_append_list_def)
qed

theorem split_then_append_witness:
  "\<exists>y r'. alist_list [FLOAT (Fin 2), SYMBOL ''c''] alist_init (\<lambda>_. 0) = Inr (y, r') \<and>
    list_append_list [FLOAT (Fin 1)] y r' = Inr (List ''list'' [FLOAT (Fin 1), FLOAT (Fin 2), SYMBOL ''c''], r')"
  by (rule split_then_append [of "Fin 1", OF _ alist_init_ok]) (simp add: list_split_list_def rat_trunc_def Let_def)

lemma any_loop_head:
  "l_vec x = e # es \<Longrightarrow> \<exists>fs. l_vec (fst (any_loop (Suc i) as x r)) = e # fs"
proof (induction as arbitrary: i x r es)
  case (Cons a as)
  show ?case
  proof (cases a)
    case (POINTER gp)
    then show ?thesis using Cons.prems by (simp, intro Cons.IH) simp
  qed (use Cons.prems in \<open>simp, intro Cons.IH, simp\<close>)+
qed simp

lemma any_loop_no_pointers:
  "filter is_ptr as = [] \<Longrightarrow> any_loop i as x r = (x\<lparr>l_vec := l_vec x @ elems (Suc i) as\<rparr>, r)"
proof (induction as arbitrary: i x r)
  case (Cons a as)
  then have "\<not> is_ptr a" "filter is_ptr as = []" by (auto split: if_splits)
  moreover from this have "any_loop i (a # as) x r = any_loop (i + 1) as (x\<lparr>l_vec := l_vec x @ [elem_of (Suc i) a]\<rparr>) r"
    by (auto simp: is_ptr_def elem_of_def split: t_atom.split)
  ultimately show ?case by (simp add: Cons.IH)
qed simp

text \<open>\<^bold>\<open>C33\<close>: A message whose first argument is a pointer, stored through the right inlet of append
  or prepend, overwrites the word of the selector: the stored list then starts with a symbol atom
  whose word is a pointer. Without pointers the message is stored as it should be.\<close>

theorem alist_anything_corrupts:
  assumes "alist_ok x cs"
  shows "(\<exists>y r'. alist_anything s (POINTER gp # as) x r = Inr (y, r') \<and> alist_toatoms y = Inl TypeConfusion) \<and>
    (filter is_ptr as = [] \<longrightarrow> (\<exists>y r'. alist_anything s as x r = Inr (y, r') \<and> alist_ok y (SYMBOL s # as)))"
proof -
  let ?y0 = "\<lparr>l_npointer = 0, l_vec = [\<lparr>l_tag = TSymbol, l_w = WSym s, l_p = 0\<rparr>]\<rparr>"
  obtain r1 where clear: "alist_clear x r = Inr r1" using assms by (simp add: alist_clear_def alist_ok_def whole)
  obtain y r' where y: "any_loop 0 (POINTER gp # as) ?y0 r1 = (y, r')" by force
  then have "\<exists>fs. l_vec y = \<lparr>l_tag = TSymbol, l_w = WPtr (Own 0), l_p = 0\<rparr> # fs"
    using any_loop_head [of "?y0\<lparr>l_npointer := 1, l_vec := [\<lparr>l_tag = TSymbol, l_w = WPtr (Own 0), l_p = 0\<rparr>,
      \<lparr>l_tag = TPointer, l_w = WPtr (Ext gp), l_p = gp\<rparr>]\<rparr>" _ _ 0 as "gpointer_copy gp r1"] by (simp add: eq_fst_iff)
  then have "alist_toatoms y = Inl TypeConfusion" by (auto simp: alist_toatoms_def)
  moreover have "alist_anything s (POINTER gp # as) x r = Inr (y, r')" using clear y by (simp add: alist_anything_def)
  moreover have "\<exists>y r'. alist_anything s as x r = Inr (y, r') \<and> alist_ok y (SYMBOL s # as)" if "filter is_ptr as = []"
    using that clear by (simp add: alist_anything_def any_loop_no_pointers alist_ok_def is_ptr_def elem_of_def)
  ultimately show ?thesis by blast
qed

theorem alist_anything_corrupts_witness:
  "\<exists>y r'. alist_anything ''set'' [POINTER 3] alist_init (\<lambda>_. 0) = Inr (y, r') \<and> alist_toatoms y = Inl TypeConfusion"
  using alist_anything_corrupts [OF alist_init_ok] by blast

end
