(* ===== verification/Dispatch.thy ===== *)
theory Dispatch
  imports Objects
begin

text \<open>
  Classes and message dispatch (\<open>m_class.c\<close>). A class is a record of its methods; a method is
  the number of a C function. Dispatching computes the call it makes: the function and the
  arguments it gets, or the complaint. The methods of a slot that was never set are the
  default methods of the code (\<open>pd_defaultbang\<close> and so on).
\<close>

subsection \<open>Classes\<close>

datatype t_atomtype = A_FLOAT | A_SYMBOL | A_POINTER | A_DEFFLOAT | A_DEFSYM | A_GIMME | A_CANT

record t_methodentry =
  me_name :: string
  me_fun :: nat
  me_arg :: "t_atomtype list"

record t_class =
  c_name :: string
  c_methods :: "t_methodentry list"
  c_bangmethod :: "nat option"
  c_pointermethod :: "nat option"
  c_floatmethod :: "nat option"
  c_symbolmethod :: "nat option"
  c_listmethod :: "nat option"
  c_anymethod :: "nat option"
  c_patchable :: bool
  cl_firstin :: bool
  cl_floatsignalin :: int

definition MAXPDARG :: nat where "MAXPDARG = 5"

text \<open>A call: a method slot with its fixed arguments, a method that takes the whole message
  (\<open>A_GIMME\<close>), a method with typed arguments (its integer and pointer arguments, and its
  floating arguments), distribution of a list to the inlets, or an error.\<close>

datatype iarg = Self | PtrArg nat | SymArg string

datatype mcall =
    CallBang nat
  | CallPointer nat nat
  | CallFloat nat fl
  | CallSymbol nat string
  | CallList nat "string option" "t_atom list"
  | CallAny nat string "t_atom list"
  | CallGimme nat string "t_atom list"
  | CallArgs nat "iarg list" "fl list"
  | ToObjList "t_atom list"
  | NoMethod string
  | BadArgs string

subsection \<open>Default methods\<close>

definition call_any :: "t_class \<Rightarrow> string \<Rightarrow> t_atom list \<Rightarrow> mcall" where
  "call_any c s argv = (case c_anymethod c of Some f \<Rightarrow> CallAny f s argv | None \<Rightarrow> NoMethod s)"

definition pd_defaultbang :: "t_class \<Rightarrow> mcall" where
  "pd_defaultbang c = (case c_listmethod c of Some f \<Rightarrow> CallList f None [] | None \<Rightarrow> call_any c ''bang'' [])"

definition pd_defaultpointer :: "t_class \<Rightarrow> nat \<Rightarrow> mcall" where
  "pd_defaultpointer c gp = (case c_listmethod c of Some f \<Rightarrow> CallList f None [POINTER gp]
     | None \<Rightarrow> call_any c ''pointer'' [POINTER gp])"

definition pd_defaultfloat :: "t_class \<Rightarrow> fl \<Rightarrow> mcall" where
  "pd_defaultfloat c f = (case c_listmethod c of Some g \<Rightarrow> CallList g None [FLOAT f]
     | None \<Rightarrow> call_any c ''float'' [FLOAT f])"

definition pd_defaultsymbol :: "t_class \<Rightarrow> string \<Rightarrow> mcall" where
  "pd_defaultsymbol c s = (case c_listmethod c of Some f \<Rightarrow> CallList f None [SYMBOL s]
     | None \<Rightarrow> call_any c ''symbol'' [SYMBOL s])"

definition give_up :: "t_class \<Rightarrow> t_atom list \<Rightarrow> mcall" where
  "give_up c argv = (if c_anymethod c \<noteq> None then call_any c ''list'' argv
     else if c_patchable c then ToObjList argv else NoMethod ''list'')"

definition pd_defaultlist :: "t_class \<Rightarrow> t_atom list \<Rightarrow> mcall" where
  "pd_defaultlist c argv = (case (argv, c_bangmethod c) of
      ([], Some f) \<Rightarrow> CallBang f
    | _ \<Rightarrow> (case (argv, c_floatmethod c, c_symbolmethod c, c_pointermethod c) of
        ([FLOAT x], Some f, _, _) \<Rightarrow> CallFloat f x
      | ([SYMBOL s], _, Some f, _) \<Rightarrow> CallSymbol f s
      | ([POINTER gp], _, _, Some f) \<Rightarrow> CallPointer f gp
      | _ \<Rightarrow> give_up c argv))"

subsection \<open>Sending to an object\<close>

definition pd_bang :: "t_class \<Rightarrow> mcall" where
  "pd_bang c = (case c_bangmethod c of Some f \<Rightarrow> CallBang f | None \<Rightarrow> pd_defaultbang c)"

definition pd_float :: "t_class \<Rightarrow> fl \<Rightarrow> mcall" where
  "pd_float c x = (case c_floatmethod c of Some f \<Rightarrow> CallFloat f x | None \<Rightarrow> pd_defaultfloat c x)"

definition pd_pointer :: "t_class \<Rightarrow> nat \<Rightarrow> mcall" where
  "pd_pointer c gp = (case c_pointermethod c of Some f \<Rightarrow> CallPointer f gp | None \<Rightarrow> pd_defaultpointer c gp)"

definition pd_symbol :: "t_class \<Rightarrow> string \<Rightarrow> mcall" where
  "pd_symbol c s = (case c_symbolmethod c of Some f \<Rightarrow> CallSymbol f s | None \<Rightarrow> pd_defaultsymbol c s)"

definition pd_list :: "t_class \<Rightarrow> t_atom list \<Rightarrow> mcall" where
  "pd_list c argv = (case c_listmethod c of Some f \<Rightarrow> CallList f (Some ''list'') argv | None \<Rightarrow> pd_defaultlist c argv)"

subsection \<open>Building a class\<close>

definition class_new :: "string \<Rightarrow> bool \<Rightarrow> bool \<Rightarrow> t_class" where
  "class_new s noinlet patchable =
     \<lparr>c_name = s, c_methods = [], c_bangmethod = None, c_pointermethod = None, c_floatmethod = None,
      c_symbolmethod = None, c_listmethod = None, c_anymethod = None, c_patchable = patchable,
      cl_firstin = (\<not> noinlet), cl_floatsignalin = 0\<rparr>"

text \<open>\<open>snprintf(nbuf, 80, "%s_aliased", sel->s_name)\<close>\<close>

definition aliased :: "string \<Rightarrow> string" where
  "aliased sel = take 79 (sel @ ''_aliased'')"

definition add_entry :: "nat \<Rightarrow> string \<Rightarrow> t_atomtype list \<Rightarrow> t_class \<Rightarrow> t_class" where
  "add_entry fn sel args c = c\<lparr>c_methods :=
     map (\<lambda>m. if me_name m = sel then m\<lparr>me_name := aliased sel\<rparr> else m) (c_methods c) @
     [\<lparr>me_name = sel, me_fun = fn, me_arg = take MAXPDARG args\<rparr>]\<rparr>"

text \<open>\<open>class_addmethod\<close>; the second result is False if it reports bad argument types.\<close>

definition class_addmethod :: "nat \<Rightarrow> string \<Rightarrow> t_atomtype list \<Rightarrow> t_class \<Rightarrow> t_class \<times> bool" where
  "class_addmethod fn sel args c0 =
     (let c = (if sel = ''signal'' then c0\<lparr>cl_floatsignalin := -1\<rparr> else c0) in
      if sel = ''bang'' then (if args \<noteq> [] then (c, False) else (c\<lparr>c_bangmethod := Some fn\<rparr>, True))
      else if sel = ''float'' then (if args \<noteq> [A_FLOAT] then (c, False) else (c\<lparr>c_floatmethod := Some fn\<rparr>, True))
      else if sel = ''symbol'' then (if args \<noteq> [A_SYMBOL] then (c, False) else (c\<lparr>c_symbolmethod := Some fn\<rparr>, True))
      else if sel = ''list'' then
        (if args = [] \<or> hd args \<noteq> A_GIMME then (c, False) else (c\<lparr>c_listmethod := Some fn\<rparr>, True))
      else if sel = ''anything'' then
        (if args = [] \<or> hd args \<noteq> A_GIMME then (c, False) else (c\<lparr>c_anymethod := Some fn\<rparr>, True))
      else (add_entry fn sel args c, True))"

definition class_domainsignalin :: "nat \<Rightarrow> int \<Rightarrow> t_class \<Rightarrow> t_class" where
  "class_domainsignalin floatforsignal onset c =
     (if onset \<le> 0 then c\<lparr>cl_floatsignalin := -1\<rparr>
      else c\<lparr>c_floatmethod := Some floatforsignal, cl_floatsignalin := onset\<rparr>)"

subsection \<open>Typed messages\<close>

text \<open>
  The loop of \<open>pd_typedmess\<close> over the declared argument types: the arguments go to the array of
  integer-sized values or to the array of floats. \<open>maker\<close> tells whether the receiver is the
  object maker, whose symbol arguments may be the number zero.
\<close>

fun typed_loop :: "bool \<Rightarrow> t_atomtype list \<Rightarrow> t_atom list \<Rightarrow> (iarg list \<times> fl list) option" where
  "typed_loop maker [] argv = Some ([], [])"
| "typed_loop maker (A_POINTER # ws) argv = (case argv of
      POINTER gp # as \<Rightarrow> map_option (\<lambda>(is, fs). (PtrArg gp # is, fs)) (typed_loop maker ws as)
    | _ \<Rightarrow> None)"
| "typed_loop maker (A_FLOAT # ws) argv = (case argv of
      FLOAT f # as \<Rightarrow> map_option (\<lambda>(is, fs). (is, f # fs)) (typed_loop maker ws as)
    | _ \<Rightarrow> None)"
| "typed_loop maker (A_DEFFLOAT # ws) argv = (case argv of
      [] \<Rightarrow> map_option (\<lambda>(is, fs). (is, Fin 0 # fs)) (typed_loop maker ws [])
    | FLOAT f # as \<Rightarrow> map_option (\<lambda>(is, fs). (is, f # fs)) (typed_loop maker ws as)
    | _ \<Rightarrow> None)"
| "typed_loop maker (A_SYMBOL # ws) argv = (case argv of
      SYMBOL s # as \<Rightarrow> map_option (\<lambda>(is, fs). (SymArg s # is, fs)) (typed_loop maker ws as)
    | FLOAT f # as \<Rightarrow> if maker \<and> fzero f
        then map_option (\<lambda>(is, fs). (SymArg [] # is, fs)) (typed_loop maker ws as) else None
    | _ \<Rightarrow> None)"
| "typed_loop maker (A_DEFSYM # ws) argv = (case argv of
      [] \<Rightarrow> map_option (\<lambda>(is, fs). (SymArg [] # is, fs)) (typed_loop maker ws [])
    | SYMBOL s # as \<Rightarrow> map_option (\<lambda>(is, fs). (SymArg s # is, fs)) (typed_loop maker ws as)
    | FLOAT f # as \<Rightarrow> if maker \<and> fzero f
        then map_option (\<lambda>(is, fs). (SymArg [] # is, fs)) (typed_loop maker ws as) else None
    | _ \<Rightarrow> None)"
| "typed_loop maker (A_GIMME # ws) argv = typed_loop maker ws argv"
| "typed_loop maker (A_CANT # ws) argv = typed_loop maker ws argv"

definition find_method :: "t_class \<Rightarrow> string \<Rightarrow> t_methodentry option" where
  "find_method c s = find (\<lambda>m. me_name m = s) (c_methods c)"

definition call_method :: "bool \<Rightarrow> t_methodentry \<Rightarrow> string \<Rightarrow> t_atom list \<Rightarrow> mcall" where
  "call_method maker m s argv =
     (if me_arg m \<noteq> [] \<and> hd (me_arg m) = A_GIMME then CallGimme (me_fun m) s argv
      else (case typed_loop maker (me_arg m) (take MAXPDARG argv) of
          None \<Rightarrow> BadArgs s
        | Some (is, fs) \<Rightarrow> CallArgs (me_fun m) (if maker then is else Self # is) fs))"

definition pd_typedmess :: "bool \<Rightarrow> t_class \<Rightarrow> string \<Rightarrow> t_atom list \<Rightarrow> mcall" where
  "pd_typedmess maker c s argv =
     (if s = ''float'' then (case argv of [] \<Rightarrow> pd_float c (Fin 0) | FLOAT f # as \<Rightarrow> pd_float c f | _ \<Rightarrow> BadArgs s)
      else if s = ''bang'' then pd_bang c
      else if s = ''list'' then pd_list c argv
      else if s = ''symbol'' then (case argv of SYMBOL t # as \<Rightarrow> pd_symbol c t | _ \<Rightarrow> pd_symbol c [])
      else (case find_method c s of
          Some m \<Rightarrow> call_method maker m s argv
        | None \<Rightarrow> call_any c s argv))"

text \<open>\<open>pd_vmess\<close>: the arguments are given with a format, and at most ten are taken.\<close>

datatype vmarg = VF fl | VS string | VI int | VP nat

fun vmess_arg :: "vmarg \<Rightarrow> t_atom" where
  "vmess_arg (VF d) = FLOAT (fl_convert binary32 d)"
| "vmess_arg (VS s) = SYMBOL s"
| "vmess_arg (VI i) = FLOAT (fl_of_int binary32 i)"
| "vmess_arg (VP gp) = POINTER gp"

definition pd_vmess :: "bool \<Rightarrow> t_class \<Rightarrow> string \<Rightarrow> vmarg list \<Rightarrow> mcall" where
  "pd_vmess maker c sel args = pd_typedmess maker c sel (map vmess_arg (take 10 args))"

definition pd_forwardmess :: "bool \<Rightarrow> t_class \<Rightarrow> t_atom list \<Rightarrow> mcall option" where
  "pd_forwardmess maker c argv = (case argv of
      [] \<Rightarrow> None
    | SYMBOL s # as \<Rightarrow> Some (pd_typedmess maker c s as)
    | POINTER gp # as \<Rightarrow> Some (if as = [] then pd_pointer c gp else pd_list c argv)
    | FLOAT f # as \<Rightarrow> Some (if as = [] then pd_float c f else pd_list c argv)
    | _ \<Rightarrow> None)"

definition getfn :: "t_class \<Rightarrow> string \<Rightarrow> nat option" where
  "getfn c s = map_option me_fun (find_method c s)"

subsection \<open>Arguments fit\<close>

definition is_float_type :: "t_atomtype \<Rightarrow> bool" where
  "is_float_type w \<longleftrightarrow> w = A_FLOAT \<or> w = A_DEFFLOAT"

definition is_int_type :: "t_atomtype \<Rightarrow> bool" where
  "is_int_type w \<longleftrightarrow> w = A_POINTER \<or> w = A_SYMBOL \<or> w = A_DEFSYM"

lemmas type_defs = is_float_type_def is_int_type_def

lemma typed_loop_arity:
  "typed_loop maker ws argv = Some (is, fs) \<Longrightarrow>
   length is = length (filter is_int_type ws) \<and> length fs = length (filter is_float_type ws)"
  by (induction maker ws argv arbitrary: "is" fs rule: typed_loop.induct)
    (auto simp: type_defs split: list.splits t_atom.splits if_splits)

definition class_ok :: "t_class \<Rightarrow> bool" where
  "class_ok c \<longleftrightarrow> (\<forall>m \<in> set (c_methods c). length (me_arg m) \<le> MAXPDARG)"

lemma class_ok_addmethod: "class_ok c \<Longrightarrow> class_ok (fst (class_addmethod fn sel args c))"
  by (auto simp: class_ok_def class_addmethod_def add_entry_def Let_def)

lemma class_ok_new: "class_ok (class_new s noinlet patchable)"
  by (simp add: class_ok_def class_new_def)

text \<open>Only typed methods of the table are called with typed arguments.\<close>

lemma slot_calls_not_typed:
  "pd_float c x \<noteq> CallArgs f is fs" "pd_bang c \<noteq> CallArgs f is fs" "pd_symbol c t \<noteq> CallArgs f is fs"
  "pd_list c argv \<noteq> CallArgs f is fs" "call_any c t argv \<noteq> CallArgs f is fs"
  by (auto simp: pd_float_def pd_defaultfloat_def pd_bang_def pd_defaultbang_def pd_symbol_def pd_defaultsymbol_def
      pd_list_def pd_defaultlist_def give_up_def call_any_def split: option.splits list.splits t_atom.splits)

lemma typedmess_CallArgs:
  assumes "pd_typedmess maker c s argv = CallArgs f is fs"
  obtains m js where "m \<in> set (c_methods c)" "me_name m = s" "me_fun m = f"
    "typed_loop maker (me_arg m) (take MAXPDARG argv) = Some (js, fs)" "is = (if maker then js else Self # js)"
proof -
  obtain m where "find_method c s = Some m" "call_method maker m s argv = CallArgs f is fs"
    using assms by (auto simp: pd_typedmess_def slot_calls_not_typed split: if_splits list.splits t_atom.splits option.splits)
  moreover from this have "m \<in> set (c_methods c)" "me_name m = s"
    by (auto simp: find_method_def find_Some_iff)
  ultimately show thesis
    using that by (auto simp: call_method_def split: if_splits option.splits)
qed

text \<open>\<^bold>\<open>C25\<close>: When \<open>pd_typedmess\<close> calls a method with typed arguments, the method is one the class has
  under this selector, it gets exactly as many pointer-sized and as many float arguments as it
  declared (plus the object itself, unless the receiver is the object maker), and they fit the
  two argument arrays, whatever the length of the message.\<close>

theorem typedmess_arity:
  assumes "class_ok c" "pd_typedmess maker c s argv = CallArgs f is fs"
  shows "length is \<le> MAXPDARG + 1 \<and> length fs \<le> MAXPDARG + 1 \<and>
    (\<exists>m \<in> set (c_methods c). me_name m = s \<and> me_fun m = f \<and>
      length is = length (filter is_int_type (me_arg m)) + (if maker then 0 else 1) \<and>
      length fs = length (filter is_float_type (me_arg m)))"
proof -
  obtain m js where m: "m \<in> set (c_methods c)" "me_name m = s" "me_fun m = f"
    "typed_loop maker (me_arg m) (take MAXPDARG argv) = Some (js, fs)" "is = (if maker then js else Self # js)"
    using typedmess_CallArgs [OF assms(2)] .
  have len: "length (me_arg m) \<le> MAXPDARG" using assms(1) m(1) by (simp add: class_ok_def)
  have "length (filter is_int_type (me_arg m)) \<le> MAXPDARG" "length (filter is_float_type (me_arg m)) \<le> MAXPDARG"
    by (rule le_trans [OF length_filter_le len])+
  then show ?thesis using m typed_loop_arity [OF m(4)] by auto
qed

definition demo_class :: t_class where
  "demo_class = fst (class_addmethod 7 ''ramp'' [A_SYMBOL, A_FLOAT, A_DEFFLOAT]
     (fst (class_addmethod 5 ''float'' [A_FLOAT] (class_new ''demo'' False True))))"

lemma demo_class_ok: "class_ok demo_class"
  unfolding demo_class_def by (intro class_ok_addmethod class_ok_new)

theorem typedmess_arity_witness:
  "pd_typedmess False demo_class ''ramp'' [SYMBOL ''up'', FLOAT (Fin 3)] = CallArgs 7 [Self, SymArg ''up''] [Fin 3, Fin 0] \<and>
   length [Self, SymArg ''up''] \<le> MAXPDARG + 1 \<and> length [Fin 3, Fin 0] \<le> MAXPDARG + 1"
proof -
  have "pd_typedmess False demo_class ''ramp'' [SYMBOL ''up'', FLOAT (Fin 3)] = CallArgs 7 [Self, SymArg ''up''] [Fin 3, Fin 0]"
    by (simp add: demo_class_def class_addmethod_def class_new_def add_entry_def pd_typedmess_def find_method_def
        call_method_def MAXPDARG_def)
  with typedmess_arity [OF demo_class_ok this] show ?thesis by blast
qed

subsection \<open>Lists of one element\<close>

text \<open>For a class without a list method, a list of one number, symbol or pointer, and the
  empty list, do the same as the plain message, by whichever way it is sent, if the class has a
  method for that message.\<close>

theorem short_list_is_plain_message:
  assumes "c_listmethod c = None"
  shows "(c_floatmethod c \<noteq> None \<longrightarrow> pd_list c [FLOAT f] = pd_float c f \<and>
      pd_typedmess maker c ''float'' [FLOAT f] = pd_float c f \<and> pd_forwardmess maker c [FLOAT f] = Some (pd_float c f)) \<and>
    (c_symbolmethod c \<noteq> None \<longrightarrow> pd_list c [SYMBOL s] = pd_symbol c s \<and>
      pd_typedmess maker c ''symbol'' [SYMBOL s] = pd_symbol c s) \<and>
    (c_pointermethod c \<noteq> None \<longrightarrow> pd_list c [POINTER gp] = pd_pointer c gp \<and>
      pd_forwardmess maker c [POINTER gp] = Some (pd_pointer c gp)) \<and>
    (c_bangmethod c \<noteq> None \<longrightarrow> pd_list c [] = pd_bang c \<and> pd_typedmess maker c ''bang'' as = pd_bang c)"
  using assms
  by (auto simp: pd_list_def pd_defaultlist_def pd_float_def pd_symbol_def pd_pointer_def pd_bang_def
      pd_typedmess_def pd_forwardmess_def split: option.splits)

theorem short_list_is_plain_message_witness: "pd_list demo_class [FLOAT (Fin 2)] = pd_float demo_class (Fin 2)"
  using short_list_is_plain_message [of demo_class]
  by (simp add: demo_class_def class_addmethod_def class_new_def add_entry_def)

subsection \<open>Redefinition\<close>

lemma find_append: "find P (xs @ ys) = (case find P xs of None \<Rightarrow> find P ys | Some x \<Rightarrow> Some x)"
  by (induction xs) auto

lemma find_rename:
  "t \<noteq> sel \<Longrightarrow> t \<noteq> a \<Longrightarrow> find (\<lambda>m. me_name m = t) (map (\<lambda>m. if me_name m = sel then m\<lparr>me_name := a\<rparr> else m) ms) =
     find (\<lambda>m. me_name m = t) ms"
  by (induction ms) auto

lemma find_old_gone:
  "a \<noteq> sel \<Longrightarrow> find (\<lambda>m. me_name m = sel) (map (\<lambda>m. if me_name m = sel then m\<lparr>me_name := a\<rparr> else m) ms) = None"
  by (induction ms) auto

lemma find_renamed:
  "find (\<lambda>m. me_name m = a) ms = None \<Longrightarrow> a \<noteq> sel \<Longrightarrow>
   find (\<lambda>m. me_name m = a) (map (\<lambda>m. if me_name m = sel then m\<lparr>me_name := a\<rparr> else m) ms) =
     map_option (\<lambda>m. m\<lparr>me_name := a\<rparr>) (find (\<lambda>m. me_name m = sel) ms)"
  by (induction ms) (auto split: if_splits)

lemma aliased_eq_iff: "aliased sel = sel \<longleftrightarrow> length sel = 79"
proof
  assume "aliased sel = sel"
  then have "length (take 79 (sel @ ''_aliased'')) = length sel" by (simp add: aliased_def)
  then show "length sel = 79" by (simp add: min_def split: if_splits)
qed (simp add: aliased_def)

definition plain_selector :: "string \<Rightarrow> bool" where
  "plain_selector s \<longleftrightarrow> s \<notin> {''bang'', ''float'', ''symbol'', ''list'', ''anything'', ''signal''}"

text \<open>Adding a method under a selector that is already taken makes the new method the one
  that is found; the old one moves to the selector with \<open>_aliased\<close> appended, and every other
  selector finds what it found before. The selector must not be 79 characters long.\<close>

theorem addmethod_overrides:
  fixes c :: t_class and fn :: nat and args :: "t_atomtype list"
  assumes "plain_selector sel" "length sel \<noteq> 79"
  defines "c' \<equiv> fst (class_addmethod fn sel args c)"
  shows "getfn c' sel = Some fn \<and>
    (\<forall>t. t \<noteq> sel \<longrightarrow> t \<noteq> aliased sel \<longrightarrow> getfn c' t = getfn c t) \<and>
    (getfn c sel \<noteq> None \<longrightarrow> getfn c (aliased sel) = None \<longrightarrow> getfn c' (aliased sel) = getfn c sel)"
proof -
  let ?ms = "map (\<lambda>m. if me_name m = sel then m\<lparr>me_name := aliased sel\<rparr> else m) (c_methods c)"
  have ms: "c_methods c' = ?ms @ [\<lparr>me_name = sel, me_fun = fn, me_arg = take MAXPDARG args\<rparr>]"
    using assms(1) by (auto simp: c'_def class_addmethod_def add_entry_def plain_selector_def Let_def)
  have ne: "aliased sel \<noteq> sel" using assms(2) by (simp add: aliased_eq_iff)
  have "find (\<lambda>m. me_name m = sel) ?ms = None" using ne by (rule find_old_gone)
  then have "getfn c' sel = Some fn" by (simp add: getfn_def find_method_def ms find_append)
  moreover have "getfn c' t = getfn c t" if "t \<noteq> sel" "t \<noteq> aliased sel" for t
    using that by (simp add: getfn_def find_method_def ms find_append find_rename split: option.split)
  moreover have "getfn c' (aliased sel) = getfn c sel" if "getfn c sel \<noteq> None" "getfn c (aliased sel) = None"
    using that ne find_renamed [of "aliased sel" "c_methods c" sel]
    by (auto simp: getfn_def find_method_def ms find_append split: option.splits)
  ultimately show ?thesis by blast
qed

theorem addmethod_overrides_witness:
  "getfn (fst (class_addmethod 9 ''ramp'' [] demo_class)) ''ramp'' = Some 9 \<and>
   getfn (fst (class_addmethod 9 ''ramp'' [] demo_class)) ''ramp_aliased'' = Some 7"
proof -
  have "getfn demo_class ''ramp'' = Some 7" "getfn demo_class ''ramp_aliased'' = None"
    by (simp_all add: demo_class_def class_addmethod_def class_new_def add_entry_def getfn_def find_method_def)
  then show ?thesis
    using addmethod_overrides [of "''ramp''" 9 "[]" demo_class] by (simp add: plain_selector_def aliased_def)
qed

text \<open>With a selector of 79 characters the alias, cut off at 79 characters, is the selector
  itself: the old method stays the one that is found, and the new one is never called.\<close>

theorem addmethod_long_selector:
  assumes "length sel = 79" "getfn c sel = Some old"
  shows "getfn (fst (class_addmethod fn sel args c)) sel = Some old"
proof -
  have "plain_selector sel" using assms(1) by (auto simp: plain_selector_def)
  moreover have "map (\<lambda>m. if me_name m = sel then m\<lparr>me_name := aliased sel\<rparr> else m) (c_methods c) = c_methods c"
    using assms(1) aliased_eq_iff [of sel] by (auto intro!: map_idI)
  ultimately show ?thesis
    using assms(2) by (auto simp: getfn_def find_method_def class_addmethod_def add_entry_def plain_selector_def
        Let_def find_append split: option.splits)
qed

theorem addmethod_long_selector_witness:
  "getfn (fst (class_addmethod 9 (replicate 79 CHR ''a'') []
     (add_entry 4 (replicate 79 CHR ''a'') [] (class_new ''c'' False True)))) (replicate 79 CHR ''a'') = Some 4"
  by (rule addmethod_long_selector) (simp_all add: getfn_def find_method_def add_entry_def class_new_def)

text \<open>A method declared with \<open>A_CANT\<close>, which stands for arguments that cannot be checked, is
  nevertheless called when a message with its selector arrives: with the object alone, and
  without the arguments the C function expects, such as the signal vectors of a \<open>dsp\<close> method.\<close>

theorem cant_method_is_called:
  assumes "plain_selector s" "find_method c s = Some m" "me_arg m = [A_CANT]"
  shows "pd_typedmess False c s argv = CallArgs (me_fun m) [Self] []"
  using assms by (auto simp: pd_typedmess_def plain_selector_def call_method_def)

theorem cant_method_is_called_witness:
  "pd_typedmess False (add_entry 4 ''dsp'' [A_CANT] (class_new ''dac~'' False True)) ''dsp'' [] = CallArgs 4 [Self] []"
  using cant_method_is_called [of "''dsp''" "add_entry 4 ''dsp'' [A_CANT] (class_new ''dac~'' False True)"
      "\<lparr>me_name = ''dsp'', me_fun = 4, me_arg = [A_CANT]\<rparr>" "[]"]
  by (simp add: plain_selector_def find_method_def add_entry_def class_new_def MAXPDARG_def)

end
