(* ===== verification/Bindings.thy ===== *)
theory Bindings
  imports Objects
begin

text \<open>
  Names and the objects bound to them (\<open>m_pd.c\<close>): \<open>pd_bind\<close> and \<open>pd_unbind\<close> keep one object, or
  a list object of at least two, in a symbol's \<open>s_thing\<close>; \<open>pd_pushsym\<close> and \<open>pd_popsym\<close> keep the
  stack of canvases being loaded. The locale \<open>name_service\<close> states what senders and receivers
  rely on, a bag of receivers per name.
\<close>

subsection \<open>Binding\<close>

text \<open>The \<open>s_thing\<close> of a symbol: nothing, an object, or a bindlist with its elements.\<close>

datatype thing = Nothing | Thing nat | Bindlist "nat list"

record binds =
  things :: "string \<Rightarrow> thing"
  unbind_errors :: nat

definition pd_bind :: "nat \<Rightarrow> string \<Rightarrow> binds \<Rightarrow> binds" where
  "pd_bind x s B = (case things B s of
      Bindlist es \<Rightarrow> B\<lparr>things := (things B)(s := Bindlist (x # es))\<rparr>
    | Thing y \<Rightarrow> B\<lparr>things := (things B)(s := Bindlist [x, y])\<rparr>
    | Nothing \<Rightarrow> B\<lparr>things := (things B)(s := Thing x)\<rparr>)"

text \<open>What is left of a bindlist after an element is removed. The code reads the link of the
  first element without a test, so an empty list would be a null pointer.\<close>

definition shrink :: "nat list \<Rightarrow> thing cresult" where
  "shrink es = (case es of [] \<Rightarrow> Inl NullDeref | [y] \<Rightarrow> Inr (Thing y) | _ \<Rightarrow> Inr (Bindlist es))"

definition pd_unbind :: "nat \<Rightarrow> string \<Rightarrow> binds \<Rightarrow> binds cresult" where
  "pd_unbind x s B = (case things B s of
      Nothing \<Rightarrow> Inr (B\<lparr>unbind_errors := unbind_errors B + 1\<rparr>)
    | Thing y \<Rightarrow> if y = x then Inr (B\<lparr>things := (things B)(s := Nothing)\<rparr>)
        else Inr (B\<lparr>unbind_errors := unbind_errors B + 1\<rparr>)
    | Bindlist es \<Rightarrow> (case es of [] \<Rightarrow> Inl NullDeref
        | _ \<Rightarrow> cbind (shrink (remove1 x es)) (\<lambda>t. Inr (B\<lparr>things := (things B)(s := t)\<rparr>))))"

text \<open>The class of an object is an argument. The second result tells whether the warning that
  the name is multiply defined is posted.\<close>

fun find_loop :: "(nat \<Rightarrow> 'c) \<Rightarrow> 'c \<Rightarrow> nat list \<Rightarrow> nat option \<Rightarrow> bool \<Rightarrow> nat option \<times> bool" where
  "find_loop cls c [] x warned = (x, warned)"
| "find_loop cls c (e # es) x warned =
     (if cls e = c then find_loop cls c es (Some e) (warned \<or> x \<noteq> None) else find_loop cls c es x warned)"

definition pd_findbyclass :: "(nat \<Rightarrow> 'c) \<Rightarrow> string \<Rightarrow> 'c \<Rightarrow> binds \<Rightarrow> nat option \<times> bool" where
  "pd_findbyclass cls s c B = (case things B s of
      Nothing \<Rightarrow> (None, False)
    | Thing y \<Rightarrow> if cls y = c then (Some y, False) else (None, False)
    | Bindlist es \<Rightarrow> find_loop cls c es None False)"

text \<open>A message to a name: the methods of a bindlist send it to the elements in order.\<close>

fun bindlist_send :: "message \<Rightarrow> nat list \<Rightarrow> (nat \<times> message) list" where
  "bindlist_send m [] = []"
| "bindlist_send m (e # es) = (e, m) # bindlist_send m es"

definition send_name :: "string \<Rightarrow> message \<Rightarrow> binds \<Rightarrow> (nat \<times> message) list" where
  "send_name s m B = (case things B s of Nothing \<Rightarrow> [] | Thing y \<Rightarrow> [(y, m)] | Bindlist es \<Rightarrow> bindlist_send m es)"

subsection \<open>The stack of canvases\<close>

record gstack =
  gs_stack :: "(nat option \<times> string option) list"
  s_X :: "nat option"
  lastpopped :: "nat option"
  pd_loadingabstraction :: "string option"
  gs_bugs :: nat

definition pd_setloadingabstraction :: "string \<Rightarrow> gstack \<Rightarrow> gstack \<times> bool" where
  "pd_setloadingabstraction name G =
     (if \<exists>g \<in> set (gs_stack G). snd g = Some name then (G, True)
      else (G\<lparr>pd_loadingabstraction := Some name\<rparr>, False))"

definition pd_pushsym :: "nat \<Rightarrow> gstack \<Rightarrow> gstack" where
  "pd_pushsym x G = G\<lparr>gs_stack := (s_X G, pd_loadingabstraction G) # gs_stack G,
     pd_loadingabstraction := None, s_X := Some x\<rparr>"

definition pd_popsym :: "nat \<Rightarrow> gstack \<Rightarrow> gstack" where
  "pd_popsym x G = (case gs_stack G of
      [] \<Rightarrow> G\<lparr>gs_bugs := gs_bugs G + 1\<rparr>
    | g # gs \<Rightarrow> if s_X G \<noteq> Some x then G\<lparr>gs_bugs := gs_bugs G + 1\<rparr>
        else G\<lparr>s_X := fst g, gs_stack := gs, lastpopped := Some x\<rparr>)"

definition pd_doloadbang :: "gstack \<Rightarrow> gstack \<times> nat list" where
  "pd_doloadbang G = (G\<lparr>lastpopped := None\<rparr>, case lastpopped G of None \<Rightarrow> [] | Some x \<Rightarrow> [x])"

subsection \<open>Names as bags of receivers\<close>

definition bound :: "binds \<Rightarrow> string \<Rightarrow> nat list" where
  "bound B s = (case things B s of Nothing \<Rightarrow> [] | Thing y \<Rightarrow> [y] | Bindlist es \<Rightarrow> es)"

text \<open>The invariant stated in a comment of \<open>pd_unbind\<close>: a bindlist has at least two elements.\<close>

definition binds_ok :: "binds \<Rightarrow> bool" where
  "binds_ok B \<longleftrightarrow> (\<forall>s es. things B s = Bindlist es \<longrightarrow> 2 \<le> length es)"

lemma bindlist_send_map: "bindlist_send m es = map (\<lambda>e. (e, m)) es"
  by (induction es) auto

lemma send_name_bound: "send_name s m B = map (\<lambda>e. (e, m)) (bound B s)"
  by (simp add: send_name_def bound_def bindlist_send_map split: thing.split)

text \<open>Sequences of bindings, as the service runs them and as they change the bags.\<close>

datatype 'o bind_op = Bind 'o string | Unbind 'o string

fun run_binds :: "('o \<Rightarrow> string \<Rightarrow> 's \<Rightarrow> 's) \<Rightarrow> ('o \<Rightarrow> string \<Rightarrow> 's \<Rightarrow> 's cresult) \<Rightarrow> 'o bind_op list \<Rightarrow> 's \<Rightarrow> 's cresult" where
  "run_binds bnd unb [] S = Inr S"
| "run_binds bnd unb (Bind x s # ps) S = run_binds bnd unb ps (bnd x s S)"
| "run_binds bnd unb (Unbind x s # ps) S = cbind (unb x s S) (run_binds bnd unb ps)"

fun bind_spec :: "'o bind_op \<Rightarrow> (string \<Rightarrow> 'o list) \<Rightarrow> (string \<Rightarrow> 'o list)" where
  "bind_spec (Bind x s) R = R(s := x # R s)"
| "bind_spec (Unbind x s) R = R(s := remove1 x (R s))"

locale name_service =
  fixes bnd :: "'o \<Rightarrow> string \<Rightarrow> 's \<Rightarrow> 's"
    and unb :: "'o \<Rightarrow> string \<Rightarrow> 's \<Rightarrow> 's cresult"
    and receivers :: "'s \<Rightarrow> string \<Rightarrow> 'o list"
    and ok :: "'s \<Rightarrow> bool"
  assumes bind_law: "ok S \<Longrightarrow> ok (bnd x s S) \<and> receivers (bnd x s S) = (receivers S)(s := x # receivers S s)"
    and unbind_law: "ok S \<Longrightarrow> \<exists>S'. unb x s S = Inr S' \<and> ok S' \<and>
      receivers S' = (receivers S)(s := remove1 x (receivers S s))"
begin

lemma run_binds_spec:
  "ok S \<Longrightarrow> \<exists>S'. run_binds bnd unb ps S = Inr S' \<and> ok S' \<and> receivers S' = fold bind_spec ps (receivers S)"
proof (induction ps arbitrary: S)
  case (Cons p ps)
  obtain S1 where S1: "run_binds bnd unb (p # ps) S = run_binds bnd unb ps S1" "ok S1"
    "receivers S1 = bind_spec p (receivers S)"
  proof (cases p)
    case (Bind x s)
    with that [of "bnd x s S"] bind_law [OF Cons.prems, of x s] show thesis by (metis bind_spec.simps(1) run_binds.simps(2))
  next
    case (Unbind x s)
    obtain S1 where "unb x s S = Inr S1" "ok S1" "receivers S1 = (receivers S)(s := remove1 x (receivers S s))"
      using unbind_law [OF Cons.prems] by blast
    with Unbind that [of S1] show thesis by (metis bind_spec.simps(2) run_binds.simps(3) cbind_simps(2))
  qed
  show ?case using Cons.IH [OF S1(2)] unfolding S1(1,3) by simp
qed simp

end

interpretation names: name_service pd_bind pd_unbind bound binds_ok
proof
  fix B :: binds and x s
  assume ok: "binds_ok B"
  show "binds_ok (pd_bind x s B) \<and> bound (pd_bind x s B) = (bound B)(s := x # bound B s)"
    using ok by (fastforce simp: pd_bind_def binds_ok_def bound_def fun_eq_iff split: thing.splits)
  show "\<exists>B'. pd_unbind x s B = Inr B' \<and> binds_ok B' \<and> bound B' = (bound B)(s := remove1 x (bound B s))"
  proof (cases "things B s")
    case Nothing
    then show ?thesis using ok by (auto simp: pd_unbind_def binds_ok_def bound_def fun_eq_iff)
  next
    case (Thing y)
    then show ?thesis using ok by (auto simp: pd_unbind_def binds_ok_def bound_def fun_eq_iff)
  next
    case (Bindlist es)
    then have "2 \<le> length es" using ok by (simp add: binds_ok_def)
    then have len: "1 \<le> length (remove1 x es)" by (auto simp: length_remove1)
    define t where "t = (if length (remove1 x es) = 1 then Thing (hd (remove1 x es)) else Bindlist (remove1 x es))"
    have "shrink (remove1 x es) = Inr t"
      using len by (auto simp: shrink_def t_def split: list.split)
    then have "pd_unbind x s B = Inr (B\<lparr>things := (things B)(s := t)\<rparr>)"
      using Bindlist \<open>2 \<le> length es\<close> by (auto simp: pd_unbind_def split: list.split)
    moreover have "bound (B\<lparr>things := (things B)(s := t)\<rparr>) = (bound B)(s := remove1 x (bound B s))"
      using Bindlist len by (auto simp: bound_def t_def fun_eq_iff length_Suc_conv)
    moreover have "binds_ok (B\<lparr>things := (things B)(s := t)\<rparr>)"
      using ok len by (auto simp: binds_ok_def t_def split: if_splits)
    ultimately show ?thesis by blast
  qed
qed

text \<open>\<^bold>\<open>C7\<close>: After any sequence of \<open>pd_bind\<close> and \<open>pd_unbind\<close> calls, unmatched ones included, a
  message to a name reaches each object once for every time it was bound and not yet unbound, the
  latest binding first. No call follows a null pointer, and the representation is kept: a bindlist
  never has fewer than two elements.\<close>

theorem bindings_deliver:
  assumes "binds_ok B"
  shows "\<exists>B'. run_binds pd_bind pd_unbind ps B = Inr B' \<and> binds_ok B' \<and>
    send_name s m B' = map (\<lambda>e. (e, m)) (fold bind_spec ps (bound B) s)"
  using names.run_binds_spec [OF assms, of ps] by (auto simp: send_name_bound)

definition no_binds :: binds where
  "no_binds = \<lparr>things = (\<lambda>_. Nothing), unbind_errors = 0\<rparr>"

theorem bindings_deliver_witness:
  "\<exists>B'. run_binds pd_bind pd_unbind [Bind 1 ''a'', Bind 2 ''a'', Bind 3 ''a'', Unbind 2 ''a'', Unbind 9 ''b''] no_binds =
      Inr B' \<and> send_name ''a'' Bang B' = [(3, Bang), (1, Bang)]"
  using bindings_deliver [of no_binds "[Bind 1 ''a'', Bind 2 ''a'', Bind 3 ''a'', Unbind 2 ''a'', Unbind 9 ''b'']"
      "''a''" Bang]
  by (auto simp: no_binds_def binds_ok_def bound_def simp del: run_binds.simps)

text \<open>\<open>pd_findbyclass\<close> finds an object of the class among those bound to the name exactly if
  there is one; of several it takes the one bound first, and warns exactly if there are several.\<close>

theorem findbyclass_correct:
  fixes cls :: "nat \<Rightarrow> 'c" and c :: 'c and s :: string
  assumes "binds_ok B"
  defines "ms \<equiv> filter (\<lambda>e. cls e = c) (bound B s)"
  shows "pd_findbyclass cls s c B = (if ms = [] then None else Some (last ms), 2 \<le> length ms)"
proof -
  have "find_loop cls c es x w = (let fs = filter (\<lambda>e. cls e = c) es in
      (if fs = [] then x else Some (last fs), w \<or> 2 \<le> length fs \<or> (x \<noteq> None \<and> fs \<noteq> [])))" for es x w
    by (induction es arbitrary: x w) (auto simp: Let_def Suc_le_eq)
  then show ?thesis
    by (auto simp: pd_findbyclass_def ms_def bound_def Let_def split: thing.split)
qed

theorem findbyclass_correct_witness:
  "pd_findbyclass even ''a'' True \<lparr>things = (\<lambda>_. Bindlist [4, 3, 2 :: nat]), unbind_errors = 0\<rparr> = (Some 2, True)"
  using findbyclass_correct [of "\<lparr>things = (\<lambda>_. Bindlist [4, 3, 2 :: nat]), unbind_errors = 0\<rparr>" even "''a''" True]
  by (simp add: binds_ok_def bound_def)

subsection \<open>Nested loading\<close>

lemma stack_after_pushes: "set (gs_stack G) \<subseteq> set (gs_stack (fold pd_pushsym ys G))"
proof (induction ys arbitrary: G)
  case (Cons y ys)
  have "set (gs_stack G) \<subseteq> set (gs_stack (pd_pushsym y G))" by (auto simp: pd_pushsym_def)
  then show ?case using Cons.IH [of "pd_pushsym y G"] by simp
qed simp

text \<open>While an abstraction is being loaded, however deep the loading is nested, a second
  attempt to load it is refused; and popping the canvas that was pushed last restores the stack
  and the canvas that was current before.\<close>

theorem loading_is_guarded:
  assumes "pd_setloadingabstraction a G = (G', False)"
  shows "snd (pd_setloadingabstraction a (fold pd_pushsym ys (pd_pushsym x G'))) \<and>
    gs_stack (pd_popsym x (pd_pushsym x G')) = gs_stack G \<and> s_X (pd_popsym x (pd_pushsym x G')) = s_X G"
proof -
  have G': "pd_loadingabstraction G' = Some a" "gs_stack G' = gs_stack G" "s_X G' = s_X G"
    using assms by (auto simp: pd_setloadingabstraction_def split: if_splits)
  have "(s_X G, Some a) \<in> set (gs_stack (pd_pushsym x G'))" using G' by (simp add: pd_pushsym_def)
  then have "(s_X G, Some a) \<in> set (gs_stack (fold pd_pushsym ys (pd_pushsym x G')))"
    using stack_after_pushes by blast
  then have "snd (pd_setloadingabstraction a (fold pd_pushsym ys (pd_pushsym x G')))"
    by (force simp: pd_setloadingabstraction_def)
  then show ?thesis using G' by (simp add: pd_pushsym_def pd_popsym_def)
qed

definition empty_gstack :: gstack where
  "empty_gstack = \<lparr>gs_stack = [], s_X = None, lastpopped = None, pd_loadingabstraction = None, gs_bugs = 0\<rparr>"

theorem loading_is_guarded_witness:
  "snd (pd_setloadingabstraction ''voice'' (fold pd_pushsym [2, 3]
     (pd_pushsym 1 (empty_gstack\<lparr>pd_loadingabstraction := Some ''voice''\<rparr>))))"
  using loading_is_guarded [of "''voice''" empty_gstack
      "empty_gstack\<lparr>pd_loadingabstraction := Some ''voice''\<rparr>" "[2, 3]" 1]
  by (simp add: pd_setloadingabstraction_def empty_gstack_def)

end
