(* ===== verification/XConnective.thy ===== *)
theory XConnective
  imports Dispatch Bindings
begin

text \<open>
  The connective objects (\<open>x_connective.c\<close>). A method returns the object and the messages it
  sends, each with the number of its outlet (0 for the first), in the order they are sent.
  Objects whose outlets may lead back to them while they send (pack and until) take what the
  outlet does as an argument. A pointer atom carries the number of the data it points to: that
  pack keeps its own copy of the pointer is left out. Complaints on the console are recorded for
  pack only.
\<close>

type_synonym sends = "(nat \<times> message) list"

subsection \<open>int, float, symbol and bang\<close>

definition pdint_bang :: "fl \<Rightarrow> sends" where
  "pdint_bang x_f = [(0, Float (fl_of_int binary32 (int_of_fl x_f)))]"

definition pdint_float :: "fl \<Rightarrow> fl \<Rightarrow> fl \<times> sends" where
  "pdint_float f x_f = (f, pdint_bang f)"

definition pdfloat_bang :: "fl \<Rightarrow> sends" where
  "pdfloat_bang x_f = [(0, Float x_f)]"

definition pdfloat_float :: "fl \<Rightarrow> fl \<Rightarrow> fl \<times> sends" where
  "pdfloat_float f x_f = (f, [(0, Float f)])"

definition pdsymbol_bang :: "string \<Rightarrow> string \<times> sends" where
  "pdsymbol_bang x_s = (x_s, [(0, Symbol x_s)])"

definition pdsymbol_symbol :: "string \<Rightarrow> string \<Rightarrow> string \<times> sends" where
  "pdsymbol_symbol s x_s = (s, [(0, Symbol s)])"

definition pdsymbol_anything :: "string \<Rightarrow> t_atom list \<Rightarrow> string \<Rightarrow> string \<times> sends" where
  "pdsymbol_anything s av x_s = (s, [(0, Symbol s)])"

definition pdsymbol_list :: "string \<Rightarrow> t_atom list \<Rightarrow> string \<Rightarrow> string \<times> sends" where
  "pdsymbol_list s av x_s = (case av of [] \<Rightarrow> pdsymbol_bang x_s
     | SYMBOL t # _ \<Rightarrow> pdsymbol_symbol t x_s | _ \<Rightarrow> pdsymbol_anything s av x_s)"

text \<open>The class of symbol objects, with the numbers of its methods.\<close>

definition pdsymbol_class :: t_class where
  "pdsymbol_class = (class_new ''symbol'' False True)\<lparr>c_bangmethod := Some 0, c_symbolmethod := Some 1,
     c_anymethod := Some 2\<rparr>"

definition bang_bang :: sends where
  "bang_bang = [(0, Bang)]"

subsection \<open>send and receive\<close>

definition send_message :: "string \<Rightarrow> message \<Rightarrow> binds \<Rightarrow> (nat \<times> message) list" where
  "send_message x_sym m B = send_name x_sym m B"

definition receive_message :: "message \<Rightarrow> sends" where
  "receive_message m = [(0, m)]"

definition receive_new :: "nat \<Rightarrow> string \<Rightarrow> binds \<Rightarrow> binds" where
  "receive_new x s B = pd_bind x s B"

definition receive_free :: "nat \<Rightarrow> string \<Rightarrow> binds \<Rightarrow> binds cresult" where
  "receive_free x s B = pd_unbind x s B"

subsection \<open>select\<close>

definition sel1_float :: "t_atom \<Rightarrow> fl \<Rightarrow> sends" where
  "sel1_float x_atom f = (case x_atom of FLOAT g \<Rightarrow> if feq f g then [(0, Bang)] else [(1, Float f)]
     | _ \<Rightarrow> [(1, Float f)])"

definition sel1_symbol :: "t_atom \<Rightarrow> string \<Rightarrow> sends" where
  "sel1_symbol x_atom s = (case x_atom of SYMBOL t \<Rightarrow> if s = t then [(0, Bang)] else [(1, Symbol s)]
     | _ \<Rightarrow> [(1, Symbol s)])"

text \<open>The elements of select and route are all floats or all symbols.\<close>

datatype elements = Floats "fl list" | Symbols "string list"

fun nelement :: "elements \<Rightarrow> nat" where
  "nelement (Floats fs) = length fs"
| "nelement (Symbols ss) = length ss"

text \<open>The index of the first element that satisfies a test.\<close>

fun first_match :: "('a \<Rightarrow> bool) \<Rightarrow> 'a list \<Rightarrow> nat option" where
  "first_match P [] = None"
| "first_match P (x # xs) = (if P x then Some 0 else map_option Suc (first_match P xs))"

definition sel2_float :: "elements \<Rightarrow> fl \<Rightarrow> sends" where
  "sel2_float x f = (case x of
      Floats fs \<Rightarrow> (case first_match (\<lambda>g. feq g f) fs of Some i \<Rightarrow> [(i, Bang)] | None \<Rightarrow> [(nelement x, Float f)])
    | Symbols ss \<Rightarrow> [(nelement x, Float f)])"

definition sel2_symbol :: "elements \<Rightarrow> string \<Rightarrow> sends" where
  "sel2_symbol x s = (case x of
      Symbols ss \<Rightarrow> (case first_match (\<lambda>t. t = s) ss of Some i \<Rightarrow> [(i, Bang)] | None \<Rightarrow> [(nelement x, Symbol s)])
    | Floats fs \<Rightarrow> [(nelement x, Symbol s)])"

text \<open>The type of the first argument decides; an argument of the other type counts as 0 or as the
  empty symbol.\<close>

definition new_elements :: "t_atom list \<Rightarrow> elements" where
  "new_elements argv = (case argv of FLOAT f # _ \<Rightarrow> Floats (map (\<lambda>i. atom_getfloatarg i argv) [0..<length argv])
     | _ \<Rightarrow> Symbols (map (\<lambda>i. atom_getsymbolarg i argv) [0..<length argv]))"

datatype select_object = Sel1 t_atom | Sel2 elements

definition select_new :: "t_atom list \<Rightarrow> select_object" where
  "select_new argv = (case argv of [] \<Rightarrow> Sel1 (FLOAT (Fin 0)) | [a] \<Rightarrow> Sel1 a | _ \<Rightarrow> Sel2 (new_elements argv))"

subsection \<open>route\<close>

text \<open>Sending the rest of a list: as a message if it starts with a symbol. The code passes a null
  selector to \<open>outlet_list\<close>, written here as the empty name; the receiver never sees it.\<close>

definition send_rest :: "nat \<Rightarrow> t_atom list \<Rightarrow> sends" where
  "send_rest i av = (case av of SYMBOL s # as \<Rightarrow> [(i, Anything s as)] | _ \<Rightarrow> [(i, List '''' av)])"

definition route_anything :: "elements \<Rightarrow> string \<Rightarrow> t_atom list \<Rightarrow> sends" where
  "route_anything x sel argv = (case x of
      Symbols ss \<Rightarrow> (case first_match (\<lambda>t. t = sel) ss of Some i \<Rightarrow> send_rest i argv
        | None \<Rightarrow> [(nelement x, Anything sel argv)])
    | Floats fs \<Rightarrow> [(nelement x, Anything sel argv)])"

definition rejected :: "elements \<Rightarrow> t_atom list \<Rightarrow> sends cresult" where
  "rejected x argv = Inr [(nelement x, List '''' argv)]"

definition route_to :: "elements \<Rightarrow> string list \<Rightarrow> string \<Rightarrow> (nat \<Rightarrow> sends cresult) \<Rightarrow> t_atom list \<Rightarrow> sends cresult" where
  "route_to x ss sel k argv = (case first_match (\<lambda>t. t = sel) ss of Some i \<Rightarrow> k i | None \<Rightarrow> rejected x argv)"

definition route_list :: "elements \<Rightarrow> t_atom list \<Rightarrow> sends cresult" where
  "route_list x argv = (case x of
      Floats fs \<Rightarrow> (case argv of
          [] \<Rightarrow> Inr []
        | FLOAT f # as \<Rightarrow> (case first_match (\<lambda>g. feq g f) fs of Some i \<Rightarrow> Inr (send_rest i as) | None \<Rightarrow> rejected x argv)
        | _ \<Rightarrow> rejected x argv)
    | Symbols ss \<Rightarrow> (case argv of
          [] \<Rightarrow> route_to x ss ''bang'' (\<lambda>i. Inr [(i, Bang)]) argv
        | [FLOAT f] \<Rightarrow> route_to x ss ''float'' (\<lambda>i. Inr [(i, Float f)]) argv
        | [SYMBOL s] \<Rightarrow> route_to x ss ''symbol'' (\<lambda>i. Inr [(i, Symbol s)]) argv
        | [a] \<Rightarrow> route_to x ss ''symbol'' (\<lambda>i. Inl TypeConfusion) argv
        | _ \<Rightarrow> route_to x ss ''list'' (\<lambda>i. Inr (send_rest i argv)) argv))"

definition route_new :: "t_atom list \<Rightarrow> elements" where
  "route_new argv = (if argv = [] then Floats [Fin 0] else new_elements argv)"

subsection \<open>pack\<close>

datatype kind = KFloat | KSymbol | KPointer

text \<open>The type a creation argument stands for: a number, or a symbol by its first letter.\<close>

definition arg_kind :: "t_atom \<Rightarrow> kind" where
  "arg_kind a = (case a of SYMBOL (c # _) \<Rightarrow>
     (if c = CHR ''s'' then KSymbol else if c = CHR ''p'' then KPointer else KFloat) | _ \<Rightarrow> KFloat)"

text \<open>The initial value; a fresh pointer, which points nowhere, is number 0.\<close>

definition pack_init :: "t_atom \<Rightarrow> t_atom" where
  "pack_init a = (case a of FLOAT f \<Rightarrow> FLOAT f
     | _ \<Rightarrow> (case arg_kind a of KSymbol \<Rightarrow> SYMBOL ''symbol'' | KPointer \<Rightarrow> POINTER 0 | KFloat \<Rightarrow> FLOAT (Fin 0)))"

definition bad_type :: "t_atom \<Rightarrow> bool" where
  "bad_type a \<longleftrightarrow> (case a of SYMBOL (c # _) \<Rightarrow> c \<notin> {CHR ''s'', CHR ''p'', CHR ''f''} | SYMBOL [] \<Rightarrow> True | _ \<Rightarrow> False)"

text \<open>The record of a pack object: \<open>pk_outvec\<close> tells whether the preallocated output vector is free,
  \<open>pk_errors\<close> counts the complaints on the console.\<close>

record t_pack =
  pk_vec :: "t_atom list"
  pk_outvec :: bool
  pk_errors :: nat

definition pack_new :: "t_atom list \<Rightarrow> t_pack" where
  "pack_new argv = \<lparr>pk_vec = map pack_init (if argv = [] then [FLOAT (Fin 0), FLOAT (Fin 0)] else argv),
     pk_outvec = True, pk_errors = length (filter bad_type argv)\<rparr>"

definition pack_error :: "t_pack \<Rightarrow> t_pack" where
  "pack_error x = x\<lparr>pk_errors := pk_errors x + 1\<rparr>"

text \<open>\<open>outlet_list\<close> is an argument: it may call methods of this object. Each activation copies the
  values to a vector of its own: the preallocated one if no other activation has it.\<close>

definition pack_bang ::
    "(nat \<Rightarrow> bool) \<Rightarrow> (t_atom list \<Rightarrow> t_pack \<times> 's \<Rightarrow> t_pack \<times> 's) \<Rightarrow> t_pack \<times> 's \<Rightarrow> t_pack \<times> 's" where
  "pack_bang gpointer_check outlet_list p =
     (let x = fst p in
      if \<exists>gp. POINTER gp \<in> set (pk_vec x) \<and> \<not> gpointer_check gp then (pack_error x, snd p)
      else (let reentered = (\<not> pk_outvec x); p' = outlet_list (pk_vec x) (x\<lparr>pk_outvec := False\<rparr>, snd p)
            in if reentered then p' else ((fst p')\<lparr>pk_outvec := True\<rparr>, snd p')))"

fun same_kind :: "t_atom \<Rightarrow> t_atom \<Rightarrow> bool" where
  "same_kind (FLOAT _) (FLOAT _) = True"
| "same_kind (SYMBOL _) (SYMBOL _) = True"
| "same_kind (POINTER _) (POINTER _) = True"
| "same_kind _ _ = False"

text \<open>\<open>pack_float\<close>, \<open>pack_symbol\<close> and \<open>pack_pointer\<close>: the first value is set and sent.\<close>

definition pack_first ::
    "(nat \<Rightarrow> bool) \<Rightarrow> (t_atom list \<Rightarrow> t_pack \<times> 's \<Rightarrow> t_pack \<times> 's) \<Rightarrow> t_atom \<Rightarrow> t_pack \<times> 's \<Rightarrow> t_pack \<times> 's" where
  "pack_first gpointer_check outlet_list a p =
     (if same_kind (hd (pk_vec (fst p))) a
      then pack_bang gpointer_check outlet_list ((fst p)\<lparr>pk_vec := a # tl (pk_vec (fst p))\<rparr>, snd p)
      else (pack_error (fst p), snd p))"

text \<open>A value for one of the other inlets is stored, or refused by the inlet.\<close>

definition pack_store :: "nat \<Rightarrow> t_atom \<Rightarrow> t_pack \<Rightarrow> t_pack" where
  "pack_store i a x = (if i < length (pk_vec x) then
     (if same_kind (pk_vec x ! i) a then x\<lparr>pk_vec := (pk_vec x)[i := a]\<rparr> else pack_error x) else x)"

fun store_from :: "nat \<Rightarrow> t_atom list \<Rightarrow> t_pack \<Rightarrow> t_pack" where
  "store_from i [] x = x"
| "store_from i (a # as) x = store_from (i + 1) as (pack_store i a x)"

definition pack_list ::
    "(nat \<Rightarrow> bool) \<Rightarrow> (t_atom list \<Rightarrow> t_pack \<times> 's \<Rightarrow> t_pack \<times> 's) \<Rightarrow> t_atom list \<Rightarrow> t_pack \<times> 's \<Rightarrow> t_pack \<times> 's" where
  "pack_list gpointer_check outlet_list av p = (case av of [] \<Rightarrow> p
     | a # as \<Rightarrow> pack_first gpointer_check outlet_list a (store_from 1 as (fst p), snd p))"

definition pack_anything ::
    "(nat \<Rightarrow> bool) \<Rightarrow> (t_atom list \<Rightarrow> t_pack \<times> 's \<Rightarrow> t_pack \<times> 's) \<Rightarrow> string \<Rightarrow> t_atom list \<Rightarrow> t_pack \<times> 's \<Rightarrow> t_pack \<times> 's" where
  "pack_anything gpointer_check outlet_list s av p = pack_list gpointer_check outlet_list (SYMBOL s # av) p"

subsection \<open>unpack\<close>

definition unpack_new :: "t_atom list \<Rightarrow> kind list" where
  "unpack_new argv = map arg_kind (if argv = [] then [FLOAT (Fin 0), FLOAT (Fin 0)] else argv)"

text \<open>One value, if it has the type of its outlet.\<close>

definition unpack_one :: "nat \<Rightarrow> kind \<Rightarrow> t_atom \<Rightarrow> sends" where
  "unpack_one i k a = (case (k, a) of
      (KFloat, FLOAT f) \<Rightarrow> [(i, Float f)]
    | (KSymbol, SYMBOL s) \<Rightarrow> [(i, Symbol s)]
    | (KPointer, POINTER gp) \<Rightarrow> [(i, Pointer gp)]
    | _ \<Rightarrow> [])"

fun unpack_loop :: "nat \<Rightarrow> kind list \<Rightarrow> t_atom list \<Rightarrow> sends" where
  "unpack_loop i (k # ks) (a # as) = unpack_loop (i + 1) ks as @ unpack_one i k a"
| "unpack_loop i _ _ = []"

definition unpack_list :: "kind list \<Rightarrow> t_atom list \<Rightarrow> sends" where
  "unpack_list x argv = unpack_loop 0 x argv"

definition unpack_anything :: "kind list \<Rightarrow> string \<Rightarrow> t_atom list \<Rightarrow> sends" where
  "unpack_anything x s av = unpack_list x (SYMBOL s # av)"

subsection \<open>trigger\<close>

datatype tr_type = TR_BANG | TR_FLOAT | TR_SYMBOL | TR_POINTER | TR_LIST | TR_ANYTHING

definition tr_of_char :: "char \<Rightarrow> tr_type" where
  "tr_of_char c = (if c = CHR ''p'' then TR_POINTER else if c = CHR ''f'' then TR_FLOAT
     else if c = CHR ''b'' then TR_BANG else if c = CHR ''l'' then TR_LIST
     else if c = CHR ''s'' then TR_SYMBOL else if c = CHR ''a'' then TR_ANYTHING else TR_FLOAT)"

definition trigger_new :: "t_atom list \<Rightarrow> tr_type list" where
  "trigger_new argv = map (\<lambda>a. case a of SYMBOL (c # _) \<Rightarrow> tr_of_char c | _ \<Rightarrow> TR_FLOAT)
     (if argv = [] then [SYMBOL ''bang'', SYMBOL ''bang''] else argv)"

definition trigger_one :: "nat \<Rightarrow> tr_type \<Rightarrow> t_atom list \<Rightarrow> sends" where
  "trigger_one i u argv = (case u of
      TR_FLOAT \<Rightarrow> [(i, Float (case argv of [] \<Rightarrow> Fin 0 | a # _ \<Rightarrow> atom_getfloat a))]
    | TR_BANG \<Rightarrow> [(i, Bang)]
    | TR_SYMBOL \<Rightarrow> [(i, Symbol (case argv of [] \<Rightarrow> ''symbol'' | a # _ \<Rightarrow> atom_getsymbol a))]
    | TR_POINTER \<Rightarrow> (case argv of POINTER gp # _ \<Rightarrow> [(i, Pointer gp)] | _ \<Rightarrow> [])
    | _ \<Rightarrow> [(i, List ''list'' argv)])"

fun trigger_loop :: "(nat \<Rightarrow> tr_type \<Rightarrow> sends) \<Rightarrow> nat \<Rightarrow> tr_type list \<Rightarrow> sends" where
  "trigger_loop one i [] = []"
| "trigger_loop one i (u # us) = trigger_loop one (i + 1) us @ one i u"

definition trigger_list :: "tr_type list \<Rightarrow> t_atom list \<Rightarrow> sends" where
  "trigger_list x argv = trigger_loop (\<lambda>i u. trigger_one i u argv) 0 x"

definition trigger_anything :: "tr_type list \<Rightarrow> string \<Rightarrow> t_atom list \<Rightarrow> sends" where
  "trigger_anything x s argv = trigger_loop (\<lambda>i u. if u = TR_BANG then [(i, Bang)]
     else if u = TR_ANYTHING then [(i, Anything s argv)] else []) 0 x"

text \<open>The methods \<open>trigger_bang\<close>, \<open>trigger_pointer\<close>, \<open>trigger_float\<close> and \<open>trigger_symbol\<close>.\<close>

definition trigger_message :: "tr_type list \<Rightarrow> message \<Rightarrow> sends" where
  "trigger_message x m = (case m of
      Bang \<Rightarrow> trigger_list x []
    | Pointer gp \<Rightarrow> trigger_list x [POINTER gp]
    | Float f \<Rightarrow> trigger_list x [FLOAT f]
    | Symbol s \<Rightarrow> trigger_list x [SYMBOL s]
    | List s argv \<Rightarrow> trigger_list x argv
    | Anything s argv \<Rightarrow> trigger_anything x s argv)"

subsection \<open>spigot, moses, swap and change\<close>

definition spigot_message :: "fl \<Rightarrow> message \<Rightarrow> sends" where
  "spigot_message x_state m = (if \<not> feq x_state (Fin 0) then [(0, m)] else [])"

definition moses_float :: "fl \<Rightarrow> fl \<Rightarrow> sends" where
  "moses_float x_y f = (if flt f x_y then [(0, Float f)] else [(1, Float f)])"

definition swap_bang :: "fl \<times> fl \<Rightarrow> sends" where
  "swap_bang x = [(1, Float (fst x)), (0, Float (snd x))]"

definition swap_float :: "fl \<Rightarrow> fl \<times> fl \<Rightarrow> (fl \<times> fl) \<times> sends" where
  "swap_float f x = ((f, snd x), swap_bang (f, snd x))"

definition change_bang :: "fl \<Rightarrow> sends" where
  "change_bang x_f = [(0, Float x_f)]"

definition change_float :: "fl \<Rightarrow> fl \<Rightarrow> fl \<times> sends" where
  "change_float f x_f = (if \<not> feq f x_f then (f, [(0, Float f)]) else (x_f, []))"

definition change_set :: "fl \<Rightarrow> fl \<Rightarrow> fl" where
  "change_set f x_f = f"

subsection \<open>until\<close>

record t_until =
  x_run :: int
  x_count :: int

text \<open>\<open>while (x->x_run && x->x_count) x->x_count--, outlet_bang(...)\<close>\<close>

partial_function (option) until_loop ::
    "(t_until \<times> 's \<Rightarrow> t_until \<times> 's) \<Rightarrow> t_until \<times> 's \<Rightarrow> (t_until \<times> 's) option" where
  "until_loop outlet_bang p =
     (if x_run (fst p) \<noteq> 0 \<and> x_count (fst p) \<noteq> 0
      then until_loop outlet_bang (outlet_bang ((fst p)\<lparr>x_count := wrap32 (x_count (fst p) - 1)\<rparr>, snd p))
      else Some p)"

definition until_bang :: "(t_until \<times> 's \<Rightarrow> t_until \<times> 's) \<Rightarrow> t_until \<times> 's \<Rightarrow> (t_until \<times> 's) option" where
  "until_bang outlet_bang p = until_loop outlet_bang (\<lparr>x_run = 1, x_count = -1\<rparr>, snd p)"

definition until_float :: "(t_until \<times> 's \<Rightarrow> t_until \<times> 's) \<Rightarrow> fl \<Rightarrow> t_until \<times> 's \<Rightarrow> (t_until \<times> 's) option" where
  "until_float outlet_bang f p =
     until_loop outlet_bang (\<lparr>x_run = 1, x_count = int_of_fl (if flt f (Fin 0) then Fin 0 else f)\<rparr>, snd p)"

definition until_bang2 :: "t_until \<Rightarrow> t_until" where
  "until_bang2 x = x\<lparr>x_run := 0\<rparr>"

subsection \<open>makefilename\<close>

datatype accept = Accept_null | Accept_symbol | Accept_float bool

text \<open>\<open>makefilename_scanformat\<close>: the type of the first conversion of the format. \<open>x_intconvert\<close> is
  the argument of \<open>Accept_float\<close>.\<close>

fun scan_loop :: "string \<Rightarrow> bool \<Rightarrow> accept" where
  "scan_loop [] infmt = Accept_null"
| "scan_loop (c # s) infmt =
     (if \<not> infmt then scan_loop s (c = CHR ''%'')
      else if c \<in> set ''-.#0123456789'' then scan_loop s True
      else if c = CHR ''s'' then Accept_symbol
      else if c \<in> set ''fgGeE'' then Accept_float False
      else if c \<in> set ''xXdiouc'' then Accept_float True
      else scan_loop s False)"

definition makefilename_scanformat :: "string \<Rightarrow> accept" where
  "makefilename_scanformat fmt = scan_loop fmt False"

definition makefilename_new :: "string \<Rightarrow> string \<times> accept" where
  "makefilename_new s = (let fmt = (if s = [] then ''file.%d'' else s) in (fmt, makefilename_scanformat fmt))"

subsection \<open>value\<close>

text \<open>The named variables: each symbol has at most one variable object, with a reference count.\<close>

record t_vcommon =
  c_refcount :: int
  c_f :: fl

type_synonym vars = "string \<rightharpoonup> t_vcommon"

definition value_get :: "string \<Rightarrow> vars \<Rightarrow> vars" where
  "value_get s V = (case V s of
      None \<Rightarrow> V(s \<mapsto> \<lparr>c_refcount = 1, c_f = Fin 0\<rparr>)
    | Some c \<Rightarrow> V(s \<mapsto> c\<lparr>c_refcount := c_refcount c + 1\<rparr>))"

definition value_release :: "string \<Rightarrow> vars \<Rightarrow> vars" where
  "value_release s V = (case V s of
      None \<Rightarrow> V
    | Some c \<Rightarrow> if c_refcount c - 1 = 0 then V(s := None)
        else V(s \<mapsto> c\<lparr>c_refcount := c_refcount c - 1\<rparr>))"

definition value_getfloat :: "string \<Rightarrow> vars \<Rightarrow> fl option" where
  "value_getfloat s V = map_option c_f (V s)"

definition value_setfloat :: "string \<Rightarrow> fl \<Rightarrow> vars \<Rightarrow> vars \<times> int" where
  "value_setfloat s f V = (case V s of None \<Rightarrow> (V, 1) | Some c \<Rightarrow> (V(s \<mapsto> c\<lparr>c_f := f\<rparr>), 0))"

text \<open>A value object holds the address of the variable of its symbol.\<close>

definition value_bang :: "string \<Rightarrow> vars \<Rightarrow> sends cresult" where
  "value_bang s V = (case V s of None \<Rightarrow> Inl NullDeref | Some c \<Rightarrow> Inr [(0, Float (c_f c))])"

definition value_float :: "string \<Rightarrow> fl \<Rightarrow> vars \<Rightarrow> vars cresult" where
  "value_float s f V = (case V s of None \<Rightarrow> Inl NullDeref | Some c \<Rightarrow> Inr (V(s \<mapsto> c\<lparr>c_f := f\<rparr>)))"

subsection \<open>pack and unpack\<close>

fun kind_of :: "t_atom \<Rightarrow> kind option" where
  "kind_of (FLOAT _) = Some KFloat"
| "kind_of (SYMBOL _) = Some KSymbol"
| "kind_of (POINTER _) = Some KPointer"
| "kind_of _ = None"

fun atom_to_message :: "t_atom \<Rightarrow> message" where
  "atom_to_message (FLOAT f) = Float f"
| "atom_to_message (SYMBOL s) = Symbol s"
| "atom_to_message (POINTER gp) = Pointer gp"
| "atom_to_message _ = Bang"

lemma same_kind_iff: "same_kind a b \<longleftrightarrow> kind_of a = kind_of b \<and> kind_of b \<noteq> None"
  by (cases a; cases b) auto

lemma kind_of_init: "kind_of (pack_init a) = Some (arg_kind a)"
proof (cases a)
  case (SYMBOL s)
  then show ?thesis by (cases "arg_kind a") (simp_all add: pack_init_def)
qed (auto simp: pack_init_def arg_kind_def)

lemma store_from_ok:
  assumes "map kind_of (take (length as) (drop i (pk_vec x))) = map kind_of as"
    "\<forall>a \<in> set as. kind_of a \<noteq> None" "i + length as \<le> length (pk_vec x)"
  shows "store_from i as x = x\<lparr>pk_vec := take i (pk_vec x) @ as @ drop (i + length as) (pk_vec x)\<rparr>"
  using assms
proof (induction as arbitrary: i x)
  case (Cons a as)
  let ?v = "pk_vec x"
  have drop: "drop i ?v = ?v ! i # drop (Suc i) ?v" using Cons.prems(3) by (simp add: Cons_nth_drop_Suc)
  then have "same_kind (?v ! i) a" using Cons.prems by (simp add: same_kind_iff)
  then have "pack_store i a x = x\<lparr>pk_vec := ?v[i := a]\<rparr>" using Cons.prems(3) by (simp add: pack_store_def)
  moreover have "store_from (Suc i) as (x\<lparr>pk_vec := ?v[i := a]\<rparr>) =
      x\<lparr>pk_vec := take (Suc i) (?v[i := a]) @ as @ drop (Suc i + length as) (?v[i := a])\<rparr>"
    using Cons.prems drop by (subst Cons.IH) auto
  moreover have "take (Suc i) (?v[i := a]) = take i ?v @ [a]"
    using Cons.prems(3) by (simp add: take_Suc_conv_app_nth)
  ultimately show ?case by simp
qed simp

lemma unpack_loop_all:
  "map Some ks = map kind_of as \<Longrightarrow> unpack_loop i ks as = rev (map (\<lambda>(j, a). (j, atom_to_message a)) (enumerate i as))"
proof (induction ks arbitrary: as i)
  case (Cons k ks)
  then obtain a bs where as: "as = a # bs" "kind_of a = Some k" "map Some ks = map kind_of bs" by (cases as) auto
  then have "unpack_one i k a = [(i, atom_to_message a)]" by (cases a) (auto simp: unpack_one_def)
  with Cons.IH [OF as(3), of "Suc i"] show ?case by (simp add: as(1))
qed simp

definition record_list :: "t_atom list \<Rightarrow> t_pack \<times> t_atom list list \<Rightarrow> t_pack \<times> t_atom list list" where
  "record_list as p = (fst p, snd p @ [as])"

text \<open>\<^bold>\<open>C34\<close>: A list of as many elements as pack was created with arguments, at least one, of the types of these arguments, whose pointers all
  pass \<open>gpointer_check\<close> (a stale one makes pack send nothing), leaves pack as one list, unchanged, and unpack, created with the same
  arguments, gives back every element at its outlet, from right to left.\<close>

theorem pack_unpack_roundtrip:
  assumes "args \<noteq> []" "map kind_of as = map (Some \<circ> arg_kind) args" "\<forall>gp. POINTER gp \<in> set as \<longrightarrow> ok gp"
  shows "pack_list ok record_list as (pack_new args, []) = ((pack_new args)\<lparr>pk_vec := as\<rparr>, [as]) \<and>
    unpack_list (unpack_new args) as = rev (map (\<lambda>(j, a). (j, atom_to_message a)) (enumerate 0 as))"
proof -
  let ?x = "pack_new args"
  have vec: "map kind_of (pk_vec ?x) = map kind_of as" "pk_vec ?x \<noteq> []" "pk_outvec ?x"
    using assms(1,2) by (auto simp: pack_new_def kind_of_init comp_def)
  have len: "length (pk_vec ?x) = length as" using vec(1) by (metis length_map)
  then obtain a bs v vs where as: "as = a # bs" and v: "pk_vec ?x = v # vs"
    using vec(2) by (cases as; cases "pk_vec ?x") auto
  have some: "\<forall>b \<in> set as. kind_of b \<noteq> None" using assms(2) by (metis comp_apply in_set_conv_nth length_map nth_map option.distinct(1))
  have "store_from 1 bs ?x = ?x\<lparr>pk_vec := v # bs\<rparr>"
    using store_from_ok [of bs 1 ?x] vec(1) len some by (simp add: as v)
  moreover have "same_kind v a" using vec(1) some by (simp add: same_kind_iff as v)
  ultimately have "pack_list ok record_list as (?x, []) = (?x\<lparr>pk_vec := as\<rparr>, [as])"
    using assms(3) vec(3) by (auto simp: as pack_list_def pack_first_def pack_bang_def record_list_def Let_def)
  moreover have "map Some (unpack_new args) = map kind_of as"
    using assms(1,2) by (simp add: unpack_new_def comp_def)
  ultimately show ?thesis by (simp add: unpack_list_def unpack_loop_all)
qed

theorem pack_unpack_roundtrip_witness:
  "unpack_list (unpack_new [FLOAT (Fin 0), SYMBOL ''s'', SYMBOL ''p'']) [FLOAT (Fin 7), SYMBOL ''x'', POINTER 3] =
     [(2, Pointer 3), (1, Symbol ''x''), (0, Float (Fin 7))]"
  using pack_unpack_roundtrip [of "[FLOAT (Fin 0), SYMBOL ''s'', SYMBOL ''p'']"
      "[FLOAT (Fin 7), SYMBOL ''x'', POINTER 3]" "\<lambda>_. True"]
  by (simp add: arg_kind_def)

subsection \<open>trigger\<close>

lemma trigger_loop_order:
  assumes "\<And>i u. one i u = [] \<or> (\<exists>m. one i u = [(i, m)])"
  shows "sorted_wrt (>) (map fst (trigger_loop one i us)) \<and>
    (\<forall>k \<in> fst ` set (trigger_loop one i us). i \<le> k \<and> k < i + length us)"
proof (induction us arbitrary: i)
  case (Cons u us)
  then show ?case using Cons.IH [of "Suc i"] assms [of i u] by (fastforce simp: sorted_wrt_append)
qed simp

text \<open>Whatever message it gets, trigger sends at most one message through each of its
  outlets, strictly from right to left.\<close>

theorem trigger_right_to_left:
  "sorted_wrt (>) (map fst (trigger_message x m)) \<and> fst ` set (trigger_message x m) \<subseteq> {..<length x}"
proof -
  have list: "trigger_one i u argv = [] \<or> (\<exists>m. trigger_one i u argv = [(i, m)])" for i u argv
    by (auto simp: trigger_one_def split: tr_type.splits list.splits t_atom.splits)
  have "\<exists>one. trigger_message x m = trigger_loop one 0 x \<and> (\<forall>i u. one i u = [] \<or> (\<exists>m. one i u = [(i, m)]))"
    using list by (cases m) (fastforce simp: trigger_message_def trigger_list_def trigger_anything_def)+
  then obtain one where "trigger_message x m = trigger_loop one 0 x" "\<And>i u. one i u = [] \<or> (\<exists>m. one i u = [(i, m)])"
    by blast
  then show ?thesis using trigger_loop_order [of one 0 x] by auto
qed

end
