(* ===== verification/RingBuf.thy ===== *)
theory RingBuf
  imports Prelude
begin

text \<open>
  The ring buffer between the audio callback and the scheduler (\<open>s_audio_paring.c\<close>). The
  indices run over twice the size of the buffer, so that a full buffer and an empty one
  differ. Reads and writes are modelled twice: as the functions the code has, and, because
  the two ends run in different threads, as a step relation in which every byte copied and every
  index update is a step of its own. Indices stay below twice the size of a buffer in
  memory, so the arithmetic on \<open>long\<close> never wraps.
\<close>

record 'a sys_ringbuf =
  bufferSize :: int
  writeIndex :: int
  readIndex :: int
  buffer :: "'a list"

text \<open>Two regions of the buffer: the index and the size of each.\<close>

record regions =
  data1 :: int
  size1 :: int
  data2 :: int
  size2 :: int

subsection \<open>Operations\<close>

definition sys_ringbuf_GetReadAvailable :: "'a sys_ringbuf \<Rightarrow> int" where
  "sys_ringbuf_GetReadAvailable R =
     (let ret = writeIndex R - readIndex R in if ret < 0 then ret + 2 * bufferSize R else ret)"

definition sys_ringbuf_GetWriteAvailable :: "'a sys_ringbuf \<Rightarrow> int" where
  "sys_ringbuf_GetWriteAvailable R = bufferSize R - sys_ringbuf_GetReadAvailable R"

definition memset0 :: "'a \<Rightarrow> int \<Rightarrow> 'a sys_ringbuf \<Rightarrow> 'a sys_ringbuf cresult" where
  "memset0 z n R = (if 0 \<le> n \<and> n \<le> int (length (buffer R))
     then Inr (R\<lparr>buffer := replicate (nat n) z @ drop (nat n) (buffer R)\<rparr>) else Inl OutOfBounds)"

definition sys_ringbuf_Flush :: "'a \<Rightarrow> int \<Rightarrow> 'a sys_ringbuf \<Rightarrow> 'a sys_ringbuf cresult" where
  "sys_ringbuf_Flush z nfill R = memset0 z nfill (R\<lparr>readIndex := 0, writeIndex := nfill\<rparr>)"

definition sys_ringbuf_Init :: "'a \<Rightarrow> int \<Rightarrow> 'a list \<Rightarrow> int \<Rightarrow> 'a sys_ringbuf cresult" where
  "sys_ringbuf_Init z numBytes dataPtr nfill =
     sys_ringbuf_Flush z nfill \<lparr>bufferSize = numBytes, writeIndex = 0, readIndex = 0, buffer = dataPtr\<rparr>"

text \<open>\<open>while (index >= rbuf->bufferSize) index -= rbuf->bufferSize;\<close>\<close>

partial_function (option) wrap_loop :: "int \<Rightarrow> int \<Rightarrow> int option" where
  "wrap_loop n i = (if n \<le> i then wrap_loop n (i - n) else Some i)"

text \<open>The regions for a number of bytes from an index on, as both region functions find them.\<close>

definition find_regions :: "int \<Rightarrow> int \<Rightarrow> int \<Rightarrow> (int \<times> regions) option" where
  "find_regions n start numBytes = map_option (\<lambda>index.
     (numBytes, if index + numBytes > n
        then \<lparr>data1 = index, size1 = n - index, data2 = 0, size2 = numBytes - (n - index)\<rparr>
        else \<lparr>data1 = index, size1 = numBytes, data2 = 0, size2 = 0\<rparr>)) (wrap_loop n start)"

definition sys_ringbuf_GetWriteRegions :: "int \<Rightarrow> 'a sys_ringbuf \<Rightarrow> (int \<times> regions) option" where
  "sys_ringbuf_GetWriteRegions numBytes R =
     (let available = sys_ringbuf_GetWriteAvailable R in
      find_regions (bufferSize R) (writeIndex R) (if numBytes > available then available else numBytes))"

definition sys_ringbuf_GetReadRegions :: "int \<Rightarrow> 'a sys_ringbuf \<Rightarrow> (int \<times> regions) option" where
  "sys_ringbuf_GetReadRegions numBytes R =
     (let available = sys_ringbuf_GetReadAvailable R in
      find_regions (bufferSize R) (readIndex R) (if numBytes > available then available else numBytes))"

definition sys_ringbuf_AdvanceWriteIndex :: "int \<Rightarrow> 'a sys_ringbuf \<Rightarrow> 'a sys_ringbuf" where
  "sys_ringbuf_AdvanceWriteIndex numBytes R =
     (let ret = writeIndex R + numBytes
      in R\<lparr>writeIndex := (if ret \<ge> 2 * bufferSize R then ret - 2 * bufferSize R else ret)\<rparr>)"

definition sys_ringbuf_AdvanceReadIndex :: "int \<Rightarrow> 'a sys_ringbuf \<Rightarrow> 'a sys_ringbuf" where
  "sys_ringbuf_AdvanceReadIndex numBytes R =
     (let ret = readIndex R + numBytes
      in R\<lparr>readIndex := (if ret \<ge> 2 * bufferSize R then ret - 2 * bufferSize R else ret)\<rparr>)"

text \<open>\<open>memcpy\<close> into and out of the buffer.\<close>

definition copy_in :: "int \<Rightarrow> 'a list \<Rightarrow> 'a sys_ringbuf \<Rightarrow> 'a sys_ringbuf cresult" where
  "copy_in i xs R = (if 0 \<le> i \<and> i + int (length xs) \<le> int (length (buffer R))
     then Inr (R\<lparr>buffer := take (nat i) (buffer R) @ xs @ drop (nat i + length xs) (buffer R)\<rparr>)
     else Inl OutOfBounds)"

definition copy_out :: "int \<Rightarrow> int \<Rightarrow> 'a sys_ringbuf \<Rightarrow> 'a list cresult" where
  "copy_out i n R = (if 0 \<le> i \<and> 0 \<le> n \<and> i + n \<le> int (length (buffer R))
     then Inr (take (nat n) (drop (nat i) (buffer R))) else Inl OutOfBounds)"

definition sys_ringbuf_Write :: "'a list \<Rightarrow> 'a sys_ringbuf \<Rightarrow> (int \<times> 'a sys_ringbuf) cresult option" where
  "sys_ringbuf_Write data R =
     map_option (\<lambda>(numWritten, g).
       cbind (if size2 g > 0
              then cbind (copy_in (data1 g) (take (nat (size1 g)) data) R)
                     (copy_in (data2 g) (take (nat (size2 g)) (drop (nat (size1 g)) data)))
              else copy_in (data1 g) (take (nat (size1 g)) data) R)
         (\<lambda>R'. Inr (numWritten, sys_ringbuf_AdvanceWriteIndex numWritten R')))
     (sys_ringbuf_GetWriteRegions (int (length data)) R)"

definition sys_ringbuf_Read :: "int \<Rightarrow> 'a sys_ringbuf \<Rightarrow> ('a list \<times> 'a sys_ringbuf) cresult option" where
  "sys_ringbuf_Read numBytes R =
     map_option (\<lambda>(numRead, g).
       cbind (if size2 g > 0
              then cbind (copy_out (data1 g) (size1 g) R) (\<lambda>xs.
                     cbind (copy_out (data2 g) (size2 g) R) (\<lambda>ys. Inr (xs @ ys)))
              else copy_out (data1 g) (size1 g) R)
         (\<lambda>xs. Inr (xs, sys_ringbuf_AdvanceReadIndex numRead R)))
     (sys_ringbuf_GetReadRegions numBytes R)"

subsection \<open>The stream\<close>

text \<open>
  The invariant relates the buffer to the stream of all bytes ever written and to the number
  of bytes read so far: the bytes not yet read are in the buffer, each at its position in the stream
  modulo the size.
\<close>

definition ring_ok :: "'a sys_ringbuf \<Rightarrow> nat \<Rightarrow> 'a list \<Rightarrow> bool" where
  "ring_ok R rd st \<longleftrightarrow> 0 < length (buffer R) \<and> bufferSize R = int (length (buffer R)) \<and>
     readIndex R = int (rd mod (2 * length (buffer R))) \<and>
     writeIndex R = int (length st mod (2 * length (buffer R))) \<and>
     rd \<le> length st \<and> length st \<le> rd + length (buffer R) \<and>
     (\<forall>k. rd \<le> k \<and> k < length st \<longrightarrow> buffer R ! (k mod length (buffer R)) = st ! k)"

lemma wrap_loop_mod: "0 < n \<Longrightarrow> wrap_loop (int n) (int i) = Some (int (i mod n))"
proof (induction i rule: less_induct)
  case (less i)
  show ?case
  proof (cases "n \<le> i")
    case True
    then have "wrap_loop (int n) (int (i - n)) = Some (int ((i - n) mod n))"
      using less.prems by (intro less.IH) auto
    with True show ?thesis by (simp add: wrap_loop.simps [of "int n" "int i"] le_mod_geq of_nat_diff)
  next
    case False
    then show ?thesis by (simp add: wrap_loop.simps)
  qed
qed

lemma mod_diff_cases:
  fixes a b m :: nat
  assumes "a \<le> b" "b < a + m" "0 < m"
  shows "(b mod m) + (if b mod m < a mod m then m else 0) = a mod m + (b - a)"
proof -
  obtain d where d: "b = a + d" "d < m" using assms by (metis le_add_diff_inverse nat_add_left_cancel_less)
  have "b mod m = (a mod m + d) mod m" by (simp add: d mod_simps)
  moreover have "a mod m < m" using assms by simp
  ultimately show ?thesis using d by (cases "a mod m + d < m") (auto simp: le_mod_geq not_less)
qed

lemma read_available:
  assumes "ring_ok R rd st"
  shows "sys_ringbuf_GetReadAvailable R = int (length st - rd)"
    "sys_ringbuf_GetWriteAvailable R = int (length (buffer R) - (length st - rd))"
proof -
  let ?n = "length (buffer R)"
  have "length st mod (2 * ?n) + (if length st mod (2 * ?n) < rd mod (2 * ?n) then 2 * ?n else 0) =
      rd mod (2 * ?n) + (length st - rd)"
    using assms unfolding ring_ok_def by (intro mod_diff_cases) linarith+
  then show *: "sys_ringbuf_GetReadAvailable R = int (length st - rd)"
    using assms unfolding sys_ringbuf_GetReadAvailable_def Let_def ring_ok_def by (auto split: if_splits)
  show "sys_ringbuf_GetWriteAvailable R = int (?n - (length st - rd))"
    unfolding sys_ringbuf_GetWriteAvailable_def * using assms by (auto simp: ring_ok_def)
qed

text \<open>The \<open>j\<close>-th byte of the regions, and where it is in the stream.\<close>

definition region_index :: "regions \<Rightarrow> nat \<Rightarrow> nat" where
  "region_index g j = nat (if int j < size1 g then data1 g + int j else data2 g + (int j - size1 g))"

lemma find_regions_mod:
  assumes "0 < n" "m \<le> n"
  obtains g where "find_regions (int n) (int (p mod (2 * n))) (int m) = Some (int m, g)"
    "\<And>j. j < m \<Longrightarrow> region_index g j = (p + j) mod n"
    "0 \<le> data1 g" "0 \<le> size1 g" "data1 g + size1 g \<le> int n" "data2 g = 0" "0 \<le> size2 g" "size2 g \<le> int n"
    "size1 g + size2 g = int m" "data1 g = int (p mod n)"
proof -
  have w: "wrap_loop (int n) (int (p mod (2 * n))) = Some (int (p mod n))"
    using assms(1) by (simp add: wrap_loop_mod mod_mod_cancel)
  let ?i = "p mod n"
  let ?g = "if int ?i + int m > int n
    then \<lparr>data1 = int ?i, size1 = int n - int ?i, data2 = 0, size2 = int m - (int n - int ?i)\<rparr>
    else \<lparr>data1 = int ?i, size1 = int m, data2 = 0, size2 = 0\<rparr>"
  have i: "?i < n" using assms(1) by simp
  have "region_index ?g j = (p + j) mod n" if "j < m" for j
  proof -
    have "(p + j) mod n = (?i + j) mod n" by (simp add: mod_simps)
    then show ?thesis
      using that i assms(2) by (cases "?i + j < n") (auto simp: region_index_def le_mod_geq not_less nat_add_distrib
          split: if_splits)
  qed
  then show ?thesis using that [of ?g] i assms(2) by (auto simp: find_regions_def w)
qed

lemma mod_distinct:
  fixes k l m :: nat
  assumes "k < l" "l < k + n"
  shows "k mod n \<noteq> l mod n"
proof
  assume "k mod n = l mod n"
  then have "n dvd l - k" using assms(1) by (metis less_imp_le mod_eq_dvd_iff_nat)
  then show False using assms by (auto dest: dvd_imp_le)
qed

text \<open>Changing free cells of the buffer keeps the invariant, and so does committing them.\<close>

lemma ring_ok_free:
  assumes "ring_ok R rd st" "length b = length (buffer R)"
    "\<And>i. i < length b \<Longrightarrow> b ! i \<noteq> buffer R ! i \<Longrightarrow>
      \<exists>j. i = (length st + j) mod length b \<and> length st + j < rd + length b"
  shows "ring_ok (R\<lparr>buffer := b\<rparr>) rd st"
proof -
  have "b ! (k mod length b) = buffer R ! (k mod length b)" if k: "rd \<le> k" "k < length st" for k
  proof (rule ccontr)
    assume "b ! (k mod length b) \<noteq> buffer R ! (k mod length b)"
    moreover have "k mod length b < length b" using assms(1,2) by (simp add: ring_ok_def)
    ultimately obtain j where "k mod length b = (length st + j) mod length b" "length st + j < rd + length b"
      using assms(3) by blast
    then show False using mod_distinct [of k "length st + j" "length b"] k by simp
  qed
  then show ?thesis using assms(1,2) by (simp add: ring_ok_def)
qed

lemma add_mod_wrap:
  fixes a m n :: nat
  assumes "m \<le> n" "0 < n"
  shows "int ((a + m) mod (2 * n)) =
    (if int (a mod (2 * n)) + int m \<ge> 2 * int n then int (a mod (2 * n)) + int m - 2 * int n
     else int (a mod (2 * n)) + int m)"
proof -
  obtain r where r: "r = a mod (2 * n)" by simp
  then have lt: "r < 2 * n" using assms by simp
  have "(a + m) mod (2 * n) = (r + m) mod (2 * n)" by (simp add: r mod_simps)
  also have "\<dots> = (if r + m \<ge> 2 * n then r + m - 2 * n else r + m)"
    using lt assms by (auto simp: le_mod_geq)
  finally show ?thesis using assms by (auto simp: r [symmetric] of_nat_diff)
qed

lemma ring_ok_advance_write:
  assumes "ring_ok R rd st" "length st + length xs \<le> rd + length (buffer R)"
    "\<And>j. j < length xs \<Longrightarrow> buffer R ! ((length st + j) mod length (buffer R)) = xs ! j"
  shows "ring_ok (sys_ringbuf_AdvanceWriteIndex (int (length xs)) R) rd (st @ xs)"
proof -
  have "buffer R ! (k mod length (buffer R)) = (st @ xs) ! k" if "rd \<le> k" "k < length st + length xs" for k
    using that assms(1) assms(3) [of "k - length st"]
    by (cases "k < length st") (auto simp: ring_ok_def nth_append)
  then show ?thesis
    using assms(1,2) add_mod_wrap [of "length xs" "length (buffer R)" "length st"]
    by (auto simp: ring_ok_def sys_ringbuf_AdvanceWriteIndex_def Let_def)
qed

lemma ring_ok_advance_read:
  assumes "ring_ok R rd st" "rd + m \<le> length st"
  shows "ring_ok (sys_ringbuf_AdvanceReadIndex (int m) R) (rd + m) st"
  using assms add_mod_wrap [of m "length (buffer R)" rd]
  by (auto simp: ring_ok_def sys_ringbuf_AdvanceReadIndex_def Let_def)

lemma read_cell:
  assumes "ring_ok R rd st" "rd \<le> k" "k < length st"
  shows "buffer R ! (k mod length (buffer R)) = st ! k"
  using assms by (simp add: ring_ok_def)

subsection \<open>Reading and writing in turn\<close>

lemma copy_in_nth:
  assumes "0 \<le> i" "i + int (length xs) \<le> int (length (buffer R))"
  obtains b where "copy_in i xs R = Inr (R\<lparr>buffer := b\<rparr>)" "length b = length (buffer R)"
    "\<And>k. k < length b \<Longrightarrow> b ! k = (if nat i \<le> k \<and> k < nat i + length xs then xs ! (k - nat i) else buffer R ! k)"
proof -
  let ?b = "take (nat i) (buffer R) @ xs @ drop (nat i + length xs) (buffer R)"
  have "nat i + length xs \<le> length (buffer R)" using assms by linarith
  then have "?b ! k = (if nat i \<le> k \<and> k < nat i + length xs then xs ! (k - nat i) else buffer R ! k)"
    if "k < length (buffer R)" for k
    using that by (auto simp: nth_append min_def)
  then show ?thesis using that [of ?b] assms \<open>nat i + length xs \<le> length (buffer R)\<close> by (auto simp: copy_in_def)
qed

text \<open>Storing into the regions: the cells they name get the data, the others stay.\<close>

lemma store_regions:
  assumes g: "\<And>j. j < m \<Longrightarrow> region_index g j = (p + j) mod length (buffer R)"
    "0 \<le> data1 g" "0 \<le> size1 g" "data1 g + size1 g \<le> int (length (buffer R))" "data2 g = 0" "0 \<le> size2 g"
    "size2 g \<le> int (length (buffer R))" "size1 g + size2 g = int m"
    and "m \<le> length xs" "m \<le> length (buffer R)"
  obtains b where "(if size2 g > 0
      then cbind (copy_in (data1 g) (take (nat (size1 g)) xs) R)
             (copy_in (data2 g) (take (nat (size2 g)) (drop (nat (size1 g)) xs)))
      else copy_in (data1 g) (take (nat (size1 g)) xs) R) = Inr (R\<lparr>buffer := b\<rparr>)"
    "length b = length (buffer R)"
    "\<And>j. j < m \<Longrightarrow> b ! ((p + j) mod length b) = xs ! j"
    "\<And>i. i < length b \<Longrightarrow> b ! i \<noteq> buffer R ! i \<Longrightarrow> \<exists>j < m. i = (p + j) mod length b"
proof -
  let ?s1 = "nat (size1 g)" and ?s2 = "nat (size2 g)" and ?d = "nat (data1 g)"
  have m: "m = ?s1 + ?s2" using g by linarith
  have idx1: "(p + j) mod length (buffer R) = ?d + j" if "j < ?s1" for j
    using g(1) [of j] that m g by (simp add: region_index_def nat_add_distrib zless_nat_eq_int_zless)
  have idx2: "(p + (?s1 + j)) mod length (buffer R) = j" if "j < ?s2" for j
    using g(1) [of "?s1 + j"] that m g(3,5) by (simp add: region_index_def add.assoc)
  have l1: "length (take ?s1 xs) = ?s1" using m assms(9) by simp
  have e1: "data1 g + int (length (take ?s1 xs)) \<le> int (length (buffer R))" using l1 g(3,4) by simp
  obtain b1 where b1: "copy_in (data1 g) (take ?s1 xs) R = Inr (R\<lparr>buffer := b1\<rparr>)" "length b1 = length (buffer R)"
    and b1_nth: "\<And>k. k < length b1 \<Longrightarrow> b1 ! k =
      (if ?d \<le> k \<and> k < ?d + length (take ?s1 xs) then take ?s1 xs ! (k - ?d) else buffer R ! k)"
    using copy_in_nth [OF g(2) e1] by metis
  have b1_nth: "b1 ! k = (if ?d \<le> k \<and> k < ?d + ?s1 then xs ! (k - ?d) else buffer R ! k)" if "k < length b1" for k
    using b1_nth [OF that] l1 by auto
  have l2: "length (take ?s2 (drop ?s1 xs)) = ?s2" using m assms(9) by simp
  have e2: "0 + int (length (take ?s2 (drop ?s1 xs))) \<le> int (length (buffer (R\<lparr>buffer := b1\<rparr>)))"
    using l2 g(6,7) b1(2) by simp
  obtain b2 where b2: "copy_in 0 (take ?s2 (drop ?s1 xs)) (R\<lparr>buffer := b1\<rparr>) = Inr (R\<lparr>buffer := b1\<rparr>\<lparr>buffer := b2\<rparr>)"
      "length b2 = length (buffer (R\<lparr>buffer := b1\<rparr>))"
    and b2_nth: "\<And>k. k < length b2 \<Longrightarrow> b2 ! k = (if nat 0 \<le> k \<and> k < nat 0 + length (take ?s2 (drop ?s1 xs))
      then take ?s2 (drop ?s1 xs) ! (k - nat 0) else buffer (R\<lparr>buffer := b1\<rparr>) ! k)"
    using copy_in_nth [OF order_refl e2] by metis
  have b2: "copy_in 0 (take ?s2 (drop ?s1 xs)) (R\<lparr>buffer := b1\<rparr>) = Inr (R\<lparr>buffer := b2\<rparr>)" "length b2 = length (buffer R)"
    using b2 b1(2) by simp_all
  have b2_nth: "b2 ! k = (if k < ?s2 then xs ! (?s1 + k) else b1 ! k)" if "k < length b2" for k
    using b2_nth [OF that] l2 m assms(9) by auto
  have in1: "?d + j < length (buffer R)" if "j < ?s1" for j using that g(2,3,4) by linarith
  have in2: "?s2 \<le> length (buffer R)" using g(6,7) by linarith
  have apart: "\<not> ?d + j < ?s2" if "j < ?s1" for j
  proof
    assume "?d + j < ?s2"
    then have "(p + j) mod length (buffer R) = (p + (?s1 + (?d + j))) mod length (buffer R)"
      using idx1 [OF that] idx2 [of "?d + j"] by simp
    moreover have "?s1 + (?d + j) < j + length (buffer R)"
      using \<open>?d + j < ?s2\<close> m assms(10) by linarith
    moreover have "p + j < p + (?s1 + (?d + j))" using that by linarith
    ultimately show False using mod_distinct [of "p + j" "p + (?s1 + (?d + j))" "length (buffer R)"] by linarith
  qed
  let ?b = "if size2 g > 0 then b2 else b1"
  have len: "length ?b = length (buffer R)" using b1(2) b2(2) by simp
  have b: "?b ! k = (if k < ?s2 then xs ! (?s1 + k) else if ?d \<le> k \<and> k < ?d + ?s1 then xs ! (k - ?d) else buffer R ! k)"
    if "k < length (buffer R)" for k
    using that b1 b1_nth b2 b2_nth by (cases "size2 g > 0") auto
  show ?thesis
  proof (rule that [of ?b])
    show "?b ! ((p + j) mod length ?b) = xs ! j" if j: "j < m" for j
    proof (cases "j < ?s1")
      case True
      then show ?thesis using idx1 b [of "?d + j"] in1 apart len by simp
    next
      case False
      define i where "i = j - ?s1"
      have i: "j = ?s1 + i" "i < ?s2" using j False m by (simp_all add: i_def)
      then show ?thesis using idx2 [OF i(2)] b [of i] in2 len by simp
    qed
    show "\<exists>j < m. i = (p + j) mod length ?b" if i: "i < length ?b" "?b ! i \<noteq> buffer R ! i" for i
    proof (cases "i < ?s2")
      case True
      then show ?thesis using idx2 [OF True] m len by (intro exI [of _ "?s1 + i"]) simp
    next
      case False
      then have "?d \<le> i" "i < ?d + ?s1" using i b [of i] len by (auto split: if_splits)
      then show ?thesis using idx1 [of "i - ?d"] m len by (intro exI [of _ "i - ?d"]) simp
    qed
  qed (use b1 b2 g(5) len in auto)
qed

lemma Write_ok:
  fixes xs :: "'a list"
  assumes "ring_ok R rd st"
  defines "m \<equiv> min (length xs) (length (buffer R) - (length st - rd))"
  obtains R' where "sys_ringbuf_Write xs R = Some (Inr (int m, R'))" "ring_ok R' rd (st @ take m xs)"
    "length (buffer R') = length (buffer R)"
proof -
  let ?n = "length (buffer R)"
  have n: "0 < ?n" "bufferSize R = int ?n" "writeIndex R = int (length st mod (2 * ?n))" "rd \<le> length st"
    "length st \<le> rd + ?n" using assms(1) by (auto simp: ring_ok_def)
  have m: "m \<le> length xs" "m \<le> ?n" "length st + m \<le> rd + ?n" using n(5) by (auto simp: m_def)
  obtain g where g: "find_regions (int ?n) (int (length st mod (2 * ?n))) (int m) = Some (int m, g)"
    "\<And>j. j < m \<Longrightarrow> region_index g j = (length st + j) mod ?n"
    "0 \<le> data1 g" "0 \<le> size1 g" "data1 g + size1 g \<le> int ?n" "data2 g = 0" "0 \<le> size2 g" "size2 g \<le> int ?n"
    "size1 g + size2 g = int m" using find_regions_mod [OF n(1) m(2), of "length st"] by metis
  have req: "sys_ringbuf_GetWriteRegions (int (length xs)) R = Some (int m, g)"
    using g(1) n(2,3) read_available [OF assms(1)]
    by (auto simp: sys_ringbuf_GetWriteRegions_def Let_def m_def min_def split: if_splits)
  obtain b where b: "(if size2 g > 0
      then cbind (copy_in (data1 g) (take (nat (size1 g)) xs) R)
             (copy_in (data2 g) (take (nat (size2 g)) (drop (nat (size1 g)) xs)))
      else copy_in (data1 g) (take (nat (size1 g)) xs) R) = Inr (R\<lparr>buffer := b\<rparr>)" "length b = ?n"
    "\<And>j. j < m \<Longrightarrow> b ! ((length st + j) mod length b) = xs ! j"
    "\<And>i. i < length b \<Longrightarrow> b ! i \<noteq> buffer R ! i \<Longrightarrow> \<exists>j < m. i = (length st + j) mod length b"
    using store_regions [OF g(2-9) m(1,2)] by metis
  have "ring_ok (R\<lparr>buffer := b\<rparr>) rd st"
    using b(2,4) m(3) by (intro ring_ok_free [OF assms(1)]) fastforce+
  then have "ring_ok (sys_ringbuf_AdvanceWriteIndex (int (length (take m xs))) (R\<lparr>buffer := b\<rparr>)) rd (st @ take m xs)"
    using b(2,3) m by (intro ring_ok_advance_write) auto
  then show ?thesis
    using that [of "sys_ringbuf_AdvanceWriteIndex (int m) (R\<lparr>buffer := b\<rparr>)"] b(1,2) m(1)
    by (simp add: sys_ringbuf_Write_def req sys_ringbuf_AdvanceWriteIndex_def Let_def min_absorb2)
qed

lemma Read_ok:
  fixes k :: nat
  assumes "ring_ok R rd st"
  defines "m \<equiv> min k (length st - rd)"
  obtains R' where "sys_ringbuf_Read (int k) R = Some (Inr (take m (drop rd st), R'))" "ring_ok R' (rd + m) st"
    "length (buffer R') = length (buffer R)"
proof -
  let ?n = "length (buffer R)"
  have n: "0 < ?n" "bufferSize R = int ?n" "readIndex R = int (rd mod (2 * ?n))" "rd \<le> length st"
    "length st \<le> rd + ?n" using assms(1) by (auto simp: ring_ok_def)
  have m: "m \<le> ?n" "rd + m \<le> length st" using n(4,5) by (auto simp: m_def)
  obtain g where g: "find_regions (int ?n) (int (rd mod (2 * ?n))) (int m) = Some (int m, g)"
    "\<And>j. j < m \<Longrightarrow> region_index g j = (rd + j) mod ?n"
    "0 \<le> data1 g" "0 \<le> size1 g" "data1 g + size1 g \<le> int ?n" "data2 g = 0" "0 \<le> size2 g" "size2 g \<le> int ?n"
    "size1 g + size2 g = int m" using find_regions_mod [OF n(1) m(1), of rd] by metis
  have req: "sys_ringbuf_GetReadRegions (int k) R = Some (int m, g)"
    using g(1) n(2,3) read_available [OF assms(1)]
    by (auto simp: sys_ringbuf_GetReadRegions_def Let_def m_def min_def split: if_splits)
  let ?s1 = "nat (size1 g)" and ?s2 = "nat (size2 g)" and ?d = "nat (data1 g)"
  have ms: "m = ?s1 + ?s2" using g by linarith
  have cell: "buffer R ! region_index g j = st ! (rd + j)" if "j < m" for j
    using read_cell [OF assms(1), of "rd + j"] g(2) [OF that] that m(2) by simp
  have out1: "take ?s1 (drop ?d (buffer R)) = take ?s1 (drop rd st)"
  proof (rule nth_equalityI)
    show "length (take ?s1 (drop ?d (buffer R))) = length (take ?s1 (drop rd st))" using g(3-5) ms m(2) by auto
    show "take ?s1 (drop ?d (buffer R)) ! j = take ?s1 (drop rd st) ! j" if "j < length (take ?s1 (drop ?d (buffer R)))" for j
      using that cell [of j] ms m(2) g(3,4,5) by (simp add: region_index_def nat_add_distrib zless_nat_eq_int_zless)
  qed
  have out2: "take ?s2 (buffer R) = take ?s2 (drop (rd + ?s1) st)"
  proof (rule nth_equalityI)
    show "length (take ?s2 (buffer R)) = length (take ?s2 (drop (rd + ?s1) st))" using g(7,8) ms m(2) by auto
    show "take ?s2 (buffer R) ! j = take ?s2 (drop (rd + ?s1) st) ! j" if "j < length (take ?s2 (buffer R))" for j
      using that cell [of "?s1 + j"] ms m(2) g(4,6) by (simp add: region_index_def add.assoc)
  qed
  have "take m (drop rd st) = take ?s1 (drop rd st) @ take ?s2 (drop (rd + ?s1) st)"
    by (simp add: ms take_add add.commute)
  then have "sys_ringbuf_Read (int k) R = Some (Inr (take m (drop rd st), sys_ringbuf_AdvanceReadIndex (int m) R))"
    using g(3-9) out1 out2 ms by (auto simp: sys_ringbuf_Read_def req copy_out_def)
  then show ?thesis
    using that [of "sys_ringbuf_AdvanceReadIndex (int m) R"] ring_ok_advance_read [OF assms(1) m(2)]
    by (simp add: sys_ringbuf_AdvanceReadIndex_def Let_def)
qed

subsection \<open>What a bounded queue promises\<close>

datatype 'a ring_op = Put "'a list" | Get nat

text \<open>The specification: a queue of limited length, and what each \<open>Get\<close> gives.\<close>

fun queue_run :: "nat \<Rightarrow> 'a ring_op list \<Rightarrow> 'a list \<Rightarrow> 'a list list \<times> 'a list" where
  "queue_run cap [] q = ([], q)"
| "queue_run cap (Put xs # ps) q = queue_run cap ps (q @ take (cap - length q) xs)"
| "queue_run cap (Get k # ps) q = (let (outs, q') = queue_run cap ps (drop k q) in (take k q # outs, q'))"

fun run_ring :: "('a list \<Rightarrow> 's \<Rightarrow> (int \<times> 's) cresult option) \<Rightarrow> (int \<Rightarrow> 's \<Rightarrow> ('a list \<times> 's) cresult option) \<Rightarrow>
    'a ring_op list \<Rightarrow> 's \<Rightarrow> ('a list list \<times> 's) cresult option" where
  "run_ring put get [] S = Some (Inr ([], S))"
| "run_ring put get (Put xs # ps) S = (case put xs S of None \<Rightarrow> None | Some (Inl e) \<Rightarrow> Some (Inl e)
     | Some (Inr (n, S')) \<Rightarrow> run_ring put get ps S')"
| "run_ring put get (Get k # ps) S = (case get (int k) S of None \<Rightarrow> None | Some (Inl e) \<Rightarrow> Some (Inl e)
     | Some (Inr (out, S')) \<Rightarrow> map_option (map_sum id (\<lambda>(outs, S''). (out # outs, S''))) (run_ring put get ps S'))"

locale bounded_queue =
  fixes put :: "'a list \<Rightarrow> 's \<Rightarrow> (int \<times> 's) cresult option"
    and get :: "int \<Rightarrow> 's \<Rightarrow> ('a list \<times> 's) cresult option"
    and ok :: "'s \<Rightarrow> nat \<Rightarrow> 'a list \<Rightarrow> bool"
    and cap :: "'s \<Rightarrow> nat"
  assumes put_law: "ok S rd st \<Longrightarrow> \<exists>S'. put xs S = Some (Inr (int (min (length xs) (cap S - (length st - rd))), S')) \<and>
      ok S' rd (st @ take (min (length xs) (cap S - (length st - rd))) xs) \<and> cap S' = cap S"
    and get_law: "ok S rd st \<Longrightarrow> \<exists>S'. get (int k) S = Some (Inr (take (min k (length st - rd)) (drop rd st), S')) \<and>
      ok S' (rd + min k (length st - rd)) st \<and> cap S' = cap S"
    and bound_law: "ok S rd st \<Longrightarrow> rd \<le> length st"
begin

lemma run_refines:
  assumes "ok S rd st"
  shows "\<exists>S' rd' st'. run_ring put get ps S = Some (Inr (fst (queue_run (cap S) ps (drop rd st)), S')) \<and>
    ok S' rd' st' \<and> drop rd' st' = snd (queue_run (cap S) ps (drop rd st)) \<and> cap S' = cap S"
  using assms
proof (induction ps arbitrary: S rd st)
  case (Cons p ps)
  note rd = bound_law [OF Cons.prems]
  show ?case
  proof (cases p)
    case (Put xs)
    let ?m = "min (length xs) (cap S - (length st - rd))"
    obtain S1 where S1: "put xs S = Some (Inr (int ?m, S1))" "ok S1 rd (st @ take ?m xs)" "cap S1 = cap S"
      using put_law [OF Cons.prems] by blast
    have "drop rd (st @ take ?m xs) = drop rd st @ take (cap S - length (drop rd st)) xs" using rd by (simp add: min_def)
    then show ?thesis using Cons.IH [OF S1(2)] S1 by (simp add: Put)
  next
    case (Get k)
    let ?m = "min k (length st - rd)"
    obtain S1 where S1: "get (int k) S = Some (Inr (take ?m (drop rd st), S1))" "ok S1 (rd + ?m) st" "cap S1 = cap S"
      using get_law [OF Cons.prems] by blast
    have "take ?m (drop rd st) = take k (drop rd st)" "drop (rd + ?m) st = drop k (drop rd st)"
      by (auto simp: min_def add.commute)
    then show ?thesis using Cons.IH [OF S1(2)] S1 by (fastforce simp: Get split: prod.split)
  qed
qed auto

end

interpretation ring: bounded_queue sys_ringbuf_Write sys_ringbuf_Read ring_ok "\<lambda>R. length (buffer R)"
proof
  fix R :: "'a sys_ringbuf" and rd :: nat and st xs :: "'a list" and k :: nat
  assume ok: "ring_ok R rd st"
  show "rd \<le> length st" using ok by (simp add: ring_ok_def)
  show "\<exists>R'. sys_ringbuf_Write xs R = Some (Inr (int (min (length xs) (length (buffer R) - (length st - rd))), R')) \<and>
      ring_ok R' rd (st @ take (min (length xs) (length (buffer R) - (length st - rd))) xs) \<and>
      length (buffer R') = length (buffer R)"
    using Write_ok [OF ok] by metis
  show "\<exists>R'. sys_ringbuf_Read (int k) R = Some (Inr (take (min k (length st - rd)) (drop rd st), R')) \<and>
      ring_ok R' (rd + min k (length st - rd)) st \<and> length (buffer R') = length (buffer R)"
    using Read_ok [OF ok] by metis
qed

lemma Init_ok:
  assumes "0 < length dataPtr" "nfill \<le> length dataPtr"
  obtains R where "sys_ringbuf_Init z (int (length dataPtr)) dataPtr (int nfill) = Inr R"
    "ring_ok R 0 (replicate nfill z)" "length (buffer R) = length dataPtr"
proof -
  let ?R = "\<lparr>bufferSize = int (length dataPtr), writeIndex = int nfill, readIndex = 0,
    buffer = replicate nfill z @ drop nfill dataPtr\<rparr>"
  have "(replicate nfill z @ drop nfill dataPtr) ! (k mod length dataPtr) = z" if "k < nfill" for k
    using that assms by (simp add: nth_append)
  moreover have "nfill < 2 * length dataPtr" using assms by linarith
  ultimately have "ring_ok ?R 0 (replicate nfill z)"
    using assms by (simp add: ring_ok_def del: length_greater_0_conv)
  then show ?thesis
    using that [of ?R] assms by (simp add: sys_ringbuf_Init_def sys_ringbuf_Flush_def memset0_def)
qed

text \<open>\<^bold>\<open>C13\<close>: However reads and writes of any size follow each other after the ring buffer was set up with
  some zeros in it, each read delivers what a queue of limited length would deliver: the bytes
  written, in order, none lost or doubled, with a write cut off where the buffer is full and a read
  where it is empty. No copy leaves the buffer, and the loops that bring an index into range end.\<close>

theorem ringbuf_is_queue:
  assumes "0 < length dataPtr" "nfill \<le> length dataPtr"
  shows "\<exists>R R'. sys_ringbuf_Init z (int (length dataPtr)) dataPtr (int nfill) = Inr R \<and>
    run_ring sys_ringbuf_Write sys_ringbuf_Read ps R =
      Some (Inr (fst (queue_run (length dataPtr) ps (replicate nfill z)), R'))"
proof -
  obtain R where R: "sys_ringbuf_Init z (int (length dataPtr)) dataPtr (int nfill) = Inr R"
    "ring_ok R 0 (replicate nfill z)" "length (buffer R) = length dataPtr"
    using Init_ok [OF assms] by metis
  then show ?thesis using ring.run_refines [OF R(2), of ps] by auto
qed

theorem ringbuf_is_queue_witness:
  "\<exists>R R'. sys_ringbuf_Init 0 4 [9, 9, 9, 9 :: nat] 1 = Inr R \<and>
    run_ring sys_ringbuf_Write sys_ringbuf_Read [Put [1, 2], Get 2, Put [3, 4, 5, 6], Get 9] R =
      Some (Inr ([[0, 1], [2, 3, 4, 5]], R'))"
  using ringbuf_is_queue [of "[9, 9, 9, 9 :: nat]" 1 0 "[Put [1, 2], Get 2, Put [3, 4, 5, 6], Get 9]"] by simp

subsection \<open>Two threads\<close>

text \<open>
  The audio callback and the scheduler use the buffer without a lock. One end writes: it finds the
  free regions, copies byte by byte and then advances the write index; the other reads: it finds the
  filled regions, copies byte by byte and advances the read index. Each of these is one step, and the
  steps of the two ends interleave in any way. \<open>sent\<close> and \<open>got\<close> record what was
  committed by the writer and by the reader.
\<close>

datatype 'a wstate = WIdle | WCopy regions "'a list" nat
datatype 'a rstate = RIdle | RCopy regions nat "'a list"

record 'a threads =
  ring :: "'a sys_ringbuf"
  wst :: "'a wstate"
  rst :: "'a rstate"
  sent :: "'a list"
  got :: "'a list"

definition store_byte :: "regions \<Rightarrow> nat \<Rightarrow> 'a \<Rightarrow> 'a sys_ringbuf \<Rightarrow> 'a sys_ringbuf" where
  "store_byte g k x R = R\<lparr>buffer := (buffer R)[region_index g k := x]\<rparr>"

inductive ring_step :: "'a threads \<Rightarrow> 'a threads \<Rightarrow> bool" where
  w_begin: "wst s = WIdle \<Longrightarrow> sys_ringbuf_GetWriteRegions (int (length xs)) (ring s) = Some (n, g) \<Longrightarrow>
    ring_step s (s\<lparr>wst := WCopy g (take (nat n) xs) 0\<rparr>)"
| w_byte: "wst s = WCopy g xs k \<Longrightarrow> k < length xs \<Longrightarrow>
    ring_step s (s\<lparr>ring := store_byte g k (xs ! k) (ring s), wst := WCopy g xs (Suc k)\<rparr>)"
| w_commit: "wst s = WCopy g xs (length xs) \<Longrightarrow>
    ring_step s (s\<lparr>ring := sys_ringbuf_AdvanceWriteIndex (int (length xs)) (ring s), wst := WIdle, sent := sent s @ xs\<rparr>)"
| r_begin: "rst s = RIdle \<Longrightarrow> sys_ringbuf_GetReadRegions (int k) (ring s) = Some (n, g) \<Longrightarrow>
    ring_step s (s\<lparr>rst := RCopy g (nat n) []\<rparr>)"
| r_byte: "rst s = RCopy g n ys \<Longrightarrow> length ys < n \<Longrightarrow>
    ring_step s (s\<lparr>rst := RCopy g n (ys @ [buffer (ring s) ! region_index g (length ys)])\<rparr>)"
| r_commit: "rst s = RCopy g (length ys) ys \<Longrightarrow>
    ring_step s (s\<lparr>ring := sys_ringbuf_AdvanceReadIndex (int (length ys)) (ring s), rst := RIdle, got := got s @ ys\<rparr>)"

inductive_cases ring_stepE: "ring_step s t"

text \<open>What holds of the writer while it copies: the bytes copied so far are in free cells. The arguments are
  the buffer, the number of bytes read and the stream.\<close>

fun writer_ok :: "'a list \<Rightarrow> nat \<Rightarrow> 'a list \<Rightarrow> 'a wstate \<Rightarrow> bool" where
  "writer_ok b rd st WIdle = True"
| "writer_ok b rd st (WCopy g xs k) = (k \<le> length xs \<and> length st + length xs \<le> rd + length b \<and>
     (\<forall>j < length xs. region_index g j = (length st + j) mod length b) \<and>
     (\<forall>j < k. b ! ((length st + j) mod length b) = xs ! j))"

text \<open>What holds of the reader: the bytes copied so far are the next ones of the stream.\<close>

fun reader_ok :: "nat \<Rightarrow> nat \<Rightarrow> 'a list \<Rightarrow> 'a rstate \<Rightarrow> bool" where
  "reader_ok sz rd st RIdle = True"
| "reader_ok sz rd st (RCopy g n ys) = (length ys \<le> n \<and> rd + n \<le> length st \<and>
     (\<forall>j < n. region_index g j = (rd + j) mod sz) \<and> take (length ys) (drop rd st) = ys)"

definition threads_ok :: "'a threads \<Rightarrow> bool" where
  "threads_ok s \<longleftrightarrow> ring_ok (ring s) (length (got s)) (sent s) \<and> take (length (got s)) (sent s) = got s \<and>
     writer_ok (buffer (ring s)) (length (got s)) (sent s) (wst s) \<and>
     reader_ok (length (buffer (ring s))) (length (got s)) (sent s) (rst s)"

lemma reader_ok_append: "reader_ok sz rd st r \<Longrightarrow> reader_ok sz rd (st @ xs) r"
  by (cases r) auto

lemma writer_ok_later: "writer_ok b rd st w \<Longrightarrow> writer_ok b (rd + m) st w"
  by (cases w) auto

lemma regions_found:
  assumes "0 < n" "m \<le> n" "find_regions (int n) (int (p mod (2 * n))) (int m) = Some (m', g)"
  shows "m' = int m" "j < m \<Longrightarrow> region_index g j = (p + j) mod n"
  using find_regions_mod [OF assms(1,2), of p] assms(3) by (metis option.inject prod.inject)+

lemma begin_write:
  assumes "threads_ok s" "sys_ringbuf_GetWriteRegions (int (length xs)) (ring s) = Some (n, g)"
  shows "threads_ok (s\<lparr>wst := WCopy g (take (nat n) xs) 0\<rparr>)"
proof -
  let ?R = "ring s" and ?n = "length (buffer (ring s))"
  have ok: "ring_ok ?R (length (got s)) (sent s)" using assms(1) by (simp add: threads_ok_def)
  define m where "m = min (length xs) (?n - (length (sent s) - length (got s)))"
  have n: "0 < ?n" "bufferSize ?R = int ?n" "writeIndex ?R = int (length (sent s) mod (2 * ?n))" "m \<le> ?n"
    "length (sent s) + m \<le> length (got s) + ?n" using ok by (auto simp: ring_ok_def m_def)
  have "find_regions (int ?n) (int (length (sent s) mod (2 * ?n))) (int m) = Some (n, g)"
    using assms(2) n(2,3) read_available [OF ok]
    by (auto simp: sys_ringbuf_GetWriteRegions_def Let_def m_def min_def split: if_splits)
  note g = regions_found [OF n(1,4) this]
  have "length (take (nat n) xs) = m" using g(1) by (simp add: m_def)
  then show ?thesis using assms(1) g(2) n(5) by (simp add: threads_ok_def)
qed

lemma begin_read:
  assumes "threads_ok s" "sys_ringbuf_GetReadRegions (int k) (ring s) = Some (n, g)"
  shows "threads_ok (s\<lparr>rst := RCopy g (nat n) []\<rparr>)"
proof -
  let ?R = "ring s" and ?n = "length (buffer (ring s))"
  have ok: "ring_ok ?R (length (got s)) (sent s)" using assms(1) by (simp add: threads_ok_def)
  define m where "m = min k (length (sent s) - length (got s))"
  have n: "0 < ?n" "bufferSize ?R = int ?n" "readIndex ?R = int (length (got s) mod (2 * ?n))" "m \<le> ?n"
    "length (got s) + m \<le> length (sent s)" using ok by (auto simp: ring_ok_def m_def)
  have "find_regions (int ?n) (int (length (got s) mod (2 * ?n))) (int m) = Some (n, g)"
    using assms(2) n(2,3) read_available [OF ok]
    by (auto simp: sys_ringbuf_GetReadRegions_def Let_def m_def min_def split: if_splits)
  note g = regions_found [OF n(1,4) this]
  then show ?thesis using assms(1) g n(5) by (simp add: threads_ok_def)
qed

lemma write_byte:
  assumes "threads_ok s" "wst s = WCopy g xs k" "k < length xs"
  shows "threads_ok (s\<lparr>ring := store_byte g k (xs ! k) (ring s), wst := WCopy g xs (Suc k)\<rparr>)"
proof -
  let ?n = "length (buffer (ring s))" and ?i = "(length (sent s) + k) mod length (buffer (ring s))"
  let ?b = "(buffer (ring s))[?i := xs ! k]"
  have w: "region_index g k = ?i" "length (sent s) + length xs \<le> length (got s) + ?n"
    "\<And>j. j < k \<Longrightarrow> buffer (ring s) ! ((length (sent s) + j) mod ?n) = xs ! j"
    using assms by (simp_all add: threads_ok_def)
  have ok: "ring_ok (ring s) (length (got s)) (sent s)" "0 < ?n" using assms(1) by (auto simp: threads_ok_def ring_ok_def)
  have "ring_ok ((ring s)\<lparr>buffer := ?b\<rparr>) (length (got s)) (sent s)"
  proof (rule ring_ok_free [OF ok(1)])
    fix i
    assume "i < length ?b" "?b ! i \<noteq> buffer (ring s) ! i"
    then have "i = ?i" by (metis nth_list_update_neq)
    then show "\<exists>j. i = (length (sent s) + j) mod length ?b \<and> length (sent s) + j < length (got s) + length ?b"
      using assms(3) w(2) by (intro exI [of _ k]) simp
  qed simp
  moreover have "?b ! ((length (sent s) + j) mod ?n) = xs ! j" if "j < Suc k" for j
  proof (cases "j = k")
    case True
    then show ?thesis using ok(2) by simp
  next
    case False
    have "length (got s) \<le> length (sent s)" using ok(1) by (simp add: ring_ok_def)
    then have "(length (sent s) + j) mod ?n \<noteq> ?i"
      using False that assms(3) w(2) by (intro mod_distinct) linarith+
    then show ?thesis using w(3) [of j] False that by simp
  qed
  ultimately show ?thesis
    using assms by (simp add: threads_ok_def store_byte_def w(1))
qed

lemma read_byte:
  assumes "threads_ok s" "rst s = RCopy g n ys" "length ys < n"
  shows "threads_ok (s\<lparr>rst := RCopy g n (ys @ [buffer (ring s) ! region_index g (length ys)])\<rparr>)"
proof -
  have r: "length (got s) + n \<le> length (sent s)" "take (length ys) (drop (length (got s)) (sent s)) = ys"
    "region_index g (length ys) = (length (got s) + length ys) mod length (buffer (ring s))"
    using assms by (simp_all add: threads_ok_def)
  have "buffer (ring s) ! region_index g (length ys) = sent s ! (length (got s) + length ys)"
    unfolding r(3) using assms r(1) by (intro read_cell) (auto simp: threads_ok_def)
  moreover have "take (Suc (length ys)) (drop (length (got s)) (sent s)) = ys @ [sent s ! (length (got s) + length ys)]"
    using r(1,2) assms(3) by (subst take_Suc_conv_app_nth) auto
  ultimately show ?thesis using assms by (simp add: threads_ok_def)
qed

lemma commit_write:
  assumes "threads_ok s" "wst s = WCopy g xs (length xs)"
  shows "threads_ok (s\<lparr>ring := sys_ringbuf_AdvanceWriteIndex (int (length xs)) (ring s), wst := WIdle, sent := sent s @ xs\<rparr>)"
proof -
  have "ring_ok (sys_ringbuf_AdvanceWriteIndex (int (length xs)) (ring s)) (length (got s)) (sent s @ xs)"
    using assms by (intro ring_ok_advance_write) (auto simp: threads_ok_def)
  moreover have "buffer (sys_ringbuf_AdvanceWriteIndex (int (length xs)) (ring s)) = buffer (ring s)"
    by (simp add: sys_ringbuf_AdvanceWriteIndex_def Let_def)
  moreover have "length (got s) \<le> length (sent s)" using assms by (simp add: threads_ok_def ring_ok_def)
  ultimately show ?thesis
    using assms by (simp add: threads_ok_def reader_ok_append)
qed

lemma commit_read:
  assumes "threads_ok s" "rst s = RCopy g (length ys) ys"
  shows "threads_ok (s\<lparr>ring := sys_ringbuf_AdvanceReadIndex (int (length ys)) (ring s), rst := RIdle, got := got s @ ys\<rparr>)"
proof -
  have r: "length (got s) + length ys \<le> length (sent s)" "take (length ys) (drop (length (got s)) (sent s)) = ys"
    "take (length (got s)) (sent s) = got s" using assms by (simp_all add: threads_ok_def)
  have "take (length (got s) + length ys) (sent s) = got s @ ys"
    using r(2,3) by (metis take_add)
  moreover have "ring_ok (sys_ringbuf_AdvanceReadIndex (int (length ys)) (ring s)) (length (got s) + length ys) (sent s)"
    using assms r(1) by (intro ring_ok_advance_read) (auto simp: threads_ok_def)
  moreover have "buffer (sys_ringbuf_AdvanceReadIndex (int (length ys)) (ring s)) = buffer (ring s)"
    by (simp add: sys_ringbuf_AdvanceReadIndex_def Let_def)
  ultimately show ?thesis
    using assms by (simp add: threads_ok_def writer_ok_later)
qed

lemma ring_step_ok: "ring_step s t \<Longrightarrow> threads_ok s \<Longrightarrow> threads_ok t"
  by (elim ring_stepE) (simp_all add: begin_write begin_read write_byte read_byte commit_write commit_read)

lemma ring_steps_ok: "ring_step\<^sup>*\<^sup>* s t \<Longrightarrow> threads_ok s \<Longrightarrow> threads_ok t"
  by (induction rule: rtranclp_induct) (auto intro: ring_step_ok)

definition start :: "'a sys_ringbuf \<Rightarrow> 'a list \<Rightarrow> 'a threads" where
  "start R st = \<lparr>ring = R, wst = WIdle, rst = RIdle, sent = st, got = []\<rparr>"

text \<open>\<^bold>\<open>C12\<close>: However the steps of a reading and a writing thread interleave, byte by byte, what the reader
  has received is always the beginning of what the writer has committed, and the bytes it is
  copying at the moment continue it: no byte is lost, doubled, torn or read before it is written, and
  every access is inside the buffer. No lock is needed.\<close>

theorem ringbuf_threads_fifo:
  assumes "ring_step\<^sup>*\<^sup>* (start R st) s" "ring_ok R 0 st"
  shows "\<exists>rest. sent s = got s @ rest \<and> length rest \<le> length (buffer (ring s)) \<and>
    (case rst s of RIdle \<Rightarrow> True | RCopy g n ys \<Rightarrow> take (length ys) rest = ys \<and>
       (length ys < n \<longrightarrow> region_index g (length ys) < length (buffer (ring s)))) \<and>
    (case wst s of WIdle \<Rightarrow> True | WCopy g xs k \<Rightarrow> k < length xs \<longrightarrow> region_index g k < length (buffer (ring s)))"
proof -
  have ok: "threads_ok s"
    using assms(2) by (intro ring_steps_ok [OF assms(1)]) (simp add: threads_ok_def start_def)
  have pos: "0 < length (buffer (ring s))" using ok by (auto simp: threads_ok_def ring_ok_def)
  have "sent s = got s @ drop (length (got s)) (sent s)" using ok by (metis append_take_drop_id threads_ok_def)
  moreover have "length (drop (length (got s)) (sent s)) \<le> length (buffer (ring s))"
    using ok by (auto simp: threads_ok_def ring_ok_def)
  moreover have "case rst s of RIdle \<Rightarrow> True | RCopy g n ys \<Rightarrow> take (length ys) (drop (length (got s)) (sent s)) = ys \<and>
       (length ys < n \<longrightarrow> region_index g (length ys) < length (buffer (ring s)))"
    using ok pos by (cases "rst s") (simp_all add: threads_ok_def)
  moreover have "case wst s of WIdle \<Rightarrow> True | WCopy g xs k \<Rightarrow> k < length xs \<longrightarrow> region_index g k < length (buffer (ring s))"
    using ok pos by (cases "wst s") (simp_all add: threads_ok_def)
  ultimately show ?thesis by (intro exI [of _ "drop (length (got s)) (sent s)"] conjI)
qed

text \<open>One interleaving in a buffer of two bytes: the reader takes the first byte between the two bytes of a
  write, and the writer commits.\<close>

definition demo_ring :: "nat sys_ringbuf" where
  "demo_ring = \<lparr>bufferSize = 2, writeIndex = 1, readIndex = 0, buffer = [7, 0]\<rparr>"

lemma demo_ring_ok: "ring_ok demo_ring 0 [7]"
  by (simp add: demo_ring_def ring_ok_def)

theorem ringbuf_threads_fifo_witness:
  "\<exists>s. ring_step\<^sup>*\<^sup>* (start demo_ring [7]) s \<and> sent s = [7, 8] \<and> got s = [] \<and> (\<exists>g. rst s = RCopy g 1 [7]) \<and>
    (\<exists>rest. sent s = got s @ rest \<and> take (length [7]) rest = [7])"
proof -
  let ?g = "\<lparr>data1 = 1, size1 = 1, data2 = 0, size2 = 0\<rparr>" and ?h = "\<lparr>data1 = 0, size1 = 1, data2 = 0, size2 = 0\<rparr>"
  let ?s0 = "start demo_ring [7]"
  let ?s1 = "?s0\<lparr>wst := WCopy ?g [8] 0\<rparr>"
  let ?s2 = "?s1\<lparr>rst := RCopy ?h 1 []\<rparr>"
  let ?s3 = "?s2\<lparr>ring := store_byte ?g 0 8 (ring ?s2), wst := WCopy ?g [8] (Suc 0)\<rparr>"
  let ?s4 = "?s3\<lparr>rst := RCopy ?h 1 [7]\<rparr>"
  let ?s5 = "?s4\<lparr>ring := sys_ringbuf_AdvanceWriteIndex 1 (ring ?s4), wst := WIdle, sent := [7, 8]\<rparr>"
  have "ring_step ?s0 ?s1"
    using w_begin [of ?s0 "[8, 9]" 1 ?g] by (simp add: start_def demo_ring_def sys_ringbuf_GetWriteRegions_def
        sys_ringbuf_GetWriteAvailable_def sys_ringbuf_GetReadAvailable_def find_regions_def wrap_loop.simps Let_def)
  moreover have "ring_step ?s1 ?s2"
    using r_begin [of ?s1 5 1 ?h] by (simp add: start_def demo_ring_def sys_ringbuf_GetReadRegions_def
        sys_ringbuf_GetReadAvailable_def find_regions_def wrap_loop.simps Let_def)
  moreover have "ring_step ?s2 ?s3" using w_byte [of ?s2 ?g "[8]" 0] by simp
  moreover have "ring_step ?s3 ?s4"
    using r_byte [of ?s3 ?h 1 "[]"] by (simp add: start_def demo_ring_def store_byte_def region_index_def)
  moreover have "ring_step ?s4 ?s5" using w_commit [of ?s4 ?g "[8]"] by (simp add: start_def)
  ultimately have reach: "ring_step\<^sup>*\<^sup>* ?s0 ?s5" by (meson converse_rtranclp_into_rtranclp rtranclp.rtrancl_refl)
  show ?thesis
    using ringbuf_threads_fifo [OF reach demo_ring_ok] reach by (intro exI [of _ ?s5]) (auto simp: start_def)
qed

end
