(* ===== verification/Utf8.thy ===== *)
theory Utf8
  imports Prelude
begin

unbundle bit_operations_syntax

text \<open>
  UTF-8 (\<open>s_utf8.c\<close>): conversions between byte strings and arrays of characters, and moving an index by
  characters. A byte string is the memory it occupies, with the final zero; reading
  outside it is an error. \<open>UTF8_SUPPORT_FULL_UCS4\<close> is not defined, as in the header.
\<close>

subsection \<open>Tables and tests\<close>

definition isutf :: "8 word \<Rightarrow> bool" where
  "isutf c \<longleftrightarrow> c AND 0xC0 \<noteq> 0x80"

definition trailingBytesForUTF8 :: "8 word \<Rightarrow> nat" where
  "trailingBytesForUTF8 c = (if c < 0xC0 then 0 else if c < 0xE0 then 1 else if c < 0xF0 then 2
     else if c < 0xF8 then 3 else if c < 0xFC then 4 else 5)"

definition offsetsFromUTF8 :: "32 word list" where
  "offsetsFromUTF8 = [0x00000000, 0x00003080, 0x000E2080, 0x03C82080, 0xFA082080, 0x82082080]"

text \<open>Reading \<open>s[i]\<close>.\<close>

definition byte_at :: "8 word list \<Rightarrow> int \<Rightarrow> 8 word cresult" where
  "byte_at s i = (if 0 \<le> i \<and> i < int (length s) then Inr (s ! nat i) else Inl OutOfBounds)"

definition u8_seqlen :: "8 word list \<Rightarrow> nat cresult" where
  "u8_seqlen s = cbind (byte_at s 0) (\<lambda>c. Inr (trailingBytesForUTF8 c + 1))"

subsection \<open>One character\<close>

definition u8_wc_nbytes :: "32 word \<Rightarrow> nat" where
  "u8_wc_nbytes ch = (if ch < 0x80 then 1 else if ch < 0x800 then 2 else if ch < 0x10000 then 3
     else if ch < 0x200000 then 4 else 0)"

text \<open>The bytes written to \<open>dest\<close>; the function returns their number.\<close>

definition u8_wc_toutf8 :: "32 word \<Rightarrow> 8 word list" where
  "u8_wc_toutf8 ch =
     (if ch < 0x80 then [ucast ch]
      else if ch < 0x800 then [ucast (drop_bit 6 ch OR 0xC0), ucast ((ch AND 0x3F) OR 0x80)]
      else if ch < 0x10000 then
        [ucast (drop_bit 12 ch OR 0xE0), ucast ((drop_bit 6 ch AND 0x3F) OR 0x80), ucast ((ch AND 0x3F) OR 0x80)]
      else if ch < 0x110000 then
        [ucast (drop_bit 18 ch OR 0xF0), ucast ((drop_bit 12 ch AND 0x3F) OR 0x80),
         ucast ((drop_bit 6 ch AND 0x3F) OR 0x80), ucast ((ch AND 0x3F) OR 0x80)]
      else [])"

definition u8_wc_toutf8_nul :: "32 word \<Rightarrow> 8 word list" where
  "u8_wc_toutf8_nul ch = u8_wc_toutf8 ch @ [0]"

text \<open>\<open>do { ch <<= 6; ch += s[(*i)++]; sz++; } while (s[*i] && !isutf(s[*i]));\<close>\<close>

function next_loop :: "8 word list \<Rightarrow> int \<Rightarrow> 32 word \<Rightarrow> nat \<Rightarrow> (32 word \<times> nat \<times> int) cresult" where
  "next_loop s i ch sz = cbind (byte_at s i) (\<lambda>b.
     cbind (byte_at s (i + 1)) (\<lambda>c.
       let ch' = push_bit 6 ch + ucast b in
       if c \<noteq> 0 \<and> \<not> isutf c then next_loop s (i + 1) ch' (sz + 1) else Inr (ch', sz + 1, i + 1)))"
  by pat_completeness auto
termination
proof (relation "measure (\<lambda>(s, i, ch, sz). nat (int (length s) - i))", goal_cases)
  case (2 s i ch sz b c ch')
  then show ?case by (cases "i < int (length s)") (auto simp: byte_at_def split: if_splits)
qed simp

declare next_loop.simps [simp del]

text \<open>The table has six entries; a longer run of continuation bytes reads past its end.\<close>

definition u8_nextchar :: "8 word list \<Rightarrow> int \<Rightarrow> (32 word \<times> int) cresult" where
  "u8_nextchar s i = cbind (next_loop s i 0 0) (\<lambda>(ch, sz, j).
     if sz - 1 < length offsetsFromUTF8 then Inr (ch - offsetsFromUTF8 ! (sz - 1), j) else Inl OutOfBounds)"

subsection \<open>Moving by characters\<close>

text \<open>\<open>isutf(s[++i]) || isutf(s[++i]) || isutf(s[++i]) || ++i\<close>\<close>

definition u8_inc :: "8 word list \<Rightarrow> int \<Rightarrow> int cresult" where
  "u8_inc s i = cbind (byte_at s (i + 1)) (\<lambda>a. if isutf a then Inr (i + 1)
     else cbind (byte_at s (i + 2)) (\<lambda>b. if isutf b then Inr (i + 2)
     else cbind (byte_at s (i + 3)) (\<lambda>c. if isutf c then Inr (i + 3) else Inr (i + 4))))"

definition u8_dec :: "8 word list \<Rightarrow> int \<Rightarrow> int cresult" where
  "u8_dec s i = cbind (byte_at s (i - 1)) (\<lambda>a. if isutf a then Inr (i - 1)
     else cbind (byte_at s (i - 2)) (\<lambda>b. if isutf b then Inr (i - 2)
     else cbind (byte_at s (i - 3)) (\<lambda>c. if isutf c then Inr (i - 3) else Inr (i - 4))))"

text \<open>The same on a pointer into a buffer: the buffer with an offset.\<close>

definition u8_inc_ptr :: "8 word list \<times> int \<Rightarrow> (8 word list \<times> int) cresult" where
  "u8_inc_ptr sp = cbind (u8_inc (fst sp) (snd sp)) (\<lambda>i. Inr (fst sp, i))"

definition u8_dec_ptr :: "8 word list \<times> int \<Rightarrow> (8 word list \<times> int) cresult" where
  "u8_dec_ptr sp = cbind (u8_dec (fst sp) (snd sp)) (\<lambda>i. Inr (fst sp, i))"

fun offset_loop :: "8 word list \<Rightarrow> nat \<Rightarrow> int \<Rightarrow> int cresult" where
  "offset_loop s 0 offs = Inr offs"
| "offset_loop s (Suc n) offs = cbind (byte_at s offs) (\<lambda>c.
     if c = 0 then Inr offs else cbind (u8_inc s offs) (offset_loop s n))"

definition u8_offset :: "8 word list \<Rightarrow> int \<Rightarrow> int cresult" where
  "u8_offset s charnum = offset_loop s (nat charnum) 0"

lemma u8_inc_less: "u8_inc s i = Inr j \<Longrightarrow> i < j"
  by (auto simp: u8_inc_def cbind_def split: sum.splits if_splits)

function charnum_loop :: "8 word list \<Rightarrow> int \<Rightarrow> int \<Rightarrow> nat \<Rightarrow> nat cresult" where
  "charnum_loop s offset offs n = (if offs < offset
     then cbind (byte_at s offs) (\<lambda>c. if c = 0 then Inr n
       else cbind (u8_inc s offs) (\<lambda>j. charnum_loop s offset j (n + 1)))
     else Inr n)"
  by pat_completeness auto
termination by (relation "measure (\<lambda>(s, offset, offs, n). nat (offset - offs))") (auto dest: u8_inc_less)

declare charnum_loop.simps [simp del]

definition u8_charnum :: "8 word list \<Rightarrow> int \<Rightarrow> nat cresult" where
  "u8_charnum s offset = charnum_loop s offset 0 0"

lemma next_loop_less: "next_loop s i ch sz = Inr (ch', sz', j) \<Longrightarrow> i < j \<and> i < int (length s)"
proof (induction s i ch sz rule: next_loop.induct)
  case (1 s i ch sz)
  then show ?case
    unfolding next_loop.simps [of s i ch sz]
    by (auto simp: byte_at_def cbind_eq_Inr_iff Let_def split: if_splits) (smt (verit))+
qed

function strlen_loop :: "8 word list \<Rightarrow> int \<Rightarrow> nat \<Rightarrow> nat cresult" where
  "strlen_loop s i count = cbind (u8_nextchar s i) (\<lambda>(ch, j). if ch \<noteq> 0 then strlen_loop s j (count + 1) else Inr count)"
  by pat_completeness auto
termination
proof (relation "measure (\<lambda>(s, i, count). nat (int (length s) - i))", goal_cases)
  case (2 s i count r ch j)
  then have "i < j \<and> i < int (length s)"
    by (auto simp: u8_nextchar_def cbind_eq_Inr_iff dest: next_loop_less split: if_splits)
  then show ?case by auto
qed simp

declare strlen_loop.simps [simp del]

definition u8_strlen :: "8 word list \<Rightarrow> nat cresult" where
  "u8_strlen s = strlen_loop s 0 0"

subsection \<open>Arrays of characters\<close>

definition word_at :: "32 word list \<Rightarrow> int \<Rightarrow> 32 word cresult" where
  "word_at s i = (if 0 \<le> i \<and> i < int (length s) then Inr (s ! nat i) else Inl OutOfBounds)"

text \<open>\<open>u8_toutf8\<close> writes the bytes of each character with the same expressions as \<open>u8_wc_toutf8\<close>. The
  result is the number of characters and the bytes written.\<close>

function toutf8_loop :: "int \<Rightarrow> 32 word list \<Rightarrow> int \<Rightarrow> int \<Rightarrow> 8 word list \<Rightarrow> (int \<times> 8 word list) cresult" where
  "toutf8_loop sz src srcsz i out =
     cbind (if srcsz < 0 then cbind (word_at src i) (\<lambda>c. Inr (c \<noteq> 0)) else Inr (i < srcsz)) (\<lambda>more.
       if more then cbind (word_at src i) (\<lambda>ch.
         let bytes = u8_wc_toutf8 ch in
         if ch < 0x110000 \<and> int (length out) \<ge> sz - (int (length bytes) - 1) then Inr (i, out)
         else toutf8_loop sz src srcsz (i + 1) (out @ bytes))
       else Inr (i, if int (length out) < sz then out @ [0] else out))"
  by pat_completeness auto
termination by (relation "measure (\<lambda>(sz, src, srcsz, i, out). nat (int (length src) - i))")
    (auto simp: word_at_def split: if_splits)

declare toutf8_loop.simps [simp del]

definition u8_toutf8 :: "int \<Rightarrow> 32 word list \<Rightarrow> int \<Rightarrow> (int \<times> 8 word list) cresult" where
  "u8_toutf8 sz src srcsz = toutf8_loop sz src srcsz 0 []"

text \<open>The switch that falls through: \<open>nb + 1\<close> bytes are added, or none at all if \<open>nb\<close> is 4 or 5.\<close>

fun add_bytes :: "8 word list \<Rightarrow> int \<Rightarrow> nat \<Rightarrow> 32 word \<Rightarrow> 32 word cresult" where
  "add_bytes src p 0 ch = cbind (byte_at src p) (\<lambda>b. Inr (ch + ucast b))"
| "add_bytes src p (Suc n) ch = cbind (byte_at src p) (\<lambda>b. add_bytes src (p + 1) n (push_bit 6 (ch + ucast b)))"

function toucs_loop :: "int \<Rightarrow> 8 word list \<Rightarrow> int \<Rightarrow> int \<Rightarrow> 32 word list \<Rightarrow> 32 word list cresult" where
  "toucs_loop sz src srcsz p dest = (if int (length dest) < sz - 1
     then cbind (byte_at src p) (\<lambda>c.
       let nb = trailingBytesForUTF8 c in
       if (if srcsz = -1 then c = 0 else p + int nb \<ge> srcsz) then Inr dest
       else if nb \<le> 3 then cbind (add_bytes src p nb 0) (\<lambda>ch.
         toucs_loop sz src srcsz (p + int nb + 1) (dest @ [ch - offsetsFromUTF8 ! nb]))
       else toucs_loop sz src srcsz p (dest @ [0 - offsetsFromUTF8 ! nb]))
     else Inr dest)"
  by pat_completeness auto
termination by (relation "measure (\<lambda>(sz, src, srcsz, p, dest). nat (sz - int (length dest)))") auto

declare toucs_loop.simps [simp del]

definition u8_toucs :: "int \<Rightarrow> 8 word list \<Rightarrow> int \<Rightarrow> (32 word list \<times> int) cresult" where
  "u8_toucs sz src srcsz = cbind (toucs_loop sz src srcsz 0 []) (\<lambda>dest. Inr (dest @ [0], int (length dest)))"

subsection \<open>Bytes of a character\<close>

lemma or_add: "take_bit n (w :: 32 word) OR push_bit n c = take_bit n w + push_bit n c"
  by (rule disjunctive_add [symmetric]) (auto simp: bit_take_bit_iff bit_push_bit_iff)

lemma unat_take_bit: "unat (take_bit n (w :: 'a :: len word)) = unat w mod 2 ^ n"
  by (simp only: unsigned_take_bit_eq) (simp add: take_bit_eq_mod)

lemma unat_drop_bit: "unat (drop_bit n (w :: 'a :: len word)) = unat w div 2 ^ n"
  by (simp only: unat_drop_bit_eq) (simp add: drop_bit_eq_div)

lemma tag_byte:
  fixes w c :: "32 word"
  assumes "unat w < 2 ^ n" "unat (push_bit n c) + 2 ^ n \<le> 256"
  shows "unat (ucast (w OR push_bit n c) :: 8 word) = unat w + unat (push_bit n c)"
proof -
  have "take_bit n w = w" using assms(1) by (simp add: word_unat_eq_iff unat_take_bit)
  then have "w OR push_bit n c = w + push_bit n c" using or_add [of n w c] by simp
  moreover have "unat w + unat (push_bit n c) < 256" using assms by simp
  ultimately show ?thesis by (simp add: unsigned_ucast_eq unat_word_ariths take_bit_eq_mod)
qed

lemma cont_byte: "unat (ucast ((w AND 0x3F) OR 0x80) :: 8 word) = 0x80 + unat (w :: 32 word) mod 64"
proof -
  have m: "w AND 0x3F = take_bit 6 w" by (simp add: take_bit_eq_mask mask_eq_exp_minus_1)
  have "unat (take_bit 6 w) = unat w mod 64" by (simp add: unat_take_bit)
  then show ?thesis using tag_byte [of "take_bit 6 w" 6 2] unfolding m by simp
qed

lemma lead_bytes:
  fixes w :: "32 word"
  shows "unat w < 32 \<Longrightarrow> unat (ucast (w OR 0xC0) :: 8 word) = 0xC0 + unat w"
    "unat w < 16 \<Longrightarrow> unat (ucast (w OR 0xE0) :: 8 word) = 0xE0 + unat w"
    "unat w < 8 \<Longrightarrow> unat (ucast (w OR 0xF0) :: 8 word) = 0xF0 + unat w"
  using tag_byte [of w 5 6] tag_byte [of w 4 14] tag_byte [of w 3 30] by simp_all

lemma isutf_range: "isutf c \<longleftrightarrow> unat c < 0x80 \<or> 0xC0 \<le> unat c"
proof -
  have all: "list_all (\<lambda>k. isutf (word_of_nat k) \<longleftrightarrow> k < 0x80 \<or> 0xC0 \<le> k) [0..<256]" by code_simp
  have "isutf (word_of_nat k) \<longleftrightarrow> k < 0x80 \<or> 0xC0 \<le> k" if "k < 256" for k
    using all that unfolding list_all_iff set_upt by (meson atLeastLessThan_iff zero_le)
  from this [of "unat c"] show ?thesis using unsigned_less [of c] by simp
qed


text \<open>
  The bytes of a character: one that starts a sequence and tells its length, then continuation
  bytes. Adding them up, six bits each, gives the character and the offset of that length.
\<close>

definition add_byte :: "32 word \<Rightarrow> 8 word \<Rightarrow> 32 word" where
  "add_byte ch b = push_bit 6 ch + ucast b"

lemma unat_add_byte: "unat ch < 2 ^ 24 \<Longrightarrow> unat (add_byte ch b) = 64 * unat ch + unat b"
proof -
  assume "unat ch < 2 ^ 24"
  moreover have "unat b < 256" using unsigned_less [of b] by simp
  ultimately show ?thesis
    by (simp add: add_byte_def push_bit_eq_mult unat_word_ariths unsigned_ucast_eq take_bit_eq_mod)
qed

definition valid :: "32 word \<Rightarrow> bool" where
  "valid ch \<longleftrightarrow> ch < 0x110000"

lemma sub_offset: "unat x = unat ch + unat y \<Longrightarrow> x - y = (ch :: 32 word)"
proof -
  assume *: "unat x = unat ch + unat y"
  moreover have "unat x < 2 ^ LENGTH(32)" by (rule unsigned_less)
  ultimately have "unat (ch + y) = unat x" by (simp add: unat_word_ariths)
  then show ?thesis by (simp add: word_unat_eq_iff eq_diff_eq) (metis add_diff_cancel_right' word_unat_eq_iff)
qed

lemma sextets:
  fixes n :: nat
  shows "n = 4096 * (n div 4096) + 64 * (n div 64 mod 64) + n mod 64"
    "n = 262144 * (n div 262144) + 4096 * (n div 4096 mod 64) + 64 * (n div 64 mod 64) + n mod 64"
proof -
  have d: "n div 4096 = n div 64 div 64" "n div 262144 = n div 4096 div 64" by (simp_all flip: div_mult2_eq)
  note parts = mult_div_mod_eq [of 64 n] mult_div_mod_eq [of 64 "n div 64"] mult_div_mod_eq [of 64 "n div 4096"]
  show "n = 4096 * (n div 4096) + 64 * (n div 64 mod 64) + n mod 64" using parts d by linarith
  then show "n = 262144 * (n div 262144) + 4096 * (n div 4096 mod 64) + 64 * (n div 64 mod 64) + n mod 64"
    using parts d by linarith
qed

lemma trailing_unat: "trailingBytesForUTF8 b = (if unat b < 0xC0 then 0 else if unat b < 0xE0 then 1 else if unat b < 0xF0 then 2
     else if unat b < 0xF8 then 3 else if unat b < 0xFC then 4 else 5)"
  by (simp add: trailingBytesForUTF8_def word_less_nat_alt)

lemma nbytes_unat: "u8_wc_nbytes ch = (if unat ch < 0x80 then 1 else if unat ch < 0x800 then 2
     else if unat ch < 0x10000 then 3 else if unat ch < 0x200000 then 4 else 0)"
  by (simp add: u8_wc_nbytes_def word_less_nat_alt)

lemma nonzero_unat: "0 < unat b \<Longrightarrow> b \<noteq> 0"
  by auto

definition char_bytes :: "32 word \<Rightarrow> 8 word list \<Rightarrow> bool" where
  "char_bytes ch l \<longleftrightarrow> l \<noteq> [] \<and> length l \<le> 4 \<and> trailingBytesForUTF8 (hd l) = length l - 1 \<and> isutf (hd l) \<and>
     (\<forall>c \<in> set (tl l). \<not> isutf c \<and> c \<noteq> 0) \<and> (ch \<noteq> 0 \<longrightarrow> hd l \<noteq> 0) \<and>
     foldl add_byte 0 l - offsetsFromUTF8 ! (length l - 1) = ch \<and> u8_wc_nbytes ch = length l"

lemma char_bytes_1: "ch < 0x80 \<Longrightarrow> char_bytes ch [ucast ch]"
proof -
  assume ch: "ch < 0x80"
  then have c: "unat ch < 0x80" by (simp add: word_less_nat_alt)
  then have b: "unat (ucast ch :: 8 word) = unat ch" by (simp add: unsigned_ucast_eq take_bit_eq_mod)
  then have "foldl add_byte 0 [ucast ch] - offsetsFromUTF8 ! 0 = ch"
    by (intro sub_offset) (simp add: unat_add_byte offsetsFromUTF8_def)
  then show ?thesis using b c ch by (auto simp: char_bytes_def trailing_unat isutf_range u8_wc_nbytes_def word_unat_eq_iff)
qed

lemma char_bytes_2:
  assumes "0x80 \<le> ch" "ch < 0x800"
  shows "char_bytes ch [ucast (drop_bit 6 ch OR 0xC0), ucast ((ch AND 0x3F) OR 0x80)]" (is "char_bytes ch [?b, ?c]")
proof -
  have c: "0x80 \<le> unat ch" "unat ch < 0x800" using assms by (simp_all add: word_less_nat_alt word_le_nat_alt)
  have b: "unat ?b = 0xC0 + unat ch div 64" "unat ?c = 0x80 + unat ch mod 64"
    using c lead_bytes(1) [of "drop_bit 6 ch"] by (simp_all add: unat_drop_bit cont_byte)
  have "foldl add_byte 0 [?b, ?c] - offsetsFromUTF8 ! 1 = ch"
    using b c by (intro sub_offset) (simp add: unat_add_byte offsetsFromUTF8_def)
  then show ?thesis
    using b c by (auto simp: char_bytes_def trailing_unat isutf_range nbytes_unat nonzero_unat not_less)
qed

lemma char_bytes_3:
  assumes "0x800 \<le> ch" "ch < 0x10000"
  shows "char_bytes ch [ucast (drop_bit 12 ch OR 0xE0), ucast ((drop_bit 6 ch AND 0x3F) OR 0x80),
    ucast ((ch AND 0x3F) OR 0x80)]" (is "char_bytes ch [?b, ?c, ?d]")
proof -
  have c: "0x800 \<le> unat ch" "unat ch < 0x10000" using assms by (simp_all add: word_less_nat_alt word_le_nat_alt)
  have b: "unat ?b = 0xE0 + unat ch div 4096" "unat ?c = 0x80 + unat ch div 64 mod 64" "unat ?d = 0x80 + unat ch mod 64"
    using c lead_bytes(2) [of "drop_bit 12 ch"] by (simp_all add: unat_drop_bit cont_byte)
  have "foldl add_byte 0 [?b, ?c, ?d] - offsetsFromUTF8 ! Suc (Suc 0) = ch"
    using b c sextets(1) [of "unat ch"] by (intro sub_offset) (simp add: unat_add_byte offsetsFromUTF8_def)
  then show ?thesis
    using b c by (auto simp: char_bytes_def trailing_unat isutf_range nbytes_unat nonzero_unat not_less)
qed

lemma char_bytes_4:
  assumes "0x10000 \<le> ch" "ch < 0x110000"
  shows "char_bytes ch [ucast (drop_bit 18 ch OR 0xF0), ucast ((drop_bit 12 ch AND 0x3F) OR 0x80),
    ucast ((drop_bit 6 ch AND 0x3F) OR 0x80), ucast ((ch AND 0x3F) OR 0x80)]" (is "char_bytes ch [?b, ?c, ?d, ?e]")
proof -
  have c: "0x10000 \<le> unat ch" "unat ch < 0x110000" using assms by (simp_all add: word_less_nat_alt word_le_nat_alt)
  have b: "unat ?b = 0xF0 + unat ch div 262144" "unat ?c = 0x80 + unat ch div 4096 mod 64"
    "unat ?d = 0x80 + unat ch div 64 mod 64" "unat ?e = 0x80 + unat ch mod 64"
    using c lead_bytes(3) [of "drop_bit 18 ch"] by (simp_all add: unat_drop_bit cont_byte)
  have "foldl add_byte 0 [?b, ?c, ?d, ?e] - offsetsFromUTF8 ! Suc (Suc (Suc 0)) = ch"
    using b c sextets(2) [of "unat ch"] by (intro sub_offset) (simp add: unat_add_byte offsetsFromUTF8_def)
  then show ?thesis
    using b c by (auto simp: char_bytes_def trailing_unat isutf_range nbytes_unat nonzero_unat not_less)
qed

lemma toutf8_bytes: "valid ch \<Longrightarrow> char_bytes ch (u8_wc_toutf8 ch)"
  using char_bytes_1 [of ch] char_bytes_2 [of ch] char_bytes_3 [of ch] char_bytes_4 [of ch]
  by (simp add: u8_wc_toutf8_def valid_def)

subsection \<open>Characters in memory\<close>

lemma byte_at_mid: "byte_at (pre @ b # post) (int (length pre)) = Inr b"
  by (simp add: byte_at_def)

lemma byte_at_next: "byte_at (pre @ post) (int (length pre) + int n) = byte_at post (int n)"
  by (simp add: byte_at_def nth_append nat_add_distrib)

lemma byte_at_Cons [simp]: "byte_at (b # bs) 0 = Inr b" "byte_at (b # bs) 1 = byte_at bs 0"
    "byte_at (b # bs) 2 = byte_at bs 1" "byte_at (b # bs) 3 = byte_at bs 2"
  by (simp_all add: byte_at_def numeral_eq_Suc)

lemmas byte_at_near =
  byte_at_next [of _ _ 0, simplified] byte_at_next [of _ _ 1, simplified]
  byte_at_next [of _ _ 2, simplified] byte_at_next [of _ _ 3, simplified]

lemma next_loop_bytes:
  assumes "\<forall>c \<in> set bs. \<not> isutf c \<and> c \<noteq> 0" "isutf d"
  shows "next_loop (pre @ b # bs @ d # post) (int (length pre)) ch sz =
    Inr (foldl add_byte ch (b # bs), sz + length bs + 1, int (length pre + length bs + 1))"
  using assms
proof (induction bs arbitrary: pre b ch sz)
  case Nil
  then show ?case
    by (simp add: next_loop.simps [of "pre @ b # d # post"] byte_at_near add_byte_def Let_def)
next
  case (Cons c bs)
  have "int (length (pre @ [b])) = int (length pre) + 1" by simp
  then have "next_loop (pre @ b # c # bs @ d # post) (int (length pre) + 1) (add_byte ch b) (sz + 1) =
      Inr (foldl add_byte (add_byte ch b) (c # bs), sz + 1 + length bs + 1, int (length pre + 1 + length bs + 1))"
    using Cons.IH [of "pre @ [b]" c "add_byte ch b" "sz + 1"] Cons.prems by (simp add: add.commute)
  then show ?case
    using Cons.prems by (simp add: next_loop.simps [of "pre @ b # c # bs @ d # post" _ ch] byte_at_near Let_def flip: add_byte_def)
qed

lemma add_bytes_bytes:
  "add_bytes (pre @ b # bs @ post) (int (length pre)) (length bs) (push_bit 6 ch) = Inr (foldl add_byte ch (b # bs))"
proof (induction bs arbitrary: pre b ch)
  case (Cons c bs)
  show ?case using Cons.IH [of "pre @ [b]" c "add_byte ch b"] by (simp add: byte_at_near add_byte_def add.commute)
qed (simp add: byte_at_near add_byte_def)

text \<open>A character of valid text, followed by the start of another one or by the final zero.\<close>

lemma char_bytes_cases:
  assumes "char_bytes ch l"
  obtains (one) a where "l = [a]" "isutf a"
  | (two) a b where "l = [a, b]" "isutf a" "\<not> isutf b"
  | (three) a b c where "l = [a, b, c]" "isutf a" "\<not> isutf b" "\<not> isutf c"
  | (four) a b c d where "l = [a, b, c, d]" "isutf a" "\<not> isutf b" "\<not> isutf c" "\<not> isutf d"
proof -
  have "length l \<le> 4" "l \<noteq> []" "isutf (hd l)" "\<forall>c \<in> set (tl l). \<not> isutf c" using assms by (auto simp: char_bytes_def)
  then show ?thesis
    using that by (cases l; cases "tl l"; cases "tl (tl l)"; cases "tl (tl (tl l))"; cases "tl (tl (tl (tl l)))") auto
qed

lemma inc_char:
  assumes "char_bytes ch l" "isutf d"
  shows "u8_inc (pre @ l @ d # post) (int (length pre)) = Inr (int (length pre + length l))"
  using assms(1)
  by (cases rule: char_bytes_cases) (simp_all add: u8_inc_def byte_at_near assms(2))

lemma dec_char:
  assumes "char_bytes ch l"
  shows "u8_dec (pre @ l @ post) (int (length pre + length l)) = Inr (int (length pre))"
  using assms
  by (cases rule: char_bytes_cases) (simp_all add: u8_dec_def byte_at_near byte_at_near [unfolded add.commute [of "int _"]])

lemma nextchar_char:
  assumes "char_bytes ch l" "isutf d"
  shows "u8_nextchar (pre @ l @ d # post) (int (length pre)) = Inr (ch, int (length pre + length l))"
proof -
  obtain b bs where l: "l = b # bs" using assms(1) by (cases l) (auto simp: char_bytes_def)
  have cb: "\<forall>c \<in> set bs. \<not> isutf c \<and> c \<noteq> 0" "length bs \<le> 3" "foldl add_byte 0 (b # bs) - offsetsFromUTF8 ! length bs = ch"
    using assms(1) by (auto simp: char_bytes_def l)
  have "next_loop (pre @ l @ d # post) (int (length pre)) 0 0 =
      Inr (foldl add_byte 0 (b # bs), length bs + 1, int (length pre + length l))"
    using next_loop_bytes [OF cb(1) assms(2), of pre b post 0 0] by (simp add: l)
  moreover have "length bs < length offsetsFromUTF8" using cb(2) by (simp add: offsetsFromUTF8_def)
  ultimately show ?thesis using cb(3) by (simp add: u8_nextchar_def)
qed

subsection \<open>Text\<close>

definition enc :: "32 word list \<Rightarrow> 8 word list" where
  "enc ps = concat (map u8_wc_toutf8 ps)"

definition text_ok :: "32 word list \<Rightarrow> bool" where
  "text_ok ps \<longleftrightarrow> (\<forall>p \<in> set ps. valid p \<and> p \<noteq> 0)"

lemma isutf_0 [simp]: "isutf 0"
  by (simp add: isutf_range)

lemma text_bytes: "text_ok ps \<Longrightarrow> p \<in> set ps \<Longrightarrow> char_bytes p (u8_wc_toutf8 p) \<and> p \<noteq> 0"
  by (simp add: text_ok_def toutf8_bytes)

text \<open>The byte after a character starts another one.\<close>

lemma enc_next:
  assumes "text_ok ps"
  obtains d post where "enc ps @ [0] = d # post" "isutf d" "d = 0 \<longleftrightarrow> ps = []"
proof (cases ps)
  case (Cons p qs)
  have "char_bytes p (u8_wc_toutf8 p)" "p \<noteq> 0" using text_bytes [OF assms] Cons by auto
  then obtain b bs where "u8_wc_toutf8 p = b # bs" "isutf b" "b \<noteq> 0" by (cases "u8_wc_toutf8 p") (auto simp: char_bytes_def)
  then show ?thesis using that by (simp add: enc_def Cons)
qed (use that in \<open>simp add: enc_def\<close>)

lemma enc_Cons: "enc (p # ps) = u8_wc_toutf8 p @ enc ps"
  by (simp add: enc_def)

lemma text_ok_Cons [simp]: "text_ok (p # ps) \<longleftrightarrow> valid p \<and> p \<noteq> 0 \<and> text_ok ps"
  by (auto simp: text_ok_def)

text \<open>One character of a text, wherever it is in memory.\<close>

lemma text_step:
  assumes "text_ok (p # ps)"
  shows "u8_inc (pre @ enc (p # ps) @ [0]) (int (length pre)) = Inr (int (length (pre @ u8_wc_toutf8 p)))"
    "u8_nextchar (pre @ enc (p # ps) @ [0] @ post) (int (length pre)) = Inr (p, int (length (pre @ u8_wc_toutf8 p)))"
    "\<exists>c. byte_at (pre @ enc (p # ps) @ [0]) (int (length pre)) = Inr c \<and> c \<noteq> 0"
proof -
  have cb: "char_bytes p (u8_wc_toutf8 p)" using assms by (simp add: toutf8_bytes)
  have "text_ok ps" using assms by simp
  then obtain d post' where d: "enc ps @ [0] = d # post'" "isutf d" by (metis enc_next)
  show "u8_inc (pre @ enc (p # ps) @ [0]) (int (length pre)) = Inr (int (length (pre @ u8_wc_toutf8 p)))"
    using inc_char [OF cb d(2), of pre post'] d(1) by (simp add: enc_Cons)
  have "(enc ps @ [0]) @ post = d # (post' @ post)" by (simp only: d(1) append_Cons)
  then have e: "pre @ enc (p # ps) @ [0] @ post = pre @ u8_wc_toutf8 p @ d # (post' @ post)" by (simp only: enc_Cons append_assoc)
  show "u8_nextchar (pre @ enc (p # ps) @ [0] @ post) (int (length pre)) = Inr (p, int (length (pre @ u8_wc_toutf8 p)))"
    unfolding e using nextchar_char [OF cb d(2), of pre "post' @ post"] by simp
  obtain e post'' where "enc (p # ps) @ [0] = e # post''" "e \<noteq> 0" using assms enc_next [of "p # ps"] by (metis list.distinct(1))
  then show "\<exists>c. byte_at (pre @ enc (p # ps) @ [0]) (int (length pre)) = Inr c \<and> c \<noteq> 0" by (simp add: byte_at_near)
qed

lemma offset_loop_text:
  "text_ok ps \<Longrightarrow> n \<le> length ps \<Longrightarrow>
   offset_loop (pre @ enc ps @ [0]) n (int (length pre)) = Inr (int (length (pre @ enc (take n ps))))"
proof (induction n arbitrary: pre ps)
  case (Suc n)
  then obtain p qs where ps: "ps = p # qs" by (cases ps) auto
  have ok: "text_ok (p # qs)" using Suc.prems(1) by (simp only: ps)
  obtain c where "byte_at (pre @ enc (p # qs) @ [0]) (int (length pre)) = Inr c" "c \<noteq> 0" using text_step(3) [OF ok] by blast
  moreover have "offset_loop (pre @ enc (p # qs) @ [0]) n (int (length (pre @ u8_wc_toutf8 p))) =
      Inr (int (length (pre @ enc (take (Suc n) ps))))"
    using Suc.IH [of qs "pre @ u8_wc_toutf8 p"] Suc.prems by (simp add: ps enc_Cons)
  ultimately show ?case using text_step(1) [OF ok, of pre] by (simp add: ps)
qed (simp add: enc_def)

lemma charnum_loop_text:
  "text_ok ps \<Longrightarrow> n \<le> length ps \<Longrightarrow>
   charnum_loop (pre @ enc ps @ [0]) (int (length (pre @ enc (take n ps)))) (int (length pre)) m = Inr (m + n)"
proof (induction n arbitrary: pre ps m)
  case 0
  then show ?case by (simp add: charnum_loop.simps enc_def)
next
  case (Suc n)
  then obtain p qs where ps: "ps = p # qs" by (cases ps) auto
  have ok: "text_ok (p # qs)" using Suc.prems(1) by (simp only: ps)
  obtain c where c: "byte_at (pre @ enc (p # qs) @ [0]) (int (length pre)) = Inr c" "c \<noteq> 0" using text_step(3) [OF ok] by blast
  have "u8_wc_toutf8 p \<noteq> []" using ok toutf8_bytes [of p] by (auto simp: char_bytes_def)
  then have "length pre < length (pre @ enc (take (Suc n) ps))" by (simp add: ps enc_Cons)
  moreover have "charnum_loop (pre @ enc (p # qs) @ [0]) (int (length (pre @ enc (take (Suc n) ps))))
      (int (length (pre @ u8_wc_toutf8 p))) (m + 1) = Inr (m + Suc n)"
    using Suc.IH [of qs "pre @ u8_wc_toutf8 p" "m + 1"] Suc.prems by (simp add: ps enc_Cons)
  ultimately show ?case
    using c text_step(1) [OF ok, of pre] by (simp add: ps charnum_loop.simps [of _ _ "int (length pre)"])
qed

text \<open>In valid UTF-8 text, the byte offset of a character number and the character number of a
  byte offset are inverse to each other, and stepping forward over a character and back again
  returns to where it was.\<close>

theorem utf8_offset_charnum:
  assumes "text_ok ps" "n \<le> length ps"
  shows "\<exists>offs. u8_offset (enc ps @ [0]) (int n) = Inr offs \<and> u8_charnum (enc ps @ [0]) offs = Inr n \<and>
    (n < length ps \<longrightarrow> (\<exists>next_offs. u8_inc (enc ps @ [0]) offs = Inr next_offs \<and> u8_dec (enc ps @ [0]) next_offs = Inr offs))"
proof -
  let ?pre = "enc (take n ps)"
  have "u8_offset (enc ps @ [0]) (int n) = Inr (int (length ?pre))" "u8_charnum (enc ps @ [0]) (int (length ?pre)) = Inr n"
    using offset_loop_text [OF assms, of "[]"] charnum_loop_text [OF assms, of "[]" 0]
    by (simp_all add: u8_offset_def u8_charnum_def)
  moreover have "\<exists>j. u8_inc (enc ps @ [0]) (int (length ?pre)) = Inr j \<and> u8_dec (enc ps @ [0]) j = Inr (int (length ?pre))"
    if "n < length ps"
  proof -
    have split: "enc ps = ?pre @ enc (ps ! n # drop (Suc n) ps)"
      using that by (simp add: enc_def Cons_nth_drop_Suc flip: concat_append map_append)
    have "text_ok (ps ! n # drop (Suc n) ps)" using assms(1) that by (auto simp: text_ok_def dest: in_set_dropD)
    then show ?thesis
      using text_step(1) [of "ps ! n" "drop (Suc n) ps" ?pre] dec_char [OF toutf8_bytes, of "ps ! n" ?pre "enc (drop (Suc n) ps) @ [0]"]
      by (simp add: split enc_Cons)
  qed
  ultimately show ?thesis by blast
qed

theorem utf8_offset_charnum_witness:
  "\<exists>offs. u8_offset (enc [0x41, 0xE9, 0x20AC, 0x1F600] @ [0]) 3 = Inr offs \<and>
     u8_charnum (enc [0x41, 0xE9, 0x20AC, 0x1F600] @ [0]) offs = Inr 3"
  using utf8_offset_charnum [of "[0x41, 0xE9, 0x20AC, 0x1F600]" 3] by (auto simp: text_ok_def valid_def)

subsection \<open>Converting arrays\<close>

lemma char_room: "valid p \<Longrightarrow> u8_wc_toutf8 p \<noteq> []"
  using toutf8_bytes [of p] by (auto simp: char_bytes_def)

lemma toutf8_loop_text:
  assumes "text_ok ps" "int (length (out @ enc ps)) < sz" "srcsz = -1 \<or> srcsz = int (length (done @ ps))"
  shows "toutf8_loop sz (done @ ps @ [0]) srcsz (int (length done)) out =
    Inr (int (length (done @ ps)), out @ enc ps @ [0])"
  using assms
proof (induction ps arbitrary: "done" out)
  case Nil
  then show ?case by (auto simp: toutf8_loop.simps word_at_def enc_def)
next
  case (Cons p ps)
  have w: "word_at (done @ (p # ps) @ [0]) (int (length done)) = Inr p" by (simp add: word_at_def)
  have p: "p \<noteq> 0" "p < 0x110000" "text_ok ps" using Cons.prems(1) by (auto simp: valid_def)
  have "int (length (done @ [p])) = int (length done) + 1" by simp
  then have IH: "toutf8_loop sz (done @ (p # ps) @ [0]) srcsz (int (length done) + 1) (out @ u8_wc_toutf8 p) =
      Inr (int (length (done @ p # ps)), out @ enc (p # ps) @ [0])"
    using Cons.IH [of "out @ u8_wc_toutf8 p" "done @ [p]"] Cons.prems p(3) by (simp add: enc_Cons add.commute)
  have "\<not> int (length out) \<ge> sz - (int (length (u8_wc_toutf8 p)) - 1)" using Cons.prems(2) by (simp add: enc_Cons)
  then show ?case
    using IH w p Cons.prems(3) by (auto simp: toutf8_loop.simps [of sz _ srcsz "int (length done)"] Let_def)
qed

lemma toucs_loop_text:
  assumes "text_ok ps" "int (length (dest @ ps)) < sz" "srcsz = -1 \<or> srcsz = int (length (pre @ enc ps))"
  shows "toucs_loop sz (pre @ enc ps @ [0]) srcsz (int (length pre)) dest = Inr (dest @ ps)"
  using assms
proof (induction ps arbitrary: pre dest)
  case Nil
  then show ?case
    by (auto simp: toucs_loop.simps [of sz _ srcsz "int (length pre)"] enc_def byte_at_near trailing_unat)
next
  case (Cons p ps)
  have cb: "char_bytes p (u8_wc_toutf8 p)" "p \<noteq> 0" "text_ok ps" using Cons.prems(1) by (auto simp: toutf8_bytes)
  then obtain b bs where l: "u8_wc_toutf8 p = b # bs" "b \<noteq> 0" "trailingBytesForUTF8 b = length bs" "length bs \<le> 3"
    "foldl add_byte 0 (b # bs) - offsetsFromUTF8 ! length bs = p"
    by (cases "u8_wc_toutf8 p") (auto simp: char_bytes_def)
  have "add_bytes (pre @ enc (p # ps) @ [0]) (int (length pre)) (length bs) 0 = Inr (foldl add_byte 0 (b # bs))"
    using add_bytes_bytes [of pre b bs "enc ps @ [0]" 0] by (simp add: enc_Cons l(1))
  moreover have "toucs_loop sz (pre @ enc (p # ps) @ [0]) srcsz (int (length pre) + int (length bs) + 1) (dest @ [p]) =
      Inr (dest @ p # ps)"
    using Cons.IH [of "dest @ [p]" "pre @ u8_wc_toutf8 p"] Cons.prems cb(3) by (simp add: enc_Cons l(1) add_ac)
  moreover have "byte_at (pre @ enc (p # ps) @ [0]) (int (length pre)) = Inr b" by (simp add: enc_Cons l(1) byte_at_near)
  ultimately show ?case
    using Cons.prems l by (auto simp: toucs_loop.simps [of sz _ srcsz "int (length pre)"] Let_def enc_Cons)
qed

text \<open>\<^bold>\<open>C16\<close>: An array of characters, none of them zero and all below \<open>0x110000\<close>, with a zero behind them, is written as UTF-8 and
  read back unchanged, whether the lengths are given or the final zero ends the array, if the
  destinations have room for the bytes or characters and the final zero.\<close>

theorem utf8_roundtrip:
  assumes "text_ok ps" "int (length (enc ps)) < sz" "srcsz = -1 \<or> srcsz = int (length ps)"
    "int (length ps) < usz" "bsz = -1 \<or> bsz = int (length (enc ps))"
  shows "u8_toutf8 sz (ps @ [0]) srcsz = Inr (int (length ps), enc ps @ [0]) \<and>
    u8_toucs usz (enc ps @ [0]) bsz = Inr (ps @ [0], int (length ps))"
  using toutf8_loop_text [of ps "[]" sz srcsz "[]"] toucs_loop_text [of ps "[]" usz bsz "[]"] assms
  by (simp add: u8_toutf8_def u8_toucs_def)

theorem utf8_roundtrip_witness:
  "u8_toutf8 20 [0x41, 0x20AC, 0x1F600, 0] 3 = Inr (3, enc [0x41, 0x20AC, 0x1F600] @ [0]) \<and>
   u8_toucs 4 (enc [0x41, 0x20AC, 0x1F600] @ [0]) (-1) = Inr ([0x41, 0x20AC, 0x1F600, 0], 3)"
  using utf8_roundtrip [of "[0x41, 0x20AC, 0x1F600]" 20 3 4 "-1"]
  by (simp add: text_ok_def valid_def enc_def u8_wc_toutf8_def)

text \<open>The two functions that give the length of a character disagree between \<open>0x110000\<close> and \<open>0x1FFFFF\<close>.\<close>

lemma nbytes_disagree: "0x110000 \<le> ch \<Longrightarrow> ch < 0x200000 \<Longrightarrow> u8_wc_nbytes ch = 4 \<and> u8_wc_toutf8 ch = []"
  by (auto simp: u8_wc_nbytes_def u8_wc_toutf8_def not_less word_le_nat_alt word_less_nat_alt)

subsection \<open>A length function that reads too far\<close>

lemma strlen_text:
  assumes "text_ok ps"
  shows "strlen_loop (pre @ enc ps @ [0] @ post) (int (length pre)) n =
    strlen_loop (pre @ enc ps @ [0] @ post) (int (length (pre @ enc ps))) (n + length ps)"
  using assms
proof (induction ps arbitrary: pre n)
  case (Cons p ps)
  have "strlen_loop (pre @ enc (p # ps) @ [0] @ post) (int (length pre)) n =
      strlen_loop (pre @ enc (p # ps) @ [0] @ post) (int (length (pre @ u8_wc_toutf8 p))) (n + 1)"
    using text_step(2) [OF Cons.prems, of pre post] Cons.prems
    by (simp add: strlen_loop.simps [of _ "int (length pre)"])
  also have "\<dots> = strlen_loop (pre @ enc (p # ps) @ [0] @ post) (int (length (pre @ enc (p # ps)))) (n + length (p # ps))"
    using Cons.IH [of "pre @ u8_wc_toutf8 p" "n + 1"] Cons.prems by (simp add: enc_Cons)
  finally show ?case .
qed (simp add: enc_def)

text \<open>A byte that looks like a continuation byte right after the final zero makes one more character of the two, and the count goes on behind it.\<close>

lemma strlen_behind_end:
  assumes "\<not> isutf b" "isutf d"
  shows "strlen_loop (pre @ [0, b] @ d # post) (int (length pre)) n = strlen_loop (pre @ [0, b] @ d # post) (int (length (pre @ [0, b]))) (n + 1)"
proof -
  have b: "b \<noteq> 0" using assms(1) by auto
  have "next_loop (pre @ 0 # [b] @ d # post) (int (length pre)) 0 0 = Inr (add_byte (add_byte 0 0) b, 2, int (length pre + 2))"
    using next_loop_bytes [of "[b]" d pre 0 post 0 0] assms b by simp
  moreover have "add_byte (add_byte 0 0) b - 0x3080 \<noteq> 0"
  proof
    assume "add_byte (add_byte 0 0) b - 0x3080 = 0"
    then have "add_byte (add_byte 0 0) b = 0x3080" by simp
    then have "unat (add_byte (add_byte 0 0) b) = unat (0x3080 :: 32 word)" by (rule arg_cong)
    then have "unat b = 12416" by (simp add: unat_add_byte)
    moreover have "unat b < 256" using unsigned_less [of b] by simp
    ultimately show False by simp
  qed
  ultimately show ?thesis
    by (simp add: strlen_loop.simps [of "pre @ 0 # b # d # post" "int (length pre)"] u8_nextchar_def offsetsFromUTF8_def)
qed

text \<open>\<^bold>\<open>C17\<close>: \<open>u8_strlen\<close> looks at the byte after the final zero of every text. It reads out of bounds if the memory of the string ends with its zero,
  and counts the characters right if there is a byte more and it does not look like a continuation byte. If one such byte \<open>b\<close> follows, and
  behind it any further text that ends with a zero, it takes the zero and \<open>b\<close> for a character and goes on to count the characters of that text.\<close>

theorem utf8_strlen_overread:
  assumes "text_ok ps"
  shows "u8_strlen (enc ps @ [0]) = Inl OutOfBounds \<and>
    (isutf c \<longrightarrow> u8_strlen (enc ps @ [0, c] @ post) = Inr (length ps)) \<and>
    (\<not> isutf b \<and> text_ok qs \<and> isutf c \<longrightarrow> u8_strlen (enc ps @ [0, b] @ enc qs @ [0, c] @ post) = Inr (length ps + 1 + length qs))"
proof (intro conjI impI)
  have at_end: "u8_strlen (enc ps @ [0] @ post) = strlen_loop (enc ps @ [0] @ post) (int (length (enc ps))) (length ps)" for post
    using strlen_text [OF assms, of "[]" post 0] by (simp add: u8_strlen_def)
  have "next_loop (enc ps @ [0]) (int (length (enc ps))) 0 0 = Inl OutOfBounds"
    by (simp add: next_loop.simps byte_at_near) (simp add: byte_at_def)
  then show "u8_strlen (enc ps @ [0]) = Inl OutOfBounds"
    using at_end [of "[]"] by (simp add: strlen_loop.simps u8_nextchar_def)
  have stop: "strlen_loop (pre @ [0, c] @ post) (int (length pre)) n = Inr n" if "isutf c" for pre n
    using that next_loop_bytes [of "[]" c pre 0 post 0 0]
    by (simp add: strlen_loop.simps [of _ "int (length pre)"] u8_nextchar_def add_byte_def offsetsFromUTF8_def)
  show "u8_strlen (enc ps @ [0, c] @ post) = Inr (length ps)" if "isutf c"
    using at_end [of "c # post"] stop [OF that, of "enc ps"] by simp
  assume *: "\<not> isutf b \<and> text_ok qs \<and> isutf c"
  then obtain d post' where d: "enc qs @ [0] = d # post'" "isutf d" by (metis enc_next)
  have e: "d # (post' @ c # post) = enc qs @ [0, c] @ post" using arg_cong [OF d(1), of "\<lambda>t. t @ c # post"] by simp
  then have "u8_strlen (enc ps @ [0, b] @ enc qs @ [0, c] @ post) =
      strlen_loop (enc ps @ [0, b] @ enc qs @ [0, c] @ post) (int (length (enc ps @ [0, b]))) (length ps + 1)"
    using at_end [of "b # enc qs @ [0, c] @ post"] strlen_behind_end [of b d "enc ps" "post' @ c # post", unfolded e] * d(2) by simp
  also have "\<dots> = strlen_loop ((enc ps @ [0, b] @ enc qs) @ [0, c] @ post) (int (length (enc ps @ [0, b] @ enc qs))) (length ps + 1 + length qs)"
    using strlen_text [of qs "enc ps @ [0, b]" "c # post" "length ps + 1"] * by simp
  also have "\<dots> = Inr (length ps + 1 + length qs)" by (rule stop) (use * in simp)
  finally show "u8_strlen (enc ps @ [0, b] @ enc qs @ [0, c] @ post) = Inr (length ps + 1 + length qs)" .
qed

theorem utf8_strlen_overread_witness: "u8_strlen (enc [0x41, 0xE9] @ [0]) = Inl OutOfBounds \<and> u8_strlen (enc [0x41, 0xE9] @ [0, 0x81] @ enc [0x42] @ [0, 0x43] @ []) = Inr 4"
proof -
  have "text_ok [0x41, 0xE9]" "text_ok [0x42]" "\<not> isutf 0x81" "isutf 0x43" by (simp_all add: text_ok_def valid_def isutf_range)
  then show ?thesis using utf8_strlen_overread [where ps = "[0x41, 0xE9]" and c = "0x43" and post = "[]" and b = "0x81" and qs = "[0x42]"] by simp
qed
end
