(* ===== verification/Midi.thy ===== *)
theory Midi
  imports Objects
begin

unbundle bit_operations_syntax

text \<open>
  MIDI queues and the MIDI parser (\<open>s_midi.c\<close>). Messages to and bytes from the devices wait in
  two queues, each an array used as a ring, until their time has come. Bytes that come in run through
  a parser, one for each port, that assembles messages for the objects of \<open>x_midi.c\<close>. The
  times that the code reads from its clocks are arguments of the model.
\<close>

subsection \<open>Queues\<close>

record t_midiqelem =
  q_time :: fl
  q_portno :: int
  q_onebyte :: bool
  q_byte1 :: int
  q_byte2 :: int
  q_byte3 :: int

definition MIDIQSIZE :: nat where "MIDIQSIZE = 1024"

record midiqueue =
  mq_vec :: "t_midiqelem list"
  mq_head :: nat
  mq_tail :: nat

definition next_index :: "nat \<Rightarrow> nat" where
  "next_index i = (if i + 1 = MIDIQSIZE then 0 else i + 1)"

text \<open>
  The code has each operation twice, for the queue of output and for the queue of input; here they take
  the function that deals with the oldest element, \<open>sys_putnext\<close> or \<open>sys_dispatchnextmidiin\<close>.
\<close>

definition consume_next ::
    "(t_midiqelem \<Rightarrow> 'w \<Rightarrow> 'w cresult) \<Rightarrow> midiqueue \<times> 'w \<Rightarrow> (midiqueue \<times> 'w) cresult" where
  "consume_next f p = (let Q = fst p in
     if mq_tail Q < length (mq_vec Q)
     then cbind (f (mq_vec Q ! mq_tail Q) (snd p)) (\<lambda>w. Inr (Q\<lparr>mq_tail := next_index (mq_tail Q)\<rparr>, w))
     else Inl OutOfBounds)"

partial_function (option) poll_queue ::
    "(t_midiqelem \<Rightarrow> 'w \<Rightarrow> 'w cresult) \<Rightarrow> fl \<Rightarrow> midiqueue \<times> 'w \<Rightarrow> (midiqueue \<times> 'w) cresult option" where
  "poll_queue f now p = (let Q = fst p in
     if mq_head Q \<noteq> mq_tail Q then
       (if mq_tail Q < length (mq_vec Q) then
          (if fle (q_time (mq_vec Q ! mq_tail Q)) now then
             (case consume_next f p of Inl e \<Rightarrow> Some (Inl e) | Inr p' \<Rightarrow> poll_queue f now p')
           else Some (Inr p))
        else Some (Inl OutOfBounds))
     else Some (Inr p))"

definition enqueue ::
    "(t_midiqelem \<Rightarrow> 'w \<Rightarrow> 'w cresult) \<Rightarrow> t_midiqelem \<Rightarrow> fl \<Rightarrow> midiqueue \<times> 'w \<Rightarrow> (midiqueue \<times> 'w) cresult option" where
  "enqueue f e now p =
     (let newhead = next_index (mq_head (fst p)) in
      case (if newhead = mq_tail (fst p) then consume_next f p else Inr p) of
        Inl err \<Rightarrow> Some (Inl err)
      | Inr (Q, w) \<Rightarrow>
          if mq_head Q < length (mq_vec Q)
          then poll_queue f now (Q\<lparr>mq_vec := (mq_vec Q)[mq_head Q := e], mq_head := newhead\<rparr>, w)
          else Some (Inl OutOfBounds))"

subsection \<open>Output\<close>

text \<open>What is handed to the driver.\<close>

datatype midi_put = PutByte int int | PutMess int int int int

definition put_element :: "t_midiqelem \<Rightarrow> midi_put" where
  "put_element e = (if q_onebyte e then PutByte (q_portno e) (q_byte1 e)
     else PutMess (q_portno e) (q_byte1 e) (q_byte2 e) (q_byte3 e))"

definition sys_putnext :: "t_midiqelem \<Rightarrow> midi_put list \<Rightarrow> midi_put list cresult" where
  "sys_putnext e puts = Inr (puts @ [put_element e])"

definition sys_pollmidioutqueue ::
    "fl \<Rightarrow> midiqueue \<times> midi_put list \<Rightarrow> (midiqueue \<times> midi_put list) cresult option" where
  "sys_pollmidioutqueue midirealtime = poll_queue sys_putnext midirealtime"

text \<open>The bytes are stored as \<open>unsigned char\<close>.\<close>

definition midi_element :: "fl \<Rightarrow> int \<Rightarrow> bool \<Rightarrow> int \<Rightarrow> int \<Rightarrow> int \<Rightarrow> t_midiqelem" where
  "midi_element t portno onebyte a b c = \<lparr>q_time = t, q_portno = portno, q_onebyte = onebyte,
     q_byte1 = a mod 256, q_byte2 = b mod 256, q_byte3 = c mod 256\<rparr>"

definition sys_queuemidimess ::
    "fl \<Rightarrow> fl \<Rightarrow> int \<Rightarrow> bool \<Rightarrow> int \<Rightarrow> int \<Rightarrow> int \<Rightarrow> midiqueue \<times> midi_put list \<Rightarrow> (midiqueue \<times> midi_put list) cresult option" where
  "sys_queuemidimess logicaltime midirealtime portno onebyte a b c =
     enqueue sys_putnext (midi_element logicaltime portno onebyte a b c) midirealtime"

definition clip_int :: "int \<Rightarrow> int \<Rightarrow> int" where
  "clip_int hi v = (if v < 0 then 0 else if v > hi then hi else v)"

text \<open>The arguments with which the functions for output call \<open>sys_queuemidimess\<close>.\<close>

record midi_mess =
  mm_portno :: int
  mm_onebyte :: bool
  mm_a :: int
  mm_b :: int
  mm_c :: int

definition outmidi_noteon :: "int \<Rightarrow> int \<Rightarrow> int \<Rightarrow> int \<Rightarrow> midi_mess" where
  "outmidi_noteon portno channel pitch velo = \<lparr>mm_portno = portno, mm_onebyte = False,
     mm_a = 144 + (channel AND 0xf), mm_b = clip_int 127 pitch, mm_c = clip_int 127 velo\<rparr>"

definition outmidi_controlchange :: "int \<Rightarrow> int \<Rightarrow> int \<Rightarrow> int \<Rightarrow> midi_mess" where
  "outmidi_controlchange portno channel ctl value = \<lparr>mm_portno = portno, mm_onebyte = False,
     mm_a = 176 + (channel AND 0xf), mm_b = clip_int 127 ctl, mm_c = clip_int 127 value\<rparr>"

definition outmidi_programchange :: "int \<Rightarrow> int \<Rightarrow> int \<Rightarrow> midi_mess" where
  "outmidi_programchange portno channel value = \<lparr>mm_portno = portno, mm_onebyte = False,
     mm_a = 192 + (channel AND 0xf), mm_b = clip_int 127 value, mm_c = 0\<rparr>"

definition outmidi_pitchbend :: "int \<Rightarrow> int \<Rightarrow> int \<Rightarrow> midi_mess" where
  "outmidi_pitchbend portno channel value = (let v = clip_int 16383 value in
     \<lparr>mm_portno = portno, mm_onebyte = False,
      mm_a = 224 + (channel AND 0xf), mm_b = v AND 127, mm_c = drop_bit 7 v AND 127\<rparr>)"

definition outmidi_aftertouch :: "int \<Rightarrow> int \<Rightarrow> int \<Rightarrow> midi_mess" where
  "outmidi_aftertouch portno channel value = \<lparr>mm_portno = portno, mm_onebyte = False,
     mm_a = 208 + (channel AND 0xf), mm_b = clip_int 127 value, mm_c = 0\<rparr>"

definition outmidi_polyaftertouch :: "int \<Rightarrow> int \<Rightarrow> int \<Rightarrow> int \<Rightarrow> midi_mess" where
  "outmidi_polyaftertouch portno channel pitch value = \<lparr>mm_portno = portno, mm_onebyte = False,
     mm_a = 160 + (channel AND 0xf), mm_b = clip_int 127 pitch, mm_c = clip_int 127 value\<rparr>"

definition outmidi_mclk :: "int \<Rightarrow> midi_mess" where
  "outmidi_mclk portno = \<lparr>mm_portno = portno, mm_onebyte = True, mm_a = 0xf8, mm_b = 0, mm_c = 0\<rparr>"

text \<open>The driver for OSS (\<open>s_midi_oss.c\<close>): the bytes it writes to the device of a port.\<close>

definition md_msglen :: "int \<Rightarrow> int" where
  "md_msglen x = (if x < 0xC0 then 2 else if x < 0xE0 then 1 else if x < 0xF0 then 2
     else if x = 0xF2 then 2 else if x < 0xF4 then 1 else 0)"

fun oss_bytes :: "int \<Rightarrow> midi_put \<Rightarrow> (int \<times> int) list" where
  "oss_bytes nmidiout (PutByte portno byte) = (if 0 \<le> portno \<and> portno < nmidiout then [(portno, byte)] else [])"
| "oss_bytes nmidiout (PutMess portno a b c) = (if 0 \<le> portno \<and> portno < nmidiout then
     (if md_msglen a = 2 then [(portno, a), (portno, b), (portno, c)]
      else if md_msglen a = 1 then [(portno, a), (portno, b)] else [(portno, a)]) else [])"

subsection \<open>Input\<close>

record t_midiparser =
  mp_status :: int
  mp_gotbyte1 :: bool
  mp_byte1 :: int

datatype midi_event =
    RealtimeIn int int | ByteIn int int | SysexIn int int | NoteOn int int int int | ControlChange int int int int
  | ProgramChange int int int | PitchBend int int int | AfterTouch int int int | PolyAfterTouch int int int int

text \<open>Two data bytes: the first is kept, the second completes the message.\<close>

definition two_bytes :: "(int \<Rightarrow> int \<Rightarrow> midi_event) \<Rightarrow> int \<Rightarrow> t_midiparser \<Rightarrow> t_midiparser \<times> midi_event list" where
  "two_bytes ev byte P = (if mp_gotbyte1 P then (P\<lparr>mp_gotbyte1 := False\<rparr>, [ev (mp_byte1 P) byte])
     else (P\<lparr>mp_byte1 := byte, mp_gotbyte1 := True\<rparr>, []))"

definition data_byte :: "int \<Rightarrow> int \<Rightarrow> t_midiparser \<Rightarrow> t_midiparser \<times> midi_event list" where
  "data_byte portno byte P =
     (let cmd = (if mp_status P \<ge> 0xf0 then mp_status P else mp_status P AND 0xf0); chan = mp_status P AND 0xf in
      if cmd = 0x80 then two_bytes (\<lambda>b1 b2. NoteOn portno chan b1 0) byte P
      else if cmd = 0x90 then two_bytes (NoteOn portno chan) byte P
      else if cmd = 0xa0 then two_bytes (PolyAfterTouch portno chan) byte P
      else if cmd = 0xb0 then two_bytes (ControlChange portno chan) byte P
      else if cmd = 0xc0 then (P, [ProgramChange portno chan byte])
      else if cmd = 0xd0 then (P, [AfterTouch portno chan byte])
      else if cmd = 0xe0 then two_bytes (\<lambda>b1 b2. PitchBend portno chan (push_bit 7 b2 + b1)) byte P
      else if cmd = 0xf0 then (P, [SysexIn portno byte])
      else (P, []))"

definition status_byte :: "int \<Rightarrow> int \<Rightarrow> t_midiparser \<Rightarrow> t_midiparser \<times> midi_event list" where
  "status_byte portno byte P =
     (if byte = 0xf6 \<or> byte = 0xf4 \<or> byte = 0xf5 then (P\<lparr>mp_status := 0, mp_gotbyte1 := False\<rparr>, [])
      else if byte = 0xf0 then (P\<lparr>mp_status := byte, mp_gotbyte1 := False\<rparr>, [SysexIn portno byte])
      else if byte = 0xf7 then (P\<lparr>mp_status := 0, mp_gotbyte1 := False\<rparr>, [SysexIn portno byte])
      else (P\<lparr>mp_status := byte, mp_gotbyte1 := False\<rparr>, []))"

definition parse_byte :: "int \<Rightarrow> int \<Rightarrow> t_midiparser \<Rightarrow> t_midiparser \<times> midi_event list" where
  "parse_byte portno byte P =
     (if byte \<ge> 0xf8 then (P, [RealtimeIn portno byte])
      else (let (P', evs) = (if byte AND 0x80 \<noteq> 0 then status_byte portno byte P else data_byte portno byte P)
            in (P', ByteIn portno byte # evs)))"

definition MAXMIDIINDEV :: int where "MAXMIDIINDEV = 16"

record midiin =
  parser :: "t_midiparser list"
  in_eventno :: int
  events :: "midi_event list"

text \<open>\<open>bug\<close> only prints: with a port number out of range the parser is used all the same.\<close>

definition sys_dispatchnextmidiin :: "t_midiqelem \<Rightarrow> midiin \<Rightarrow> midiin cresult" where
  "sys_dispatchnextmidiin e S = (let portno = q_portno e in
     if 0 \<le> portno \<and> portno < int (length (parser S)) then
       (let (P, evs) = parse_byte portno (q_byte1 e) (parser S ! nat portno)
        in Inr (S\<lparr>parser := (parser S)[nat portno := P], in_eventno := wrap32 (in_eventno S + 1), events := events S @ evs\<rparr>))
     else Inl OutOfBounds)"

definition sys_pollmidiinqueue :: "fl \<Rightarrow> midiqueue \<times> midiin \<Rightarrow> (midiqueue \<times> midiin) cresult option" where
  "sys_pollmidiinqueue logicaltime = poll_queue sys_dispatchnextmidiin logicaltime"

definition sys_midibytein :: "fl \<Rightarrow> fl \<Rightarrow> int \<Rightarrow> int \<Rightarrow> midiqueue \<times> midiin \<Rightarrow> (midiqueue \<times> midiin) cresult option" where
  "sys_midibytein inrealtime logicaltime portno byte =
     enqueue sys_dispatchnextmidiin (midi_element inrealtime portno True byte 0 0) logicaltime"

subsection \<open>A queue holds a list\<close>

definition midiq_ok :: "midiqueue \<Rightarrow> t_midiqelem list \<Rightarrow> bool" where
  "midiq_ok Q es \<longleftrightarrow> length (mq_vec Q) = MIDIQSIZE \<and> mq_tail Q < MIDIQSIZE \<and> length es < MIDIQSIZE \<and>
     mq_head Q = (mq_tail Q + length es) mod MIDIQSIZE \<and>
     (\<forall>k < length es. mq_vec Q ! ((mq_tail Q + k) mod MIDIQSIZE) = es ! k)"

lemma next_index_mod: "i < MIDIQSIZE \<Longrightarrow> next_index i = (i + 1) mod MIDIQSIZE"
  by (auto simp: next_index_def)

lemma ring_distance:
  fixes t n :: nat
  assumes "t < N" "n < N"
  shows "(t + n) mod N = t \<longleftrightarrow> n = 0"
  using assms by (cases "t + n < N") (auto simp: le_mod_geq)

lemma ring_shift_mod: "t < N \<Longrightarrow> ((t + 1) mod N + k) mod N = (t + Suc k) mod (N :: nat)"
  by (simp add: mod_simps)

lemma midiq_empty: "midiq_ok Q es \<Longrightarrow> mq_head Q = mq_tail Q \<longleftrightarrow> es = []"
  using ring_distance [of "mq_tail Q" MIDIQSIZE "length es"] by (auto simp: midiq_ok_def)

lemma midiq_full: "midiq_ok Q es \<Longrightarrow> next_index (mq_head Q) = mq_tail Q \<longleftrightarrow> Suc (length es) = MIDIQSIZE"
proof -
  assume ok: "midiq_ok Q es"
  then have h: "mq_head Q = (mq_tail Q + length es) mod MIDIQSIZE" "mq_head Q < MIDIQSIZE"
    by (auto simp: midiq_ok_def MIDIQSIZE_def)
  have "next_index (mq_head Q) = (mq_tail Q + Suc (length es)) mod MIDIQSIZE"
    by (simp only: next_index_mod [OF h(2)]) (simp add: h(1) mod_simps)
  then show ?thesis
    using ok ring_distance [of "mq_tail Q" MIDIQSIZE "Suc (length es)"]
    by (cases "Suc (length es) = MIDIQSIZE") (auto simp: midiq_ok_def)
qed

lemma consume_cons:
  assumes "midiq_ok Q (e # es)"
  shows "mq_tail Q < length (mq_vec Q)" "mq_vec Q ! mq_tail Q = e"
    "consume_next f (Q, w) = cbind (f e w) (\<lambda>w'. Inr (Q\<lparr>mq_tail := next_index (mq_tail Q)\<rparr>, w'))"
    "midiq_ok (Q\<lparr>mq_tail := next_index (mq_tail Q)\<rparr>) es"
proof -
  let ?t = "mq_tail Q"
  have t: "?t < MIDIQSIZE" "length (mq_vec Q) = MIDIQSIZE" using assms by (auto simp: midiq_ok_def)
  then show tail: "?t < length (mq_vec Q)" by simp
  have "\<forall>k < length (e # es). mq_vec Q ! ((?t + k) mod MIDIQSIZE) = (e # es) ! k" using assms by (simp add: midiq_ok_def)
  then have "mq_vec Q ! ((?t + 0) mod MIDIQSIZE) = (e # es) ! 0" by blast
  then show hd: "mq_vec Q ! ?t = e" using t by simp
  show "consume_next f (Q, w) = cbind (f e w) (\<lambda>w'. Inr (Q\<lparr>mq_tail := next_index ?t\<rparr>, w'))"
    using tail hd by (simp add: consume_next_def)
  show "midiq_ok (Q\<lparr>mq_tail := next_index ?t\<rparr>) es"
    using assms t ring_shift_mod [OF t(1)] by (fastforce simp: midiq_ok_def next_index_mod)
qed

lemma store_last:
  assumes "midiq_ok Q es" "Suc (length es) < MIDIQSIZE"
  shows "mq_head Q < length (mq_vec Q)"
    "midiq_ok (Q\<lparr>mq_vec := (mq_vec Q)[mq_head Q := e], mq_head := next_index (mq_head Q)\<rparr>) (es @ [e])"
proof -
  let ?t = "mq_tail Q" and ?n = "length es"
  have h: "mq_head Q = (?t + ?n) mod MIDIQSIZE" "mq_head Q < MIDIQSIZE" "length (mq_vec Q) = MIDIQSIZE"
    "?t < MIDIQSIZE" using assms by (auto simp: midiq_ok_def)
  then show "mq_head Q < length (mq_vec Q)" by simp
  have "(?t + k) mod MIDIQSIZE \<noteq> (?t + ?n) mod MIDIQSIZE" if "k < ?n" for k
  proof
    assume "(?t + k) mod MIDIQSIZE = (?t + ?n) mod MIDIQSIZE"
    then have "MIDIQSIZE dvd (?t + ?n) - (?t + k)" using that by (metis add_le_cancel_left less_imp_le mod_eq_dvd_iff_nat)
    then show False using that assms(2) by (auto dest: dvd_imp_le)
  qed
  note distinct = this
  have "((mq_vec Q)[mq_head Q := e]) ! ((?t + k) mod MIDIQSIZE) = (es @ [e]) ! k" if "k < Suc ?n" for k
  proof (cases "k = ?n")
    case True
    then show ?thesis using h by (metis nth_append_length nth_list_update_eq)
  next
    case False
    then have "k < ?n" using that by simp
    then show ?thesis using distinct [of k] assms(1) h(1) by (simp add: midiq_ok_def nth_append)
  qed
  moreover have "next_index (mq_head Q) = (?t + Suc ?n) mod MIDIQSIZE"
    by (simp add: next_index_mod [OF h(2)]) (simp add: h(1) mod_simps)
  ultimately show "midiq_ok (Q\<lparr>mq_vec := (mq_vec Q)[mq_head Q := e], mq_head := next_index (mq_head Q)\<rparr>) (es @ [e])"
    using assms h by (simp add: midiq_ok_def)
qed

subsection \<open>What both queues promise\<close>

datatype queue_op = Enqueue t_midiqelem fl | Poll fl

fun do_queue_op :: "(t_midiqelem \<Rightarrow> 'w \<Rightarrow> 'w cresult) \<Rightarrow> queue_op \<Rightarrow> midiqueue \<times> 'w \<Rightarrow> (midiqueue \<times> 'w) cresult option" where
  "do_queue_op f (Enqueue e now) p = enqueue f e now p"
| "do_queue_op f (Poll now) p = poll_queue f now p"

fun run_queue :: "(t_midiqelem \<Rightarrow> 'w \<Rightarrow> 'w cresult) \<Rightarrow> queue_op list \<Rightarrow> midiqueue \<times> 'w \<Rightarrow> (midiqueue \<times> 'w) cresult option" where
  "run_queue f [] p = Some (Inr p)"
| "run_queue f (x # xs) p = (case do_queue_op f x p of None \<Rightarrow> None | Some (Inl e) \<Rightarrow> Some (Inl e)
     | Some (Inr p') \<Rightarrow> run_queue f xs p')"

fun added :: "queue_op \<Rightarrow> t_midiqelem list" where
  "added (Enqueue e now) = [e]"
| "added (Poll now) = []"

fun op_time :: "queue_op \<Rightarrow> fl" where
  "op_time (Enqueue e now) = now"
| "op_time (Poll now) = now"

text \<open>A consumer that never fails on elements that are good for it.\<close>

locale midi_consumer =
  fixes f :: "t_midiqelem \<Rightarrow> 'w \<Rightarrow> 'w cresult"
    and consumed :: "t_midiqelem \<Rightarrow> 'w \<Rightarrow> 'w"
    and ok :: "'w \<Rightarrow> bool"
    and good :: "t_midiqelem \<Rightarrow> bool"
  assumes consume: "good e \<Longrightarrow> ok w \<Longrightarrow> f e w = Inr (consumed e w) \<and> ok (consumed e w)"
begin

lemma poll_takes_due:
  assumes "midiq_ok Q es" "\<forall>e \<in> set es. good e" "ok w"
  shows "\<exists>Q' rest gone. poll_queue f now (Q, w) = Some (Inr (Q', fold consumed gone w)) \<and> midiq_ok Q' rest \<and>
    es = gone @ rest \<and> ok (fold consumed gone w) \<and> (rest \<noteq> [] \<longrightarrow> \<not> fle (q_time (hd rest)) now)"
  using assms
proof (induction es arbitrary: Q w)
  case Nil
  then have "mq_head Q = mq_tail Q" using midiq_empty by blast
  with Nil show ?case by (auto simp: poll_queue.simps [of f now "(Q, w)"] Let_def intro!: exI [of _ "[]"])
next
  case (Cons e es)
  note c = consume_cons [OF Cons.prems(1)]
  have ne: "mq_head Q \<noteq> mq_tail Q" using midiq_empty [OF Cons.prems(1)] by simp
  show ?case
  proof (cases "fle (q_time e) now")
    case True
    have fe: "f e w = Inr (consumed e w)" "ok (consumed e w)" using consume Cons.prems by auto
    obtain Q' rest gone where IH: "poll_queue f now (Q\<lparr>mq_tail := next_index (mq_tail Q)\<rparr>, consumed e w) =
        Some (Inr (Q', fold consumed gone (consumed e w)))" "midiq_ok Q' rest" "es = gone @ rest"
        "ok (fold consumed gone (consumed e w))" "rest \<noteq> [] \<longrightarrow> \<not> fle (q_time (hd rest)) now"
      using Cons.IH [OF c(4) _ fe(2)] Cons.prems(2) by auto
    have "poll_queue f now (Q, w) = Some (Inr (Q', fold consumed (e # gone) w))"
      using ne c(1,2) c(3) [of f w] True fe(1) IH(1) by (simp add: poll_queue.simps [of f now "(Q, w)"] Let_def)
    then show ?thesis using IH by (intro exI [of _ Q'] exI [of _ rest] exI [of _ "e # gone"]) simp
  next
    case False
    then have "poll_queue f now (Q, w) = Some (Inr (Q, w))"
      using ne c(1,2) by (simp add: poll_queue.simps [of f now "(Q, w)"] Let_def)
    then show ?thesis using Cons.prems False by (intro exI [of _ Q] exI [of _ "e # es"] exI [of _ "[]"]) simp
  qed
qed

lemma queue_op_keeps_order:
  assumes "midiq_ok Q es" "\<forall>e \<in> set (es @ added x). good e" "ok w"
  shows "\<exists>Q' rest gone. do_queue_op f x (Q, w) = Some (Inr (Q', fold consumed gone w)) \<and> midiq_ok Q' rest \<and>
    es @ added x = gone @ rest \<and> ok (fold consumed gone w) \<and> (rest \<noteq> [] \<longrightarrow> \<not> fle (q_time (hd rest)) (op_time x))"
proof (cases x)
  case (Poll now)
  then show ?thesis using poll_takes_due [of Q es w now] assms by simp
next
  case (Enqueue e now)
  show ?thesis
  proof (cases "Suc (length es) = MIDIQSIZE")
    case False
    then have room: "Suc (length es) < MIDIQSIZE" using assms(1) by (auto simp: midiq_ok_def)
    let ?Q = "Q\<lparr>mq_vec := (mq_vec Q)[mq_head Q := e], mq_head := next_index (mq_head Q)\<rparr>"
    have "enqueue f e now (Q, w) = poll_queue f now (?Q, w)"
      using midiq_full [OF assms(1)] False store_last(1) [OF assms(1) room] by (simp add: enqueue_def Let_def)
    then show ?thesis
      using poll_takes_due [OF store_last(2) [OF assms(1) room, of e], of w now] assms Enqueue by simp
  next
    case True
    then obtain d ds where es: "es = d # ds" by (cases es) (auto simp: MIDIQSIZE_def)
    note c = consume_cons [OF assms(1) [unfolded es]]
    have fd: "f d w = Inr (consumed d w)" "ok (consumed d w)" using consume assms es by auto
    let ?R = "Q\<lparr>mq_tail := next_index (mq_tail Q)\<rparr>"
    let ?Q = "?R\<lparr>mq_vec := (mq_vec ?R)[mq_head ?R := e], mq_head := next_index (mq_head ?R)\<rparr>"
    have room: "Suc (length ds) < MIDIQSIZE" using True es by simp
    have "enqueue f e now (Q, w) = poll_queue f now (?Q, consumed d w)"
      using midiq_full [OF assms(1)] True c(3) [of f w] fd(1) store_last(1) [OF c(4) room] by (simp add: enqueue_def Let_def)
    moreover obtain Q' rest gone where "poll_queue f now (?Q, consumed d w) = Some (Inr (Q', fold consumed gone (consumed d w)))"
        "midiq_ok Q' rest" "ds @ [e] = gone @ rest" "ok (fold consumed gone (consumed d w))"
        "rest \<noteq> [] \<longrightarrow> \<not> fle (q_time (hd rest)) now"
      using poll_takes_due [OF store_last(2) [OF c(4) room, of e] _ fd(2), of now] assms(2) Enqueue es by auto
    ultimately show ?thesis
      using Enqueue es by (intro exI [of _ Q'] exI [of _ rest] exI [of _ "d # gone"]) simp
  qed
qed

lemma queue_keeps_order:
  assumes "midiq_ok Q es" "\<forall>e \<in> set (es @ concat (map added xs)). good e" "ok w"
  shows "\<exists>Q' rest gone. run_queue f xs (Q, w) = Some (Inr (Q', fold consumed gone w)) \<and> midiq_ok Q' rest \<and>
    es @ concat (map added xs) = gone @ rest \<and>
    (xs \<noteq> [] \<and> rest \<noteq> [] \<longrightarrow> \<not> fle (q_time (hd rest)) (op_time (last xs)))"
  using assms
proof (induction xs arbitrary: Q w es)
  case Nil
  then show ?case by (intro exI [of _ Q] exI [of _ es] exI [of _ "[]"]) simp
next
  case (Cons x xs)
  obtain Q1 es1 gone1 where s1: "do_queue_op f x (Q, w) = Some (Inr (Q1, fold consumed gone1 w))" "midiq_ok Q1 es1"
      "es @ added x = gone1 @ es1" "ok (fold consumed gone1 w)" "es1 \<noteq> [] \<longrightarrow> \<not> fle (q_time (hd es1)) (op_time x)"
    using queue_op_keeps_order [OF Cons.prems(1), of x w] Cons.prems by auto
  have parts: "es @ concat (map added (x # xs)) = gone1 @ es1 @ concat (map added xs)"
    using s1(3) by (simp flip: append_assoc)
  then have good1: "\<forall>e \<in> set (es1 @ concat (map added xs)). good e" using Cons.prems(2) by (metis Un_iff set_append)
  show ?case
  proof (cases "xs = []")
    case True
    then show ?thesis using s1 by (intro exI [of _ Q1] exI [of _ es1] exI [of _ gone1]) simp
  next
    case False
    obtain Q' rest gone where "run_queue f xs (Q1, fold consumed gone1 w) = Some (Inr (Q', fold consumed gone (fold consumed gone1 w)))"
        "midiq_ok Q' rest" "es1 @ concat (map added xs) = gone @ rest"
        "rest \<noteq> [] \<longrightarrow> \<not> fle (q_time (hd rest)) (op_time (last xs))"
      using Cons.IH [OF s1(2) good1 s1(4)] False by blast
    then show ?thesis
      using s1(1) parts False by (intro exI [of _ Q'] exI [of _ rest] exI [of _ "gone1 @ gone"]) simp
  qed
qed

end

definition dispatched :: "t_midiqelem \<Rightarrow> midiin \<Rightarrow> midiin" where
  "dispatched e S = (let (P, evs) = parse_byte (q_portno e) (q_byte1 e) (parser S ! nat (q_portno e))
     in S\<lparr>parser := (parser S)[nat (q_portno e) := P], in_eventno := wrap32 (in_eventno S + 1), events := events S @ evs\<rparr>)"

interpretation midi_out: midi_consumer sys_putnext "\<lambda>e puts. puts @ [put_element e]" "\<lambda>_. True" "\<lambda>_. True"
  by unfold_locales (simp add: sys_putnext_def)

interpretation midi_in: midi_consumer sys_dispatchnextmidiin dispatched
  "\<lambda>S. int (length (parser S)) = MAXMIDIINDEV" "\<lambda>e. 0 \<le> q_portno e \<and> q_portno e < MAXMIDIINDEV"
  by unfold_locales (auto simp: sys_dispatchnextmidiin_def dispatched_def Let_def split: prod.splits)

lemma fold_put: "fold (\<lambda>e puts. puts @ [put_element e]) es puts = puts @ map put_element es"
  by (induction es arbitrary: puts) auto

text \<open>\<^bold>\<open>C15\<close>: Both MIDI queues hand on every element exactly once and in the order in which it was put, whatever
  sequence of insertions and polls, and however often a full queue has to make room: what has been handed
  on, followed by what still waits, is what was put. Nothing that is due is left at the head. The ports of the incoming bytes are from 0 to 15, as all callers see to.\<close>

theorem midi_queues_keep_order:
  assumes "midiq_ok Q es" "midiq_ok R ds" "int (length (parser S)) = MAXMIDIINDEV"
    "\<forall>e \<in> set (ds @ concat (map added ins)). 0 \<le> q_portno e \<and> q_portno e < MAXMIDIINDEV"
  shows "(\<exists>Q' rest gone. run_queue sys_putnext outs (Q, puts) = Some (Inr (Q', puts @ map put_element gone)) \<and>
      midiq_ok Q' rest \<and> es @ concat (map added outs) = gone @ rest \<and>
      (outs \<noteq> [] \<and> rest \<noteq> [] \<longrightarrow> \<not> fle (q_time (hd rest)) (op_time (last outs)))) \<and>
    (\<exists>R' rest gone. run_queue sys_dispatchnextmidiin ins (R, S) = Some (Inr (R', fold dispatched gone S)) \<and>
      midiq_ok R' rest \<and> ds @ concat (map added ins) = gone @ rest \<and>
      (ins \<noteq> [] \<and> rest \<noteq> [] \<longrightarrow> \<not> fle (q_time (hd rest)) (op_time (last ins))))"
  using midi_out.queue_keeps_order [OF assms(1), of outs puts] midi_in.queue_keeps_order [OF assms(2,4,3)]
  by (simp add: fold_put)

lemma midi_out_empties:
  assumes "midiq_ok Q []" "ops \<noteq> []" "\<forall>e \<in> set (concat (map added ops)). fle (q_time e) (op_time (last ops))"
  shows "\<exists>Q'. run_queue sys_putnext ops (Q, []) = Some (Inr (Q', map put_element (concat (map added ops)))) \<and> midiq_ok Q' []"
proof -
  obtain Q' rest gone where r: "run_queue sys_putnext ops (Q, []) = Some (Inr (Q', map put_element gone))" "midiq_ok Q' rest"
      "concat (map added ops) = gone @ rest" "rest \<noteq> [] \<longrightarrow> \<not> fle (q_time (hd rest)) (op_time (last ops))"
    using midi_out.queue_keeps_order [OF assms(1), of ops "[]"] assms(2) by (auto simp: fold_put)
  have "rest = []" using r(3,4) assms(3) by (cases rest) auto
  then show ?thesis using r by simp
qed

lemma midi_in_empties:
  assumes "midiq_ok Q []" "ops \<noteq> []" "\<forall>e \<in> set (concat (map added ops)). fle (q_time e) (op_time (last ops))"
    "int (length (parser S)) = MAXMIDIINDEV" "\<forall>e \<in> set (concat (map added ops)). 0 \<le> q_portno e \<and> q_portno e < MAXMIDIINDEV"
  shows "\<exists>Q'. run_queue sys_dispatchnextmidiin ops (Q, S) = Some (Inr (Q', fold dispatched (concat (map added ops)) S)) \<and> midiq_ok Q' []"
proof -
  obtain Q' rest gone where r: "run_queue sys_dispatchnextmidiin ops (Q, S) = Some (Inr (Q', fold dispatched gone S))" "midiq_ok Q' rest"
      "concat (map added ops) = gone @ rest" "rest \<noteq> [] \<longrightarrow> \<not> fle (q_time (hd rest)) (op_time (last ops))"
    using midi_in.queue_keeps_order [OF assms(1), of ops S] assms(2,4,5) by auto
  have "rest = []" using r(3,4) assms(3) by (cases rest) auto
  then show ?thesis using r by simp
qed

subsection \<open>From the output to the input of another Pd\<close>

datatype out_call = CallNoteOn int int int | CallControlChange int int int | CallProgramChange int int
  | CallPitchBend int int | CallAfterTouch int int | CallPolyAfterTouch int int int | CallMclk

fun mess_of :: "int \<Rightarrow> out_call \<Rightarrow> midi_mess" where
  "mess_of p (CallNoteOn c n v) = outmidi_noteon p c n v"
| "mess_of p (CallControlChange c n v) = outmidi_controlchange p c n v"
| "mess_of p (CallProgramChange c v) = outmidi_programchange p c v"
| "mess_of p (CallPitchBend c v) = outmidi_pitchbend p c v"
| "mess_of p (CallAfterTouch c v) = outmidi_aftertouch p c v"
| "mess_of p (CallPolyAfterTouch c n v) = outmidi_polyaftertouch p c n v"
| "mess_of p CallMclk = outmidi_mclk p"

definition call_element :: "int \<Rightarrow> fl \<times> out_call \<Rightarrow> t_midiqelem" where
  "call_element p tc = (let m = mess_of p (snd tc) in midi_element (fst tc) (mm_portno m) (mm_onebyte m) (mm_a m) (mm_b m) (mm_c m))"

text \<open>What the objects at the other end should be told: channels modulo 16, values clipped to 7 bits, bends to 14.\<close>

fun heard :: "int \<Rightarrow> out_call \<Rightarrow> midi_event list" where
  "heard p (CallNoteOn c n v) = [NoteOn p (c mod 16) (clip_int 127 n) (clip_int 127 v)]"
| "heard p (CallControlChange c n v) = [ControlChange p (c mod 16) (clip_int 127 n) (clip_int 127 v)]"
| "heard p (CallProgramChange c v) = [ProgramChange p (c mod 16) (clip_int 127 v)]"
| "heard p (CallPitchBend c v) = [PitchBend p (c mod 16) (clip_int 16383 v)]"
| "heard p (CallAfterTouch c v) = [AfterTouch p (c mod 16) (clip_int 127 v)]"
| "heard p (CallPolyAfterTouch c n v) = [PolyAfterTouch p (c mod 16) (clip_int 127 n) (clip_int 127 v)]"
| "heard p CallMclk = []"

fun channel_event :: "midi_event \<Rightarrow> bool" where
  "channel_event (RealtimeIn p b) = False"
| "channel_event (ByteIn p b) = False"
| "channel_event _ = True"

fun parse_bytes :: "int \<Rightarrow> int list \<Rightarrow> t_midiparser \<Rightarrow> t_midiparser \<times> midi_event list" where
  "parse_bytes p [] P = (P, [])"
| "parse_bytes p (b # bs) P = (let (P', evs) = parse_byte p b P; (P'', evs') = parse_bytes p bs P' in (P'', evs @ evs'))"

lemma parse_append:
  "snd (parse_bytes p (xs @ ys) P) = snd (parse_bytes p xs P) @ snd (parse_bytes p ys (fst (parse_bytes p xs P)))"
  by (induction xs arbitrary: P) (simp_all add: case_prod_beta)

lemma parse_skips_realtime:
  "fst (parse_bytes p bs P) = fst (parse_bytes p (filter (\<lambda>b. b < 0xf8) bs) P) \<and>
   filter channel_event (snd (parse_bytes p bs P)) = filter channel_event (snd (parse_bytes p (filter (\<lambda>b. b < 0xf8) bs) P))"
proof (induction bs arbitrary: P)
  case (Cons b bs)
  show ?case
  proof (cases "b < 0xf8")
    case True
    then show ?thesis using Cons [of "fst (parse_byte p b P)"] by (auto simp: Let_def split: prod.splits)
  next
    case False
    then have "parse_byte p b P = (P, [RealtimeIn p b])" by (simp add: parse_byte_def)
    then show ?thesis using Cons [of P] False by (auto simp: Let_def split: prod.splits)
  qed
qed simp

lemma and_15: "c AND 15 = c mod (16 :: int)"
  using take_bit_eq_mask [of 4 c] by (simp add: take_bit_eq_mod mask_eq_exp_minus_1)

lemma and_127: "c AND 127 = c mod (128 :: int)"
  using take_bit_eq_mask [of 7 c] by (simp add: take_bit_eq_mod mask_eq_exp_minus_1)

lemma data_bit: "0 \<le> d \<Longrightarrow> d < 128 \<Longrightarrow> d AND 128 = (0 :: int)"
proof -
  assume "0 \<le> d" "d < 128"
  then have "take_bit 7 d = d" by (simp add: take_bit_int_eq_self)
  then have "d AND 128 = (d AND mask 7) AND push_bit 7 1" by (simp add: take_bit_eq_mask push_bit_eq_mult)
  also have "\<dots> = 0" by (simp add: and.assoc push_bit_eq_mult mask_eq_exp_minus_1)
  finally show ?thesis .
qed

definition channel_status :: "int \<Rightarrow> bool" where
  "channel_status cmd \<longleftrightarrow> cmd \<in> {144, 160, 176, 192, 208, 224}"

lemma status_nibbles:
  assumes "cmd \<in> {144, 160, 176, 192, 208, 224 :: int}" "k \<in> {0, 1, 2, 3, 4, 5, 6, 7, 8, 9, 10, 11, 12, 13, 14, 15 :: int}"
  shows "(cmd + k) AND 0x80 \<noteq> 0 \<and> (cmd + k) AND 0xf0 = cmd \<and> (cmd + k) AND 0xf = k"
  using assms by (elim insertE emptyE; hypsubst; simp)

lemma status_parts:
  assumes "channel_status cmd"
  shows "(cmd + c mod 16) AND 0x80 \<noteq> 0" "(cmd + c mod 16) AND 0xf0 = cmd" "(cmd + c mod 16) AND 0xf = c mod 16"
    "(cmd + c mod 16) mod 256 = cmd + c mod 16" "cmd + c mod 16 < 0xf0"
    "md_msglen (cmd + c mod 16) = (if cmd \<in> {192, 208} then 1 else 2)"
proof -
  have k: "0 \<le> c mod 16" "c mod 16 < 16" by simp_all
  then have "c mod 16 \<in> {0, 1, 2, 3, 4, 5, 6, 7, 8, 9, 10, 11, 12, 13, 14, 15}" by simp arith
  then show "(cmd + c mod 16) AND 0x80 \<noteq> 0" "(cmd + c mod 16) AND 0xf0 = cmd" "(cmd + c mod 16) AND 0xf = c mod 16"
    using status_nibbles [of cmd "c mod 16"] assms by (simp_all only: channel_status_def simp_thms)
  have cmd: "144 \<le> cmd" "cmd \<le> 224" "cmd = 144 \<or> cmd = 160 \<or> cmd = 176 \<or> cmd = 192 \<or> cmd = 208 \<or> cmd = 224"
    using assms by (auto simp: channel_status_def)
  then show "(cmd + c mod 16) mod 256 = cmd + c mod 16" "cmd + c mod 16 < 0xf0" using k by simp_all
  show "md_msglen (cmd + c mod 16) = (if cmd \<in> {192, 208} then 1 else 2)"
    using cmd(3) k by (elim disjE) (auto simp: md_msglen_def)
qed

lemma parse_status:
  assumes "channel_status cmd"
  shows "parse_byte p (cmd + c mod 16) P = (P\<lparr>mp_status := cmd + c mod 16, mp_gotbyte1 := False\<rparr>, [ByteIn p (cmd + c mod 16)])"
  using status_parts [OF assms, of c] by (auto simp: parse_byte_def status_byte_def)

lemma clip_bounds: "0 \<le> hi \<Longrightarrow> 0 \<le> clip_int hi v \<and> clip_int hi v \<le> hi"
  by (auto simp: clip_int_def)

lemma parse_data:
  assumes "0 \<le> d" "d < 128"
  shows "parse_byte p d P = (fst (data_byte p d P), ByteIn p d # snd (data_byte p d P))"
  using assms data_bit [OF assms] by (simp add: parse_byte_def split: prod.splits)

definition long_event :: "int \<Rightarrow> int \<Rightarrow> int \<Rightarrow> int \<Rightarrow> int \<Rightarrow> midi_event" where
  "long_event p cmd ch b d = (if cmd = 144 then NoteOn p ch b d else if cmd = 160 then PolyAfterTouch p ch b d
     else if cmd = 176 then ControlChange p ch b d else PitchBend p ch (push_bit 7 d + b))"

definition short_event :: "int \<Rightarrow> int \<Rightarrow> int \<Rightarrow> int \<Rightarrow> midi_event" where
  "short_event p cmd ch b = (if cmd = 192 then ProgramChange p ch b else AfterTouch p ch b)"

lemma data_byte_status:
  assumes "channel_status cmd" "mp_status P = cmd + c mod 16"
  shows "data_byte p b P = (if cmd \<in> {192, 208} then (P, [short_event p cmd (c mod 16) b])
     else two_bytes (long_event p cmd (c mod 16)) b P)"
proof -
  note parts = status_parts [OF assms(1), of c]
  have "cmd = 144 \<or> cmd = 160 \<or> cmd = 176 \<or> cmd = 192 \<or> cmd = 208 \<or> cmd = 224"
    using assms by (auto simp: channel_status_def)
  then show ?thesis
    using parts(2,3,5) assms(2)
    by (elim disjE) (simp_all add: data_byte_def short_event_def long_event_def two_bytes_def Let_def)
qed

lemma parse_long:
  assumes "channel_status cmd" "cmd \<notin> {192, 208}" "0 \<le> b" "b < 128" "0 \<le> d" "d < 128"
  shows "filter channel_event (snd (parse_bytes p [cmd + c mod 16, b, d] P)) = [long_event p cmd (c mod 16) b d]"
  using assms(2)
  by (simp add: parse_status [OF assms(1)] parse_data [OF assms(3,4)] parse_data [OF assms(5,6)]
    data_byte_status [OF assms(1), of _ c] two_bytes_def) (simp add: long_event_def)

lemma parse_short:
  assumes "channel_status cmd" "cmd \<in> {192, 208}" "0 \<le> b" "b < 128"
  shows "filter channel_event (snd (parse_bytes p [cmd + c mod 16, b] P)) = [short_event p cmd (c mod 16) b]"
  using assms(2)
  by (simp add: parse_status [OF assms(1)] parse_data [OF assms(3,4)] data_byte_status [OF assms(1), of _ c])
    (simp add: short_event_def)

text \<open>The bytes on the wire of a message of the functions for output.\<close>

lemma wire_bytes:
  assumes "channel_status cmd" "0 \<le> b" "b < 128" "0 \<le> d" "d < 128" "0 \<le> p" "p < n"
  shows "filter (\<lambda>b. b < 0xf8) (map snd (oss_bytes n (put_element (midi_element t p False (cmd + (c AND 15)) b d)))) =
    (if cmd \<in> {192, 208} then [cmd + c mod 16, b] else [cmd + c mod 16, b, d])"
  using assms(2-) status_parts(4-6) [OF assms(1), of c] by (simp add: put_element_def midi_element_def and_15)

lemma wire_parse:
  assumes "channel_status cmd" "0 \<le> b" "b < 128" "0 \<le> d" "d < 128" "0 \<le> p" "p < n"
  shows "filter channel_event (snd (parse_bytes p (filter (\<lambda>b. b < 0xf8)
      (map snd (oss_bytes n (put_element (midi_element t p False (cmd + (c AND 15)) b d))))) P)) =
    [if cmd \<in> {192, 208} then short_event p cmd (c mod 16) b else long_event p cmd (c mod 16) b d]"
proof (cases "cmd \<in> {192, 208}")
  case True
  then show ?thesis by (simp only: wire_bytes [OF assms] if_True parse_short [OF assms(1) True assms(2,3)])
next
  case False
  then show ?thesis by (simp only: wire_bytes [OF assms] if_False parse_long [OF assms(1) False assms(2-5)])
qed

lemma bend_roundtrip: "0 \<le> v \<Longrightarrow> v < 16384 \<Longrightarrow> push_bit 7 (drop_bit 7 v AND 127) + (v AND 127) = (v :: int)"
  by (simp add: and_127 push_bit_eq_mult drop_bit_eq_div)

lemma wire_mclk: "filter (\<lambda>b. b < 0xf8) (map snd (oss_bytes n (put_element (midi_element t p True 248 b d)))) = []"
  by (simp add: put_element_def midi_element_def)

lemmas outmidi_defs = outmidi_noteon_def outmidi_controlchange_def outmidi_programchange_def
  outmidi_pitchbend_def outmidi_aftertouch_def outmidi_polyaftertouch_def outmidi_mclk_def

lemma parse_call:
  assumes "0 \<le> p" "p < n"
  shows "filter channel_event (snd (parse_bytes p (filter (\<lambda>b. b < 0xf8)
     (map snd (oss_bytes n (put_element (call_element p (t, c)))))) P)) = heard p c"
proof -
  have clip: "0 \<le> clip_int 127 v" "clip_int 127 v < 128" "0 \<le> clip_int 16383 v" "clip_int 16383 v < 16384"
    "0 \<le> v AND 127" "v AND 127 < 128" for v
    using clip_bounds [of 127 v] clip_bounds [of 16383 v] by (auto simp: and_127)
  have statuses: "channel_status 144" "channel_status 160" "channel_status 176" "channel_status 192"
    "channel_status 208" "channel_status 224"
    by (simp_all add: channel_status_def)
  show ?thesis
    by (cases c) (simp_all add: call_element_def outmidi_defs Let_def wire_parse wire_mclk statuses clip assms bend_roundtrip [simplified]
        short_event_def long_event_def del: oss_bytes.simps)
qed

lemma parse_calls:
  assumes "0 \<le> p" "p < n"
  shows "filter channel_event (snd (parse_bytes p (filter (\<lambda>b. b < 0xf8)
     (map snd (concat (map (oss_bytes n \<circ> put_element \<circ> call_element p) tcs)))) P)) = concat (map (heard p \<circ> snd) tcs)"
proof (induction tcs arbitrary: P)
  case (Cons tc tcs)
  show ?case
    using Cons parse_call [OF assms, of "fst tc" "snd tc" P] by (simp add: parse_append)
qed simp

lemma fold_dispatched:
  assumes "\<forall>e \<in> set es. q_portno e = p" "nat p < length (parser S)"
  shows "events (fold dispatched es S) = events S @ snd (parse_bytes p (map q_byte1 es) (parser S ! nat p))"
  using assms
proof (induction es arbitrary: S)
  case (Cons e es)
  then show ?case by (simp add: dispatched_def Let_def split: prod.splits)
qed simp

definition demo_queue :: midiqueue where
  "demo_queue = \<lparr>mq_vec = replicate MIDIQSIZE (midi_element (Fin 0) 0 True 0 0 0), mq_head = 1023, mq_tail = 1023\<rparr>"

definition demo_midiin :: midiin where
  "demo_midiin = \<lparr>parser = replicate 16 \<lparr>mp_status = 0, mp_gotbyte1 = False, mp_byte1 = 0\<rparr>, in_eventno = 0, events = []\<rparr>"

lemma demo_midi_ok: "midiq_ok demo_queue []" "int (length (parser demo_midiin)) = MAXMIDIINDEV"
  by (simp_all add: midiq_ok_def demo_queue_def demo_midiin_def MIDIQSIZE_def MAXMIDIINDEV_def)

theorem midi_queues_keep_order_witness:
  "(\<exists>Q' rest gone. run_queue sys_putnext [Enqueue (midi_element (Fin 3) 0 True 0xf8 0 0) (Fin 1)] (demo_queue, []) =
        Some (Inr (Q', map put_element gone)) \<and> midiq_ok Q' rest \<and>
      [midi_element (Fin 3) 0 True 0xf8 0 0] = gone @ rest \<and> (rest \<noteq> [] \<longrightarrow> \<not> fle (q_time (hd rest)) (Fin 1))) \<and>
    (\<exists>R' rest gone. run_queue sys_dispatchnextmidiin [Enqueue (midi_element (Fin 3) 5 True 200 0 0) (Fin 1), Poll (Fin 4)]
        (demo_queue, demo_midiin) = Some (Inr (R', fold dispatched gone demo_midiin)) \<and> midiq_ok R' rest \<and>
      [midi_element (Fin 3) 5 True 200 0 0] = gone @ rest \<and> (rest \<noteq> [] \<longrightarrow> \<not> fle (q_time (hd rest)) (Fin 4)))"
  using midi_queues_keep_order [OF demo_midi_ok(1,1,2), of "[Enqueue (midi_element (Fin 3) 5 True 200 0 0) (Fin 1), Poll (Fin 4)]"
      "[Enqueue (midi_element (Fin 3) 0 True 0xf8 0 0) (Fin 1)]" "[]"]
  by (simp add: midi_element_def MAXMIDIINDEV_def)

text \<open>MIDI output and input agree. A series of calls of the functions for output on one port leaves the
  output queue, once polled late enough, as bytes from which a Pd that receives them on a port reads exactly
  the same channel messages, in order: channels modulo 16, notes, controllers and velocities clipped to 7
  bits and pitch bends to 14. Real time bytes, which the protocol allows anywhere between the bytes, change nothing.
\<close>

theorem midi_loopback:
  assumes "midiq_ok Qo []" "outs \<noteq> []" "concat (map added outs) = map (call_element p) tcs"
    "\<forall>e \<in> set (concat (map added outs)). fle (q_time e) (op_time (last outs))" "0 \<le> p" "p < nmidiout"
    "midiq_ok Qi []" "ins \<noteq> []" "\<forall>e \<in> set (concat (map added ins)). q_portno e = p \<and> fle (q_time e) (op_time (last ins))"
    "int (length (parser S)) = MAXMIDIINDEV" "p < MAXMIDIINDEV"
  shows "\<exists>Qo' puts. run_queue sys_putnext outs (Qo, []) = Some (Inr (Qo', puts)) \<and> midiq_ok Qo' [] \<and>
    (filter (\<lambda>b. b < 0xf8) (map q_byte1 (concat (map added ins))) =
       filter (\<lambda>b. b < 0xf8) (map snd (concat (map (oss_bytes nmidiout) puts))) \<longrightarrow>
     (\<exists>Qi' S'. run_queue sys_dispatchnextmidiin ins (Qi, S) = Some (Inr (Qi', S')) \<and> midiq_ok Qi' [] \<and>
        filter channel_event (events S') = filter channel_event (events S) @ concat (map (heard p \<circ> snd) tcs)))"
proof -
  let ?puts = "map put_element (map (call_element p) tcs)" and ?es = "concat (map added ins)"
  let ?P = "parser S ! nat p"
  obtain Qo' where o: "run_queue sys_putnext outs (Qo, []) = Some (Inr (Qo', ?puts))" "midiq_ok Qo' []"
    using midi_out_empties [OF assms(1,2,4)] assms(3) by auto
  obtain Qi' where i: "run_queue sys_dispatchnextmidiin ins (Qi, S) = Some (Inr (Qi', fold dispatched ?es S))" "midiq_ok Qi' []"
    using midi_in_empties [OF assms(7,8) _ assms(10)] assms(5,9,11) by auto
  have "filter channel_event (events (fold dispatched ?es S)) =
      filter channel_event (events S) @ concat (map (heard p \<circ> snd) tcs)"
    if *: "filter (\<lambda>b. b < 0xf8) (map q_byte1 ?es) = filter (\<lambda>b. b < 0xf8) (map snd (concat (map (oss_bytes nmidiout) ?puts)))"
  proof -
    have port: "\<forall>e \<in> set ?es. q_portno e = p" "nat p < length (parser S)" using assms by auto
    have "concat (map (oss_bytes nmidiout) ?puts) = concat (map (oss_bytes nmidiout \<circ> put_element \<circ> call_element p) tcs)"
      by (simp add: o_assoc)
    then show ?thesis
      using parse_skips_realtime [of p "map q_byte1 ?es" ?P] * parse_calls [OF assms(5,6), of tcs ?P]
      by (simp only: fold_dispatched [OF port] filter_append append_same_eq)
  qed
  with o i show ?thesis by blast
qed

theorem midi_loopback_witness:
  "\<exists>Qo' puts. run_queue sys_putnext [Enqueue (call_element 0 (Fin 3, CallNoteOn 18 60 200)) (Fin 3)] (demo_queue, []) =
      Some (Inr (Qo', puts)) \<and> midiq_ok Qo' [] \<and>
    (filter (\<lambda>b. b < 0xf8) [146, 60, 0xf8, 127] = filter (\<lambda>b. b < 0xf8) (map snd (concat (map (oss_bytes 1) puts))) \<longrightarrow>
     (\<exists>Qi' S'. run_queue sys_dispatchnextmidiin
          (map (\<lambda>b. Enqueue (midi_element (Fin 5) 0 True b 0 0) (Fin 5)) [146, 60, 0xf8, 127]) (demo_queue, demo_midiin) =
        Some (Inr (Qi', S')) \<and> midiq_ok Qi' [] \<and> filter channel_event (events S') = [NoteOn 0 2 60 127]))"
  using midi_loopback [OF demo_midi_ok(1), of "[Enqueue (call_element 0 (Fin 3, CallNoteOn 18 60 200)) (Fin 3)]" 0
      "[(Fin 3, CallNoteOn 18 60 200)]" 1 demo_queue
      "map (\<lambda>b. Enqueue (midi_element (Fin 5) 0 True b 0 0) (Fin 5)) [146, 60, 0xf8, 127]", OF _ _ _ _ _ demo_midi_ok(1) _ _ demo_midi_ok(2)]
  by (simp add: call_element_def midi_element_def outmidi_defs demo_midiin_def MAXMIDIINDEV_def clip_int_def and_15)

end
