(* ===== verification/DspChain.thy ===== *)
theory DspChain
  imports PdFloat
begin

unbundle bit_operations_syntax

text \<open>
  The chain of signal processing calls and \<open>block~\<close> (\<open>d_ugen.c\<close>). The chain is an array that holds
  the functions to call, each followed by its arguments; a function returns where to go on. Through
  the code it puts before and after the objects of its canvas, \<open>block~\<close> (or \<open>switch~\<close>) makes them run more or less
  often than the canvas around them.
\<close>

subsection \<open>Powers of two\<close>

function ilog2_loop :: "int \<Rightarrow> int \<Rightarrow> int" where
  "ilog2_loop n r = (if n \<le> 0 then r else ilog2_loop (n div 2) (r + 1))"
  by pat_completeness auto
termination
  by (relation "measure (\<lambda>(n, r). nat n)") auto

declare ilog2_loop.simps [simp del]

definition ilog2 :: "int \<Rightarrow> int" where
  "ilog2 n = (if n \<le> 0 then 0 else ilog2_loop n (-1))"

text \<open>\<open>1 << ilog2(n)\<close>\<close>

definition pow2_below :: "int \<Rightarrow> int" where
  "pow2_below n = wrap32 (2 ^ nat (ilog2 n))"

lemma ilog2_loop_bounds:
  "0 < n \<Longrightarrow> r < ilog2_loop n r \<and> 2 ^ nat (ilog2_loop n r - r - 1) \<le> n \<and> n < 2 ^ nat (ilog2_loop n r - r)"
proof (induction n r rule: ilog2_loop.induct)
  case (1 n r)
  show ?case
  proof (cases "n = 1")
    case True
    then show ?thesis by (simp add: ilog2_loop.simps [of 1] ilog2_loop.simps [of 0])
  next
    case False
    with 1 have IH: "r + 1 < ilog2_loop (n div 2) (r + 1)"
        "2 ^ nat (ilog2_loop (n div 2) (r + 1) - (r + 1) - 1) \<le> n div 2" "n div 2 < 2 ^ nat (ilog2_loop (n div 2) (r + 1) - (r + 1))"
      by auto
    let ?k = "nat (ilog2_loop (n div 2) (r + 1) - (r + 1) - 1)"
    have e: "ilog2_loop n r = ilog2_loop (n div 2) (r + 1)" using 1 by (simp add: ilog2_loop.simps [of n r])
    have k: "nat (ilog2_loop n r - r - 1) = Suc ?k" "nat (ilog2_loop n r - r) = Suc (Suc ?k)"
        "nat (ilog2_loop (n div 2) (r + 1) - (r + 1)) = Suc ?k"
      using IH(1) by (simp_all add: e)
    define p :: int where "p = 2 ^ ?k"
    have "p \<le> n div 2" "n div 2 < 2 * p" using IH(2,3) by (simp_all only: k power_Suc p_def)
    then have "2 * p \<le> n" "n < 2 * (2 * p)" by linarith+
    then show ?thesis using IH(1) by (simp only: k power_Suc p_def) (simp add: e)
  qed
qed

lemma ilog2_bounds:
  assumes "0 < n"
  shows "0 \<le> ilog2 n" "2 ^ nat (ilog2 n) \<le> n" "n < 2 * 2 ^ nat (ilog2 n)"
proof -
  have b: "-1 < ilog2 n" "2 ^ nat (ilog2 n + 1 - 1) \<le> n" "n < 2 ^ nat (ilog2 n + 1)"
    using ilog2_loop_bounds [OF assms, of "-1"] assms by (simp_all add: ilog2_def)
  then show "0 \<le> ilog2 n" "2 ^ nat (ilog2 n) \<le> n" by simp_all
  have "nat (ilog2 n + 1) = Suc (nat (ilog2 n))" using b(1) by (simp add: nat_add_distrib)
  then show "n < 2 * 2 ^ nat (ilog2 n)" using b(3) by simp
qed

lemma pow2_less_cancel: "(2 :: int) ^ a < 2 ^ b \<longleftrightarrow> a < b"
  by simp

lemma ilog2_power [simp]: "ilog2 (2 ^ k) = int k"
proof -
  have "(2 :: int) ^ nat (ilog2 (2 ^ k)) \<le> 2 ^ k" "(2 :: int) ^ k < 2 ^ Suc (nat (ilog2 (2 ^ k)))"
    using ilog2_bounds [of "2 ^ k"] by simp_all
  then have "nat (ilog2 (2 ^ k)) \<le> k" "k < Suc (nat (ilog2 (2 ^ k)))"
    by (simp_all only: pow2_less_cancel power_increasing_iff one_less_numeral_iff semiring_norm)
  then show ?thesis using ilog2_bounds(1) [of "2 ^ k"] by simp
qed

lemma pow2_below_eq: "0 < n \<Longrightarrow> n < 2 ^ 31 \<Longrightarrow> pow2_below n = 2 ^ nat (ilog2 n)"
  using ilog2_bounds [of n] by (simp add: pow2_below_def)

lemma pow2_below_iff: "0 < n \<Longrightarrow> n < 2 ^ 31 \<Longrightarrow> n = pow2_below n \<longleftrightarrow> (\<exists>k. n = 2 ^ k)"
  by (auto simp: pow2_below_eq)

subsection \<open>The object\<close>

record t_block =
  x_vecsize :: int
  x_calcsize :: int
  x_overlap :: int
  x_phase :: int
  x_period :: int
  x_frequency :: int
  x_count :: int
  x_chainonset :: int
  x_blocklength :: int
  x_epiloglength :: int
  x_switched :: bool
  x_switchon :: bool
  x_reblock :: bool
  x_upsample :: int
  x_downsample :: int
  x_return :: bool

text \<open>The up- and downsampling factors: \<open>1.0 / fupsample\<close> is computed in double precision.\<close>

definition resample_factors :: "fl \<Rightarrow> int \<times> int" where
  "resample_factors fupsample = (if fle fupsample (Fin 0) then (1, 1)
     else if fle (Fin 1) fupsample then (int_of_fl fupsample, 1)
     else (1, int_of_fl (fdiv binary64 (Fin 1) fupsample)))"

definition vecsize_for :: "int \<Rightarrow> int" where
  "vecsize_for calcsize = (if calcsize \<noteq> 0
     then (let v = (if pow2_below calcsize \<noteq> calcsize then wrap32 (pow2_below calcsize * 2) else pow2_below calcsize)
           in if v \<noteq> 0 \<and> v \<noteq> pow2_below v then 64 else v)
     else 0)"

definition pow2_or_1 :: "int \<Rightarrow> int" where
  "pow2_or_1 n = (if n \<noteq> pow2_below n then 1 else n)"

definition block_set :: "fl \<Rightarrow> fl \<Rightarrow> fl \<Rightarrow> t_block \<Rightarrow> t_block" where
  "block_set fcalcsize foverlap fupsample x =
     (let overlap = (if int_of_fl foverlap < 1 then 1 else int_of_fl foverlap);
          calcsize = (if int_of_fl fcalcsize < 0 then 0 else int_of_fl fcalcsize);
          (upsample, downsample) = resample_factors fupsample
      in x\<lparr>x_calcsize := calcsize, x_vecsize := vecsize_for calcsize, x_overlap := pow2_or_1 overlap,
           x_upsample := pow2_or_1 upsample, x_downsample := pow2_or_1 downsample\<rparr>)"

text \<open>\<open>pd_new\<close> clears the object.\<close>

definition block_cleared :: t_block where
  "block_cleared = \<lparr>x_vecsize = 0, x_calcsize = 0, x_overlap = 0, x_phase = 0, x_period = 0, x_frequency = 0,
     x_count = 0, x_chainonset = 0, x_blocklength = 0, x_epiloglength = 0, x_switched = False, x_switchon = False,
     x_reblock = False, x_upsample = 0, x_downsample = 0, x_return = False\<rparr>"

definition block_new :: "fl \<Rightarrow> fl \<Rightarrow> fl \<Rightarrow> t_block" where
  "block_new fvecsize foverlap fupsample = block_set fvecsize foverlap fupsample
     (block_cleared\<lparr>x_phase := 0, x_period := 1, x_frequency := 1, x_switched := False, x_switchon := True\<rparr>)"

definition switch_new :: "fl \<Rightarrow> fl \<Rightarrow> fl \<Rightarrow> t_block" where
  "switch_new fvecsize foverlap fupsample =
     (block_new fvecsize foverlap fupsample)\<lparr>x_switched := True, x_switchon := False\<rparr>"

definition block_float :: "fl \<Rightarrow> t_block \<Rightarrow> t_block" where
  "block_float f x = (if x_switched x then x\<lparr>x_switchon := \<not> feq f (Fin 0)\<rparr> else x)"

text \<open>What \<open>samplerate~\<close> computes from the \<open>block~\<close> objects of its canvas and the canvases around it.\<close>

fun samplerate_tilde_bang :: "fl \<Rightarrow> t_block option list \<Rightarrow> fl" where
  "samplerate_tilde_bang srate [] = srate"
| "samplerate_tilde_bang srate (None # bs) = samplerate_tilde_bang srate bs"
| "samplerate_tilde_bang srate (Some b # bs) = samplerate_tilde_bang
     (fmul binary32 srate (fdiv binary32 (fl_of_int binary32 (x_upsample b)) (fl_of_int binary32 (x_downsample b)))) bs"

subsection \<open>The chain\<close>

datatype 'u cell = Perf 'u | PerfProlog | PerfEpilog | PerfDone | Arg nat

text \<open>Before \<open>ugen_start\<close> there is no chain and \<open>dsp_chainsize\<close> is 0: the list is empty.\<close>

definition dsp_add :: "'u cell \<Rightarrow> nat list \<Rightarrow> 'u cell list \<Rightarrow> 'u cell list cresult" where
  "dsp_add f args chain = (if chain = [] then Inl OutOfBounds else
     Inr (chain[length chain - 1 := f] @ map Arg args @ [PerfDone]))"

definition ugen_start_chain :: "'u cell list" where
  "ugen_start_chain = [PerfDone]"

record ('u, 'w) dsp_state =
  dsp_chain :: "'u cell list"
  blocks :: "nat \<Rightarrow> t_block option"
  world :: 'w

definition set_block :: "nat \<Rightarrow> t_block \<Rightarrow> ('u, 'w) dsp_state \<Rightarrow> ('u, 'w) dsp_state" where
  "set_block b x S = S\<lparr>blocks := (blocks S)(b \<mapsto> x)\<rparr>"

definition PROLOGCALL :: int where "PROLOGCALL = 2"
definition EPILOGCALL :: int where "EPILOGCALL = 2"

definition block_prolog :: "int \<Rightarrow> t_block \<Rightarrow> t_block \<times> int" where
  "block_prolog w x = (if \<not> x_switchon x then (x, w + x_blocklength x)
     else if x_phase x \<noteq> 0 then
       (let phase = wrap32 (x_phase x + 1)
        in (x\<lparr>x_phase := (if phase = x_period x then 0 else phase)\<rparr>, w + x_blocklength x))
     else (x\<lparr>x_count := x_frequency x, x_phase := (if x_period x > 1 then 1 else 0)\<rparr>, w + PROLOGCALL))"

definition block_epilog :: "int \<Rightarrow> t_block \<Rightarrow> t_block \<times> int option" where
  "block_epilog w x = (let count = wrap32 (x_count x - 1) in
     if x_return x then (x, None)
     else if \<not> x_reblock x then (x, Some (w + x_epiloglength x + EPILOGCALL))
     else if count \<noteq> 0 then (x\<lparr>x_count := count\<rparr>, Some (w - (x_blocklength x - (PROLOGCALL + EPILOGCALL))))
     else (x, Some (w + EPILOGCALL)))"

text \<open>
  The block that the cell after the function names. The perform routines of other objects are an argument
  of the model: each has a number of arguments, which it skips, and an effect on the rest of the world.
\<close>

definition block_at :: "int \<Rightarrow> ('u, 'w) dsp_state \<Rightarrow> (nat \<times> t_block) cresult" where
  "block_at w S = (if 0 \<le> w + 1 \<and> nat (w + 1) < length (dsp_chain S) then
     (case dsp_chain S ! nat (w + 1) of
        Arg b \<Rightarrow> (case blocks S b of None \<Rightarrow> Inl NullDeref | Some x \<Rightarrow> Inr (b, x)) | _ \<Rightarrow> Inl TypeConfusion)
     else Inl OutOfBounds)"

definition perform :: "('u \<Rightarrow> nat) \<Rightarrow> ('u \<Rightarrow> 'w \<Rightarrow> 'w) \<Rightarrow> int \<Rightarrow> ('u, 'w) dsp_state \<Rightarrow> (int option \<times> ('u, 'w) dsp_state) cresult" where
  "perform nargs eff w S = (if 0 \<le> w \<and> nat w < length (dsp_chain S) then
     (case dsp_chain S ! nat w of
        PerfDone \<Rightarrow> Inr (None, S)
      | PerfProlog \<Rightarrow> cbind (block_at w S) (\<lambda>(b, x). let (x', w') = block_prolog w x in Inr (Some w', set_block b x' S))
      | PerfEpilog \<Rightarrow> cbind (block_at w S) (\<lambda>(b, x). let (x', w') = block_epilog w x in Inr (w', set_block b x' S))
      | Perf u \<Rightarrow> Inr (Some (w + 1 + int (nargs u)), S\<lparr>world := eff u (world S)\<rparr>)
      | Arg n \<Rightarrow> Inl TypeConfusion)
     else Inl OutOfBounds)"

partial_function (option) run_chain ::
    "('u \<Rightarrow> nat) \<Rightarrow> ('u \<Rightarrow> 'w \<Rightarrow> 'w) \<Rightarrow> int \<Rightarrow> ('u, 'w) dsp_state \<Rightarrow> ('u, 'w) dsp_state cresult option" where
  "run_chain nargs eff ip S = (case perform nargs eff ip S of
       Inl e \<Rightarrow> Some (Inl e)
     | Inr (None, S') \<Rightarrow> Some (Inr S')
     | Inr (Some ip', S') \<Rightarrow> run_chain nargs eff ip' S')"

definition dsp_tick ::
    "('u \<Rightarrow> nat) \<Rightarrow> ('u \<Rightarrow> 'w \<Rightarrow> 'w) \<Rightarrow> ('u, 'w) dsp_state \<times> int \<Rightarrow> (('u, 'w) dsp_state \<times> int) cresult option" where
  "dsp_tick nargs eff p = (case p of (S, dsp_phase) \<Rightarrow> if dsp_chain S = [] then Some (Inr p)
     else map_option (\<lambda>r. cbind r (\<lambda>S'. Inr (S', wrap32 (dsp_phase + 1)))) (run_chain nargs eff 0 S))"

definition block_bang ::
    "('u \<Rightarrow> nat) \<Rightarrow> ('u \<Rightarrow> 'w \<Rightarrow> 'w) \<Rightarrow> nat \<Rightarrow> ('u, 'w) dsp_state \<Rightarrow> ('u, 'w) dsp_state cresult option" where
  "block_bang nargs eff b S = (case blocks S b of
       None \<Rightarrow> Some (Inl NullDeref)
     | Some x \<Rightarrow>
         if x_switched x \<and> \<not> x_switchon x \<and> dsp_chain S \<noteq> [] then
           map_option (\<lambda>r. cbind r (\<lambda>S'. case blocks S' b of
               None \<Rightarrow> Inl NullDeref | Some x' \<Rightarrow> Inr (set_block b (x'\<lparr>x_return := False\<rparr>) S')))
             (run_chain nargs eff (x_chainonset x) (set_block b (x\<lparr>x_return := True\<rparr>) S))
         else Some (Inr S))"

subsection \<open>Sizes\<close>

definition pow2 :: "int \<Rightarrow> bool" where
  "pow2 n \<longleftrightarrow> (\<exists>k < 31. n = 2 ^ k)"

lemma pow2_below_pow2: "n < 2 ^ 31 \<Longrightarrow> pow2 (pow2_below n)"
proof (cases "0 < n")
  case True
  assume n: "n < 2 ^ 31"
  have "(2 :: int) ^ nat (ilog2 n) < 2 ^ 31" using ilog2_bounds(2) [OF True] n by linarith
  then have "nat (ilog2 n) < 31" by (simp only: pow2_less_cancel)
  then show ?thesis using pow2_below_eq [OF True n] by (auto simp: pow2_def)
next
  case False
  then show ?thesis by (auto simp: pow2_below_def ilog2_def pow2_def intro: exI [of _ 0])
qed

lemma pow2_or_1_pow2: "n < 2 ^ 31 \<Longrightarrow> pow2 (pow2_or_1 n)"
  using pow2_below_pow2 [of n] by (auto simp: pow2_or_1_def pow2_def intro: exI [of _ 0])

lemma pow2_exponent: "(2 :: int) ^ k < 2 ^ n \<Longrightarrow> 2 ^ n < 2 * (2 :: int) ^ Suc k \<Longrightarrow> n = Suc k"
proof -
  assume a: "(2 :: int) ^ k < 2 ^ n" "2 ^ n < 2 * (2 :: int) ^ Suc k"
  then have "k < n" "n < Suc (Suc k)" by (simp_all only: pow2_less_cancel flip: power_Suc)
  then show ?thesis by simp
qed

lemma vecsize_for_eq:
  assumes "0 < n" "n < 2 ^ 31"
  shows "vecsize_for n = (if 2 ^ 30 < n then 64 else if n = 2 ^ nat (ilog2 n) then n else 2 * 2 ^ nat (ilog2 n))"
proof -
  define k where "k = nat (ilog2 n)"
  have b: "2 ^ k \<le> n" "n < 2 * 2 ^ k" "pow2_below n = 2 ^ k"
    using ilog2_bounds [OF assms(1)] pow2_below_eq [OF assms] by (auto simp: k_def)
  consider "n = 2 ^ k" | "2 ^ k < n" "n \<le> 2 ^ 30" | "2 ^ 30 < n" "n \<noteq> 2 ^ k" using b by linarith
  then show ?thesis
  proof cases
    case 1
    have "k < 31" using 1 assms(2) pow2_less_cancel [of k 31] by simp
    then have "\<not> (2 :: int) ^ 30 < 2 ^ k" by (simp only: pow2_less_cancel)
    then show ?thesis using 1 b assms by (simp add: vecsize_for_def Let_def flip: k_def)
  next
    case 2
    then have "k < 30" using pow2_less_cancel [of k 30] by simp
    then have w: "(2 :: int) ^ Suc k < 2 ^ 31" by (simp only: pow2_less_cancel)
    then have "wrap32 (2 ^ Suc k) = 2 ^ Suc k" by (intro wrap32_id) (simp_all add: order_trans [of _ 0])
    moreover from this have "pow2_below (2 ^ Suc k) = 2 ^ Suc k"
      using ilog2_power [of "Suc k"] by (simp only: pow2_below_def nat_int)
    ultimately show ?thesis using 2 b assms by (simp add: vecsize_for_def Let_def mult.commute flip: k_def)
  next
    case 3
    then have "30 \<le> k" using b(2) pow2_less_cancel [of 30 "Suc k"] by simp
    moreover have "k < 31" using b(1) assms(2) pow2_less_cancel [of k 31] by linarith
    ultimately have "k = 30" by simp
    moreover have "wrap32 (2 ^ 30 * 2) = - (2 ^ 31)" by (simp add: wrap32_def)
    ultimately show ?thesis
      using 3 assms b(3) by (simp add: vecsize_for_def pow2_below_def [of "- _"] ilog2_def)
  qed
qed

lemma vecsize_for_pow2:
  assumes "0 < n" "n < 2 ^ 31"
  shows "pow2 (vecsize_for n)"
proof -
  let ?k = "nat (ilog2 n)"
  have "?k < 31" if "n = 2 ^ ?k" using that assms(2) pow2_less_cancel [of ?k 31] by simp
  moreover have "?k < 30" if "n \<noteq> 2 ^ ?k" "n \<le> 2 ^ 30"
    using that ilog2_bounds(2) [OF assms(1)] pow2_less_cancel [of ?k 30] by linarith
  moreover have "pow2 64" unfolding pow2_def by (rule exI [of _ 6]) simp
  ultimately show ?thesis
    unfolding vecsize_for_eq [OF assms] pow2_def
    by (metis Suc_less_eq eval_nat_numeral(3) linorder_not_less power_Suc)
qed

text \<open>Whatever numbers a \<open>block~\<close> is given (fractions, negative, huge, NaN), the sizes and factors it keeps
  are powers of two within the range of \<open>int\<close>; the vector holds the samples to compute and is less than twice as long, for
  up to \<open>2 ^ 30\<close> of them.
\<close>

theorem block_set_sizes:
  "let x' = block_set fcalcsize foverlap fupsample x in
    pow2 (x_overlap x') \<and> pow2 (x_upsample x') \<and> pow2 (x_downsample x') \<and>
    (if int_of_fl fcalcsize \<le> 0 then x_calcsize x' = 0 \<and> x_vecsize x' = 0
     else x_calcsize x' = int_of_fl fcalcsize \<and> pow2 (x_vecsize x') \<and>
       (if x_calcsize x' \<le> 2 ^ 30 then x_calcsize x' \<le> x_vecsize x' \<and> x_vecsize x' < 2 * x_calcsize x'
        else x_vecsize x' = 64))"
proof -
  let ?n = "int_of_fl fcalcsize"
  have n: "?n < 2 ^ 31" using int_of_fl_range by blast
  have "pow2 (pow2_or_1 (if int_of_fl foverlap < 1 then 1 else int_of_fl foverlap))"
    by (rule pow2_or_1_pow2) (use int_of_fl_range [of foverlap] in simp)
  moreover have "pow2 (pow2_or_1 (fst (resample_factors fupsample)))" "pow2 (pow2_or_1 (snd (resample_factors fupsample)))"
    using int_of_fl_range by (auto simp: resample_factors_def intro!: pow2_or_1_pow2)
  moreover have "pow2 (vecsize_for ?n)" "?n \<le> 2 ^ 30 \<Longrightarrow> ?n \<le> vecsize_for ?n \<and> vecsize_for ?n < 2 * ?n"
      "\<not> ?n \<le> 2 ^ 30 \<Longrightarrow> vecsize_for ?n = 64" if "0 < ?n"
    using that vecsize_for_pow2 [OF that n] vecsize_for_eq [OF that n] ilog2_bounds(2,3) [OF that] by auto
  moreover have "vecsize_for 0 = 0" by (simp add: vecsize_for_def)
  ultimately show ?thesis
    by (cases "0 < ?n") (simp_all add: block_set_def Let_def case_prod_beta)
qed

subsection \<open>Running the chain\<close>

text \<open>The cells of a series of calls, and what they do.\<close>

fun code :: "('u \<times> nat list) list \<Rightarrow> 'u cell list" where
  "code [] = []"
| "code ((u, args) # ops) = Perf u # map Arg args @ code ops"

definition ops_ok :: "('u \<Rightarrow> nat) \<Rightarrow> ('u \<times> nat list) list \<Rightarrow> bool" where
  "ops_ok nargs ops \<longleftrightarrow> (\<forall>(u, args) \<in> set ops. length args = nargs u)"

definition run_ops :: "('u \<Rightarrow> 'w \<Rightarrow> 'w) \<Rightarrow> ('u \<times> nat list) list \<Rightarrow> 'w \<Rightarrow> 'w" where
  "run_ops eff ops = fold (\<lambda>(u, args). eff u) ops"

lemma run_code:
  assumes "dsp_chain S = pre @ code ops @ post" "ops_ok nargs ops"
  shows "run_chain nargs eff (int (length pre)) S =
    run_chain nargs eff (int (length pre + length (code ops))) (S\<lparr>world := run_ops eff ops (world S)\<rparr>)"
  using assms
proof (induction ops arbitrary: pre S)
  case Nil
  then show ?case by (simp add: run_ops_def)
next
  case (Cons op ops)
  obtain u args where op: "op = (u, args)" by (cases op)
  let ?S = "S\<lparr>world := eff u (world S)\<rparr>" and ?pre = "pre @ Perf u # map Arg args"
  have n: "length args = nargs u" "ops_ok nargs ops" using Cons.prems(2) op by (auto simp: ops_ok_def)
  have "run_chain nargs eff (int (length pre)) S = run_chain nargs eff (int (length ?pre)) ?S"
    using Cons.prems(1) op n(1) by (subst run_chain.simps) (simp add: perform_def nth_append ac_simps)
  also have "\<dots> = run_chain nargs eff (int (length ?pre + length (code ops))) (?S\<lparr>world := run_ops eff ops (world ?S)\<rparr>)"
    using Cons.IH [of ?S ?pre] Cons.prems(1) op n(2) by simp
  finally show ?case by (simp add: op run_ops_def ac_simps)
qed

lemma run_done: "dsp_chain S = pre @ PerfDone # post \<Longrightarrow> run_chain nargs eff (int (length pre)) S = Some (Inr S)"
  by (subst run_chain.simps) (simp add: perform_def)

lemma run_prolog:
  assumes "dsp_chain S = pre @ PerfProlog # Arg b # post" "blocks S b = Some x"
  shows "run_chain nargs eff (int (length pre)) S =
    run_chain nargs eff (snd (block_prolog (int (length pre)) x)) (set_block b (fst (block_prolog (int (length pre)) x)) S)"
  using assms by (subst run_chain.simps) (simp add: perform_def block_at_def nth_append nat_add_distrib case_prod_beta)

lemma run_epilog:
  assumes "dsp_chain S = pre @ PerfEpilog # Arg b # post" "blocks S b = Some x"
  shows "run_chain nargs eff (int (length pre)) S = (case snd (block_epilog (int (length pre)) x) of
      None \<Rightarrow> Some (Inr (set_block b (fst (block_epilog (int (length pre)) x)) S))
    | Some w \<Rightarrow> run_chain nargs eff w (set_block b (fst (block_epilog (int (length pre)) x)) S))"
  using assms by (subst run_chain.simps) (auto simp: perform_def block_at_def nth_append nat_add_distrib case_prod_beta split: option.splits)

lemma set_block_simps [simp]:
  "dsp_chain (set_block b x S) = dsp_chain S" "world (set_block b x S) = world S"
  "blocks (set_block b x S) = (blocks S)(b \<mapsto> x)" "set_block b y (set_block b x S) = set_block b y S"
  "(set_block b x S)\<lparr>world := v\<rparr> = set_block b x (S\<lparr>world := v\<rparr>)"
  by (simp_all add: set_block_def)

lemma set_block_same: "blocks S b = Some x \<Longrightarrow> set_block b x S = S"
  by (simp add: set_block_def fun_upd_idem)

text \<open>The chain of one canvas with a \<open>block~\<close>: its objects, then the code for its outlets.\<close>

definition block_chain :: "nat \<Rightarrow> ('u \<times> nat list) list \<Rightarrow> ('u \<times> nat list) list \<Rightarrow> 'u cell list" where
  "block_chain b ops outs = [PerfProlog, Arg b] @ code ops @ [PerfEpilog, Arg b] @ code outs @ [PerfDone]"

definition block_ready :: "nat \<Rightarrow> ('u \<times> nat list) list \<Rightarrow> ('u \<times> nat list) list \<Rightarrow> t_block \<Rightarrow> bool" where
  "block_ready b ops outs x \<longleftrightarrow> x_blocklength x = int (length (code ops)) + 4 \<and> x_epiloglength x = int (length (code outs))"

lemma chain_nonempty: "block_chain b ops outs \<noteq> []"
  by (simp add: block_chain_def)

lemma run_body:
  assumes "dsp_chain S = block_chain b ops outs" "ops_ok nargs ops"
  shows "run_chain nargs eff 2 S = run_chain nargs eff (int (length (code ops)) + 2) (S\<lparr>world := run_ops eff ops (world S)\<rparr>)"
  using run_code [of S "[PerfProlog, Arg b]" ops _ nargs eff] assms by (simp add: block_chain_def add.commute)

lemma run_outs:
  assumes "dsp_chain S = block_chain b ops outs" "ops_ok nargs outs"
  shows "run_chain nargs eff (int (length (code ops)) + 4) S = Some (Inr (S\<lparr>world := run_ops eff outs (world S)\<rparr>))"
proof -
  let ?pre = "[PerfProlog, Arg b] @ code ops @ [PerfEpilog, Arg b]"
  have "run_chain nargs eff (int (length ?pre)) S =
      run_chain nargs eff (int (length (?pre @ code outs))) (S\<lparr>world := run_ops eff outs (world S)\<rparr>)"
    using run_code [of S ?pre outs "[PerfDone]" nargs eff] assms by (simp add: block_chain_def)
  also have "\<dots> = Some (Inr (S\<lparr>world := run_ops eff outs (world S)\<rparr>))"
    using assms(1) by (intro run_done [of _ _ "[]"]) (simp add: block_chain_def)
  finally show ?thesis by (simp add: ac_simps)
qed

lemma run_end:
  assumes "dsp_chain S = block_chain b ops outs" "blocks S b = Some x"
  shows "run_chain nargs eff (int (length (code ops)) + 2) S =
    (case snd (block_epilog (int (length (code ops)) + 2) x) of
      None \<Rightarrow> Some (Inr (set_block b (fst (block_epilog (int (length (code ops)) + 2) x)) S))
    | Some w \<Rightarrow> run_chain nargs eff w (set_block b (fst (block_epilog (int (length (code ops)) + 2) x)) S))"
proof -
  have pos: "int (length ([PerfProlog, Arg b] @ code ops)) = int (length (code ops)) + 2" by simp
  show ?thesis
    by (rule run_epilog [of S "[PerfProlog, Arg b] @ code ops" b "code outs @ [PerfDone]" x nargs eff, unfolded pos])
      (use assms in \<open>simp_all add: block_chain_def\<close>)
qed

lemma run_repeated:
  assumes "dsp_chain S = block_chain b ops outs" "ops_ok nargs ops" "blocks S b = Some x" "block_ready b ops outs x"
    "x_reblock x" "\<not> x_return x" "x_count x = int (Suc n)" "int (Suc n) < 2 ^ 31"
  shows "run_chain nargs eff 2 S = run_chain nargs eff (int (length (code ops)) + 4)
    (set_block b (x\<lparr>x_count := 1\<rparr>) (S\<lparr>world := (run_ops eff ops ^^ Suc n) (world S)\<rparr>))"
  using assms
proof (induction n arbitrary: S x)
  case 0
  have "x\<lparr>x_count := 1\<rparr> = x" using 0 by simp
  then show ?case
    using 0 run_body [OF 0(1,2)] run_end [of "S\<lparr>world := run_ops eff ops (world S)\<rparr>" b ops outs x]
    by (simp add: block_epilog_def EPILOGCALL_def set_block_same add.commute)
next
  case (Suc n)
  let ?S = "set_block b (x\<lparr>x_count := int (Suc n)\<rparr>) (S\<lparr>world := run_ops eff ops (world S)\<rparr>)"
  have "run_chain nargs eff 2 S = run_chain nargs eff 2 ?S"
    using Suc.prems run_body [OF Suc.prems(1,2)] run_end [of "S\<lparr>world := run_ops eff ops (world S)\<rparr>" b ops outs x]
    by (simp add: block_epilog_def PROLOGCALL_def EPILOGCALL_def block_ready_def)
  also have "\<dots> = run_chain nargs eff (int (length (code ops)) + 4)
      (set_block b (x\<lparr>x_count := int (Suc n), x_count := 1\<rparr>) (?S\<lparr>world := (run_ops eff ops ^^ Suc n) (world ?S)\<rparr>))"
    using Suc.prems by (intro Suc.IH) (simp_all add: block_ready_def)
  finally show ?case by (simp add: funpow_swap1)
qed

lemma tick_prolog:
  assumes "dsp_chain S = block_chain b ops outs" "blocks S b = Some x"
  shows "run_chain nargs eff 0 S = run_chain nargs eff (snd (block_prolog 0 x)) (set_block b (fst (block_prolog 0 x)) S)"
  using run_prolog [of S "[]" b] assms by (simp add: block_chain_def)

lemma block_update_comm: "x\<lparr>x_phase := j, x_count := c\<rparr> = x\<lparr>x_count := c, x_phase := j\<rparr>"
  by (cases x) simp

lemma reblocked_tick:
  assumes "dsp_chain S = block_chain b ops outs" "ops_ok nargs ops" "ops_ok nargs outs" "blocks S b = Some x"
    "block_ready b ops outs x" "x_reblock x" "x_switchon x" "\<not> x_return x"
    "x_period x = int p" "0 < p" "int p < 2 ^ 31" "x_frequency x = int f" "0 < f" "int f < 2 ^ 31"
    "x_phase x = int j" "j < p"
  shows "\<exists>c. dsp_tick nargs eff (S, ph) = Some (Inr (set_block b (x\<lparr>x_count := c, x_phase := int (Suc j mod p)\<rparr>)
    (S\<lparr>world := run_ops eff outs ((if j = 0 then run_ops eff ops ^^ f else id) (world S))\<rparr>), wrap32 (ph + 1)))"
proof (cases "j = 0")
  case True
  obtain n where f: "f = Suc n" using assms(13) by (cases f) auto
  let ?x = "x\<lparr>x_count := int f, x_phase := int (Suc j mod p)\<rparr>"
  have "block_prolog 0 x = (?x, 2)" using True assms by (auto simp: block_prolog_def PROLOGCALL_def mod_Suc)
  then have "run_chain nargs eff 0 S = run_chain nargs eff 2 (set_block b ?x S)"
    using tick_prolog [OF assms(1,4)] by simp
  also have "\<dots> = run_chain nargs eff (int (length (code ops)) + 4)
      (set_block b (?x\<lparr>x_count := 1\<rparr>) ((set_block b ?x S)\<lparr>world := (run_ops eff ops ^^ Suc n) (world (set_block b ?x S))\<rparr>))"
    using assms f by (intro run_repeated) (simp_all add: block_ready_def)
  finally show ?thesis
    using True assms f by (intro exI [of _ 1]) (simp add: dsp_tick_def chain_nonempty run_outs block_update_comm)
next
  case False
  have "wrap32 (int j + 1) = int j + 1" using assms(11,16) by (intro wrap32_id) auto
  then have "block_prolog 0 x = (x\<lparr>x_phase := int (Suc j mod p)\<rparr>, int (length (code ops)) + 4)"
    using False assms by (auto simp: block_prolog_def block_ready_def mod_Suc)
  then show ?thesis
    using False assms tick_prolog [OF assms(1,4), of nargs eff]
    by (intro exI [of _ "x_count x"]) (simp add: dsp_tick_def chain_nonempty run_outs)
qed

fun dsp_ticks where
  "dsp_ticks nargs eff 0 p = Some (Inr p)"
| "dsp_ticks nargs eff (Suc n) p = (case dsp_ticks nargs eff n p of Some (Inr p') \<Rightarrow> dsp_tick nargs eff p' | r \<Rightarrow> r)"

lemma periods_begun:
  fixes n p :: nat
  assumes "0 < p"
  shows "(Suc n + p - 1) div p = (n + p - 1) div p + (if n mod p = 0 then 1 else 0)"
proof (cases "n mod p = 0")
  case True
  then have "n + p - 1 = (p - 1) + p * (n div p)" using assms by auto
  moreover have "((p - 1) + p * (n div p)) div p = n div p" using assms by (subst div_mult_self2) simp_all
  ultimately have "(n + p - 1) div p = n div p" by (simp only:)
  then show ?thesis using True assms by simp
next
  case False
  then have "n + p - 1 = (n mod p - 1) + p * (n div p + 1)" using mult_div_mod_eq [of p n] by simp
  moreover have "((n mod p - 1) + p * (n div p + 1)) div p = n div p + 1"
    using assms by (subst div_mult_self2) (simp_all add: less_imp_diff_less)
  ultimately have "(n + p - 1) div p = n div p + 1" by (simp only:)
  then show ?thesis using False assms by simp
qed

text \<open>\<^bold>\<open>C11\<close>: In a chain that consists of the prologue of one \<open>block~\<close>, the objects of its canvas and the epilogue, with the lengths that
  \<open>ugen_done_graph\<close> stores for it and no code for its outlets behind it, the objects are computed \<open>frequency\<close> times every \<open>period\<close> ticks and
  not in between, where each is called with as many arguments as it takes and the \<open>block~\<close> reblocks, is switched on, is not told to return at once and starts in phase 0: after \<open>n\<close> ticks they have been computed \<open>frequency\<close> times
  for each period begun, the chain is as it was and the phase is \<open>n\<close> modulo the period. Period and frequency are positive \<open>int\<close>s.\<close>

theorem block_rate:
  assumes "dsp_chain S = block_chain b ops []" "ops_ok nargs ops" "blocks S b = Some x" "block_ready b ops [] x"
    "x_reblock x" "x_switchon x" "\<not> x_return x" "x_phase x = 0"
    "x_period x = int p" "0 < p" "int p < 2 ^ 31" "x_frequency x = int f" "0 < f" "int f < 2 ^ 31"
  shows "\<exists>S' c. dsp_ticks nargs eff n (S, 0) = Some (Inr (S', wrap32 (int n))) \<and>
    world S' = (run_ops eff ops ^^ (f * ((n + p - 1) div p))) (world S) \<and> dsp_chain S' = dsp_chain S \<and>
    blocks S' = (blocks S)(b \<mapsto> x\<lparr>x_count := c, x_phase := int (n mod p)\<rparr>)"
proof (induction n)
  case 0
  have "x\<lparr>x_count := x_count x, x_phase := int (0 mod p)\<rparr> = x" using assms(8) by simp
  then show ?case using assms(3,10) by (intro exI [of _ S] exI [of _ "x_count x"]) (simp add: fun_upd_idem)
next
  case (Suc n)
  then obtain S1 c1 where IH: "dsp_ticks nargs eff n (S, 0) = Some (Inr (S1, wrap32 (int n)))"
      "world S1 = (run_ops eff ops ^^ (f * ((n + p - 1) div p))) (world S)" "dsp_chain S1 = dsp_chain S"
      "blocks S1 = (blocks S)(b \<mapsto> x\<lparr>x_count := c1, x_phase := int (n mod p)\<rparr>)" by blast
  let ?x1 = "x\<lparr>x_count := c1, x_phase := int (n mod p)\<rparr>"
  obtain c where t: "dsp_tick nargs eff (S1, wrap32 (int n)) =
      Some (Inr (set_block b (?x1\<lparr>x_count := c, x_phase := int (Suc (n mod p) mod p)\<rparr>)
      (S1\<lparr>world := run_ops eff [] ((if n mod p = 0 then run_ops eff ops ^^ f else id) (world S1))\<rparr>), wrap32 (wrap32 (int n) + 1)))"
    using reblocked_tick [of S1 b ops "[]" nargs ?x1 p f "n mod p" eff "wrap32 (int n)"] assms IH(3,4)
    by (auto simp: block_ready_def ops_ok_def)
  have "(Suc n + p - 1) div p = (n + p - 1) div p + (if n mod p = 0 then 1 else 0)"
    by (rule periods_begun [OF assms(10)])
  then have "world (S1\<lparr>world := run_ops eff [] ((if n mod p = 0 then run_ops eff ops ^^ f else id) (world S1))\<rparr>) =
      (run_ops eff ops ^^ (f * ((Suc n + p - 1) div p))) (world S)"
    using IH(2) funpow_add [of f "f * ((n + p - 1) div p)" "run_ops eff ops"]
    by (simp add: run_ops_def [of eff "[]"] distrib_left add.commute)
  moreover have "Suc (n mod p) mod p = Suc n mod p" by (simp add: mod_simps)
  moreover have "wrap32 (wrap32 (int n) + 1) = wrap32 (int (Suc n))" by (simp add: wrap32_def mod_simps ac_simps)
  ultimately show ?case
    using IH t by (intro exI [of _ "set_block b (?x1\<lparr>x_count := c, x_phase := int (Suc n mod p)\<rparr>)
        (S1\<lparr>world := (run_ops eff ops ^^ (f * ((Suc n + p - 1) div p))) (world S)\<rparr>)"] exI [of _ c]) (simp add: block_update_comm)
qed

text \<open>A \<open>switch~\<close> that does not reblock: on, a tick computes its objects once and not the code of its
  outlets; off, it computes only the code of the outlets, which sets them to zero. A bang to a switch that
  is off computes its objects once, then stops, and leaves the switch off.
\<close>

theorem switch_selects:
  assumes "dsp_chain S = block_chain b ops outs" "ops_ok nargs ops" "ops_ok nargs outs" "blocks S b = Some x"
    "block_ready b ops outs x" "\<not> x_reblock x" "\<not> x_return x" "x_switched x" "x_phase x = 0" "x_chainonset x = 2"
  shows "(\<exists>S'. dsp_tick nargs eff (S, ph) = Some (Inr (S', wrap32 (ph + 1))) \<and>
      world S' = run_ops eff (if x_switchon x then ops else outs) (world S)) \<and>
    (\<exists>S'. block_bang nargs eff b S = Some (Inr S') \<and> map_option x_switchon (blocks S' b) = Some (x_switchon x) \<and>
      world S' = (if x_switchon x then world S else run_ops eff ops (world S)))"
proof (cases "x_switchon x")
  case True
  define y where "y = fst (block_prolog 0 x)"
  have y: "block_prolog 0 x = (y, 2)" "\<not> x_return y" "\<not> x_reblock y" "x_epiloglength y = int (length (code outs))"
    using True assms by (auto simp: y_def block_prolog_def PROLOGCALL_def block_ready_def)
  let ?S = "set_block b y (S\<lparr>world := run_ops eff ops (world S)\<rparr>)"
  let ?pre = "[PerfProlog, Arg b] @ code ops @ [PerfEpilog, Arg b] @ code outs"
  have "run_chain nargs eff 0 S = run_chain nargs eff (int (length (code ops)) + 2) ?S"
    using tick_prolog [OF assms(1,4), of nargs eff] run_body [of "set_block b y S" b ops outs nargs eff] y(1) assms by simp
  also have "\<dots> = run_chain nargs eff (int (length ?pre)) ?S"
    using run_end [of ?S b ops outs y nargs eff] y assms by (simp add: block_epilog_def EPILOGCALL_def ac_simps)
  also have "\<dots> = Some (Inr ?S)"
    using assms(1) by (intro run_done [of _ _ "[]"]) (simp add: block_chain_def)
  finally show ?thesis using True assms by (simp add: dsp_tick_def chain_nonempty block_bang_def)
next
  case False
  have p: "block_prolog 0 x = (x, int (length (code ops)) + 4)" using False assms by (simp add: block_prolog_def block_ready_def)
  let ?x = "x\<lparr>x_return := True\<rparr>"
  have "run_chain nargs eff 2 (set_block b ?x S) = Some (Inr (set_block b ?x (S\<lparr>world := run_ops eff ops (world S)\<rparr>)))"
    using run_body [of "set_block b ?x S" b ops outs nargs eff]
      run_end [of "set_block b ?x (S\<lparr>world := run_ops eff ops (world S)\<rparr>)" b ops outs ?x nargs eff] assms
    by (simp add: block_epilog_def)
  then show ?thesis
    using False assms p tick_prolog [OF assms(1,4), of nargs eff] run_outs [of S b ops outs nargs eff]
    by (simp add: dsp_tick_def chain_nonempty block_bang_def set_block_same)
qed

subsection \<open>The rate of a canvas\<close>

text \<open>
  From \<open>ugen_done_graph\<close>: the size, rate and period of a canvas, from its \<open>block~\<close> (if any) and the size and rate of the
  canvas around it, or of the audio hardware where there is none.
\<close>

record rates =
  dc_srate :: fl
  dc_vecsize :: int
  dc_calcsize :: int
  dc_reblock :: bool
  dc_switched :: bool
  dc_period :: int
  dc_frequency :: int
  dc_downsample :: int
  dc_upsample :: int

definition cdiv_trap :: "int \<Rightarrow> int \<Rightarrow> int cresult" where
  "cdiv_trap a b = (if b = 0 \<or> (a = - (2 ^ 31) \<and> b = -1) then Inl DivideTrap else Inr (cdiv a b))"

definition block_rates :: "fl \<Rightarrow> int \<Rightarrow> bool \<Rightarrow> int \<Rightarrow> t_block \<Rightarrow> (rates \<times> t_block) cresult" where
  "block_rates parent_srate parent_vecsize has_parent dsp_phase blk =
     (let vecsize = (if x_vecsize blk = 0 then parent_vecsize else x_vecsize blk);
          calcsize = (if x_calcsize blk = 0 then vecsize else x_calcsize blk);
          realoverlap = (if x_overlap blk > vecsize then vecsize else x_overlap blk);
          upsample = x_upsample blk;
          downsample = (if x_downsample blk > parent_vecsize then parent_vecsize else x_downsample blk);
          inner = wrap32 (vecsize * downsample);
          outer = wrap32 (wrap32 (parent_vecsize * realoverlap) * upsample)
      in cbind (cdiv_trap inner outer) (\<lambda>period0. cbind (cdiv_trap outer inner) (\<lambda>frequency0.
           let period = (if period0 < 1 then 1 else period0); frequency = (if frequency0 < 1 then 1 else frequency0) in
           Inr (\<lparr>dc_srate = fdiv binary32 (fmul binary32 (fmul binary32 parent_srate (fl_of_int binary32 realoverlap))
                    (fl_of_int binary32 upsample)) (fl_of_int binary32 downsample),
                 dc_vecsize = vecsize, dc_calcsize = calcsize,
                 dc_reblock = (\<not> has_parent \<or> realoverlap \<noteq> 1 \<or> vecsize \<noteq> parent_vecsize \<or> downsample \<noteq> 1 \<or> upsample \<noteq> 1),
                 dc_switched = x_switched blk, dc_period = period, dc_frequency = frequency,
                 dc_downsample = downsample, dc_upsample = upsample\<rparr>,
                blk\<lparr>x_frequency := frequency, x_period := period, x_phase := dsp_phase AND (period - 1)\<rparr>))))"

definition canvas_rates :: "fl \<Rightarrow> int \<Rightarrow> (int option) \<Rightarrow> int \<Rightarrow> t_block option \<Rightarrow> (rates \<times> t_block option) cresult" where
  "canvas_rates parent_srate parent_vecsize parent_calcsize dsp_phase blk = (case blk of
       Some x \<Rightarrow> cbind (block_rates parent_srate parent_vecsize (parent_calcsize \<noteq> None) dsp_phase x) (\<lambda>(r, x'). Inr (r, Some x'))
     | None \<Rightarrow> Inr (\<lparr>dc_srate = parent_srate, dc_vecsize = parent_vecsize,
         dc_calcsize = (case parent_calcsize of None \<Rightarrow> parent_vecsize | Some c \<Rightarrow> c),
         dc_reblock = (parent_calcsize = None), dc_switched = False, dc_period = 1, dc_frequency = 1,
         dc_downsample = 1, dc_upsample = 1\<rparr>, None))"

lemma wrap32_pow2: "k < 31 \<Longrightarrow> wrap32 (2 ^ k) = 2 ^ k"
proof (rule wrap32_id)
  show "- (2 ^ 31) \<le> (2 :: int) ^ k" by (rule order_trans [of _ 0]) simp_all
qed (simp only: pow2_less_cancel)

lemma wrap32_shift: "wrap32 (i + q * 2 ^ 32) = wrap32 i"
proof -
  have "(i + q * 2 ^ 32 + 2 ^ 31) mod 2 ^ 32 = (i + 2 ^ 31 + q * 2 ^ 32) mod 2 ^ 32" by (simp only: ac_simps)
  then show ?thesis by (simp only: wrap32_def mod_mult_self1)
qed

lemma wrap32_pow2_big: "32 \<le> k \<Longrightarrow> wrap32 (2 ^ k) = 0"
proof -
  assume "32 \<le> k"
  then have "(2 :: int) ^ k = 0 + 2 ^ (k - 32) * 2 ^ 32" by (simp only: add_0 flip: power_add) simp
  then show ?thesis by (simp only: wrap32_shift) simp
qed

lemma wrap32_mult: "wrap32 (wrap32 a * b) = wrap32 (a * b)"
proof -
  have "wrap32 a = a - (a + 2 ^ 31) div 2 ^ 32 * 2 ^ 32" by (simp add: wrap32_def minus_div_mult_eq_mod [symmetric])
  then have "wrap32 a * b = a * b + (- ((a + 2 ^ 31) div 2 ^ 32) * b) * 2 ^ 32" by (simp only: left_diff_distrib) (simp add: ac_simps)
  then show ?thesis by (simp only: wrap32_shift)
qed

lemma cdiv_pow2: "cdiv (2 ^ i) (2 ^ j) = (if j \<le> i then 2 ^ (i - j) else 0)"
  by (auto simp: cdiv_def power_diff sgn_if)

text \<open>As long as the products fit into an \<open>int\<close>, the sizes of a canvas and of the canvas around it, the overlap and
  the resampling factors agree with how often the canvas runs: in \<open>period\<close> calls from outside, as many
  samples go in as its \<open>frequency\<close> runs consume. One of the two is 1, and the phase lies within the period.
\<close>

theorem block_rates_consistent:
  assumes "pow2 parent_vecsize" "x_vecsize blk = 0 \<or> pow2 (x_vecsize blk)" "pow2 (x_overlap blk)"
    "pow2 (x_upsample blk)" "pow2 (x_downsample blk)"
    "vecsize = (if x_vecsize blk = 0 then parent_vecsize else x_vecsize blk)"
    "downsample = min (x_downsample blk) parent_vecsize" "overlap = min (x_overlap blk) vecsize"
    "vecsize * downsample < 2 ^ 31" "parent_vecsize * overlap * x_upsample blk < 2 ^ 31"
  shows "\<exists>r x'. block_rates parent_srate parent_vecsize has_parent dsp_phase blk = Inr (r, x') \<and>
    dc_vecsize r * dc_downsample r * dc_frequency r = parent_vecsize * overlap * dc_upsample r * dc_period r \<and>
    (dc_period r = 1 \<or> dc_frequency r = 1) \<and> pow2 (dc_period r) \<and> pow2 (dc_frequency r) \<and>
    x_period x' = dc_period r \<and> x_frequency x' = dc_frequency r \<and> 0 \<le> x_phase x' \<and> x_phase x' < dc_period r"
proof -
  obtain a v l u d where e: "parent_vecsize = 2 ^ a" "vecsize = 2 ^ v" "overlap = 2 ^ l" "x_upsample blk = 2 ^ u" "downsample = 2 ^ d"
    using assms(1-8) unfolding pow2_def min_def by (metis (full_types))
  have fit: "v + d < 31" "a + l + u < 31"
    using assms(9,10) e pow2_less_cancel [of "v + d" 31] pow2_less_cancel [of "a + l + u" 31] by (simp_all add: power_add)
  have inner: "wrap32 (vecsize * downsample) = 2 ^ (v + d)"
    using wrap32_pow2 [OF fit(1)] by (simp add: e power_add)
  have outer: "wrap32 (wrap32 (parent_vecsize * overlap) * x_upsample blk) = 2 ^ (a + l + u)"
    using wrap32_pow2 [OF fit(2)] by (simp add: e power_add wrap32_mult)
  have clip: "(if x_overlap blk > vecsize then vecsize else x_overlap blk) = overlap"
      "(if x_downsample blk > parent_vecsize then parent_vecsize else x_downsample blk) = downsample"
    using assms(7,8) by auto
  let ?p = "2 ^ (v + d - (a + l + u)) :: int" and ?f = "2 ^ (a + l + u - (v + d)) :: int"
  have div: "cdiv_trap (2 ^ i) (2 ^ j) = Inr (if j \<le> i then 2 ^ (i - j) else 0)" for i j
  proof -
    have "0 < (2 :: int) ^ j" by simp
    then have "(2 :: int) ^ j \<noteq> -1" "(2 :: int) ^ j \<noteq> 0" by linarith+
    then show ?thesis by (simp add: cdiv_trap_def cdiv_pow2)
  qed
  have "(if (if j \<le> i then 2 ^ (i - j) else 0) < (1 :: int) then 1 else if j \<le> i then 2 ^ (i - j) else 0) = (2 :: int) ^ (i - j)" for i j :: nat
  proof -
    have "\<not> (2 :: int) ^ (i - j) < 1" using one_le_power [of "2 :: int" "i - j"] by linarith
    then show ?thesis by simp
  qed
  note one = this
  have "block_rates parent_srate parent_vecsize has_parent dsp_phase blk =
      Inr (\<lparr>dc_srate = fdiv binary32 (fmul binary32 (fmul binary32 parent_srate (fl_of_int binary32 overlap))
                    (fl_of_int binary32 (x_upsample blk))) (fl_of_int binary32 downsample),
                 dc_vecsize = vecsize, dc_calcsize = (if x_calcsize blk = 0 then vecsize else x_calcsize blk),
                 dc_reblock = (\<not> has_parent \<or> overlap \<noteq> 1 \<or> vecsize \<noteq> parent_vecsize \<or> downsample \<noteq> 1 \<or> x_upsample blk \<noteq> 1),
                 dc_switched = x_switched blk, dc_period = ?p, dc_frequency = ?f,
                 dc_downsample = downsample, dc_upsample = x_upsample blk\<rparr>,
                blk\<lparr>x_frequency := ?f, x_period := ?p, x_phase := dsp_phase AND (?p - 1)\<rparr>)"
    unfolding block_rates_def Let_def assms(6) [symmetric] clip inner outer div cbind_simps one ..
  moreover have "pow2 ?p" "pow2 ?f" using fit unfolding pow2_def by (metis less_imp_diff_less)+
  moreover have "0 \<le> dsp_phase AND (?p - 1)" "dsp_phase AND (?p - 1) < ?p"
    by (simp_all add: take_bit_eq_mod flip: mask_eq_exp_minus_1 take_bit_eq_mask)
  moreover have "?p = 1 \<or> ?f = 1" by (cases "v + d \<le> a + l + u") simp_all
  moreover have "vecsize * downsample * ?f = parent_vecsize * overlap * x_upsample blk * ?p"
    by (simp add: e flip: power_add)
  ultimately show ?thesis by auto
qed

text \<open>\<^bold>\<open>C40\<close>: Where the product of the outer size, the overlap and the upsampling reaches \<open>2 ^ 32\<close>, all being powers of two and the overlap
  being cut off at the inner size, it wraps to zero and the division traps: a \<open>block~ 64 64 1048576\<close> ends the program.\<close>

theorem block_rates_trap:
  assumes "pow2 parent_vecsize" "pow2 (x_vecsize blk)" "pow2 (x_overlap blk)" "pow2 (x_upsample blk)"
    "2 ^ 32 \<le> parent_vecsize * min (x_overlap blk) (x_vecsize blk) * x_upsample blk"
  shows "block_rates parent_srate parent_vecsize has_parent dsp_phase blk = Inl DivideTrap"
proof -
  obtain a l u where e: "parent_vecsize = 2 ^ a" "min (x_overlap blk) (x_vecsize blk) = 2 ^ l" "x_upsample blk = 2 ^ u"
    using assms(1-4) unfolding pow2_def min_def by (metis (full_types))
  have "\<not> a + l + u < 32" using assms(5) pow2_less_cancel [of "a + l + u" 32] by (simp add: e power_add)
  then have outer: "wrap32 (wrap32 (parent_vecsize * min (x_overlap blk) (x_vecsize blk)) * x_upsample blk) = 0"
    using wrap32_pow2_big [of "a + l + u"] by (simp only: e wrap32_mult power_add not_less)
  have "x_vecsize blk \<noteq> 0" using assms(2) by (auto simp: pow2_def)
  moreover have "(if x_overlap blk > x_vecsize blk then x_vecsize blk else x_overlap blk) = min (x_overlap blk) (x_vecsize blk)"
    by auto
  ultimately show ?thesis using outer by (simp add: block_rates_def Let_def cdiv_trap_def)
qed

definition demo_block :: t_block where
  "demo_block = block_cleared\<lparr>x_vecsize := 128, x_overlap := 1, x_period := 2, x_frequency := 1, x_chainonset := 2,
     x_blocklength := 5, x_switchon := True, x_reblock := True, x_upsample := 1, x_downsample := 1\<rparr>"

definition demo_dsp :: "t_block \<Rightarrow> (unit, nat) dsp_state" where
  "demo_dsp x = \<lparr>dsp_chain = block_chain 0 [((), [])] [], blocks = [0 \<mapsto> x], world = 0\<rparr>"

lemmas demo_block_simps = demo_block_def block_cleared_def block_ready_def ops_ok_def

theorem block_rate_witness:
  "\<exists>S' c. dsp_ticks (\<lambda>_. 0) (\<lambda>_ n. n + 1) 3 (demo_dsp demo_block, 0) = Some (Inr (S', wrap32 3)) \<and>
    world S' = 2 \<and> dsp_chain S' = dsp_chain (demo_dsp demo_block) \<and>
    blocks S' = [0 \<mapsto> demo_block\<lparr>x_count := c, x_phase := 1\<rparr>]"
  using block_rate [of "demo_dsp demo_block" 0 "[((), [])]" "\<lambda>_. 0" demo_block 2 1 "\<lambda>_ n. n + 1" 3]
  by (simp add: demo_dsp_def demo_block_simps run_ops_def)

theorem switch_selects_witness:
  "(\<exists>S'. dsp_tick (\<lambda>_. 0) (\<lambda>_ n. n + 1) (demo_dsp (demo_block\<lparr>x_reblock := False, x_switched := True, x_switchon := False\<rparr>), 0) =
      Some (Inr (S', wrap32 1)) \<and> world S' = 0) \<and>
   (\<exists>S'. block_bang (\<lambda>_. 0) (\<lambda>_ n. n + 1) 0 (demo_dsp (demo_block\<lparr>x_reblock := False, x_switched := True, x_switchon := False\<rparr>)) =
      Some (Inr S') \<and> map_option x_switchon (blocks S' 0) = Some False \<and> world S' = 1)"
  using switch_selects [of "demo_dsp (demo_block\<lparr>x_reblock := False, x_switched := True, x_switchon := False\<rparr>)" 0 "[((), [])]" "[]"
      "\<lambda>_. 0" "demo_block\<lparr>x_reblock := False, x_switched := True, x_switchon := False\<rparr>" "\<lambda>_ n. n + 1" 0]
  by (simp add: demo_dsp_def demo_block_simps run_ops_def)

lemma pow2I: "k < 31 \<Longrightarrow> pow2 (2 ^ k)"
  by (auto simp: pow2_def)

lemma pow2_numeral: "pow2 1" "pow2 64" "pow2 128" "pow2 1048576"
  using pow2I [of 0] pow2I [of 6] pow2I [of 7] pow2I [of 20] by simp_all

lemma demo_fields: "x_vecsize demo_block = 128" "x_overlap demo_block = 1" "x_upsample demo_block = 1" "x_downsample demo_block = 1"
  by (simp_all add: demo_block_simps)

theorem block_rates_consistent_witness:
  "\<exists>r x'. block_rates (Fin 44100) 64 True 5 demo_block = Inr (r, x') \<and>
    dc_vecsize r * dc_downsample r * dc_frequency r = 64 * 1 * dc_upsample r * dc_period r \<and>
    (dc_period r = 1 \<or> dc_frequency r = 1) \<and> pow2 (dc_period r) \<and> pow2 (dc_frequency r) \<and>
    x_period x' = dc_period r \<and> x_frequency x' = dc_frequency r \<and> 0 \<le> x_phase x' \<and> x_phase x' < dc_period r"
  by (rule block_rates_consistent [of 64 demo_block 128 1 1]) (simp_all add: demo_fields pow2_numeral)

theorem block_rates_trap_witness:
  "block_rates (Fin 44100) 64 True 0 (demo_block\<lparr>x_vecsize := 64, x_overlap := 64, x_upsample := 1048576\<rparr>) = Inl DivideTrap"
  by (rule block_rates_trap) (simp_all add: demo_block_simps pow2_numeral)

end
