(* ===== verification/Signals.thy ===== *)
theory Signals
  imports DspChain
begin

text \<open>
  Signals (\<open>d_ugen.c\<close>): the vectors of samples that carry audio from object to object. While the graph is sorted,
  signals are counted references to vectors, taken from lists of free ones and given back as soon as no
  object needs them. A borrowed signal has no vector of its own.
\<close>

subsection \<open>Operations\<close>

record t_signal =
  s_n :: int
  s_vec :: "nat option"
  s_sr :: fl
  s_refcount :: int
  s_isborrowed :: bool
  s_borrowedfrom :: "nat option"
  s_vecsize :: int

text \<open>
  The store of signals, the free lists by the logarithm of the size, the list of free borrowed signals, the list of
  all signals, and the sizes of the vectors that were allocated. The code links the lists through the fields
  \<open>s_nextfree\<close> and \<open>s_nextused\<close>; the model has the lists themselves.
\<close>

record signals =
  sig_store :: "t_signal list"
  signal_freelist :: "int \<Rightarrow> nat list"
  signal_freeborrowed :: "nat list"
  signal_usedlist :: "nat list"
  vecsizes :: "int list"

definition getsig :: "nat \<Rightarrow> signals \<Rightarrow> t_signal cresult" where
  "getsig g S = (if g < length (sig_store S) then Inr (sig_store S ! g) else Inl NullDeref)"

definition setsig :: "nat \<Rightarrow> t_signal \<Rightarrow> signals \<Rightarrow> signals" where
  "setsig g x S = S\<lparr>sig_store := (sig_store S)[g := x]\<rparr>"

definition add_refs :: "nat \<Rightarrow> int \<Rightarrow> signals \<Rightarrow> signals cresult" where
  "add_refs g d S = cbind (getsig g S) (\<lambda>x. Inr (setsig g (x\<lparr>s_refcount := wrap32 (s_refcount x + d)\<rparr>) S))"

definition signal_cleanup :: "signals \<Rightarrow> signals" where
  "signal_cleanup S = S\<lparr>sig_store := [], signal_usedlist := [], signal_freelist := (\<lambda>_. []), signal_freeborrowed := []\<rparr>"

text \<open>Calls of itself follow a reference count that goes from 1 to 0, so they end.\<close>

definition live_count :: "signals \<Rightarrow> nat" where
  "live_count S = length (filter (\<lambda>x. 0 < s_refcount x) (sig_store S))"

lemma filter_update_less:
  assumes "i < length xs" "P (xs ! i)" "\<not> P y"
  shows "length (filter P (xs[i := y])) < length (filter P xs)"
proof -
  have "xs = take i xs @ xs ! i # drop (Suc i) xs" using assms(1) by (rule id_take_nth_drop)
  moreover have "xs[i := y] = take i xs @ y # drop (Suc i) xs" using assms(1) by (rule upd_conv_take_nth_drop)
  moreover have "length (filter P (take i xs @ y # drop (Suc i) xs)) < length (filter P (take i xs @ xs ! i # drop (Suc i) xs))"
    using assms(2,3) by simp
  ultimately show ?thesis by (simp only:)
qed

function signal_makereusable :: "nat \<Rightarrow> signals \<Rightarrow> signals cresult" where
  "signal_makereusable g S = cbind (getsig g S) (\<lambda>x.
     if g \<in> set (signal_freeborrowed S) \<or> g \<in> set (signal_freelist S (ilog2 (s_vecsize x))) then Inr S
     else if s_isborrowed x then
       (case s_borrowedfrom x of
          None \<Rightarrow> Inl NullDeref
        | Some s2 \<Rightarrow> cbind (getsig s2 S) (\<lambda>y.
            let S1 = setsig s2 (y\<lparr>s_refcount := wrap32 (s_refcount y - 1)\<rparr>) S in
            cbind (if s_refcount y = 1 then signal_makereusable s2 S1 else Inr S1) (\<lambda>S2.
            Inr (S2\<lparr>signal_freeborrowed := g # signal_freeborrowed S2\<rparr>))))
     else Inr (S\<lparr>signal_freelist := (signal_freelist S)(ilog2 (s_vecsize x) := g # signal_freelist S (ilog2 (s_vecsize x)))\<rparr>))"
  by pat_completeness auto
termination
  by (relation "measure (\<lambda>(g, S). live_count S)")
    (auto simp: getsig_def live_count_def setsig_def cbind_eq_Inr_iff split: if_splits intro!: filter_update_less)

declare signal_makereusable.simps [simp del]

text \<open>
  \<open>signal_new\<close>: a vector of the next power of two, or for size 0 a borrowed signal. The lists are indexed by the
  logarithm of the size asked for, rounded down.
\<close>

definition newvecsize :: "int \<Rightarrow> int" where
  "newvecsize n = (if n \<noteq> 0 then (if pow2_below n \<noteq> n then wrap32 (pow2_below n * 2) else pow2_below n) else 0)"

definition signal_new :: "int \<Rightarrow> fl \<Rightarrow> signals \<Rightarrow> nat \<times> signals" where
  "signal_new n sr S =
     (let whichlist = (if n \<noteq> 0 then signal_freelist S (ilog2 n) else signal_freeborrowed S) in
      case whichlist of
        ret # rest \<Rightarrow>
          (ret, setsig ret ((sig_store S ! ret)\<lparr>s_n := n, s_vecsize := newvecsize n, s_sr := sr, s_refcount := 0, s_borrowedfrom := None\<rparr>)
             (if n \<noteq> 0 then S\<lparr>signal_freelist := (signal_freelist S)(ilog2 n := rest)\<rparr> else S\<lparr>signal_freeborrowed := rest\<rparr>))
      | [] \<Rightarrow>
          (length (sig_store S),
           S\<lparr>sig_store := sig_store S @ [\<lparr>s_n = n, s_vec = (if n \<noteq> 0 then Some (length (vecsizes S)) else None), s_sr = sr,
                s_refcount = 0, s_isborrowed = (n = 0), s_borrowedfrom = None, s_vecsize = newvecsize n\<rparr>],
             signal_usedlist := length (sig_store S) # signal_usedlist S,
             vecsizes := (if n \<noteq> 0 then vecsizes S @ [newvecsize n] else vecsizes S)\<rparr>))"

definition signal_newlike :: "t_signal \<Rightarrow> signals \<Rightarrow> nat \<times> signals" where
  "signal_newlike x = signal_new (s_n x) (s_sr x)"

definition signal_setborrowed :: "nat \<Rightarrow> nat \<Rightarrow> signals \<Rightarrow> signals cresult" where
  "signal_setborrowed g g2 S = cbind (getsig g S) (\<lambda>x. cbind (getsig g2 S) (\<lambda>y.
     Inr (setsig g (x\<lparr>s_borrowedfrom := Some g2, s_vec := s_vec y, s_n := s_n y, s_vecsize := s_vecsize y\<rparr>) S)))"

definition signal_compatible :: "t_signal \<Rightarrow> t_signal \<Rightarrow> bool" where
  "signal_compatible s1 s2 \<longleftrightarrow> s_n s1 = s_n s2 \<and> feq (s_sr s1) (s_sr s2)"

subsection \<open>Vectors are long enough\<close>

definition vec_fits :: "int list \<Rightarrow> t_signal \<Rightarrow> bool" where
  "vec_fits vs x \<longleftrightarrow> (case s_vec x of None \<Rightarrow> s_isborrowed x
     | Some v \<Rightarrow> v < length vs \<and> 0 \<le> vs ! v \<and> s_n x \<le> vs ! v \<and> (\<not> s_isborrowed x \<longrightarrow> vs ! v = s_vecsize x \<and> pow2 (s_vecsize x)))"

definition vecs_ok :: "signals \<Rightarrow> bool" where
  "vecs_ok S \<longleftrightarrow> (\<forall>g < length (sig_store S). vec_fits (vecsizes S) (sig_store S ! g)) \<and>
    (\<forall>k. \<forall>g \<in> set (signal_freelist S k). g < length (sig_store S) \<and> \<not> s_isborrowed (sig_store S ! g) \<and>
      0 \<le> k \<and> s_vecsize (sig_store S ! g) = 2 ^ nat k) \<and>
    (\<forall>g \<in> set (signal_freeborrowed S). g < length (sig_store S) \<and> s_isborrowed (sig_store S ! g))"

lemma vec_fits_longer: "vec_fits vs x \<Longrightarrow> vec_fits (vs @ ws) x"
  by (auto simp: vec_fits_def nth_append split: option.splits)

lemma newvecsize_pow2: "pow2 n \<Longrightarrow> newvecsize n = n"
  by (auto simp: pow2_def newvecsize_def pow2_below_def wrap32_pow2)

lemma pow2_log: "pow2 n \<Longrightarrow> 2 ^ nat (ilog2 n) = n \<and> 0 \<le> ilog2 n \<and> 0 < n"
  by (auto simp: pow2_def)

lemma vecs_ok_set:
  assumes "vecs_ok S" "g < length (sig_store S)" "s_isborrowed x = s_isborrowed (sig_store S ! g)"
    "\<not> s_isborrowed x \<Longrightarrow> s_vecsize x = s_vecsize (sig_store S ! g)" "vec_fits (vecsizes S) x"
  shows "vecs_ok (setsig g x S)"
  using assms unfolding vecs_ok_def setsig_def by (auto simp: nth_list_update)

lemma vecs_ok_fits: "vecs_ok S \<Longrightarrow> g < length (sig_store S) \<Longrightarrow> vec_fits (vecsizes S) (sig_store S ! g)"
  by (simp add: vecs_ok_def)

lemma vecs_ok_fewer: "vecs_ok S \<Longrightarrow> (\<And>k. set (F k) \<subseteq> set (signal_freelist S k)) \<Longrightarrow> vecs_ok (S\<lparr>signal_freelist := F\<rparr>)"
proof -
  assume a: "vecs_ok S" "\<And>k. set (F k) \<subseteq> set (signal_freelist S k)"
  from a(2) have "g \<in> set (F k) \<Longrightarrow> g \<in> set (signal_freelist S k)" for g k by blast
  with a(1) show ?thesis unfolding vecs_ok_def by simp blast
qed

lemma vecs_ok_refcount:
  assumes "vecs_ok S" "getsig g S = Inr x"
  shows "vecs_ok (setsig g (x\<lparr>s_refcount := r\<rparr>) S)"
proof (rule vecs_ok_set [OF assms(1)])
  have g: "g < length (sig_store S)" "x = sig_store S ! g" using assms(2) by (auto simp: getsig_def split: if_splits)
  then show "vec_fits (vecsizes S) (x\<lparr>s_refcount := r\<rparr>)" using vecs_ok_fits [OF assms(1) g(1)]
    by (simp add: vec_fits_def split: option.splits)
qed (use assms(2) in \<open>auto simp: getsig_def split: if_splits\<close>)

lemma vecs_ok_push:
  assumes "vecs_ok S" "vec_fits (vecsizes S @ ws) x"
  shows "vecs_ok (S\<lparr>sig_store := sig_store S @ [x], signal_usedlist := us, vecsizes := vecsizes S @ ws\<rparr>)"
  using assms vec_fits_longer unfolding vecs_ok_def by (auto simp: nth_append less_Suc_eq)

lemma vecs_ok_new:
  assumes "vecs_ok S" "pow2 n \<or> n = 0"
  shows "vecs_ok (snd (signal_new n sr S))"
proof (cases "n = 0")
  case True
  show ?thesis
  proof (cases "signal_freeborrowed S")
    case Nil
    then show ?thesis using vecs_ok_push [OF assms(1), of "[]"] True by (simp add: signal_new_def vec_fits_def)
  next
    case (Cons ret rest)
    let ?S = "S\<lparr>signal_freeborrowed := rest\<rparr>"
    have ret: "ret < length (sig_store S)" "s_isborrowed (sig_store S ! ret)" "vecs_ok ?S"
      using assms(1) Cons by (auto simp: vecs_ok_def)
    let ?x = "(sig_store S ! ret)\<lparr>s_n := n, s_vecsize := newvecsize n, s_sr := sr, s_refcount := 0, s_borrowedfrom := None\<rparr>"
    have "vec_fits (vecsizes S) ?x"
      using vecs_ok_fits [OF assms(1) ret(1)] ret(2) True by (auto simp: vec_fits_def split: option.splits)
    then show ?thesis using True Cons vecs_ok_set [OF ret(3), of ret ?x] ret(1,2) by (simp add: signal_new_def)
  qed
next
  case False
  with assms(2) have n: "2 ^ nat (ilog2 n) = n" "0 \<le> ilog2 n" "newvecsize n = n" "pow2 n" "0 < n"
    using pow2_log newvecsize_pow2 by auto
  show ?thesis
  proof (cases "signal_freelist S (ilog2 n)")
    case Nil
    then show ?thesis using vecs_ok_push [OF assms(1), of "[n]"] False n(3-5) by (simp add: signal_new_def vec_fits_def)
  next
    case (Cons ret rest)
    let ?S = "S\<lparr>signal_freelist := (signal_freelist S)(ilog2 n := rest)\<rparr>"
    have "ret \<in> set (signal_freelist S (ilog2 n))" using Cons by simp
    then have ret: "ret < length (sig_store S)" "s_vecsize (sig_store S ! ret) = n" "\<not> s_isborrowed (sig_store S ! ret)"
      using assms(1) n unfolding vecs_ok_def by metis+
    have ok: "vecs_ok ?S" by (rule vecs_ok_fewer [OF assms(1)]) (use Cons in auto)
    let ?x = "(sig_store S ! ret)\<lparr>s_n := n, s_vecsize := newvecsize n, s_sr := sr, s_refcount := 0, s_borrowedfrom := None\<rparr>"
    have "vec_fits (vecsizes S) ?x"
      using vecs_ok_fits [OF assms(1) ret(1)] ret(2,3) n by (auto simp: vec_fits_def split: option.splits)
    then show ?thesis using False Cons n(3) vecs_ok_set [OF ok, of ret ?x] ret by (simp add: signal_new_def)
  qed
qed

lemma getsig_Inr: "getsig g S = Inr x \<longleftrightarrow> g < length (sig_store S) \<and> x = sig_store S ! g"
  by (auto simp: getsig_def)

lemma vecs_ok_makereusable: "vecs_ok S \<Longrightarrow> signal_makereusable g S = Inr S' \<Longrightarrow> vecs_ok S' \<and> length (sig_store S') = length (sig_store S) \<and>
    (\<forall>h. s_isborrowed (sig_store S' ! h) = s_isborrowed (sig_store S ! h))"
proof (induction g S arbitrary: S' rule: signal_makereusable.induct)
  case (1 g S)
  obtain x where x: "getsig g S = Inr x"
    using "1.prems"(2) by (cases "getsig g S") (auto simp: signal_makereusable.simps [of g S])
  note gx = x [unfolded getsig_Inr]
  let ?k = "ilog2 (s_vecsize x)"
  consider "g \<in> set (signal_freeborrowed S) \<or> g \<in> set (signal_freelist S ?k)"
    | "g \<notin> set (signal_freeborrowed S)" "g \<notin> set (signal_freelist S ?k)" "\<not> s_isborrowed x"
    | s2 where "g \<notin> set (signal_freeborrowed S)" "g \<notin> set (signal_freelist S ?k)" "s_isborrowed x" "s_borrowedfrom x = Some s2"
    using "1.prems"(2) x by (cases "s_borrowedfrom x") (auto simp: signal_makereusable.simps [of g S] split: if_splits)
  then show ?case
  proof cases
    case 1
    then have "S' = S" using "1.prems"(2) x by (auto simp: signal_makereusable.simps [of g S])
    then show ?thesis using "1.prems"(1) by simp
  next
    case 2
    then have S': "S' = S\<lparr>signal_freelist := (signal_freelist S)(?k := g # signal_freelist S ?k)\<rparr>"
      using "1.prems"(2) x by (simp add: signal_makereusable.simps [of g S])
    have "pow2 (s_vecsize x)" using vecs_ok_fits [OF "1.prems"(1), of g] gx 2(3) by (auto simp: vec_fits_def split: option.splits)
    then have "2 ^ nat ?k = s_vecsize x" "0 \<le> ?k" using pow2_log by auto
    then show ?thesis using "1.prems"(1) gx 2(3) by (auto simp: S' vecs_ok_def)
  next
    case 3
    obtain y where y: "getsig s2 S = Inr y"
      using "1.prems"(2) x 3 by (cases "getsig s2 S") (auto simp: signal_makereusable.simps [of g S])
    let ?S1 = "setsig s2 (y\<lparr>s_refcount := wrap32 (s_refcount y - 1)\<rparr>) S"
    obtain S2 where S2: "(if s_refcount y = 1 then signal_makereusable s2 ?S1 else Inr ?S1) = Inr S2"
        "S' = S2\<lparr>signal_freeborrowed := g # signal_freeborrowed S2\<rparr>"
      using "1.prems"(2) x 3 y by (auto simp: signal_makereusable.simps [of g S] cbind_eq_Inr_iff Let_def)
    have "vecs_ok ?S1" by (rule vecs_ok_refcount [OF "1.prems"(1) y])
    moreover have "length (sig_store ?S1) = length (sig_store S)" by (simp add: setsig_def)
    moreover have "\<forall>h. s_isborrowed (sig_store ?S1 ! h) = s_isborrowed (sig_store S ! h)"
      using y [unfolded getsig_Inr] by (auto simp: setsig_def nth_list_update)
    ultimately have "vecs_ok S2 \<and> length (sig_store S2) = length (sig_store S) \<and>
        (\<forall>h. s_isborrowed (sig_store S2 ! h) = s_isborrowed (sig_store S ! h))"
      using S2(1) "1.IH" [OF x _ 3(3) 3(4) y refl] 3(1,2) by (auto split: if_splits)
    then show ?thesis using gx 3(3) by (auto simp: S2(2) vecs_ok_def)
  qed
qed

text \<open>The operations on signals, in any order, with sizes that are powers of two.\<close>

inductive sig_step :: "signals \<Rightarrow> signals \<Rightarrow> bool" where
  new: "pow2 n \<or> n = 0 \<Longrightarrow> sig_step S (snd (signal_new n sr S))"
| refs: "add_refs g d S = Inr S' \<Longrightarrow> sig_step S S'"
| free: "signal_makereusable g S = Inr S' \<Longrightarrow> sig_step S S'"
| borrow: "getsig g S = Inr x \<Longrightarrow> s_isborrowed x \<Longrightarrow> signal_setborrowed g g2 S = Inr S' \<Longrightarrow> sig_step S S'"

inductive_cases sig_stepE: "sig_step S S'"

definition no_signals :: "signals" where
  "no_signals = \<lparr>sig_store = [], signal_freelist = (\<lambda>_. []), signal_freeborrowed = [], signal_usedlist = [], vecsizes = []\<rparr>"

lemma vecs_ok_step: "sig_step S S' \<Longrightarrow> vecs_ok S \<Longrightarrow> vecs_ok S'"
proof (induction rule: sig_step.induct)
  case (new n S sr)
  then show ?case using vecs_ok_new by blast
next
  case (refs g d S S')
  then show ?case using vecs_ok_refcount by (auto simp: add_refs_def cbind_eq_Inr_iff)
next
  case (free g S S')
  then show ?case using vecs_ok_makereusable by blast
next
  case (borrow g S x g2 S')
  obtain y where y: "getsig g2 S = Inr y" "S' = setsig g (x\<lparr>s_borrowedfrom := Some g2, s_vec := s_vec y, s_n := s_n y, s_vecsize := s_vecsize y\<rparr>) S"
    using borrow.hyps by (auto simp: signal_setborrowed_def cbind_eq_Inr_iff)
  have gx: "g < length (sig_store S)" "x = sig_store S ! g" "g2 < length (sig_store S)" "y = sig_store S ! g2"
    using borrow.hyps(1) y(1) by (auto simp: getsig_Inr)
  have "vec_fits (vecsizes S) (x\<lparr>s_borrowedfrom := Some g2, s_vec := s_vec y, s_n := s_n y, s_vecsize := s_vecsize y\<rparr>)"
    using vecs_ok_fits [OF borrow.prems gx(3)] borrow.hyps(2) gx by (auto simp: vec_fits_def split: option.splits)
  then show ?case unfolding y(2) using borrow.hyps(2) gx by (intro vecs_ok_set [OF borrow.prems]) auto
qed

lemma vecs_ok_none: "vecs_ok no_signals"
  by (simp add: vecs_ok_def no_signals_def)

text \<open>\<^bold>\<open>C10\<close>: Whatever sequence of operations on signals, reuse of freed ones and borrowing included: every
  signal with a vector has one that was allocated and is long enough for its samples, provided that the sizes asked
  for are powers of two.
\<close>

theorem signal_vectors_fit:
  assumes "sig_step\<^sup>*\<^sup>* no_signals S" "g < length (sig_store S)" "s_vec (sig_store S ! g) = Some v"
  shows "v < length (vecsizes S) \<and> s_n (sig_store S ! g) \<le> vecsizes S ! v"
proof -
  have "vecs_ok S"
    using assms(1) by (induction rule: rtranclp_induct) (use vecs_ok_none vecs_ok_step in auto)
  then show ?thesis using vecs_ok_fits [of S g] assms(2,3) by (simp add: vec_fits_def)
qed

text \<open>With other sizes they may be too short: a signal of 64 samples is reused for 100.\<close>

lemma ilog2_values: "ilog2 100 = 6" "ilog2 64 = 6"
  by (simp_all add: ilog2_def ilog2_loop.simps)

definition one_free_signal :: signals where
  "one_free_signal = \<lparr>sig_store = [\<lparr>s_n = 64, s_vec = Some 0, s_sr = Fin 44100, s_refcount = 0, s_isborrowed = False,
     s_borrowedfrom = None, s_vecsize = 64\<rparr>], signal_freelist = (\<lambda>_. [])(6 := [0]), signal_freeborrowed = [],
     signal_usedlist = [0], vecsizes = [64]\<rparr>"

lemma newvecsize_values: "newvecsize 64 = 64" "newvecsize 100 = 128"
  by (simp_all add: newvecsize_def pow2_below_def ilog2_values)

lemma one_free_signal_reached:
  "signal_makereusable 0 (snd (signal_new 64 (Fin 44100) no_signals)) = Inr one_free_signal"
  by (simp add: signal_new_def no_signals_def signal_makereusable.simps getsig_def ilog2_values newvecsize_values one_free_signal_def)

lemma odd_size_gets_short_vector:
  "signal_new 100 (Fin 44100) one_free_signal = (0, S') \<Longrightarrow>
    s_n (sig_store S' ! 0) = 100 \<and> s_vec (sig_store S' ! 0) = Some 0 \<and> vecsizes S' = [64]"
  by (auto simp: signal_new_def one_free_signal_def setsig_def ilog2_values)

theorem signal_vectors_fit_witness:
  "(0 :: nat) < length (vecsizes one_free_signal) \<and> s_n (sig_store one_free_signal ! 0) \<le> vecsizes one_free_signal ! 0"
proof -
  have "sig_step no_signals (snd (signal_new 64 (Fin 44100) no_signals))"
    using pow2_numeral(2) by (intro sig_step.new) simp
  moreover have "sig_step (snd (signal_new 64 (Fin 44100) no_signals)) one_free_signal"
    using one_free_signal_reached by (rule sig_step.free)
  ultimately have "sig_step\<^sup>*\<^sup>* no_signals one_free_signal" by simp
  then show ?thesis using signal_vectors_fit [of one_free_signal 0 0] by (simp add: one_free_signal_def)
qed

subsection \<open>Signals of one size\<close>

text \<open>
  While a graph of plain objects is sorted, all signals have the same size and rate. \<open>ref\<close> is the number of references
  to each signal; the free list holds the signals without references, but for those in \<open>H\<close>, which are
  in hand. Signal \<open>g\<close> has the vector \<open>B + g\<close>.
\<close>

definition sig_ok :: "nat \<Rightarrow> int \<Rightarrow> fl \<Rightarrow> signals \<Rightarrow> (nat \<Rightarrow> nat) \<Rightarrow> nat set \<Rightarrow> bool" where
  "sig_ok B N R S ref H \<longleftrightarrow> (\<forall>g < length (sig_store S). sig_store S ! g =
        \<lparr>s_n = N, s_vec = Some (B + g), s_sr = R, s_refcount = int (ref g), s_isborrowed = False, s_borrowedfrom = None, s_vecsize = N\<rparr>) \<and>
      (\<forall>g \<ge> length (sig_store S). ref g = 0) \<and> (\<forall>g. int (ref g) < 2 ^ 31) \<and>
      length (vecsizes S) = B + length (sig_store S) \<and> signal_freeborrowed S = [] \<and>
      distinct (signal_freelist S (ilog2 N)) \<and> H \<subseteq> {..<length (sig_store S)} \<and>
      set (signal_freelist S (ilog2 N)) = {g. g < length (sig_store S) \<and> ref g = 0 \<and> g \<notin> H}"

lemma sig_ok_get:
  assumes "sig_ok B N R S ref H" "g < length (sig_store S)"
  shows "getsig g S = Inr \<lparr>s_n = N, s_vec = Some (B + g), s_sr = R, s_refcount = int (ref g), s_isborrowed = False,
    s_borrowedfrom = None, s_vecsize = N\<rparr>"
  using assms by (auto simp: sig_ok_def getsig_def)

lemma sig_ok_live: "sig_ok B N R S ref H \<Longrightarrow> 0 < ref g \<Longrightarrow> g < length (sig_store S)"
  unfolding sig_ok_def by (metis linorder_not_less not_gr_zero)

lemma sig_ok_release: "sig_ok B N R S ref H \<Longrightarrow> 0 < ref g \<Longrightarrow> sig_ok B N R S ref (H - {g})"
  by (auto simp: sig_ok_def)

lemma sig_ok_refcount:
  assumes "sig_ok B N R S ref H" "g \<in> H \<or> 0 < ref g" "getsig g S = Inr x" "int r < 2 ^ 31"
  shows "sig_ok B N R (setsig g (x\<lparr>s_refcount := int r\<rparr>) S) (ref(g := r)) (insert g H)"
  using assms by (auto simp: sig_ok_def setsig_def getsig_def nth_list_update split: if_splits)

lemma sig_ok_new:
  assumes "sig_ok B N R S ref H" "pow2 N"
  shows "\<exists>g S'. signal_new N R S = (g, S') \<and> sig_ok B N R S' ref (insert g H) \<and> ref g = 0 \<and> g \<notin> H \<and>
    g < length (sig_store S') \<and> length (sig_store S) \<le> length (sig_store S')"
proof -
  have N: "N \<noteq> 0" "newvecsize N = N" using pow2_log [OF assms(2)] newvecsize_pow2 [OF assms(2)] by auto
  show ?thesis
  proof (cases "signal_freelist S (ilog2 N)")
    case Nil
    have "H \<subseteq> {..<length (sig_store S)}" "length (sig_store S) \<notin> H" using assms(1) by (auto simp: sig_ok_def)
    then show ?thesis using assms(1) N Nil by (auto simp: signal_new_def sig_ok_def nth_append less_Suc_eq)
  next
    case (Cons g rest)
    then have g: "g < length (sig_store S)" "ref g = 0" "g \<notin> H" "g \<notin> set rest" "distinct rest"
        "set rest = {h. h < length (sig_store S) \<and> ref h = 0 \<and> h \<notin> insert g H}"
      using assms(1) by (auto simp: sig_ok_def)
    then show ?thesis using assms(1) N Cons by (auto simp: signal_new_def sig_ok_def setsig_def nth_list_update)
  qed
qed

lemma sig_ok_makereusable:
  assumes "sig_ok B N R S ref H" "ref g = 0" "g < length (sig_store S)"
  shows "\<exists>S'. signal_makereusable g S = Inr S' \<and> sig_ok B N R S' ref (H - {g}) \<and> sig_store S' = sig_store S"
proof -
  note x = sig_ok_get [OF assms(1,3)]
  show ?thesis
  proof (cases "g \<in> set (signal_freelist S (ilog2 N))")
    case True
    then have "g \<notin> H" using assms(1) by (auto simp: sig_ok_def)
    then show ?thesis using x True assms(1) by (simp add: signal_makereusable.simps [of g S])
  next
    case False
    have fb: "signal_freeborrowed S = []" using assms(1) by (simp add: sig_ok_def)
    have "g \<in> H" using False assms by (auto simp: sig_ok_def)
    then show ?thesis using x False fb assms by (auto simp: signal_makereusable.simps [of g S] sig_ok_def)
  qed
qed

end
