(* ===== verification/Ugen.thy ===== *)
theory Ugen
  imports Signals Objects
begin

text \<open>
  Sorting the graph of signal objects (\<open>d_ugen.c\<close>). For each canvas a copy of its signal objects and their
  connections is built; it is then sorted into the chain of calls, each object after those that feed it, with
  signals allocated on the way.
\<close>

subsection \<open>The graph\<close>

datatype uclass = CanvasC | VinletC | VoutletC | BlockC | OtherC

text \<open>A pointer to the number that stands for an unconnected signal inlet: in the object or in an inlet.\<close>

datatype scalar_ref = FirstScalar | InletScalar nat

fun scalar_loop :: "t_inlet list \<Rightarrow> int \<Rightarrow> scalar_ref option" where
  "scalar_loop [] m = None"
| "scalar_loop (i # is) m = (if is_sig_in i \<and> m = 0 then Some (InletScalar (i_id i)) else scalar_loop is (m - 1))"

definition obj_findsignalscalar :: "t_object \<Rightarrow> int \<Rightarrow> scalar_ref option" where
  "obj_findsignalscalar x m = (if first_sig x
     then (if m = 0 then (if c_floatsignalin x > 0 then Some FirstScalar else None) else scalar_loop (ob_inlet x) (m - 1))
     else scalar_loop (ob_inlet x) m)"

text \<open>What goes on the chain; vectors are named by the signals that hold them.\<close>

datatype dsp_op =
    DspZero "nat option" int
  | DspScalarcopy nat scalar_ref "nat option" int
  | DspPlus "nat option" "nat option" "nat option" int
  | DspUgen nat "nat option list" "nat option list" nat
  | DspBlockProlog nat
  | DspBlockEpilog nat

fun op_width :: "dsp_op \<Rightarrow> int" where
  "op_width (DspZero v n) = 3"
| "op_width (DspScalarcopy x c v n) = 4"
| "op_width (DspPlus a b c n) = 5"
| "op_width (DspUgen x is os k) = 1 + int k"
| "op_width (DspBlockProlog b) = 2"
| "op_width (DspBlockEpilog b) = 2"

record dspst =
  sg :: signals
  chain :: "dsp_op list"
  blks :: "nat \<Rightarrow> t_block"

definition dsp_chainsize :: "dspst \<Rightarrow> int" where
  "dsp_chainsize st = 1 + sum_list (map op_width (chain st))"

record t_siginlet =
  i_nconnect :: int
  i_ngot :: int
  i_signal :: "nat option"

record t_sigoutlet =
  o_nconnect :: int
  o_signal :: "nat option"
  o_conns :: "(nat \<times> nat) list"

record t_ugenbox =
  u_in :: "t_siginlet list"
  u_out :: "t_sigoutlet list"
  u_obj :: nat
  u_done :: bool

record t_dspcontext =
  dc_ugenlist :: "nat list"
  dc_boxes :: "t_ugenbox list"
  dc_toplevel :: bool
  dc_ninlets :: int
  dc_noutlets :: int
  dc_iosigs :: "nat list option"

text \<open>
  The objects, and the code of their classes that is called: the method \<open>dsp\<close>, and for the inlets and outlets of a
  canvas (\<open>g_io.c\<close>) the code before and after the canvas.
\<close>

record ugen_env =
  e_object :: "nat \<Rightarrow> t_object"
  e_class :: "nat \<Rightarrow> uclass"
  e_dsp :: "nat \<Rightarrow> nat list \<Rightarrow> dspst \<Rightarrow> dspst cresult"
  vinlet_dspprolog :: "nat \<Rightarrow> nat list option \<Rightarrow> rates \<Rightarrow> dspst \<Rightarrow> dspst cresult"
  voutlet_dspprolog :: "nat \<Rightarrow> nat list option \<Rightarrow> rates \<Rightarrow> dspst \<Rightarrow> dspst cresult"
  voutlet_dspepilog :: "nat \<Rightarrow> nat list option \<Rightarrow> rates \<Rightarrow> dspst \<Rightarrow> dspst cresult"

definition ugen_start :: "dspst \<Rightarrow> dspst" where
  "ugen_start st = st\<lparr>sg := signal_cleanup (sg st), chain := []\<rparr>"

definition ugen_start_graph :: "bool \<Rightarrow> nat list option \<Rightarrow> int \<Rightarrow> int \<Rightarrow> t_dspcontext" where
  "ugen_start_graph toplevel sp ninlets noutlets = \<lparr>dc_ugenlist = [], dc_boxes = [], dc_toplevel = toplevel,
     dc_ninlets = (if toplevel then 0 else ninlets), dc_noutlets = (if toplevel then 0 else noutlets), dc_iosigs = sp\<rparr>"

definition ugen_add :: "ugen_env \<Rightarrow> nat \<Rightarrow> t_dspcontext \<Rightarrow> t_dspcontext" where
  "ugen_add E obj dc = dc\<lparr>dc_ugenlist := length (dc_boxes dc) # dc_ugenlist dc,
     dc_boxes := dc_boxes dc @ [\<lparr>
       u_in = replicate (nat (obj_nsiginlets (e_object E obj))) \<lparr>i_nconnect = 0, i_ngot = 0, i_signal = None\<rparr>,
       u_out = replicate (nat (obj_nsigoutlets (e_object E obj))) \<lparr>o_nconnect = 0, o_signal = None, o_conns = []\<rparr>,
       u_obj = obj, u_done = False\<rparr>]\<rparr>"

definition find_box :: "nat \<Rightarrow> t_dspcontext \<Rightarrow> nat option" where
  "find_box obj dc = find (\<lambda>u. u_obj (dc_boxes dc ! u) = obj) (dc_ugenlist dc)"

definition set_inlet :: "nat \<Rightarrow> nat \<Rightarrow> t_siginlet \<Rightarrow> t_ugenbox list \<Rightarrow> t_ugenbox list" where
  "set_inlet v j i bs = bs[v := (bs ! v)\<lparr>u_in := (u_in (bs ! v))[j := i]\<rparr>]"

definition set_outlet :: "nat \<Rightarrow> nat \<Rightarrow> t_sigoutlet \<Rightarrow> t_ugenbox list \<Rightarrow> t_ugenbox list" where
  "set_outlet v k o' bs = bs[v := (bs ! v)\<lparr>u_out := (u_out (bs ! v))[k := o']\<rparr>]"

definition add_connection :: "nat \<Rightarrow> nat \<Rightarrow> nat \<Rightarrow> nat \<Rightarrow> t_ugenbox list \<Rightarrow> t_ugenbox list" where
  "add_connection u1 k u2 j bs =
     (let uout = u_out (bs ! u1) ! k;
          bs1 = set_outlet u1 k (uout\<lparr>o_conns := (u2, j) # o_conns uout, o_nconnect := wrap32 (o_nconnect uout + 1)\<rparr>) bs;
          uin = u_in (bs1 ! u2) ! j
      in set_inlet u2 j (uin\<lparr>i_nconnect := wrap32 (i_nconnect uin + 1)\<rparr>) bs1)"

definition ugen_connect :: "ugen_env \<Rightarrow> nat \<Rightarrow> int \<Rightarrow> nat \<Rightarrow> int \<Rightarrow> t_dspcontext \<Rightarrow> t_dspcontext cresult" where
  "ugen_connect E x1 outno x2 inno dc =
     (let sigoutno = obj_sigoutletindex (e_object E x1) outno; siginno = obj_siginletindex (e_object E x2) inno in
      case find_box x1 dc of
        None \<Rightarrow> Inl NullDeref
      | Some u1 \<Rightarrow>
          (case find_box x2 dc of
             None \<Rightarrow> Inr dc
           | Some u2 \<Rightarrow>
               if siginno < 0 then Inr dc
               else if sigoutno < 0 \<or> sigoutno \<ge> int (length (u_out (dc_boxes dc ! u1))) \<or> siginno \<ge> int (length (u_in (dc_boxes dc ! u2)))
               then Inl OutOfBounds
               else Inr (dc\<lparr>dc_boxes := add_connection u1 (nat sigoutno) u2 (nat siginno) (dc_boxes dc)\<rparr>)))"

subsection \<open>Scheduling an object\<close>

type_synonym graph_st = "t_ugenbox list \<times> dspst"

fun fill_unconnected :: "ugen_env \<Rightarrow> rates \<Rightarrow> nat \<Rightarrow> nat list \<Rightarrow> graph_st \<Rightarrow> graph_st" where
  "fill_unconnected E r u [] p = p"
| "fill_unconnected E r u (i # is) (bs, st) =
     (let uin = u_in (bs ! u) ! i; obj = u_obj (bs ! u) in
      if i_nconnect uin = 0 then
        (let (s3, S) = signal_new (dc_vecsize r) (dc_srate r) (sg st); x3 = sig_store S ! s3;
             op = (case obj_findsignalscalar (e_object E obj) (int i) of
                     Some c \<Rightarrow> DspScalarcopy obj c (s_vec x3) (s_n x3) | None \<Rightarrow> DspZero (s_vec x3) (s_n x3))
         in fill_unconnected E r u is (set_inlet u i (uin\<lparr>i_signal := Some s3\<rparr>) bs,
              st\<lparr>sg := setsig s3 (x3\<lparr>s_refcount := 1\<rparr>) S, chain := chain st @ [op]\<rparr>))
      else fill_unconnected E r u is (bs, st))"

fun take_inputs :: "bool \<Rightarrow> t_siginlet list \<Rightarrow> signals \<Rightarrow> (nat list \<times> signals) cresult" where
  "take_inputs nofreesigs [] S = Inr ([], S)"
| "take_inputs nofreesigs (uin # ins) S = (case i_signal uin of
       None \<Rightarrow> Inl NullDeref
     | Some g \<Rightarrow> cbind (add_refs g (-1) S) (\<lambda>S1. cbind (getsig g S1) (\<lambda>x.
         cbind (if nofreesigs then add_refs g 1 S1 else if s_refcount x = 0 then signal_makereusable g S1 else Inr S1) (\<lambda>S2.
         cbind (take_inputs nofreesigs ins S2) (\<lambda>(gs, S3). Inr (g # gs, S3))))))"

fun make_outputs :: "bool \<Rightarrow> rates \<Rightarrow> t_sigoutlet list \<Rightarrow> signals \<Rightarrow> nat list \<times> t_sigoutlet list \<times> signals" where
  "make_outputs nonewsigs r [] S = ([], [], S)"
| "make_outputs nonewsigs r (uout # outs) S =
     (let (g, S1) = signal_new (if nonewsigs then 0 else dc_vecsize r) (dc_srate r) S;
          S2 = setsig g ((sig_store S1 ! g)\<lparr>s_refcount := o_nconnect uout\<rparr>) S1;
          (gs, outs', S3) = make_outputs nonewsigs r outs S2
      in (g # gs, uout\<lparr>o_signal := Some g\<rparr> # outs', S3))"

fun free_unused :: "nat list \<Rightarrow> signals \<Rightarrow> signals cresult" where
  "free_unused [] S = Inr S"
| "free_unused (g # gs) S = cbind (getsig g S) (\<lambda>x.
     cbind (if s_refcount x = 0 then signal_makereusable g S else Inr S) (free_unused gs))"

definition inlet_at :: "nat \<Rightarrow> nat \<Rightarrow> t_ugenbox list \<Rightarrow> t_siginlet cresult" where
  "inlet_at v j bs = (if v < length bs \<and> j < length (u_in (bs ! v)) then Inr (u_in (bs ! v) ! j) else Inl OutOfBounds)"

definition free_if_unused :: "nat \<Rightarrow> signals \<Rightarrow> signals cresult" where
  "free_if_unused g S = cbind (getsig g S) (\<lambda>x. if s_refcount x = 0 then signal_makereusable g S else Inr S)"

text \<open>One signal arrives at one inlet: it is the first, or is added to what is there. \<open>False\<close> where the two do not go together.\<close>

definition deliver :: "nat \<Rightarrow> nat \<Rightarrow> nat \<Rightarrow> graph_st \<Rightarrow> (bool \<times> graph_st) cresult" where
  "deliver s1 v j p = (let (bs, st) = p in cbind (inlet_at v j bs) (\<lambda>uin.
     let got = (\<lambda>g. set_inlet v j (uin\<lparr>i_signal := Some g, i_ngot := wrap32 (i_ngot uin + 1)\<rparr>) bs) in
     case i_signal uin of
       None \<Rightarrow> Inr (True, got s1, st)
     | Some s2 \<Rightarrow>
         cbind (add_refs s1 (-1) (sg st)) (\<lambda>S1. cbind (add_refs s2 (-1) S1) (\<lambda>S2.
         cbind (getsig s1 S2) (\<lambda>x1. cbind (getsig s2 S2) (\<lambda>x2.
         if \<not> signal_compatible x1 x2 then Inr (False, bs, st\<lparr>sg := S2\<rparr>)
         else (let (s3, S3) = signal_newlike x1 S2; x3 = sig_store S3 ! s3 in
           cbind (free_if_unused s1 (setsig s3 (x3\<lparr>s_refcount := 1\<rparr>) S3)) (\<lambda>S4.
           cbind (free_if_unused s2 S4) (\<lambda>S5.
           Inr (True, got s3, st\<lparr>sg := S5, chain := chain st @ [DspPlus (s_vec x1) (s_vec x2) (s_vec x3) (s_n x1)]\<rparr>))))))))))"

definition all_filled :: "nat \<Rightarrow> nat \<Rightarrow> t_ugenbox list \<Rightarrow> bool" where
  "all_filled v j bs = (let ins = u_in (bs ! v) in \<not> i_ngot (ins ! j) < i_nconnect (ins ! j) \<and>
     (length ins > 1 \<longrightarrow> (\<forall>uin \<in> set ins. \<not> i_ngot uin < i_nconnect uin)))"

fun send_conns :: "(nat \<Rightarrow> graph_st \<Rightarrow> graph_st cresult option) \<Rightarrow> nat \<Rightarrow> (nat \<times> nat) list \<Rightarrow> graph_st \<Rightarrow> (bool \<times> graph_st) cresult option" where
  "send_conns doit s1 [] p = Some (Inr (True, p))"
| "send_conns doit s1 ((v, j) # cs) p = rbind (Some (deliver s1 v j p)) (\<lambda>(ok, p1).
     if \<not> ok then Some (Inr (False, p1))
     else if all_filled v j (fst p1) then rbind (doit v p1) (send_conns doit s1 cs)
     else send_conns doit s1 cs p1)"

fun send_outs :: "(nat \<Rightarrow> graph_st \<Rightarrow> graph_st cresult option) \<Rightarrow> nat \<Rightarrow> nat list \<Rightarrow> graph_st \<Rightarrow> (bool \<times> graph_st) cresult option" where
  "send_outs doit u [] p = Some (Inr (True, p))"
| "send_outs doit u (k # ks) p = (let uout = u_out (fst p ! u) ! k in
     case o_signal uout of None \<Rightarrow> Some (Inl NullDeref)
     | Some s1 \<Rightarrow> rbind (send_conns doit s1 (o_conns uout) p) (\<lambda>(ok, p1).
         if ok then send_outs doit u ks p1 else Some (Inr (False, p1))))"

definition doit_body ::
    "ugen_env \<Rightarrow> rates \<Rightarrow> (nat \<Rightarrow> graph_st \<Rightarrow> graph_st cresult option) \<Rightarrow> nat \<Rightarrow> graph_st \<Rightarrow> graph_st cresult option" where
  "doit_body E r doit u p =
     (let obj = u_obj (fst p ! u); class = e_class E obj;
          nonewsigs = (class = CanvasC \<or> class = VinletC \<and> \<not> dc_reblock r);
          nofreesigs = (class = CanvasC \<or> class = VoutletC \<and> \<not> (dc_reblock r \<or> dc_switched r));
          (bs1, st1) = fill_unconnected E r u [0..<length (u_in (fst p ! u))] p
      in rbind (Some (take_inputs nofreesigs (u_in (bs1 ! u)) (sg st1))) (\<lambda>(insig, S2).
         let (outsig, outs, S3) = make_outputs nonewsigs r (u_out (bs1 ! u)) S2; bs3 = bs1[u := (bs1 ! u)\<lparr>u_out := outs\<rparr>] in
         rbind (Some (e_dsp E obj (insig @ outsig) (st1\<lparr>sg := S3\<rparr>))) (\<lambda>st4.
         rbind (Some (free_unused outsig (sg st4))) (\<lambda>S5.
         rbind (send_outs doit u [0..<length outs] (bs3, st4\<lparr>sg := S5\<rparr>)) (\<lambda>(ok, bs6, st6).
         Some (Inr (if ok then bs6[u := (bs6 ! u)\<lparr>u_done := True\<rparr>] else bs6, st6)))))))"

text \<open>The depth of the recursion is bounded by a number; one for each object is enough, as is shown below.\<close>

fun ugen_doit :: "ugen_env \<Rightarrow> rates \<Rightarrow> nat \<Rightarrow> nat \<Rightarrow> graph_st \<Rightarrow> graph_st cresult option" where
  "ugen_doit E r 0 u p = None"
| "ugen_doit E r (Suc depth) u p = doit_body E r (ugen_doit E r depth) u p"

subsection \<open>Sorting\<close>

definition reset_box :: "t_ugenbox \<Rightarrow> t_ugenbox" where
  "reset_box b = b\<lparr>u_done := False, u_in := map (\<lambda>i. i\<lparr>i_ngot := 0, i_signal := None\<rparr>) (u_in b)\<rparr>"

fun sort_loop :: "ugen_env \<Rightarrow> rates \<Rightarrow> nat \<Rightarrow> nat list \<Rightarrow> graph_st \<Rightarrow> graph_st cresult option" where
  "sort_loop E r depth [] p = Some (Inr p)"
| "sort_loop E r depth (u # us) p =
     (if u_done (fst p ! u) \<or> (\<exists>uin \<in> set (u_in (fst p ! u)). i_nconnect uin \<noteq> 0) then sort_loop E r depth us p
      else rbind (ugen_doit E r depth u p) (sort_loop E r depth us))"

text \<open>The borrowed signals of the canvas that nothing stands behind get a signal, with silence where nothing will be computed.\<close>

fun fill_borrowed :: "bool \<Rightarrow> int \<Rightarrow> fl \<Rightarrow> nat list \<Rightarrow> dspst \<Rightarrow> dspst cresult" where
  "fill_borrowed silence n sr [] st = Inr st"
| "fill_borrowed silence n sr (g # gs) st = cbind (getsig g (sg st)) (\<lambda>x.
     if s_isborrowed x \<and> s_borrowedfrom x = None then
       (let (s3, S1) = signal_new n sr (sg st); x3 = sig_store S1 ! s3 in
        cbind (signal_setborrowed g s3 S1) (\<lambda>S2. cbind (add_refs g 1 S2) (\<lambda>S3.
        fill_borrowed silence n sr gs (st\<lparr>sg := S3, chain := chain st @ (if silence then [DspZero (s_vec x3) (s_n x3)] else [])\<rparr>))))
     else fill_borrowed silence n sr gs st)"

fun each_box :: "(nat \<Rightarrow> dspst \<Rightarrow> dspst cresult) \<Rightarrow> nat list \<Rightarrow> dspst \<Rightarrow> dspst cresult" where
  "each_box f [] st = Inr st"
| "each_box f (x # xs) st = cbind (f x st) (each_box f xs)"

definition add_op :: "dsp_op \<Rightarrow> dspst \<Rightarrow> dspst" where
  "add_op op st = st\<lparr>chain := chain st @ [op]\<rparr>"

definition ugen_sort :: "ugen_env \<Rightarrow> rates \<Rightarrow> nat \<Rightarrow> nat list \<Rightarrow> graph_st \<Rightarrow> graph_st cresult option" where
  "ugen_sort E r depth us p = (case p of (bs, st) \<Rightarrow> sort_loop E r depth us (map reset_box bs, st))"

definition ugen_done_graph ::
    "ugen_env \<Rightarrow> nat \<Rightarrow> rates option \<Rightarrow> fl \<Rightarrow> int \<Rightarrow> int \<Rightarrow> t_dspcontext \<Rightarrow> dspst \<Rightarrow> (bool \<times> t_ugenbox list \<times> dspst) cresult option" where
  "ugen_done_graph E depth parent sys_sr sys_blksize dsp_phase dc st =
     (let objs = map (\<lambda>u. u_obj (dc_boxes dc ! u)) (dc_ugenlist dc);
          blk = find (\<lambda>x. e_class E x = BlockC) objs;
          parent_srate = (case parent of None \<Rightarrow> sys_sr | Some r \<Rightarrow> dc_srate r);
          parent_vecsize = (case parent of None \<Rightarrow> sys_blksize | Some r \<Rightarrow> dc_vecsize r);
          outsigs = map_option (drop (nat (dc_ninlets dc))) (dc_iosigs dc);
          myouts = (case outsigs of None \<Rightarrow> [] | Some gs \<Rightarrow> take (nat (dc_noutlets dc)) gs)
      in rbind (Some (canvas_rates parent_srate parent_vecsize (map_option dc_calcsize parent) dsp_phase (map_option (blks st) blk))) (\<lambda>(r, x').
         let st1 = (case (blk, x') of (Some b, Some x) \<Rightarrow> st\<lparr>blks := (blks st)(b := x)\<rparr> | _ \<Rightarrow> st);
             special = (blk \<noteq> None \<and> (dc_reblock r \<or> dc_switched r)); b = (case blk of None \<Rightarrow> 0 | Some x \<Rightarrow> x) in
         rbind (Some (if dc_switched r \<or> dc_reblock r then fill_borrowed False parent_vecsize parent_srate myouts st1 else Inr st1)) (\<lambda>st2.
         rbind (Some (each_box (\<lambda>x. if e_class E x = VinletC then vinlet_dspprolog E x (dc_iosigs dc) r
             else if e_class E x = VoutletC then voutlet_dspprolog E x outsigs r else Inr) objs st2)) (\<lambda>st3.
         let chainblockbegin = dsp_chainsize st3;
             st4 = (if special then add_op (DspBlockProlog b) st3 else st3);
             st5 = (if special then st4\<lparr>blks := (blks st4)(b := (blks st4 b)\<lparr>x_chainonset := dsp_chainsize st4 - 1\<rparr>)\<rparr> else st4) in
         rbind (ugen_sort E r depth (dc_ugenlist dc) (dc_boxes dc, st5)) (\<lambda>(bs6, st6).
         let loop = (\<exists>u \<in> set (dc_ugenlist dc). \<not> u_done (bs6 ! u)) in
         rbind (Some (if loop then fill_borrowed True parent_vecsize parent_srate myouts st6 else Inr st6)) (\<lambda>st7.
         let st8 = (if special then add_op (DspBlockEpilog b) st7 else st7);
             chainblockend = dsp_chainsize st8 in
         rbind (Some (each_box (\<lambda>x. if e_class E x = VoutletC then voutlet_dspepilog E x outsigs r else Inr) objs st8)) (\<lambda>st9.
         Some (Inr (loop, bs6, if blk \<noteq> None
           then st9\<lparr>blks := (blks st9)(b := (blks st9 b)\<lparr>x_blocklength := chainblockend - chainblockbegin,
                  x_epiloglength := dsp_chainsize st9 - chainblockend, x_reblock := dc_reblock r\<rparr>)\<rparr>
           else st9)))))))))"

end
