(* ===== verification/UgenSort.thy ===== *)
theory UgenSort
  imports Ugen "HOL-Library.Multiset"
begin

text \<open>
  The sorted chain computes the network: every object is called once, after the objects that feed it, with
  the signals they computed, although vectors are reused as soon as they are free. Objects behind a loop, and only
  these, are left out.
\<close>

subsection \<open>What a chain computes\<close>

text \<open>
  A vector of samples is a value; \<open>perf\<close> says what the perform routine of an object computes. It may write over its
  inputs, so it has to read them first. The trace lists the calls with the inputs they found.
\<close>

record 'v sem =
  v_zero :: 'v
  v_scalar :: "nat \<Rightarrow> scalar_ref \<Rightarrow> 'v"
  v_plus :: "'v \<Rightarrow> 'v \<Rightarrow> 'v"
  perf :: "nat \<Rightarrow> 'v list \<Rightarrow> 'v list"

type_synonym 'v run = "(nat \<Rightarrow> 'v) \<times> (nat \<times> 'v list) list"

definition write_all :: "nat list \<Rightarrow> 'v list \<Rightarrow> (nat \<Rightarrow> 'v) \<Rightarrow> nat \<Rightarrow> 'v" where
  "write_all as vs m a = (case map_of (zip as vs) a of None \<Rightarrow> m a | Some v \<Rightarrow> v)"

fun exec_op :: "'v sem \<Rightarrow> dsp_op \<Rightarrow> 'v run \<Rightarrow> 'v run" where
  "exec_op F (DspZero a n) (m, t) = (m(the a := v_zero F), t)"
| "exec_op F (DspScalarcopy x c a n) (m, t) = (m(the a := v_scalar F x c), t)"
| "exec_op F (DspPlus a b c n) (m, t) = (m(the c := v_plus F (m (the a)) (m (the b))), t)"
| "exec_op F (DspUgen x is os k) (m, t) =
     (let ins = map (m \<circ> the) is in (write_all (map the os) (perf F x ins) m, t @ [(x, ins)]))"
| "exec_op F (DspBlockProlog b) p = p"
| "exec_op F (DspBlockEpilog b) p = p"

definition exec_chain :: "'v sem \<Rightarrow> dsp_op list \<Rightarrow> (nat \<Rightarrow> 'v) \<Rightarrow> 'v run" where
  "exec_chain F ops m = fold (exec_op F) ops (m, [])"

lemma exec_chain_snoc: "exec_chain F (ops @ [op]) m = exec_op F op (exec_chain F ops m)"
  by (simp add: exec_chain_def)

text \<open>Calls as the sorting puts them on the chain: all vectors are there and have the size of the canvas.\<close>

fun wf_op :: "ugen_env \<Rightarrow> int \<Rightarrow> dsp_op \<Rightarrow> bool" where
  "wf_op E N (DspZero a n) \<longleftrightarrow> a \<noteq> None \<and> n = N"
| "wf_op E N (DspScalarcopy x c a n) \<longleftrightarrow> a \<noteq> None \<and> n = N"
| "wf_op E N (DspPlus a b c n) \<longleftrightarrow> a \<noteq> None \<and> b \<noteq> None \<and> c \<noteq> None \<and> n = N"
| "wf_op E N (DspUgen x is os k) \<longleftrightarrow> None \<notin> set is \<and> None \<notin> set os \<and>
     length is = nat (obj_nsiginlets (e_object E x)) \<and> length os = nat (obj_nsigoutlets (e_object E x))"
| "wf_op E N (DspBlockProlog b) \<longleftrightarrow> False"
| "wf_op E N (DspBlockEpilog b) \<longleftrightarrow> False"

text \<open>Several signals at one inlet: each is added to the sum of those before it.\<close>

fun sum_sigs :: "'v sem \<Rightarrow> 'v list \<Rightarrow> 'v" where
  "sum_sigs F [] = v_zero F"
| "sum_sigs F [v] = v"
| "sum_sigs F (v # vs) = v_plus F v (sum_sigs F vs)"

subsection \<open>The graph\<close>

abbreviation nin :: "t_ugenbox list \<Rightarrow> nat \<Rightarrow> nat" where "nin G u \<equiv> length (u_in (G ! u))"
abbreviation nout :: "t_ugenbox list \<Rightarrow> nat \<Rightarrow> nat" where "nout G u \<equiv> length (u_out (G ! u))"
abbreviation conns :: "t_ugenbox list \<Rightarrow> nat \<Rightarrow> nat \<Rightarrow> (nat \<times> nat) list" where "conns G u k \<equiv> o_conns (u_out (G ! u) ! k)"
abbreviation inl :: "t_ugenbox list \<Rightarrow> nat \<Rightarrow> nat \<Rightarrow> t_siginlet" where "inl bs v j \<equiv> u_in (bs ! v) ! j"

type_synonym edge = "(nat \<times> nat) \<times> (nat \<times> nat)"

definition edges_from :: "t_ugenbox list \<Rightarrow> nat \<Rightarrow> edge multiset" where
  "edges_from G u = (\<Sum>k<nout G u. image_mset (Pair (u, k)) (mset (conns G u k)))"

definition edges_of :: "t_ugenbox list \<Rightarrow> nat set \<Rightarrow> edge multiset" where
  "edges_of G A = (\<Sum>u\<in>A. edges_from G u)"

definition arriving :: "edge multiset \<Rightarrow> nat \<Rightarrow> nat \<Rightarrow> (nat \<times> nat) multiset" where
  "arriving es v j = image_mset fst (filter_mset (\<lambda>e. snd e = (v, j)) es)"

definition incoming :: "t_ugenbox list \<Rightarrow> nat \<Rightarrow> nat \<Rightarrow> (nat \<times> nat) multiset" where
  "incoming G v j = arriving (edges_of G {..<length G}) v j"

definition graph_ok :: "ugen_env \<Rightarrow> t_ugenbox list \<Rightarrow> bool" where
  "graph_ok E G \<longleftrightarrow>
     (\<forall>u < length G. nin G u = nat (obj_nsiginlets (e_object E (u_obj (G ! u)))) \<and>
        nout G u = nat (obj_nsigoutlets (e_object E (u_obj (G ! u)))) \<and>
        (\<forall>k < nout G u. o_nconnect (u_out (G ! u) ! k) = int (length (conns G u k)) \<and> int (length (conns G u k)) < 2 ^ 31 \<and>
           (\<forall>(v, j) \<in> set (conns G u k). v < length G \<and> j < nin G v)) \<and>
        (\<forall>j < nin G u. i_nconnect (inl G u j) = int (size (incoming G u j)) \<and> int (size (incoming G u j)) < 2 ^ 31))"

definition feeds :: "t_ugenbox list \<Rightarrow> nat \<Rightarrow> nat \<Rightarrow> bool" where
  "feeds G u v \<longleftrightarrow> u < length G \<and> (\<exists>k < nout G u. \<exists>j. (v, j) \<in> set (conns G u k))"

definition same_graph :: "t_ugenbox list \<Rightarrow> t_ugenbox list \<Rightarrow> bool" where
  "same_graph G bs \<longleftrightarrow> length bs = length G \<and> (\<forall>u < length G. u_obj (bs ! u) = u_obj (G ! u) \<and>
     map i_nconnect (u_in (bs ! u)) = map i_nconnect (u_in (G ! u)) \<and>
     map o_nconnect (u_out (bs ! u)) = map o_nconnect (u_out (G ! u)) \<and> map o_conns (u_out (bs ! u)) = map o_conns (u_out (G ! u)))"

lemma edges_of_insert: "finite A \<Longrightarrow> u \<notin> A \<Longrightarrow> edges_of G (insert u A) = edges_from G u + edges_of G A"
  by (simp add: edges_of_def)

lemma edges_of_mono: "A \<subseteq> B \<Longrightarrow> finite B \<Longrightarrow> edges_of G A \<subseteq># edges_of G B"
proof -
  assume "A \<subseteq> B" "finite B"
  then have "edges_of G B = edges_of G (B - A) + edges_of G A" unfolding edges_of_def by (rule sum.subset_diff)
  then show ?thesis by simp
qed

lemma arriving_union [simp]: "arriving (es + fs) v j = arriving es v j + arriving fs v j"
  by (simp add: arriving_def)

lemma arriving_mono: "es \<subseteq># fs \<Longrightarrow> arriving es v j \<subseteq># arriving fs v j"
  unfolding arriving_def by (intro image_mset_subseteq_mono multiset_filter_mono)

lemma arriving_empty [simp]: "arriving {#} v j = {#}"
  by (simp add: arriving_def)

lemma arriving_add [simp]:
  "arriving (add_mset e es) v j = (if snd e = (v, j) then add_mset (fst e) (arriving es v j) else arriving es v j)"
  by (simp add: arriving_def)

lemma in_edges_from: "e \<in># edges_from G u \<longleftrightarrow> (\<exists>k < nout G u. \<exists>t \<in> set (conns G u k). e = ((u, k), t))"
  by (auto simp: edges_from_def set_mset_sum)

lemma in_edges_of: "finite A \<Longrightarrow> e \<in># edges_of G A \<longleftrightarrow> (\<exists>u\<in>A. e \<in># edges_from G u)"
  by (auto simp: edges_of_def set_mset_sum)

subsection \<open>Signals in the steps of scheduling\<close>

lemma count_update:
  assumes "j < length xs"
  shows "count (mset (xs[j := y])) a = count (mset xs) a - (if xs ! j = a then 1 else 0) + (if y = a then 1 else 0)"
  using assms by (simp add: mset_update)

lemma sig_ok_alloc:
  assumes "sig_ok B N R S ref H" "pow2 N" "int c < 2 ^ 31"
  shows "\<exists>g S1. signal_new N R S = (g, S1) \<and> ref g = 0 \<and> g \<notin> H \<and> length (sig_store S) \<le> length (sig_store S1) \<and>
    g < length (sig_store S1) \<and> s_vec (sig_store S1 ! g) = Some (B + g) \<and> s_n (sig_store S1 ! g) = N \<and>
    sig_ok B N R (setsig g ((sig_store S1 ! g)\<lparr>s_refcount := int c\<rparr>) S1) (ref(g := c)) (insert g H)"
proof -
  obtain g S1 where g: "signal_new N R S = (g, S1)" "sig_ok B N R S1 ref (insert g H)" "ref g = 0" "g \<notin> H"
      "g < length (sig_store S1)" "length (sig_store S) \<le> length (sig_store S1)"
    using sig_ok_new [OF assms(1,2)] by blast
  have "getsig g S1 = Inr (sig_store S1 ! g)" using g(5) by (simp add: getsig_def)
  then have "sig_ok B N R (setsig g ((sig_store S1 ! g)\<lparr>s_refcount := int c\<rparr>) S1) (ref(g := c)) (insert g H)"
    using sig_ok_refcount [OF g(2) _ _ assms(3), of g] by (simp add: insert_absorb)
  moreover have "s_vec (sig_store S1 ! g) = Some (B + g)" "s_n (sig_store S1 ! g) = N" using g(2,5) by (auto simp: sig_ok_def)
  ultimately show ?thesis using g by blast
qed

lemma sig_ok_alloc_live:
  assumes "sig_ok B N R S ref {}" "pow2 N"
  shows "\<exists>g S1. signal_new N R S = (g, S1) \<and> ref g = 0 \<and> s_vec (sig_store S1 ! g) = Some (B + g) \<and> s_n (sig_store S1 ! g) = N \<and>
    sig_ok B N R (setsig g ((sig_store S1 ! g)\<lparr>s_refcount := 1\<rparr>) S1) (ref(g := 1)) {}"
proof -
  obtain g S1 where g: "signal_new N R S = (g, S1)" "ref g = 0" "s_vec (sig_store S1 ! g) = Some (B + g)" "s_n (sig_store S1 ! g) = N"
      "sig_ok B N R (setsig g ((sig_store S1 ! g)\<lparr>s_refcount := int 1\<rparr>) S1) (ref(g := 1)) (insert g {})"
    using sig_ok_alloc [OF assms, of 1] by auto
  have "sig_ok B N R (setsig g ((sig_store S1 ! g)\<lparr>s_refcount := 1\<rparr>) S1) (ref(g := 1)) {}"
    using sig_ok_release [OF g(5), of g] by simp
  then show ?thesis using g by blast
qed

lemma sig_ok_drop:
  assumes "sig_ok B N R S ref H" "0 < ref g"
  shows "\<exists>S'. add_refs g (-1) S = Inr S' \<and> sig_ok B N R S' (ref(g := ref g - 1)) (insert g H) \<and>
    length (sig_store S') = length (sig_store S)"
proof -
  have g: "g < length (sig_store S)" using sig_ok_live [OF assms] .
  have "int (ref g) < 2 ^ 31" using assms(1) by (simp add: sig_ok_def)
  then have r: "int (ref g - 1) < 2 ^ 31" "wrap32 (int (ref g) - 1) = int (ref g - 1)" using assms(2) by auto
  let ?x = "\<lparr>s_n = N, s_vec = Some (B + g), s_sr = R, s_refcount = int (ref g), s_isborrowed = False, s_borrowedfrom = None, s_vecsize = N\<rparr>"
  have "sig_ok B N R (setsig g (?x\<lparr>s_refcount := int (ref g - 1)\<rparr>) S) (ref(g := ref g - 1)) (insert g H)"
    by (rule sig_ok_refcount [OF assms(1) _ _ r(1)]) (use assms(2) sig_ok_get [OF assms(1) g] in auto)
  then show ?thesis
    using sig_ok_get [OF assms(1) g] r(2) by (simp add: add_refs_def setsig_def)
qed

lemma sig_ok_free_if_unused:
  assumes "sig_ok B N R S ref H" "g < length (sig_store S)"
  shows "\<exists>S'. free_if_unused g S = Inr S' \<and> sig_ok B N R S' ref (H - {g}) \<and> length (sig_store S') = length (sig_store S)"
proof (cases "ref g = 0")
  case True
  then show ?thesis using sig_ok_makereusable [OF assms(1) True assms(2)] sig_ok_get [OF assms] by (auto simp: free_if_unused_def)
next
  case False
  then show ?thesis using sig_ok_get [OF assms] sig_ok_release [OF assms(1), of g] by (simp add: free_if_unused_def)
qed

text \<open>How often a list of inlets holds a signal.\<close>

definition held :: "t_siginlet list \<Rightarrow> nat \<Rightarrow> nat" where
  "held ins g = count (mset (map i_signal ins)) (Some g)"

lemma held_simps [simp]:
  "held [] g = 0" "held (i # ins) g = (if i_signal i = Some g then 1 else 0) + held ins g"
  by (simp_all add: held_def)

lemma held_update:
  "j < length ins \<Longrightarrow> held (ins[j := i]) g = held ins g - (if i_signal (ins ! j) = Some g then 1 else 0) + (if i_signal i = Some g then 1 else 0)"
  by (simp add: held_def map_update count_update)

lemma held_pos: "0 < held ins g \<longleftrightarrow> (\<exists>j < length ins. i_signal (ins ! j) = Some g)"
  by (auto simp: held_def in_set_conv_nth image_iff) (metis nth_mem)

lemma take_inputs_ok:
  assumes "sig_ok B N R S (\<lambda>g. c g + held ins g) {}" "\<forall>i \<in> set ins. i_signal i \<noteq> None"
  shows "\<exists>S'. take_inputs False ins S = Inr (map (the \<circ> i_signal) ins, S') \<and> sig_ok B N R S' c {} \<and> length (sig_store S') = length (sig_store S)"
  using assms
proof (induction ins arbitrary: S)
  case (Cons i ins)
  obtain g where g: "i_signal i = Some g" using Cons.prems(2) by auto
  let ?ref = "\<lambda>h. c h + held (i # ins) h"
  let ?ref' = "\<lambda>h. c h + held ins h"
  have upd: "?ref(g := ?ref g - 1) = ?ref'" using g by (auto simp: fun_eq_iff)
  obtain S1 where S1: "add_refs g (-1) S = Inr S1" "sig_ok B N R S1 ?ref' {g}" "length (sig_store S1) = length (sig_store S)"
    using sig_ok_drop [OF Cons.prems(1), of g] g unfolding upd by auto
  have gl: "g < length (sig_store S1)" using S1(2) by (auto simp: sig_ok_def)
  obtain S2 where S2: "free_if_unused g S1 = Inr S2" "sig_ok B N R S2 ?ref' {}" "length (sig_store S2) = length (sig_store S1)"
    using sig_ok_free_if_unused [OF S1(2) gl] by auto
  obtain S3 where "take_inputs False ins S2 = Inr (map (the \<circ> i_signal) ins, S3)" "sig_ok B N R S3 c {}" "length (sig_store S3) = length (sig_store S2)"
    using Cons.IH [OF S2(2)] Cons.prems(2) by auto
  then show ?case using g S1 S2 gl by (auto simp: free_if_unused_def getsig_def)
qed simp

definition outs_ref :: "nat list \<Rightarrow> nat list \<Rightarrow> nat \<Rightarrow> nat" where
  "outs_ref gs cs g = (\<Sum>k<length gs. if gs ! k = g then cs ! k else 0)"

lemma outs_ref_Cons: "outs_ref (g # gs) (c # cs) h = (if g = h then c else 0) + outs_ref gs cs h"
  by (simp add: outs_ref_def sum.lessThan_Suc_shift del: sum.lessThan_Suc cong: if_cong)

lemma make_outputs_ok:
  assumes "sig_ok B (dc_vecsize r) (dc_srate r) S ref H" "pow2 (dc_vecsize r)" "map o_nconnect outs = map int cs" "\<forall>c \<in> set cs. int c < 2 ^ 31"
  shows "\<exists>gs S'. make_outputs False r outs S = (gs, map2 (\<lambda>out g. out\<lparr>o_signal := Some g\<rparr>) outs gs, S') \<and> length gs = length outs \<and>
    distinct gs \<and> (\<forall>g \<in> set gs. ref g = 0 \<and> g \<notin> H) \<and> length (sig_store S) \<le> length (sig_store S') \<and>
    sig_ok B (dc_vecsize r) (dc_srate r) S' (\<lambda>g. ref g + outs_ref gs cs g) (H \<union> set gs)"
  using assms
proof (induction outs arbitrary: S ref H cs)
  case Nil
  then show ?case by (simp add: outs_ref_def)
next
  case (Cons out outs)
  obtain c cs' where cs: "cs = c # cs'" "o_nconnect out = int c" "map o_nconnect outs = map int cs'" "int c < 2 ^ 31"
    using Cons.prems(3,4) by (cases cs) auto
  obtain g S1 where g: "signal_new (dc_vecsize r) (dc_srate r) S = (g, S1)" "ref g = 0" "g \<notin> H"
      "length (sig_store S) \<le> length (sig_store S1)"
      "sig_ok B (dc_vecsize r) (dc_srate r) (setsig g ((sig_store S1 ! g)\<lparr>s_refcount := int c\<rparr>) S1) (ref(g := c)) (insert g H)"
    using sig_ok_alloc [OF Cons.prems(1,2) cs(4)] by blast
  let ?S2 = "setsig g ((sig_store S1 ! g)\<lparr>s_refcount := int c\<rparr>) S1"
  obtain gs S' where IH: "make_outputs False r outs ?S2 = (gs, map2 (\<lambda>out g. out\<lparr>o_signal := Some g\<rparr>) outs gs, S')" "length gs = length outs"
      "distinct gs" "\<forall>h \<in> set gs. (ref(g := c)) h = 0 \<and> h \<notin> insert g H" "length (sig_store ?S2) \<le> length (sig_store S')"
      "sig_ok B (dc_vecsize r) (dc_srate r) S' (\<lambda>h. (ref(g := c)) h + outs_ref gs cs' h) (insert g H \<union> set gs)"
    using Cons.IH [OF g(5) Cons.prems(2) cs(3)] Cons.prems(4) cs(1) by auto
  have "(\<lambda>h. (ref(g := c)) h + outs_ref gs cs' h) = (\<lambda>h. ref h + outs_ref (g # gs) cs h)"
    using g(2) by (auto simp: cs(1) outs_ref_Cons fun_eq_iff)
  then have "sig_ok B (dc_vecsize r) (dc_srate r) S' (\<lambda>h. ref h + outs_ref (g # gs) cs h) (H \<union> set (g # gs))"
    using IH(6) by simp
  moreover have "make_outputs False r (out # outs) S = (g # gs, map2 (\<lambda>out g. out\<lparr>o_signal := Some g\<rparr>) (out # outs) (g # gs), S')"
    using g(1) IH(1) cs(2) by simp
  moreover have "\<forall>h \<in> set gs. ref h = 0 \<and> h \<notin> insert g H" using IH(4) by (auto split: if_splits)
  ultimately show ?case
    using g(2-4) IH(2,3,5) by (intro exI [of _ "g # gs"] exI [of _ S']) (auto simp: setsig_def)
qed

lemma free_unused_Cons: "free_unused (g # gs) S = cbind (free_if_unused g S) (free_unused gs)"
  by (cases "getsig g S") (auto simp: free_if_unused_def)

lemma free_unused_ok:
  assumes "sig_ok B N R S ref H" "set gs \<subseteq> {..<length (sig_store S)}"
  shows "\<exists>S'. free_unused gs S = Inr S' \<and> sig_ok B N R S' ref (H - set gs) \<and> length (sig_store S') = length (sig_store S)"
  using assms
proof (induction gs arbitrary: S H)
  case (Cons g gs)
  obtain S1 where S1: "free_if_unused g S = Inr S1" "sig_ok B N R S1 ref (H - {g})" "length (sig_store S1) = length (sig_store S)"
    using sig_ok_free_if_unused [OF Cons.prems(1), of g] Cons.prems(2) by auto
  obtain S' where "free_unused gs S1 = Inr S'" "sig_ok B N R S' ref (H - {g} - set gs)" "length (sig_store S') = length (sig_store S1)"
    using Cons.IH [OF S1(2)] Cons.prems(2) S1(3) by auto
  moreover have "H - {g} - set gs = H - set (g # gs)" by auto
  ultimately show ?case using S1(1,3) by (simp add: free_unused_Cons del: free_unused.simps(2))
qed simp

subsection \<open>Tokens\<close>

text \<open>
  A reference to a signal is a connection from an object that has been called which has not been served, or an inlet
  of an object yet to be called that holds the signal.
\<close>

definition osig :: "t_ugenbox list \<Rightarrow> edge \<Rightarrow> nat option" where
  "osig bs e = o_signal (u_out (bs ! fst (fst e)) ! snd (fst e))"

definition tokens :: "t_ugenbox list \<Rightarrow> edge multiset \<Rightarrow> nat set \<Rightarrow> nat \<Rightarrow> nat" where
  "tokens bs P A g = count (image_mset (osig bs) P) (Some g) + (\<Sum>v\<in>{..<length bs} - A. held (u_in (bs ! v)) g)"

lemma tokens_add: "tokens bs (add_mset e P) A g = tokens bs P A g + (if osig bs e = Some g then 1 else 0)"
  by (simp add: tokens_def)

lemma set_inlet_simps:
  "length (set_inlet v j i bs) = length bs"
  "u_out (set_inlet v j i bs ! w) = u_out (bs ! w)" "u_obj (set_inlet v j i bs ! w) = u_obj (bs ! w)"
  "u_done (set_inlet v j i bs ! w) = u_done (bs ! w)" "osig (set_inlet v j i bs) = osig bs"
proof -
  have out: "u_out (set_inlet v j i bs ! w) = u_out (bs ! w)" for w
    by (cases "v < length bs") (auto simp: set_inlet_def nth_list_update list_update_beyond not_less)
  then show "u_out (set_inlet v j i bs ! w) = u_out (bs ! w)" "osig (set_inlet v j i bs) = osig bs"
    by (auto simp: osig_def)
qed (cases "v < length bs"; auto simp: set_inlet_def nth_list_update list_update_beyond not_less)+

lemma set_inlet_u_in: "v < length bs \<Longrightarrow> u_in (set_inlet v j i bs ! w) = (if w = v then (u_in (bs ! v))[j := i] else u_in (bs ! w))"
  by (auto simp: set_inlet_def)

lemma tokens_set_inlet:
  assumes "v < length bs" "v \<notin> A" "j < nin bs v"
  shows "tokens (set_inlet v j i bs) P A g + (if i_signal (inl bs v j) = Some g then 1 else 0) =
    tokens bs P A g + (if i_signal i = Some g then 1 else 0)"
proof -
  let ?bs = "set_inlet v j i bs" and ?V = "{..<length bs} - A"
  have V: "finite ?V" "v \<in> ?V" using assms by auto
  have one: "(\<Sum>w\<in>?V. held (u_in (b ! w)) g) = held (u_in (b ! v)) g + (\<Sum>w\<in>?V - {v}. held (u_in (b ! w)) g)" for b :: "t_ugenbox list"
    using V by (rule sum.remove)
  have "(\<Sum>w\<in>?V - {v}. held (u_in (?bs ! w)) g) = (\<Sum>w\<in>?V - {v}. held (u_in (bs ! w)) g)"
    by (rule sum.cong) (auto simp: set_inlet_u_in [OF assms(1)])
  moreover have "held (u_in (?bs ! v)) g + (if i_signal (inl bs v j) = Some g then 1 else 0) =
      held (u_in (bs ! v)) g + (if i_signal i = Some g then 1 else 0)"
    using held_pos [of "u_in (bs ! v)" g] assms(3) by (auto simp: set_inlet_u_in [OF assms(1)] held_update [OF assms(3)])
  ultimately show ?thesis by (simp add: tokens_def set_inlet_simps one [of ?bs] one [of bs])
qed

lemma tokens_edge: "e \<in># P \<Longrightarrow> osig bs e = Some g \<Longrightarrow> 0 < tokens bs P A g"
  by (auto simp: tokens_def) (metis image_eqI)

lemma tokens_inlet:
  assumes "v < length bs" "v \<notin> A" "j < nin bs v" "i_signal (inl bs v j) = Some g"
  shows "0 < tokens bs P A g"
proof -
  have "0 < held (u_in (bs ! v)) g" using assms(3,4) held_pos by auto
  moreover have "held (u_in (bs ! v)) g \<le> (\<Sum>w\<in>{..<length bs} - A. held (u_in (bs ! w)) g)"
    using assms(1,2) by (intro member_le_sum) auto
  ultimately show ?thesis by (simp add: tokens_def)
qed

subsection \<open>Plain objects\<close>

text \<open>
  What the sorting needs of the objects: they are neither canvases nor inlets or outlets of one, and their method \<open>dsp\<close> puts
  one call on the chain, on the vectors of its signals.
\<close>

definition vecs :: "dspst \<Rightarrow> nat list \<Rightarrow> nat option list" where
  "vecs st gs = map (\<lambda>g. s_vec (sig_store (sg st) ! g)) gs"

definition scalar_value :: "ugen_env \<Rightarrow> 'v sem \<Rightarrow> nat \<Rightarrow> nat \<Rightarrow> 'v" where
  "scalar_value E F x j = (case obj_findsignalscalar (e_object E x) (int j) of Some c \<Rightarrow> v_scalar F x c | None \<Rightarrow> v_zero F)"

text \<open>
  The invariant. \<open>started\<close> are the objects called so far, \<open>P\<close> the connections from them yet to be served, \<open>arr v j\<close> the outlets
  that have arrived at an inlet, last first, and \<open>val\<close> what the outlets carry.
\<close>

definition ctl :: "t_ugenbox list \<Rightarrow> nat list \<Rightarrow> edge multiset \<Rightarrow> (nat \<Rightarrow> nat \<Rightarrow> (nat \<times> nat) list) \<Rightarrow> t_ugenbox list \<Rightarrow> bool" where
  "ctl G started P arr bs \<longleftrightarrow> same_graph G bs \<and> distinct started \<and> set started \<subseteq> {..<length G} \<and>
     (\<forall>v j. mset (arr v j) + arriving P v j = arriving (edges_of G (set started)) v j) \<and>
     (\<forall>v < length G. v \<notin> set started \<longrightarrow> (\<forall>j < nin G v. i_ngot (inl bs v j) = int (length (arr v j)) \<and>
        (i_signal (inl bs v j) = None \<longleftrightarrow> arr v j = []))) \<and>
     (\<forall>i < length started. \<forall>j < nin G (started ! i). mset (arr (started ! i) j) = incoming G (started ! i) j \<and>
        fst ` set (arr (started ! i) j) \<subseteq> set (take i started)) \<and>
     P \<subseteq># edges_of G (set started) \<and> (\<forall>e. e \<in># P \<longrightarrow> osig bs e \<noteq> None)"

definition invals :: "ugen_env \<Rightarrow> 'v sem \<Rightarrow> t_ugenbox list \<Rightarrow> (nat \<Rightarrow> nat \<Rightarrow> (nat \<times> nat) list) \<Rightarrow> (nat \<times> nat \<Rightarrow> 'v) \<Rightarrow> nat \<Rightarrow> 'v list" where
  "invals E F G arr val u = map (\<lambda>j. if i_nconnect (inl G u j) = 0 then scalar_value E F (u_obj (G ! u)) j
     else sum_sigs F (map val (arr u j))) [0..<nin G u]"

definition vals :: "'v sem \<Rightarrow> t_ugenbox list \<Rightarrow> nat \<Rightarrow> nat list \<Rightarrow> edge multiset \<Rightarrow> (nat \<Rightarrow> nat \<Rightarrow> (nat \<times> nat) list) \<Rightarrow>
    (nat \<times> nat \<Rightarrow> 'v) \<Rightarrow> t_ugenbox list \<Rightarrow> (nat \<Rightarrow> 'v) \<Rightarrow> bool" where
  "vals F G B started P arr val bs m \<longleftrightarrow> (\<forall>e g. e \<in># P \<longrightarrow> osig bs e = Some g \<longrightarrow> m (B + g) = val (fst e)) \<and>
     (\<forall>v j g. v < length G \<longrightarrow> v \<notin> set started \<longrightarrow> j < nin G v \<longrightarrow> i_signal (inl bs v j) = Some g \<longrightarrow>
        m (B + g) = sum_sigs F (map val (arr v j)))"

definition computed :: "ugen_env \<Rightarrow> 'v sem \<Rightarrow> t_ugenbox list \<Rightarrow> nat list \<Rightarrow> (nat \<Rightarrow> nat \<Rightarrow> (nat \<times> nat) list) \<Rightarrow> (nat \<times> nat \<Rightarrow> 'v) \<Rightarrow>
    (nat \<times> 'v list) list \<Rightarrow> bool" where
  "computed E F G started arr val t \<longleftrightarrow> t = map (\<lambda>u. (u_obj (G ! u), invals E F G arr val u)) started \<and>
     (\<forall>u \<in> set started. \<forall>k < nout G u. val (u, k) = perf F (u_obj (G ! u)) (invals E F G arr val u) ! k)"

definition arrived :: "nat \<Rightarrow> nat \<Rightarrow> nat \<times> nat \<Rightarrow> (nat \<Rightarrow> nat \<Rightarrow> (nat \<times> nat) list) \<Rightarrow> nat \<Rightarrow> nat \<Rightarrow> (nat \<times> nat) list" where
  "arrived v j o' arr = arr(v := (arr v)(j := o' # arr v j))"

lemma same_graph_nin: "same_graph G bs \<Longrightarrow> v < length G \<Longrightarrow> nin bs v = nin G v"
  unfolding same_graph_def by (metis length_map)

lemma same_graph_nout: "same_graph G bs \<Longrightarrow> v < length G \<Longrightarrow> nout bs v = nout G v"
  unfolding same_graph_def by (metis length_map)

lemma same_graph_set_inlet:
  assumes "same_graph G bs" "v < length G" "j < nin G v" "i_nconnect i = i_nconnect (inl bs v j)"
  shows "same_graph G (set_inlet v j i bs)"
proof -
  have v: "v < length bs" using assms(1,2) by (simp add: same_graph_def)
  have "map i_nconnect ((u_in (bs ! v))[j := i]) = map i_nconnect (u_in (bs ! v))"
    using assms(4) by (simp add: map_update list_update_same_conv same_graph_nin [OF assms(1,2)] assms(3))
  then show ?thesis
    using assms(1) by (auto simp: same_graph_def set_inlet_simps set_inlet_u_in [OF v])
qed

text \<open>An object that still waits for a connection has not been called.\<close>

lemma ctl_target:
  assumes "ctl G started (add_mset e P) arr bs" "graph_ok E G" "snd e = (v, j)"
  shows "v < length G" "j < nin G v" "v \<notin> set started" "fst (fst e) \<in> set started"
proof -
  have "e \<in># edges_of G (set started)" using assms(1) by (auto simp: ctl_def dest: mset_subset_eqD)
  then obtain u k where e: "u \<in> set started" "k < nout G u" "(v, j) \<in> set (conns G u k)" "fst e = (u, k)"
    using assms(3) by (auto simp: in_edges_of in_edges_from)
  then show "fst (fst e) \<in> set started" by simp
  have u: "u < length G" using e(1) assms(1) by (auto simp: ctl_def)
  then have vj: "\<forall>(v, j) \<in> set (conns G u k). v < length G \<and> j < nin G v" using assms(2) e(2) by (simp add: graph_ok_def)
  then show v: "v < length G" and j: "j < nin G v" using e(3) by auto
  show "v \<notin> set started"
  proof
    assume "v \<in> set started"
    then obtain i where "i < length started" "started ! i = v" by (auto simp: in_set_conv_nth)
    then have full: "mset (arr v j) = incoming G v j" using assms(1) j unfolding ctl_def by metis
    have "arriving (edges_of G (set started)) v j \<subseteq># incoming G v j"
      unfolding incoming_def by (intro arriving_mono edges_of_mono) (use assms(1) in \<open>auto simp: ctl_def\<close>)
    moreover have "mset (arr v j) + arriving (add_mset e P) v j = arriving (edges_of G (set started)) v j"
      using assms(1) by (simp add: ctl_def)
    ultimately have "size (incoming G v j + arriving (add_mset e P) v j) \<le> size (incoming G v j)"
      using size_mset_mono full by metis
    then show False using assms(3) by simp
  qed
qed

lemma ctl_waiting:
  assumes "ctl G started P arr bs" "v < length G" "v \<notin> set started" "j < nin G v"
  shows "i_ngot (inl bs v j) = int (length (arr v j))" "i_signal (inl bs v j) = None \<longleftrightarrow> arr v j = []"
  using assms by (simp_all add: ctl_def)

lemma ctl_room:
  assumes "ctl G started (add_mset e P) arr bs" "graph_ok E G" "snd e = (v, j)"
  shows "int (length (arr v j)) + 1 < 2 ^ 31"
proof -
  note t = ctl_target [OF assms]
  have "mset (arr v j) + arriving (add_mset e P) v j = arriving (edges_of G (set started)) v j"
    using assms(1) by (simp add: ctl_def)
  moreover have "arriving (edges_of G (set started)) v j \<subseteq># incoming G v j"
    unfolding incoming_def by (intro arriving_mono edges_of_mono) (use assms(1) in \<open>auto simp: ctl_def\<close>)
  ultimately have "size (mset (arr v j) + arriving (add_mset e P) v j) \<le> size (incoming G v j)"
    using size_mset_mono by metis
  then have "length (arr v j) + 1 \<le> size (incoming G v j)" using assms(3) by simp
  moreover have "int (size (incoming G v j)) < 2 ^ 31" using assms(2) t(1,2) by (simp add: graph_ok_def)
  ultimately show ?thesis by linarith
qed

lemma ctl_deliver:
  assumes "ctl G started (add_mset e P) arr bs" "graph_ok E G" "snd e = (v, j)"
    "i = (inl bs v j)\<lparr>i_signal := Some g, i_ngot := wrap32 (i_ngot (inl bs v j) + 1)\<rparr>"
  shows "ctl G started P (arrived v j (fst e) arr) (set_inlet v j i bs)"
proof -
  note t = ctl_target [OF assms(1-3)]
  have sg: "same_graph G bs" using assms(1) by (simp add: ctl_def)
  have v: "v < length bs" "nin bs v = nin G v" using sg t(1) same_graph_nin by (auto simp: same_graph_def)
  have ng: "i_ngot i = int (Suc (length (arr v j)))"
    using assms(1,4) t ctl_room [OF assms(1-3)] by (simp add: ctl_def add.commute)
  have arrive: "mset (arrived v j (fst e) arr w l) + arriving P w l = arriving (edges_of G (set started)) w l" for w l
  proof -
    have "mset (arr w l) + arriving (add_mset e P) w l = arriving (edges_of G (set started)) w l"
      using assms(1) by (simp add: ctl_def)
    then show ?thesis using assms(3) by (auto simp: arrived_def split: if_splits)
  qed
  have wait: "i_ngot (inl (set_inlet v j i bs) w l) = int (length (arrived v j (fst e) arr w l)) \<and>
      (i_signal (inl (set_inlet v j i bs) w l) = None \<longleftrightarrow> arrived v j (fst e) arr w l = [])"
    if w: "w < length G" "w \<notin> set started" "l < nin G w" for w l
  proof (cases "w = v \<and> l = j")
    case True
    then show ?thesis using ng assms(4) v t(2) by (simp add: arrived_def set_inlet_u_in)
  next
    case False
    then have "inl (set_inlet v j i bs) w l = inl bs w l" using v by (auto simp: set_inlet_u_in)
    moreover have "arrived v j (fst e) arr w l = arr w l" using False by (auto simp: arrived_def)
    ultimately show ?thesis using assms(1) w by (simp add: ctl_def)
  qed
  have old: "arrived v j (fst e) arr w = arr w" if "w \<in> set started" for w using that t(3) by (auto simp: arrived_def)
  have fin: "mset (arrived v j (fst e) arr (started ! n) l) = incoming G (started ! n) l \<and>
      fst ` set (arrived v j (fst e) arr (started ! n) l) \<subseteq> set (take n started)" if "n < length started" "l < nin G (started ! n)" for n l
    using that assms(1) by (simp add: old ctl_def)
  have "same_graph G (set_inlet v j i bs)" using same_graph_set_inlet [OF sg t(1,2), of i] assms(4) by simp
  moreover have "P \<subseteq># edges_of G (set started)" using assms(1) by (auto simp: ctl_def dest: mset_subset_eq_insertD subset_mset.less_imp_le)
  ultimately show ?thesis
    using arrive wait fin assms(1) unfolding ctl_def set_inlet_simps by simp
qed

lemma vals_deliver:
  assumes "vals F G B started (add_mset e P) arr val bs m" "same_graph G bs" "v < length G" "j < nin G v"
    "\<forall>h. 0 < tokens bs P (set started) h \<longrightarrow> m' (B + h) = m (B + h)"
    "i_signal i = Some g" "m' (B + g) = sum_sigs F (map val (fst e # arr v j))"
  shows "vals F G B started P (arrived v j (fst e) arr) val (set_inlet v j i bs) m'"
proof -
  have v: "v < length bs" "nin bs v = nin G v" "length bs = length G"
    using assms(2,3) same_graph_nin by (auto simp: same_graph_def)
  have "m' (B + h) = val (fst d)" if "d \<in># P" "osig bs d = Some h" for d h
  proof -
    have "d \<in># add_mset e P" using that(1) by simp
    then have "m (B + h) = val (fst d)" using assms(1) that(2) unfolding vals_def by blast
    then show ?thesis using assms(5) tokens_edge [OF that] by simp
  qed
  moreover have "m' (B + h) = sum_sigs F (map val (arrived v j (fst e) arr w l))"
    if w: "w < length G" "w \<notin> set started" "l < nin G w" "i_signal (inl (set_inlet v j i bs) w l) = Some h" for w l h
  proof (cases "w = v \<and> l = j")
    case True
    then show ?thesis using w(4) assms(4,6,7) v by (simp add: set_inlet_u_in arrived_def)
  next
    case False
    then have same: "inl (set_inlet v j i bs) w l = inl bs w l" "arrived v j (fst e) arr w l = arr w l"
      using v by (auto simp: set_inlet_u_in arrived_def)
    have "0 < tokens bs P (set started) h"
      using tokens_inlet [of w bs "set started" l h P] w v(3) same(1) same_graph_nin [OF assms(2) w(1)] by simp
    then show ?thesis using assms(1,5) w same by (simp add: vals_def)
  qed
  ultimately show ?thesis by (simp add: vals_def set_inlet_simps)
qed

lemma computed_deliver:
  assumes "computed E F G started arr val t" "v \<notin> set started"
  shows "computed E F G started (arrived v j d arr) val t"
proof -
  have "invals E F G (arrived v j d arr) val u = invals E F G arr val u" if "u \<in> set started" for u
    using that assms(2) by (auto simp: invals_def arrived_def)
  then show ?thesis using assms(1) by (simp add: computed_def cong: map_cong)
qed

text \<open>An object is called: from \<open>bs\<close> to \<open>bs'\<close> its outlets get the signals \<open>gs\<close>.\<close>

definition box_started :: "nat \<Rightarrow> nat list \<Rightarrow> t_ugenbox list \<Rightarrow> t_ugenbox list \<Rightarrow> bool" where
  "box_started u gs bs bs' \<longleftrightarrow> length bs' = length bs \<and> (\<forall>w. w \<noteq> u \<longrightarrow> bs' ! w = bs ! w) \<and> u_obj (bs' ! u) = u_obj (bs ! u) \<and>
     u_done (bs' ! u) = u_done (bs ! u) \<and> map i_nconnect (u_in (bs' ! u)) = map i_nconnect (u_in (bs ! u)) \<and>
     length gs = nout bs u \<and> u_out (bs' ! u) = map2 (\<lambda>out g. out\<lparr>o_signal := Some g\<rparr>) (u_out (bs ! u)) gs"

lemma arrivals_started: "mset xs \<subseteq># arriving (edges_of G A) v j \<Longrightarrow> finite A \<Longrightarrow> fst ` set xs \<subseteq> A"
proof
  fix w assume sub: "mset xs \<subseteq># arriving (edges_of G A) v j" "finite A" and "w \<in> fst ` set xs"
  then obtain d where "d \<in># arriving (edges_of G A) v j" "fst d = w" by (auto dest: mset_subset_eqD)
  then show "w \<in> A" using sub(2) by (auto simp: arriving_def in_edges_of in_edges_from)
qed

lemma full_arrivals:
  assumes "ctl G started P arr bs" "graph_ok E G" "u < length G" "u \<notin> set started" "j < nin G u"
    "i_ngot (inl bs u j) = i_nconnect (inl G u j)"
  shows "mset (arr u j) = incoming G u j" "fst ` set (arr u j) \<subseteq> set started"
proof -
  have "length (arr u j) = size (incoming G u j)"
    using ctl_waiting(1) [OF assms(1,3,4,5)] assms(2,3,5,6) by (simp add: graph_ok_def)
  moreover have sub: "mset (arr u j) \<subseteq># arriving (edges_of G (set started)) u j"
    using assms(1) unfolding ctl_def by (metis mset_subset_eq_add_left)
  moreover have "arriving (edges_of G (set started)) u j \<subseteq># incoming G u j"
    unfolding incoming_def by (intro arriving_mono edges_of_mono) (use assms(1) in \<open>auto simp: ctl_def\<close>)
  ultimately show "mset (arr u j) = incoming G u j"
    by (metis mset_subset_size size_mset subset_mset.less_le_trans subset_mset.not_eq_order_implies_strict less_irrefl subset_mset.order_trans)
  show "fst ` set (arr u j) \<subseteq> set started" using sub arrivals_started by blast
qed

lemma same_graph_started:
  assumes "same_graph G bs" "box_started u gs bs bs'"
  shows "same_graph G bs'"
proof -
  have outs: "map o_nconnect (u_out (bs' ! u)) = map o_nconnect (u_out (bs ! u))" "map o_conns (u_out (bs' ! u)) = map o_conns (u_out (bs ! u))"
    using assms(2) by (auto simp: box_started_def intro!: nth_equalityI)
  show ?thesis
  proof (unfold same_graph_def, intro conjI allI impI)
    fix w assume "w < length G"
    then show "u_obj (bs' ! w) = u_obj (G ! w)" "map i_nconnect (u_in (bs' ! w)) = map i_nconnect (u_in (G ! w))"
      "map o_nconnect (u_out (bs' ! w)) = map o_nconnect (u_out (G ! w))" "map o_conns (u_out (bs' ! w)) = map o_conns (u_out (G ! w))"
      using assms outs by (cases "w = u"; auto simp: same_graph_def box_started_def)+
  qed (use assms in \<open>auto simp: same_graph_def box_started_def\<close>)
qed

lemma osig_started:
  assumes "box_started u gs bs bs'"
  shows "fst (fst e) \<noteq> u \<Longrightarrow> osig bs' e = osig bs e" "fst e = (u, k) \<Longrightarrow> k < nout bs u \<Longrightarrow> osig bs' e = Some (gs ! k)"
  using assms by (auto simp: osig_def box_started_def)

lemma ctl_start:
  assumes "ctl G started P arr bs" "graph_ok E G" "u < length G" "u \<notin> set started"
    "\<forall>j < nin G u. i_ngot (inl bs u j) = i_nconnect (inl G u j)" "box_started u gs bs bs'"
  shows "ctl G (started @ [u]) (P + edges_from G u) arr bs'"
proof -
  have sg: "same_graph G bs" and P: "P \<subseteq># edges_of G (set started)" using assms(1) by (simp_all add: ctl_def)
  have es: "edges_of G (set (started @ [u])) = edges_from G u + edges_of G (set started)"
    using edges_of_insert [of "set started" u G] assms(4) by simp
  have arrive: "mset (arr v j) + arriving (P + edges_from G u) v j = arriving (edges_of G (set (started @ [u]))) v j" for v j
  proof -
    have "mset (arr v j) + arriving P v j = arriving (edges_of G (set started)) v j" using assms(1) by (simp add: ctl_def)
    then show ?thesis unfolding es arriving_union by (metis add.assoc add.commute)
  qed
  have wait: "i_ngot (inl bs' v j) = int (length (arr v j)) \<and> (i_signal (inl bs' v j) = None \<longleftrightarrow> arr v j = [])"
    if "v < length G" "v \<notin> set (started @ [u])" "j < nin G v" for v j
  proof -
    have "bs' ! v = bs ! v" using that(2) assms(6) by (auto simp: box_started_def)
    then show ?thesis using ctl_waiting [OF assms(1), of v j] that by simp
  qed
  have fin: "mset (arr ((started @ [u]) ! i) j) = incoming G ((started @ [u]) ! i) j \<and>
      fst ` set (arr ((started @ [u]) ! i) j) \<subseteq> set (take i (started @ [u]))"
    if "i < length (started @ [u])" "j < nin G ((started @ [u]) ! i)" for i j
  proof (cases "i < length started")
    case True
    then show ?thesis using that assms(1) by (simp add: ctl_def nth_append)
  next
    case False
    then have "i = length started" using that(1) by simp
    then show ?thesis using that full_arrivals [OF assms(1-4), of j] assms(5) by (simp add: nth_append)
  qed
  have "osig bs' e \<noteq> None" if e: "e \<in># P + edges_from G u" for e
  proof (cases "e \<in># P")
    case True
    then have "e \<in># edges_of G (set started)" using P by (rule mset_subset_eqD [rotated])
    then have "fst (fst e) \<in> set started" by (auto simp: in_edges_of in_edges_from)
    then have "fst (fst e) \<noteq> u" using assms(4) by auto
    then have "osig bs' e = osig bs e" using osig_started(1) [OF assms(6)] by blast
    then show ?thesis using assms(1) True unfolding ctl_def by metis
  next
    case False
    then obtain k where "fst e = (u, k)" "k < nout G u" using e by (auto simp: in_edges_from)
    then show ?thesis using osig_started(2) [OF assms(6)] same_graph_nout [OF sg assms(3)] by simp
  qed
  moreover have "P + edges_from G u \<subseteq># edges_of G (set (started @ [u]))" using P unfolding es by (simp add: add.commute)
  ultimately show ?thesis
    using arrive wait fin assms(1,3,4) same_graph_started [OF sg assms(6)] unfolding ctl_def by auto
qed

lemma tokens_split: "u < length bs \<Longrightarrow> u \<notin> A \<Longrightarrow> tokens bs P A g = tokens bs P (insert u A) g + held (u_in (bs ! u)) g"
proof -
  assume u: "u < length bs" "u \<notin> A"
  have "{..<length bs} - insert u A = ({..<length bs} - A) - {u}" by auto
  moreover have "(\<Sum>v\<in>{..<length bs} - A. held (u_in (bs ! v)) g) =
      held (u_in (bs ! u)) g + (\<Sum>v\<in>({..<length bs} - A) - {u}. held (u_in (bs ! v)) g)"
    using u by (intro sum.remove) auto
  ultimately show ?thesis by (simp add: tokens_def)
qed

lemma image_mset_sum: "finite A \<Longrightarrow> image_mset f (\<Sum>x\<in>A. g x) = (\<Sum>x\<in>A. image_mset f (g x))"
  by (induction rule: finite_induct) simp_all

lemma count_edges_from:
  assumes "\<forall>k < nout G u. \<forall>t. f ((u, k), t) = Some (gs ! k)" "length gs = nout G u"
  shows "count (image_mset f (edges_from G u)) (Some g) = outs_ref gs (map (length \<circ> o_conns) (u_out (G ! u))) g"
proof -
  have one: "count (image_mset f (image_mset (Pair (u, k)) (mset (conns G u k)))) (Some g) =
      (if gs ! k = g then length (conns G u k) else 0)" if "k < nout G u" for k
  proof -
    have "image_mset f (image_mset (Pair (u, k)) (mset (conns G u k))) = replicate_mset (length (conns G u k)) (Some (gs ! k))"
    proof -
      have "image_mset f (image_mset (Pair (u, k)) (mset cs)) = replicate_mset (length cs) (Some (gs ! k))" for cs
        using assms(1) that by (induction cs) auto
      then show ?thesis .
    qed
    then show ?thesis by (simp add: count_replicate_mset)
  qed
  have "count (image_mset f (edges_from G u)) (Some g) =
      (\<Sum>k<nout G u. count (image_mset f (image_mset (Pair (u, k)) (mset (conns G u k)))) (Some g))"
    by (simp add: edges_from_def image_mset_sum count_sum)
  also have "\<dots> = outs_ref gs (map (length \<circ> o_conns) (u_out (G ! u))) g"
    unfolding outs_ref_def assms(2) by (rule sum.cong) (auto simp: one)
  finally show ?thesis .
qed

lemma tokens_start:
  assumes "box_started u gs bs bs'" "same_graph G bs" "u < length G" "u \<notin> A" "finite A" "P \<subseteq># edges_of G A"
  shows "tokens bs' (P + edges_from G u) (insert u A) g =
    tokens bs P (insert u A) g + outs_ref gs (map (length \<circ> o_conns) (u_out (G ! u))) g"
proof -
  have "osig bs' e = osig bs e" if "e \<in># P" for e
  proof -
    have "e \<in># edges_of G A" using assms(6) that by (rule mset_subset_eqD)
    then have "fst (fst e) \<in> A" using assms(5) by (auto simp: in_edges_of in_edges_from)
    then show ?thesis using osig_started(1) [OF assms(1)] assms(4) by metis
  qed
  then have old: "image_mset (osig bs') P = image_mset (osig bs) P" by (rule image_mset_cong)
  have "\<forall>k < nout G u. \<forall>t. osig bs' ((u, k), t) = Some (gs ! k)" "length gs = nout G u"
    using osig_started(2) [OF assms(1)] same_graph_nout [OF assms(2,3)] assms(1) by (auto simp: box_started_def)
  note new = count_edges_from [OF this]
  have "(\<Sum>v\<in>{..<length bs'} - insert u A. held (u_in (bs' ! v)) g) = (\<Sum>v\<in>{..<length bs} - insert u A. held (u_in (bs ! v)) g)"
    using assms(1) by (intro sum.cong) (auto simp: box_started_def)
  then show ?thesis by (simp add: tokens_def old new)
qed

lemma vals_unchanged:
  assumes "fst ` set xs \<subseteq> A" "u \<notin> A" "\<forall>w k. w \<noteq> u \<longrightarrow> val' (w, k) = val (w, k)"
  shows "map val' xs = map val xs"
proof (rule map_cong)
  fix d assume "d \<in> set xs"
  then have "fst d \<noteq> u" using assms(1,2) by auto
  then show "val' d = val d" using assms(3) by (metis prod.collapse)
qed simp

lemma vals_start:
  assumes "vals F G B started P arr val bs m" "ctl G started P arr bs" "u < length G" "u \<notin> set started" "box_started u gs bs bs'"
    "\<forall>h. 0 < tokens bs P (insert u (set started)) h \<longrightarrow> m' (B + h) = m (B + h)"
    "\<forall>k < nout G u. m' (B + gs ! k) = val' (u, k)" "\<forall>w k. w \<noteq> u \<longrightarrow> val' (w, k) = val (w, k)"
  shows "vals F G B (started @ [u]) (P + edges_from G u) arr val' bs' m'"
proof -
  have sg: "same_graph G bs" and P: "P \<subseteq># edges_of G (set started)" using assms(2) by (simp_all add: ctl_def)
  have "m' (B + g) = val' (fst e)" if e: "e \<in># P + edges_from G u" "osig bs' e = Some g" for e g
  proof (cases "e \<in># P")
    case True
    have "e \<in># edges_of G (set started)" using P True by (rule mset_subset_eqD)
    then have ne: "fst (fst e) \<noteq> u" using assms(4) by (auto simp: in_edges_of in_edges_from)
    then have "osig bs e = Some g" using osig_started(1) [OF assms(5)] e(2) by metis
    then have "m' (B + g) = m (B + g)" "m (B + g) = val (fst e)"
      using assms(1,6) tokens_edge [OF True] True unfolding vals_def by blast+
    then show ?thesis using assms(8) ne by (metis prod.collapse)
  next
    case False
    then obtain k t where "e = ((u, k), t)" "k < nout G u" using e(1) by (auto simp: in_edges_from)
    then show ?thesis using assms(7) e(2) osig_started(2) [OF assms(5), of e k] same_graph_nout [OF sg assms(3)] by simp
  qed
  moreover have "m' (B + g) = sum_sigs F (map val' (arr v j))"
    if v: "v < length G" "v \<notin> set (started @ [u])" "j < nin G v" "i_signal (inl bs' v j) = Some g" for v j g
  proof -
    have "bs' ! v = bs ! v" using v(2) assms(5) by (auto simp: box_started_def)
    then have s: "i_signal (inl bs v j) = Some g" using v(4) by simp
    have "0 < tokens bs P (insert u (set started)) g"
      using tokens_inlet [of v bs "insert u (set started)" j g P] v s sg same_graph_nin [OF sg v(1)] by (auto simp: same_graph_def)
    then have "m' (B + g) = sum_sigs F (map val (arr v j))" using assms(1,6) v s by (simp add: vals_def)
    moreover have "mset (arr v j) \<subseteq># arriving (edges_of G (set started)) v j"
      using assms(2) unfolding ctl_def by (metis mset_subset_eq_add_left)
    then have "fst ` set (arr v j) \<subseteq> set started" by (rule arrivals_started) simp
    then have "map val' (arr v j) = map val (arr v j)" using assms(4,8) by (intro vals_unchanged)
    ultimately show ?thesis by (simp only:)
  qed
  ultimately show ?thesis unfolding vals_def by blast
qed

lemma computed_start:
  assumes "computed E F G started arr val t" "ctl G started P arr bs" "u \<notin> set started"
    "\<forall>j < nin G u. fst ` set (arr u j) \<subseteq> set started" "\<forall>w k. w \<noteq> u \<longrightarrow> val' (w, k) = val (w, k)"
    "\<forall>k < nout G u. val' (u, k) = perf F (u_obj (G ! u)) (invals E F G arr val u) ! k"
  shows "computed E F G (started @ [u]) arr val' (t @ [(u_obj (G ! u), invals E F G arr val u)])"
proof -
  have same: "invals E F G arr val' w = invals E F G arr val w" if "\<forall>j < nin G w. fst ` set (arr w j) \<subseteq> set started" for w
  proof -
    have "map val' (arr w j) = map val (arr w j)" if "j < nin G w" for j
      using \<open>\<forall>j < nin G w. fst ` set (arr w j) \<subseteq> set started\<close> that assms(3,5) by (intro vals_unchanged) auto
    then show ?thesis unfolding invals_def by (intro map_cong refl) (auto simp del: map_eq_conv)
  qed
  have "fst ` set (arr w j) \<subseteq> set started" if w: "w \<in> set started" "j < nin G w" for w j
  proof -
    obtain i where "i < length started" "started ! i = w" using w(1) by (auto simp: in_set_conv_nth)
    then have "fst ` set (arr w j) \<subseteq> set (take i started)" using assms(2) w(2) unfolding ctl_def by metis
    then show ?thesis using set_take_subset by fastforce
  qed
  then have "invals E F G arr val' w = invals E F G arr val w" if "w \<in> set (started @ [u])" for w
    using same assms(4) that by auto
  moreover have "val' (w, k) = val (w, k)" if "w \<in> set started" for w k using that assms(3,5) by metis
  ultimately show ?thesis using assms(1,6) by (auto simp: computed_def)
qed

locale plain_objects =
  fixes E :: ugen_env and r :: rates and width :: "nat \<Rightarrow> nat" and F :: "'v sem"
  assumes plain: "e_class E x \<notin> {CanvasC, VinletC, VoutletC}"
    and dsp: "length ins = nat (obj_nsiginlets (e_object E x)) \<Longrightarrow> length outs = nat (obj_nsigoutlets (e_object E x)) \<Longrightarrow>
      set (ins @ outs) \<subseteq> {..<length (sig_store (sg st))} \<Longrightarrow>
      e_dsp E x (ins @ outs) st = Inr (st\<lparr>chain := chain st @ [DspUgen x (vecs st ins) (vecs st outs) (width x)]\<rparr>)"
    and perf_length: "length (perf F x vs) = nat (obj_nsigoutlets (e_object E x))"
    and vecsize: "pow2 (dc_vecsize r)"
    and srate: "dc_srate r \<noteq> NaN"
begin

abbreviation N :: int where "N \<equiv> dc_vecsize r"
abbreviation R :: fl where "R \<equiv> dc_srate r"

lemma fill_ok:
  assumes "sig_ok B N R (sg st) (\<lambda>g. c g + held (u_in (bs ! u)) g) {}"
    "u < length bs" "distinct is" "set is \<subseteq> {..<nin bs u}" "\<forall>i \<in> set is. i_nconnect (inl bs u i) = 0 \<longrightarrow> i_signal (inl bs u i) = None"
    "exec_chain F (chain st) m0 = (m, t)" "x = u_obj (bs ! u)"
  shows "\<exists>ins st' m'. fill_unconnected E r u is (bs, st) = (bs[u := (bs ! u)\<lparr>u_in := ins\<rparr>], st') \<and> length ins = nin bs u \<and>
    (\<forall>i < nin bs u. if i \<in> set is \<and> i_nconnect (inl bs u i) = 0
       then \<exists>g. ins ! i = (inl bs u i)\<lparr>i_signal := Some g\<rparr> \<and> m' (B + g) = scalar_value E F x i else ins ! i = inl bs u i) \<and>
    sig_ok B N R (sg st') (\<lambda>g. c g + held ins g) {} \<and>
    exec_chain F (chain st') m0 = (m', t) \<and>
    (\<forall>g. 0 < c g + held (u_in (bs ! u)) g \<longrightarrow> m' (B + g) = m (B + g)) \<and>
    (list_all (wf_op E N) (chain st) \<longrightarrow> list_all (wf_op E N) (chain st'))"
  using assms
proof (induction "is" arbitrary: bs st m)
  case Nil
  have "bs[u := (bs ! u)\<lparr>u_in := u_in (bs ! u)\<rparr>] = bs" by simp
  with Nil show ?case by (intro exI [of _ "u_in (bs ! u)"] exI [of _ st] exI [of _ m]) simp
next
  case (Cons i "is")
  let ?ins = "u_in (bs ! u)" and ?ref = "\<lambda>g. c g + held (u_in (bs ! u)) g"
  have i: "i < length ?ins" using Cons.prems(4) by simp
  show ?case
  proof (cases "i_nconnect (inl bs u i) = 0")
    case False
    then have same: "k \<in> set (i # is) \<and> i_nconnect (inl bs u k) = 0 \<longleftrightarrow> k \<in> set is \<and> i_nconnect (inl bs u k) = 0" for k by auto
    have step: "fill_unconnected E r u (i # is) (bs, st) = fill_unconnected E r u is (bs, st)" using False by simp
    show ?thesis unfolding step same by (rule Cons.IH) (use Cons.prems in auto)
  next
    case True
    then have none: "i_signal (?ins ! i) = None" using Cons.prems(5) by simp
    obtain g S1 where g: "signal_new N R (sg st) = (g, S1)" "?ref g = 0" "s_vec (sig_store S1 ! g) = Some (B + g)" "s_n (sig_store S1 ! g) = N"
        "sig_ok B N R (setsig g ((sig_store S1 ! g)\<lparr>s_refcount := 1\<rparr>) S1) (?ref(g := 1)) {}"
      using sig_ok_alloc_live [OF Cons.prems(1) vecsize] by (elim exE conjE) (rule that)
    define op where "op = (case obj_findsignalscalar (e_object E x) (int i) of
        Some c \<Rightarrow> DspScalarcopy x c (Some (B + g)) N | None \<Rightarrow> DspZero (Some (B + g)) N)"
    let ?bs = "set_inlet u i ((?ins ! i)\<lparr>i_signal := Some g\<rparr>) bs"
    let ?st = "st\<lparr>sg := setsig g ((sig_store S1 ! g)\<lparr>s_refcount := 1\<rparr>) S1, chain := chain st @ [op]\<rparr>"
    have step: "fill_unconnected E r u (i # is) (bs, st) = fill_unconnected E r u is (?bs, ?st)"
      using True g(1,3,4) Cons.prems(7) by (simp add: op_def Let_def split: option.splits)
    let ?ins1 = "?ins[i := (?ins ! i)\<lparr>i_signal := Some g\<rparr>]"
    have ins1: "u_in (?bs ! u) = ?ins1" "u_obj (?bs ! u) = x" using Cons.prems(2,7) by (simp_all add: set_inlet_def)
    have cnt: "c h + held ?ins1 h = (?ref(g := 1)) h" for h
      using g(2) none i by (simp add: held_update)
    have f1: "sig_ok B N R (sg ?st) (\<lambda>g. c g + held (u_in (?bs ! u)) g) {}"
    proof -
      have "(\<lambda>h. c h + held ?ins1 h) = ?ref(g := 1)" by (rule ext) (rule cnt)
      moreover have "sg ?st = setsig g ((sig_store S1 ! g)\<lparr>s_refcount := 1\<rparr>) S1" by simp
      ultimately show ?thesis using g(5) by (simp only: ins1)
    qed
    have f2: "exec_chain F (chain ?st) m0 = (m(B + g := scalar_value E F x i), t)"
      using Cons.prems(6) by (simp add: exec_chain_snoc op_def scalar_value_def split: option.splits)
    have f3: "distinct is" "set is \<subseteq> {..<nin ?bs u}" "u < length ?bs"
      using Cons.prems(2-4) ins1 by (auto simp: set_inlet_def)
    have f4: "\<forall>k \<in> set is. i_nconnect (inl ?bs u k) = 0 \<longrightarrow> i_signal (inl ?bs u k) = None"
    proof -
      have "?ins1 ! k = ?ins ! k" if "k \<in> set is" for k using that Cons.prems(3) by (metis distinct.simps(2) nth_list_update_neq)
      then show ?thesis using Cons.prems(5) by (simp add: ins1(1))
    qed
    obtain ins st' m' where IH: "fill_unconnected E r u is (?bs, ?st) = (?bs[u := (?bs ! u)\<lparr>u_in := ins\<rparr>], st')"
        "length ins = nin ?bs u"
        "\<forall>k < nin ?bs u. if k \<in> set is \<and> i_nconnect (inl ?bs u k) = 0
          then \<exists>g. ins ! k = (inl ?bs u k)\<lparr>i_signal := Some g\<rparr> \<and> m' (B + g) = scalar_value E F x k else ins ! k = inl ?bs u k"
        "sig_ok B N R (sg st') (\<lambda>g. c g + held ins g) {}" "exec_chain F (chain st') m0 = (m', t)"
        "\<forall>h. 0 < c h + held (u_in (?bs ! u)) h \<longrightarrow> m' (B + h) = (m(B + g := scalar_value E F x i)) (B + h)"
        "list_all (wf_op E N) (chain ?st) \<longrightarrow> list_all (wf_op E N) (chain st')"
      using Cons.IH [OF f1 f3(3,1,2) f4 f2 ins1(2) [symmetric]] by (elim exE conjE) (rule that)
    have wf: "list_all (wf_op E N) (chain st) \<longrightarrow> list_all (wf_op E N) (chain st')"
      using IH(7) by (auto simp: op_def split: option.splits)
    have "0 < (?ref(g := 1)) h \<Longrightarrow> m' (B + h) = (m(B + g := scalar_value E F x i)) (B + h)" for h
      using IH(6) unfolding ins1 cnt by blast
    from this [of g] this have live: "m' (B + g) = scalar_value E F x i" "\<forall>h. 0 < ?ref h \<longrightarrow> m' (B + h) = m (B + h)"
      using g(2) by (auto split: if_splits)
    have "\<forall>k < nin bs u. if k \<in> set (i # is) \<and> i_nconnect (inl bs u k) = 0
          then \<exists>g. ins ! k = (inl bs u k)\<lparr>i_signal := Some g\<rparr> \<and> m' (B + g) = scalar_value E F x k else ins ! k = inl bs u k"
    proof (intro allI impI)
      fix k assume k: "k < nin bs u"
      show "if k \<in> set (i # is) \<and> i_nconnect (inl bs u k) = 0
          then \<exists>g. ins ! k = (inl bs u k)\<lparr>i_signal := Some g\<rparr> \<and> m' (B + g) = scalar_value E F x k else ins ! k = inl bs u k"
        using IH(3) [rule_format, of k] k True Cons.prems(3) live(1) by (cases "k = i") (auto simp: ins1(1))
    qed
    moreover have "?bs[u := (?bs ! u)\<lparr>u_in := ins\<rparr>] = bs[u := (bs ! u)\<lparr>u_in := ins\<rparr>]"
      using Cons.prems(2) by (simp add: set_inlet_def)
    ultimately show ?thesis
      using step IH(1,2,4,5) live(2) ins1(1) wf by (intro exI [of _ ins] exI [of _ st'] exI [of _ m']) simp
  qed
qed

definition inv :: "t_ugenbox list \<Rightarrow> (nat \<Rightarrow> 'v) \<Rightarrow> nat \<Rightarrow> nat list \<Rightarrow> edge multiset \<Rightarrow> (nat \<Rightarrow> nat \<Rightarrow> (nat \<times> nat) list) \<Rightarrow>
    (nat \<times> nat \<Rightarrow> 'v) \<Rightarrow> graph_st \<Rightarrow> bool" where
  "inv G m0 B started P arr val p \<longleftrightarrow> ctl G started P arr (fst p) \<and> sig_ok B N R (sg (snd p)) (tokens (fst p) P (set started)) {} \<and>
     vals F G B started P arr val (fst p) (fst (exec_chain F (chain (snd p)) m0)) \<and>
     computed E F G started arr val (snd (exec_chain F (chain (snd p)) m0)) \<and> list_all (wf_op E N) (chain (snd p))"

lemma deliver_first:
  assumes "inv G m0 B started (add_mset e P) arr val (bs, st)" "graph_ok E G" "snd e = (v, j)" "osig bs e = Some s1"
    "i_signal (inl bs v j) = None" "i = (inl bs v j)\<lparr>i_signal := Some s1, i_ngot := wrap32 (i_ngot (inl bs v j) + 1)\<rparr>"
  shows "deliver s1 v j (bs, st) = Inr (True, set_inlet v j i bs, st) \<and>
    inv G m0 B started P (arrived v j (fst e) arr) val (set_inlet v j i bs, st)"
proof -
  have c: "ctl G started (add_mset e P) arr bs" using assms(1) by (simp add: inv_def)
  note t = ctl_target [OF c assms(2,3)]
  have v: "same_graph G bs" "v < length bs" "nin bs v = nin G v" using c t(1) same_graph_nin by (auto simp: ctl_def same_graph_def)
  let ?bs = "set_inlet v j i bs"
  have "tokens ?bs P (set started) g = tokens bs (add_mset e P) (set started) g" for g
    using tokens_set_inlet [OF v(2) t(3), of j i P g] v(3) t(2) assms(4-6) by (simp add: tokens_add)
  then have tok: "tokens ?bs P (set started) = tokens bs (add_mset e P) (set started)" by (rule ext)
  have "arr v j = []" using c t assms(5) by (simp add: ctl_def)
  moreover have "fst (exec_chain F (chain st) m0) (B + s1) = val (fst e)"
    using assms(1,4) by (auto simp: inv_def vals_def simp del: split_paired_All)
  ultimately have "vals F G B started P (arrived v j (fst e) arr) val ?bs (fst (exec_chain F (chain st) m0))"
    using assms(1,6) v t by (intro vals_deliver [where g = s1]) (auto simp: inv_def)
  moreover have "computed E F G started (arrived v j (fst e) arr) val (snd (exec_chain F (chain st) m0))"
    by (rule computed_deliver [OF _ t(3)]) (use assms(1) in \<open>simp add: inv_def\<close>)
  ultimately show ?thesis
    using assms(1) ctl_deliver [OF c assms(2,3,6)] tok v t(2) assms(5,6)
    by (simp add: inv_def deliver_def inlet_at_def)
qed

lemma deliver_sum:
  assumes "inv G m0 B started (add_mset e P) arr val (bs, st)" "graph_ok E G" "snd e = (v, j)" "osig bs e = Some s1"
    "i_signal (inl bs v j) = Some s2"
  shows "\<exists>s3 st'. let i = (inl bs v j)\<lparr>i_signal := Some s3, i_ngot := wrap32 (i_ngot (inl bs v j) + 1)\<rparr> in
    deliver s1 v j (bs, st) = Inr (True, set_inlet v j i bs, st') \<and>
    inv G m0 B started P (arrived v j (fst e) arr) val (set_inlet v j i bs, st')"
proof -
  have c: "ctl G started (add_mset e P) arr bs" using assms(1) by (simp add: inv_def)
  note t = ctl_target [OF c assms(2,3)]
  have v: "same_graph G bs" "v < length bs" "nin bs v = nin G v" using c t(1) same_graph_nin by (auto simp: ctl_def same_graph_def)
  let ?A = "set started" let ?ref = "tokens bs (add_mset e P) ?A" let ?rest = "tokens bs P ?A"
  obtain m tr where ex: "exec_chain F (chain st) m0 = (m, tr)" by fastforce
  have ref: "?ref g = ?rest g + (if s1 = g then 1 else 0)" for g using assms(4) by (simp add: tokens_add)
  have s2: "0 < ?rest s2" using tokens_inlet [OF v(2) t(3) _ assms(5)] v(3) t(2) by simp
  obtain S1 where S1: "add_refs s1 (-1) (sg st) = Inr S1" "sig_ok B N R S1 (?ref(s1 := ?ref s1 - 1)) {s1}"
    using sig_ok_drop [of B N R "sg st" ?ref "{}" s1] assms(1) ref by (auto simp: inv_def)
  have ref1: "?ref(s1 := ?ref s1 - 1) = ?rest" using ref by auto
  obtain S2 where S2: "add_refs s2 (-1) S1 = Inr S2" "sig_ok B N R S2 (?rest(s2 := ?rest s2 - 1)) {s2, s1}"
    using sig_ok_drop [OF S1(2) [unfolded ref1] s2] by auto
  let ?ref2 = "?rest(s2 := ?rest s2 - 1)"
  have len: "s1 < length (sig_store S2)" "s2 < length (sig_store S2)" using S2(2) by (auto simp: sig_ok_def)
  note x1 = sig_ok_get [OF S2(2) len(1)] and x2 = sig_ok_get [OF S2(2) len(2)]
  obtain s3 S3 where s3: "signal_new N R S2 = (s3, S3)" "?ref2 s3 = 0" "s3 \<notin> {s2, s1}" "length (sig_store S2) \<le> length (sig_store S3)"
      "s_vec (sig_store S3 ! s3) = Some (B + s3)"
      "sig_ok B N R (setsig s3 ((sig_store S3 ! s3)\<lparr>s_refcount := int 1\<rparr>) S3) (?ref2(s3 := 1)) (insert s3 {s2, s1})"
    using sig_ok_alloc [OF S2(2) vecsize, of 1] by auto
  let ?S3 = "setsig s3 ((sig_store S3 ! s3)\<lparr>s_refcount := 1\<rparr>) S3" and ?ref3 = "?ref2(s3 := 1)"
  have S3: "sig_ok B N R ?S3 ?ref3 {s2, s1}" using sig_ok_release [OF s3(6), of s3] s3(3) by (simp add: insert_Diff_if)
  have l3: "s1 < length (sig_store ?S3)" "s2 < length (sig_store ?S3)" using len s3(4) by (simp_all add: setsig_def)
  obtain S4 where S4: "free_if_unused s1 ?S3 = Inr S4" "sig_ok B N R S4 ?ref3 ({s2, s1} - {s1})" "length (sig_store S4) = length (sig_store ?S3)"
    using sig_ok_free_if_unused [OF S3 l3(1)] by auto
  obtain S5 where S5: "free_if_unused s2 S4 = Inr S5" "sig_ok B N R S5 ?ref3 ({s2, s1} - {s1} - {s2})"
    using sig_ok_free_if_unused [OF S4(2), of s2] l3(2) S4(3) by auto
  have H: "{s2, s1} - {s1} - {s2} = {}" by auto
  let ?i = "(inl bs v j)\<lparr>i_signal := Some s3, i_ngot := wrap32 (i_ngot (inl bs v j) + 1)\<rparr>"
  let ?bs = "set_inlet v j ?i bs" and ?op = "DspPlus (Some (B + s1)) (Some (B + s2)) (Some (B + s3)) N"
  let ?st = "st\<lparr>sg := S5, chain := chain st @ [?op]\<rparr>" and ?m = "m(B + s3 := v_plus F (m (B + s1)) (m (B + s2)))"
  have ex': "exec_chain F (chain ?st) m0 = (?m, tr)" using ex by (simp add: exec_chain_snoc)
  have wf: "list_all (wf_op E N) (chain ?st)" using assms(1) by (simp add: inv_def)
  have "feq R R" using srate by (cases R) auto
  then have del: "deliver s1 v j (bs, st) = Inr (True, ?bs, ?st)"
    using S1(1) S2(1) x1 x2 s3(1,5) S4(1) S5(1) assms(5) v t(2)
    by (simp add: deliver_def inlet_at_def signal_compatible_def signal_newlike_def)
  have "tokens ?bs P ?A g = ?ref3 g" for g
    using tokens_set_inlet [OF v(2) t(3), of j ?i P g] v(3) t(2) assms(5) s2 s3(2,3) by (auto split: if_splits)
  then have tok: "tokens ?bs P ?A = ?ref3" by (rule ext)
  have dead: "?rest s3 = 0" using s3(2,3) by (simp split: if_splits)
  have va: "m (B + s1) = val (fst e)" "m (B + s2) = sum_sigs F (map val (arr v j))"
    using assms(1,4,5) ex t by (auto simp: inv_def vals_def simp del: split_paired_All)
  have "arr v j \<noteq> []" using ctl_waiting(2) [OF c t(1,3,2)] assms(5) by simp
  then have "?m (B + s3) = sum_sigs F (map val (fst e # arr v j))" using va by (cases "arr v j") auto
  moreover have "vals F G B started (add_mset e P) arr val bs m" using assms(1) ex by (simp add: inv_def)
  ultimately have "vals F G B started P (arrived v j (fst e) arr) val ?bs ?m"
    using v(1) t(1,2) dead by (intro vals_deliver [where g = s3 and m = m]) auto
  moreover have "computed E F G started (arrived v j (fst e) arr) val tr"
    by (rule computed_deliver [OF _ t(3)]) (use assms(1) ex in \<open>simp add: inv_def\<close>)
  ultimately have "inv G m0 B started P (arrived v j (fst e) arr) val (?bs, ?st)"
    using ctl_deliver [OF c assms(2,3) refl] tok S5(2) ex' wf unfolding inv_def H by simp
  then show ?thesis using del by (simp add: Let_def) blast
qed

lemma deliver_ok:
  assumes "inv G m0 B started (add_mset e P) arr val (bs, st)" "graph_ok E G" "snd e = (v, j)" "osig bs e = Some s1"
  shows "\<exists>i st'. deliver s1 v j (bs, st) = Inr (True, set_inlet v j i bs, st') \<and> i_nconnect i = i_nconnect (inl bs v j) \<and>
    inv G m0 B started P (arrived v j (fst e) arr) val (set_inlet v j i bs, st')"
proof (cases "i_signal (inl bs v j)")
  case None
  then show ?thesis using deliver_first [OF assms None refl] by auto
next
  case (Some s2)
  then obtain s3 st' where "let i = (inl bs v j)\<lparr>i_signal := Some s3, i_ngot := wrap32 (i_ngot (inl bs v j) + 1)\<rparr> in
      deliver s1 v j (bs, st) = Inr (True, set_inlet v j i bs, st') \<and>
      inv G m0 B started P (arrived v j (fst e) arr) val (set_inlet v j i bs, st')"
    using deliver_sum [OF assms Some] by blast
  then show ?thesis
    by (intro exI [of _ "(inl bs v j)\<lparr>i_signal := Some s3, i_ngot := wrap32 (i_ngot (inl bs v j) + 1)\<rparr>"] exI [of _ st']) (simp add: Let_def)
qed

lemma take_inputs_in_range:
  assumes "sig_ok B N R S (\<lambda>g. c g + held ins g) {}"
  shows "set (map (the \<circ> i_signal) ins) \<subseteq> {..<length (sig_store S)} \<or> (\<exists>i \<in> set ins. i_signal i = None)"
proof (rule disjCI, rule subsetI)
  fix g assume "\<not> (\<exists>i \<in> set ins. i_signal i = None)" "g \<in> set (map (the \<circ> i_signal) ins)"
  then have "0 < held ins g" by (auto simp: held_pos in_set_conv_nth)
  then show "g \<in> {..<length (sig_store S)}" using sig_ok_live [OF assms, of g] by simp
qed

lemma vecs_ok_vec: "sig_ok B N R (sg st) ref H \<Longrightarrow> set gs \<subseteq> {..<length (sig_store (sg st))} \<Longrightarrow> vecs st gs = map (\<lambda>g. Some (B + g)) gs"
  by (auto simp: vecs_def sig_ok_def)

lemma write_all_nth: "distinct as \<Longrightarrow> length vs = length as \<Longrightarrow> k < length as \<Longrightarrow> write_all as vs m (as ! k) = vs ! k"
  by (simp add: write_all_def map_of_zip_nth)

lemma write_all_other: "a \<notin> set as \<Longrightarrow> write_all as vs m a = m a"
  by (auto simp: write_all_def split: option.splits dest!: map_of_SomeD set_zip_leftD)

definition filled :: "t_ugenbox list \<Rightarrow> nat \<Rightarrow> t_ugenbox list \<Rightarrow> bool" where
  "filled G u bs \<longleftrightarrow> (\<forall>j < nin G u. i_ngot (inl bs u j) = i_nconnect (inl G u j))"

text \<open>The inputs of an object whose inlets are filled.\<close>

lemma inputs_ok:
  assumes "inv G m0 B started P arr val (bs, st)" "graph_ok E G" "u < length G" "u \<notin> set started" "filled G u bs"
  shows "\<exists>ins st1 m1 S2. fill_unconnected E r u [0..<nin G u] (bs, st) = (bs[u := (bs ! u)\<lparr>u_in := ins\<rparr>], st1) \<and>
    map i_nconnect ins = map i_nconnect (u_in (bs ! u)) \<and>
    take_inputs False ins (sg st1) = Inr (map (the \<circ> i_signal) ins, S2) \<and>
    sig_ok B N R S2 (tokens bs P (insert u (set started))) {} \<and> set (map (the \<circ> i_signal) ins) \<subseteq> {..<length (sig_store S2)} \<and>
    exec_chain F (chain st1) m0 = (m1, snd (exec_chain F (chain st) m0)) \<and>
    map (\<lambda>g. m1 (B + g)) (map (the \<circ> i_signal) ins) = invals E F G arr val u \<and>
    (\<forall>g. 0 < tokens bs P (insert u (set started)) g \<longrightarrow> m1 (B + g) = fst (exec_chain F (chain st) m0) (B + g)) \<and>
    list_all (wf_op E N) (chain st1)"
proof -
  let ?c = "tokens bs P (insert u (set started))" and ?x = "u_obj (G ! u)"
  obtain m t where ex: "exec_chain F (chain st) m0 = (m, t)" by fastforce
  have c: "ctl G started P arr bs" and sg: "same_graph G bs" using assms(1) by (simp_all add: inv_def ctl_def)
  have u: "u < length bs" "nin bs u = nin G u" "u_obj (bs ! u) = ?x" using sg assms(3) same_graph_nin by (auto simp: same_graph_def)
  have nc: "i_nconnect (inl bs u j) = i_nconnect (inl G u j)" if "j < nin G u" for j
    using sg assms(3) that u(2) unfolding same_graph_def by (metis nth_map)
  have arr: "i_nconnect (inl G u j) = int (length (arr u j))" "i_signal (inl bs u j) = None \<longleftrightarrow> arr u j = []" if "j < nin G u" for j
    using ctl_waiting [OF c assms(3,4) that] assms(5) that by (simp_all add: filled_def)
  have "tokens bs P (set started) = (\<lambda>g. ?c g + held (u_in (bs ! u)) g)"
    using tokens_split [OF u(1) assms(4)] by (intro ext) simp
  then have ok: "sig_ok B N R (sg st) (\<lambda>g. ?c g + held (u_in (bs ! u)) g) {}" using assms(1) by (simp add: inv_def)
  have pre: "distinct [0..<nin G u]" "set [0..<nin G u] \<subseteq> {..<nin bs u}"
      "\<forall>i \<in> set [0..<nin G u]. i_nconnect (inl bs u i) = 0 \<longrightarrow> i_signal (inl bs u i) = None"
    using u(2) nc arr by auto
  obtain ins st1 m1 where f: "fill_unconnected E r u [0..<nin G u] (bs, st) = (bs[u := (bs ! u)\<lparr>u_in := ins\<rparr>], st1)" "length ins = nin bs u"
      "\<forall>j < nin bs u. if j \<in> set [0..<nin G u] \<and> i_nconnect (inl bs u j) = 0
         then \<exists>g. ins ! j = (inl bs u j)\<lparr>i_signal := Some g\<rparr> \<and> m1 (B + g) = scalar_value E F ?x j else ins ! j = inl bs u j"
      "sig_ok B N R (sg st1) (\<lambda>g. ?c g + held ins g) {}" "exec_chain F (chain st1) m0 = (m1, t)"
      "\<forall>g. 0 < ?c g + held (u_in (bs ! u)) g \<longrightarrow> m1 (B + g) = m (B + g)"
      "list_all (wf_op E N) (chain st) \<longrightarrow> list_all (wf_op E N) (chain st1)"
    using fill_ok [OF ok u(1) pre ex u(3) [symmetric]] by (elim exE conjE) (rule that)
  have inlet: "\<exists>g. i_signal (ins ! j) = Some g \<and> i_nconnect (ins ! j) = i_nconnect (inl bs u j) \<and>
      m1 (B + g) = (if i_nconnect (inl G u j) = 0 then scalar_value E F ?x j else sum_sigs F (map val (arr u j)))" if j: "j < nin G u" for j
  proof (cases "i_nconnect (inl G u j) = 0")
    case True
    then obtain g where "ins ! j = (inl bs u j)\<lparr>i_signal := Some g\<rparr>" "m1 (B + g) = scalar_value E F ?x j"
      using f(3) [rule_format, of j] u(2) j nc [OF j] by auto
    then show ?thesis using True by simp
  next
    case False
    then obtain g where g: "i_signal (inl bs u j) = Some g" using arr [OF j] by fastforce
    have "0 < held (u_in (bs ! u)) g" using held_pos g j u(2) by metis
    then have "m1 (B + g) = m (B + g)" using f(6) by simp
    moreover have "m (B + g) = sum_sigs F (map val (arr u j))"
      using assms(1,3,4) ex g j by (simp add: inv_def vals_def)
    ultimately show ?thesis using f(3) [rule_format, of j] u(2) j nc [OF j] False g by simp
  qed
  have some: "\<forall>i \<in> set ins. i_signal i \<noteq> None" using inlet f(2) u(2) by (metis in_set_conv_nth option.distinct(1))
  obtain S2 where S2: "take_inputs False ins (sg st1) = Inr (map (the \<circ> i_signal) ins, S2)" "sig_ok B N R S2 ?c {}"
      "length (sig_store S2) = length (sig_store (sg st1))"
    using take_inputs_ok [OF f(4) some] by auto
  have "map i_nconnect ins = map i_nconnect (u_in (bs ! u))"
    using inlet f(2) u(2) by (intro nth_equalityI) auto
  moreover have "set (map (the \<circ> i_signal) ins) \<subseteq> {..<length (sig_store S2)}"
    using take_inputs_in_range [OF f(4)] some S2(3) by auto
  moreover have "map (\<lambda>g. m1 (B + g)) (map (the \<circ> i_signal) ins) = invals E F G arr val u"
    using inlet f(2) u(2) by (intro nth_equalityI) (fastforce simp: invals_def)+
  moreover have "list_all (wf_op E N) (chain st1)" using f(7) assms(1) by (simp add: inv_def)
  ultimately show ?thesis using f S2 ex by (intro exI [of _ ins] exI [of _ st1] exI [of _ m1] exI [of _ S2]) simp
qed

lemma outputs_ok:
  assumes "sig_ok B N R S2 c {}" "graph_ok E G" "u < length G" "same_graph G bs" "length ins = nin G u"
    "set ins \<subseteq> {..<length (sig_store S2)}" "exec_chain F (chain st1) m0 = (m1, t)"
    "x = u_obj (G ! u)" "vs = map (\<lambda>g. m1 (B + g)) ins"
  shows "\<exists>gs outs S3 st4 S5 m2. make_outputs False r (u_out (bs ! u)) S2 = (gs, outs, S3) \<and> length gs = nout G u \<and>
    outs = map2 (\<lambda>out g. out\<lparr>o_signal := Some g\<rparr>) (u_out (bs ! u)) gs \<and>
    e_dsp E x (ins @ gs) (st1\<lparr>sg := S3\<rparr>) = Inr st4 \<and> free_unused gs (sg st4) = Inr S5 \<and>
    sig_ok B N R S5 (\<lambda>g. c g + outs_ref gs (map (length \<circ> o_conns) (u_out (G ! u))) g) {} \<and>
    exec_chain F (chain st4) m0 = (m2, t @ [(x, vs)]) \<and>
    (\<forall>g. 0 < c g \<longrightarrow> m2 (B + g) = m1 (B + g)) \<and> (\<forall>k < nout G u. m2 (B + gs ! k) = perf F x vs ! k) \<and>
    (list_all (wf_op E N) (chain st1) \<longrightarrow> list_all (wf_op E N) (chain st4))"
proof -
  let ?cs = "map (length \<circ> o_conns) (u_out (G ! u))"
  have G: "\<forall>k < nout G u. o_nconnect (u_out (G ! u) ! k) = int (length (conns G u k)) \<and> int (length (conns G u k)) < 2 ^ 31"
      "nin G u = nat (obj_nsiginlets (e_object E x))" "nout G u = nat (obj_nsigoutlets (e_object E x))"
    using assms(2,3,8) by (auto simp: graph_ok_def)
  have "map o_nconnect (u_out (bs ! u)) = map o_nconnect (u_out (G ! u))" using assms(3,4) by (simp add: same_graph_def)
  also have "\<dots> = map int ?cs" using G(1) by (intro nth_equalityI) auto
  finally have cs: "map o_nconnect (u_out (bs ! u)) = map int ?cs" .
  moreover have "\<forall>c \<in> set ?cs. int c < 2 ^ 31" using G(1) by (auto simp: in_set_conv_nth)
  ultimately obtain gs S3 where m: "make_outputs False r (u_out (bs ! u)) S2 = (gs, map2 (\<lambda>out g. out\<lparr>o_signal := Some g\<rparr>) (u_out (bs ! u)) gs, S3)"
      "length gs = nout bs u" "distinct gs" "\<forall>g \<in> set gs. c g = 0 \<and> g \<notin> {}" "length (sig_store S2) \<le> length (sig_store S3)"
      "sig_ok B N R S3 (\<lambda>g. c g + outs_ref gs ?cs g) ({} \<union> set gs)"
    using make_outputs_ok [OF assms(1) vecsize] by blast
  have range: "set gs \<subseteq> {..<length (sig_store S3)}" "set ins \<subseteq> {..<length (sig_store S3)}"
    using m(5,6) assms(6) by (auto simp: sig_ok_def)
  let ?st = "st1\<lparr>sg := S3\<rparr>" and ?v = "map (\<lambda>g. Some (B + g))"
  let ?op = "DspUgen x (?v ins) (?v gs) (width x)"
  have d: "e_dsp E x (ins @ gs) ?st = Inr (?st\<lparr>chain := chain st1 @ [?op]\<rparr>)"
    using dsp [of ins x gs ?st] vecs_ok_vec [of B ?st _ _ gs] vecs_ok_vec [of B ?st _ _ ins] m(2,6) range assms(5) G(2,3)
      same_graph_nout [OF assms(4,3)] by simp
  obtain S5 where S5: "free_unused gs S3 = Inr S5" "sig_ok B N R S5 (\<lambda>g. c g + outs_ref gs ?cs g) (set gs - set gs)"
    using free_unused_ok [OF m(6) range(1)] by auto
  let ?m2 = "write_all (map (\<lambda>g. B + g) gs) (perf F x vs) m1"
  have "exec_chain F (chain (?st\<lparr>chain := chain st1 @ [?op]\<rparr>)) m0 = (?m2, t @ [(x, vs)])"
    using assms(7,9) by (simp add: exec_chain_snoc o_def Let_def)
  moreover have "?m2 (B + g) = m1 (B + g)" if "0 < c g" for g
    using that m(4) by (intro write_all_other) auto
  moreover have len: "length gs = nout G u" using m(2) same_graph_nout [OF assms(4,3)] by simp
  moreover have "?m2 (B + gs ! k) = perf F x vs ! k" if "k < nout G u" for k
    using write_all_nth [of "map (\<lambda>g. B + g) gs" "perf F x vs" k m1] that len m(3) perf_length [of x vs] G(3)
    by (simp add: distinct_map inj_on_def)
  moreover have "wf_op E N ?op" using len assms(5) G(2,3) by auto
  ultimately show ?thesis
    using m(1) d S5 by (intro exI [of _ gs] exI [of _ "map2 (\<lambda>out g. out\<lparr>o_signal := Some g\<rparr>) (u_out (bs ! u)) gs"] exI [of _ S3]
        exI [of _ "?st\<lparr>chain := chain st1 @ [?op]\<rparr>"] exI [of _ S5] exI [of _ ?m2]) simp
qed

lemma start_ok:
  assumes "inv G m0 B started P arr val (bs, st)" "graph_ok E G" "u < length G" "u \<notin> set started" "filled G u bs"
  shows "\<exists>gs bs' st' val'. doit_body E r doit u (bs, st) = rbind (send_outs doit u [0..<nout G u] (bs', st'))
      (\<lambda>(ok, bs6, st6). Some (Inr (if ok then bs6[u := (bs6 ! u)\<lparr>u_done := True\<rparr>] else bs6, st6))) \<and>
    box_started u gs bs bs' \<and> inv G m0 B (started @ [u]) (P + edges_from G u) arr val' (bs', st')"
proof -
  let ?c = "tokens bs P (insert u (set started))" and ?x = "u_obj (G ! u)"
  obtain m t where ex: "exec_chain F (chain st) m0 = (m, t)" by fastforce
  have c: "ctl G started P arr bs" and sg: "same_graph G bs" and P: "P \<subseteq># edges_of G (set started)"
    using assms(1) by (simp_all add: inv_def ctl_def)
  have u: "u < length bs" "nin bs u = nin G u" "u_obj (bs ! u) = ?x" using sg assms(3) same_graph_nin by (auto simp: same_graph_def)
  obtain ins st1 m1 S2 where i: "fill_unconnected E r u [0..<nin G u] (bs, st) = (bs[u := (bs ! u)\<lparr>u_in := ins\<rparr>], st1)"
      "map i_nconnect ins = map i_nconnect (u_in (bs ! u))" "take_inputs False ins (sg st1) = Inr (map (the \<circ> i_signal) ins, S2)"
      "sig_ok B N R S2 ?c {}" "set (map (the \<circ> i_signal) ins) \<subseteq> {..<length (sig_store S2)}"
      "exec_chain F (chain st1) m0 = (m1, t)" "map (\<lambda>g. m1 (B + g)) (map (the \<circ> i_signal) ins) = invals E F G arr val u"
      "\<forall>g. 0 < ?c g \<longrightarrow> m1 (B + g) = m (B + g)" "list_all (wf_op E N) (chain st1)"
    using inputs_ok [OF assms] ex by auto
  let ?ins = "map (the \<circ> i_signal) ins" and ?vs = "invals E F G arr val u" and ?bs1 = "bs[u := (bs ! u)\<lparr>u_in := ins\<rparr>]"
  have len: "length ?ins = nin G u" using i(2) u(2) by (metis length_map)
  obtain gs outs S3 st4 S5 m2 where o': "make_outputs False r (u_out (bs ! u)) S2 = (gs, outs, S3)" "length gs = nout G u"
      "outs = map2 (\<lambda>out g. out\<lparr>o_signal := Some g\<rparr>) (u_out (bs ! u)) gs"
      "e_dsp E ?x (?ins @ gs) (st1\<lparr>sg := S3\<rparr>) = Inr st4" "free_unused gs (sg st4) = Inr S5"
      "sig_ok B N R S5 (\<lambda>g. ?c g + outs_ref gs (map (length \<circ> o_conns) (u_out (G ! u))) g) {}"
      "exec_chain F (chain st4) m0 = (m2, t @ [(?x, ?vs)])"
      "\<forall>g. 0 < ?c g \<longrightarrow> m2 (B + g) = m1 (B + g)" "\<forall>k < nout G u. m2 (B + gs ! k) = perf F ?x ?vs ! k"
      "list_all (wf_op E N) (chain st1) \<longrightarrow> list_all (wf_op E N) (chain st4)"
    using outputs_ok [OF i(4) assms(2,3) sg len i(5,6) refl i(7) [symmetric]] by (elim exE conjE) (rule that)
  let ?bs = "?bs1[u := (?bs1 ! u)\<lparr>u_out := outs\<rparr>]" and ?st = "st4\<lparr>sg := S5\<rparr>"
  have nout: "length outs = nout G u" "nout bs u = nout G u" using o'(2,3) same_graph_nout [OF sg assms(3)] by simp_all
  have "e_class E ?x \<noteq> CanvasC" "e_class E ?x \<noteq> VinletC" "e_class E ?x \<noteq> VoutletC" using plain by auto
  then have body: "doit_body E r doit u (bs, st) = rbind (send_outs doit u [0..<nout G u] (?bs, ?st))
      (\<lambda>(ok, bs6, st6). Some (Inr (if ok then bs6[u := (bs6 ! u)\<lparr>u_done := True\<rparr>] else bs6, st6)))"
    using u i(1,3) o'(1,4,5) nout(1) by (simp add: doit_body_def Let_def)
  have bst: "box_started u gs bs ?bs" using u i(2) o'(2,3) nout(2) by (simp add: box_started_def)
  let ?val = "\<lambda>d. if fst d = u then perf F ?x ?vs ! snd d else val d"
  have full: "\<forall>j < nin G u. i_ngot (inl bs u j) = i_nconnect (inl G u j)" using assms(5) by (simp add: filled_def)
  have "tokens ?bs (P + edges_from G u) (set (started @ [u])) = (\<lambda>g. ?c g + outs_ref gs (map (length \<circ> o_conns) (u_out (G ! u))) g)"
    using tokens_start [OF bst sg assms(3,4) _ P] by (intro ext) simp
  then have "sig_ok B N R (sg ?st) (tokens ?bs (P + edges_from G u) (set (started @ [u]))) {}" using o'(6) by simp
  moreover have "ctl G (started @ [u]) (P + edges_from G u) arr ?bs" by (rule ctl_start [OF c assms(2-4) full bst])
  moreover have "vals F G B (started @ [u]) (P + edges_from G u) arr ?val ?bs m2"
    by (rule vals_start [OF _ c assms(3,4) bst, where m = m]) (use assms(1) ex o'(8,9) i(8) in \<open>auto simp: inv_def\<close>)
  moreover have "computed E F G (started @ [u]) arr ?val (t @ [(?x, ?vs)])"
    by (rule computed_start [OF _ c assms(4)]) (use assms(1) ex full_arrivals(2) [OF c assms(2-4)] full in \<open>auto simp: inv_def\<close>)
  ultimately have "inv G m0 B (started @ [u]) (P + edges_from G u) arr ?val (?bs, ?st)"
    using o'(7,10) i(9) by (simp add: inv_def)
  then show ?thesis using body bst by blast
qed

text \<open>Marking an object as done changes nothing that the invariant speaks of.\<close>

lemma inv_done:
  assumes "inv G m0 B started P arr val (bs, st)"
  shows "inv G m0 B started P arr val (bs[u := (bs ! u)\<lparr>u_done := True\<rparr>], st)"
proof -
  let ?bs = "bs[u := (bs ! u)\<lparr>u_done := True\<rparr>]"
  have same: "u_in (?bs ! w) = u_in (bs ! w)" "u_out (?bs ! w) = u_out (bs ! w)" "u_obj (?bs ! w) = u_obj (bs ! w)" for w
    by (cases "u < length bs"; auto simp: nth_list_update list_update_beyond not_less)+
  then have o': "osig ?bs = osig bs" by (intro ext) (simp add: osig_def)
  have t: "tokens ?bs = tokens bs" by (intro ext) (simp add: tokens_def o' same)
  show ?thesis using assms by (simp add: inv_def ctl_def vals_def same_graph_def o' same t)
qed

definition waiting :: "t_ugenbox list \<Rightarrow> nat list \<Rightarrow> nat set \<Rightarrow> t_ugenbox list \<Rightarrow> bool" where
  "waiting G started X bs \<longleftrightarrow> (\<forall>v < length G. v \<notin> set started \<longrightarrow> v \<notin> X \<longrightarrow>
     (\<forall>j < nin G v. i_nconnect (inl G v j) = 0) \<or> (\<exists>j < nin G v. i_ngot (inl bs v j) < i_nconnect (inl G v j)))"

text \<open>What a call of \<open>ugen_doit\<close> leaves as it was, and which objects it has done.\<close>

definition frame :: "t_ugenbox list \<Rightarrow> nat list \<Rightarrow> nat set \<Rightarrow> t_ugenbox list \<Rightarrow> t_ugenbox list \<Rightarrow> bool" where
  "frame G started D bs bs' \<longleftrightarrow> (\<forall>w \<in> set started. u_out (bs' ! w) = u_out (bs ! w)) \<and>
     (\<forall>w < length G. u_done (bs' ! w) \<longleftrightarrow> u_done (bs ! w) \<or> w \<in> D)"

definition doit_spec :: "t_ugenbox list \<Rightarrow> (nat \<Rightarrow> 'v) \<Rightarrow> nat \<Rightarrow> nat \<Rightarrow> (nat \<Rightarrow> graph_st \<Rightarrow> graph_st cresult option) \<Rightarrow> bool" where
  "doit_spec G m0 B depth doit \<longleftrightarrow> (\<forall>u started P arr val bs st. inv G m0 B started P arr val (bs, st) \<longrightarrow> u < length G \<longrightarrow>
     u \<notin> set started \<longrightarrow> filled G u bs \<longrightarrow> waiting G started {u} bs \<longrightarrow> length G \<le> length started + depth \<longrightarrow>
     (\<exists>ext arr' val' bs' st'. doit u (bs, st) = Some (Inr (bs', st')) \<and> inv G m0 B (started @ u # ext) P arr' val' (bs', st') \<and>
        waiting G (started @ u # ext) {} bs' \<and> frame G started (set (u # ext)) bs bs'))"

lemma got_bound:
  assumes "ctl G started P arr bs" "graph_ok E G" "v < length G" "v \<notin> set started" "j < nin G v"
  shows "i_ngot (inl bs v j) \<le> i_nconnect (inl G v j)"
proof -
  have "mset (arr v j) \<subseteq># arriving (edges_of G (set started)) v j"
    using assms(1) unfolding ctl_def by (metis mset_subset_eq_add_left)
  moreover have "arriving (edges_of G (set started)) v j \<subseteq># incoming G v j"
    unfolding incoming_def by (intro arriving_mono edges_of_mono) (use assms(1) in \<open>auto simp: ctl_def\<close>)
  ultimately have "size (mset (arr v j)) \<le> size (incoming G v j)" by (intro size_mset_mono) simp
  then show ?thesis using ctl_waiting(1) [OF assms(1,3-5)] assms(2,3,5) by (simp add: graph_ok_def)
qed

lemma all_filled_iff:
  assumes "ctl G started P arr bs" "graph_ok E G" "v < length G" "v \<notin> set started" "j < nin G v"
  shows "all_filled v j bs \<longleftrightarrow> filled G v bs"
proof -
  have sg: "same_graph G bs" using assms(1) by (simp add: ctl_def)
  have n: "nin bs v = nin G v" using same_graph_nin [OF sg assms(3)] .
  have nc: "i_nconnect (inl bs v l) = i_nconnect (inl G v l)" if "l < nin G v" for l
    using sg assms(3) that n unfolding same_graph_def by (metis nth_map)
  have le: "i_ngot (inl bs v l) \<le> i_nconnect (inl G v l)" if "l < nin G v" for l
    using got_bound [OF assms(1-4) that] .
  have "all_filled v j bs \<longleftrightarrow> (\<forall>l < nin G v. \<not> i_ngot (inl bs v l) < i_nconnect (inl G v l))"
  proof (cases "nin G v = 1")
    case True
    then have "j = 0" using assms(5) by simp
    then show ?thesis using True n nc by (simp add: all_filled_def Let_def)
  next
    case False
    then have "1 < nin bs v" using n assms(5) by simp
    then show ?thesis using n nc assms(5) unfolding all_filled_def Let_def by (metis in_set_conv_nth)
  qed
  also have "\<dots> \<longleftrightarrow> filled G v bs" using le by (auto simp: filled_def) (metis order_le_less)
  finally show ?thesis .
qed

lemma send_conns_ok:
  assumes "doit_spec G m0 B depth doit" "graph_ok E G" "length G \<le> length started + depth"
    "inv G m0 B started (P + mset (map (Pair (u, k)) cs)) arr val (bs, st)" "u \<in> set started" "osig bs ((u, k), t) = Some s1"
    "waiting G started {} bs"
  shows "\<exists>ext arr' val' bs' st'. send_conns doit s1 cs (bs, st) = Some (Inr (True, bs', st')) \<and>
    inv G m0 B (started @ ext) P arr' val' (bs', st') \<and> waiting G (started @ ext) {} bs' \<and> frame G started (set ext) bs bs'"
  using assms(3-)
proof (induction cs arbitrary: started arr val bs st)
  case Nil
  then show ?case by (intro exI [of _ "[]"] exI [of _ arr] exI [of _ val] exI [of _ bs] exI [of _ st]) (simp add: frame_def)
next
  case (Cons c cs)
  obtain v j where vj: "c = (v, j)" by (cases c)
  let ?e = "((u, k), (v, j))" and ?P = "P + mset (map (Pair (u, k)) cs)"
  have inv: "inv G m0 B started (add_mset ?e ?P) arr val (bs, st)" using Cons.prems(2) vj by simp
  then have ctl: "ctl G started (add_mset ?e ?P) arr bs" by (simp add: inv_def)
  note t = ctl_target [OF ctl assms(2), of v j, simplified]
  have e: "osig bs ?e = Some s1" using Cons.prems(4) by (simp add: osig_def)
  obtain i st1 where d: "deliver s1 v j (bs, st) = Inr (True, set_inlet v j i bs, st1)" "i_nconnect i = i_nconnect (inl bs v j)"
      "inv G m0 B started ?P (arrived v j (u, k) arr) val (set_inlet v j i bs, st1)"
    using deliver_ok [OF inv assms(2) _ e] by auto
  let ?bs = "set_inlet v j i bs"
  have ctl1: "ctl G started ?P (arrived v j (u, k) arr) ?bs" using d(3) by (simp add: inv_def)
  have v: "v < length bs" using ctl t(1) by (simp add: ctl_def same_graph_def)
  have other: "waiting G started {v} ?bs"
    using Cons.prems(5) by (simp add: waiting_def set_inlet_u_in [OF v])
  have fr1: "frame G started {} bs ?bs" by (simp add: frame_def set_inlet_simps)
  have filled: "all_filled v j ?bs \<longleftrightarrow> filled G v ?bs" by (rule all_filled_iff [OF ctl1 assms(2) t(1,3,2)])
  show ?case
  proof (cases "filled G v ?bs")
    case True
    obtain ext1 arr1 val1 bs1 st2 where call: "doit v (?bs, st1) = Some (Inr (bs1, st2))"
        "inv G m0 B (started @ v # ext1) ?P arr1 val1 (bs1, st2)" "waiting G (started @ v # ext1) {} bs1"
        "frame G started (set (v # ext1)) ?bs bs1"
      using assms(1) [unfolded doit_spec_def] d(3) t(1,3) True other Cons.prems(1) by blast
    have "osig bs1 ((u, k), t) = Some s1"
      using call(4) Cons.prems(3,4) by (simp add: frame_def osig_def set_inlet_simps)
    then obtain ext2 arr2 val2 bs2 st3 where rest: "send_conns doit s1 cs (bs1, st2) = Some (Inr (True, bs2, st3))"
        "inv G m0 B ((started @ v # ext1) @ ext2) P arr2 val2 (bs2, st3)" "waiting G ((started @ v # ext1) @ ext2) {} bs2"
        "frame G (started @ v # ext1) (set ext2) bs1 bs2"
      using Cons.IH [OF _ call(2) _ _ call(3)] Cons.prems(1,3) by auto
    have "frame G started (set ((v # ext1) @ ext2)) bs bs2"
      using fr1 call(4) rest(4) by (auto simp: frame_def)
    then show ?thesis
      using vj d(1) filled True call(1) rest
      by (intro exI [of _ "(v # ext1) @ ext2"] exI [of _ arr2] exI [of _ val2] exI [of _ bs2] exI [of _ st3]) simp
  next
    case False
    then obtain l where l: "l < nin G v" "i_ngot (inl ?bs v l) \<noteq> i_nconnect (inl G v l)" by (auto simp: filled_def)
    then have "i_ngot (inl ?bs v l) < i_nconnect (inl G v l)" using got_bound [OF ctl1 assms(2) t(1,3) l(1)] by simp
    then have w: "waiting G started {} ?bs" using other l(1) by (auto simp: waiting_def)
    have "osig ?bs ((u, k), t) = Some s1" using Cons.prems(4) by (simp add: set_inlet_simps)
    then obtain ext arr2 val2 bs2 st3 where rest: "send_conns doit s1 cs (?bs, st1) = Some (Inr (True, bs2, st3))"
        "inv G m0 B (started @ ext) P arr2 val2 (bs2, st3)" "waiting G (started @ ext) {} bs2" "frame G started (set ext) ?bs bs2"
      using Cons.IH [OF Cons.prems(1) d(3) Cons.prems(3) _ w] by auto
    have "frame G started (set ext) bs bs2" using fr1 rest(4) by (auto simp: frame_def)
    then show ?thesis using vj d(1) filled False rest by auto
  qed
qed

lemma edges_from_list: "edges_from G u = sum_list (map (\<lambda>k. mset (map (Pair (u, k)) (conns G u k))) [0..<nout G u])"
  unfolding edges_from_def by (simp add: interv_sum_list_conv_sum_set_nat atLeast0LessThan)

lemma send_outs_ok:
  assumes "doit_spec G m0 B depth doit" "graph_ok E G" "length G \<le> length started + depth"
    "inv G m0 B started (P + sum_list (map (\<lambda>k. mset (map (Pair (u, k)) (conns G u k))) ks)) arr val (bs, st)" "u \<in> set started"
    "u < length G" "\<forall>k \<in> set ks. k < nout G u \<and> osig bs ((u, k), t) \<noteq> None" "waiting G started {} bs"
  shows "\<exists>ext arr' val' bs' st'. send_outs doit u ks (bs, st) = Some (Inr (True, bs', st')) \<and>
    inv G m0 B (started @ ext) P arr' val' (bs', st') \<and> waiting G (started @ ext) {} bs' \<and> frame G started (set ext) bs bs'"
  using assms(3-)
proof (induction ks arbitrary: started arr val bs st)
  case Nil
  then show ?case by (intro exI [of _ "[]"] exI [of _ arr] exI [of _ val] exI [of _ bs] exI [of _ st]) (simp add: frame_def)
next
  case (Cons k ks)
  let ?P = "P + sum_list (map (\<lambda>k. mset (map (Pair (u, k)) (conns G u k))) ks)"
  have inv: "inv G m0 B started (?P + mset (map (Pair (u, k)) (conns G u k))) arr val (bs, st)"
    using Cons.prems(2) by (simp add: add.commute add.left_commute)
  have k: "k < nout G u" using Cons.prems(5) by simp
  obtain s1 where s1: "osig bs ((u, k), t) = Some s1" using Cons.prems(5) by auto
  have sg: "same_graph G bs" using inv by (simp add: inv_def ctl_def)
  then have cs: "o_conns (u_out (bs ! u) ! k) = conns G u k"
    using k Cons.prems(4) same_graph_nout [OF sg Cons.prems(4)] unfolding same_graph_def by (metis nth_map)
  have o': "o_signal (u_out (bs ! u) ! k) = Some s1" using s1 by (simp add: osig_def)
  obtain ext1 arr1 val1 bs1 st1 where c: "send_conns doit s1 (conns G u k) (bs, st) = Some (Inr (True, bs1, st1))"
      "inv G m0 B (started @ ext1) ?P arr1 val1 (bs1, st1)" "waiting G (started @ ext1) {} bs1" "frame G started (set ext1) bs bs1"
    using send_conns_ok [OF assms(1,2) Cons.prems(1) inv Cons.prems(3) s1 Cons.prems(6)] by (elim exE conjE) (rule that)
  have same: "u_out (bs1 ! u) = u_out (bs ! u)" using c(4) Cons.prems(3) by (simp add: frame_def)
  have outs: "\<forall>k \<in> set ks. k < nout G u \<and> osig bs1 ((u, k), t) \<noteq> None"
    using Cons.prems(5) by (simp add: osig_def same)
  obtain ext2 arr2 val2 bs2 st2 where d: "send_outs doit u ks (bs1, st1) = Some (Inr (True, bs2, st2))"
      "inv G m0 B ((started @ ext1) @ ext2) P arr2 val2 (bs2, st2)" "waiting G ((started @ ext1) @ ext2) {} bs2"
      "frame G (started @ ext1) (set ext2) bs1 bs2"
    using Cons.IH [OF _ c(2) _ Cons.prems(4) outs c(3)] Cons.prems(1,3) by auto
  have "frame G started (set (ext1 @ ext2)) bs bs2" using c(4) d(4) by (auto simp: frame_def)
  then show ?case
    using o' cs c(1) d by (intro exI [of _ "ext1 @ ext2"] exI [of _ arr2] exI [of _ val2] exI [of _ bs2] exI [of _ st2]) simp
qed

lemma doit_ok: "graph_ok E G \<Longrightarrow> doit_spec G m0 B depth (ugen_doit E r depth)"
proof (induction depth)
  case 0
  have False if "inv G m0 B started P arr val (bs, st)" "u < length G" "u \<notin> set started" "length G \<le> length started"
    for u started P arr val bs st
  proof -
    have "distinct (u # started)" "set (u # started) \<subseteq> {..<length G}" using that(1-3) by (auto simp: inv_def ctl_def)
    then have "length (u # started) \<le> length G" by (metis card_lessThan card_mono distinct_card finite_lessThan)
    then show False using that(4) by simp
  qed
  then show ?case unfolding doit_spec_def by (metis add.right_neutral)
next
  case (Suc depth)
  show ?case unfolding doit_spec_def
  proof (intro allI impI)
    fix u started P arr val bs st
    assume a: "inv G m0 B started P arr val (bs, st)" "u < length G" "u \<notin> set started" "filled G u bs" "waiting G started {u} bs"
      "length G \<le> length started + Suc depth"
    obtain gs bs1 st1 val1 where s: "doit_body E r (ugen_doit E r depth) u (bs, st) =
        rbind (send_outs (ugen_doit E r depth) u [0..<nout G u] (bs1, st1))
          (\<lambda>(ok, bs6, st6). Some (Inr (if ok then bs6[u := (bs6 ! u)\<lparr>u_done := True\<rparr>] else bs6, st6)))"
        "box_started u gs bs bs1" "inv G m0 B (started @ [u]) (P + edges_from G u) arr val1 (bs1, st1)"
      using start_ok [OF a(1) Suc.prems a(2-4), of "ugen_doit E r depth"] by (elim exE conjE) (rule that)
    have sg: "same_graph G bs" using a(1) by (simp add: inv_def ctl_def)
    have outs: "\<forall>k \<in> set [0..<nout G u]. k < nout G u \<and> osig bs1 ((u, k), undefined) \<noteq> None"
      using osig_started(2) [OF s(2)] same_graph_nout [OF sg a(2)] by auto
    have w: "waiting G (started @ [u]) {} bs1"
      using a(5) s(2) by (auto simp: waiting_def box_started_def)
    obtain ext arr' val' bs' st' where o': "send_outs (ugen_doit E r depth) u [0..<nout G u] (bs1, st1) = Some (Inr (True, bs', st'))"
        "inv G m0 B ((started @ [u]) @ ext) P arr' val' (bs', st')" "waiting G ((started @ [u]) @ ext) {} bs'"
        "frame G (started @ [u]) (set ext) bs1 bs'"
      using send_outs_ok [OF Suc.IH [OF Suc.prems] Suc.prems _ s(3) [unfolded edges_from_list] _ a(2) outs w] a(6) by auto
    let ?bs = "bs'[u := (bs' ! u)\<lparr>u_done := True\<rparr>]"
    have len: "length bs' = length G" using o'(2) by (simp add: inv_def ctl_def same_graph_def)
    have "waiting G (started @ u # ext) {} ?bs" using o'(3) by (auto simp: waiting_def nth_list_update)
    moreover have "frame G started (set (u # ext)) bs ?bs"
    proof -
      have "u_out (?bs ! x) = u_out (bs ! x)" if "x \<in> set started" for x
      proof -
        have "x \<noteq> u" using that a(3) by auto
        then show ?thesis using that o'(4) s(2) by (simp add: frame_def box_started_def)
      qed
      moreover have "u_done (?bs ! x) \<longleftrightarrow> u_done (bs ! x) \<or> x \<in> set (u # ext)" if "x < length G" for x
        using that o'(4) s(2) len by (cases "x = u") (auto simp: frame_def box_started_def)
      ultimately show ?thesis by (simp add: frame_def)
    qed
    moreover have "inv G m0 B (started @ u # ext) P arr' val' (?bs, st')" using inv_done [OF o'(2)] by simp
    ultimately show "\<exists>ext arr' val' bs' st'. ugen_doit E r (Suc depth) u (bs, st) = Some (Inr (bs', st')) \<and>
        inv G m0 B (started @ u # ext) P arr' val' (bs', st') \<and> waiting G (started @ u # ext) {} bs' \<and>
        frame G started (set (u # ext)) bs bs'"
      using s(1) o'(1) by (intro exI [of _ ext] exI [of _ arr'] exI [of _ val'] exI [of _ ?bs] exI [of _ st']) simp
  qed
qed

lemma sort_loop_ok:
  assumes "graph_ok E G" "length G \<le> depth" "inv G m0 B started {#} arr val (bs, st)" "waiting G started {} bs"
    "\<forall>w < length G. u_done (bs ! w) \<longleftrightarrow> w \<in> set started" "set us \<subseteq> {..<length G}"
  shows "\<exists>ord arr' val' bs' st'. sort_loop E r depth us (bs, st) = Some (Inr (bs', st')) \<and> set started \<subseteq> set ord \<and>
    inv G m0 B ord {#} arr' val' (bs', st') \<and> waiting G ord {} bs' \<and> (\<forall>w < length G. u_done (bs' ! w) \<longleftrightarrow> w \<in> set ord) \<and>
    (\<forall>u \<in> set us. (\<forall>j < nin G u. i_nconnect (inl G u j) = 0) \<longrightarrow> u \<in> set ord)"
  using assms(3-)
proof (induction us arbitrary: started arr val bs st)
  case Nil
  then show ?case by (intro exI [of _ started] exI [of _ arr] exI [of _ val] exI [of _ bs] exI [of _ st]) simp
next
  case (Cons u us)
  have u: "u < length G" "set us \<subseteq> {..<length G}" using Cons.prems(4) by simp_all
  have ctl: "ctl G started {#} arr bs" using Cons.prems(1) by (simp add: inv_def)
  then have sg: "same_graph G bs" by (simp add: ctl_def)
  have "map i_nconnect (u_in (bs ! u)) = map i_nconnect (u_in (G ! u))" using sg u(1) by (simp add: same_graph_def)
  then have "(\<exists>uin \<in> set (u_in (bs ! u)). i_nconnect uin \<noteq> 0) \<longleftrightarrow> (\<exists>uin \<in> set (u_in (G ! u)). i_nconnect uin \<noteq> 0)"
    by (metis (no_types, lifting) image_iff list.set_map)
  then have roots: "(\<exists>uin \<in> set (u_in (bs ! u)). i_nconnect uin \<noteq> 0) \<longleftrightarrow> \<not> (\<forall>j < nin G u. i_nconnect (inl G u j) = 0)"
    by (metis in_set_conv_nth)
  show ?case
  proof (cases "u \<in> set started \<or> \<not> (\<forall>j < nin G u. i_nconnect (inl G u j) = 0)")
    case True
    then have step: "sort_loop E r depth (u # us) (bs, st) = sort_loop E r depth us (bs, st)"
      using Cons.prems(3) u(1) roots by auto
    obtain ord arr1 val1 bs1 st1 where "sort_loop E r depth us (bs, st) = Some (Inr (bs1, st1))" "set started \<subseteq> set ord"
        "inv G m0 B ord {#} arr1 val1 (bs1, st1)" "waiting G ord {} bs1" "\<forall>w < length G. u_done (bs1 ! w) \<longleftrightarrow> w \<in> set ord"
        "\<forall>u \<in> set us. (\<forall>j < nin G u. i_nconnect (inl G u j) = 0) \<longrightarrow> u \<in> set ord"
      using Cons.IH [OF Cons.prems(1-3) u(2)] by (elim exE conjE) (rule that)
    then show ?thesis using True unfolding step
      by (intro exI [of _ ord] exI [of _ arr1] exI [of _ val1] exI [of _ bs1] exI [of _ st1]) auto
  next
    case False
    have filled: "filled G u bs"
      using got_bound [OF ctl assms(1) u(1)] ctl_waiting(1) [OF ctl u(1)] False by (auto simp: filled_def)
    have new: "u \<notin> set started" using False by simp
    have w: "waiting G started {u} bs" and l: "length G \<le> length started + depth"
      using Cons.prems(2) assms(2) by (auto simp: waiting_def)
    obtain ext arr1 val1 bs1 st1 where d: "ugen_doit E r depth u (bs, st) = Some (Inr (bs1, st1))"
        "inv G m0 B (started @ u # ext) {#} arr1 val1 (bs1, st1)" "waiting G (started @ u # ext) {} bs1" "frame G started (set (u # ext)) bs bs1"
      using doit_ok [OF assms(1), unfolded doit_spec_def, rule_format, OF Cons.prems(1) u(1) new filled w l] by (elim exE conjE) (rule that)
    have dn: "\<forall>w < length G. u_done (bs1 ! w) \<longleftrightarrow> w \<in> set (started @ u # ext)" using d(4) Cons.prems(3) by (auto simp: frame_def)
    obtain ord arr2 val2 bs2 st2 where "sort_loop E r depth us (bs1, st1) = Some (Inr (bs2, st2))" "set (started @ u # ext) \<subseteq> set ord"
        "inv G m0 B ord {#} arr2 val2 (bs2, st2)" "waiting G ord {} bs2" "\<forall>w < length G. u_done (bs2 ! w) \<longleftrightarrow> w \<in> set ord"
        "\<forall>u \<in> set us. (\<forall>j < nin G u. i_nconnect (inl G u j) = 0) \<longrightarrow> u \<in> set ord"
      using Cons.IH [OF d(2,3) dn u(2)] by (elim exE conjE) (rule that)
    moreover have "sort_loop E r depth (u # us) (bs, st) = sort_loop E r depth us (bs1, st1)"
      using Cons.prems(3) u(1) roots False d(1) by auto
    ultimately show ?thesis
      by (intro exI [of _ ord] exI [of _ arr2] exI [of _ val2] exI [of _ bs2] exI [of _ st2]) auto
  qed
qed

text \<open>Objects that do not stand behind a loop are called, the others are not.\<close>

lemma inv_accessible:
  assumes "ctl G ord P arr bs" "graph_ok E G" "u \<in> set ord"
  shows "Wellfounded.accp (feeds G) u"
proof -
  have "Wellfounded.accp (feeds G) (ord ! i)" if "i < length ord" for i
    using that
  proof (induction i rule: less_induct)
    case (less i)
    show ?case
    proof (rule accpI)
      fix w assume "feeds G w (ord ! i)"
      then obtain k j where e: "w < length G" "k < nout G w" "(ord ! i, j) \<in> set (conns G w k)" by (auto simp: feeds_def)
      then have j: "j < nin G (ord ! i)" using assms(2) by (fastforce simp: graph_ok_def)
      have "((w, k), (ord ! i, j)) \<in># edges_of G {..<length G}" using e by (auto simp: in_edges_of in_edges_from)
      then have "(w, k) \<in># incoming G (ord ! i) j" by (force simp: incoming_def arriving_def)
      then have "(w, k) \<in># mset (arr (ord ! i) j)" using assms(1) less.prems j unfolding ctl_def by metis
      then have "w \<in> fst ` set (arr (ord ! i) j)" by force
      moreover have "fst ` set (arr (ord ! i) j) \<subseteq> set (take i ord)" using assms(1) less.prems j unfolding ctl_def by metis
      ultimately have "w \<in> set (take i ord)" by blast
      then obtain l where "l < i" "l < length ord" "ord ! l = w" by (auto simp: in_set_conv_nth)
      then show "Wellfounded.accp (feeds G) w" using less.IH by auto
    qed
  qed
  then show ?thesis using assms(3) by (auto simp: in_set_conv_nth)
qed

lemma accessible_called:
  assumes "ctl G ord {#} arr bs" "graph_ok E G" "waiting G ord {} bs" "Wellfounded.accp (feeds G) u" "u < length G"
    "\<forall>u < length G. (\<forall>j < nin G u. i_nconnect (inl G u j) = 0) \<longrightarrow> u \<in> set ord"
  shows "u \<in> set ord"
  using assms(4,5)
proof (induction rule: accp_induct_rule)
  case (1 u)
  have fed: "w \<in> set ord" if "feeds G w u" for w using 1 that by (auto simp: feeds_def)
  show ?case
  proof (rule ccontr)
    assume n: "u \<notin> set ord"
    then obtain j where j: "j < nin G u" "i_ngot (inl bs u j) < i_nconnect (inl G u j)"
      using assms(3,6) "1.prems" unfolding waiting_def by blast
    have "edges_of G {..<length G} = edges_of G ({..<length G} - set ord) + edges_of G (set ord)"
      unfolding edges_of_def using assms(1) by (intro sum.subset_diff) (auto simp: ctl_def)
    moreover have "set_mset (arriving (edges_of G ({..<length G} - set ord)) u j) = {}"
      using fed by (auto simp: arriving_def in_edges_of in_edges_from feeds_def)
    ultimately have "incoming G u j = arriving (edges_of G (set ord)) u j" by (simp add: incoming_def)
    also have "\<dots> = mset (arr u j)" using assms(1) by (simp add: ctl_def)
    finally have "size (incoming G u j) = length (arr u j)" by simp
    moreover have "i_nconnect (inl G u j) = int (size (incoming G u j))" using assms(2) "1.prems" j(1) by (simp add: graph_ok_def)
    ultimately show False using j ctl_waiting(1) [OF assms(1) "1.prems" n j(1)] by simp
  qed
qed

lemma same_graph_reset: "same_graph bs (map reset_box bs)"
  by (simp add: same_graph_def reset_box_def comp_def)

lemma inv_start:
  assumes "graph_ok E bs" "sig_store (sg st) = []" "signal_freeborrowed (sg st) = []" "signal_freelist (sg st) = (\<lambda>_. [])" "chain st = []"
  shows "inv bs m0 (length (vecsizes (sg st))) [] {#} (\<lambda>_ _. []) val (map reset_box bs, st)"
proof -
  have "tokens (map reset_box bs) {#} {} g = 0" for g by (simp add: tokens_def held_def reset_box_def comp_def image_mset_const_eq)
  then have "sig_ok (length (vecsizes (sg st))) N R (sg st) (tokens (map reset_box bs) {#} {}) {}"
    using assms(2-4) by (simp add: sig_ok_def)
  moreover have "ctl bs [] {#} (\<lambda>_ _. []) (map reset_box bs)"
    using same_graph_reset [of bs] by (simp add: ctl_def reset_box_def edges_of_def)
  ultimately show ?thesis
    using assms(5) by (simp add: inv_def vals_def computed_def exec_chain_def reset_box_def)
qed

lemma sort_ok:
  assumes "graph_ok E bs" "length bs \<le> depth" "set us = {..<length bs}"
    "sig_store (sg st) = []" "signal_freeborrowed (sg st) = []" "signal_freelist (sg st) = (\<lambda>_. [])" "chain st = []"
  shows "\<exists>ord arr val bs' st'. ugen_sort E r depth us (bs, st) = Some (Inr (bs', st')) \<and> distinct ord \<and>
    set ord = {u. u < length bs \<and> Wellfounded.accp (feeds bs) u} \<and> (\<forall>u < length bs. u_done (bs' ! u) \<longleftrightarrow> u \<in> set ord) \<and>
    (\<forall>i < length ord. \<forall>j < nin bs (ord ! i). mset (arr (ord ! i) j) = incoming bs (ord ! i) j \<and>
       fst ` set (arr (ord ! i) j) \<subseteq> set (take i ord)) \<and>
    computed E F bs ord arr val (snd (exec_chain F (chain st') m0)) \<and> list_all (wf_op E N) (chain st')"
proof -
  have w: "waiting bs [] {} (map reset_box bs)"
    using assms(1) by (auto simp: waiting_def reset_box_def graph_ok_def)
  have d: "\<forall>w < length bs. u_done (map reset_box bs ! w) \<longleftrightarrow> w \<in> set []" by (simp add: reset_box_def)
  obtain ord arr val bs' st' where s: "sort_loop E r depth us (map reset_box bs, st) = Some (Inr (bs', st'))"
      "inv bs m0 (length (vecsizes (sg st))) ord {#} arr val (bs', st')" "waiting bs ord {} bs'"
      "\<forall>w < length bs. u_done (bs' ! w) \<longleftrightarrow> w \<in> set ord"
      "\<forall>u \<in> set us. (\<forall>j < nin bs u. i_nconnect (inl bs u j) = 0) \<longrightarrow> u \<in> set ord"
    using sort_loop_ok [OF assms(1,2) inv_start [OF assms(1,4-7), of m0 undefined] w d, of us] assms(3) by auto
  have c: "ctl bs ord {#} arr bs'" "computed E F bs ord arr val (snd (exec_chain F (chain st') m0))"
      "list_all (wf_op E N) (chain st')" using s(2) by (simp_all add: inv_def)
  have "set ord = {u. u < length bs \<and> Wellfounded.accp (feeds bs) u}"
  proof (intro equalityI subsetI CollectI conjI)
    fix u assume u: "u \<in> set ord"
    then show "u < length bs" using c(1) by (auto simp: ctl_def)
    show "Wellfounded.accp (feeds bs) u" by (rule inv_accessible [OF c(1) assms(1) u])
  next
    fix u assume "u \<in> {u. u < length bs \<and> Wellfounded.accp (feeds bs) u}"
    then show "u \<in> set ord" using accessible_called [OF c(1) assms(1) s(3), of u] s(5) assms(3) by auto
  qed
  moreover have "distinct ord" "\<forall>i < length ord. \<forall>j < nin bs (ord ! i). mset (arr (ord ! i) j) = incoming bs (ord ! i) j \<and>
       fst ` set (arr (ord ! i) j) \<subseteq> set (take i ord)" using c(1) unfolding ctl_def by blast+
  ultimately show ?thesis
    using s(1,4) c(2,3) by (intro exI [of _ ord] exI [of _ arr] exI [of _ val] exI [of _ bs'] exI [of _ st']) (simp add: ugen_sort_def)
qed

end

end
