(* ===== verification/DArith.thy ===== *)
theory DArith
  imports PdFloat
begin

text \<open>
  The perform routines of the arithmetic signal objects (\<open>d_arithmetic.c\<close>), and those that clear, fill and copy a vector
  (\<open>d_ugen.c\<close>, \<open>d_ctl.c\<close>, \<open>d_dac.c\<close>). Samples lie in memory, a vector is the address of its first sample; input and
  output of an object may be the same vector. Each routine has a version that takes eight samples at a time.
\<close>

subsection \<open>Vectors in memory\<close>

type_synonym samples = "nat \<Rightarrow> fl"

definition vec :: "nat \<Rightarrow> nat \<Rightarrow> samples \<Rightarrow> fl list" where
  "vec a n m = map m [a..<a + n]"

fun write_vec :: "nat \<Rightarrow> fl list \<Rightarrow> samples \<Rightarrow> samples" where
  "write_vec out [] m = m"
| "write_vec out (v # vs) m = write_vec (out + 1) vs (m(out := v))"

definition apart :: "nat \<Rightarrow> nat \<Rightarrow> nat \<Rightarrow> bool" where
  "apart a out n \<longleftrightarrow> a = out \<or> a + n \<le> out \<or> out + n \<le> a"

lemma length_vec [simp]: "length (vec a n m) = n"
  by (simp add: vec_def)

lemma vec_nth [simp]: "i < n \<Longrightarrow> vec a n m ! i = m (a + i)"
  by (simp add: vec_def)

lemma write_vec_eq: "write_vec out vs m a = (if out \<le> a \<and> a < out + length vs then vs ! (a - out) else m a)"
proof (induction vs arbitrary: out m)
  case (Cons v vs)
  have "(v # vs) ! (a - out) = vs ! (a - Suc out)" if "Suc out \<le> a" using that by (simp add: nth_Cons' Suc_diff_Suc)
  then show ?case using Cons.IH by auto
qed auto

lemma write_map2: "write_vec out (map2 f (vec a n m) (vec b n m)) m =
  (\<lambda>x. if out \<le> x \<and> x < out + n then f (m (a + (x - out))) (m (b + (x - out))) else m x)"
proof
  fix x
  show "write_vec out (map2 f (vec a n m) (vec b n m)) m x =
      (if out \<le> x \<and> x < out + n then f (m (a + (x - out))) (m (b + (x - out))) else m x)"
  proof (cases "out \<le> x \<and> x < out + n")
    case True
    then have "x - out < n" by auto
    then have "map2 f (vec a n m) (vec b n m) ! (x - out) = f (m (a + (x - out))) (m (b + (x - out)))"
      by (simp only: nth_map nth_zip length_zip length_vec vec_nth split_def fst_conv snd_conv min.idem)
    then show ?thesis using True by (simp only: write_vec_eq length_map length_zip length_vec min.idem if_True)
  qed (auto simp: write_vec_eq)
qed

subsection \<open>The loops\<close>

text \<open>
  \<open>while (n--)\<close> takes one sample at a time. \<open>for (; n; n -= 8)\<close> ends only where \<open>n\<close> is a multiple of 8 and otherwise runs
  past the end of the vectors, which is \<open>None\<close> here.
\<close>

fun perform2 :: "(fl \<Rightarrow> fl \<Rightarrow> fl) \<Rightarrow> nat \<Rightarrow> nat \<Rightarrow> nat \<Rightarrow> nat \<Rightarrow> samples \<Rightarrow> samples" where
  "perform2 f in1 in2 out 0 m = m"
| "perform2 f in1 in2 out (Suc n) m = perform2 f (in1 + 1) (in2 + 1) (out + 1) n (m(out := f (m in1) (m in2)))"

fun perform1 :: "(fl \<Rightarrow> fl) \<Rightarrow> nat \<Rightarrow> nat \<Rightarrow> nat \<Rightarrow> samples \<Rightarrow> samples" where
  "perform1 f in1 out 0 m = m"
| "perform1 f in1 out (Suc n) m = perform1 f (in1 + 1) (out + 1) n (m(out := f (m in1)))"

fun perform0 :: "fl \<Rightarrow> nat \<Rightarrow> nat \<Rightarrow> samples \<Rightarrow> samples" where
  "perform0 v out 0 m = m"
| "perform0 v out (Suc n) m = perform0 v (out + 1) n (m(out := v))"

fun by8_2 :: "(fl \<Rightarrow> fl \<Rightarrow> fl) \<Rightarrow> nat \<Rightarrow> nat \<Rightarrow> nat \<Rightarrow> nat \<Rightarrow> samples \<Rightarrow> samples option" where
  "by8_2 f in1 in2 out n m = (if n = 0 then Some m else if n < 8 then None
     else by8_2 f (in1 + 8) (in2 + 8) (out + 8) (n - 8) (write_vec out (map2 f (vec in1 8 m) (vec in2 8 m)) m))"

fun by8_1 :: "(fl \<Rightarrow> fl) \<Rightarrow> nat \<Rightarrow> nat \<Rightarrow> nat \<Rightarrow> samples \<Rightarrow> samples option" where
  "by8_1 f in1 out n m = (if n = 0 then Some m else if n < 8 then None
     else by8_1 f (in1 + 8) (out + 8) (n - 8) (write_vec out (map f (vec in1 8 m)) m))"

fun by8_0 :: "fl \<Rightarrow> nat \<Rightarrow> nat \<Rightarrow> samples \<Rightarrow> samples option" where
  "by8_0 v out n m = (if n = 0 then Some m else if n < 8 then None
     else by8_0 v (out + 8) (n - 8) (write_vec out (replicate 8 v) m))"

declare by8_2.simps [simp del] by8_1.simps [simp del] by8_0.simps [simp del]

subsection \<open>The routines\<close>

definition zero_perform :: "nat \<Rightarrow> nat \<Rightarrow> samples \<Rightarrow> samples" where "zero_perform = perform0 (Fin 0)"
definition zero_perf8 :: "nat \<Rightarrow> nat \<Rightarrow> samples \<Rightarrow> samples option" where "zero_perf8 = by8_0 (Fin 0)"
definition sig_tilde_perform :: "fl \<Rightarrow> nat \<Rightarrow> nat \<Rightarrow> samples \<Rightarrow> samples" where "sig_tilde_perform = perform0"
definition sig_tilde_perf8 :: "fl \<Rightarrow> nat \<Rightarrow> nat \<Rightarrow> samples \<Rightarrow> samples option" where "sig_tilde_perf8 = by8_0"
definition copy_perform :: "nat \<Rightarrow> nat \<Rightarrow> nat \<Rightarrow> samples \<Rightarrow> samples" where "copy_perform = perform1 (\<lambda>f. f)"
definition copy_perf8 :: "nat \<Rightarrow> nat \<Rightarrow> nat \<Rightarrow> samples \<Rightarrow> samples option" where "copy_perf8 = by8_1 (\<lambda>f. f)"

definition dsp_add_zero :: "nat \<Rightarrow> nat \<Rightarrow> samples \<Rightarrow> samples option" where
  "dsp_add_zero out n m = (if n mod 8 \<noteq> 0 then Some (zero_perform out n m) else zero_perf8 out n m)"

definition dsp_add_scalarcopy :: "fl \<Rightarrow> nat \<Rightarrow> nat \<Rightarrow> samples \<Rightarrow> samples option" where
  "dsp_add_scalarcopy f out n m = (if n mod 8 \<noteq> 0 then Some (sig_tilde_perform f out n m) else sig_tilde_perf8 f out n m)"

definition dsp_add_copy :: "nat \<Rightarrow> nat \<Rightarrow> nat \<Rightarrow> samples \<Rightarrow> samples option" where
  "dsp_add_copy in1 out n m = (if n mod 8 \<noteq> 0 then Some (copy_perform in1 out n m) else copy_perf8 in1 out n m)"

definition plus_perform :: "nat \<Rightarrow> nat \<Rightarrow> nat \<Rightarrow> nat \<Rightarrow> samples \<Rightarrow> samples" where "plus_perform = perform2 (fadd binary32)"
definition plus_perf8 :: "nat \<Rightarrow> nat \<Rightarrow> nat \<Rightarrow> nat \<Rightarrow> samples \<Rightarrow> samples option" where "plus_perf8 = by8_2 (fadd binary32)"
definition scalarplus_perform :: "fl \<Rightarrow> nat \<Rightarrow> nat \<Rightarrow> nat \<Rightarrow> samples \<Rightarrow> samples" where
  "scalarplus_perform g = perform1 (\<lambda>f. fadd binary32 f g)"
definition scalarplus_perf8 :: "fl \<Rightarrow> nat \<Rightarrow> nat \<Rightarrow> nat \<Rightarrow> samples \<Rightarrow> samples option" where
  "scalarplus_perf8 g = by8_1 (\<lambda>f. fadd binary32 f g)"

definition minus_perform :: "nat \<Rightarrow> nat \<Rightarrow> nat \<Rightarrow> nat \<Rightarrow> samples \<Rightarrow> samples" where "minus_perform = perform2 (fsub binary32)"
definition minus_perf8 :: "nat \<Rightarrow> nat \<Rightarrow> nat \<Rightarrow> nat \<Rightarrow> samples \<Rightarrow> samples option" where "minus_perf8 = by8_2 (fsub binary32)"
definition scalarminus_perform :: "fl \<Rightarrow> nat \<Rightarrow> nat \<Rightarrow> nat \<Rightarrow> samples \<Rightarrow> samples" where
  "scalarminus_perform g = perform1 (\<lambda>f. fsub binary32 f g)"
definition scalarminus_perf8 :: "fl \<Rightarrow> nat \<Rightarrow> nat \<Rightarrow> nat \<Rightarrow> samples \<Rightarrow> samples option" where
  "scalarminus_perf8 g = by8_1 (\<lambda>f. fsub binary32 f g)"

definition times_perform :: "nat \<Rightarrow> nat \<Rightarrow> nat \<Rightarrow> nat \<Rightarrow> samples \<Rightarrow> samples" where "times_perform = perform2 (fmul binary32)"
definition times_perf8 :: "nat \<Rightarrow> nat \<Rightarrow> nat \<Rightarrow> nat \<Rightarrow> samples \<Rightarrow> samples option" where "times_perf8 = by8_2 (fmul binary32)"
definition scalartimes_perform :: "fl \<Rightarrow> nat \<Rightarrow> nat \<Rightarrow> nat \<Rightarrow> samples \<Rightarrow> samples" where
  "scalartimes_perform g = perform1 (\<lambda>f. fmul binary32 f g)"
definition scalartimes_perf8 :: "fl \<Rightarrow> nat \<Rightarrow> nat \<Rightarrow> nat \<Rightarrow> samples \<Rightarrow> samples option" where
  "scalartimes_perf8 g = by8_1 (\<lambda>f. fmul binary32 f g)"

text \<open>\<open>over_perform\<close> goes on in its first input only where it divides.\<close>

fun over_perform :: "nat \<Rightarrow> nat \<Rightarrow> nat \<Rightarrow> nat \<Rightarrow> samples \<Rightarrow> samples" where
  "over_perform in1 in2 out 0 m = m"
| "over_perform in1 in2 out (Suc n) m = (let g = m in2 in
     if \<not> fzero g then over_perform (in1 + 1) (in2 + 1) (out + 1) n (m(out := fdiv binary32 (m in1) g))
     else over_perform in1 (in2 + 1) (out + 1) n (m(out := Fin 0)))"

definition over_val :: "fl \<Rightarrow> fl \<Rightarrow> fl" where
  "over_val f g = (if \<not> fzero g then fdiv binary32 f g else Fin 0)"

definition over_perf8 :: "nat \<Rightarrow> nat \<Rightarrow> nat \<Rightarrow> nat \<Rightarrow> samples \<Rightarrow> samples option" where "over_perf8 = by8_2 over_val"
definition scalarover_perform :: "fl \<Rightarrow> nat \<Rightarrow> nat \<Rightarrow> nat \<Rightarrow> samples \<Rightarrow> samples" where
  "scalarover_perform g = perform1 (\<lambda>f. fmul binary32 f
     (if \<not> fzero g then fl_convert binary32 (fdiv binary64 (Fin 1) g) else g))"
definition scalarover_perf8 :: "fl \<Rightarrow> nat \<Rightarrow> nat \<Rightarrow> nat \<Rightarrow> samples \<Rightarrow> samples option" where
  "scalarover_perf8 g = by8_1 (\<lambda>f. fmul binary32 f (if \<not> fzero g then fdiv binary32 (Fin 1) g else g))"

definition max_val :: "fl \<Rightarrow> fl \<Rightarrow> fl" where "max_val f g = (if flt g f then f else g)"
definition min_val :: "fl \<Rightarrow> fl \<Rightarrow> fl" where "min_val f g = (if flt f g then f else g)"

definition max_perform :: "nat \<Rightarrow> nat \<Rightarrow> nat \<Rightarrow> nat \<Rightarrow> samples \<Rightarrow> samples" where "max_perform = perform2 max_val"
definition max_perf8 :: "nat \<Rightarrow> nat \<Rightarrow> nat \<Rightarrow> nat \<Rightarrow> samples \<Rightarrow> samples option" where "max_perf8 = by8_2 max_val"
definition scalarmax_perform :: "fl \<Rightarrow> nat \<Rightarrow> nat \<Rightarrow> nat \<Rightarrow> samples \<Rightarrow> samples" where
  "scalarmax_perform f = perform1 (\<lambda>g. max_val f g)"
definition scalarmax_perf8 :: "fl \<Rightarrow> nat \<Rightarrow> nat \<Rightarrow> nat \<Rightarrow> samples \<Rightarrow> samples option" where
  "scalarmax_perf8 g = by8_1 (\<lambda>f. max_val f g)"

definition min_perform :: "nat \<Rightarrow> nat \<Rightarrow> nat \<Rightarrow> nat \<Rightarrow> samples \<Rightarrow> samples" where "min_perform = perform2 min_val"
definition min_perf8 :: "nat \<Rightarrow> nat \<Rightarrow> nat \<Rightarrow> nat \<Rightarrow> samples \<Rightarrow> samples option" where "min_perf8 = by8_2 min_val"
definition scalarmin_perform :: "fl \<Rightarrow> nat \<Rightarrow> nat \<Rightarrow> nat \<Rightarrow> samples \<Rightarrow> samples" where
  "scalarmin_perform f = perform1 (\<lambda>g. min_val f g)"
definition scalarmin_perf8 :: "fl \<Rightarrow> nat \<Rightarrow> nat \<Rightarrow> nat \<Rightarrow> samples \<Rightarrow> samples option" where
  "scalarmin_perf8 g = by8_1 (\<lambda>f. min_val f g)"

text \<open>What the methods \<open>dsp\<close> put on the chain: the version for the size of the vectors.\<close>

datatype sigbinop = PlusS | MinusS | TimesS | OverS | MaxS | MinS

fun binop_perform :: "sigbinop \<Rightarrow> nat \<Rightarrow> nat \<Rightarrow> nat \<Rightarrow> nat \<Rightarrow> samples \<Rightarrow> samples" where
  "binop_perform PlusS = plus_perform"
| "binop_perform MinusS = minus_perform"
| "binop_perform TimesS = times_perform"
| "binop_perform OverS = over_perform"
| "binop_perform MaxS = max_perform"
| "binop_perform MinS = min_perform"

fun binop_perf8 :: "sigbinop \<Rightarrow> nat \<Rightarrow> nat \<Rightarrow> nat \<Rightarrow> nat \<Rightarrow> samples \<Rightarrow> samples option" where
  "binop_perf8 PlusS = plus_perf8"
| "binop_perf8 MinusS = minus_perf8"
| "binop_perf8 TimesS = times_perf8"
| "binop_perf8 OverS = over_perf8"
| "binop_perf8 MaxS = max_perf8"
| "binop_perf8 MinS = min_perf8"

definition run_binop :: "sigbinop \<Rightarrow> nat \<Rightarrow> nat \<Rightarrow> nat \<Rightarrow> nat \<Rightarrow> samples \<Rightarrow> samples option" where
  "run_binop k in1 in2 out n m = (if n mod 8 \<noteq> 0 then Some (binop_perform k in1 in2 out n m) else binop_perf8 k in1 in2 out n m)"

text \<open>What an object computes of two samples.\<close>

fun binop_val :: "sigbinop \<Rightarrow> fl \<Rightarrow> fl \<Rightarrow> fl" where
  "binop_val PlusS = fadd binary32"
| "binop_val MinusS = fsub binary32"
| "binop_val TimesS = fmul binary32"
| "binop_val OverS = over_val"
| "binop_val MaxS = max_val"
| "binop_val MinS = min_val"

lemmas binop_defs = plus_perform_def plus_perf8_def minus_perform_def minus_perf8_def times_perform_def times_perf8_def
  over_perf8_def max_perform_def max_perf8_def min_perform_def min_perf8_def

lemmas scalar_defs = scalarplus_perf8_def scalarplus_perform_def scalarminus_perf8_def scalarminus_perform_def
  scalartimes_perf8_def scalartimes_perform_def copy_perf8_def copy_perform_def zero_perf8_def zero_perform_def
  sig_tilde_perf8_def sig_tilde_perform_def scalarmax_perf8_def scalarmax_perform_def scalarmin_perf8_def scalarmin_perform_def

subsection \<open>What the loops compute\<close>

lemma perform2_eq:
  assumes "apart in1 out n" "apart in2 out n"
  shows "perform2 f in1 in2 out n m = write_vec out (map2 f (vec in1 n m) (vec in2 n m)) m"
proof -
  have "perform2 f in1 in2 out n m a = (if out \<le> a \<and> a < out + n then f (m (in1 + (a - out))) (m (in2 + (a - out))) else m a)" for a
    using assms
  proof (induction n arbitrary: in1 in2 out m)
    case (Suc n)
    have "apart (in1 + 1) (out + 1) n" "apart (in2 + 1) (out + 1) n" using Suc.prems by (auto simp: apart_def)
    note IH = Suc.IH [OF this]
    have "in1 + (a - out) \<noteq> out" "in2 + (a - out) \<noteq> out" if "out < a" "a < out + Suc n"
      using that Suc.prems by (auto simp: apart_def)
    then show ?case using IH by (auto simp: Suc_diff_Suc)
  qed auto
  then show ?thesis unfolding write_map2 by (intro ext)
qed

lemma by8_2_eq:
  assumes "apart in1 out n" "apart in2 out n" "n mod 8 = 0"
  shows "by8_2 f in1 in2 out n m = Some (write_vec out (map2 f (vec in1 n m) (vec in2 n m)) m)"
proof -
  obtain q where "n = q * 8" using assms(3) by (auto elim!: dvdE simp: mod_eq_0_iff_dvd mult.commute)
  have "by8_2 f in1 in2 out (q * 8) m =
      Some (\<lambda>a. if out \<le> a \<and> a < out + q * 8 then f (m (in1 + (a - out))) (m (in2 + (a - out))) else m a)"
    using assms(1,2) unfolding \<open>n = q * 8\<close>
  proof (induction q arbitrary: in1 in2 out m)
    case 0
    then show ?case by (auto simp: by8_2.simps fun_eq_iff)
  next
    case (Suc q)
    let ?m = "write_vec out (map2 f (vec in1 8 m) (vec in2 8 m)) m"
    have "apart (in1 + 8) (out + 8) (q * 8)" "apart (in2 + 8) (out + 8) (q * 8)" using Suc.prems by (auto simp: apart_def)
    note IH = Suc.IH [OF this, of ?m]
    have "by8_2 f in1 in2 out (Suc q * 8) m = by8_2 f (in1 + 8) (in2 + 8) (out + 8) (q * 8) ?m"
      by (subst by8_2.simps) simp
    moreover have "(if out + 8 \<le> a \<and> a < out + 8 + q * 8 then f (?m (in1 + 8 + (a - (out + 8)))) (?m (in2 + 8 + (a - (out + 8)))) else ?m a) =
        (if out \<le> a \<and> a < out + Suc q * 8 then f (m (in1 + (a - out))) (m (in2 + (a - out))) else m a)" for a
      using Suc.prems unfolding write_map2 by (auto simp: apart_def)
    ultimately show ?case using IH by simp
  qed
  then show ?thesis unfolding \<open>n = q * 8\<close> write_map2 .
qed

lemma perform1_eq_perform2: "perform1 f in1 out n m = perform2 (\<lambda>a _. f a) in1 in1 out n m"
  by (induction n arbitrary: in1 out m) simp_all

lemma perform0_eq_perform2: "perform0 v out n m = perform2 (\<lambda>_ _. v) out out out n m"
  by (induction n arbitrary: out m) simp_all

lemma map2_same: "map2 f xs xs = map (\<lambda>x. f x x) xs"
  by (induction xs) simp_all

lemma by8_1_eq_by8_2: "by8_1 f in1 out n m = by8_2 (\<lambda>a _. f a) in1 in1 out n m"
  by (induction f in1 out n m rule: by8_1.induct) (subst by8_1.simps, subst by8_2.simps, simp add: map2_same)

lemma by8_0_eq_by8_2: "by8_0 v out n m = by8_2 (\<lambda>_ _. v) out out out n m"
  by (induction v out n m rule: by8_0.induct) (subst by8_0.simps, subst by8_2.simps, simp add: map2_same map_replicate_const)

lemma perform1_eq: "apart in1 out n \<Longrightarrow> perform1 f in1 out n m = write_vec out (map f (vec in1 n m)) m"
  by (simp add: perform1_eq_perform2 perform2_eq map2_same)

lemma by8_1_eq: "apart in1 out n \<Longrightarrow> n mod 8 = 0 \<Longrightarrow> by8_1 f in1 out n m = Some (write_vec out (map f (vec in1 n m)) m)"
  by (simp add: by8_1_eq_by8_2 by8_2_eq map2_same)

lemma perform0_eq: "perform0 v out n m = write_vec out (replicate n v) m"
  by (simp add: perform0_eq_perform2 perform2_eq apart_def map2_same map_replicate_const)

lemma by8_0_eq: "n mod 8 = 0 \<Longrightarrow> by8_0 v out n m = Some (write_vec out (replicate n v) m)"
  by (simp add: by8_0_eq_by8_2 by8_2_eq apart_def map2_same map_replicate_const)

text \<open>\<^bold>\<open>C35\<close>: The routines that take eight samples at a time do what the plain loops do, where the size of the vectors is a multiple of 8
  and the output is an input or does not overlap it: the loop ends and leaves the same memory. This holds for \<open>+~\<close>, \<open>-~\<close>, \<open>*~\<close>, \<open>max~\<close> and \<open>min~\<close> of two signals, for
  \<open>+~\<close>, \<open>-~\<close> and \<open>*~\<close> with a number, and for copying a vector, setting it to zero and filling it with a number. It does not hold for \<open>/~\<close> of two signals
  (theorem \<open>over_perform_slips\<close>) nor for \<open>max~\<close> and \<open>min~\<close> with a number (lemma \<open>scalarmax_nan\<close>); \<open>/~\<close> with a number is not part of it.\<close>

theorem perf8_equals_perform:
  assumes "apart in1 out n" "apart in2 out n" "n mod 8 = 0" "k \<noteq> OverS"
  shows "binop_perf8 k in1 in2 out n m = Some (binop_perform k in1 in2 out n m) \<and>
    scalarplus_perf8 g in1 out n m = Some (scalarplus_perform g in1 out n m) \<and>
    scalarminus_perf8 g in1 out n m = Some (scalarminus_perform g in1 out n m) \<and>
    scalartimes_perf8 g in1 out n m = Some (scalartimes_perform g in1 out n m) \<and>
    copy_perf8 in1 out n m = Some (copy_perform in1 out n m) \<and>
    zero_perf8 out n m = Some (zero_perform out n m) \<and>
    sig_tilde_perf8 g out n m = Some (sig_tilde_perform g out n m)"
proof -
  have "binop_perf8 k in1 in2 out n m = Some (binop_perform k in1 in2 out n m)"
    using assms by (cases k) (simp_all add: binop_defs by8_2_eq perform2_eq)
  then show ?thesis
    using assms by (simp add: scalar_defs by8_1_eq perform1_eq by8_0_eq perform0_eq)
qed

theorem perf8_equals_perform_witness:
  "binop_perf8 TimesS 0 8 0 8 (\<lambda>a. Fin 2) = Some (binop_perform TimesS 0 8 0 8 (\<lambda>a. Fin 2))"
  using perf8_equals_perform [of 0 0 8 8 TimesS] by (simp add: apart_def)

subsection \<open>Division\<close>

text \<open>
  Where no divisor is 0 \<open>over_perform\<close> is right too.
\<close>

lemma over_perform_eq:
  assumes "apart in1 out n" "apart in2 out n" "\<forall>i < n. \<not> fzero (m (in2 + i))"
  shows "over_perform in1 in2 out n m = perform2 over_val in1 in2 out n m"
  using assms
proof (induction n arbitrary: in1 in2 out m)
  case (Suc n)
  have ap: "apart (in1 + 1) (out + 1) n" "apart (in2 + 1) (out + 1) n" using Suc.prems(1,2) by (auto simp: apart_def)
  have nz: "\<not> fzero (m in2)" using Suc.prems(3) by force
  have "in2 + Suc i \<noteq> out" if "i < n" for i using Suc.prems(2) that by (auto simp: apart_def)
  then have "\<forall>i < n. \<not> fzero ((m(out := v)) (in2 + 1 + i))" for v using Suc.prems(3) by auto
  then have "over_perform (in1 + 1) (in2 + 1) (out + 1) n (m(out := v)) = perform2 over_val (in1 + 1) (in2 + 1) (out + 1) n (m(out := v))" for v
    using Suc.IH [OF ap] by blast
  then show ?case using nz by (simp add: over_val_def [of "m in1"] Let_def)
qed simp

text \<open>
  After a division by 0 it goes on with the sample it has not used: in general sample \<open>i\<close> of the result is made of the sample of
  the first input that has as many before it as there are divisors other than 0 before \<open>i\<close>.
\<close>

definition used :: "nat \<Rightarrow> nat \<Rightarrow> samples \<Rightarrow> nat" where
  "used in2 i m = length (filter (\<lambda>g. \<not> fzero g) (vec in2 i m))"

lemma used_Suc: "used in2 (Suc i) m = (if fzero (m in2) then 0 else 1) + used (in2 + 1) i m"
proof -
  have "[in2..<in2 + Suc i] = in2 # [in2 + 1..<in2 + 1 + i]" by (simp add: upt_rec)
  then show ?thesis by (simp add: used_def vec_def del: upt_Suc)
qed

lemma used_cong: "(\<And>j. j < i \<Longrightarrow> m' (a + j) = m (a + j)) \<Longrightarrow> used a i m' = used a i m"
proof -
  assume "\<And>j. j < i \<Longrightarrow> m' (a + j) = m (a + j)"
  then have "vec a i m' = vec a i m" by (intro nth_equalityI) simp_all
  then show ?thesis by (simp add: used_def)
qed

lemma over_perform_other: "a < out \<Longrightarrow> over_perform in1 in2 out n m a = m a"
  by (induction n arbitrary: in1 in2 out m) (simp_all add: Let_def)

text \<open>What \<open>/~\<close> computes where the size of the vectors is not a multiple of 8. Sample \<open>i\<close> of the result is 0 where the divisor is 0,
  and otherwise a quotient whose dividend is sample \<open>used i\<close> of the first input, not sample \<open>i\<close>: as many samples are behind as
  there were divisors of 0 before. The routine for other sizes divides sample by sample.\<close>

theorem over_perform_slips:
  assumes "in1 + n \<le> out \<or> out + n \<le> in1" "in2 + n \<le> out \<or> out + n \<le> in2" "i < n"
  shows "over_perform in1 in2 out n m (out + i) =
      (if fzero (m (in2 + i)) then Fin 0 else fdiv binary32 (m (in1 + used in2 i m)) (m (in2 + i))) \<and>
    (n mod 8 = 0 \<longrightarrow> (\<exists>m'. over_perf8 in1 in2 out n m = Some m' \<and>
      m' (out + i) = (if fzero (m (in2 + i)) then Fin 0 else fdiv binary32 (m (in1 + i)) (m (in2 + i)))))"
proof
  show "over_perform in1 in2 out n m (out + i) =
      (if fzero (m (in2 + i)) then Fin 0 else fdiv binary32 (m (in1 + used in2 i m)) (m (in2 + i)))"
    using assms
  proof (induction n arbitrary: in1 in2 out i m)
    case (Suc n)
    define v where "v = (if fzero (m in2) then Fin 0 else fdiv binary32 (m in1) (m in2))"
    define d where "d = (if fzero (m in2) then 0 else 1 :: nat)"
    let ?m = "m(out := v)"
    have step: "over_perform in1 in2 out (Suc n) m = over_perform (in1 + d) (in2 + 1) (out + 1) n ?m"
      by (simp add: v_def d_def Let_def)
    show ?case
    proof (cases i)
      case 0
      then show ?thesis unfolding step by (simp add: over_perform_other v_def used_def vec_def)
    next
      case (Suc l)
      have l: "l < n" "(in1 + d) + n \<le> out + 1 \<or> (out + 1) + n \<le> in1 + d" "(in2 + 1) + n \<le> out + 1 \<or> (out + 1) + n \<le> in2 + 1"
        using Suc.prems Suc by (auto simp: d_def)
      have in2: "in2 + 1 + j \<noteq> out" if "j < n" for j using that Suc.prems by auto
      then have u: "used (in2 + 1) l ?m = used (in2 + 1) l m" using l(1) by (intro used_cong) auto
      have "used (in2 + 1) l m \<le> l" unfolding used_def by (metis length_filter_le length_vec)
      then have in1: "in1 + d + used (in2 + 1) l m \<noteq> out" using Suc.prems l(1) by (auto simp: d_def)
      have "over_perform in1 in2 out (Suc n) m (out + i) = over_perform (in1 + d) (in2 + 1) (out + 1) n ?m (out + 1 + l)"
        unfolding step using \<open>i = Suc l\<close> by simp
      also have "\<dots> = (if fzero (m (in2 + i)) then Fin 0 else fdiv binary32 (m (in1 + d + used (in2 + 1) l m)) (m (in2 + i)))"
        unfolding Suc.IH [OF l(2,3,1)] u using in1 in2 [OF l(1)] \<open>i = Suc l\<close> by simp
      finally show ?thesis using used_Suc [of in2 l m] \<open>i = Suc l\<close> by (simp add: d_def add.assoc split: if_splits)
    qed
  qed simp
next
  show "n mod 8 = 0 \<longrightarrow> (\<exists>m'. over_perf8 in1 in2 out n m = Some m' \<and>
      m' (out + i) = (if fzero (m (in2 + i)) then Fin 0 else fdiv binary32 (m (in1 + i)) (m (in2 + i))))"
    using assms by (simp add: over_perf8_def by8_2_eq apart_def write_map2 over_val_def)
qed

theorem over_perform_slips_witness:
  "over_perform 0 2 4 2 (\<lambda>a. if a = 0 then Fin 1 else if a = 1 then Fin 2 else if a = 2 then Fin 0 else Fin 1) (4 + 1) =
   fdiv binary32 (Fin 1) (Fin 1)"
proof -
  let ?m = "\<lambda>a :: nat. if a = 0 then Fin 1 else if a = 1 then Fin 2 else if a = 2 then Fin 0 else Fin 1"
  have "used 2 1 ?m = 0" by (simp add: used_def vec_def fzero_def)
  then show ?thesis using over_perform_slips [of 0 2 4 2 1 ?m] by (simp add: fzero_def)
qed

subsection \<open>Maximum and minimum\<close>

text \<open>
  The two versions of \<open>max~\<close> and \<open>min~\<close> with a number take the operands in different order, which makes a difference where
  a sample is not a number: the plain loop passes it on, the other puts the number in its place.
\<close>

lemma max_val_commute: "f \<noteq> NaN \<Longrightarrow> g \<noteq> NaN \<Longrightarrow> feq (max_val f g) (max_val g f)"
  by (cases f; cases g) (auto simp: max_val_def)

lemma min_val_commute: "f \<noteq> NaN \<Longrightarrow> g \<noteq> NaN \<Longrightarrow> feq (min_val f g) (min_val g f)"
  by (cases f; cases g) (auto simp: min_val_def)

text \<open>The two versions of \<open>max~\<close> and \<open>min~\<close> with a number agree on samples that are numbers, up to the sign of zero.\<close>

theorem scalarmax_versions:
  assumes "apart in1 out n" "n mod 8 = 0" "i < n" "g \<noteq> NaN" "m (in1 + i) \<noteq> NaN"
  shows "(\<exists>m'. scalarmax_perf8 g in1 out n m = Some m' \<and> feq (m' (out + i)) (scalarmax_perform g in1 out n m (out + i))) \<and>
    (\<exists>m'. scalarmin_perf8 g in1 out n m = Some m' \<and> feq (m' (out + i)) (scalarmin_perform g in1 out n m (out + i)))"
  using assms max_val_commute [of "m (in1 + i)" g] min_val_commute [of "m (in1 + i)" g]
  by (simp add: scalar_defs by8_1_eq perform1_eq write_vec_eq)

theorem scalarmax_versions_witness:
  "\<exists>m'. scalarmax_perf8 (Fin 3) 0 0 8 (\<lambda>a. Fin 2) = Some m' \<and> feq (m' (0 + 1)) (scalarmax_perform (Fin 3) 0 0 8 (\<lambda>a. Fin 2) (0 + 1))"
  using scalarmax_versions [of 0 0 8 1 "Fin 3" "\<lambda>a. Fin 2"] by (simp add: apart_def)

lemma scalarmax_nan:
  assumes "apart in1 out n" "n mod 8 = 0" "i < n" "m (in1 + i) = NaN"
  shows "scalarmax_perform g in1 out n m (out + i) = NaN \<and> (\<exists>m'. scalarmax_perf8 g in1 out n m = Some m' \<and> m' (out + i) = g)"
  using assms by (cases g) (simp_all add: scalar_defs by8_1_eq perform1_eq write_vec_eq max_val_def)

end
