(* ===== verification/CanvasDsp.thy ===== *)
theory CanvasDsp
  imports UgenSort DArith
begin

text \<open>
  The chain of a canvas (\<open>g_canvas.c\<close>): its objects and connections are made into a graph, which is sorted. For canvases of
  arithmetic objects the chain computes, in a memory of samples and with vectors that are used again, what the network says.
\<close>

subsection \<open>Building the graph\<close>

record t_dspcanvas =
  cv_self :: nat
  cv_list :: "nat list"
  cv_lines :: "(nat \<times> int \<times> nat \<times> int) list"

definition add_boxes :: "ugen_env \<Rightarrow> (nat \<Rightarrow> bool) \<Rightarrow> nat list \<Rightarrow> t_dspcontext \<Rightarrow> t_dspcontext" where
  "add_boxes E hasdsp ys dc = fold (\<lambda>y dc. if hasdsp y then ugen_add E y dc else dc) ys dc"

fun add_lines :: "ugen_env \<Rightarrow> (nat \<times> int \<times> nat \<times> int) list \<Rightarrow> t_dspcontext \<Rightarrow> t_dspcontext cresult" where
  "add_lines E [] dc = Inr dc"
| "add_lines E ((x1, outno, x2, inno) # ls) dc =
     cbind (if obj_issignaloutlet (e_object E x1) outno then ugen_connect E x1 outno x2 inno dc else Inr dc) (add_lines E ls)"

text \<open>The calls of \<open>ugen_doit\<close> are at most as deep as there are objects.\<close>

definition canvas_dodsp :: "ugen_env \<Rightarrow> (nat \<Rightarrow> bool) \<Rightarrow> rates option \<Rightarrow> fl \<Rightarrow> int \<Rightarrow> int \<Rightarrow> bool \<Rightarrow> nat list option \<Rightarrow> t_dspcanvas \<Rightarrow>
    dspst \<Rightarrow> (bool \<times> t_ugenbox list \<times> dspst) cresult option" where
  "canvas_dodsp E hasdsp parent sys_sr sys_blksize phase toplevel sp x st =
     (let ob = e_object E (cv_self x);
          dc = add_boxes E hasdsp (cv_list x) (ugen_start_graph toplevel sp (obj_nsiginlets ob) (obj_nsigoutlets ob))
      in rbind (Some (add_lines E (cv_lines x) dc)) (\<lambda>dc'.
         ugen_done_graph E (length (dc_boxes dc')) parent sys_sr sys_blksize phase dc' st))"

fun dsp_canvases :: "ugen_env \<Rightarrow> (nat \<Rightarrow> bool) \<Rightarrow> fl \<Rightarrow> int \<Rightarrow> int \<Rightarrow> t_dspcanvas list \<Rightarrow> dspst \<Rightarrow> dspst cresult option" where
  "dsp_canvases E hasdsp sys_sr sys_blksize phase [] st = Some (Inr st)"
| "dsp_canvases E hasdsp sys_sr sys_blksize phase (x # xs) st =
     rbind (canvas_dodsp E hasdsp None sys_sr sys_blksize phase True None x st) (\<lambda>(loop, bs, st').
       dsp_canvases E hasdsp sys_sr sys_blksize phase xs st')"

definition ugen_stop :: "dspst \<Rightarrow> dspst" where
  "ugen_stop st = st\<lparr>sg := signal_cleanup (sg st), chain := []\<rparr>"

text \<open>The state of signal processing: whether it is on, and the chain. The canvases and their objects do not change here.\<close>

type_synonym dsp_switch = "bool \<times> dspst"

definition canvas_start_dsp :: "(dspst \<Rightarrow> dspst cresult option) \<Rightarrow> dsp_switch \<Rightarrow> dsp_switch cresult option" where
  "canvas_start_dsp canvases p = (case p of (dspstate, st) \<Rightarrow>
     rbind (canvases (ugen_start (if dspstate then ugen_stop st else st))) (\<lambda>st'. Some (Inr (True, st'))))"

definition canvas_stop_dsp :: "dsp_switch \<Rightarrow> dsp_switch" where
  "canvas_stop_dsp p = (if fst p then (False, ugen_stop (snd p)) else p)"

definition canvas_suspend_dsp :: "dsp_switch \<Rightarrow> bool \<times> dsp_switch" where
  "canvas_suspend_dsp p = (fst p, if fst p then canvas_stop_dsp p else p)"

definition canvas_resume_dsp :: "(dspst \<Rightarrow> dspst cresult option) \<Rightarrow> bool \<Rightarrow> dsp_switch \<Rightarrow> dsp_switch cresult option" where
  "canvas_resume_dsp canvases oldstate p = (if oldstate then canvas_start_dsp canvases p else Some (Inr p))"

definition canvas_update_dsp :: "(dspst \<Rightarrow> dspst cresult option) \<Rightarrow> dsp_switch \<Rightarrow> dsp_switch cresult option" where
  "canvas_update_dsp canvases p = (if fst p then canvas_start_dsp canvases p else Some (Inr p))"

text \<open>\<open>glob_dsp\<close> also opens and closes the audio devices, which is the last component of the result.\<close>

definition glob_dsp :: "(dspst \<Rightarrow> dspst cresult option) \<Rightarrow> t_atom list \<Rightarrow> dsp_switch \<Rightarrow> (dsp_switch \<times> bool option) cresult option" where
  "glob_dsp canvases argv p = (if argv \<noteq> [] then
     (let newstate = atom_getintarg 0 argv in
      if newstate \<noteq> 0 \<and> \<not> fst p then rbind (canvas_start_dsp canvases p) (\<lambda>p'. Some (Inr (p', Some True)))
      else if newstate = 0 \<and> fst p then Some (Inr (canvas_stop_dsp p, Some False))
      else Some (Inr (p, None)))
    else Some (Inr (p, None)))"

text \<open>Updating is suspending and resuming in one step, as the comment says.\<close>

lemma update_is_suspend_resume:
  "canvas_update_dsp canvases p = (case canvas_suspend_dsp p of (oldstate, p') \<Rightarrow> canvas_resume_dsp canvases oldstate p')"
  by (cases p) (simp add: canvas_update_dsp_def canvas_suspend_dsp_def canvas_resume_dsp_def canvas_stop_dsp_def canvas_start_dsp_def
      ugen_start_def ugen_stop_def signal_cleanup_def)

text \<open>Turning it on when it is on, or off when it is off, does nothing.\<close>

lemma glob_dsp_idempotent:
  assumes "glob_dsp canvases argv p = Some (Inr (p', audio))"
  shows "glob_dsp canvases argv p' = Some (Inr (p', None))"
proof (cases "argv \<noteq> [] \<and> atom_getintarg 0 argv \<noteq> 0 \<and> \<not> fst p")
  case True
  then obtain p'' where "canvas_start_dsp canvases p = Some (Inr p'')" "p' = p''"
    using assms by (auto simp: glob_dsp_def Let_def rbind_def split: option.splits sum.splits)
  then have "fst p'" by (auto simp: canvas_start_dsp_def rbind_def split: option.splits sum.splits prod.splits)
  then show ?thesis using True by (simp add: glob_dsp_def Let_def)
next
  case False
  then show ?thesis using assms by (auto simp: glob_dsp_def Let_def canvas_stop_dsp_def split: if_splits)
qed

text \<open>The counts of the graph are right, apart from their width.\<close>

definition graph_pre :: "ugen_env \<Rightarrow> t_ugenbox list \<Rightarrow> bool" where
  "graph_pre E G \<longleftrightarrow> (\<forall>u < length G. nin G u = nat (obj_nsiginlets (e_object E (u_obj (G ! u)))) \<and>
        nout G u = nat (obj_nsigoutlets (e_object E (u_obj (G ! u)))) \<and>
        (\<forall>k < nout G u. o_nconnect (u_out (G ! u) ! k) = int (length (conns G u k)) \<and>
           (\<forall>(v, j) \<in> set (conns G u k). v < length G \<and> j < nin G v)) \<and>
        (\<forall>j < nin G u. i_nconnect (inl G u j) = int (size (incoming G u j))))"

abbreviation all_edges :: "t_ugenbox list \<Rightarrow> edge multiset" where "all_edges G \<equiv> edges_of G {..<length G}"

lemma size_conns: "u < length G \<Longrightarrow> k < nout G u \<Longrightarrow> length (conns G u k) \<le> size (all_edges G)"
proof -
  assume a: "u < length G" "k < nout G u"
  have "image_mset (Pair (u, k)) (mset (conns G u k)) \<subseteq># edges_from G u"
    unfolding edges_from_def using a(2) by (subst sum.remove [of _ k]) simp_all
  moreover have "edges_from G u \<subseteq># all_edges G"
    unfolding edges_of_def using a(1) by (subst sum.remove [of _ u]) simp_all
  ultimately have "size (image_mset (Pair (u, k)) (mset (conns G u k))) \<le> size (all_edges G)"
    by (intro size_mset_mono) (rule subset_mset.order_trans)
  then show ?thesis by simp
qed

lemma size_incoming: "size (incoming G u j) \<le> size (all_edges G)"
  unfolding incoming_def arriving_def by (simp add: size_filter_mset_lesseq)

lemma graph_ok_of: "graph_pre E G \<Longrightarrow> int (size (all_edges G)) < 2 ^ 31 \<Longrightarrow> graph_ok E G"
  unfolding graph_ok_def graph_pre_def using size_conns [of _ G] size_incoming [of G] by (smt (verit) of_nat_le_iff)

lemma add_connection_simps:
  assumes "u1 < length bs" "k < nout bs u1" "u2 < length bs" "j < nin bs u2"
  shows "length (add_connection u1 k u2 j bs) = length bs" "u_obj (add_connection u1 k u2 j bs ! w) = u_obj (bs ! w)"
    "u_out (add_connection u1 k u2 j bs ! w) = (if w = u1 then (u_out (bs ! u1))[k := (u_out (bs ! u1) ! k)
       \<lparr>o_conns := (u2, j) # conns bs u1 k, o_nconnect := wrap32 (o_nconnect (u_out (bs ! u1) ! k) + 1)\<rparr>] else u_out (bs ! w))"
    "u_in (add_connection u1 k u2 j bs ! w) = (if w = u2 then (u_in (bs ! u2))[j := (inl bs u2 j)
       \<lparr>i_nconnect := wrap32 (i_nconnect (inl bs u2 j) + 1)\<rparr>] else u_in (bs ! w))"
  using assms by (auto simp: add_connection_def Let_def set_inlet_def set_outlet_def nth_list_update)

lemma edges_add_connection:
  assumes "u1 < length bs" "k < nout bs u1" "u2 < length bs" "j < nin bs u2"
  shows "all_edges (add_connection u1 k u2 j bs) = add_mset ((u1, k), (u2, j)) (all_edges bs)"
proof -
  let ?bs = "add_connection u1 k u2 j bs" and ?f = "\<lambda>G u k. image_mset (Pair (u, k)) (mset (conns G u k))"
  note simps = add_connection_simps [OF assms]
  have other: "edges_from ?bs w = edges_from bs w" if "w \<noteq> u1" for w
    using that by (simp add: edges_from_def simps)
  have "edges_from ?bs u1 = ?f ?bs u1 k + (\<Sum>l\<in>{..<nout bs u1} - {k}. ?f ?bs u1 l)"
    unfolding edges_from_def using assms(2) by (subst sum.remove [of _ k]) (simp_all add: simps)
  also have "(\<Sum>l\<in>{..<nout bs u1} - {k}. ?f ?bs u1 l) = (\<Sum>l\<in>{..<nout bs u1} - {k}. ?f bs u1 l)"
    by (intro sum.cong) (auto simp: simps)
  also have "?f ?bs u1 k = add_mset ((u1, k), (u2, j)) (?f bs u1 k)" using assms(2) by (simp add: simps)
  also have "add_mset ((u1, k), (u2, j)) (?f bs u1 k) + (\<Sum>l\<in>{..<nout bs u1} - {k}. ?f bs u1 l) = add_mset ((u1, k), (u2, j)) (edges_from bs u1)"
    unfolding edges_from_def using assms(2) by (subst sum.remove [of "{..<nout bs u1}" k]) simp_all
  finally have one: "edges_from ?bs u1 = add_mset ((u1, k), (u2, j)) (edges_from bs u1)" .
  have "all_edges ?bs = edges_from ?bs u1 + (\<Sum>w\<in>{..<length bs} - {u1}. edges_from ?bs w)"
    unfolding edges_of_def simps using assms(1) by (intro sum.remove) auto
  also have "(\<Sum>w\<in>{..<length bs} - {u1}. edges_from ?bs w) = (\<Sum>w\<in>{..<length bs} - {u1}. edges_from bs w)"
    by (intro sum.cong) (auto simp: other)
  finally show ?thesis
    unfolding one edges_of_def using assms(1) by (subst sum.remove [of "{..<length bs}" u1]) simp_all
qed

lemma graph_pre_add_connection:
  assumes "graph_pre E bs" "u1 < length bs" "k < nout bs u1" "u2 < length bs" "j < nin bs u2" "int (size (all_edges bs)) + 1 < 2 ^ 31"
  shows "graph_pre E (add_connection u1 k u2 j bs)"
proof -
  let ?bs = "add_connection u1 k u2 j bs"
  note simps = add_connection_simps [OF assms(2-5)]
  have inc: "incoming ?bs v l = (if (v, l) = (u2, j) then add_mset (u1, k) (incoming bs v l) else incoming bs v l)" for v l
    unfolding incoming_def edges_add_connection [OF assms(2-5)] by auto
  have out: "o_nconnect (u_out (bs ! u1) ! k) = int (length (conns bs u1 k))" using assms(1-3) by (simp add: graph_pre_def)
  have "int (length (conns bs u1 k)) + 1 < 2 ^ 31" using size_conns [OF assms(2,3)] assms(6) by linarith
  then have w1: "wrap32 (int (length (conns bs u1 k)) + 1) = int (Suc (length (conns bs u1 k)))" by simp
  have inn: "i_nconnect (inl bs u2 j) = int (size (incoming bs u2 j))" using assms(1,4,5) by (simp add: graph_pre_def)
  have "int (size (incoming bs u2 j)) + 1 < 2 ^ 31" using size_incoming [of bs u2 j] assms(6) by linarith
  then have w2: "wrap32 (int (size (incoming bs u2 j)) + 1) = int (Suc (size (incoming bs u2 j)))" by simp
  have nin: "nin ?bs v = nin bs v" and nout: "nout ?bs v = nout bs v" for v by (simp_all add: simps)
  show ?thesis unfolding graph_pre_def
  proof (intro allI impI conjI)
    fix u assume u: "u < length ?bs"
    then have g: "u < length bs" by (simp add: simps)
    show "nin ?bs u = nat (obj_nsiginlets (e_object E (u_obj (?bs ! u))))" "nout ?bs u = nat (obj_nsigoutlets (e_object E (u_obj (?bs ! u))))"
      using assms(1) g by (simp_all add: graph_pre_def nin nout simps(2))
    fix l assume l: "l < nout ?bs u"
    have old: "o_nconnect (u_out (bs ! u) ! l) = int (length (conns bs u l))" "\<forall>(v, j) \<in> set (conns bs u l). v < length bs \<and> j < nin bs v"
      using assms(1) g l by (simp_all add: graph_pre_def nout)
    show "o_nconnect (u_out (?bs ! u) ! l) = int (length (conns ?bs u l))"
      using old(1) out w1 l assms(3) by (auto simp: simps nth_list_update)
    have "set (conns ?bs u l) \<subseteq> insert (u2, j) (set (conns bs u l))" using assms(3) l by (auto simp: simps nth_list_update)
    then show "\<forall>(v, j) \<in> set (conns ?bs u l). v < length ?bs \<and> j < nin ?bs v"
      using old(2) assms(4,5) unfolding nin simps(1) by auto
  next
    fix u l assume "u < length ?bs" "l < nin ?bs u"
    then have "i_nconnect (inl bs u l) = int (size (incoming bs u l))" "l < nin bs u"
      using assms(1) by (simp_all add: graph_pre_def nin simps(1))
    then show "i_nconnect (inl ?bs u l) = int (size (incoming ?bs u l))"
      using inn w2 by (auto simp: simps(4) inc nth_list_update)
  qed
qed

text \<open>The boxes that \<open>ugen_add\<close> makes, and the graph of a canvas before its connections.\<close>

definition new_box :: "ugen_env \<Rightarrow> nat \<Rightarrow> t_ugenbox" where
  "new_box E obj = \<lparr>
     u_in = replicate (nat (obj_nsiginlets (e_object E obj))) \<lparr>i_nconnect = 0, i_ngot = 0, i_signal = None\<rparr>,
     u_out = replicate (nat (obj_nsigoutlets (e_object E obj))) \<lparr>o_nconnect = 0, o_signal = None, o_conns = []\<rparr>,
     u_obj = obj, u_done = False\<rparr>"

lemma add_boxes_eq:
  "add_boxes E hasdsp ys dc = dc\<lparr>dc_ugenlist := rev [length (dc_boxes dc)..<length (dc_boxes dc) + length (filter hasdsp ys)] @ dc_ugenlist dc,
     dc_boxes := dc_boxes dc @ map (new_box E) (filter hasdsp ys)\<rparr>"
proof (induction ys arbitrary: dc)
  case Nil
  show ?case by (simp add: add_boxes_def)
next
  case (Cons y ys)
  have "add_boxes E hasdsp (y # ys) dc = add_boxes E hasdsp ys (if hasdsp y then ugen_add E y dc else dc)" by (simp add: add_boxes_def)
  moreover have "[n..<n + Suc l] = n # [Suc n..<Suc n + l]" for n l :: nat by (simp add: upt_rec)
  ultimately show ?case using Cons.IH by (simp add: ugen_add_def new_box_def del: upt_Suc)
qed

lemma new_boxes: "graph_pre E (map (new_box E) xs)" "all_edges (map (new_box E) xs) = {#}"
proof -
  have e: "edges_from (map (new_box E) xs) u = {#}" if "u < length xs" for u
    using that by (simp add: edges_from_def new_box_def)
  then show a: "all_edges (map (new_box E) xs) = {#}" by (simp add: edges_of_def)
  have "incoming (map (new_box E) xs) u j = {#}" for u j unfolding incoming_def a by simp
  then show "graph_pre E (map (new_box E) xs)" by (simp add: graph_pre_def) (simp add: new_box_def)
qed

text \<open>
  A connection that \<open>canvas_connect\<close> would have made: its ends are objects of the canvas with a method \<open>dsp\<close>, and a signal
  outlet goes to a signal inlet.
\<close>

definition line_ok :: "ugen_env \<Rightarrow> nat list \<Rightarrow> nat \<times> int \<times> nat \<times> int \<Rightarrow> bool" where
  "line_ok E xs l = (case l of (x1, outno, x2, inno) \<Rightarrow> obj_issignaloutlet (e_object E x1) outno \<longrightarrow>
     x1 \<in> set xs \<and> x2 \<in> set xs \<and> 0 \<le> obj_sigoutletindex (e_object E x1) outno \<and>
     obj_sigoutletindex (e_object E x1) outno < obj_nsigoutlets (e_object E x1) \<and>
     obj_siginletindex (e_object E x2) inno < obj_nsiginlets (e_object E x2))"

lemma find_box_ok:
  assumes "map u_obj (dc_boxes dc) = xs" "set (dc_ugenlist dc) = {..<length xs}" "x \<in> set xs"
  shows "\<exists>u. find_box x dc = Some u \<and> u < length xs \<and> u_obj (dc_boxes dc ! u) = x"
proof -
  obtain v where v: "v < length xs" "xs ! v = x" using assms(3) by (auto simp: in_set_conv_nth)
  have "find (\<lambda>u. u_obj (dc_boxes dc ! u) = x) (dc_ugenlist dc) \<noteq> None"
    using v assms(1,2) by (auto simp: find_None_iff)
  then obtain u where u: "find (\<lambda>u. u_obj (dc_boxes dc ! u) = x) (dc_ugenlist dc) = Some u" by auto
  then have "u \<in> set (dc_ugenlist dc)" "u_obj (dc_boxes dc ! u) = x" by (auto simp: find_Some_iff)
  then show ?thesis using u assms(2) by (auto simp: find_box_def)
qed

lemma ugen_connect_ok:
  assumes "graph_pre E (dc_boxes dc)" "map u_obj (dc_boxes dc) = xs" "set (dc_ugenlist dc) = {..<length xs}"
    "line_ok E xs (x1, outno, x2, inno)" "obj_issignaloutlet (e_object E x1) outno" "int (size (all_edges (dc_boxes dc))) + 1 < 2 ^ 31"
  shows "\<exists>bs. ugen_connect E x1 outno x2 inno dc = Inr (dc\<lparr>dc_boxes := bs\<rparr>) \<and> graph_pre E bs \<and> map u_obj bs = xs \<and>
    size (all_edges bs) \<le> Suc (size (all_edges (dc_boxes dc)))"
proof -
  let ?bs = "dc_boxes dc" and ?k = "obj_sigoutletindex (e_object E x1) outno" and ?j = "obj_siginletindex (e_object E x2) inno"
  have l: "x1 \<in> set xs" "x2 \<in> set xs" "0 \<le> ?k" "?k < obj_nsigoutlets (e_object E x1)" "?j < obj_nsiginlets (e_object E x2)"
    using assms(4,5) by (simp_all add: line_ok_def)
  obtain u1 where u1: "find_box x1 dc = Some u1" "u1 < length ?bs" "u_obj (?bs ! u1) = x1"
    using find_box_ok [OF assms(2,3) l(1)] assms(2) by auto
  obtain u2 where u2: "find_box x2 dc = Some u2" "u2 < length ?bs" "u_obj (?bs ! u2) = x2"
    using find_box_ok [OF assms(2,3) l(2)] assms(2) by auto
  have n: "nout ?bs u1 = nat (obj_nsigoutlets (e_object E x1))" "nin ?bs u2 = nat (obj_nsiginlets (e_object E x2))"
    using assms(1) u1 u2 by (simp_all add: graph_pre_def)
  show ?thesis
  proof (cases "?j < 0")
    case True
    then show ?thesis using u1 u2 assms(1,2) by (intro exI [of _ ?bs]) (simp add: ugen_connect_def Let_def)
  next
    case False
    then have kj: "nat ?k < nout ?bs u1" "nat ?j < nin ?bs u2" using l(3-5) n by auto
    note p = u1(2) kj(1) u2(2) kj(2)
    let ?b = "add_connection u1 (nat ?k) u2 (nat ?j) ?bs"
    have "map u_obj ?b = xs" using assms(2) add_connection_simps(1,2) [OF p] by (intro nth_equalityI) auto
    moreover have "ugen_connect E x1 outno x2 inno dc = Inr (dc\<lparr>dc_boxes := ?b\<rparr>)"
      using False u1(1) u2(1) l(3-5) n by (auto simp: ugen_connect_def Let_def)
    ultimately show ?thesis
      using graph_pre_add_connection [OF assms(1) p assms(6)] edges_add_connection [OF p] by (intro exI [of _ ?b]) simp
  qed
qed

lemma add_lines_ok:
  assumes "graph_pre E (dc_boxes dc)" "map u_obj (dc_boxes dc) = xs" "set (dc_ugenlist dc) = {..<length xs}"
    "\<forall>l \<in> set ls. line_ok E xs l" "int (size (all_edges (dc_boxes dc))) + int (length ls) < 2 ^ 31"
  shows "\<exists>bs. add_lines E ls dc = Inr (dc\<lparr>dc_boxes := bs\<rparr>) \<and> graph_ok E bs \<and> map u_obj bs = xs"
  using assms
proof (induction ls arbitrary: dc)
  case Nil
  then show ?case using graph_ok_of by (intro exI [of _ "dc_boxes dc"]) simp
next
  case (Cons l ls)
  obtain x1 outno x2 inno where l: "l = (x1, outno, x2, inno)" by (cases l)
  show ?case
  proof (cases "obj_issignaloutlet (e_object E x1) outno")
    case False
    then show ?thesis using Cons l by simp
  next
    case True
    obtain bs where bs: "ugen_connect E x1 outno x2 inno dc = Inr (dc\<lparr>dc_boxes := bs\<rparr>)" "graph_pre E bs" "map u_obj bs = xs"
        "size (all_edges bs) \<le> Suc (size (all_edges (dc_boxes dc)))"
      using ugen_connect_ok [OF Cons.prems(1-3) _ True, of x2 inno] Cons.prems(4,5) l by auto
    then show ?thesis using Cons.IH [of "dc\<lparr>dc_boxes := bs\<rparr>"] Cons.prems(3-5) True l by auto
  qed
qed

definition canvas_graph :: "ugen_env \<Rightarrow> t_dspcanvas \<Rightarrow> t_ugenbox list" where
  "canvas_graph E x = (case add_lines E (cv_lines x) (add_boxes E (\<lambda>_. True) (cv_list x) (ugen_start_graph True None 0 0)) of
     Inr dc \<Rightarrow> dc_boxes dc | Inl e \<Rightarrow> [])"

definition canvas_ok :: "ugen_env \<Rightarrow> t_dspcanvas \<Rightarrow> bool" where
  "canvas_ok E x \<longleftrightarrow> (\<forall>l \<in> set (cv_lines x). line_ok E (cv_list x) l) \<and> int (length (cv_lines x)) < 2 ^ 31"

lemma canvas_built:
  assumes "canvas_ok E x"
  shows "\<exists>dc. add_lines E (cv_lines x) (add_boxes E (\<lambda>_. True) (cv_list x) (ugen_start_graph True None a b)) = Inr dc \<and>
    dc_boxes dc = canvas_graph E x \<and> set (dc_ugenlist dc) = {..<length (dc_boxes dc)} \<and> graph_ok E (dc_boxes dc) \<and>
    dc_noutlets dc = 0 \<and> dc_iosigs dc = None"
proof -
  have start: "ugen_start_graph True None a b = ugen_start_graph True None 0 0" for a b by (simp add: ugen_start_graph_def)
  let ?dc = "add_boxes E (\<lambda>_. True) (cv_list x) (ugen_start_graph True None 0 0)"
  have f: "dc_boxes ?dc = map (new_box E) (cv_list x)" "set (dc_ugenlist ?dc) = {..<length (cv_list x)}" "dc_noutlets ?dc = 0" "dc_iosigs ?dc = None"
    by (auto simp: add_boxes_eq ugen_start_graph_def)
  have "map u_obj (dc_boxes ?dc) = cv_list x" unfolding f(1) by (simp add: new_box_def comp_def)
  then obtain bs where bs: "add_lines E (cv_lines x) ?dc = Inr (?dc\<lparr>dc_boxes := bs\<rparr>)" "graph_ok E bs" "map u_obj bs = cv_list x"
    using add_lines_ok [of E ?dc "cv_list x" "cv_lines x"] f assms new_boxes [of E "cv_list x"] by (auto simp: canvas_ok_def)
  have "length bs = length (cv_list x)" using bs(3) by (metis length_map)
  then show ?thesis using bs f start [of a b] by (auto simp: canvas_graph_def)
qed

lemma each_box_id: "(\<And>x. x \<in> set xs \<Longrightarrow> f x = Inr) \<Longrightarrow> each_box f xs st = Inr st"
  by (induction xs) simp_all

definition top_rates :: "fl \<Rightarrow> int \<Rightarrow> rates" where
  "top_rates sr n = \<lparr>dc_srate = sr, dc_vecsize = n, dc_calcsize = n, dc_reblock = True, dc_switched = False, dc_period = 1,
     dc_frequency = 1, dc_downsample = 1, dc_upsample = 1\<rparr>"

lemma done_graph_top:
  assumes "\<And>x. e_class E x = OtherC" "dc_noutlets dc = 0" "dc_iosigs dc = None"
  shows "ugen_done_graph E depth None sr n phase dc st =
    rbind (ugen_sort E (top_rates sr n) depth (dc_ugenlist dc) (dc_boxes dc, st))
      (\<lambda>(bs, st'). Some (Inr (\<exists>u \<in> set (dc_ugenlist dc). \<not> u_done (bs ! u), bs, st')))"
proof -
  have "find (\<lambda>x. e_class E x = BlockC) xs = None" for xs using assms(1) by (simp add: find_None_iff)
  moreover have "canvas_rates sr n None phase None = Inr (top_rates sr n, None)" by (simp add: canvas_rates_def top_rates_def)
  ultimately show ?thesis
    using assms by (simp add: ugen_done_graph_def Let_def each_box_id split_def cong: if_cong)
qed

text \<open>A graph of which every object is reached by going back from it in the end has no cycle, and conversely.\<close>

lemma accessible_iff_acyclic:
  assumes "graph_ok E G"
  shows "(\<forall>u < length G. Wellfounded.accp (feeds G) u) \<longleftrightarrow> \<not> (\<exists>u. (feeds G)\<^sup>+\<^sup>+ u u)"
proof -
  let ?R = "{(u, v). feeds G u v}"
  have sub: "?R \<subseteq> {..<length G} \<times> {..<length G}" using assms by (fastforce simp: feeds_def graph_ok_def)
  have "(\<forall>u < length G. Wellfounded.accp (feeds G) u) \<longleftrightarrow> (\<forall>u. Wellfounded.accp (feeds G) u)"
  proof (intro iffI allI impI)
    fix u assume a: "\<forall>u < length G. Wellfounded.accp (feeds G) u"
    show "Wellfounded.accp (feeds G) u"
    proof (rule accpI)
      fix w assume "feeds G w u"
      then have "w < length G" by (simp add: feeds_def)
      then show "Wellfounded.accp (feeds G) w" using a by simp
    qed
  qed simp
  also have "\<dots> \<longleftrightarrow> wf ?R" by (simp add: wf_iff_acc accp_acc_eq [symmetric])
  also have "\<dots> \<longleftrightarrow> acyclic ?R" using sub finite_subset by (intro wf_iff_acyclic_if_finite) auto
  also have "\<dots> \<longleftrightarrow> \<not> (\<exists>u. (feeds G)\<^sup>+\<^sup>+ u u)" by (simp add: acyclic_def tranclp_unfold)
  finally show ?thesis .
qed

context plain_objects
begin

lemma canvas_top:
  assumes "\<And>x. e_class E x = OtherC" "canvas_ok E x" "r = top_rates sr n"
  shows "\<exists>loop bs st' ord arr val. canvas_dodsp E (\<lambda>_. True) None sr n phase True None x (ugen_start st) = Some (Inr (loop, bs, st')) \<and>
    distinct ord \<and> set ord = {u. u < length (canvas_graph E x) \<and> Wellfounded.accp (feeds (canvas_graph E x)) u} \<and>
    (loop \<longleftrightarrow> (\<exists>u. (feeds (canvas_graph E x))\<^sup>+\<^sup>+ u u)) \<and>
    (\<forall>i < length ord. \<forall>j < nin (canvas_graph E x) (ord ! i). mset (arr (ord ! i) j) = incoming (canvas_graph E x) (ord ! i) j \<and>
       fst ` set (arr (ord ! i) j) \<subseteq> set (take i ord)) \<and>
    computed E F (canvas_graph E x) ord arr val (snd (exec_chain F (chain st') m0)) \<and> list_all (wf_op E N) (chain st')"
proof -
  let ?G = "canvas_graph E x" and ?ob = "e_object E (cv_self x)"
  obtain dc where dc: "add_lines E (cv_lines x) (add_boxes E (\<lambda>_. True) (cv_list x)
        (ugen_start_graph True None (obj_nsiginlets ?ob) (obj_nsigoutlets ?ob))) = Inr dc"
      "dc_boxes dc = ?G" "set (dc_ugenlist dc) = {..<length ?G}" "graph_ok E ?G" "dc_noutlets dc = 0" "dc_iosigs dc = None"
    using canvas_built [OF assms(2), of "obj_nsiginlets ?ob" "obj_nsigoutlets ?ob"] by auto
  have fresh: "sig_store (sg (ugen_start st)) = []" "signal_freeborrowed (sg (ugen_start st)) = []"
      "signal_freelist (sg (ugen_start st)) = (\<lambda>_. [])" "chain (ugen_start st) = []"
    by (simp_all add: ugen_start_def signal_cleanup_def)
  obtain ord arr val bs' st' where s: "ugen_sort E r (length ?G) (dc_ugenlist dc) (?G, ugen_start st) = Some (Inr (bs', st'))" "distinct ord"
      "set ord = {u. u < length ?G \<and> Wellfounded.accp (feeds ?G) u}" "\<forall>u < length ?G. u_done (bs' ! u) \<longleftrightarrow> u \<in> set ord"
      "\<forall>i < length ord. \<forall>j < nin ?G (ord ! i). mset (arr (ord ! i) j) = incoming ?G (ord ! i) j \<and> fst ` set (arr (ord ! i) j) \<subseteq> set (take i ord)"
      "computed E F ?G ord arr val (snd (exec_chain F (chain st') m0))" "list_all (wf_op E N) (chain st')"
    using sort_ok [OF dc(4) order_refl dc(3) fresh, of m0] by (elim exE conjE) (rule that)
  have "(\<exists>u \<in> set (dc_ugenlist dc). \<not> u_done (bs' ! u)) \<longleftrightarrow> \<not> (\<forall>u < length ?G. Wellfounded.accp (feeds ?G) u)"
    using s(3,4) dc(3) by auto
  also have "\<dots> \<longleftrightarrow> (\<exists>u. (feeds ?G)\<^sup>+\<^sup>+ u u)" using accessible_iff_acyclic [OF dc(4)] by blast
  finally have "canvas_dodsp E (\<lambda>_. True) None sr n phase True None x (ugen_start st) = Some (Inr (\<exists>u. (feeds ?G)\<^sup>+\<^sup>+ u u, bs', st'))"
    using s(1) dc assms(3) by (simp add: canvas_dodsp_def Let_def done_graph_top [OF assms(1) dc(5,6)])
  then show ?thesis using s(2,3,5-7) by (intro exI [of _ "\<exists>u. (feeds ?G)\<^sup>+\<^sup>+ u u"] exI [of _ bs'] exI [of _ st'] exI [of _ ord] exI [of _ arr] exI [of _ val]) blast
qed

end

subsection \<open>Arithmetic objects\<close>

text \<open>An object is made without an argument, with two signal inlets, or with one, which is the number for its second inlet.\<close>

datatype arith_obj = VecVec sigbinop | VecNum sigbinop fl

definition arith_args :: "sigbinop \<Rightarrow> t_atom list \<Rightarrow> arith_obj" where
  "arith_args k argv = (if argv = [] then VecVec k else VecNum k (atom_getfloatarg 0 argv))"

definition arith_base :: t_object where
  "arith_base = \<lparr>ob_inlet = [], ob_outlet = [], c_firstin = True, c_floatsignalin = 48\<rparr>"

fun arith_new :: "nat \<Rightarrow> arith_obj \<Rightarrow> t_object" where
  "arith_new x (VecVec k) = outlet_new 1 s_signal (inlet_new 0 (ObjRef x) s_signal ''signal'' arith_base)"
| "arith_new x (VecNum k g) = outlet_new 1 s_signal (floatinlet_new 0 x arith_base)"

fun arith_dsp :: "arith_obj \<Rightarrow> nat \<Rightarrow> nat list \<Rightarrow> dspst \<Rightarrow> dspst cresult" where
  "arith_dsp (VecVec k) x (s0 # s1 # s2 # sp) st = cbind (getsig s0 (sg st)) (\<lambda>x0. cbind (getsig s1 (sg st)) (\<lambda>x1.
     cbind (getsig s2 (sg st)) (\<lambda>x2. Inr (st\<lparr>chain := chain st @ [DspUgen x [s_vec x0, s_vec x1] [s_vec x2] 4]\<rparr>))))"
| "arith_dsp (VecNum k g) x (s0 # s1 # sp) st = cbind (getsig s0 (sg st)) (\<lambda>x0. cbind (getsig s1 (sg st)) (\<lambda>x1.
     Inr (st\<lparr>chain := chain st @ [DspUgen x [s_vec x0] [s_vec x1] 4]\<rparr>)))"
| "arith_dsp _ x sp st = Inl OutOfBounds"

definition arith_env :: "(nat \<Rightarrow> arith_obj) \<Rightarrow> ugen_env" where
  "arith_env A = \<lparr>e_object = (\<lambda>x. arith_new x (A x)), e_class = (\<lambda>_. OtherC), e_dsp = (\<lambda>x. arith_dsp (A x) x),
     vinlet_dspprolog = (\<lambda>_ _ _. Inr), voutlet_dspprolog = (\<lambda>_ _ _. Inr), voutlet_dspepilog = (\<lambda>_ _ _. Inr)\<rparr>"

text \<open>What the routines for vectors of a multiple of 8 samples compute.\<close>

fun scalar_val :: "sigbinop \<Rightarrow> fl \<Rightarrow> fl \<Rightarrow> fl" where
  "scalar_val OverS g f = fmul binary32 f (if \<not> fzero g then fdiv binary32 (Fin 1) g else g)"
| "scalar_val k g f = binop_val k f g"

definition arith_sem :: "(nat \<Rightarrow> arith_obj) \<Rightarrow> (nat \<Rightarrow> scalar_ref \<Rightarrow> fl) \<Rightarrow> nat \<Rightarrow> fl list sem" where
  "arith_sem A scal n = \<lparr>v_zero = replicate n (Fin 0), v_scalar = (\<lambda>x c. replicate n (scal x c)), v_plus = map2 (fadd binary32),
     perf = (\<lambda>x vs. [case A x of VecVec k \<Rightarrow> map2 (binop_val k) (vs ! 0) (vs ! 1) | VecNum k g \<Rightarrow> map (scalar_val k g) (vs ! 0)])\<rparr>"

lemma arith_inlets: "obj_nsiginlets (arith_new x a) = (case a of VecVec k \<Rightarrow> 2 | VecNum k g \<Rightarrow> 1)" "obj_nsigoutlets (arith_new x a) = 1"
  by (cases a; simp add: obj_nsiginlets_def obj_nsigoutlets_def arith_base_def outlet_new_def inlet_new_def floatinlet_new_def slotinlet_new_def
      first_sig_def is_sig_in_def is_sig_out_def sel_defs)+

lemma arith_plain:
  assumes "pow2 (dc_vecsize r)" "dc_srate r \<noteq> NaN"
  shows "plain_objects (arith_env A) r (\<lambda>_. 4) (arith_sem A scal n)"
proof
  fix x :: nat and ins outs :: "nat list" and st :: dspst
  assume len: "length ins = nat (obj_nsiginlets (e_object (arith_env A) x))" "length outs = nat (obj_nsigoutlets (e_object (arith_env A) x))"
    and range: "set (ins @ outs) \<subseteq> {..<length (sig_store (sg st))}"
  have outs: "\<exists>c. outs = [c]" using len(2) by (auto simp: arith_env_def arith_inlets length_Suc_conv)
  show "e_dsp (arith_env A) x (ins @ outs) st = Inr (st\<lparr>chain := chain st @ [DspUgen x (vecs st ins) (vecs st outs) 4]\<rparr>)"
  proof (cases "A x")
    case (VecVec k)
    then have "\<exists>a b. ins = [a, b]" using len(1) by (auto simp: arith_env_def arith_inlets length_Suc_conv numeral_2_eq_2 simp del: arith_new.simps)
    then show ?thesis using VecVec outs range by (auto simp: arith_env_def getsig_def vecs_def)
  next
    case (VecNum k g)
    then have "\<exists>a. ins = [a]" using len(1) by (auto simp: arith_env_def arith_inlets length_Suc_conv simp del: arith_new.simps)
    then show ?thesis using VecNum outs range by (auto simp: arith_env_def getsig_def vecs_def)
  qed
qed (use assms in \<open>simp_all add: arith_env_def arith_sem_def arith_inlets\<close>)

text \<open>The sizes that are used when nothing else is asked for.\<close>

definition default_rates :: rates where "default_rates = top_rates (Fin 44100) 64"

lemma pow2_64: "pow2 64"
  unfolding pow2_def by (rule exI [of _ 6]) simp

interpretation arith: plain_objects "arith_env A" default_rates "\<lambda>_. 4" "arith_sem A scal 64" for A scal
  by (rule arith_plain) (simp_all add: default_rates_def top_rates_def pow2_64)

subsection \<open>Running the chain on samples\<close>

text \<open>Vector \<open>a\<close> of the chain is the \<open>n\<close> samples from \<open>a * n\<close> on.\<close>

fun scalar_perform :: "sigbinop \<Rightarrow> fl \<Rightarrow> nat \<Rightarrow> nat \<Rightarrow> nat \<Rightarrow> samples \<Rightarrow> samples" where
  "scalar_perform PlusS = scalarplus_perform"
| "scalar_perform MinusS = scalarminus_perform"
| "scalar_perform TimesS = scalartimes_perform"
| "scalar_perform OverS = scalarover_perform"
| "scalar_perform MaxS = scalarmax_perform"
| "scalar_perform MinS = scalarmin_perform"

fun scalar_perf8 :: "sigbinop \<Rightarrow> fl \<Rightarrow> nat \<Rightarrow> nat \<Rightarrow> nat \<Rightarrow> samples \<Rightarrow> samples option" where
  "scalar_perf8 PlusS = scalarplus_perf8"
| "scalar_perf8 MinusS = scalarminus_perf8"
| "scalar_perf8 TimesS = scalartimes_perf8"
| "scalar_perf8 OverS = scalarover_perf8"
| "scalar_perf8 MaxS = scalarmax_perf8"
| "scalar_perf8 MinS = scalarmin_perf8"

definition run_scalar :: "sigbinop \<Rightarrow> fl \<Rightarrow> nat \<Rightarrow> nat \<Rightarrow> nat \<Rightarrow> samples \<Rightarrow> samples option" where
  "run_scalar k g in1 out n m = (if n mod 8 \<noteq> 0 then Some (scalar_perform k g in1 out n m) else scalar_perf8 k g in1 out n m)"

fun run_op :: "(nat \<Rightarrow> arith_obj) \<Rightarrow> (nat \<Rightarrow> scalar_ref \<Rightarrow> fl) \<Rightarrow> nat \<Rightarrow> dsp_op \<Rightarrow> samples \<Rightarrow> samples option" where
  "run_op A scal n (DspZero (Some a) l) m = dsp_add_zero (a * n) (nat l) m"
| "run_op A scal n (DspScalarcopy x c (Some a) l) m = dsp_add_scalarcopy (scal x c) (a * n) (nat l) m"
| "run_op A scal n (DspPlus (Some a) (Some b) (Some c) l) m = run_binop PlusS (a * n) (b * n) (c * n) (nat l) m"
| "run_op A scal n (DspUgen x is os k) m = (case (A x, is, os) of
       (VecVec k, [Some a, Some b], [Some c]) \<Rightarrow> run_binop k (a * n) (b * n) (c * n) n m
     | (VecNum k g, [Some a], [Some c]) \<Rightarrow> run_scalar k g (a * n) (c * n) n m
     | _ \<Rightarrow> None)"
| "run_op A scal n _ m = None"

definition vec_of :: "nat \<Rightarrow> samples \<Rightarrow> nat \<Rightarrow> fl list" where
  "vec_of n m a = vec (a * n) n m"

fun calls :: "nat \<Rightarrow> dsp_op \<Rightarrow> samples \<Rightarrow> (nat \<times> fl list list) list" where
  "calls n (DspUgen x is os k) m = [(x, map (vec_of n m \<circ> the) is)]"
| "calls n _ m = []"

definition run_samples :: "(nat \<Rightarrow> arith_obj) \<Rightarrow> (nat \<Rightarrow> scalar_ref \<Rightarrow> fl) \<Rightarrow> nat \<Rightarrow> dsp_op list \<Rightarrow> samples \<Rightarrow>
    (samples \<times> (nat \<times> fl list list) list) option" where
  "run_samples A scal n ops m = fold (\<lambda>op acc. case acc of None \<Rightarrow> None | Some (m, t) \<Rightarrow>
     map_option (\<lambda>m'. (m', t @ calls n op m)) (run_op A scal n op m)) ops (Some (m, []))"

lemma apart_vecs [simp]: "apart (a * n) (b * n) n"
proof -
  have "a * n + n \<le> b * n" if "a < b" for a b using mult_le_mono1 [of "Suc a" b n] that by simp
  then show ?thesis by (cases a b rule: linorder_cases) (auto simp: apart_def)
qed

lemma vec_of_write: "length vs = n \<Longrightarrow> vec_of n (write_vec (a * n) vs m) = (vec_of n m)(a := vs)"
proof (intro ext nth_equalityI)
  fix b assume "length vs = n"
  then show "length (vec_of n (write_vec (a * n) vs m) b) = length (((vec_of n m)(a := vs)) b)" by (simp add: vec_of_def)
  fix i assume "i < length (vec_of n (write_vec (a * n) vs m) b)"
  then have i: "i < n" by (simp add: vec_of_def)
  have "a = b" if "a * n \<le> b * n + i" "b * n + i < a * n + n"
    using apart_vecs [of b n a] i that by (auto simp: apart_def)
  then show "vec_of n (write_vec (a * n) vs m) b ! i = ((vec_of n m)(a := vs)) b ! i"
    using i \<open>length vs = n\<close> by (auto simp: vec_of_def write_vec_eq)
qed

lemma run_binop_vec:
  assumes "n mod 8 = 0"
  shows "run_binop k (a * n) (b * n) (c * n) n m = Some (write_vec (c * n) (map2 (binop_val k) (vec_of n m a) (vec_of n m b)) m)"
  using assms by (cases k) (simp_all add: run_binop_def binop_defs by8_2_eq vec_of_def)

lemma scalar_val_fun:
  "scalar_val PlusS g = (\<lambda>f. fadd binary32 f g)" "scalar_val MinusS g = (\<lambda>f. fsub binary32 f g)" "scalar_val TimesS g = (\<lambda>f. fmul binary32 f g)"
  "scalar_val OverS g = (\<lambda>f. fmul binary32 f (if \<not> fzero g then fdiv binary32 (Fin 1) g else g))"
  "scalar_val MaxS g = (\<lambda>f. max_val f g)" "scalar_val MinS g = (\<lambda>f. min_val f g)"
  by (rule ext, simp)+

lemma one_vec: "None \<notin> set vs \<Longrightarrow> length vs = 1 \<Longrightarrow> \<exists>a. vs = [Some a]"
  by (cases vs; cases "hd vs") auto

lemma two_vecs: "None \<notin> set vs \<Longrightarrow> length vs = 2 \<Longrightarrow> \<exists>a b. vs = [Some a, Some b]"
  using one_vec [of "tl vs"] by (cases vs; cases "hd vs") auto

lemma run_scalar_vec:
  assumes "n mod 8 = 0"
  shows "run_scalar k g (a * n) (c * n) n m = Some (write_vec (c * n) (map (scalar_val k g) (vec_of n m a)) m)"
proof -
  have "scalar_perf8 k g = by8_1 (scalar_val k g)"
    by (cases k) (simp_all only: scalar_perf8.simps scalar_defs scalarover_perf8_def scalar_val_fun)
  then show ?thesis using assms by (simp add: run_scalar_def by8_1_eq vec_of_def)
qed

lemma write_all_one: "write_all [c] [v] m = m(c := v)"
  by (intro ext) (simp add: write_all_def)

lemma length_vec_of [simp]: "length (vec_of n m a) = n"
  by (simp add: vec_of_def)

lemma run_op_sim:
  assumes "wf_op (arith_env A) (int n) op" "n mod 8 = 0"
  shows "\<exists>m'. run_op A scal n op m = Some m' \<and> exec_op (arith_sem A scal n) op (vec_of n m, t) = (vec_of n m', t @ calls n op m)"
proof (cases op)
  case (DspUgen x "is" os k)
  have wf: "None \<notin> set is" "None \<notin> set os" "length is = nat (obj_nsiginlets (arith_new x (A x)))" "length os = 1"
    using assms(1) DspUgen by (simp_all add: arith_env_def arith_inlets del: arith_new.simps)
  obtain c where c: "os = [Some c]" using one_vec wf(2,4) by auto
  show ?thesis
  proof (cases "A x")
    case (VecVec l)
    then obtain a b where "is = [Some a, Some b]" using two_vecs [OF wf(1)] wf(3) by (auto simp: arith_inlets simp del: arith_new.simps)
    then show ?thesis using DspUgen VecVec c assms(2)
      by (simp add: run_binop_vec vec_of_write arith_sem_def write_all_one)
  next
    case (VecNum l g)
    then obtain a where "is = [Some a]" using one_vec [OF wf(1)] wf(3) by (auto simp: arith_inlets simp del: arith_new.simps)
    then show ?thesis using DspUgen VecNum c assms(2)
      by (simp add: run_scalar_vec vec_of_write arith_sem_def write_all_one)
  qed
qed (use assms in \<open>auto simp: dsp_add_zero_def dsp_add_scalarcopy_def zero_perf8_def sig_tilde_perf8_def by8_0_eq vec_of_write arith_sem_def
  run_binop_vec\<close>)

lemma run_samples_snoc: "run_samples A scal n (ops @ [op]) m = (case run_samples A scal n ops m of None \<Rightarrow> None | Some (m, t) \<Rightarrow>
     map_option (\<lambda>m'. (m', t @ calls n op m)) (run_op A scal n op m))"
  by (simp add: run_samples_def)

lemma run_samples_sim:
  assumes "list_all (wf_op (arith_env A) (int n)) ops" "n mod 8 = 0"
  shows "\<exists>m' t. run_samples A scal n ops m = Some (m', t) \<and> exec_chain (arith_sem A scal n) ops (vec_of n m) = (vec_of n m', t)"
  using assms(1)
proof (induction ops rule: rev_induct)
  case Nil
  show ?case by (simp add: run_samples_def exec_chain_def)
next
  case (snoc op ops)
  then obtain m' t where IH: "run_samples A scal n ops m = Some (m', t)" "exec_chain (arith_sem A scal n) ops (vec_of n m) = (vec_of n m', t)"
    by auto
  obtain m'' where "run_op A scal n op m' = Some m''" "exec_op (arith_sem A scal n) op (vec_of n m', t) = (vec_of n m'', t @ calls n op m')"
    using run_op_sim [of A n op scal m' t] snoc.prems assms(2) by auto
  then show ?case using IH by (simp add: run_samples_snoc exec_chain_snoc)
qed

text \<open>
  A canvas of arithmetic objects: \<open>ord\<close> are its objects in the order of the chain, \<open>arr\<close> says in which order the connections
  to an inlet are summed, and \<open>val\<close> what the outlets carry.
\<close>

definition schedule_ok :: "t_ugenbox list \<Rightarrow> nat list \<Rightarrow> (nat \<Rightarrow> nat \<Rightarrow> (nat \<times> nat) list) \<Rightarrow> bool" where
  "schedule_ok G ord arr \<longleftrightarrow> distinct ord \<and> set ord = {u. u < length G \<and> Wellfounded.accp (feeds G) u} \<and>
     (\<forall>i < length ord. \<forall>j < nin G (ord ! i). mset (arr (ord ! i) j) = incoming G (ord ! i) j \<and>
        fst ` set (arr (ord ! i) j) \<subseteq> set (take i ord))"

lemma arith_canvas:
  assumes "pow2 (int n)" "sr \<noteq> NaN" "canvas_ok (arith_env A) x" "n mod 8 = 0"
  shows "\<exists>loop bs st' ord arr val m' t. canvas_dodsp (arith_env A) (\<lambda>_. True) None sr (int n) phase True None x (ugen_start st) =
      Some (Inr (loop, bs, st')) \<and> (loop \<longleftrightarrow> (\<exists>u. (feeds (canvas_graph (arith_env A) x))\<^sup>+\<^sup>+ u u)) \<and>
    schedule_ok (canvas_graph (arith_env A) x) ord arr \<and> run_samples A scal n (chain st') m = Some (m', t) \<and>
    computed (arith_env A) (arith_sem A scal n) (canvas_graph (arith_env A) x) ord arr val t"
proof -
  let ?E = "arith_env A" and ?F = "arith_sem A scal n" and ?r = "top_rates sr (int n)"
  have p: "plain_objects ?E ?r (\<lambda>_. 4) ?F" by (rule arith_plain) (use assms in \<open>simp_all add: top_rates_def\<close>)
  have "e_class ?E y = OtherC" for y by (simp add: arith_env_def)
  note top = plain_objects.canvas_top [OF p this assms(3) refl, of phase st "vec_of n m"]
  obtain loop bs st' ord arr val where c: "canvas_dodsp ?E (\<lambda>_. True) None sr (int n) phase True None x (ugen_start st) = Some (Inr (loop, bs, st'))"
      "loop \<longleftrightarrow> (\<exists>u. (feeds (canvas_graph ?E x))\<^sup>+\<^sup>+ u u)" "schedule_ok (canvas_graph ?E x) ord arr"
      "computed ?E ?F (canvas_graph ?E x) ord arr val (snd (exec_chain ?F (chain st') (vec_of n m)))" "list_all (wf_op ?E (dc_vecsize ?r)) (chain st')"
    using top by (elim exE conjE) (rule that, auto simp: schedule_ok_def)
  have "dc_vecsize ?r = int n" by (simp add: top_rates_def)
  then obtain m' t where "run_samples A scal n (chain st') m = Some (m', t)" "exec_chain ?F (chain st') (vec_of n m) = (vec_of n m', t)"
    using run_samples_sim [OF _ assms(4), of A "chain st'" scal m] c(5) by auto
  then show ?thesis using c by (intro exI [of _ loop] exI [of _ bs] exI [of _ st'] exI [of _ ord] exI [of _ arr] exI [of _ val] exI [of _ m'] exI [of _ t]) simp
qed

text \<open>Two objects, one after the other, and back.\<close>

definition demo_canvas :: t_dspcanvas where
  "demo_canvas = \<lparr>cv_self = 9, cv_list = [0, 1], cv_lines = [(0, 0, 1, 0), (1, 0, 0, 1)]\<rparr>"

definition demo_objs :: "nat \<Rightarrow> arith_obj" where
  "demo_objs x = (if x = 0 then VecVec TimesS else VecNum PlusS (Fin 1))"

lemma demo_canvas_ok: "canvas_ok (arith_env demo_objs) demo_canvas"
  by (simp add: canvas_ok_def line_ok_def demo_canvas_def demo_objs_def arith_env_def arith_base_def outlet_new_def inlet_new_def
      floatinlet_new_def slotinlet_new_def obj_issignaloutlet_def obj_sigoutletindex_def obj_siginletindex_def obj_nsigoutlets_def
      obj_nsiginlets_def first_sig_def is_sig_in_def is_sig_out_def sel_defs)

definition demo_dspst :: dspst where
  "demo_dspst = \<lparr>sg = \<lparr>sig_store = [], signal_freelist = (\<lambda>_. []), signal_freeborrowed = [], signal_usedlist = [], vecsizes = []\<rparr>,
     chain = [], blks = (\<lambda>_. block_cleared)\<rparr>"

text \<open>The objects a chain calls.\<close>

definition called :: "dsp_op list \<Rightarrow> nat list" where
  "called ops = concat (map (\<lambda>op. case op of DspUgen x is os k \<Rightarrow> [x] | _ \<Rightarrow> []) ops)"

lemma called_trace: "map fst (snd (exec_chain F ops m)) = called ops"
proof (induction ops rule: rev_induct)
  case (snoc op ops)
  obtain m' t where "exec_chain F ops m = (m', t)" by fastforce
  then show ?case using snoc by (cases op) (simp_all add: exec_chain_snoc called_def Let_def)
qed (simp add: exec_chain_def called_def)

text \<open>\<^bold>\<open>C9\<close>: Starting the signal processing of a canvas of arithmetic objects returns, on every canvas. It puts on the chain exactly the objects
  that no loop leads to, each once and after all objects that feed it, and reports a loop just where the connections have one.\<close>

theorem canvas_schedule:
  assumes "pow2 n" "sr \<noteq> NaN" "canvas_ok (arith_env A) x"
  shows "\<exists>loop bs st' ord arr. canvas_dodsp (arith_env A) (\<lambda>_. True) None sr n phase True None x (ugen_start st) =
      Some (Inr (loop, bs, st')) \<and> (loop \<longleftrightarrow> (\<exists>u. (feeds (canvas_graph (arith_env A) x))\<^sup>+\<^sup>+ u u)) \<and>
    schedule_ok (canvas_graph (arith_env A) x) ord arr \<and>
    called (chain st') = map (\<lambda>u. u_obj (canvas_graph (arith_env A) x ! u)) ord"
proof -
  let ?E = "arith_env A" and ?F = "arith_sem A (\<lambda>_ _. Fin 0) 0" and ?r = "top_rates sr n"
  have p: "plain_objects ?E ?r (\<lambda>_. 4) ?F" by (rule arith_plain) (use assms in \<open>simp_all add: top_rates_def\<close>)
  have "e_class ?E y = OtherC" for y by (simp add: arith_env_def)
  note top = plain_objects.canvas_top [OF p this assms(3) refl, of phase st "\<lambda>_. []"]
  obtain loop bs st' ord arr val where c: "canvas_dodsp ?E (\<lambda>_. True) None sr n phase True None x (ugen_start st) = Some (Inr (loop, bs, st'))"
      "loop \<longleftrightarrow> (\<exists>u. (feeds (canvas_graph ?E x))\<^sup>+\<^sup>+ u u)" "schedule_ok (canvas_graph ?E x) ord arr"
      "computed ?E ?F (canvas_graph ?E x) ord arr val (snd (exec_chain ?F (chain st') (\<lambda>_. [])))"
    using top by (elim exE conjE) (rule that, auto simp: schedule_ok_def)
  have "called (chain st') = map (\<lambda>u. u_obj (canvas_graph ?E x ! u)) ord"
    using c(4) called_trace [of ?F "chain st'" "\<lambda>_. []"] by (simp add: computed_def comp_def)
  then show ?thesis using c(1-3) by blast
qed

theorem canvas_schedule_witness:
  "\<exists>loop bs st' ord arr. canvas_dodsp (arith_env demo_objs) (\<lambda>_. True) None (Fin 44100) 64 0 True None demo_canvas (ugen_start demo_dspst) =
      Some (Inr (loop, bs, st')) \<and> (loop \<longleftrightarrow> (\<exists>u. (feeds (canvas_graph (arith_env demo_objs) demo_canvas))\<^sup>+\<^sup>+ u u)) \<and>
    schedule_ok (canvas_graph (arith_env demo_objs) demo_canvas) ord arr \<and>
    called (chain st') = map (\<lambda>u. u_obj (canvas_graph (arith_env demo_objs) demo_canvas ! u)) ord"
  by (rule canvas_schedule) (simp_all add: pow2_64 demo_canvas_ok)

text \<open>\<^bold>\<open>C8\<close>: The chain computes the network. Run on samples, with the routines that take eight at a time and in vectors that are used again as
  soon as they are free, every object finds at its inlets the sums of what the objects before it computed, or its number where
  nothing is connected.\<close>

theorem canvas_computes_network:
  assumes "pow2 (int n)" "sr \<noteq> NaN" "canvas_ok (arith_env A) x" "n mod 8 = 0"
  shows "\<exists>loop bs st' ord arr val m' t. canvas_dodsp (arith_env A) (\<lambda>_. True) None sr (int n) phase True None x (ugen_start st) =
      Some (Inr (loop, bs, st')) \<and> schedule_ok (canvas_graph (arith_env A) x) ord arr \<and>
    run_samples A scal n (chain st') m = Some (m', t) \<and>
    computed (arith_env A) (arith_sem A scal n) (canvas_graph (arith_env A) x) ord arr val t"
  using arith_canvas [OF assms, of phase st scal m] by blast

theorem canvas_computes_network_witness:
  "\<exists>loop bs st' ord arr val m' t. canvas_dodsp (arith_env demo_objs) (\<lambda>_. True) None (Fin 44100) (int 64) 0 True None demo_canvas
      (ugen_start demo_dspst) =
      Some (Inr (loop, bs, st')) \<and> schedule_ok (canvas_graph (arith_env demo_objs) demo_canvas) ord arr \<and>
    run_samples demo_objs (\<lambda>_ _. Fin 2) 64 (chain st') (\<lambda>_. Fin 0) = Some (m', t) \<and>
    computed (arith_env demo_objs) (arith_sem demo_objs (\<lambda>_ _. Fin 2) 64) (canvas_graph (arith_env demo_objs) demo_canvas) ord arr val t"
  by (rule canvas_computes_network) (simp_all add: pow2_64 demo_canvas_ok)

end
