(* ===== verification/SigIO.thy ===== *)
theory SigIO
  imports Signals
begin

text \<open>
  Signal inlets and outlets of canvases (\<open>g_io.c\<close>). Where a canvas runs on blocks of another size than the canvas around it, its
  inlets collect the samples that come in, and its outlets add up what the blocks put out. Resampling is \<open>d_resample.c\<close>.
\<close>

subsection \<open>Signal inlets\<close>

text \<open>Pointers into the buffer are indices; \<open>x_endbuf\<close> is the length. No buffer means an inlet for messages.\<close>

record t_vinlet =
  vi_buf :: "fl list option"
  vi_fill :: nat
  vi_read :: nat
  vi_hop :: nat
  vi_directsignal :: "nat option"

definition vinlet_issignal :: "t_vinlet \<Rightarrow> bool" where
  "vinlet_issignal x \<longleftrightarrow> vi_buf x \<noteq> None"

definition vinlet_perform :: "nat \<Rightarrow> t_vinlet \<Rightarrow> (fl list \<times> t_vinlet) cresult" where
  "vinlet_perform n x = (case vi_buf x of
       None \<Rightarrow> Inl NullDeref
     | Some buf \<Rightarrow> if vi_read x + n > length buf then Inl OutOfBounds
         else Inr (take n (drop (vi_read x) buf), x\<lparr>vi_read := (if vi_read x + n = length buf then 0 else vi_read x + n)\<rparr>))"

text \<open>Before the block: a full buffer is shifted by the hop size, then the new samples are put behind.\<close>

definition shift_down :: "nat \<Rightarrow> fl list \<Rightarrow> fl list" where
  "shift_down hop buf = drop hop buf @ drop (length buf - hop) buf"

definition vinlet_doprolog :: "fl list \<Rightarrow> t_vinlet \<Rightarrow> t_vinlet cresult" where
  "vinlet_doprolog ins x = (case vi_buf x of
       None \<Rightarrow> Inl NullDeref
     | Some buf \<Rightarrow>
         if vi_fill x = length buf \<and> vi_hop x > length buf then Inl OutOfBounds
         else (let full = (vi_fill x = length buf); buf1 = (if full then shift_down (vi_hop x) buf else buf);
                   out = (if full then vi_fill x - vi_hop x else vi_fill x) in
           if out + length ins > length buf then Inl OutOfBounds
           else Inr (x\<lparr>vi_buf := Some (take out buf1 @ ins @ drop (out + length ins) buf1), vi_fill := out + length ins\<rparr>)))"

text \<open>What the set-up puts on the chain, beside calls of the functions above.\<close>

datatype io_op =
    VinletPerform "nat option" int
  | VinletDoprolog "nat option" int
  | ResampleFrom "nat option" int int
  | VinletDoprologResampled int
  | VoutletPerform "nat option" int
  | VoutletDoepilog "nat option" int
  | VoutletDoepilogResampling int
  | ResampleTo "nat option" int int
  | CopyOp "nat option" "nat option" int
  | ZeroOp "nat option" int

definition vinlet_dsp :: "t_vinlet \<Rightarrow> nat \<Rightarrow> signals \<Rightarrow> (t_vinlet \<times> signals \<times> io_op list) cresult" where
  "vinlet_dsp x s0 S = (if vi_buf x = None then Inr (x, S, []) else
     case vi_directsignal x of
       Some d \<Rightarrow> cbind (signal_setborrowed s0 d S) (\<lambda>S'. Inr (x, S', []))
     | None \<Rightarrow> cbind (getsig s0 S) (\<lambda>sig. Inr (x\<lparr>vi_read := 0\<rparr>, S, [VinletPerform (s_vec sig) (s_vecsize sig)])))"

definition resized :: "int \<Rightarrow> fl list \<Rightarrow> fl list" where
  "resized bufsize buf = (if bufsize \<noteq> int (length buf) then replicate (nat bufsize) (Fin 0) else buf)"

definition vinlet_dspprolog :: "t_vinlet \<Rightarrow> nat list option \<Rightarrow> nat \<Rightarrow> int \<Rightarrow> rates \<Rightarrow> signals \<Rightarrow> (t_vinlet \<times> signals \<times> io_op list) cresult" where
  "vinlet_dspprolog x parentsigs i phase r S = (case vi_buf x of
       None \<Rightarrow> Inr (x, S, [])
     | Some buf \<Rightarrow>
         if dc_reblock r then
           (let prologphase = wrap32 (phase - 1) AND (dc_period r - 1) in
            case parentsigs of
              None \<Rightarrow> (let buf1 = resized (max 1 (dc_vecsize r)) buf in
                Inr (x\<lparr>vi_buf := Some (map (\<lambda>_. Fin 0) buf1), vi_directsignal := None\<rparr>, S, []))
            | Some sigs \<Rightarrow> if i \<ge> length sigs then Inl OutOfBounds else
                cbind (getsig (sigs ! i) S) (\<lambda>insig.
                let re = cdiv (wrap32 (s_vecsize insig * dc_upsample r)) (dc_downsample r);
                    buf1 = resized (max re (dc_vecsize r)) buf; hop = dc_period r * re;
                    x' = x\<lparr>vi_buf := Some buf1, vi_hop := nat hop, vi_fill := nat (int (length buf1) - (hop - prologphase * re)), vi_directsignal := None\<rparr>;
                    ops = (if dc_upsample r * dc_downsample r = 1 then [VinletDoprolog (s_vec insig) re]
                           else [ResampleFrom (s_vec insig) (s_vecsize insig) re, VinletDoprologResampled re])
                in cbind (if s_refcount insig = 0 then signal_makereusable (sigs ! i) S else Inr S) (\<lambda>S'. Inr (x', S', ops))))
         else (case parentsigs of None \<Rightarrow> Inl NullDeref
           | Some sigs \<Rightarrow> if i \<ge> length sigs then Inl OutOfBounds else Inr (x\<lparr>vi_directsignal := Some (sigs ! i)\<rparr>, S, [])))"

definition vinlet_newsig :: t_vinlet where
  "vinlet_newsig = \<lparr>vi_buf = Some [], vi_fill = 0, vi_read = 0, vi_hop = 0, vi_directsignal = None\<rparr>"

subsection \<open>Signal outlets\<close>

record t_voutlet =
  vo_buf :: "fl list option"
  vo_empty :: nat
  vo_write :: nat
  vo_hop :: nat
  vo_directsignal :: "nat option"
  vo_justcopyout :: bool

definition voutlet_issignal :: "t_voutlet \<Rightarrow> bool" where
  "voutlet_issignal x \<longleftrightarrow> vo_buf x \<noteq> None"

fun add_loop :: "fl list \<Rightarrow> nat \<Rightarrow> fl list \<Rightarrow> fl list" where
  "add_loop [] out buf = buf"
| "add_loop (v # ins) out buf =
     add_loop ins (if out + 1 = length buf then 0 else out + 1) (buf[out := fadd binary32 (buf ! out) v])"

definition voutlet_perform :: "fl list \<Rightarrow> t_voutlet \<Rightarrow> t_voutlet cresult" where
  "voutlet_perform ins x = (case vo_buf x of
       None \<Rightarrow> Inl NullDeref
     | Some buf \<Rightarrow> if vo_write x \<ge> length buf then Inl OutOfBounds
         else Inr (x\<lparr>vo_buf := Some (add_loop ins (vo_write x) buf),
           vo_write := (if vo_write x + vo_hop x \<ge> length buf then 0 else vo_write x + vo_hop x)\<rparr>))"

text \<open>After the block: samples are handed out and the buffer is cleared behind them.\<close>

definition voutlet_doepilog :: "nat \<Rightarrow> t_voutlet \<Rightarrow> (fl list \<times> t_voutlet) cresult" where
  "voutlet_doepilog n x = (case vo_buf x of
       None \<Rightarrow> Inl NullDeref
     | Some buf \<Rightarrow> if vo_empty x + n > length buf then Inl OutOfBounds
         else Inr (take n (drop (vo_empty x) buf),
           x\<lparr>vo_buf := Some (take (vo_empty x) buf @ replicate n (Fin 0) @ drop (vo_empty x + n) buf),
             vo_empty := (if vo_empty x + n = length buf then 0 else vo_empty x + n)\<rparr>))"

definition voutlet_dspprolog :: "t_voutlet \<Rightarrow> nat list option \<Rightarrow> nat \<Rightarrow> rates \<Rightarrow> t_voutlet cresult" where
  "voutlet_dspprolog x parentsigs i r = (if vo_buf x = None then Inr x else
     let x' = x\<lparr>vo_justcopyout := (dc_switched r \<and> \<not> dc_reblock r)\<rparr> in
     if dc_reblock r then Inr (x'\<lparr>vo_directsignal := None\<rparr>)
     else (case parentsigs of None \<Rightarrow> Inl NullDeref
       | Some sigs \<Rightarrow> if i \<ge> length sigs then Inl OutOfBounds else Inr (x'\<lparr>vo_directsignal := Some (sigs ! i)\<rparr>)))"

definition voutlet_dsp :: "t_voutlet \<Rightarrow> nat \<Rightarrow> signals \<Rightarrow> (signals \<times> io_op list) cresult" where
  "voutlet_dsp x s0 S = (if vo_buf x = None then Inr (S, []) else
     cbind (getsig s0 S) (\<lambda>insig.
     if vo_justcopyout x then (case vo_directsignal x of None \<Rightarrow> Inl NullDeref
       | Some d \<Rightarrow> cbind (getsig d S) (\<lambda>dsig. Inr (S, [CopyOp (s_vec insig) (s_vec dsig) (s_n insig)])))
     else (case vo_directsignal x of
         Some d \<Rightarrow> cbind (signal_setborrowed d s0 S) (\<lambda>S'. Inr (S', []))
       | None \<Rightarrow> Inr (S, [VoutletPerform (s_vec insig) (s_n insig)]))))"

definition voutlet_dspepilog :: "t_voutlet \<Rightarrow> nat list option \<Rightarrow> nat \<Rightarrow> int \<Rightarrow> rates \<Rightarrow> signals \<Rightarrow> (t_voutlet \<times> io_op list) cresult" where
  "voutlet_dspepilog x parentsigs i phase r S = (case vo_buf x of
       None \<Rightarrow> Inr (x, [])
     | Some buf \<Rightarrow>
         cbind (case parentsigs of None \<Rightarrow> Inr None
            | Some sigs \<Rightarrow> if i \<ge> length sigs then Inl OutOfBounds else cbind (getsig (sigs ! i) S) (\<lambda>g. Inr (Some g))) (\<lambda>outsig.
         if dc_reblock r then
           (let re = (case outsig of None \<Rightarrow> 1 | Some g \<Rightarrow> cdiv (wrap32 (s_vecsize g * dc_upsample r)) (dc_downsample r)) in
            cbind (cdiv_trap (dc_vecsize r) re) (\<lambda>bp.
            let bigperiod = (if bp = 0 then 1 else bp);
                epilogphase = phase AND (bigperiod - 1);
                blockphase = wrap32 (phase + dc_period r - 1) AND (bigperiod - 1) AND (- dc_period r);
                buf1 = resized (max re (dc_vecsize r)) buf; w = nat (re * blockphase);
                hop = (if dc_period r = 1 \<and> dc_frequency r > 1 then cdiv re (dc_frequency r) else dc_period r * re);
                x' = x\<lparr>vo_buf := Some buf1, vo_write := (if w = length buf1 then 0 else w), vo_hop := nat hop\<rparr>
            in case outsig of
                 None \<Rightarrow> Inr (x', [])
               | Some g \<Rightarrow> Inr (x'\<lparr>vo_empty := nat (re * epilogphase)\<rparr>,
                   if dc_upsample r * dc_downsample r = 1 then [VoutletDoepilog (s_vec g) re]
                   else [VoutletDoepilogResampling re, ResampleTo (s_vec g) re (s_vecsize g)])))
         else if dc_switched r then
           Inr (x, case outsig of None \<Rightarrow> [] | Some g \<Rightarrow> [ZeroOp (s_vec g) (s_n g)])
         else Inr (x, [])))"

definition voutlet_newsig :: t_voutlet where
  "voutlet_newsig = \<lparr>vo_buf = Some [], vo_empty = 0, vo_write = 0, vo_hop = 0, vo_directsignal = None, vo_justcopyout = False\<rparr>"

subsection \<open>An inlet delivers the latest samples\<close>

definition lastn :: "nat \<Rightarrow> 'a list \<Rightarrow> 'a list" where
  "lastn k xs = drop (length xs - k) xs"

lemma length_lastn [simp]: "k \<le> length xs \<Longrightarrow> length (lastn k xs) = k"
  by (simp add: lastn_def)

lemma lastn_append: "lastn (k + length ys) (xs @ ys) = lastn k xs @ ys"
  by (simp add: lastn_def)

lemma drop_lastn: "h \<le> k \<Longrightarrow> k \<le> length xs \<Longrightarrow> drop h (lastn k xs) = lastn (k - h) xs"
  by (simp add: lastn_def add.commute)

text \<open>How full the buffer is after a number of ticks, of which \<open>p\<close> were gone in the period.\<close>

definition ticks_in :: "nat \<Rightarrow> nat \<Rightarrow> nat \<Rightarrow> nat" where
  "ticks_in per p n = (if n = 0 then p else Suc ((p + n - 1) mod per))"

fun prologs :: "fl list list \<Rightarrow> t_vinlet \<Rightarrow> t_vinlet cresult" where
  "prologs [] x = Inr x"
| "prologs (v # vs) x = cbind (vinlet_doprolog v x) (prologs vs)"

definition inlet_ok :: "nat \<Rightarrow> nat \<Rightarrow> nat \<Rightarrow> fl list \<Rightarrow> t_vinlet \<Rightarrow> bool" where
  "inlet_ok M hop filled S x \<longleftrightarrow> (\<exists>buf. vi_buf x = Some buf \<and> length buf = M \<and> vi_hop x = hop \<and> vi_fill x = filled \<and>
     filled \<le> M \<and> M \<le> length S \<and> take filled buf = lastn filled S)"

lemma doprolog_ok:
  assumes "inlet_ok M hop filled S x" "hop \<le> M" "filled' = (if filled = M then M - hop else filled) + length v" "filled' \<le> M"
  shows "\<exists>x'. vinlet_doprolog v x = Inr x' \<and> inlet_ok M hop filled' (S @ v) x' \<and> vi_read x' = vi_read x"
proof -
  obtain buf where x: "vi_buf x = Some buf" "length buf = M" "vi_hop x = hop" "vi_fill x = filled" "filled \<le> M" "M \<le> length S"
      "take filled buf = lastn filled S"
    using assms(1) by (auto simp: inlet_ok_def)
  define out where "out = (if filled = M then M - hop else filled)"
  define b where "b = (if filled = M then shift_down hop buf else buf)"
  have b: "length b = M" "out \<le> M" using assms(2) x(2,5) by (simp_all add: b_def out_def shift_down_def)
  have a: "take out b = lastn out S"
  proof (cases "filled = M")
    case True
    then have "buf = lastn M S" using x(2,7) by simp
    then show ?thesis using True assms(2) x(2,6) by (simp add: out_def b_def shift_down_def drop_lastn)
  qed (use x(7) in \<open>simp add: out_def b_def\<close>)
  have l: "out + length v = filled'" "filled' \<le> M" using assms(3,4) by (simp_all add: out_def)
  let ?b = "take out b @ v @ drop (out + length v) b"
  have "vinlet_doprolog v x = Inr (x\<lparr>vi_buf := Some ?b, vi_fill := out + length v\<rparr>)"
    using x(1-4) assms(2) l(2) unfolding l(1) [symmetric] out_def b_def
    by (cases "filled = M") (simp_all add: vinlet_doprolog_def Let_def)
  moreover have "take filled' ?b = lastn filled' (S @ v)"
  proof -
    have "length (take out b @ v) = filled'" using b l by simp
    then have "take filled' ((take out b @ v) @ drop (out + length v) b) = take out b @ v" by (metis append_eq_conv_conj)
    then show ?thesis using lastn_append [of out v S] a l(1) by simp
  qed
  moreover have "length ?b = M" using b l by simp
  ultimately show ?thesis using x l by (simp add: inlet_ok_def)
qed

lemma ticks_in_Suc: "0 < per \<Longrightarrow> p < per \<Longrightarrow> ticks_in per p (Suc n) = (if ticks_in per p n = per then 0 else ticks_in per p n) + 1"
  by (cases n) (auto simp: ticks_in_def mod_Suc)

lemma prologs_append: "prologs (vs @ ws) x = cbind (prologs vs x) (prologs ws)"
  by (induction vs arbitrary: x) (auto simp: cbind_def split: sum.splits)

lemma prologs_ok:
  assumes "inlet_ok M (per * P) (M - per * P + p * P) S x" "p < per" "per * P \<le> M" "0 < P" "\<forall>v \<in> set vs. length v = P"
  shows "\<exists>x'. prologs vs x = Inr x' \<and> inlet_ok M (per * P) (M - per * P + ticks_in per p (length vs) * P) (S @ concat vs) x' \<and> vi_read x' = vi_read x"
  using assms(5)
proof (induction vs rule: rev_induct)
  case Nil
  then show ?case using assms(1) by (simp add: ticks_in_def)
next
  case (snoc v vs)
  let ?k = "ticks_in per p (length vs)"
  obtain x1 where x1: "prologs vs x = Inr x1" "inlet_ok M (per * P) (M - per * P + ?k * P) (S @ concat vs) x1" "vi_read x1 = vi_read x"
    using snoc by auto
  have k: "?k \<le> per" using assms(2) by (simp add: ticks_in_def Suc_leI)
  have full: "M - per * P + ?k * P = M \<longleftrightarrow> ?k = per"
  proof (cases "?k = per")
    case False
    then have "?k * P < per * P" using k assms(4) by simp
    then show ?thesis using False assms(3) by linarith
  qed (use assms(3) in simp)
  have next': "ticks_in per p (Suc (length vs)) = (if ?k = per then 0 else ?k) + 1" using ticks_in_Suc assms(2) by simp
  have room: "(if ?k = per then 0 else ?k) * P + P \<le> per * P"
  proof -
    have "Suc (if ?k = per then 0 else ?k) \<le> per" using k assms(2) by auto
    then have "Suc (if ?k = per then 0 else ?k) * P \<le> per * P" by (rule mult_le_mono1)
    then show ?thesis by simp
  qed
  have "\<exists>x'. vinlet_doprolog v x1 = Inr x' \<and>
      inlet_ok M (per * P) (M - per * P + ticks_in per p (Suc (length vs)) * P) ((S @ concat vs) @ v) x' \<and> vi_read x' = vi_read x1"
    by (rule doprolog_ok [OF x1(2) assms(3)]) (use snoc.prems next' full room assms(3) in auto)
  then show ?case using x1 by (auto simp: prologs_append)
qed

subsection \<open>An outlet adds up the blocks\<close>

text \<open>What an outlet still has to give out, from the next sample on.\<close>

definition pending :: "t_voutlet \<Rightarrow> fl list" where
  "pending x = (case vo_buf x of None \<Rightarrow> [] | Some buf \<Rightarrow> rotate (vo_empty x) buf)"

lemma nth_rotate_back: "i < length xs \<Longrightarrow> k < length xs \<Longrightarrow> rotate k xs ! i = xs ! ((k + i) mod length xs)"
  by (simp add: nth_rotate add.commute)

lemma length_add_loop [simp]: "length (add_loop ins out buf) = length buf"
  by (induction ins arbitrary: out buf) simp_all

lemma add_loop_nth:
  assumes "length ins \<le> length buf" "out < length buf" "j < length buf"
  shows "add_loop ins out buf ! ((out + j) mod length buf) =
    (if j < length ins then fadd binary32 (buf ! ((out + j) mod length buf)) (ins ! j) else buf ! ((out + j) mod length buf))"
  using assms
proof (induction ins arbitrary: out buf j)
  case (Cons v ins)
  let ?buf = "buf[out := fadd binary32 (buf ! out) v]" and ?out = "if out + 1 = length buf then 0 else out + 1"
  have o1: "?out < length ?buf" "?out = (out + 1) mod length buf" using Cons.prems(2) by auto
  show ?case
  proof (cases j)
    case 0
    have "(?out + (length buf - 1)) mod length buf = out" using Cons.prems(2) by auto
    then have "add_loop ins ?out ?buf ! out = ?buf ! out"
      using Cons.IH [of ?buf ?out "length buf - 1"] o1(1) Cons.prems by auto
    then show ?thesis using 0 Cons.prems(2) by simp
  next
    case (Suc l)
    have "(?out + l) mod length buf = (out + j) mod length buf" unfolding o1(2) using Suc by (simp add: mod_add_left_eq)
    moreover have "(out + j) mod length buf \<noteq> out"
      using Cons.prems(2,3) Suc by (cases "out + j < length buf") (auto simp: mod_if)
    ultimately show ?thesis using Cons.IH [of ?buf ?out l] o1(1) Cons.prems Suc by simp
  qed
qed simp

text \<open>The shift register that an outlet implements.\<close>

definition overlap_add :: "fl list \<Rightarrow> fl list \<Rightarrow> fl list" where
  "overlap_add block fut = map2 (fadd binary32) fut block"

definition outlet_ok :: "nat \<Rightarrow> t_voutlet \<Rightarrow> bool" where
  "outlet_ok M x \<longleftrightarrow> (\<exists>buf. vo_buf x = Some buf \<and> length buf = M \<and> vo_empty x < M \<and> vo_write x < M)"

lemma length_pending: "outlet_ok M x \<Longrightarrow> length (pending x) = M"
  by (auto simp: outlet_ok_def pending_def)

lemma voutlet_perform_ok:
  assumes "outlet_ok M x" "length block = M" "vo_write x = vo_empty x"
  shows "\<exists>x'. voutlet_perform block x = Inr x' \<and> outlet_ok M x' \<and> pending x' = overlap_add block (pending x) \<and>
    vo_empty x' = vo_empty x \<and> vo_hop x' = vo_hop x \<and>
    vo_write x' = (if vo_write x + vo_hop x \<ge> M then 0 else vo_write x + vo_hop x)"
proof -
  obtain buf where x: "vo_buf x = Some buf" "length buf = M" "vo_empty x < M" using assms(1) by (auto simp: outlet_ok_def)
  have "rotate (vo_empty x) (add_loop block (vo_empty x) buf) = map2 (fadd binary32) (rotate (vo_empty x) buf) block"
  proof (rule nth_equalityI)
    fix j assume "j < length (rotate (vo_empty x) (add_loop block (vo_empty x) buf))"
    then have j: "j < M" using x(2) by simp
    then show "rotate (vo_empty x) (add_loop block (vo_empty x) buf) ! j = map2 (fadd binary32) (rotate (vo_empty x) buf) block ! j"
      using add_loop_nth [of block buf "vo_empty x" j] x assms(2) by (simp add: nth_rotate add.commute)
  qed (use x(2) assms(2) in simp)
  then show ?thesis
    using x assms by (simp add: voutlet_perform_def outlet_ok_def pending_def overlap_add_def)
qed

lemma voutlet_doepilog_ok:
  assumes "outlet_ok M x" "M = P * k" "P dvd vo_empty x" "0 < P"
  shows "\<exists>x'. voutlet_doepilog P x = Inr (take P (pending x), x') \<and> outlet_ok M x' \<and>
    pending x' = drop P (pending x) @ replicate P (Fin 0) \<and> vo_write x' = vo_write x \<and> vo_hop x' = vo_hop x \<and>
    vo_empty x' = (if vo_empty x + P = M then 0 else vo_empty x + P)"
proof -
  obtain buf where x: "vo_buf x = Some buf" "length buf = M" "vo_empty x < M" "vo_write x < M" using assms(1) by (auto simp: outlet_ok_def)
  obtain q where q: "vo_empty x = P * q" using assms(3) by (elim dvdE)
  have "q < k" using x(3) assms(2,4) q by simp
  then have "P * Suc q \<le> P * k" by (intro mult_le_mono2) simp
  then have le: "vo_empty x + P \<le> M" using q assms(2) by (simp add: add.commute)
  define e where "e = vo_empty x"
  let ?buf = "take e buf @ replicate P (Fin 0) @ drop (e + P) buf"
  have e: "e + P \<le> length buf" "e < length buf" using le x(2,3) by (simp_all add: e_def)
  have p: "pending x = drop e buf @ take e buf" using x(1,2) e(2) by (simp add: pending_def e_def rotate_drop_take)
  have t: "take P (pending x) = take P (drop e buf)" "drop P (pending x) = drop (e + P) buf @ take e buf"
    using e unfolding p by (simp_all add: add.commute)
  have "rotate (if e + P = length buf then 0 else e + P) ?buf = drop (e + P) buf @ take e buf @ replicate P (Fin 0)"
    using e by (auto simp: rotate_drop_take)
  then show ?thesis
    using x e le t by (auto simp: voutlet_doepilog_def outlet_ok_def pending_def e_def)
qed

subsection \<open>Straight through\<close>

text \<open>
  An inlet that is connected to an outlet, tick by tick: the code before the block, in every \<open>per\<close>-th tick the block, where the
  samples of the inlet go to the outlet, and the code after the block.
\<close>

fun through :: "nat \<Rightarrow> nat \<Rightarrow> nat \<Rightarrow> nat \<Rightarrow> fl list list \<Rightarrow> t_vinlet \<times> t_voutlet \<Rightarrow> fl list list cresult" where
  "through M P per ph [] p = Inr []"
| "through M P per ph (v # vs) (x, y) =
     cbind (vinlet_doprolog v x) (\<lambda>x1.
     cbind (if ph mod per = 0
        then cbind (vinlet_perform M x1) (\<lambda>(block, x2). cbind (voutlet_perform block y) (\<lambda>y1. Inr (x2, y1)))
        else Inr (x1, y)) (\<lambda>(x2, y1).
     cbind (voutlet_doepilog P y1) (\<lambda>(w, y2).
     cbind (through M P per (ph + 1) vs (x2, y2)) (\<lambda>ws. Inr (w # ws)))))"

definition zero_plus :: "fl list \<Rightarrow> fl list" where
  "zero_plus = map (fadd binary32 (Fin 0))"

definition to_come :: "nat \<Rightarrow> nat \<Rightarrow> nat \<Rightarrow> fl list \<Rightarrow> fl list" where
  "to_come M P q S = (if q = 0 then replicate M (Fin 0)
     else zero_plus (take (M - q * P) (lastn (M - P) S)) @ replicate (q * P) (Fin 0))"

definition through_ok :: "nat \<Rightarrow> nat \<Rightarrow> nat \<Rightarrow> nat \<Rightarrow> fl list \<Rightarrow> t_vinlet \<times> t_voutlet \<Rightarrow> bool" where
  "through_ok M P per ph S p \<longleftrightarrow> (\<exists>filled. inlet_ok M M filled S (fst p) \<and>
       (filled = (ph + per - 1) mod per * P \<or> filled = M \<and> (ph + per - 1) mod per = 0)) \<and> vi_read (fst p) = 0 \<and>
     outlet_ok M (snd p) \<and> vo_write (snd p) = 0 \<and> vo_hop (snd p) = M \<and> vo_empty (snd p) = ph mod per * P \<and>
     pending (snd p) = to_come M P (ph mod per) S"

lemma overlap_add_zeros: "length block = M \<Longrightarrow> overlap_add block (replicate M (Fin 0)) = zero_plus block"
  by (simp add: overlap_add_def zero_plus_def map2_map_map [symmetric] map_replicate_const [symmetric] zip_replicate1)

lemma pred_mod: "0 < (per :: nat) \<Longrightarrow> (ph + per - 1) mod per + 1 = (if ph mod per = 0 then per else ph mod per)"
proof -
  assume per: "0 < per"
  have "ph = ph mod per + ph div per * per" by (rule mod_div_mult_eq [symmetric])
  then have "ph + per - 1 = (ph mod per + per - 1) + ph div per * per" using per by linarith
  then have "(ph + per - 1) mod per = (ph mod per + per - 1) mod per" by (metis mod_mult_self1)
  moreover have "(ph mod per + per - 1) mod per + 1 = (if ph mod per = 0 then per else ph mod per)"
  proof (cases "ph mod per = 0")
    case False
    then have "(ph mod per + per - 1) mod per = (ph mod per - 1 + per) mod per" by simp
    also have "\<dots> = ph mod per - 1" using mod_less_divisor [OF per, of ph] by simp
    finally show ?thesis using False by simp
  qed (use per in simp)
  ultimately show ?thesis by simp
qed

lemma through_step:
  assumes "through_ok M P per ph S (x, y)" "M = P * per" "0 < P" "0 < per" "length v = P"
  shows "\<exists>x1 x2 y1 y2 w. vinlet_doprolog v x = Inr x1 \<and>
    (if ph mod per = 0
       then cbind (vinlet_perform M x1) (\<lambda>(block, x2). cbind (voutlet_perform block y) (\<lambda>y1. Inr (x2, y1)))
       else Inr (x1, y)) = Inr (x2, y1) \<and>
    voutlet_doepilog P y1 = Inr (w, y2) \<and> w = zero_plus (take P (lastn M (S @ v))) \<and> through_ok M P per (ph + 1) (S @ v) (x2, y2)"
proof -
  let ?q = "ph mod per" and ?pp = "(ph + per - 1) mod per"
  obtain filled where x: "inlet_ok M M filled S x" "filled = ?pp * P \<or> filled = M \<and> ?pp = 0"
    using assms(1) by (auto simp: through_ok_def)
  have y: "outlet_ok M y" "vo_write y = 0" "vo_hop y = M" "vo_empty y = ?q * P" "pending y = to_come M P ?q S" "vi_read x = 0"
    using assms(1) by (simp_all add: through_ok_def)
  have S: "M \<le> length S" using x(1) by (auto simp: inlet_ok_def)
  have pp: "?pp < per" "Suc ?pp = (if ?q = 0 then per else ?q)" using assms(4) pred_mod [OF assms(4), of ph] by simp_all
  have "?pp * P < M" using pp(1) assms(2,3) by simp
  then have f: "Suc ?pp * P = (if filled = M then M - M else filled) + length v" using x(2) assms(5) by auto
  have "Suc ?pp * P \<le> per * P" using pp(1) by (intro mult_le_mono1) simp
  then obtain x1 where x1: "vinlet_doprolog v x = Inr x1" "inlet_ok M M (Suc ?pp * P) (S @ v) x1" "vi_read x1 = 0"
    using doprolog_ok [OF x(1) order_refl f] y(6) assms(2) by (auto simp: mult.commute)
  have next': "(ph + 1 + per - 1) mod per = ?q" by simp
  show ?thesis
  proof (cases "?q = 0")
    case True
    let ?W = "lastn M (S @ v)"
    have W: "length ?W = M" using S by simp
    have SM: "Suc ?pp * P = M" using pp(2) True assms(2) by (simp add: mult.commute)
    obtain buf where buf: "vi_buf x1 = Some buf" "length buf = M" "buf = ?W"
      using x1(2) [unfolded SM] by (auto simp: inlet_ok_def)
    then have x2: "vinlet_perform M x1 = Inr (?W, x1\<lparr>vi_read := 0\<rparr>)" using x1(3) by (simp add: vinlet_perform_def)
    obtain y1 where y1: "voutlet_perform ?W y = Inr y1" "outlet_ok M y1" "pending y1 = zero_plus ?W" "vo_empty y1 = 0"
        "vo_hop y1 = M" "vo_write y1 = 0"
      using voutlet_perform_ok [OF y(1) W] y(2-5) True overlap_add_zeros [OF W] by (auto simp: to_come_def)
    obtain y2 where y2: "voutlet_doepilog P y1 = Inr (take P (pending y1), y2)" "outlet_ok M y2"
        "pending y2 = drop P (pending y1) @ replicate P (Fin 0)" "vo_write y2 = 0" "vo_hop y2 = M"
        "vo_empty y2 = (if P = M then 0 else P)"
      using voutlet_doepilog_ok [OF y1(2) assms(2)] y1(4-6) assms(3) by auto
    have q': "(ph + 1) mod per = (if per = 1 then 0 else 1)" using True assms(4) by (simp add: mod_Suc)
    have "drop P ?W = lastn (M - P) (S @ v)" using S assms(2,4) by (intro drop_lastn) auto
    then have "pending y2 = to_come M P ((ph + 1) mod per) (S @ v)"
      using y2(3) y1(3) q' assms(2,3,4) S by (auto simp: to_come_def zero_plus_def drop_map)
    moreover have "vo_empty y2 = (ph + 1) mod per * P" using y2(6) q' assms(2-4) by auto
    moreover have "inlet_ok M M M (S @ v) (x1\<lparr>vi_read := 0\<rparr>)" using x1(2) [unfolded SM] by (simp add: inlet_ok_def)
    ultimately have "through_ok M P per (ph + 1) (S @ v) (x1\<lparr>vi_read := 0\<rparr>, y2)"
      using y2(2,4,5) True next' by (auto simp: through_ok_def)
    then show ?thesis using True x1(1) x2 y1(1,3) y2(1) by (simp add: zero_plus_def take_map)
  next
    case False
    then have q: "0 < ?q" "?q < per" using assms(4) by simp_all
    obtain y2 where y2: "voutlet_doepilog P y = Inr (take P (pending y), y2)" "outlet_ok M y2"
        "pending y2 = drop P (pending y) @ replicate P (Fin 0)" "vo_write y2 = 0" "vo_hop y2 = M"
        "vo_empty y2 = (if ?q * P + P = M then 0 else ?q * P + P)"
      using voutlet_doepilog_ok [OF y(1) assms(2)] y(2-4) assms(3) by auto
    have "Suc ?q * P \<le> per * P" using q(2) by (intro mult_le_mono1) simp
    then have le0: "?q * P + P \<le> M" using assms(2) by (simp add: mult.commute add.commute)
    have qP: "P \<le> ?q * P" using q(1) by simp
    then have le: "?q * P + P \<le> M" "P \<le> M - P" "P \<le> M - ?q * P" using le0 by linarith+
    have wrap: "(ph + 1) mod per = (if Suc ?q = per then 0 else Suc ?q)" using q(2) by (simp add: mod_Suc)
    have eq: "?q * P + P = M \<longleftrightarrow> Suc ?q = per" using assms(2,3) by (metis add.commute mult_Suc mult.commute mult_left_cancel not_gr_zero)
    have p: "pending y = zero_plus (take (M - ?q * P) (lastn (M - P) S)) @ replicate (?q * P) (Fin 0)" using y(5) q(1) by (simp add: to_come_def)
    have L: "length (lastn (M - P) S) = M - P" using S by simp
    have out: "lastn M (S @ v) = lastn (M - P) S @ v" using lastn_append [of "M - P" v S] assms(5) le(1) by simp
    have w: "take P (pending y) = zero_plus (take P (lastn M (S @ v)))"
      unfolding p out using le L by (simp add: zero_plus_def take_map)
    have "drop P (take (M - ?q * P) (lastn (M - P) S)) = take (M - Suc ?q * P) (lastn (M - P - P) S)"
      using drop_lastn [of P "M - P" S] le S by (simp add: drop_take add.commute)
    also have "\<dots> = take (M - Suc ?q * P) (lastn (M - P) (S @ v))"
    proof -
      have "lastn (M - P) (S @ v) = lastn (M - P - P) S @ v" using lastn_append [of "M - P - P" v S] assms(5) le(2) by simp
      moreover have "length (lastn (M - P - P) S) = M - P - P" using S by simp
      moreover have "M - Suc ?q * P \<le> M - P - P" unfolding mult_Suc using qP by linarith
      ultimately show ?thesis by (simp only: take_append) simp
    qed
    finally have d: "drop P (pending y) = zero_plus (take (M - Suc ?q * P) (lastn (M - P) (S @ v))) @ replicate (?q * P) (Fin 0)"
      unfolding p using le L by (simp add: zero_plus_def drop_map)
    have "pending y2 = to_come M P ((ph + 1) mod per) (S @ v)"
    proof (cases "Suc ?q = per")
      case True
      then have "M - Suc ?q * P = 0" "?q * P + P = M" using assms(2) eq by (simp_all add: mult.commute)
      then show ?thesis using y2(3) d wrap True by (simp add: to_come_def zero_plus_def replicate_add [symmetric])
    next
      case False
      then show ?thesis using y2(3) d wrap by (simp add: to_come_def replicate_add [symmetric] add.commute)
    qed
    moreover have "vo_empty y2 = (ph + 1) mod per * P" using y2(6) wrap eq by auto
    moreover have "Suc ?pp * P = ?q * P" using pp(2) False by simp
    ultimately have "through_ok M P per (ph + 1) (S @ v) (x1, y2)"
      using y2(2,4,5) x1(2,3) next' unfolding through_ok_def by auto
    then show ?thesis using False x1(1) y2(1) w by auto
  qed
qed

lemma concat_slice:
  "length v = P \<Longrightarrow> P \<le> M \<Longrightarrow> M \<le> length S \<Longrightarrow>
   take P (lastn M (S @ v)) @ take k (drop (length (S @ v) + P - M) ((S @ v) @ T)) = take (P + k) (drop (length S + P - M) (S @ v @ T))"
proof -
  assume a: "length v = P" "P \<le> M" "M \<le> length S"
  have "lastn M (S @ v) = drop (length S + P - M) (S @ v)" using a by (simp add: lastn_def)
  moreover have "take P (drop (length S + P - M) (S @ v)) = take P (drop (length S + P - M) (S @ v @ T))" using a by simp
  moreover have "drop (length (S @ v) + P - M) ((S @ v) @ T) = drop P (drop (length S + P - M) (S @ v @ T))" using a by (simp add: add.commute)
  ultimately show ?thesis unfolding take_add by (simp only:)
qed

lemma through_delays:
  assumes "through_ok M P per ph S p" "M = P * per" "0 < P" "0 < per" "\<forall>v \<in> set vs. length v = P"
  shows "\<exists>ws. through M P per ph vs p = Inr ws \<and>
    concat ws = zero_plus (take (length vs * P) (drop (length S + P - M) (S @ concat vs)))"
  using assms(1,5)
proof (induction vs arbitrary: ph S p)
  case Nil
  then show ?case by (simp add: zero_plus_def)
next
  case (Cons v vs)
  obtain x y where p: "p = (x, y)" by (cases p)
  have lv: "length v = P" using Cons.prems(2) by simp
  obtain x1 x2 y1 y2 w where st: "vinlet_doprolog v x = Inr x1"
      "(if ph mod per = 0
         then cbind (vinlet_perform M x1) (\<lambda>(block, x2). cbind (voutlet_perform block y) (\<lambda>y1. Inr (x2, y1)))
         else Inr (x1, y)) = Inr (x2, y1)"
      "voutlet_doepilog P y1 = Inr (w, y2)" "w = zero_plus (take P (lastn M (S @ v)))" "through_ok M P per (ph + 1) (S @ v) (x2, y2)"
    using through_step [OF Cons.prems(1) [unfolded p] assms(2-4) lv] by (elim exE conjE) (rule that)
  obtain ws where ws: "through M P per (ph + 1) vs (x2, y2) = Inr ws"
      "concat ws = zero_plus (take (length vs * P) (drop (length (S @ v) + P - M) ((S @ v) @ concat vs)))"
    using Cons.IH [OF st(5)] Cons.prems(2) by auto
  have "M \<le> length S" using Cons.prems(1) by (auto simp: through_ok_def inlet_ok_def)
  moreover have "P \<le> M" using assms(2,4) by simp
  ultimately have "concat (w # ws) = zero_plus (take (P + length vs * P) (drop (length S + P - M) (S @ v @ concat vs)))"
    using concat_slice [of v P M S "length vs * P" "concat vs"] Cons.prems(2) ws(2) st(4) by (simp add: zero_plus_def flip: map_append)
  then show ?case using p st(1-3) ws(1) by simp
qed

lemma and_period: "(i :: int) AND (2 ^ k - 1) = i mod 2 ^ k"
  by (simp add: take_bit_eq_mask [symmetric] take_bit_eq_mod mask_eq_exp_minus_1 [symmetric])

lemma and_outside: "i AND (2 ^ k - 1) AND (- (2 ^ k)) = (0 :: int)"
proof -
  have "(2 ^ k - 1) AND - (2 ^ k) = (0 :: int)"
    by (simp add: minus_exp_eq_not_mask mask_eq_exp_minus_1 [symmetric] bit.conj_cancel_right)
  then show ?thesis by (simp add: and.assoc)
qed

text \<open>A canvas with \<open>block~\<close>: blocks are \<open>2 ^ k\<close> times as long as the vectors outside, without overlap or resampling.\<close>

definition longer_blocks :: "nat \<Rightarrow> nat \<Rightarrow> rates \<Rightarrow> bool" where
  "longer_blocks P k r \<longleftrightarrow> dc_reblock r \<and> dc_vecsize r = int (P * 2 ^ k) \<and> dc_period r = 2 ^ k \<and> dc_frequency r = 1 \<and>
     dc_upsample r = 1 \<and> dc_downsample r = 1"

lemma rotate1_zeros: "rotate1 (replicate m x) = replicate m x"
  by (cases m) (simp_all add: replicate_append_same)

lemma rotate_zeros: "rotate n (replicate m x) = replicate m x"
  by (induction n) (simp_all add: rotate1_zeros)

lemma to_come_zeros:
  assumes "q * P \<le> M"
  shows "to_come M P q (replicate M (Fin 0)) = replicate M (Fin 0)"
proof (cases "q = 0")
  case False
  define e where "e = q * P"
  have e: "P \<le> e" "e \<le> M" using False assms by (simp_all add: e_def)
  have "zero_plus (replicate n (Fin 0)) = replicate n (Fin 0)" for n by (simp add: zero_plus_def fround_zero)
  then show ?thesis using e False by (simp add: to_come_def lastn_def replicate_add [symmetric] flip: e_def)
qed (simp add: to_come_def)

lemma through_set_up:
  assumes "longer_blocks P k r" "0 < P" "int (P * 2 ^ k) < 2 ^ 31" "0 \<le> phase" "phase + 2 ^ k < 2 ^ 31"
    "getsig g S = Inr insig" "s_vecsize insig = int P" "s_refcount insig \<noteq> 0" "getsig h S = Inr outsig" "s_vecsize outsig = int P"
  shows "\<exists>x y ops ops'. vinlet_dspprolog vinlet_newsig (Some [g, h]) 0 phase r S = Inr (x, S, ops) \<and>
    voutlet_dspepilog voutlet_newsig (Some [g, h]) 1 phase r S = Inr (y, ops') \<and>
    through_ok (P * 2 ^ k) P (2 ^ k) (nat phase) (replicate (P * 2 ^ k) (Fin 0)) (x, y)"
proof -
  let ?M = "P * 2 ^ k" and ?ph = "nat phase"
  have r: "dc_reblock r" "dc_vecsize r = int ?M" "dc_period r = 2 ^ k" "dc_frequency r = 1" "dc_upsample r = 1" "dc_downsample r = 1"
    using assms(1) by (simp_all add: longer_blocks_def)
  have "P \<le> ?M" by simp
  then have "int P \<le> int ?M" by (simp only: of_nat_le_iff)
  moreover from this have "int P < 2 ^ 31" using assms(3) by linarith
  ultimately have P: "wrap32 (int P) = int P" "cdiv (int P) 1 = int P" "max (int P) (int ?M) = int ?M"
    using assms(2) by (simp_all add: cdiv_def max_def)
  have M: "cdiv_trap (int ?M) (int P) = Inr (2 ^ k)" using assms(2) by (simp add: cdiv_trap_def cdiv_def)
  have "(1 :: int) \<le> 2 ^ k" by simp
  then have w1: "wrap32 (phase - 1) = phase - 1" using assms(4,5) by (intro wrap32_id) linarith+
  have "(1 :: int) \<le> 2 ^ k" by simp
  then have w2: "wrap32 (phase + 2 ^ k - 1) = phase + 2 ^ k - 1" using assms(4,5) by (intro wrap32_id) linarith+
  let ?pp = "(phase - 1) mod 2 ^ k"
  have "(phase + 2 ^ k - 1) mod 2 ^ k = ?pp" by (metis add_diff_eq add.commute diff_add_eq mod_add_self1)
  moreover have "int (?ph + 2 ^ k - 1) = phase + 2 ^ k - 1" 
    using assms(4) of_nat_diff [where ?'a = int, of 1 "?ph + 2 ^ k"] by (simp add: Suc_le_eq)
  ultimately have "int ((?ph + 2 ^ k - 1) mod 2 ^ k) = ?pp" by (simp only: zmod_int of_nat_power of_nat_numeral)
  then have pp: "(?ph + 2 ^ k - 1) mod 2 ^ k = nat ?pp"
    by (metis nat_int)
  have ppr: "0 \<le> ?pp" "?pp < 2 ^ k" by simp_all
  let ?x = "vinlet_newsig\<lparr>vi_buf := Some (replicate ?M (Fin 0)), vi_hop := ?M, vi_fill := nat ?pp * P, vi_directsignal := None\<rparr>"
  have "nat (int ?M - (2 ^ k * int P - ?pp * int P)) = nat ?pp * P" using ppr by (simp add: nat_mult_distrib mult.commute)
  then have x: "\<exists>ops. vinlet_dspprolog vinlet_newsig (Some [g, h]) 0 phase r S = Inr (?x, S, ops)"
    using r P assms(2,6-8) w1 by (simp add: vinlet_dspprolog_def vinlet_newsig_def Let_def resized_def and_period nat_mult_distrib nat_power_eq mult.commute)
  let ?y = "voutlet_newsig\<lparr>vo_buf := Some (replicate ?M (Fin 0)), vo_write := 0, vo_hop := ?M, vo_empty := ?ph mod 2 ^ k * P\<rparr>"
  have "nat (int P * (phase mod 2 ^ k)) = ?ph mod 2 ^ k * P"
    using assms(4) by (simp add: nat_mult_distrib nat_mod_distrib nat_power_eq mult.commute)
  then have y: "\<exists>ops. voutlet_dspepilog voutlet_newsig (Some [g, h]) 1 phase r S = Inr (?y, ops)"
    using r P M assms(2,9,10) w2
    by (simp add: voutlet_dspepilog_def voutlet_newsig_def Let_def resized_def and_period and_outside nat_mult_distrib nat_power_eq mult.commute)
  have q: "?ph mod 2 ^ k * P \<le> ?M" by (simp add: mult.commute)
  have fr: "nat ?pp * P \<le> ?M" using ppr by (simp add: mult.commute nat_less_iff less_imp_le)
  have "to_come ?M P (?ph mod 2 ^ k) (replicate ?M (Fin 0)) = replicate ?M (Fin 0)"
    using q by (rule to_come_zeros)
  moreover have "take (nat ?pp * P) (replicate ?M (Fin 0)) = lastn (nat ?pp * P) (replicate ?M (Fin 0))"
    using fr by (simp add: lastn_def)
  moreover have "?ph mod 2 ^ k * P < ?M" using assms(2) by (simp add: mult.commute)
  ultimately have "through_ok ?M P (2 ^ k) ?ph (replicate ?M (Fin 0)) (?x, ?y)"
    using fr assms(2) by (simp add: through_ok_def inlet_ok_def outlet_ok_def pending_def vinlet_newsig_def voutlet_newsig_def pp [simplified] rotate_zeros)
  then show ?thesis using x y by blast
qed

text \<open>\<^bold>\<open>C36\<close>: On a canvas whose \<open>block~\<close> makes its blocks longer than the vectors of the canvas around it, without overlap and without resampling,
  a signal that goes straight from \<open>inlet~\<close> to \<open>outlet~\<close> comes out unchanged (apart from a zero added to it) and delayed by the difference of the two sizes,
  whatever the phase in which signal processing started; no access leaves the buffers. The inner size is a power of two times the outer one.\<close>

theorem reblocking_delays:
  assumes "longer_blocks P k r" "0 < P" "int (P * 2 ^ k) < 2 ^ 31" "0 \<le> phase" "phase + 2 ^ k < 2 ^ 31"
    "getsig g S = Inr insig" "s_vecsize insig = int P" "s_refcount insig \<noteq> 0" "getsig h S = Inr outsig" "s_vecsize outsig = int P"
    "\<forall>v \<in> set vs. length v = P"
  shows "\<exists>x y ops ops' ws. vinlet_dspprolog vinlet_newsig (Some [g, h]) 0 phase r S = Inr (x, S, ops) \<and>
    voutlet_dspepilog voutlet_newsig (Some [g, h]) 1 phase r S = Inr (y, ops') \<and>
    through (P * 2 ^ k) P (2 ^ k) (nat phase) vs (x, y) = Inr ws \<and>
    concat ws = map (fadd binary32 (Fin 0)) (take (length vs * P) (replicate (P * 2 ^ k - P) (Fin 0) @ concat vs))"
proof -
  let ?M = "P * 2 ^ k"
  obtain x y ops ops' where s: "vinlet_dspprolog vinlet_newsig (Some [g, h]) 0 phase r S = Inr (x, S, ops)"
      "voutlet_dspepilog voutlet_newsig (Some [g, h]) 1 phase r S = Inr (y, ops')"
      "through_ok ?M P (2 ^ k) (nat phase) (replicate ?M (Fin 0)) (x, y)"
    using through_set_up [OF assms(1-10)] by (elim exE conjE) (rule that)
  have "P \<le> ?M" by simp
  then show ?thesis using through_delays [OF s(3) refl assms(2) _ assms(11)] s(1,2) by (auto simp: zero_plus_def)
qed

definition demo_rates :: rates where
  "demo_rates = \<lparr>dc_srate = Fin 44100, dc_vecsize = 4, dc_calcsize = 4, dc_reblock = True, dc_switched = False, dc_period = 2,
     dc_frequency = 1, dc_downsample = 1, dc_upsample = 1\<rparr>"

definition demo_signal :: t_signal where
  "demo_signal = \<lparr>s_n = 2, s_vec = Some 0, s_sr = Fin 44100, s_refcount = 1, s_isborrowed = False, s_borrowedfrom = None, s_vecsize = 2\<rparr>"

definition demo_signals :: signals where
  "demo_signals = no_signals\<lparr>sig_store := [demo_signal, demo_signal]\<rparr>"

lemma demo_signal_simps: "s_vecsize demo_signal = 2" "s_refcount demo_signal = 1"
  by (simp_all add: demo_signal_def)

theorem reblocking_delays_witness:
  "\<exists>x y ops ops' ws. vinlet_dspprolog vinlet_newsig (Some [0, 1]) 0 5 demo_rates demo_signals = Inr (x, demo_signals, ops) \<and>
    voutlet_dspepilog voutlet_newsig (Some [0, 1]) 1 5 demo_rates demo_signals = Inr (y, ops') \<and>
    through (2 * 2 ^ 1) 2 (2 ^ 1) (nat 5) [[Fin 1, Fin 2], [Fin 3, Fin 4]] (x, y) = Inr ws \<and>
    concat ws = map (fadd binary32 (Fin 0)) (take (length [[Fin 1, Fin 2], [Fin 3, Fin 4]] * 2)
      (replicate (2 * 2 ^ 1 - 2) (Fin 0) @ concat [[Fin 1, Fin 2], [Fin 3, Fin 4]]))"
  by (rule reblocking_delays [where insig = demo_signal and outsig = demo_signal])
    (simp_all add: longer_blocks_def demo_rates_def demo_signals_def demo_signal_simps getsig_def)

end
