(* ===== verification/Resample.thy ===== *)
theory Resample
  imports DArith
begin

text \<open>
  Resampling at the border of a canvas with another sample rate (\<open>d_resample.c\<close>). The vector that is read and the one that is
  written never overlap: one of them belongs to the resampler.
\<close>

subsection \<open>Perform routines\<close>

definition rget :: "fl list \<Rightarrow> nat \<Rightarrow> fl cresult" where
  "rget v i = (if i < length v then Inr (v ! i) else Inl OutOfBounds)"

fun down_loop :: "nat \<Rightarrow> nat \<Rightarrow> nat \<Rightarrow> fl list \<Rightarrow> fl list cresult" where
  "down_loop 0 i down ins = Inr []"
| "down_loop (Suc n) i down ins = cbind (rget ins i) (\<lambda>f. cbind (down_loop n (i + down) down ins) (\<lambda>fs. Inr (f # fs)))"

definition downsampling_perform_0 :: "fl list \<Rightarrow> nat \<Rightarrow> nat \<Rightarrow> fl list cresult" where
  "downsampling_perform_0 ins down parent = down_loop (parent div down) 0 down ins"

text \<open>\<open>*out = *in++; out += up;\<close>\<close>

fun stride :: "nat \<Rightarrow> nat \<Rightarrow> nat \<Rightarrow> nat \<Rightarrow> fl list \<Rightarrow> fl list \<Rightarrow> fl list cresult" where
  "stride 0 i k up ins out = Inr out"
| "stride (Suc n) i k up ins out = cbind (rget ins i) (\<lambda>f. if k < length out then stride n (i + 1) (k + up) up ins (out[k := f]) else Inl OutOfBounds)"

definition upsampling_perform_0 :: "fl list \<Rightarrow> nat \<Rightarrow> nat \<Rightarrow> fl list cresult" where
  "upsampling_perform_0 ins up parent = stride parent 0 0 up ins (replicate (parent * up) (Fin 0))"

fun hold_loop :: "nat \<Rightarrow> nat \<Rightarrow> nat \<Rightarrow> fl list \<Rightarrow> fl list \<Rightarrow> fl list cresult" where
  "hold_loop 0 up parent ins out = Inr out"
| "hold_loop (Suc i) up parent ins out = cbind (stride parent 0 i up ins out) (\<lambda>out. hold_loop i up parent ins out)"

definition upsampling_perform_hold :: "fl list \<Rightarrow> fl list \<Rightarrow> nat \<Rightarrow> nat \<Rightarrow> fl list cresult" where
  "upsampling_perform_hold ins out up parent = hold_loop up up parent ins out"

definition mix :: "fl \<Rightarrow> fl \<Rightarrow> fl \<Rightarrow> fl" where
  "mix fr b a = fl_convert binary32 (fadd binary64 (fl_convert binary64 (fmul binary32 fr b))
     (fmul binary64 (fsub binary64 (Fin 1) (fl_convert binary64 fr)) (fl_convert binary64 a)))"

text \<open>\<open>n\<close> counts up to \<open>length\<close>; the number of steps left is the first argument.\<close>

fun linear_loop :: "nat \<Rightarrow> nat \<Rightarrow> nat \<Rightarrow> fl list \<Rightarrow> fl \<Rightarrow> fl \<Rightarrow> (fl list \<times> fl) cresult" where
  "linear_loop 0 n up ins a b = Inr ([], a)"
| "linear_loop (Suc left) n up ins a b = (let
       findex = fdiv binary32 (fl_of_int binary32 (int (n + 1))) (fl_of_int binary32 (int up));
       index = int_of_fl findex;
       fr0 = fsub binary32 findex (fl_of_int binary32 index);
       fr = (if fzero fr0 then Fin 1 else fr0)
     in if index < 0 then Inl OutOfBounds else
        cbind (rget ins (nat index)) (\<lambda>b'. cbind (if index \<noteq> 0 then rget ins (nat (index - 1)) else Inr a) (\<lambda>a'.
        cbind (linear_loop left (n + 1) up ins a' b') (\<lambda>(outs, last). Inr (mix fr b a # outs, last)))))"

text \<open>The result holds the new \<open>*x->buffer\<close> too.\<close>

definition upsampling_perform_linear :: "fl \<Rightarrow> fl list \<Rightarrow> nat \<Rightarrow> nat \<Rightarrow> (fl list \<times> fl) cresult" where
  "upsampling_perform_linear buffer ins up parent = cbind (rget ins 0) (\<lambda>b. linear_loop (parent * up) 0 up ins buffer b)"

subsection \<open>The resampler\<close>

datatype rvec = Null | Own nat | Foreign nat

record t_resample =
  rs_n :: int
  rs_vec :: rvec
  rs_bufsize :: int

definition resample_init :: t_resample where
  "resample_init = \<lparr>rs_n = 0, rs_vec = Null, rs_bufsize = 0\<rparr>"

datatype resample_call = Downsample rvec rvec int int | Upsample0 rvec rvec int int | UpsampleHold rvec rvec int int
  | UpsampleLinear rvec rvec int int

text \<open>Nothing is put on the chain where a size is not a multiple of the other.\<close>

definition resample_dsp :: "t_resample \<Rightarrow> rvec \<Rightarrow> int \<Rightarrow> rvec \<Rightarrow> int \<Rightarrow> int \<Rightarrow> (t_resample \<times> resample_call option) cresult" where
  "resample_dsp x a insize out outsize method =
     (if insize = outsize then Inr (x, None)
      else if insize > outsize then
        (if outsize = 0 then Inl DivideTrap else if cmod insize outsize \<noteq> 0 then Inr (x, None)
         else Inr (x, Some (Downsample a out (cdiv insize outsize) insize)))
      else if insize = 0 then Inl DivideTrap else if cmod outsize insize \<noteq> 0 then Inr (x, None)
      else if method = 1 then Inr (x, Some (UpsampleHold a out (cdiv outsize insize) insize))
      else if method = 2 then Inr (x\<lparr>rs_bufsize := 1\<rparr>, Some (UpsampleLinear a out (cdiv outsize insize) insize))
      else Inr (x, Some (Upsample0 a out (cdiv outsize insize) insize)))"

text \<open>The last component of the result is the vector that is freed. A new vector gets the identity \<open>fresh\<close>.\<close>

definition resamplefrom_dsp :: "nat \<Rightarrow> t_resample \<Rightarrow> rvec \<Rightarrow> int \<Rightarrow> int \<Rightarrow> int \<Rightarrow> (t_resample \<times> resample_call option \<times> rvec) cresult" where
  "resamplefrom_dsp fresh x a insize outsize method =
     (if insize = outsize then Inr (x\<lparr>rs_n := 0, rs_vec := a\<rparr>, None, rs_vec x)
      else (let freed = (if rs_n x \<noteq> outsize then rs_vec x else Null);
                x = (if rs_n x \<noteq> outsize then x\<lparr>rs_vec := Own fresh, rs_n := outsize\<rparr> else x)
            in cbind (resample_dsp x a insize (rs_vec x) (rs_n x) method) (\<lambda>(x, call). Inr (x, call, freed))))"

definition resampleto_dsp :: "nat \<Rightarrow> t_resample \<Rightarrow> rvec \<Rightarrow> int \<Rightarrow> int \<Rightarrow> int \<Rightarrow> (t_resample \<times> resample_call option \<times> rvec) cresult" where
  "resampleto_dsp fresh x out insize outsize method =
     (if insize = outsize then Inr (x\<lparr>rs_n := 0, rs_vec := out\<rparr>, None, if rs_n x \<noteq> 0 then rs_vec x else Null)
      else (let freed = (if rs_n x \<noteq> insize then rs_vec x else Null);
                x = (if rs_n x \<noteq> insize then x\<lparr>rs_vec := Own fresh, rs_n := insize\<rparr> else x)
            in cbind (resample_dsp x (rs_vec x) (rs_n x) out outsize method) (\<lambda>(x, call). Inr (x, call, freed))))"

text \<open>
  Where the sizes agree the resampler takes over a vector that is not its own; the next change frees it. (Canvases do not
  resample where the sizes agree.)
\<close>

lemma resample_frees_foreign:
  assumes "0 < n" "k \<noteq> 0" "k \<noteq> n"
  shows "\<exists>x' x'' call. resamplefrom_dsp fresh x (Foreign v) n n method = Inr (x', None, rs_vec x) \<and>
    (resamplefrom_dsp fresh x' (Foreign v) n k method = Inr (x'', call, Foreign v))"
  using assms by (auto simp: resamplefrom_dsp_def resample_dsp_def Let_def)

subsection \<open>What the routines compute\<close>

lemma down_loop_eq: "i + n * down < length ins + down \<Longrightarrow> down_loop n i down ins = Inr (map (\<lambda>j. ins ! (i + j * down)) [0..<n])"
proof (induction n arbitrary: i)
  case (Suc n)
  have "down_loop n (i + down) down ins = Inr (map (\<lambda>j. ins ! (i + down + j * down)) [0..<n])"
    by (rule Suc.IH) (use Suc.prems in simp)
  moreover have "map (\<lambda>j. ins ! (i + j * down)) [0..<Suc n] = ins ! i # map (\<lambda>j. ins ! (i + down + j * down)) [0..<n]"
    unfolding upt_conv_Cons [OF zero_less_Suc] map_Suc_upt [symmetric] by (simp add: o_def add.assoc)
  moreover have "i < length ins" using Suc.prems by simp
  ultimately show ?case by (simp only: down_loop.simps rget_def if_True cbind_simps)
qed simp

lemma stride_eq:
  assumes "i + n \<le> length ins" "n = 0 \<or> k + (n - 1) * up < length out" "0 < up"
  shows "\<exists>out'. stride n i k up ins out = Inr out' \<and> length out' = length out \<and>
    (\<forall>p < length out. out' ! p = (if \<exists>j < n. p = k + j * up then ins ! (i + (p - k) div up) else out ! p))"
  using assms(1,2)
proof (induction n arbitrary: i k out)
  case (Suc n)
  have k: "k < length out" using Suc.prems(2) by auto
  have "n = 0 \<or> k + up + (n - 1) * up < length (out[k := ins ! i])" using Suc.prems(2) by (cases n) auto
  with Suc.IH [of "i + 1" "k + up" "out[k := ins ! i]"] Suc.prems(1) obtain out' where
    out': "stride n (i + 1) (k + up) up ins (out[k := ins ! i]) = Inr out'" "length out' = length out"
      "\<forall>p < length out. out' ! p = (if \<exists>j < n. p = k + up + j * up then ins ! (i + 1 + (p - (k + up)) div up) else out[k := ins ! i] ! p)"
    by auto
  have "out' ! p = (if \<exists>j < Suc n. p = k + j * up then ins ! (i + (p - k) div up) else out ! p)" if p: "p < length out" for p
  proof (cases "\<exists>j < n. p = k + up + j * up")
    case True
    then obtain j where j: "j < n" "p = k + Suc j * up" by auto
    then have "\<exists>j < Suc n. p = k + j * up" by blast
    moreover have "out' ! p = ins ! (i + (p - k) div up)"
      using out'(3) p True j(2) assms(3) by (simp add: div_add_self1)
    ultimately show ?thesis by simp
  next
    case False
    have "(\<exists>j < Suc n. p = k + j * up) \<longleftrightarrow> p = k"
    proof
      assume "\<exists>j < Suc n. p = k + j * up"
      then obtain j where "j < Suc n" "p = k + j * up" by blast
      then show "p = k" using False by (cases j) auto
    qed auto
    then show ?thesis using out'(3) p False k by (auto simp: nth_list_update)
  qed
  then show ?case using out'(1,2) k Suc.prems(1) by (intro exI [of _ out']) (simp add: rget_def)
qed simp

lemma upsampling_0_eq:
  assumes "length ins = parent" "0 < up"
  shows "\<exists>out. upsampling_perform_0 ins up parent = Inr out \<and> length out = parent * up \<and>
    (\<forall>j < parent. \<forall>i < up. out ! (j * up + i) = (if i = 0 then ins ! j else Fin 0))"
proof -
  have "parent = 0 \<or> 0 + (parent - 1) * up < length (replicate (parent * up) (Fin 0))" using assms(2) by (cases parent) auto
  with stride_eq [of 0 parent ins 0 up "replicate (parent * up) (Fin 0)"] assms obtain out where out: "upsampling_perform_0 ins up parent = Inr out"
      "length out = parent * up"
      "\<forall>p < parent * up. out ! p = (if \<exists>j < parent. p = j * up then ins ! (p div up) else replicate (parent * up) (Fin 0) ! p)"
    unfolding upsampling_perform_0_def by (simp cong: if_cong) blast
  have "out ! (j * up + i) = (if i = 0 then ins ! j else Fin 0)" if "j < parent" "i < up" for j i
  proof -
    have "Suc j * up \<le> parent * up" using that(1) by (intro mult_le_mono1) simp
    then have p: "j * up + i < parent * up" using that(2) by simp
    have "i = 0" if "j * up + i = l * up" for l using that \<open>i < up\<close> by (metis mod_mult_self3 mod_mult_self2_is_0 mod_less)
    then show ?thesis using out(3) p that assms(2) by auto
  qed
  then show ?thesis using out(1,2) by blast
qed

lemma hold_loop_eq:
  assumes "length ins = parent" "k \<le> up" "length out = parent * up"
  shows "\<exists>out'. hold_loop k up parent ins out = Inr out' \<and> length out' = parent * up \<and>
    (\<forall>j < parent. \<forall>i < up. out' ! (j * up + i) = (if i < k then ins ! j else out ! (j * up + i)))"
  using assms(2,3)
proof (induction k arbitrary: out)
  case 0
  then show ?case by simp
next
  case (Suc k)
  have "parent = 0 \<or> k + (parent - 1) * up < length out" using Suc.prems by (cases parent) auto
  with stride_eq [of 0 parent ins k up out] Suc.prems assms(1) obtain out1 where out1: "stride parent 0 k up ins out = Inr out1"
      "length out1 = parent * up"
      "\<forall>p < parent * up. out1 ! p = (if \<exists>j < parent. p = k + j * up then ins ! ((p - k) div up) else out ! p)"
    by (simp cong: if_cong) blast
  from Suc.IH [of out1] out1(2) Suc.prems(1) obtain out' where out': "hold_loop k up parent ins out1 = Inr out'" "length out' = parent * up"
      "\<forall>j < parent. \<forall>i < up. out' ! (j * up + i) = (if i < k then ins ! j else out1 ! (j * up + i))" by auto
  have "out' ! (j * up + i) = (if i < Suc k then ins ! j else out ! (j * up + i))" if "j < parent" "i < up" for j i
  proof -
    have "Suc j * up \<le> parent * up" using that(1) by (intro mult_le_mono1) simp
    then have p: "j * up + i < parent * up" using that(2) by simp
    have ik: "i = k" if "j * up + i = k + l * up" for l
    proof -
      have "(j * up + i) mod up = (k + l * up) mod up" using that by simp
      then show ?thesis using \<open>i < up\<close> Suc.prems(1) by simp
    qed
    have "out1 ! (j * up + k) = ins ! j" if "i = k"
      using out1(3) p that \<open>j < parent\<close> Suc.prems(1) by (auto simp: add.commute)
    moreover have "out1 ! (j * up + i) = out ! (j * up + i)" if "i \<noteq> k" using out1(3) p ik that by auto
    ultimately show ?thesis using out'(3) that by (auto simp: less_Suc_eq)
  qed
  then show ?case using out1(1) out'(1,2) by simp
qed


text \<open>Taking every sample apart and going back loses nothing, whether the gaps are filled with zeros or by holding the sample.\<close>

theorem resample_roundtrip:
  assumes "length ins = parent" "0 < up" "length out = parent * up"
  shows "(\<exists>hs. upsampling_perform_hold ins out up parent = Inr hs \<and> downsampling_perform_0 hs up (parent * up) = Inr ins) \<and>
    (\<exists>zs. upsampling_perform_0 ins up parent = Inr zs \<and> downsampling_perform_0 zs up (parent * up) = Inr ins)"
proof -
  have undo: "downsampling_perform_0 v up (parent * up) = Inr ins"
    if "length v = parent * up" "\<forall>j < parent. v ! (j * up) = ins ! j" for v
  proof -
    have "down_loop parent 0 up v = Inr (map (\<lambda>j. v ! (0 + j * up)) [0..<parent])"
      using that(1) assms(2) by (intro down_loop_eq) simp
    moreover have "map (\<lambda>j. v ! (0 + j * up)) [0..<parent] = ins" using that(2) assms(1) by (intro nth_equalityI) auto
    ultimately show ?thesis using assms(2) by (simp add: downsampling_perform_0_def)
  qed
  obtain zs where zs: "upsampling_perform_0 ins up parent = Inr zs" "length zs = parent * up"
      "\<forall>j < parent. \<forall>i < up. zs ! (j * up + i) = (if i = 0 then ins ! j else Fin 0)"
    using upsampling_0_eq [OF assms(1,2)] by blast
  obtain hs where hs: "upsampling_perform_hold ins out up parent = Inr hs" "length hs = parent * up"
      "\<forall>j < parent. \<forall>i < up. hs ! (j * up + i) = (if i < up then ins ! j else out ! (j * up + i))"
    using hold_loop_eq [OF assms(1) order_refl assms(3)] by (auto simp: upsampling_perform_hold_def)
  have "\<forall>j < parent. zs ! (j * up) = ins ! j" "\<forall>j < parent. hs ! (j * up) = ins ! j"
    using zs(3) hs(3) assms(2) by (metis add_0_right)+
  then show ?thesis using undo zs(1,2) hs(1,2) by blast
qed

theorem resample_roundtrip_witness:
  "\<exists>hs. upsampling_perform_hold [Fin 1, Fin 2] (replicate 4 (Fin 0)) 2 2 = Inr hs \<and> downsampling_perform_0 hs 2 (2 * 2) = Inr [Fin 1, Fin 2]"
  using resample_roundtrip [of "[Fin 1, Fin 2]" 2 2 "replicate 4 (Fin 0)"] by simp

text \<open>Linear interpolation lags by one sample, so it goes on from block to block with the last one kept.\<close>

definition linear_sample :: "nat \<Rightarrow> fl \<Rightarrow> fl list \<Rightarrow> nat \<Rightarrow> fl" where
  "linear_sample up buffer xs n = mix (Fin (of_nat (n mod up + 1) / of_nat up)) (xs ! (n div up))
     (if n div up = 0 then buffer else xs ! (n div up - 1))"

lemma exact_quotient:
  assumes "m < 2 ^ 24" "k < 24"
  shows "fround binary32 (of_nat m / 2 ^ k) = Fin (of_nat m / 2 ^ k)"
proof (rule fround_exact [where m = "int m" and e = "- int k"])
  show "of_nat m / 2 ^ k = (of_int (int m) * 2 powi (- int k) :: rat)" by (simp add: power_int_minus field_simps)
  have "int m < int (2 ^ 24)" using assms(1) by (simp only: of_nat_less_iff)
  then show "\<bar>int m\<bar> < 2 ^ f_prec binary32" by (simp add: binary32_def)
  show "f_emin binary32 \<le> - int k" using assms(2) by (simp add: binary32_def)
  have "(of_nat m :: rat) < of_nat (2 ^ 24)" using assms(1) by (simp only: of_nat_less_iff)
  then have "(of_nat m :: rat) < 2 ^ 24" by simp
  moreover have "(of_nat m / 2 ^ k :: rat) \<le> of_nat m" 
    using mult_left_mono [of 1 "2 ^ k :: rat" "of_nat m"] by (simp add: divide_le_eq)
  moreover have "(2 :: rat) ^ 24 \<le> 2 powi 128" by simp
  ultimately show "\<bar>of_nat m / 2 ^ k :: rat\<bar> < 2 powi f_emax binary32" by (simp add: binary32_def)
qed

lemma linear_index:
  assumes "n + 1 < 2 ^ 24" "k < 24"
  shows "fdiv binary32 (fl_of_int binary32 (int (n + 1))) (fl_of_int binary32 (int (2 ^ k))) = Fin (of_nat (n + 1) / 2 ^ k)"
    and "int_of_fl (Fin (of_nat (n + 1) / 2 ^ k)) = int ((n + 1) div 2 ^ k)"
    and "fsub binary32 (Fin (of_nat (n + 1) / 2 ^ k)) (fl_of_int binary32 (int ((n + 1) div 2 ^ k))) = Fin (of_nat ((n + 1) mod 2 ^ k) / 2 ^ k)"
proof -
  let ?m = "n + 1" and ?u = "2 ^ k :: nat"
  have u: "?u < 2 ^ 24" using assms(2) by (intro power_strict_increasing) auto
  have i: "fl_of_int binary32 (int x) = Fin (of_nat x)" if "x < 2 ^ 24" for x
  proof -
    have "int x < int (2 ^ 24)" using that by (simp only: of_nat_less_iff)
    then show ?thesis using fl_of_int_binary32 [of "int x"] by simp
  qed
  show "fdiv binary32 (fl_of_int binary32 (int ?m)) (fl_of_int binary32 (int ?u)) = Fin (of_nat ?m / 2 ^ k)"
    using exact_quotient [OF assms] by (simp only: i [OF assms(1)] i [OF u]) (simp add: fdiv_def fzero_def)
  have fl: "\<lfloor>of_nat ?m / 2 ^ k :: rat\<rfloor> = int (?m div ?u)"
    using floor_divide_of_nat_eq [where ?'a = rat, of ?m ?u] by (simp only: of_nat_power of_nat_numeral)
  have le: "?m div ?u \<le> ?m" by (rule div_le_dividend)
  moreover have "?m < 2 ^ 31" by (rule less_trans [OF assms(1)]) simp
  ultimately have "?m div ?u < 2 ^ 31" by (rule le_less_trans)
  then have "int (?m div ?u) < int (2 ^ 31)" by (simp only: of_nat_less_iff)
  then have "int (?m div ?u) < 2 ^ 31" by simp
  moreover have "\<not> (of_nat ?m / 2 ^ k :: rat) < 0" unfolding not_less by (intro divide_nonneg_pos of_nat_0_le_iff) simp
  ultimately show "int_of_fl (Fin (of_nat ?m / 2 ^ k)) = int (?m div ?u)"
    using fl by (simp only: int_of_fl.simps rat_trunc_def if_False Let_def) simp
  have "?m div ?u * ?u + ?m mod ?u = ?m" by (rule div_mult_mod_eq)
  then have "(of_nat (?m div ?u) * of_nat ?u + of_nat (?m mod ?u) :: rat) = of_nat ?m" by (simp only: of_nat_add [symmetric] of_nat_mult [symmetric])
  then have q: "(of_nat ?m / 2 ^ k - of_nat (?m div ?u) :: rat) = of_nat (?m mod ?u) / 2 ^ k" by (simp add: field_simps)
  have "?m mod ?u < 2 ^ 24" using u by (intro less_trans [OF mod_less_divisor u]) simp
  then have e: "fround binary32 (of_nat (?m mod ?u) / 2 ^ k) = Fin (of_nat (?m mod ?u) / 2 ^ k)" using assms(2) by (rule exact_quotient)
  have "?m div ?u < 2 ^ 24" using le assms(1) by (rule le_less_trans)
  then have "fl_of_int binary32 (int (?m div ?u)) = Fin (of_nat (?m div ?u))" by (rule i)
  moreover have "fsub binary32 (Fin x) (Fin y) = fround binary32 (x - y)" for x y by (simp add: fsub_def)
  ultimately show "fsub binary32 (Fin (of_nat ?m / 2 ^ k)) (fl_of_int binary32 (int (?m div ?u))) = Fin (of_nat (?m mod ?u) / 2 ^ k)"
    by (simp only: q e)
qed

lemma linear_step:
  assumes "n + 1 < 2 ^ 24" "k < 24"
  shows "linear_loop (Suc left) n (2 ^ k) ins a b =
    cbind (rget ins ((n + 1) div 2 ^ k)) (\<lambda>b'. cbind (if (n + 1) div 2 ^ k \<noteq> 0 then rget ins ((n + 1) div 2 ^ k - 1) else Inr a) (\<lambda>a'.
      cbind (linear_loop left (n + 1) (2 ^ k) ins a' b') (\<lambda>(outs, last). Inr (mix (Fin (of_nat (n mod 2 ^ k + 1) / 2 ^ k)) b a # outs, last))))"
proof -
  note L = linear_index [OF assms]
  have "(if fzero (Fin (of_nat ((n + 1) mod 2 ^ k) / 2 ^ k)) then Fin 1 else Fin (of_nat ((n + 1) mod 2 ^ k) / 2 ^ k)) =
      Fin (of_nat (n mod 2 ^ k + 1) / 2 ^ k)"
  proof (cases "n mod 2 ^ k + 1 = 2 ^ k")
    case True
    then have "(n + 1) mod 2 ^ k = 0" by (metis mod_Suc Suc_eq_plus1)
    moreover have "(of_nat (n mod 2 ^ k + 1) / 2 ^ k :: rat) = 1" unfolding True by simp
    ultimately show ?thesis by (simp only:) (simp add: fzero_def)
  next
    case False
    then have m: "(n + 1) mod 2 ^ k = n mod 2 ^ k + 1" by (metis mod_Suc Suc_eq_plus1)
    have "(of_nat (n mod 2 ^ k + 1) / 2 ^ k :: rat) \<noteq> 0" by (simp del: of_nat_add)
    then show ?thesis unfolding m by (simp add: fzero_def)
  qed
  moreover have "int ((n + 1) div 2 ^ k) \<noteq> 0 \<longleftrightarrow> (n + 1) div 2 ^ k \<noteq> 0" by (simp only: of_nat_eq_0_iff)
  moreover have "nat (int ((n + 1) div 2 ^ k) - 1) = (n + 1) div 2 ^ k - 1" by linarith
  ultimately show ?thesis by (simp only: linear_loop.simps L Let_def nat_int of_nat_less_0_iff if_False)
qed


definition linear_inv :: "nat \<Rightarrow> nat \<Rightarrow> fl \<Rightarrow> fl list \<Rightarrow> fl \<Rightarrow> fl \<Rightarrow> bool" where
  "linear_inv n up buffer xs a b \<longleftrightarrow> b = xs ! (n div up) \<and> a = (if n div up = 0 then buffer else xs ! (n div up - 1))"

lemma linear_next:
  assumes "linear_inv n up buffer xs a b" "(n + 1) div up < length xs"
  shows "\<exists>a' b'. rget xs ((n + 1) div up) = Inr b' \<and> (if (n + 1) div up \<noteq> 0 then rget xs ((n + 1) div up - 1) else Inr a) = Inr a' \<and>
    linear_inv (n + 1) up buffer xs a' b'"
proof -
  have "n div up = 0" if "(n + 1) div up = 0" using that div_le_mono [of n "n + 1" up] by simp
  then show ?thesis using assms by (auto simp: linear_inv_def rget_def)
qed

lemma linear_loop_inside:
  assumes "n + left < 2 ^ 24" "k < 24" "linear_inv n (2 ^ k) buffer xs a b" "(n + left) div 2 ^ k < length xs"
  shows "\<exists>a' b'. linear_loop left n (2 ^ k) xs a b = Inr (map (linear_sample (2 ^ k) buffer xs) [n..<n + left], a') \<and>
    linear_inv (n + left) (2 ^ k) buffer xs a' b'"
  using assms(1,3,4)
proof (induction left arbitrary: n a b)
  case 0
  then show ?case by auto
next
  case (Suc left)
  have "(n + 1) div 2 ^ k \<le> (n + Suc left) div 2 ^ k" by (rule div_le_mono) simp
  then have "(n + 1) div 2 ^ k < length xs" using Suc.prems(3) by (rule le_less_trans)
  from linear_next [OF Suc.prems(2) this] obtain a1 b1 where ab: "rget xs ((n + 1) div 2 ^ k) = Inr b1"
      "(if (n + 1) div 2 ^ k \<noteq> 0 then rget xs ((n + 1) div 2 ^ k - 1) else Inr a) = Inr a1"
      "linear_inv (n + 1) (2 ^ k) buffer xs a1 b1" by blast
  have "(n + 1) + left < 2 ^ 24" "((n + 1) + left) div 2 ^ k < length xs" using Suc.prems by simp_all
  from Suc.IH [OF this(1) ab(3) this(2)] obtain a' b' where IH:
      "linear_loop left (n + 1) (2 ^ k) xs a1 b1 = Inr (map (linear_sample (2 ^ k) buffer xs) [n + 1..<n + 1 + left], a')"
      "linear_inv (n + 1 + left) (2 ^ k) buffer xs a' b'" by blast
  have "mix (Fin (of_nat (n mod 2 ^ k + 1) / 2 ^ k)) b a = linear_sample (2 ^ k) buffer xs n"
    using Suc.prems(2) by (simp add: linear_sample_def linear_inv_def)
  moreover have "[n..<n + Suc left] = n # [n + 1..<n + 1 + left]" by (simp add: upt_rec)
  moreover have "n + 1 < 2 ^ 24" using Suc.prems(1) by simp
  ultimately have "linear_loop (Suc left) n (2 ^ k) xs a b = Inr (map (linear_sample (2 ^ k) buffer xs) [n..<n + Suc left], a')"
    by (simp only: linear_step assms(2) ab(1,2) IH(1) cbind_simps prod.case list.map)
  then show ?case using IH(2) by auto
qed

lemma linear_loop_outside:
  assumes "n + left < 2 ^ 24" "k < 24" "linear_inv n (2 ^ k) buffer xs a b" "n div 2 ^ k < length xs" "(n + left) div 2 ^ k = length xs"
  shows "linear_loop left n (2 ^ k) xs a b = Inl OutOfBounds"
  using assms(1,3,4,5)
proof (induction left arbitrary: n a b)
  case 0
  then show ?case by simp
next
  case (Suc left)
  have n: "n + 1 < 2 ^ 24" using Suc.prems(1) by simp
  show ?case
  proof (cases "(n + 1) div 2 ^ k < length xs")
    case True
    from linear_next [OF Suc.prems(2) this] obtain a1 b1 where ab: "rget xs ((n + 1) div 2 ^ k) = Inr b1"
        "(if (n + 1) div 2 ^ k \<noteq> 0 then rget xs ((n + 1) div 2 ^ k - 1) else Inr a) = Inr a1"
        "linear_inv (n + 1) (2 ^ k) buffer xs a1 b1" by blast
    have "linear_loop left (n + 1) (2 ^ k) xs a1 b1 = Inl OutOfBounds" using Suc.IH [OF _ ab(3) True] Suc.prems(1,4) by simp
    then show ?thesis by (simp only: linear_step [OF n assms(2)] ab(1,2) cbind_simps)
  next
    case False
    then have "rget xs ((n + 1) div 2 ^ k) = Inl OutOfBounds" by (simp add: rget_def)
    then show ?thesis by (simp only: linear_step [OF n assms(2)] cbind_simps)
  qed
qed

text \<open>Linear upsampling, for factors that are powers of two and blocks of ordinary size, gives the interpolated samples, one
  sample late so that the first ones start from the last sample of the block before, which is kept for the next block; but it reads
  one sample behind the end of the vector every time. What it reads there has no influence.\<close>

theorem upsample_linear_reads_past:
  assumes "xs \<noteq> []" "length xs * 2 ^ k < 2 ^ 24" "k < 24"
  shows "upsampling_perform_linear buffer xs (2 ^ k) (length xs) = Inl OutOfBounds \<and>
    upsampling_perform_linear buffer (xs @ [z]) (2 ^ k) (length xs) =
      Inr (map (linear_sample (2 ^ k) buffer xs) [0..<length xs * 2 ^ k], last xs)"
proof
  let ?n = "length xs * 2 ^ k"
  have len: "0 < length xs" using assms(1) by simp
  have i: "linear_inv 0 (2 ^ k) buffer xs buffer (xs ! 0)" "linear_inv 0 (2 ^ k) buffer (xs @ [z]) buffer ((xs @ [z]) ! 0)"
    by (simp_all add: linear_inv_def)
  show "upsampling_perform_linear buffer xs (2 ^ k) (length xs) = Inl OutOfBounds"
    using linear_loop_outside [OF _ assms(3) i(1), of ?n] assms(2) len by (simp add: upsampling_perform_linear_def rget_def)
  obtain a' b' where l: "linear_loop ?n 0 (2 ^ k) (xs @ [z]) buffer ((xs @ [z]) ! 0) =
        Inr (map (linear_sample (2 ^ k) buffer (xs @ [z])) [0..<0 + ?n], a')" "linear_inv (0 + ?n) (2 ^ k) buffer (xs @ [z]) a' b'"
    using linear_loop_inside [OF _ assms(3) i(2), of ?n] assms(2) by auto
  have "linear_sample (2 ^ k) buffer (xs @ [z]) n = linear_sample (2 ^ k) buffer xs n" if "n < ?n" for n
  proof -
    have "n div 2 ^ k < length xs" using that by (simp add: less_mult_imp_div_less)
    then show ?thesis by (simp add: linear_sample_def nth_append)
  qed
  then have "map (linear_sample (2 ^ k) buffer (xs @ [z])) [0..<0 + ?n] = map (linear_sample (2 ^ k) buffer xs) [0..<?n]" by simp
  moreover have "a' = last xs" using l(2) assms(1) by (simp add: linear_inv_def nth_append last_conv_nth)
  ultimately show "upsampling_perform_linear buffer (xs @ [z]) (2 ^ k) (length xs) =
      Inr (map (linear_sample (2 ^ k) buffer xs) [0..<?n], last xs)"
    using l(1) by (simp add: upsampling_perform_linear_def rget_def)
qed

theorem upsample_linear_reads_past_witness:
  "upsampling_perform_linear (Fin 0) [Fin 1, Fin 2] (2 ^ 1) (length [Fin 1, Fin 2]) = Inl OutOfBounds"
  using upsample_linear_reads_past [of "[Fin 1, Fin 2]" 1] by simp

end
