(* ===== verification/Delay.thy ===== *)
theory Delay
  imports DArith
begin

text \<open>
  Delay lines (\<open>d_delay.c\<close>): \<open>delwrite~\<close> keeps the last samples in a circular buffer, \<open>delread~\<close> and \<open>vd~\<close> read them with a
  delay that is constant for a block or changes with every sample.
\<close>

unbundle bit_operations_syntax

subsection \<open>The buffer\<close>

text \<open>Four samples more than its size: the first four repeat the last four.\<close>

abbreviation XTRASAMPS :: int where "XTRASAMPS \<equiv> 4"
abbreviation SAMPBLK :: int where "SAMPBLK \<equiv> 4"
abbreviation DEFDELVS :: int where "DEFDELVS \<equiv> 64"

record delwritectl =
  c_n :: int
  c_vec :: "fl list"
  c_phase :: int

definition vget :: "fl list \<Rightarrow> int \<Rightarrow> fl cresult" where
  "vget v i = (if 0 \<le> i \<and> i < int (length v) then Inr (v ! nat i) else Inl OutOfBounds)"

definition vput :: "fl list \<Rightarrow> int \<Rightarrow> fl \<Rightarrow> fl list cresult" where
  "vput v i f = (if 0 \<le> i \<and> i < int (length v) then Inr (v[nat i := f]) else Inl OutOfBounds)"

text \<open>The test on the bits of the exponent: the absolute value is below \<open>2 powi -63\<close>, or \<open>2 powi 65\<close> and more.\<close>

fun bigorsmall :: "fl \<Rightarrow> bool" where
  "bigorsmall (Fin q) \<longleftrightarrow> \<bar>q\<bar> < 2 powi (-63) \<or> 2 powi 65 \<le> \<bar>q\<bar>"
| "bigorsmall _ \<longleftrightarrow> True"

definition clean :: "fl \<Rightarrow> fl" where
  "clean f = (if bigorsmall f then Fin 0 else f)"

subsection \<open>\<open>delwrite~\<close>\<close>

record sigdelwrite =
  w_deltime :: fl
  w_cspace :: delwritectl
  w_sortno :: int
  w_rsortno :: int
  w_vecsize :: int

definition sigdelwrite_new :: "fl \<Rightarrow> sigdelwrite" where
  "sigdelwrite_new msec = \<lparr>w_deltime = msec, w_cspace = \<lparr>c_n = 0, c_vec = replicate 4 (Fin 0), c_phase = 0\<rparr>,
     w_sortno = 0, w_rsortno = 0, w_vecsize = 0\<rparr>"

definition line_size :: "fl \<Rightarrow> fl \<Rightarrow> int" where
  "line_size deltime sr = (let n0 = int_of_fl (fmul binary32 (fmul binary32 deltime sr) (fround binary32 (1 / 1000)));
     n1 = (if n0 < 1 then 1 else n0); n2 = n1 + ((- n1) AND (SAMPBLK - 1)) in n2 + DEFDELVS)"

definition resize :: "fl list \<Rightarrow> nat \<Rightarrow> fl list" where
  "resize v n = take n v @ replicate (n - length v) (Fin 0)"

definition sigdelwrite_updatesr :: "sigdelwrite \<Rightarrow> fl \<Rightarrow> sigdelwrite" where
  "sigdelwrite_updatesr x sr = (let nsamps = line_size (w_deltime x) sr in
     if c_n (w_cspace x) \<noteq> nsamps then
       x\<lparr>w_cspace := \<lparr>c_n = nsamps, c_vec = resize (c_vec (w_cspace x)) (nat (nsamps + XTRASAMPS)), c_phase = XTRASAMPS\<rparr>\<rparr>
     else x)"

definition sigdelwrite_checkvecsize :: "int \<Rightarrow> sigdelwrite \<Rightarrow> int \<Rightarrow> sigdelwrite" where
  "sigdelwrite_checkvecsize sortno x vecsize =
     (if w_rsortno x \<noteq> sortno then x\<lparr>w_vecsize := vecsize, w_rsortno := sortno\<rparr> else x)"

definition copy_extra :: "fl list \<Rightarrow> int \<Rightarrow> fl list cresult" where
  "copy_extra v ep = cbind (vget v (ep - 4)) (\<lambda>f. cbind (vput v 0 f) (\<lambda>v1.
     cbind (vget v1 (ep - 3)) (\<lambda>f. cbind (vput v1 1 f) (\<lambda>v2.
     cbind (vget v2 (ep - 2)) (\<lambda>f. cbind (vput v2 2 f) (\<lambda>v3.
     cbind (vget v3 (ep - 1)) (\<lambda>f. vput v3 3 f)))))))"

fun delwrite_loop :: "fl list \<Rightarrow> int \<Rightarrow> int \<Rightarrow> int \<Rightarrow> fl list \<Rightarrow> (fl list \<times> int) cresult" where
  "delwrite_loop [] bp phase nsamps v = Inr (v, phase)"
| "delwrite_loop (f # ins) bp phase nsamps v =
     cbind (vput v bp (if bigorsmall f then Fin 0 else f)) (\<lambda>v1.
       if bp + 1 = nsamps + XTRASAMPS then
         cbind (copy_extra v1 (nsamps + XTRASAMPS)) (\<lambda>v2. delwrite_loop ins XTRASAMPS (phase - nsamps) nsamps v2)
       else delwrite_loop ins (bp + 1) phase nsamps v1)"

definition sigdelwrite_perform :: "fl list \<Rightarrow> delwritectl \<Rightarrow> delwritectl cresult" where
  "sigdelwrite_perform ins c =
     cbind (delwrite_loop ins (c_phase c) (c_phase c + int (length ins)) (c_n c) (c_vec c)) (\<lambda>(v, phase).
       Inr (c\<lparr>c_vec := v, c_phase := phase\<rparr>))"

text \<open>The number of the sorting is an argument; the call put on the chain is \<open>sigdelwrite_perform\<close>.\<close>

definition sigdelwrite_dsp :: "int \<Rightarrow> int \<Rightarrow> fl \<Rightarrow> sigdelwrite \<Rightarrow> sigdelwrite" where
  "sigdelwrite_dsp sortno n sr x = sigdelwrite_updatesr (sigdelwrite_checkvecsize sortno (x\<lparr>w_sortno := sortno\<rparr>) n) sr"

subsection \<open>\<open>delread~\<close>\<close>

record sigdelread =
  r_deltime :: fl
  r_delsamps :: int
  r_sr :: fl
  r_n :: fl
  r_zerodel :: int

text \<open>The \<open>delwrite~\<close> of the same name, if there is one, is an argument.\<close>

definition sigdelread_float :: "sigdelwrite option \<Rightarrow> sigdelread \<Rightarrow> fl \<Rightarrow> sigdelread" where
  "sigdelread_float delwriter x f = (let x = x\<lparr>r_deltime := f\<rparr> in
     case delwriter of
       None \<Rightarrow> x
     | Some w \<Rightarrow>
         (let delsize = c_n (w_cspace w);
              d = int_of_fl (fsub binary32 (fadd binary32 (fl_of_int binary32
                    (int_of_fl (fadd binary64 (Fin (1 / 2)) (fl_convert binary64 (fmul binary32 (r_sr x) (r_deltime x))))))
                    (r_n x)) (fl_of_int binary32 (r_zerodel x)))
          in if flt (fl_of_int binary32 d) (r_n x) then x\<lparr>r_delsamps := int_of_fl (r_n x)\<rparr>
             else if d > delsize - DEFDELVS then x\<lparr>r_delsamps := delsize - DEFDELVS\<rparr>
             else x\<lparr>r_delsamps := d\<rparr>))"

definition sigdelread_new :: "sigdelwrite option \<Rightarrow> fl \<Rightarrow> sigdelread" where
  "sigdelread_new delwriter f =
     sigdelread_float delwriter \<lparr>r_deltime = Fin 0, r_delsamps = 0, r_sr = Fin 1, r_n = Fin 1, r_zerodel = 0\<rparr> f"

fun delread_loop :: "nat \<Rightarrow> int \<Rightarrow> int \<Rightarrow> fl list \<Rightarrow> fl list cresult" where
  "delread_loop 0 bp nsamps v = Inr []"
| "delread_loop (Suc n) bp nsamps v = cbind (vget v bp) (\<lambda>f.
     cbind (delread_loop n (if bp + 1 = nsamps + XTRASAMPS then bp + 1 - nsamps else bp + 1) nsamps v) (\<lambda>fs. Inr (f # fs)))"

definition sigdelread_perform :: "delwritectl \<Rightarrow> int \<Rightarrow> nat \<Rightarrow> fl list cresult" where
  "sigdelread_perform c delsamps n = (let phase = wrap32 (c_phase c - delsamps);
     phase = (if phase < 0 then phase + c_n c else phase) in delread_loop n phase (c_n c) (c_vec c))"

text \<open>Where there is no \<open>delwrite~\<close>, nothing is put on the chain; else \<open>sigdelread_perform\<close> is.\<close>

definition samps_per_msec :: "fl \<Rightarrow> fl" where
  "samps_per_msec sr = fl_convert binary32 (fmul binary64 (fl_convert binary64 sr) (fround binary64 (1 / 1000)))"

definition sigdelread_dsp :: "int \<Rightarrow> int \<Rightarrow> fl \<Rightarrow> sigdelwrite option \<Rightarrow> sigdelread \<Rightarrow> sigdelread \<times> sigdelwrite option" where
  "sigdelread_dsp sortno n sr delwriter x = (let x = x\<lparr>r_sr := samps_per_msec sr, r_n := fl_of_int binary32 n\<rparr> in
     case delwriter of
       None \<Rightarrow> (x, None)
     | Some w0 \<Rightarrow> (let w = sigdelwrite_checkvecsize sortno (sigdelwrite_updatesr w0 sr) n;
           x = x\<lparr>r_zerodel := (if w_sortno w = sortno then 0 else w_vecsize w)\<rparr>
         in (sigdelread_float (Some w) x (r_deltime x), Some w)))"

subsection \<open>\<open>vd~\<close>\<close>

record sigvd =
  v_sr :: fl
  v_zerodel :: int

definition sigvd_new :: sigvd where
  "sigvd_new = \<lparr>v_sr = Fin 1, v_zerodel = 0\<rparr>"

definition interpolate4 :: "fl \<Rightarrow> fl \<Rightarrow> fl \<Rightarrow> fl \<Rightarrow> fl \<Rightarrow> fl" where
  "interpolate4 fracp a b c d = (let cminusb = fsub binary32 c b; D = fl_convert binary64 in
     fl_convert binary32 (fadd binary64 (D b) (fmul binary64 (D fracp) (fsub binary64 (D cminusb)
       (fmul binary64
         (fmul binary64 (D (fround binary32 (1666667 / 10000000))) (fsub binary64 (Fin 1) (D fracp)))
         (D (fadd binary32
           (fmul binary32 (fsub binary32 (fsub binary32 d a) (fmul binary32 (Fin 3) cminusb)) fracp)
           (fsub binary32 (fadd binary32 d (fmul binary32 (Fin 2) a)) (fmul binary32 (Fin 3) b)))))))))"

definition vd_delay :: "fl \<Rightarrow> fl \<Rightarrow> fl \<Rightarrow> fl \<Rightarrow> fl \<Rightarrow> fl" where
  "vd_delay limit fn sr zerodel f = (let
       d0 = fsub binary32 (fmul binary32 sr f) zerodel;
       least = fround binary32 (100001 / 100000);
       d1 = (if flt d0 least then least else d0);
       d2 = (if flt limit d1 then limit else d1)
     in fadd binary32 d2 fn)"

fun vd_loop :: "fl list \<Rightarrow> fl \<Rightarrow> fl \<Rightarrow> fl \<Rightarrow> fl \<Rightarrow> int \<Rightarrow> int \<Rightarrow> fl list \<Rightarrow> fl list cresult" where
  "vd_loop [] limit fn sr zerodel nsamps wp v = Inr []"
| "vd_loop (f # ins) limit fn sr zerodel nsamps wp v = (let
       delsamps = vd_delay limit fn sr zerodel f;
       idelsamps = int_of_fl delsamps;
       fracp = fsub binary32 delsamps (fl_of_int binary32 idelsamps);
       bp = (if wp - idelsamps < 4 then wp - idelsamps + nsamps else wp - idelsamps)
     in cbind (vget v (bp - 3)) (\<lambda>d. cbind (vget v (bp - 2)) (\<lambda>c. cbind (vget v (bp - 1)) (\<lambda>b. cbind (vget v bp) (\<lambda>a.
        cbind (vd_loop ins limit (fsub binary32 fn (Fin 1)) sr zerodel nsamps wp v) (\<lambda>outs.
        Inr (interpolate4 fracp a b c d # outs)))))))"

definition sigvd_perform :: "fl list \<Rightarrow> delwritectl \<Rightarrow> sigvd \<Rightarrow> fl list cresult" where
  "sigvd_perform ins c x = (let n = int (length ins) in
     vd_loop ins (fl_of_int binary32 (wrap32 (c_n c - n - 1))) (fl_of_int binary32 (n - 1)) (v_sr x)
       (fl_of_int binary32 (v_zerodel x)) (c_n c) (c_phase c) (c_vec c))"

definition sigvd_dsp :: "int \<Rightarrow> int \<Rightarrow> fl \<Rightarrow> sigdelwrite option \<Rightarrow> sigvd \<Rightarrow> sigvd \<times> sigdelwrite option" where
  "sigvd_dsp sortno n sr delwriter x = (let x = x\<lparr>v_sr := samps_per_msec sr\<rparr> in
     case delwriter of
       None \<Rightarrow> (x, None)
     | Some w0 \<Rightarrow> (let w = sigdelwrite_checkvecsize sortno w0 n in
         (x\<lparr>v_zerodel := (if w_sortno w = sortno then 0 else w_vecsize w)\<rparr>, Some w)))"

subsection \<open>What the buffer holds\<close>

text \<open>
  The abstract view: \<open>h t\<close> is the sample written at time \<open>t\<close> (negative times lie before the start), \<open>N\<close> samples have been
  written. The buffer holds the last \<open>c_n\<close> of them.
\<close>

definition age :: "int \<Rightarrow> int \<Rightarrow> int \<Rightarrow> int" where
  "age nsamps p i = (if i < p then p - i else p - i + nsamps)"

definition holds :: "(int \<Rightarrow> fl) \<Rightarrow> int \<Rightarrow> int \<Rightarrow> fl list \<Rightarrow> int \<Rightarrow> bool" where
  "holds h N nsamps v p \<longleftrightarrow> 4 \<le> nsamps \<and> int (length v) = nsamps + 4 \<and> 4 \<le> p \<and> p < nsamps + 4 \<and>
     (\<forall>i. 0 \<le> i \<and> i < nsamps + 4 \<longrightarrow> v ! nat i = h (N - age nsamps p i))"

lemma vget_holds:
  assumes "holds h N nsamps v p" "0 \<le> i" "i < nsamps + 4"
  shows "vget v i = Inr (h (N - age nsamps p i))"
  using assms by (simp add: holds_def vget_def)

lemma copy_extra_eq:
  assumes "4 \<le> nsamps" "int (length v) = nsamps + 4"
  shows "\<exists>v'. copy_extra v (nsamps + 4) = Inr v' \<and> length v' = length v \<and>
    (\<forall>i. 0 \<le> i \<and> i < nsamps + 4 \<longrightarrow> v' ! nat i = v ! nat (if i < 4 then nsamps + i else i))"
proof -
  define m where "m = nat nsamps"
  have m: "nsamps = int m" "4 \<le> m" "length v = m + 4" using assms by (simp_all add: m_def)
  let ?v = "v[0 := v ! m, 1 := v ! (m + 1), 2 := v ! (m + 2), 3 := v ! (m + 3)]"
  have "copy_extra v (nsamps + 4) = Inr ?v"
    using m by (simp add: copy_extra_def vget_def vput_def nat_add_distrib add.commute)
  moreover have "?v ! nat i = v ! nat (if i < 4 then nsamps + i else i)" if "0 \<le> i" "i < nsamps + 4" for i
  proof (cases "i < 4")
    case True
    then have "i = 0 \<or> i = 1 \<or> i = 2 \<or> i = 3" using that(1) by linarith
    then show ?thesis using m by (elim disjE) (simp_all add: nat_add_distrib)
  next
    case False
    then show ?thesis by simp
  qed
  ultimately show ?thesis by (intro exI [of _ ?v]) simp
qed

lemma delwrite_loop_holds:
  assumes "holds h N nsamps v p" "\<And>i. i < length ins \<Longrightarrow> h (N + int i) = clean (ins ! i)"
  shows "\<exists>v' p'. delwrite_loop ins p (p + int (length ins)) nsamps v = Inr (v', p') \<and> holds h (N + int (length ins)) nsamps v' p'"
  using assms
proof (induction ins arbitrary: N v p)
  case Nil
  then show ?case by simp
next
  case (Cons f ins)
  let ?v = "v[nat p := clean f]"
  have H: "4 \<le> nsamps" "int (length v) = nsamps + 4" "4 \<le> p" "p < nsamps + 4"
    "\<And>i. 0 \<le> i \<Longrightarrow> i < nsamps + 4 \<Longrightarrow> v ! nat i = h (N - age nsamps p i)" using Cons.prems(1) by (auto simp: holds_def)
  have hN: "h N = clean f" using Cons.prems(2) [of 0] by simp
  have put: "vput v p (if bigorsmall f then Fin 0 else f) = Inr ?v" using H by (simp add: vput_def clean_def)
  have nxt: "h (N + 1 + int i) = clean (ins ! i)" if "i < length ins" for i
    using Cons.prems(2) [of "Suc i"] that by (simp add: add.assoc)
  have v1: "?v ! nat i = h (N + 1 - (if i < p + 1 then p + 1 - i else p + 1 - i + nsamps))" if "0 \<le> i" "i < nsamps + 4" for i
  proof (cases "i = p")
    case True
    then show ?thesis using H hN by simp
  next
    case False
    then have "?v ! nat i = v ! nat i" using H(3) that by (simp add: nth_list_update eq_nat_nat_iff)
    then show ?thesis using H(5) [OF that] False by (auto simp: age_def algebra_simps)
  qed
  show ?case
  proof (cases "p + 1 = nsamps + 4")
    case True
    obtain v2 where v2: "copy_extra ?v (nsamps + 4) = Inr v2" "length v2 = length ?v"
        "\<And>i. 0 \<le> i \<Longrightarrow> i < nsamps + 4 \<Longrightarrow> v2 ! nat i = ?v ! nat (if i < 4 then nsamps + i else i)"
      using copy_extra_eq [of nsamps ?v] H by auto
    have "v2 ! nat i = h (N + 1 - age nsamps 4 i)" if "0 \<le> i" "i < nsamps + 4" for i
      using v2(3) [OF that] v1 [of "if i < 4 then nsamps + i else i"] that H(1) True by (auto simp: age_def)
    then have "holds h (N + 1) nsamps v2 4" using H v2(2) by (simp add: holds_def)
    from Cons.IH [OF this nxt] have IH: "\<exists>v' p'. delwrite_loop ins 4 (4 + int (length ins)) nsamps v2 = Inr (v', p') \<and>
      holds h (N + 1 + int (length ins)) nsamps v' p'" .
    have "p + int (length (f # ins)) - nsamps = 4 + int (length ins)" using True by simp
    then show ?thesis using IH put v2(1) True by (simp add: add.assoc)
  next
    case False
    have "holds h (N + 1) nsamps ?v (p + 1)" using H False v1 by (simp add: holds_def age_def)
    from Cons.IH [OF this nxt] show ?thesis using put False by (simp add: add.assoc)
  qed
qed

lemma delread_loop_eq:
  assumes "int (length v) = nsamps + 4" "0 \<le> i" "i + int n \<le> 2 * nsamps + 4" "0 \<le> nsamps" "i < nsamps + 4"
  shows "delread_loop n i nsamps v = Inr (map (\<lambda>j. v ! nat (if i + int j < nsamps + 4 then i + int j else i + int j - nsamps)) [0..<n])"
  using assms(2,3,5)
proof (induction n arbitrary: i)
  case 0
  then show ?case by simp
next
  case (Suc n)
  let ?f = "\<lambda>i j. v ! nat (if i + int j < nsamps + 4 then i + int j else i + int j - nsamps)"
  let ?i = "if i + 1 = nsamps + 4 then i + 1 - nsamps else i + 1"
  have "delread_loop n ?i nsamps v = Inr (map (?f ?i) [0..<n])"
  proof (cases "n = 0")
    case False
    show ?thesis by (rule Suc.IH) (use Suc.prems False assms(4) in auto)
  qed simp
  moreover have "?f ?i j = ?f i (Suc j)" if "j < n" for j using Suc.prems that assms(4) by (auto simp: algebra_simps)
  then have "map (?f ?i) [0..<n] = map (\<lambda>j. ?f i (Suc j)) [0..<n]" by simp
  ultimately have "delread_loop n ?i nsamps v = Inr (map (\<lambda>j. ?f i (Suc j)) [0..<n])" by (simp only:)
  moreover have "map (?f i) [0..<Suc n] = v ! nat i # map (\<lambda>j. ?f i (Suc j)) [0..<n]"
    unfolding upt_conv_Cons [OF zero_less_Suc] map_Suc_upt [symmetric] using Suc.prems by (simp add: o_def)
  moreover have "vget v i = Inr (v ! nat i)" using Suc.prems assms(1) by (simp add: vget_def)
  ultimately show ?case by (simp only: delread_loop.simps cbind_simps)
qed

lemma delwrite_holds:
  assumes "holds h N (c_n c) (c_vec c) (c_phase c)" "\<And>i. i < length ins \<Longrightarrow> h (N + int i) = clean (ins ! i)"
  shows "\<exists>c'. sigdelwrite_perform ins c = Inr c' \<and> c_n c' = c_n c \<and>
    holds h (N + int (length ins)) (c_n c') (c_vec c') (c_phase c')"
  using delwrite_loop_holds [OF assms] by (auto simp: sigdelwrite_perform_def)

text \<open>
  Reading with a delay of \<open>d\<close> samples. Past the write position the oldest samples follow.
\<close>

definition line_sample :: "(int \<Rightarrow> fl) \<Rightarrow> int \<Rightarrow> int \<Rightarrow> int \<Rightarrow> nat \<Rightarrow> fl" where
  "line_sample h N nsamps d j = h (N - d + int j - (if int j < d then 0 else nsamps))"

lemma delread_holds:
  assumes "holds h N (c_n c) (c_vec c) (c_phase c)" "1 \<le> d" "d \<le> c_n c" "int n \<le> c_n c" "c_n c < 2 ^ 30"
  shows "sigdelread_perform c d n = Inr (map (line_sample h N (c_n c) d) [0..<n])"
proof -
  let ?m = "c_n c" and ?p = "c_phase c" and ?v = "c_vec c"
  have p: "4 \<le> ?p" "?p < ?m + 4" "int (length ?v) = ?m + 4" "4 \<le> ?m"
    and v: "\<And>i. 0 \<le> i \<Longrightarrow> i < ?m + 4 \<Longrightarrow> ?v ! nat i = h (N - age ?m ?p i)" using assms(1) by (auto simp: holds_def)
  have w: "wrap32 (?p - d) = ?p - d" using p assms(2-5) by (intro wrap32_id) auto
  define i where "i = (if ?p - d < 0 then ?p - d + ?m else ?p - d)"
  have i: "0 \<le> i" "i < ?m + 4" "i + int n \<le> 2 * ?m + 4" using p assms(2-4) by (auto simp: i_def)
  have "sigdelread_perform c d n = delread_loop n i ?m ?v" by (simp add: sigdelread_perform_def w i_def Let_def)
  also have "\<dots> = Inr (map (\<lambda>j. ?v ! nat (if i + int j < ?m + 4 then i + int j else i + int j - ?m)) [0..<n])"
    using i p by (intro delread_loop_eq) auto
  also have "?v ! nat (if i + int j < ?m + 4 then i + int j else i + int j - ?m) = line_sample h N ?m d j" if "j < n" for j
  proof -
    let ?i = "if i + int j < ?m + 4 then i + int j else i + int j - ?m"
    have "0 \<le> ?i" "?i < ?m + 4" using i that assms(4) p by auto
    moreover have "age ?m ?p ?i = d - int j + (if int j < d then 0 else ?m)"
      using that assms(2-4) p by (auto simp: age_def i_def)
    ultimately have "?v ! nat ?i = h (N - (d - int j + (if int j < d then 0 else ?m)))" using v [of ?i] by (simp only:)
    then show ?thesis by (simp only: line_sample_def diff_diff_eq [symmetric] diff_diff_eq2 [symmetric]) (simp add: algebra_simps)
  qed
  then have "map (\<lambda>j. ?v ! nat (if i + int j < ?m + 4 then i + int j else i + int j - ?m)) [0..<n] =
      map (line_sample h N ?m d) [0..<n]" by simp
  finally show ?thesis .
qed

subsection \<open>A line that is written and read\<close>

text \<open>Both objects on one canvas, sorted in either order: they are set up once and then run block after block.\<close>

definition line_set_up :: "bool \<Rightarrow> int \<Rightarrow> nat \<Rightarrow> fl \<Rightarrow> sigdelwrite \<Rightarrow> sigdelread \<Rightarrow> (sigdelread \<times> sigdelwrite option)" where
  "line_set_up write_first sortno n sr w r =
     (if write_first then sigdelread_dsp sortno (int n) sr (Some (sigdelwrite_dsp sortno (int n) sr w)) r
      else (case sigdelread_dsp sortno (int n) sr (Some w) r of (r', w') \<Rightarrow> (r', map_option (sigdelwrite_dsp sortno (int n) sr) w')))"

fun run_line :: "bool \<Rightarrow> int \<Rightarrow> nat \<Rightarrow> fl list list \<Rightarrow> delwritectl \<Rightarrow> fl list cresult" where
  "run_line write_first d n [] c = Inr []"
| "run_line write_first d n (b # bs) c =
     (if write_first then cbind (sigdelwrite_perform b c) (\<lambda>c'. cbind (sigdelread_perform c' d n) (\<lambda>out.
         cbind (run_line write_first d n bs c') (\<lambda>outs. Inr (out @ outs))))
      else cbind (sigdelread_perform c d n) (\<lambda>out. cbind (sigdelwrite_perform b c) (\<lambda>c'.
         cbind (run_line write_first d n bs c') (\<lambda>outs. Inr (out @ outs)))))"

lemma run_line_holds:
  assumes "holds h N (c_n c) (c_vec c) (c_phase c)" "1 \<le> d" "int n \<le> d" "d \<le> c_n c" "c_n c < 2 ^ 30"
    "\<forall>b \<in> set bs. length b = n" "\<And>i. i < length bs * n \<Longrightarrow> h (N + int i) = clean (concat bs ! i)"
  shows "run_line first d n bs c = Inr (map (\<lambda>i. h (N + (if first then int n else 0) - d + int i)) [0..<length bs * n])"
  using assms(1,4-7)
proof (induction bs arbitrary: N c)
  case Nil
  then show ?case by simp
next
  case (Cons b bs)
  let ?e = "if first then int n else 0"
  have b: "length b = n" "\<forall>b \<in> set bs. length b = n" using Cons.prems(4) by auto
  have "h (N + int i) = clean (b ! i)" if "i < length b" for i
    using Cons.prems(5) [of i] that b(1) by (simp add: nth_append)
  from delwrite_holds [OF Cons.prems(1) this] obtain c' where c': "sigdelwrite_perform b c = Inr c'" "c_n c' = c_n c"
      "holds h (N + int n) (c_n c') (c_vec c') (c_phase c')" unfolding b(1) by blast
  have line: "map (line_sample h M m d) [0..<n] = map (\<lambda>i. h (M - d + int i)) [0..<n]" for M m
    using assms(3) by (simp add: line_sample_def)
  have n: "int n \<le> c_n c" using assms(3) Cons.prems(2) by simp
  have r: "sigdelread_perform c d n = Inr (map (\<lambda>i. h (N - d + int i)) [0..<n])"
    using delread_holds [OF Cons.prems(1) assms(2) Cons.prems(2) n Cons.prems(3)] by (simp only: line)
  have r': "sigdelread_perform c' d n = Inr (map (\<lambda>i. h (N + int n - d + int i)) [0..<n])"
    using delread_holds [OF c'(3) assms(2)] Cons.prems(2,3) n c'(2) by (simp only: line)
  have "h (N + int n + int i) = clean (concat bs ! i)" if "i < length bs * n" for i
    using Cons.prems(5) [of "n + i"] that b(1) by (simp add: nth_append add.assoc)
  then have "run_line first d n bs c' = Inr (map (\<lambda>i. h (N + int n + ?e - d + int i)) [0..<length bs * n])"
    using Cons.IH [OF c'(3) _ _ b(2)] c'(2) Cons.prems(2,3) by simp
  moreover have "map (\<lambda>i. h (N + ?e - d + int i)) [0..<length (b # bs) * n] =
      map (\<lambda>i. h (N + ?e - d + int i)) [0..<n] @ map (\<lambda>i. h (N + int n + ?e - d + int i)) [0..<length bs * n]"
  proof -
    have "[n..<n + length bs * n] = map (\<lambda>i. i + n) [0..<length bs * n]" by (simp add: map_add_upt add.commute)
    then show ?thesis by (simp add: upt_add_eq_append [of 0 n] o_def algebra_simps)
  qed
  ultimately show ?case using c'(1) r r' by (cases first) simp_all
qed

text \<open>The delay asked for, in samples, and the length of the line.\<close>

definition requested :: "fl \<Rightarrow> fl \<Rightarrow> int" where
  "requested sr deltime = int_of_fl (fadd binary64 (Fin (1 / 2)) (fl_convert binary64 (fmul binary32 (samps_per_msec sr) deltime)))"

definition line_length :: "fl \<Rightarrow> fl \<Rightarrow> int" where
  "line_length deltime sr = line_size deltime sr - DEFDELVS"

lemma and_three: "a AND 3 = a mod (4 :: int)"
  using take_bit_eq_mask [of 2 a] by (simp add: take_bit_eq_mod mask_eq_exp_minus_1)

lemma line_length_pos: "1 \<le> line_length deltime sr"
proof -
  have "0 \<le> a AND 3" for a :: int by (simp add: and_three)
  then show ?thesis by (simp add: line_length_def line_size_def Let_def add_increasing2)
qed

lemma float_sum:
  assumes "\<bar>a\<bar> < 2 ^ 22" "\<bar>b\<bar> < 2 ^ 22" "\<bar>c\<bar> < 2 ^ 22"
  shows "fsub binary32 (fadd binary32 (fl_of_int binary32 a) (fl_of_int binary32 b)) (fl_of_int binary32 c) = Fin (of_int (a + b - c))"
proof -
  have neg: "fadd binary32 (Fin x) (fneg (Fin y)) = fround binary32 (x - y)" for x y by auto
  have "fl_of_int binary32 (a + b) = Fin (of_int (a + b))" "fl_of_int binary32 (a + b - c) = Fin (of_int (a + b - c))"
    using assms by (intro fl_of_int_binary32; simp)+
  then have "fround binary32 (of_int a + of_int b) = Fin (of_int (a + b))" "fround binary32 (of_int (a + b) - of_int c) = Fin (of_int (a + b - c))"
    by (simp_all add: fl_of_int_def)
  moreover have "fl_of_int binary32 a = Fin (of_int a)" "fl_of_int binary32 b = Fin (of_int b)" "fl_of_int binary32 c = Fin (of_int c)"
    using assms by (intro fl_of_int_binary32; simp)+
  ultimately show ?thesis by (simp only: fsub_def fadd.simps fval.simps neg)
qed


definition fresh_line :: "fl \<Rightarrow> fl \<Rightarrow> delwritectl" where
  "fresh_line deltime sr = \<lparr>c_n = line_size deltime sr, c_vec = replicate (nat (line_size deltime sr + 4)) (Fin 0), c_phase = 4\<rparr>"

lemma new_updatesr:
  "w_cspace w = w_cspace (sigdelwrite_new deltime) \<Longrightarrow> w_deltime w = deltime \<Longrightarrow>
    sigdelwrite_updatesr w sr = w\<lparr>w_cspace := fresh_line deltime sr\<rparr>"
  "w_cspace w = fresh_line deltime sr \<Longrightarrow> w_deltime w = deltime \<Longrightarrow> sigdelwrite_updatesr w sr = w"
proof -
  have "65 \<le> line_size deltime sr" using line_length_pos [of deltime sr] by (simp add: line_length_def)
  then have "resize (replicate 4 (Fin 0)) (nat (line_size deltime sr + 4)) = replicate (nat (line_size deltime sr + 4)) (Fin 0)"
    and "line_size deltime sr \<noteq> 0"
    by (simp_all add: resize_def min_def replicate_add [symmetric] nat_add_distrib)
  then show "w_cspace w = w_cspace (sigdelwrite_new deltime) \<Longrightarrow> w_deltime w = deltime \<Longrightarrow>
      sigdelwrite_updatesr w sr = w\<lparr>w_cspace := fresh_line deltime sr\<rparr>"
    by (simp add: sigdelwrite_updatesr_def sigdelwrite_new_def fresh_line_def Let_def)
qed (simp add: sigdelwrite_updatesr_def fresh_line_def)

lemma sigdelread_float_eq:
  "r_delsamps (sigdelread_float (Some w) r f) = (let
     d = int_of_fl (fsub binary32 (fadd binary32 (fl_of_int binary32
           (int_of_fl (fadd binary64 (Fin (1 / 2)) (fl_convert binary64 (fmul binary32 (r_sr r) f))))) (r_n r))
           (fl_of_int binary32 (r_zerodel r)))
   in if flt (fl_of_int binary32 d) (r_n r) then int_of_fl (r_n r)
      else if d > c_n (w_cspace w) - DEFDELVS then c_n (w_cspace w) - DEFDELVS else d)"
  by (simp add: sigdelread_float_def Let_def)

lemma delread_float_samps:
  assumes "c_n (w_cspace w) = line_size deltime sr" "r_sr r = samps_per_msec sr" "r_n r = fl_of_int binary32 (int n)"
    "\<bar>requested sr f\<bar> < 2 ^ 21" "int n < 2 ^ 21" "\<bar>r_zerodel r\<bar> < 2 ^ 21"
  shows "r_delsamps (sigdelread_float (Some w) r f) =
    (let d = requested sr f + int n - r_zerodel r in
     if d < int n then int n else if line_length deltime sr < d then line_length deltime sr else d)"
proof -
  let ?d = "requested sr f + int n - r_zerodel r"
  have "int_of_fl (Fin (of_int ?d)) = ?d" using assms(4-6) by (intro int_of_fl_of_int; simp)
  moreover have "fsub binary32 (fadd binary32 (fl_of_int binary32 (requested sr f)) (fl_of_int binary32 (int n)))
      (fl_of_int binary32 (r_zerodel r)) = Fin (of_int ?d)" using assms(4-6) by (intro float_sum) simp_all
  ultimately have d: "int_of_fl (fsub binary32 (fadd binary32 (fl_of_int binary32 (requested sr f)) (fl_of_int binary32 (int n)))
      (fl_of_int binary32 (r_zerodel r))) = ?d" by (simp only:)
  have fn: "fl_of_int binary32 (int n) = Fin (of_int (int n))" and fd: "fl_of_int binary32 ?d = Fin (of_int ?d)"
    using assms(4-6) by (intro fl_of_int_binary32; simp)+
  have i: "int_of_fl (Fin (of_int (int n))) = int n" using assms(5) by (intro int_of_fl_of_int; simp)
  have lt: "flt (Fin (of_int ?d)) (Fin (of_int (int n))) \<longleftrightarrow> ?d < int n" by (simp only: flt_Fin of_int_less_iff)
  show ?thesis
    unfolding sigdelread_float_eq Let_def assms(1-3) requested_def [symmetric] d
    by (simp add: fd fn lt i line_length_def del: of_int_of_nat_eq of_int_add of_int_diff int_of_fl.simps)
qed

text \<open>\<^bold>\<open>C37\<close>: What \<open>delread~\<close> puts out is what goes into its \<open>delwrite~\<close> a constant number of samples before, with samples below \<open>2 ^ -63\<close> or from \<open>2 ^ 65\<close> on
  (NaN and infinity among them) replaced by 0, and silence first:
  the same delay whether the reader or the writer is sorted first, but for its limits. The delay is the one asked for, rounded
  to samples, as long as the line, with room for one block where the writer is first, allows it, and at least one block where the
  reader is first. No access leaves the buffer. The line is at least as long as a block and shorter than \<open>2 ^ 21\<close> samples, as is the delay asked for (about 47 seconds).\<close>

theorem delread_delays:
  assumes "sortno \<noteq> 0" "0 < n" "int n \<le> line_length deltime sr" "line_length deltime sr < 2 ^ 21"
    "\<bar>requested sr (r_deltime r)\<bar> < 2 ^ 21" "\<forall>b \<in> set bs. length b = n"
  shows "\<exists>r' w. line_set_up first sortno n sr (sigdelwrite_new deltime) r = (r', Some w) \<and>
    run_line first (r_delsamps r') n bs (w_cspace w) = Inr (take (length bs * n) (replicate (nat
      (let R = requested sr (r_deltime r); M = line_length deltime sr in
       if first then max 0 (min R (M - int n)) else max (int n) (min R M))) (Fin 0) @ map clean (concat bs)))"
proof -
  let ?R = "requested sr (r_deltime r)" and ?M = "line_length deltime sr" and ?new = "sigdelwrite_new deltime"
  let ?w = "?new\<lparr>w_sortno := sortno, w_vecsize := int n, w_rsortno := sortno, w_cspace := fresh_line deltime sr\<rparr>"
  let ?r = "r\<lparr>r_sr := samps_per_msec sr, r_n := fl_of_int binary32 (int n), r_zerodel := (if first then 0 else int n)\<rparr>"
  let ?r' = "sigdelread_float (Some (if first then ?w else ?new\<lparr>w_vecsize := int n, w_rsortno := sortno, w_cspace := fresh_line deltime sr\<rparr>)) ?r (r_deltime r)"
  have w0: "w_rsortno ?new = 0" "w_sortno ?new = 0" "w_deltime ?new = deltime" by (simp_all add: sigdelwrite_new_def)
  have set_up: "line_set_up first sortno n sr ?new r = (?r', Some ?w)"
    using assms(1) assms(1) [symmetric] w0 by (cases first)
      (simp_all add: line_set_up_def sigdelread_dsp_def sigdelwrite_dsp_def sigdelwrite_checkvecsize_def new_updatesr sigdelwrite_new_def Let_def)
  have ns: "c_n (fresh_line deltime sr) = line_size deltime sr" by (simp add: fresh_line_def)
  define d where "d = r_delsamps ?r'"
  have d_eq: "d = (let d = ?R + int n - (if first then 0 else int n) in if d < int n then int n else if ?M < d then ?M else d)"
    unfolding d_def using assms(3-5) by (subst delread_float_samps [where deltime = deltime and sr = sr and n = n]) (simp_all add: ns)
  then have d: "1 \<le> d" "int n \<le> d" "d \<le> ?M" using assms(2,3) by (auto simp: Let_def)
  let ?S = "concat bs" and ?L = "length bs * n"
  have len: "length ?S = ?L" using assms(6) by (induction bs) auto
  define h where "h = (\<lambda>t. if 0 \<le> t \<and> nat t < ?L then clean (?S ! nat t) else Fin 0)"
  let ?c = "fresh_line deltime sr"
  have sz: "line_size deltime sr = ?M + 64" by (simp add: line_length_def)
  have past: "h (- age s 4 i) = Fin 0" if "i < s + 4" for s i using that by (auto simp: h_def age_def)
  have h: "holds h 0 (c_n ?c) (c_vec ?c) (c_phase ?c)"
    using line_length_pos [of deltime sr] sz by (auto simp: holds_def fresh_line_def past)
  define D where "D = (let R = ?R in if first then max 0 (min R (?M - int n)) else max (int n) (min R ?M))"
  have D: "0 + (if first then int n else 0) - d = - D" using d_eq assms(3) by (auto simp: D_def Let_def)
  have "0 \<le> D" by (auto simp: D_def Let_def)
  then have "map (\<lambda>i. h (- D + int i)) [0..<?L] = take ?L (replicate (nat D) (Fin 0) @ map clean ?S)"
    by (intro nth_equalityI) (auto simp: h_def nth_append len nat_diff_distrib)
  moreover have "run_line first d n bs ?c = Inr (map (\<lambda>i. h (0 + (if first then int n else 0) - d + int i)) [0..<?L])"
    by (rule run_line_holds [OF h d(1,2)]) (use d(3) assms(4,6) in \<open>auto simp: ns sz h_def\<close>)
  ultimately have "run_line first d n bs (w_cspace ?w) = Inr (take ?L (replicate (nat D) (Fin 0) @ map clean ?S))"
    unfolding D by simp
  then show ?thesis unfolding d_def D_def Let_def using set_up by blast
qed


text \<open>
  The limit on the delay does not respect the block: where the line is shorter than a block, the reader runs past the write
  position and the block ends with the oldest samples (\<open>delread_short_line\<close>); where a block is longer than the whole buffer
  it reads in front of it (\<open>delread_long_block\<close>).
\<close>

lemma delread_short_line:
  assumes "holds h N (c_n c) (c_vec c) (c_phase c)" "1 \<le> d" "d < int n" "int n \<le> c_n c" "c_n c < 2 ^ 30" "d \<le> int j" "j < n"
  shows "\<exists>out. sigdelread_perform c d n = Inr out \<and> out ! j = h (N - d + int j - c_n c)"
  using delread_holds [OF assms(1,2) _ assms(4,5)] assms(3-7) by (simp add: line_sample_def)

lemma delread_long_block:
  assumes "0 < n" "c_phase c + c_n c < d" "0 \<le> c_phase c" "0 \<le> c_n c" "d < 2 ^ 31"
  shows "sigdelread_perform c d n = Inl OutOfBounds"
proof -
  have "wrap32 (c_phase c - d) = c_phase c - d" using assms by (intro wrap32_id) auto
  then show ?thesis using assms by (cases n) (simp_all add: sigdelread_perform_def vget_def)
qed

subsection \<open>A delay that changes\<close>

text \<open>The delay is at least one sample, and the point that is read lies in the buffer.\<close>

lemma vd_delay_bounds:
  assumes "fsub binary32 (fmul binary32 sr f) zerodel \<noteq> NaN" "2 \<le> L" "0 \<le> k" "L + k < 2 ^ 24"
  shows "\<exists>q. vd_delay (Fin (of_int L)) (Fin (of_int k)) sr zerodel f = Fin q \<and> of_int (k + 1) \<le> q \<and> q \<le> of_int (L + k)"
proof -
  let ?d0 = "fsub binary32 (fmul binary32 sr f) zerodel" and ?least = "fround binary32 (100001 / 100000)"
  obtain l where l: "?least = Fin l" "1 \<le> l" "l \<le> 2" using fround32_between [of 1 "100001 / 100000" 2] by auto
  define d1 where "d1 = (if flt ?d0 ?least then ?least else ?d0)"
  define d2 where "d2 = (if flt (Fin (of_int L)) d1 then Fin (of_int L) else d1)"
  have L: "(2 :: rat) \<le> of_int L" using assms(2) by (metis of_int_le_iff of_int_numeral)
  have "\<exists>x. d2 = Fin x \<and> 1 \<le> x \<and> x \<le> of_int L"
    using assms(1) l(2,3) L by (cases ?d0) (auto simp: d2_def d1_def l(1))
  then obtain x where x: "d2 = Fin x" "1 \<le> x" "x \<le> of_int L" by blast
  have "\<exists>v. fround binary32 (x + of_int k) = Fin v \<and> of_int (k + 1) \<le> v \<and> v \<le> of_int (L + k)"
    using x(2,3) assms(3,4) by (intro fround32_between) auto
  moreover have "vd_delay (Fin (of_int L)) (Fin (of_int k)) sr zerodel f = fround binary32 (x + of_int k)"
    unfolding vd_delay_def Let_def d1_def [symmetric] d2_def [symmetric] x(1) by simp
  ultimately show ?thesis by simp
qed

definition reads_around :: "(int \<Rightarrow> fl) \<Rightarrow> int \<Rightarrow> int \<Rightarrow> fl \<Rightarrow> fl \<Rightarrow> bool" where
  "reads_around h N nsamps delsamps out \<longleftrightarrow> (let i = int_of_fl delsamps in 1 \<le> i \<and> i \<le> nsamps - 2 \<and>
     (\<exists>d. out = interpolate4 (fsub binary32 delsamps (fl_of_int binary32 i)) (h (N - i)) (h (N - i - 1)) (h (N - i - 2)) d \<and>
       (i + 3 \<le> nsamps \<longrightarrow> d = h (N - i - 3))))"

lemma vd_loop_holds:
  assumes "holds h N nsamps v wp" "2 \<le> L" "L + k \<le> nsamps - 2" "nsamps < 2 ^ 24" "int (length ins) \<le> k + 1"
    "\<forall>f \<in> set ins. fsub binary32 (fmul binary32 sr f) zerodel \<noteq> NaN"
  shows "\<exists>outs. vd_loop ins (Fin (of_int L)) (Fin (of_int k)) sr zerodel nsamps wp v = Inr outs \<and> length outs = length ins \<and>
    (\<forall>j < length ins. reads_around h N nsamps (vd_delay (Fin (of_int L)) (Fin (of_int (k - int j))) sr zerodel (ins ! j)) (outs ! j))"
  using assms(3,5,6)
proof (induction ins arbitrary: k)
  case Nil
  then show ?case by simp
next
  case (Cons f ins)
  let ?del = "vd_delay (Fin (of_int L)) (Fin (of_int k)) sr zerodel f"
  have k: "0 \<le> k" using Cons.prems(2) by simp
  have nan: "fsub binary32 (fmul binary32 sr f) zerodel \<noteq> NaN" using Cons.prems(3) by simp
  have "L + k < 2 ^ 24" using Cons.prems(1) assms(4) by simp
  from vd_delay_bounds [OF nan assms(2) k this]
  obtain q where q: "?del = Fin q" "of_int (k + 1) \<le> q" "q \<le> of_int (L + k)" by blast
  define i where "i = int_of_fl ?del"
  have qpos: "\<not> q < 0" using q(2) k by (metis (mono_tags, opaque_lifting) add_increasing2 le_less_trans less_irrefl of_int_0_le_iff order_trans zero_le_one)
  define t where "t = \<lfloor>q\<rfloor>"
  have t: "t \<le> L + k" "k + 1 \<le> t" using q(2,3) by (simp_all add: t_def le_floor_iff floor_le_iff)
  have "rat_trunc q = t" using qpos by (simp add: rat_trunc_def t_def)
  then have "i = t" using t k Cons.prems(1) assms(4) by (simp add: i_def q(1) Let_def)
  then have i: "1 \<le> i" "i \<le> nsamps - 2" using t k Cons.prems(1) by auto
  define bp where "bp = (if wp - i < 4 then wp - i + nsamps else wp - i)"
  have wp: "4 \<le> wp" "wp < nsamps + 4" using assms(1) by (auto simp: holds_def)
  have bp: "3 \<le> bp - 1" "0 \<le> bp - 3" "bp < nsamps + 4" using i wp by (auto simp: bp_def)
  have g: "vget v (bp - 3) = Inr (h (N - age nsamps wp (bp - 3)))" "vget v (bp - 2) = Inr (h (N - age nsamps wp (bp - 2)))"
      "vget v (bp - 1) = Inr (h (N - age nsamps wp (bp - 1)))" "vget v bp = Inr (h (N - age nsamps wp bp))"
    using bp by (intro vget_holds [OF assms(1)]; simp)+
  have a: "age nsamps wp bp = i" "age nsamps wp (bp - 1) = i + 1" "age nsamps wp (bp - 2) = i + 2"
      "i + 3 \<le> nsamps \<Longrightarrow> age nsamps wp (bp - 3) = i + 3"
    using i wp by (auto simp: age_def bp_def)
  have fn: "fsub binary32 (Fin (of_int k)) (Fin 1) = Fin (of_int (k - 1))"
  proof -
    have "fround binary32 (of_int (k - 1)) = Fin (of_int (k - 1))"
      using k Cons.prems(1) assms(2,4) fl_of_int_binary32 [of "k - 1"] by (simp add: fl_of_int_def)
    then show ?thesis by (simp add: fsub_def)
  qed
  obtain outs where outs: "vd_loop ins (Fin (of_int L)) (Fin (of_int (k - 1))) sr zerodel nsamps wp v = Inr outs" "length outs = length ins"
      "\<forall>j < length ins. reads_around h N nsamps (vd_delay (Fin (of_int L)) (Fin (of_int (k - 1 - int j))) sr zerodel (ins ! j)) (outs ! j)"
    using Cons.IH [of "k - 1"] Cons.prems by auto
  define o0 where "o0 = interpolate4 (fsub binary32 ?del (fl_of_int binary32 i)) (h (N - age nsamps wp bp))
    (h (N - age nsamps wp (bp - 1))) (h (N - age nsamps wp (bp - 2))) (h (N - age nsamps wp (bp - 3)))"
  have o0: "reads_around h N nsamps ?del o0"
    using i a unfolding reads_around_def Let_def i_def [symmetric] o0_def by (auto simp: diff_diff_eq)
  have "reads_around h N nsamps (vd_delay (Fin (of_int L)) (Fin (of_int (k - int j))) sr zerodel ((f # ins) ! j)) ((o0 # outs) ! j)"
    if "j < length (f # ins)" for j
  proof (cases j)
    case (Suc l)
    have "k - int j = k - 1 - int l" using Suc by simp
    then show ?thesis using outs(3) that Suc by (simp only: nth_Cons_Suc list.size add_less_cancel_right)
  qed (use o0 in simp)
  moreover have "vd_loop (f # ins) (Fin (of_int L)) (Fin (of_int k)) sr zerodel nsamps wp v = Inr (o0 # outs)"
    by (simp only: vd_loop.simps Let_def i_def [symmetric] bp_def [symmetric] g cbind_simps fn outs(1) o0_def)
  ultimately show ?case using outs(2) by (intro exI [of _ "o0 # outs"]) simp
qed

text \<open>\<^bold>\<open>C38\<close>: Where no sample that goes into \<open>vd~\<close> makes the delay NaN and the line is at least three samples longer than the block and shorter than \<open>2 ^ 24\<close> samples,
  every read stays in the buffer, and each sample that comes out is
  interpolated from the samples written just before and after the point asked for, at least one and at most \<open>c_n - 2\<close> samples ago.
  The fourth sample may be a wrong one where the point is \<open>c_n - 2\<close> samples ago. Shorter lines are not covered: there the reads may leave the buffer.\<close>

theorem vd_reads_line:
  assumes "holds h N (c_n c) (c_vec c) (c_phase c)" "ins \<noteq> []" "int (length ins) + 3 \<le> c_n c" "c_n c < 2 ^ 24"
    "\<forall>f \<in> set ins. fsub binary32 (fmul binary32 (v_sr x) f) (fl_of_int binary32 (v_zerodel x)) \<noteq> NaN"
  shows "\<exists>outs. sigvd_perform ins c x = Inr outs \<and> length outs = length ins \<and>
    (\<forall>j < length ins. reads_around h N (c_n c) (vd_delay (Fin (of_int (c_n c - int (length ins) - 1)))
      (Fin (of_int (int (length ins) - 1 - int j))) (v_sr x) (fl_of_int binary32 (v_zerodel x)) (ins ! j)) (outs ! j))"
proof -
  let ?n = "int (length ins)"
  have n: "1 \<le> ?n" using assms(2) by (cases ins) auto
  have "wrap32 (c_n c - ?n - 1) = c_n c - ?n - 1" using assms(3,4) n by (intro wrap32_id) auto
  moreover have "fl_of_int binary32 (c_n c - ?n - 1) = Fin (of_int (c_n c - ?n - 1))" "fl_of_int binary32 (?n - 1) = Fin (of_int (?n - 1))"
    using assms(3,4) n by (intro fl_of_int_binary32; simp)+
  ultimately have "sigvd_perform ins c x = vd_loop ins (Fin (of_int (c_n c - ?n - 1))) (Fin (of_int (?n - 1))) (v_sr x)
      (fl_of_int binary32 (v_zerodel x)) (c_n c) (c_phase c) (c_vec c)" by (simp only: sigvd_perform_def Let_def)
  then show ?thesis using vd_loop_holds [OF assms(1) _ _ assms(4) _ assms(5), of "c_n c - ?n - 1" "?n - 1"] assms(3) by simp
qed

text \<open>A sample that is not a number makes it read far outside.\<close>

lemma vd_nan_outside:
  assumes "0 \<le> c_phase c" "0 \<le> c_n c" "int (length (c_vec c)) < 2 ^ 31 - 3"
  shows "sigvd_perform (NaN # ins) c x = Inl OutOfBounds"
proof -
  have "fmul binary32 a NaN = NaN" for a by (simp add: fmul_def)
  moreover have "fsub binary32 NaN a = NaN" for a by (simp add: fsub_def)
  ultimately have "vd_delay limit fn sr z NaN = NaN" for limit fn sr z by (simp add: vd_delay_def)
  then show ?thesis using assms by (simp add: sigvd_perform_def Let_def vget_def)
qed


text \<open>Concrete lines: one as short as it can be, and a buffer of silence.\<close>

lemma no_delay_simps: "fmul binary32 (Fin 0) (Fin 44100) = Fin 0" "line_length (Fin 0) (Fin 44100) = 4"
proof -
  obtain v where v: "fround binary32 (1 / 1000) = Fin v" "0 \<le> v" using fround32_between [of 0 "1 / 1000" 1] by auto
  show m: "fmul binary32 (Fin 0) (Fin 44100) = Fin 0" by (simp add: fmul_def fzero_def signed_zero_def)
  show "line_length (Fin 0) (Fin 44100) = 4"
    using v by (simp add: line_length_def line_size_def m fmul_def [of _ _ "Fin v"] fzero_def signed_zero_def rat_trunc_def and_three Let_def)
qed

lemma no_delay_requested: "requested (Fin 44100) (Fin 0) = 0"
proof -
  obtain v where v: "fround binary64 (1 / 1000) = Fin v" "0 \<le> v" "v \<le> 1"
    using fround_between [of 0 "1 / 1000" 1 binary64] by (auto simp: binary64_def)
  obtain w where w: "fround binary64 (44100 * v) = Fin w" "0 \<le> w" "w \<le> 44100"
    using v(2,3) fround_between [of 0 "44100 * v" 44100 binary64] by (auto simp: binary64_def)
  obtain u where u: "fround binary32 w = Fin u" "0 \<le> u" using w(2,3) fround32_between [of 0 w 44100] by auto
  have sr: "fround binary64 44100 = Fin 44100" using fl_of_int_binary64 [of 44100] by (simp add: fl_of_int_def)
  have "samps_per_msec (Fin 44100) = Fin u \<or> samps_per_msec (Fin 44100) = Fin 0"
    using u w(1) by (auto simp: samps_per_msec_def sr v(1) fmul_def fzero_def signed_zero_def Let_def)
  then have "fmul binary32 (samps_per_msec (Fin 44100)) (Fin 0) = Fin 0"
    using u(2) by (auto simp: fmul_def fzero_def signed_zero_def)
  moreover have "fround binary64 (1 / 2) = Fin (1 / 2)"
    by (rule fround_exact [where m = 1 and e = "- 1"]) (simp_all add: binary64_def power_int_minus)
  moreover have "\<lfloor>1 / 2 :: rat\<rfloor> = 0" by (simp add: floor_eq_iff)
  ultimately show ?thesis by (simp add: requested_def rat_trunc_def)
qed

theorem delread_delays_witness:
  "\<exists>r' w. line_set_up False 1 2 (Fin 44100) (sigdelwrite_new (Fin 0)) (sigdelread_new None (Fin 0)) = (r', Some w) \<and>
    run_line False (r_delsamps r') 2 [[Fin 1, Fin 2], [Fin 3, Fin 4]] (w_cspace w) =
      Inr (take 4 (replicate 2 (Fin 0) @ map clean [Fin 1, Fin 2, Fin 3, Fin 4]))"
proof -
  have r: "r_deltime (sigdelread_new None (Fin 0)) = Fin 0" by (simp add: sigdelread_new_def sigdelread_float_def)
  show ?thesis
    using delread_delays [of 1 2 "Fin 0" "Fin 44100" "sigdelread_new None (Fin 0)" "[[Fin 1, Fin 2], [Fin 3, Fin 4]]" False]
    by (simp add: r no_delay_simps no_delay_requested numeral_2_eq_2 [symmetric])
qed

theorem vd_reads_line_witness:
  "\<exists>outs. sigvd_perform [Fin 0] \<lparr>c_n = 68, c_vec = replicate 72 (Fin 0), c_phase = 4\<rparr> sigvd_new = Inr outs \<and> length outs = length [Fin 0] \<and>
    (\<forall>j < length [Fin 0]. reads_around (\<lambda>_. Fin 0) 0 68 (vd_delay (Fin (of_int (68 - int (length [Fin 0]) - 1)))
      (Fin (of_int (int (length [Fin 0]) - 1 - int j))) (v_sr sigvd_new) (fl_of_int binary32 (v_zerodel sigvd_new)) ([Fin 0] ! j)) (outs ! j))"
proof -
  have "holds (\<lambda>_. Fin 0) 0 68 (replicate 72 (Fin 0)) 4"
    unfolding holds_def by (auto simp: nat_less_iff intro!: nth_replicate)
  moreover have "fsub binary32 (fmul binary32 (Fin 1) (Fin 0)) (fl_of_int binary32 0) \<noteq> NaN"
    by (simp add: fmul_def fzero_def signed_zero_def fl_of_int_def fsub_def)
  ultimately show ?thesis
    using vd_reads_line [of "\<lambda>_. Fin 0" 0 "\<lparr>c_n = 68, c_vec = replicate 72 (Fin 0), c_phase = 4\<rparr>" "[Fin 0]" sigvd_new]
    by (simp add: sigvd_new_def)
qed

end
