(* ===== verification/Global.thy ===== *)
theory Global
  imports Delay
begin

text \<open>
  Signals passed by name (\<open>d_global.c\<close>): \<open>send~\<close> and \<open>receive~\<close> share a vector, \<open>throw~\<close> adds to the vector of a
  \<open>catch~\<close>, which hands out the sum and clears it. Vectors lie in the memory of samples, null is \<open>None\<close>. The object found
  under a name is an argument.
\<close>

abbreviation DEFSENDVS :: nat where "DEFSENDVS \<equiv> 64"

subsection \<open>Objects\<close>

text \<open>\<open>send~\<close> and \<open>catch~\<close> own a vector, at the address given where they are made, which is cleared.\<close>

record sigsend =
  ss_n :: nat
  ss_vec :: nat

definition sigsend_new :: "nat \<Rightarrow> samples \<Rightarrow> sigsend \<times> samples" where
  "sigsend_new a m = (\<lparr>ss_n = DEFSENDVS, ss_vec = a\<rparr>, write_vec a (replicate DEFSENDVS (Fin 0)) m)"

record sigcatch =
  sc_n :: nat
  sc_vec :: nat

definition sigcatch_new :: "nat \<Rightarrow> samples \<Rightarrow> sigcatch \<times> samples" where
  "sigcatch_new a m = (\<lparr>sc_n = DEFSENDVS, sc_vec = a\<rparr>, write_vec a (replicate DEFSENDVS (Fin 0)) m)"

record sigreceive =
  sr_wherefrom :: "nat option"
  sr_n :: nat

definition sigreceive_new :: sigreceive where
  "sigreceive_new = \<lparr>sr_wherefrom = None, sr_n = DEFSENDVS\<rparr>"

record sigthrow =
  st_whereto :: "nat option"
  st_n :: nat

definition sigthrow_new :: sigthrow where
  "sigthrow_new = \<lparr>st_whereto = None, st_n = DEFSENDVS\<rparr>"

subsection \<open>Connecting by name\<close>

datatype global_error = VectorSizeMismatch | NoMatching | UnexpectedVectorSize

definition sigreceive_set :: "sigsend option \<Rightarrow> sigreceive \<Rightarrow> sigreceive \<times> global_error option" where
  "sigreceive_set sender x = (case sender of
       Some s \<Rightarrow> if ss_n s = sr_n x then (x\<lparr>sr_wherefrom := Some (ss_vec s)\<rparr>, None)
         else (x\<lparr>sr_wherefrom := None\<rparr>, Some VectorSizeMismatch)
     | None \<Rightarrow> (x\<lparr>sr_wherefrom := None\<rparr>, Some NoMatching))"

definition sigthrow_set :: "sigcatch option \<Rightarrow> sigthrow \<Rightarrow> sigthrow \<times> global_error option" where
  "sigthrow_set catcher x = (case catcher of
       Some c \<Rightarrow> if sc_n c = st_n x then (x\<lparr>st_whereto := Some (sc_vec c)\<rparr>, None)
         else (x\<lparr>st_whereto := None\<rparr>, Some VectorSizeMismatch)
     | None \<Rightarrow> (x\<lparr>st_whereto := None\<rparr>, Some NoMatching))"

subsection \<open>Perform routines\<close>

definition sigsend_perform :: "nat \<Rightarrow> nat \<Rightarrow> nat \<Rightarrow> samples \<Rightarrow> samples" where
  "sigsend_perform = perform1 (\<lambda>f. if bigorsmall f then Fin 0 else f)"

definition sigreceive_perform :: "sigreceive \<Rightarrow> nat \<Rightarrow> nat \<Rightarrow> samples \<Rightarrow> samples" where
  "sigreceive_perform x out n m = (case sr_wherefrom x of Some a \<Rightarrow> perform1 (\<lambda>f. f) a out n m | None \<Rightarrow> perform0 (Fin 0) out n m)"

definition sigreceive_perf8 :: "sigreceive \<Rightarrow> nat \<Rightarrow> nat \<Rightarrow> samples \<Rightarrow> samples option" where
  "sigreceive_perf8 x out n m = (case sr_wherefrom x of Some a \<Rightarrow> by8_1 (\<lambda>f. f) a out n m | None \<Rightarrow> by8_0 (Fin 0) out n m)"

fun sigcatch_perform :: "nat \<Rightarrow> nat \<Rightarrow> nat \<Rightarrow> samples \<Rightarrow> samples" where
  "sigcatch_perform a out 0 m = m"
| "sigcatch_perform a out (Suc n) m = sigcatch_perform (a + 1) (out + 1) n (m(out := m a, a := Fin 0))"

fun sigcatch_perf8 :: "nat \<Rightarrow> nat \<Rightarrow> nat \<Rightarrow> samples \<Rightarrow> samples option" where
  "sigcatch_perf8 a out n m = (if n = 0 then Some m else if n < 8 then None
     else sigcatch_perf8 (a + 8) (out + 8) (n - 8) (write_vec a (replicate 8 (Fin 0)) (write_vec out (vec a 8 m) m)))"

declare sigcatch_perf8.simps [simp del]

definition sigthrow_perform :: "sigthrow \<Rightarrow> nat \<Rightarrow> nat \<Rightarrow> samples \<Rightarrow> samples" where
  "sigthrow_perform x a n m = (case st_whereto x of
       Some out \<Rightarrow> perform2 (\<lambda>s f. fadd binary32 s (if bigorsmall f then Fin 0 else f)) out a out n m
     | None \<Rightarrow> m)"

text \<open>What the methods \<open>dsp\<close> put on the chain, if anything, for a vector of \<open>n\<close> samples at an address.\<close>

datatype global_call = SendCall nat nat nat | ReceiveCall nat nat | ReceiveCall8 nat nat | CatchCall nat nat nat | CatchCall8 nat nat nat
  | ThrowCall nat nat

definition sigsend_dsp :: "sigsend \<Rightarrow> nat \<Rightarrow> nat \<Rightarrow> global_error + global_call" where
  "sigsend_dsp x a n = (if ss_n x = n then Inr (SendCall a (ss_vec x) n) else Inl UnexpectedVectorSize)"

definition sigreceive_dsp :: "sigsend option \<Rightarrow> sigreceive \<Rightarrow> nat \<Rightarrow> nat \<Rightarrow> sigreceive \<times> global_error option \<times> global_call option" where
  "sigreceive_dsp sender x out n = (if n \<noteq> sr_n x then (x, Some VectorSizeMismatch, None)
     else (case sigreceive_set sender x of (x', e) \<Rightarrow> (x', e, Some (if n mod 8 \<noteq> 0 then ReceiveCall out n else ReceiveCall8 out n))))"

definition sigcatch_dsp :: "sigcatch \<Rightarrow> nat \<Rightarrow> nat \<Rightarrow> global_error + global_call" where
  "sigcatch_dsp x out n = (if sc_n x = n then Inr (if n mod 8 \<noteq> 0 then CatchCall (sc_vec x) out n else CatchCall8 (sc_vec x) out n)
     else Inl UnexpectedVectorSize)"

definition sigthrow_dsp :: "sigcatch option \<Rightarrow> sigthrow \<Rightarrow> nat \<Rightarrow> nat \<Rightarrow> sigthrow \<times> global_error option \<times> global_call option" where
  "sigthrow_dsp catcher x a n = (if n \<noteq> st_n x then (x, Some VectorSizeMismatch, None)
     else (case sigthrow_set catcher x of (x', e) \<Rightarrow> (x', e, Some (ThrowCall a n))))"

subsection \<open>\<open>receive~\<close> repeats what \<open>send~\<close> has stored\<close>

lemma vec_write_vec: "vec a n (write_vec a xs m) = (if n \<le> length xs then take n xs else xs @ vec (a + length xs) (n - length xs) m)"
  by (intro nth_equalityI) (auto simp: write_vec_eq nth_append)

lemma vec_write_apart: "a + n \<le> b \<or> b + length xs \<le> a \<Longrightarrow> vec a n (write_vec b xs m) = vec a n m"
  by (intro nth_equalityI) (auto simp: write_vec_eq)

lemma send_receive:
  assumes "a + n \<le> v \<or> v + n \<le> a" "v + n \<le> out \<or> out + n \<le> v" "n mod 8 = 0"
    "sigreceive_dsp (Some \<lparr>ss_n = n, ss_vec = v\<rparr>) x out n = (x', None, Some call)"
  shows "sr_wherefrom x' = Some v \<and>
    (\<exists>m'. sigreceive_perf8 x' out n (sigsend_perform a v n m) = Some m' \<and> vec out n m' = map clean (vec a n m))"
proof -
  have x': "sr_wherefrom x' = Some v" using assms(4) by (auto simp: sigreceive_dsp_def sigreceive_set_def split: if_splits)
  have s: "sigsend_perform a v n m = write_vec v (map clean (vec a n m)) m"
    using assms(1) by (simp add: sigsend_perform_def clean_def [abs_def] perform1_eq apart_def)
  have "apart v out n" using assms(2) by (simp add: apart_def)
  then show ?thesis using x' assms(3) by (simp add: sigreceive_perf8_def by8_1_eq s vec_write_vec)
qed

subsection \<open>\<open>catch~\<close> collects what is thrown\<close>

lemma sigcatch_perform_eq:
  assumes "a + n \<le> out \<or> out + n \<le> a"
  shows "sigcatch_perform a out n m = write_vec a (replicate n (Fin 0)) (write_vec out (vec a n m) m)"
  using assms
proof (induction n arbitrary: a out m)
  case 0
  then show ?case by (simp add: vec_def)
next
  case (Suc n)
  have "sigcatch_perform a out (Suc n) m = write_vec (a + 1) (replicate n (Fin 0))
      (write_vec (out + 1) (vec (a + 1) n (m(out := m a, a := Fin 0))) (m(out := m a, a := Fin 0)))"
    using Suc.IH [of "a + 1" "out + 1"] Suc.prems by auto
  also have "\<dots> = write_vec a (replicate (Suc n) (Fin 0)) (write_vec out (vec a (Suc n) m) m)"
    using Suc.prems by (intro ext) (auto simp: write_vec_eq nth_Cons' Suc_diff_Suc)
  finally show ?case .
qed

lemma sigcatch_perf8_eq:
  assumes "a + n \<le> out \<or> out + n \<le> a" "n mod 8 = 0"
  shows "sigcatch_perf8 a out n m = Some (sigcatch_perform a out n m)"
proof -
  obtain q where "n = q * 8" using assms(2) by (auto elim!: dvdE simp: mod_eq_0_iff_dvd mult.commute)
  show ?thesis using assms(1) unfolding \<open>n = q * 8\<close>
  proof (induction q arbitrary: a out m)
    case 0
    then show ?case by (simp add: sigcatch_perf8.simps)
  next
    case (Suc q)
    let ?m = "write_vec a (replicate 8 (Fin 0)) (write_vec out (vec a 8 m) m)"
    have "sigcatch_perf8 a out (Suc q * 8) m = sigcatch_perf8 (a + 8) (out + 8) (q * 8) ?m"
      by (subst sigcatch_perf8.simps) simp
    also have "\<dots> = Some (sigcatch_perform (a + 8) (out + 8) (q * 8) ?m)" using Suc.IH Suc.prems by auto
    also have "sigcatch_perform (a + 8) (out + 8) (q * 8) ?m = write_vec (a + 8) (replicate (q * 8) (Fin 0)) (write_vec (out + 8) (vec (a + 8) (q * 8) ?m) ?m)"
      using Suc.prems by (intro sigcatch_perform_eq) auto
    also have "\<dots> = write_vec a (replicate (Suc q * 8) (Fin 0)) (write_vec out (vec a (Suc q * 8) m) m)"
      using Suc.prems by (intro ext) (auto simp: write_vec_eq)
    also have "\<dots> = sigcatch_perform a out (Suc q * 8) m" using Suc.prems by (intro sigcatch_perform_eq [symmetric]) auto
    finally show ?case .
  qed
qed

lemma sigthrow_perform_eq:
  assumes "st_whereto x = Some b" "a + n \<le> b \<or> b + n \<le> a"
  shows "sigthrow_perform x a n m = write_vec b (map2 (fadd binary32) (vec b n m) (map clean (vec a n m))) m"
proof -
  have "map2 (\<lambda>s f. fadd binary32 s (if bigorsmall f then Fin 0 else f)) xs ys = map2 (fadd binary32) xs (map clean ys)" for xs ys
    by (simp add: clean_def zip_map2 split_def)
  then show ?thesis using assms by (simp add: sigthrow_perform_def perform2_eq apart_def)
qed

text \<open>
  A sequence of calls on one bus: before each throw its vector holds new samples; each catch reports what it puts out. The
  specification keeps the sum since the last catch.
\<close>

datatype bus_op = Throw nat "fl list" | Catch nat

fun run_bus :: "nat \<Rightarrow> nat \<Rightarrow> bus_op list \<Rightarrow> samples \<Rightarrow> fl list list option" where
  "run_bus b n [] m = Some []"
| "run_bus b n (Throw a xs # ops) m = run_bus b n ops (sigthrow_perform \<lparr>st_whereto = Some b, st_n = n\<rparr> a n (write_vec a xs m))"
| "run_bus b n (Catch out # ops) m = (case (if n mod 8 \<noteq> 0 then Some (sigcatch_perform b out n m) else sigcatch_perf8 b out n m) of
     None \<Rightarrow> None | Some m' \<Rightarrow> map_option (\<lambda>outs. vec out n m' # outs) (run_bus b n ops m'))"

fun bus_spec :: "nat \<Rightarrow> bus_op list \<Rightarrow> fl list \<Rightarrow> fl list list" where
  "bus_spec n [] acc = []"
| "bus_spec n (Throw a xs # ops) acc = bus_spec n ops (map2 (fadd binary32) acc (map clean xs))"
| "bus_spec n (Catch out # ops) acc = acc # bus_spec n ops (replicate n (Fin 0))"

fun op_apart :: "nat \<Rightarrow> nat \<Rightarrow> bus_op \<Rightarrow> bool" where
  "op_apart b n (Throw a xs) \<longleftrightarrow> length xs = n \<and> (a + n \<le> b \<or> b + n \<le> a)"
| "op_apart b n (Catch a) \<longleftrightarrow> a + n \<le> b \<or> b + n \<le> a"

text \<open>\<^bold>\<open>C39\<close>: Each \<open>catch~\<close> puts out the sum of what has been thrown to it since the last time it ran, in whatever order the \<open>throw~\<close> and
  \<open>catch~\<close> of a name are sorted and however many there are: no sample is counted twice and none is lost, numbers that are too
  large or too small apart, for which 0 is added. The vectors of the objects must not overlap that of the bus.\<close>

theorem bus_sums:
  assumes "\<forall>x \<in> set ops. op_apart b n x"
  shows "run_bus b n ops m = Some (bus_spec n ops (vec b n m))"
  using assms
proof (induction ops arbitrary: m)
  case Nil
  then show ?case by simp
next
  case (Cons x ops)
  have IH: "run_bus b n ops m' = Some (bus_spec n ops (vec b n m'))" for m' using Cons.IH Cons.prems by simp
  show ?case
  proof (cases x)
    case (Throw a xs)
    then have a: "length xs = n" "a + n \<le> b \<or> b + n \<le> a" using Cons.prems by auto
    then have "vec b n (write_vec a xs m) = vec b n m" by (intro vec_write_apart) auto
    then have "vec b n (sigthrow_perform \<lparr>st_whereto = Some b, st_n = n\<rparr> a n (write_vec a xs m)) =
        map2 (fadd binary32) (vec b n m) (map clean xs)"
      using a by (simp add: sigthrow_perform_eq vec_write_vec)
    then show ?thesis using Throw IH by simp
  next
    case (Catch out)
    then have o1: "b + n \<le> out \<or> out + n \<le> b" using Cons.prems by auto
    let ?m = "sigcatch_perform b out n m"
    have m: "?m = write_vec b (replicate n (Fin 0)) (write_vec out (vec b n m) m)" using o1 by (rule sigcatch_perform_eq)
    have "vec b n ?m = replicate n (Fin 0)" unfolding m by (simp add: vec_write_vec)
    moreover have "vec out n ?m = vec b n m"
      unfolding m using o1 by (subst vec_write_apart) (auto simp: vec_write_vec)
    moreover have "(if n mod 8 \<noteq> 0 then Some ?m else sigcatch_perf8 b out n m) = Some ?m"
      using sigcatch_perf8_eq [OF o1] by simp
    ultimately show ?thesis using Catch IH by simp
  qed
qed

theorem bus_sums_witness:
  "run_bus 8 1 [Throw 0 [Fin 1], Throw 1 [Fin 2], Catch 2, Throw 0 [Fin 5], Catch 2] (\<lambda>_. Fin 0) =
    Some (bus_spec 1 [Throw 0 [Fin 1], Throw 1 [Fin 2], Catch 2, Throw 0 [Fin 5], Catch 2] (vec 8 1 (\<lambda>_. Fin 0)))"
  by (rule bus_sums) simp

end
