(* ===== verification/Hang.thy ===== *)
theory Hang
  imports XTime "HOL-Library.Multiset"
begin

text \<open>
  What hangs on a clock of its own: \<open>pipe\<close> (\<open>x_time.c\<close>) and \<open>makenote\<close> (\<open>x_midi.c\<close>) keep a linked list of structures \<open>t_hang\<close>, each with
  a clock and a value that is put out when the clock expires. This theory states what both do with the list and the scheduler; the
  locale \<open>hanging_values\<close> says what the scheduler needs of such an object.
\<close>

record 'v hang =
  h_id :: addr
  h_clock :: addr
  h_value :: 'v

text \<open>
  The loop that unlinks a structure follows the links from the first one: in an empty list it dereferences null, where the structure
  is not found nothing happens.
\<close>

definition unlink_hang :: "addr \<Rightarrow> 'v hang list \<Rightarrow> 'v hang list cresult" where
  "unlink_hang h gs = (if gs = [] then Inl NullDeref else Inr (remove_first (\<lambda>g. h_id g = h) gs))"

subsection \<open>The clocks and the list\<close>

text \<open>The values that hang, in the order in which they will be put out, each with its time.\<close>

definition value_at :: "'v hang list \<Rightarrow> addr \<Rightarrow> 'v option" where
  "value_at gs a = map_option h_value (find (\<lambda>g. h_clock g = a) gs)"

definition pending :: "'v hang list \<Rightarrow> agenda \<Rightarrow> (fl \<times> 'v) list" where
  "pending gs ts = map (\<lambda>(a, t). (t, the (value_at gs a))) ts"

definition hang_ok :: "'v hang list \<Rightarrow> 'w sched \<Rightarrow> agenda \<Rightarrow> bool" where
  "hang_ok gs S ts \<longleftrightarrow> agenda_of S ts \<and> distinct (map h_id gs) \<and> distinct (map h_clock gs) \<and>
     fst ` set ts = h_clock ` set gs \<and> (\<forall>g \<in> set gs. \<exists>c. heap S (h_clock g) = Some c \<and> c_owner c = h_id g)"

definition enter :: "fl \<Rightarrow> 'v \<Rightarrow> (fl \<times> 'v) list \<Rightarrow> (fl \<times> 'v) list" where
  "enter t v ps = takeWhile (\<lambda>p. fle (fst p) t) ps @ (t, v) # dropWhile (\<lambda>p. fle (fst p) t) ps"

lemma hang_ok_world [simp]: "hang_ok gs (S\<lparr>world := w\<rparr>) ts = hang_ok gs S ts"
  by (simp add: hang_ok_def agenda_of_def)

lemma clock_new_agenda: "agenda_of S ts \<Longrightarrow> heap S a = None \<Longrightarrow> agenda_of (clock_new a owner fn S) ts"
proof -
  assume *: "agenda_of S ts" "heap S a = None"
  then have a: "a \<notin> fst ` set ts" using agenda_of_known by fastforce
  then show "agenda_of (clock_new a owner fn S) ts"
    using * by (auto simp: agenda_of_def clock_new_def seg_fun_upd_other split: if_splits)
qed

lemma clock_free_agenda:
  assumes "agenda_of S ts" "heap S a = Some c"
  shows "\<exists>S'. clock_free a S = Some (Inr (S'\<lparr>heap := (heap S')(a := None)\<rparr>)) \<and> same_frame S S' \<and>
    agenda_of (S'\<lparr>heap := (heap S')(a := None)\<rparr>) (agenda_remove a ts)"
proof -
  obtain S' where S': "clock_unset a S = Some (Inr S')" "agenda_of S' (agenda_remove a ts)" "same_frame S S'"
    using clock_unset_agenda [OF assms] by blast
  have "a \<notin> fst ` set (agenda_remove a ts)" by (auto simp: agenda_remove_def)
  then have "agenda_of (S'\<lparr>heap := (heap S')(a := None)\<rparr>) (agenda_remove a ts)"
    using S'(2) by (auto simp: agenda_of_def seg_fun_upd_other split: if_splits)
  then show ?thesis using S'(1,3) by (auto simp: clock_free_def)
qed

lemma value_at_same: "g \<in> set gs \<Longrightarrow> distinct (map h_clock gs) \<Longrightarrow> value_at gs (h_clock g) = Some (h_value g)"
  by (induction gs) (auto simp: value_at_def image_iff)

lemma pending_cong: "(\<And>a. a \<in> fst ` set ts \<Longrightarrow> value_at gs a = value_at hs a) \<Longrightarrow> pending gs ts = pending hs ts"
  unfolding pending_def by (intro map_cong) force+

lemma pending_insert:
  assumes "a \<notin> fst ` set ts"
  shows "pending (\<lparr>h_id = h, h_clock = a, h_value = v\<rparr> # gs) (agenda_insert a t ts) = enter t v (pending gs ts)"
proof -
  let ?gs = "\<lparr>h_id = h, h_clock = a, h_value = v\<rparr> # gs"
  have at: "value_at ?gs b = (if b = a then Some v else value_at gs b)" for b by (simp add: value_at_def)
  have old: "pending ?gs us = pending gs us" if "set us \<subseteq> set ts" for us
    by (rule pending_cong) (use assms that in \<open>auto simp: at image_iff\<close>)
  have sub: "set (takeWhile (\<lambda>e. fle (snd e) t) ts) \<subseteq> set ts" "set (dropWhile (\<lambda>e. fle (snd e) t) ts) \<subseteq> set ts"
    by (auto dest: set_takeWhileD set_dropWhileD)
  have "pending ?gs (agenda_insert a t ts) =
      pending ?gs (takeWhile (\<lambda>e. fle (snd e) t) ts) @ (t, v) # pending ?gs (dropWhile (\<lambda>e. fle (snd e) t) ts)"
    by (simp add: agenda_insert_def pending_def at)
  also have "\<dots> = pending gs (takeWhile (\<lambda>e. fle (snd e) t) ts) @ (t, v) # pending gs (dropWhile (\<lambda>e. fle (snd e) t) ts)"
    by (simp only: old [OF sub(1)] old [OF sub(2)])
  also have "\<dots> = enter t v (pending gs ts)"
    by (simp add: enter_def pending_def takeWhile_map dropWhile_map o_def split_def)
  finally show ?thesis .
qed

definition due_time :: "'w sched \<Rightarrow> fl \<Rightarrow> fl" where
  "due_time S f = expiry S (if fle (Fin 0) f then f else Fin 0)"

text \<open>A value whose clock is made and set joins the others, behind those that are due no later.\<close>

lemma hang_added:
  assumes ok: "hang_ok gs S ts" and new: "heap S hc = None" "h \<notin> h_id ` set gs"
  shows "\<exists>S' ts'. clock_delay hc (if fle (Fin 0) f then f else Fin 0) (clock_new hc h fn S) = Some (Inr S') \<and>
    hang_ok (\<lparr>h_id = h, h_clock = hc, h_value = v\<rparr> # gs) S' ts' \<and>
    sys_time S' = sys_time S \<and> world S' = world S \<and> sys_quit S' = sys_quit S \<and>
    pending (\<lparr>h_id = h, h_clock = hc, h_value = v\<rparr> # gs) ts' = enter (due_time S f) v (pending gs ts)"
proof -
  let ?d = "if fle (Fin 0) f then f else Fin 0" and ?S = "clock_new hc h fn S"
  have inv: "agenda_of ?S ts" using ok new(1) by (simp add: hang_ok_def clock_new_agenda)
  have hc: "hc \<notin> fst ` set ts" "hc \<notin> h_clock ` set gs" using ok new(1) by (auto simp: hang_ok_def)
  have c: "heap ?S hc = Some \<lparr>c_settime = Fin (-1), c_owner = h, c_fn = fn, c_next = None\<rparr>" by (simp add: clock_new_def)
  have d: "fle (Fin 0) ?d" by simp
  from clock_delay_agenda [OF inv c, of ?d] obtain S' where S': "clock_delay hc ?d ?S = Some (Inr S')" "same_frame ?S S'"
      "agenda_of S' (agenda_insert hc (expiry ?S ?d) (agenda_remove hc ts))" using d by blast
  have t: "expiry ?S ?d = due_time S f"
    by (simp add: due_time_def expiry_def clamp_time_def clock_getsystimeafter_def clock_new_def)
  let ?ts = "agenda_insert hc (due_time S f) ts" and ?gs = "\<lparr>h_id = h, h_clock = hc, h_value = v\<rparr> # gs"
  have "agenda_of S' ?ts" using S'(3) hc(1) by (simp add: t agenda_remove_notin)
  moreover have "\<exists>c. heap S' (h_clock g) = Some c \<and> c_owner c = h_id g" if "g \<in> set ?gs" for g
  proof -
    have "\<exists>c. heap ?S (h_clock g) = Some c \<and> c_owner c = h_id g"
      using that ok hc(2) by (auto simp: hang_ok_def clock_new_def image_iff)
    then show ?thesis using same_frame_heap [OF S'(2)] by metis
  qed
  ultimately have "hang_ok ?gs S' ?ts" using ok hc(2) new(2) by (auto simp: hang_ok_def)
  moreover have "sys_time S' = sys_time S" "world S' = world S" "sys_quit S' = sys_quit S"
    using S'(2) by (simp_all add: same_frame_def clock_new_def)
  ultimately show ?thesis using S'(1) pending_insert [OF hc(1), of h v gs "due_time S f"] by blast
qed

lemma remove_first_hang:
  assumes "distinct (map h_id gs)" "g \<in> set gs"
  shows "remove_first (\<lambda>k. h_id k = h_id g) gs = filter (\<lambda>k. k \<noteq> g) gs \<and> find (\<lambda>k. h_id k = h_id g) gs = Some g"
  using assms
proof (induction gs)
  case (Cons k gs)
  show ?case
  proof (cases "k = g")
    case True
    then have "g \<notin> set gs" using Cons.prems(1) by auto
    then have "filter (\<lambda>k. k \<noteq> g) gs = gs" by (auto simp: filter_id_conv)
    then show ?thesis using True by simp
  next
    case False
    then have "h_id k \<noteq> h_id g" "g \<in> set gs" using Cons.prems by force+
    then show ?thesis using Cons.IH Cons.prems(1) False by simp
  qed
qed simp

lemma pending_values:
  assumes "hang_ok gs S ts"
  shows "mset (map snd (pending gs ts)) = mset (map h_value gs)"
proof -
  have d: "distinct (map fst ts)" "distinct (map h_clock gs)" "set (map fst ts) = set (map h_clock gs)"
    using assms by (auto simp: hang_ok_def agenda_of_def)
  then have "mset (map fst ts) = mset (map h_clock gs)" using set_eq_iff_mset_eq_distinct by blast
  then have "image_mset (\<lambda>a. the (value_at gs a)) (mset (map fst ts)) = image_mset (\<lambda>a. the (value_at gs a)) (mset (map h_clock gs))"
    by (rule arg_cong)
  moreover have "map snd (pending gs ts) = map (\<lambda>a. the (value_at gs a)) (map fst ts)" by (simp add: pending_def split_def o_def)
  moreover have "map (\<lambda>a. the (value_at gs a)) (map h_clock gs) = map h_value gs" using d(2) by (auto simp: value_at_same)
  ultimately show ?thesis by (metis mset_map)
qed

text \<open>While the method of its clock runs, a value hangs whose clock is no longer set.\<close>

definition firing :: "'v hang \<Rightarrow> 'v hang list \<Rightarrow> 'w sched \<Rightarrow> agenda \<Rightarrow> bool" where
  "firing g gs S ts \<longleftrightarrow> g \<in> set gs \<and> agenda_of S ts \<and> distinct (map h_id gs) \<and> distinct (map h_clock gs) \<and>
     fst ` set ts = h_clock ` set gs - {h_clock g} \<and> (\<forall>g \<in> set gs. \<exists>c. heap S (h_clock g) = Some c \<and> c_owner c = h_id g)"

lemma firing_world [simp]: "firing g gs (S\<lparr>world := w\<rparr>) ts = firing g gs S ts"
  by (simp add: firing_def agenda_of_def)

lemma firing_found: "firing g gs S ts \<Longrightarrow> find (\<lambda>k. h_id k = h_id g) gs = Some g"
  and firing_unlink: "firing g gs S ts \<Longrightarrow> unlink_hang (h_id g) gs = Inr (filter (\<lambda>k. k \<noteq> g) gs)"
  using remove_first_hang [of gs g] by (auto simp: firing_def unlink_hang_def)

lemma hang_removed:
  assumes "firing g gs S ts"
  shows "\<exists>S'. clock_free (h_clock g) S = Some (Inr S') \<and> hang_ok (filter (\<lambda>k. k \<noteq> g) gs) S' ts \<and>
    sys_time S' = sys_time S \<and> world S' = world S \<and> sys_quit S' = sys_quit S \<and>
    pending (filter (\<lambda>k. k \<noteq> g) gs) ts = pending gs ts"
proof -
  let ?gs = "filter (\<lambda>k. k \<noteq> g) gs"
  have F: "g \<in> set gs" "agenda_of S ts" "distinct (map h_id gs)" "distinct (map h_clock gs)"
      "fst ` set ts = h_clock ` set gs - {h_clock g}" "\<forall>g \<in> set gs. \<exists>c. heap S (h_clock g) = Some c \<and> c_owner c = h_id g"
    using assms by (simp_all add: firing_def)
  obtain c where c: "heap S (h_clock g) = Some c" using F(1,6) by blast
  obtain S2 where S2: "clock_free (h_clock g) S = Some (Inr (S2\<lparr>heap := (heap S2)(h_clock g := None)\<rparr>))" "same_frame S S2"
      "agenda_of (S2\<lparr>heap := (heap S2)(h_clock g := None)\<rparr>) (agenda_remove (h_clock g) ts)"
    using clock_free_agenda [OF F(2) c] by blast
  let ?S = "S2\<lparr>heap := (heap S2)(h_clock g := None)\<rparr>"
  have rm: "agenda_remove (h_clock g) ts = ts" using F(5) by (intro agenda_remove_notin) auto
  have inj: "h_clock k \<noteq> h_clock g" if "k \<in> set ?gs" for k
    using that F(1,4) by (auto simp: distinct_map inj_on_def)
  have "\<exists>c. heap ?S (h_clock k) = Some c \<and> c_owner c = h_id k" if k: "k \<in> set ?gs" for k
  proof -
    obtain c where "heap S (h_clock k) = Some c" "c_owner c = h_id k" using F(6) k by auto
    then show ?thesis using same_frame_heap [OF S2(2)] inj [OF k] by fastforce
  qed
  moreover have "fst ` set ts = h_clock ` set ?gs" unfolding F(5) using inj by auto
  ultimately have "hang_ok ?gs ?S ts"
    using S2(3) F(3,4) by (simp add: hang_ok_def rm distinct_map_filter)
  moreover have "value_at ?gs a = value_at gs a" if "a \<noteq> h_clock g" for a
  proof -
    have "find (\<lambda>k. h_clock k = a) (filter (\<lambda>k. k \<noteq> g) gs) = find (\<lambda>k. h_clock k = a) gs" for gs
      using that by (induction gs) auto
    then show ?thesis by (simp add: value_at_def)
  qed
  then have "pending ?gs ts = pending gs ts" using F(5) by (intro pending_cong) auto
  moreover have "world ?S = world S" "sys_time ?S = sys_time S" "sys_quit ?S = sys_quit S"
    using S2(2) by (simp_all add: same_frame_def)
  ultimately show ?thesis using S2(1) by blast
qed

text \<open>A value that is taken off the list before its time, with its clock.\<close>

lemma hang_dropped:
  assumes ok: "hang_ok (g # gs) S ts"
  shows "\<exists>S'. clock_free (h_clock g) S = Some (Inr S') \<and> hang_ok gs S' (agenda_remove (h_clock g) ts) \<and>
    sys_time S' = sys_time S \<and> world S' = world S \<and> sys_quit S' = sys_quit S"
proof -
  obtain c where c: "heap S (h_clock g) = Some c" using ok by (auto simp: hang_ok_def)
  have ag: "agenda_of S ts" using ok by (simp add: hang_ok_def)
  obtain S2 where S2: "clock_free (h_clock g) S = Some (Inr (S2\<lparr>heap := (heap S2)(h_clock g := None)\<rparr>))" "same_frame S S2"
      "agenda_of (S2\<lparr>heap := (heap S2)(h_clock g := None)\<rparr>) (agenda_remove (h_clock g) ts)"
    using clock_free_agenda [OF ag c] by blast
  let ?S = "S2\<lparr>heap := (heap S2)(h_clock g := None)\<rparr>"
  have new: "h_clock g \<notin> h_clock ` set gs" using ok by (simp add: hang_ok_def)
  have "\<exists>c. heap ?S (h_clock k) = Some c \<and> c_owner c = h_id k" if k: "k \<in> set gs" for k
  proof -
    obtain c where "heap S (h_clock k) = Some c" "c_owner c = h_id k" using ok k by (auto simp: hang_ok_def)
    moreover have "h_clock k \<noteq> h_clock g" using new k by (metis imageI)
    ultimately show ?thesis using same_frame_heap [OF S2(2)] by fastforce
  qed
  moreover have "fst ` set (agenda_remove (h_clock g) ts) = fst ` set ts - {h_clock g}" by (auto simp: agenda_remove_def)
  then have "fst ` set (agenda_remove (h_clock g) ts) = h_clock ` set gs" using ok new by (auto simp: hang_ok_def)
  ultimately have "hang_ok gs ?S (agenda_remove (h_clock g) ts)" using S2(3) ok by (simp add: hang_ok_def)
  then show ?thesis using S2(1,2) by (intro exI [of _ ?S]) (simp add: same_frame_def)
qed

subsection \<open>The scheduler puts out what is due\<close>

text \<open>
  \<open>fn\<close> is what the methods of the clocks do to the scheduler and the world, which holds the list of values. Run for a value that hangs, it must
  add to the output what belongs to the value and its time, take the value off the list and leave the other clocks alone; \<open>keeps\<close>
  says what else it preserves.
\<close>

locale hanging_values =
  fixes fn :: "addr \<Rightarrow> nat \<Rightarrow> 'w sched \<Rightarrow> 'w sched"
    and hangs :: "'w \<Rightarrow> 'v hang list"
    and out :: "'w \<Rightarrow> 'e list"
    and emits :: "fl \<times> 'v \<Rightarrow> 'e list"
    and keeps :: "'w \<Rightarrow> 'w \<Rightarrow> bool"
  assumes fires: "firing g (hangs (world S)) S ts \<Longrightarrow> let S' = fn (h_id g) m S in sys_quit S' = sys_quit S \<and>
      hangs (world S') = filter (\<lambda>k. k \<noteq> g) (hangs (world S)) \<and> hang_ok (hangs (world S')) S' ts \<and>
      pending (hangs (world S')) ts = pending (hangs (world S)) ts \<and>
      out (world S') = out (world S) @ emits (sys_time S, h_value g) \<and> keeps (world S) (world S')"
    and keeps_refl: "keeps w w"
    and keeps_trans: "keeps u v \<Longrightarrow> keeps v w \<Longrightarrow> keeps u w"
begin

lemma fire_first:
  assumes "hang_ok (hangs (world S)) S ((a, t) # ts)" "sys_quit S = 0" "heap S a = Some c"
  shows "\<exists>S1 v. clock_unset a (S\<lparr>sys_time := t\<rparr>) = Some (Inr S1) \<and>
    (let S2 = fn (c_owner c) m (outlet_setstacklim S1) in hang_ok (hangs (world S2)) S2 ts \<and> sys_quit S2 = 0 \<and>
      pending (hangs (world S)) ((a, t) # ts) = (t, v) # pending (hangs (world S2)) ts \<and>
      out (world S2) = out (world S) @ emits (t, v) \<and> keeps (world S) (world S2))"
proof -
  let ?gs = "hangs (world S)"
  have inv: "agenda_of S ((a, t) # ts)" using assms(1) by (simp add: hang_ok_def)
  obtain S1 where S1: "clock_unset a (S\<lparr>sys_time := t\<rparr>) = Some (Inr S1)" "agenda_of S1 ts" "same_frame (S\<lparr>sys_time := t\<rparr>) S1"
    using take_first [OF inv] by blast
  have "a \<in> h_clock ` set ?gs" using assms(1) by (force simp: hang_ok_def)
  then obtain g where g: "g \<in> set ?gs" "h_clock g = a" by blast
  have owner: "c_owner c = h_id g" using assms(1,3) g by (auto simp: hang_ok_def)
  let ?S = "outlet_setstacklim S1"
  have S: "agenda_of ?S ts" using S1(2) by simp
  have S': "sys_time ?S = t" "sys_quit ?S = 0" "world ?S = world S"
    using S1(3) assms(2) by (simp_all add: same_frame_def outlet_setstacklim_def)
  have own: "\<forall>k \<in> set ?gs. \<exists>c. heap ?S (h_clock k) = Some c \<and> c_owner c = h_id k"
    using assms(1) same_frame_heap [OF S1(3)] by (fastforce simp: hang_ok_def outlet_setstacklim_def)
  have "a \<notin> fst ` set ts" using inv by (auto simp: agenda_of_def)
  moreover have "h_clock ` set ?gs = insert a (fst ` set ts)" using assms(1) by (simp add: hang_ok_def)
  ultimately have "fst ` set ts = h_clock ` set ?gs - {h_clock g}" using g(2) by simp
  then have "firing g (hangs (world ?S)) ?S ts" using assms(1) S own g(1) S'(3) by (simp add: firing_def hang_ok_def)
  from fires [OF this, of m] obtain S2 where S2: "fn (h_id g) m ?S = S2" "sys_quit S2 = 0" "hang_ok (hangs (world S2)) S2 ts"
      "pending (hangs (world S2)) ts = pending ?gs ts" "out (world S2) = out (world S) @ emits (t, h_value g)" "keeps (world S) (world S2)"
    using S' by (auto simp: Let_def)
  have "value_at ?gs a = Some (h_value g)" using assms(1) g value_at_same by (auto simp: hang_ok_def)
  then have "pending ?gs ((a, t) # ts) = (t, h_value g) # pending (hangs (world S2)) ts" by (simp add: pending_def S2(4) [unfolded pending_def])
  then show ?thesis using S1(1) S2 owner by (intro exI [of _ S1] exI [of _ "h_value g"]) (simp add: Let_def)
qed

lemma tick_loop_emits:
  assumes "hang_ok (hangs (world S)) S ts" "sys_quit S = 0"
  shows "\<exists>S' ts'. tick_loop fn (\<lambda>S. S) until k S = Some (Inr (False, S')) \<and> hang_ok (hangs (world S')) S' ts' \<and> sys_quit S' = 0 \<and>
    pending (hangs (world S')) ts' = dropWhile (\<lambda>p. flt (fst p) until) (pending (hangs (world S)) ts) \<and>
    out (world S') = out (world S) @ concat (map emits (takeWhile (\<lambda>p. flt (fst p) until) (pending (hangs (world S)) ts))) \<and>
    keeps (world S) (world S')"
  using assms
proof (induction ts arbitrary: S k)
  case Nil
  then have "clock_setlist S = None" by (auto simp: hang_ok_def agenda_of_def)
  then have "tick_loop fn (\<lambda>S. S) until k S = Some (Inr (False, S))" by (subst tick_loop.simps) simp
  then show ?case using Nil keeps_refl
    by (intro exI [of _ S] exI [of _ "[]"] conjI) (assumption | simp add: pending_def)+
next
  case (Cons e ts)
  obtain a t where e: "e = (a, t)" by fastforce
  have inv: "agenda_of S ((a, t) # ts)" using Cons.prems by (simp add: hang_ok_def e)
  obtain c where c: "heap S a = Some c" "c_settime c = t" "clock_setlist S = Some a" using agenda_of_head [OF inv] .
  show ?case
  proof (cases "flt t until")
    case False
    then have "tick_loop fn (\<lambda>S. S) until k S = Some (Inr (False, S))" using c by (subst tick_loop.simps) simp
    then show ?thesis using Cons.prems False keeps_refl
      by (intro exI [of _ S] exI [of _ "e # ts"] conjI) (assumption | simp add: pending_def e)+
  next
    case True
    obtain S1 v where S1: "clock_unset a (S\<lparr>sys_time := t\<rparr>) = Some (Inr S1)" and
        fire: "let S2 = fn (c_owner c) (c_fn c) (outlet_setstacklim S1) in hang_ok (hangs (world S2)) S2 ts \<and> sys_quit S2 = 0 \<and>
        pending (hangs (world S)) ((a, t) # ts) = (t, v) # pending (hangs (world S2)) ts \<and>
        out (world S2) = out (world S) @ emits (t, v) \<and> keeps (world S) (world S2)"
      using fire_first [of S a t ts c "c_fn c"] Cons.prems c(1) unfolding e by metis
    define S2 where "S2 = fn (c_owner c) (c_fn c) (outlet_setstacklim S1)"
    have S2: "hang_ok (hangs (world S2)) S2 ts" "sys_quit S2 = 0"
        "pending (hangs (world S)) (e # ts) = (t, v) # pending (hangs (world S2)) ts"
        "out (world S2) = out (world S) @ emits (t, v)" "keeps (world S) (world S2)"
      using fire by (simp_all add: Let_def S2_def e)
    have step: "tick_loop fn (\<lambda>S. S) until k S = tick_loop fn (\<lambda>S. S) until (if k = 0 then 5000 else k - 1) S2"
      using c True S1 S2(2) by (subst tick_loop.simps) (simp add: S2_def [symmetric] Let_def)
    from Cons.IH [OF S2(1,2), of "if k = 0 then 5000 else k - 1"] obtain S' ts' where IH:
        "tick_loop fn (\<lambda>S. S) until (if k = 0 then 5000 else k - 1) S2 = Some (Inr (False, S'))"
        "hang_ok (hangs (world S')) S' ts'" "sys_quit S' = 0"
        "pending (hangs (world S')) ts' = dropWhile (\<lambda>p. flt (fst p) until) (pending (hangs (world S2)) ts)"
        "out (world S') = out (world S2) @ concat (map emits (takeWhile (\<lambda>p. flt (fst p) until) (pending (hangs (world S2)) ts)))"
        "keeps (world S2) (world S')" by blast
    show ?thesis using IH step S2(3,4) True keeps_trans [OF S2(5) IH(6)]
      by (intro exI [of _ S'] exI [of _ ts'] conjI) simp_all
  qed
qed

end

subsection \<open>A scheduler with a value that hangs\<close>

definition hang_sched :: "'w \<Rightarrow> 'w sched" where
  "hang_sched w = \<lparr>heap = [0 \<mapsto> \<lparr>c_settime = Fin 1000, c_owner = 10, c_fn = 7, c_next = None\<rparr>], clock_setlist = Some 0,
     sys_time = Fin 5, sys_quit = 0, sched_diddsp = 0, outlet_eventno = 0, world = w\<rparr>"

lemma hang_sched_ok: "hang_ok [\<lparr>h_id = 10, h_clock = 0, h_value = v\<rparr>] (hang_sched w) [(0, Fin 1000)]"
  by (auto simp: hang_ok_def hang_sched_def agenda_of_def agenda_sorted_def split: if_splits)

lemma hang_sched_now: "due_time (hang_sched w) (Fin 0) = Fin 5"
proof -
  have "fround binary64 5 = Fin 5" using fround_of_int [of 5 binary64] by (simp add: binary64_def)
  then show ?thesis
    by (simp add: due_time_def expiry_def clamp_time_def clock_getsystimeafter_def hang_sched_def sys_time_per_msec_val fmul_def
        fzero_def signed_zero_def)
qed

lemma hang_sched_simps [simp]:
  "sys_quit (hang_sched w) = 0" "heap (hang_sched w) 1 = None" "sys_time (hang_sched w) = Fin 5" "world (hang_sched w) = w"
  by (simp_all add: hang_sched_def)

end
