(* ===== verification/Pipe.thy ===== *)
theory Pipe
  imports Hang XList
begin

text \<open>
  The object \<open>pipe\<close> (\<open>x_time.c\<close>): every list that comes in hangs on a clock of its own and is put out, element by element from
  right to left, when the clock expires.
\<close>

subsection \<open>The object\<close>

text \<open>
  The type and value of an outlet; a pointer cell holds the pointer in \<open>x_gp\<close> that belongs to it, \<open>None\<close> where it is unset.
  \<open>NullCell\<close> is left where a creation argument is neither a number nor a symbol.
\<close>

datatype pcell = FloatCell fl | SymbolCell string | PointerCell "nat option" | NullCell

type_synonym t_hang = "pcell list hang"

record t_pipe =
  pp_vec :: "pcell list"
  pp_deltime :: fl
  pp_hang :: "t_hang list"

definition pipe_deltime :: "t_atom list \<Rightarrow> fl" where
  "pipe_deltime argv = (if argv = [] then Fin 0 else (case last argv of FLOAT f \<Rightarrow> f | _ \<Rightarrow> Fin 0))"

fun pipe_cell :: "t_atom \<Rightarrow> pcell" where
  "pipe_cell (FLOAT f) = FloatCell f"
| "pipe_cell (SYMBOL s) = (if take 1 s = ''s'' then SymbolCell ''symbol''
     else if take 1 s = ''p'' then PointerCell None else FloatCell (Fin 0))"
| "pipe_cell _ = NullCell"

definition pipe_new :: "t_atom list \<Rightarrow> t_pipe" where
  "pipe_new argv = \<lparr>pp_vec = map pipe_cell (if length argv \<le> 1 then [FLOAT (Fin 0)] else butlast argv),
     pp_deltime = pipe_deltime argv, pp_hang = []\<rparr>"

text \<open>Values of the further inlets, which are those of the cells behind the first, and of the time.\<close>

definition pipe_inlet :: "nat \<Rightarrow> pcell \<Rightarrow> t_pipe \<Rightarrow> t_pipe" where
  "pipe_inlet i c x = x\<lparr>pp_vec := (pp_vec x)[i := c]\<rparr>"

definition pipe_time :: "fl \<Rightarrow> t_pipe \<Rightarrow> t_pipe" where
  "pipe_time f x = x\<lparr>pp_deltime := f\<rparr>"

subsection \<open>Pointers\<close>

fun cell_ref :: "pcell \<Rightarrow> nat option" where
  "cell_ref (PointerCell g) = g"
| "cell_ref _ = None"

definition ref_copy :: "pcell \<Rightarrow> refs \<Rightarrow> refs" where
  "ref_copy c r = (case cell_ref c of Some g \<Rightarrow> gpointer_copy g r | None \<Rightarrow> r)"

definition ref_unset :: "pcell \<Rightarrow> refs \<Rightarrow> refs" where
  "ref_unset c r = (case cell_ref c of Some g \<Rightarrow> gpointer_unset g r | None \<Rightarrow> r)"

subsection \<open>Operations\<close>

type_synonym 'w pipe_state = "t_pipe \<times> refs \<times> 'w sched"

definition hang_free :: "t_hang \<Rightarrow> 'w pipe_state \<Rightarrow> 'w pipe_state cresult option" where
  "hang_free g st = (case st of (x, r, S) \<Rightarrow>
     rbind (clock_free (h_clock g) S) (\<lambda>S'. ret (x, fold ref_unset (h_value g) r, S')))"

text \<open>\<open>check\<close> is \<open>gpointer_check\<close>; \<open>outlet i\<close> sends a message through outlet \<open>i\<close> and may come back to the object.\<close>

fun send_cells :: "(nat \<Rightarrow> t_atom \<Rightarrow> 's \<Rightarrow> 's cresult option) \<Rightarrow> (nat \<Rightarrow> bool) \<Rightarrow> (nat \<times> pcell) list \<Rightarrow> 's \<Rightarrow> 's cresult option" where
  "send_cells outlet check [] st = ret st"
| "send_cells outlet check ((i, c) # cs) st =
     rbind (case c of
         FloatCell f \<Rightarrow> outlet i (FLOAT f) st
       | SymbolCell s \<Rightarrow> outlet i (SYMBOL s) st
       | PointerCell (Some g) \<Rightarrow> if check g then outlet i (POINTER g) st else ret st
       | PointerCell None \<Rightarrow> ret st
       | NullCell \<Rightarrow> ret st) (send_cells outlet check cs)"

definition hang_tick :: "(nat \<Rightarrow> t_atom \<Rightarrow> 'w pipe_state \<Rightarrow> 'w pipe_state cresult option) \<Rightarrow> (nat \<Rightarrow> bool) \<Rightarrow> addr \<Rightarrow>
    'w pipe_state \<Rightarrow> 'w pipe_state cresult option" where
  "hang_tick outlet check h st = (case st of (x, r, S) \<Rightarrow>
     (case find (\<lambda>g. h_id g = h) (pp_hang x) of
        None \<Rightarrow> Some (Inl NullDeref)
      | Some g \<Rightarrow>
          rbind (send_cells outlet check (rev (enumerate 0 (h_value g)))
              (x\<lparr>pp_hang := remove_first (\<lambda>g. h_id g = h) (pp_hang x)\<rparr>, r, S))
            (hang_free g)))"

text \<open>Setting the cells of a list that comes in. A pointer that is no pointer leaves the cell unset.\<close>

fun set_cell :: "pcell \<Rightarrow> t_atom \<Rightarrow> refs \<Rightarrow> pcell \<times> refs" where
  "set_cell (FloatCell f) a r = (FloatCell (atom_getfloat a), r)"
| "set_cell (SymbolCell s) a r = (SymbolCell (atom_getsymbol a), r)"
| "set_cell (PointerCell g) a r = (let r1 = ref_unset (PointerCell g) r in
     (case a of POINTER p \<Rightarrow> (PointerCell (Some p), gpointer_copy p r1) | _ \<Rightarrow> (PointerCell None, r1)))"
| "set_cell NullCell a r = (NullCell, r)"

fun set_cells :: "pcell list \<Rightarrow> t_atom list \<Rightarrow> refs \<Rightarrow> pcell list \<times> refs" where
  "set_cells (c # cs) (a # as) r = (let (c', r1) = set_cell c a r; (cs', r2) = set_cells cs as r1 in (c' # cs', r2))"
| "set_cells cs as r = (cs, r)"

text \<open>The addresses of the hang and of its clock are given.\<close>

definition HANG_TICK :: nat where "HANG_TICK = 7"

definition list_deltime :: "t_pipe \<Rightarrow> t_atom list \<Rightarrow> fl" where
  "list_deltime x av = (let n = length (pp_vec x) in
     if length av > n then (case av ! n of FLOAT f \<Rightarrow> f | _ \<Rightarrow> pp_deltime x) else pp_deltime x)"

definition pipe_list :: "addr \<Rightarrow> addr \<Rightarrow> t_atom list \<Rightarrow> 'w pipe_state \<Rightarrow> 'w pipe_state cresult option" where
  "pipe_list h hc av st = (case st of (x, r, S) \<Rightarrow>
     (let n = length (pp_vec x);
          deltime = list_deltime x av;
          (vec, r1) = set_cells (pp_vec x) (take n av) r;
          r2 = fold ref_copy vec r1;
          x' = x\<lparr>pp_vec := vec, pp_deltime := deltime, pp_hang := \<lparr>h_id = h, h_clock = hc, h_value = vec\<rparr> # pp_hang x\<rparr>
      in rbind (clock_delay hc (if fle (Fin 0) deltime then deltime else Fin 0) (clock_new hc h HANG_TICK S))
           (\<lambda>S'. ret (x', r2, S'))))"

partial_function (option) pipe_flush :: "(nat \<Rightarrow> t_atom \<Rightarrow> 'w pipe_state \<Rightarrow> 'w pipe_state cresult option) \<Rightarrow> (nat \<Rightarrow> bool) \<Rightarrow>
    'w pipe_state \<Rightarrow> 'w pipe_state cresult option" where
  "pipe_flush outlet check st = (case pp_hang (fst st) of
      [] \<Rightarrow> Some (Inr st)
    | g # gs \<Rightarrow> (case hang_tick outlet check (h_id g) st of
         None \<Rightarrow> None | Some (Inl e) \<Rightarrow> Some (Inl e) | Some (Inr st') \<Rightarrow> pipe_flush outlet check st'))"

fun clear_hangs :: "t_hang list \<Rightarrow> 'w pipe_state \<Rightarrow> 'w pipe_state cresult option" where
  "clear_hangs [] st = ret st"
| "clear_hangs (g # gs) st = rbind (hang_free g ((fst st)\<lparr>pp_hang := gs\<rparr>, snd st)) (clear_hangs gs)"

definition pipe_clear :: "'w pipe_state \<Rightarrow> 'w pipe_state cresult option" where
  "pipe_clear st = clear_hangs (pp_hang (fst st)) st"

text \<open>The object is freed with \<open>pipe_clear\<close>, too.\<close>

definition pipe_free :: "'w pipe_state \<Rightarrow> 'w pipe_state cresult option" where
  "pipe_free = pipe_clear"

subsection \<open>Reference counts\<close>

text \<open>Every pointer in a cell or in a list that hangs is counted once.\<close>

definition refs_of :: "t_pipe \<Rightarrow> nat \<Rightarrow> int" where
  "refs_of x g = int (count_list (map cell_ref (pp_vec x @ concat (map h_value (pp_hang x)))) (Some g))"

lemma ref_copy_eq: "fold ref_copy cs r g = r g + int (count_list (map cell_ref cs) (Some g))"
  by (induction cs arbitrary: r) (auto simp: ref_copy_def gpointer_copy_def split: option.split)

lemma ref_unset_eq: "fold ref_unset cs r g = r g - int (count_list (map cell_ref cs) (Some g))"
  by (induction cs arbitrary: r) (auto simp: ref_unset_def gpointer_unset_def split: option.split)

lemma set_cell_refs:
  "set_cell c a r = (c', r') \<Longrightarrow> r' g - int (count_list [cell_ref c'] (Some g)) = r g - int (count_list [cell_ref c] (Some g))"
  by (cases c; cases a) (auto simp: ref_unset_def gpointer_unset_def gpointer_copy_def split: option.splits)

lemma set_cells_refs:
  "set_cells cs as r = (cs', r') \<Longrightarrow> length cs' = length cs \<and>
    r' g - int (count_list (map cell_ref cs') (Some g)) = r g - int (count_list (map cell_ref cs) (Some g))"
proof (induction cs as r arbitrary: cs' r' rule: set_cells.induct)
  case (1 c cs a as r)
  obtain c1 r1 where c: "set_cell c a r = (c1, r1)" by fastforce
  obtain cs2 r2 where cs: "set_cells cs as r1 = (cs2, r2)" by fastforce
  have "r2 g - int (count_list (map cell_ref cs2) (Some g)) = r1 g - int (count_list (map cell_ref cs) (Some g))" "length cs2 = length cs"
    using 1(1) [OF c [symmetric] refl cs] by simp_all
  then show ?case using 1(2) set_cell_refs [OF c, of g] by (auto simp: c cs split: if_splits)
qed auto

subsection \<open>What is pending\<close>

text \<open>A list that comes in is put behind those that are to be put out no later.\<close>

lemma pipe_list_pending:
  assumes ok: "hang_ok (pp_hang x) S ts" and new: "heap S hc = None" "h \<notin> h_id ` set (pp_hang x)"
  shows "\<exists>x' r' S' ts'. pipe_list h hc av (x, r, S) = Some (Inr (x', r', S')) \<and> hang_ok (pp_hang x') S' ts' \<and>
    sys_time S' = sys_time S \<and> world S' = world S \<and> sys_quit S' = sys_quit S \<and> (\<forall>g. r' g - refs_of x' g = r g - refs_of x g) \<and>
    pp_vec x' = fst (set_cells (pp_vec x) (take (length (pp_vec x)) av) r) \<and> pp_deltime x' = list_deltime x av \<and>
    pending (pp_hang x') ts' = enter (due_time S (pp_deltime x')) (pp_vec x') (pending (pp_hang x) ts)"
proof -
  obtain vec r1 where vec: "set_cells (pp_vec x) (take (length (pp_vec x)) av) r = (vec, r1)" by fastforce
  define x' where "x' = x\<lparr>pp_vec := vec, pp_deltime := list_deltime x av,
    pp_hang := \<lparr>h_id = h, h_clock = hc, h_value = vec\<rparr> # pp_hang x\<rparr>"
  obtain S' ts' where S': "clock_delay hc (if fle (Fin 0) (list_deltime x av) then list_deltime x av else Fin 0)
        (clock_new hc h HANG_TICK S) = Some (Inr S')" "hang_ok (pp_hang x') S' ts'"
      "sys_time S' = sys_time S" "world S' = world S" "sys_quit S' = sys_quit S"
      "pending (pp_hang x') ts' = enter (due_time S (list_deltime x av)) vec (pending (pp_hang x) ts)"
    using hang_added [OF ok new, of "list_deltime x av" HANG_TICK vec] by (auto simp: x'_def)
  have "pipe_list h hc av (x, r, S) = Some (Inr (x', fold ref_copy vec r1, S'))"
    using S'(1) vec by (simp add: pipe_list_def Let_def x'_def ret_def)
  moreover have "fold ref_copy vec r1 g - refs_of x' g = r g - refs_of x g" for g
    using set_cells_refs [OF vec, of g] by (simp add: refs_of_def x'_def ref_copy_eq count_list_append)
  moreover have "pp_deltime x' = list_deltime x av" "pp_vec x' = vec" by (simp_all add: x'_def)
  ultimately show ?thesis using S'(2-) vec
    by (intro exI [of _ x'] exI [of _ "fold ref_copy vec r1"] exI [of _ S'] exI [of _ ts']) simp
qed

subsection \<open>What is put out\<close>

text \<open>Outlets that record what they are sent, with the time, behind what the world holds of the object.\<close>

type_synonym pipe_world = "t_pipe \<times> refs \<times> (fl \<times> nat \<times> t_atom) list"

definition record_out :: "nat \<Rightarrow> t_atom \<Rightarrow> pipe_world pipe_state \<Rightarrow> pipe_world pipe_state cresult option" where
  "record_out i a st = (case st of (x, r, S) \<Rightarrow> ret (x, r,
     S\<lparr>world := (fst (world S), fst (snd (world S)), snd (snd (world S)) @ [(sys_time S, i, a)])\<rparr>))"

definition pipe_fn :: "(nat \<Rightarrow> bool) \<Rightarrow> addr \<Rightarrow> nat \<Rightarrow> pipe_world sched \<Rightarrow> pipe_world sched" where
  "pipe_fn check a m S = (case world S of (x, r, tr) \<Rightarrow>
     (case hang_tick record_out check a (x, r, S) of
        Some (Inr (x', r', S')) \<Rightarrow> S'\<lparr>world := (x', r', snd (snd (world S')))\<rparr>
      | _ \<Rightarrow> S))"

fun cell_atom :: "(nat \<Rightarrow> bool) \<Rightarrow> pcell \<Rightarrow> t_atom option" where
  "cell_atom check (FloatCell f) = Some (FLOAT f)"
| "cell_atom check (SymbolCell s) = Some (SYMBOL s)"
| "cell_atom check (PointerCell (Some g)) = (if check g then Some (POINTER g) else None)"
| "cell_atom check _ = None"

definition sent_cells :: "(nat \<Rightarrow> bool) \<Rightarrow> fl \<Rightarrow> (nat \<times> pcell) list \<Rightarrow> (fl \<times> nat \<times> t_atom) list" where
  "sent_cells check t cs = concat (map (\<lambda>(i, c). case cell_atom check c of Some a \<Rightarrow> [(t, i, a)] | None \<Rightarrow> []) cs)"

definition sent :: "(nat \<Rightarrow> bool) \<Rightarrow> fl \<times> pcell list \<Rightarrow> (fl \<times> nat \<times> t_atom) list" where
  "sent check p = sent_cells check (fst p) (rev (enumerate 0 (snd p)))"

lemma send_cells_record:
  "send_cells record_out check cs (x, r, S) = ret (x, r,
     S\<lparr>world := (fst (world S), fst (snd (world S)), snd (snd (world S)) @ sent_cells check (sys_time S) cs)\<rparr>)"
proof (induction cs arbitrary: S)
  case Nil
  then show ?case by (simp add: sent_cells_def)
next
  case (Cons ic cs)
  obtain i c where ic: "ic = (i, c)" by fastforce
  show ?case
  proof (cases "cell_atom check c")
    case None
    then have "send_cells record_out check (ic # cs) (x, r, S) = send_cells record_out check cs (x, r, S)"
      by (cases "(check, c)" rule: cell_atom.cases) (auto simp: ic ret_def split: if_splits)
    moreover have "sent_cells check t (ic # cs) = sent_cells check t cs" for t using None by (simp add: sent_cells_def ic)
    ultimately show ?thesis using Cons.IH by simp
  next
    case (Some a)
    let ?S = "S\<lparr>world := (fst (world S), fst (snd (world S)), snd (snd (world S)) @ [(sys_time S, i, a)])\<rparr>"
    have "send_cells record_out check (ic # cs) (x, r, S) = rbind (record_out i a (x, r, S)) (send_cells record_out check cs)"
      using Some by (cases "(check, c)" rule: cell_atom.cases) (auto simp: ic split: if_splits)
    also have "\<dots> = send_cells record_out check cs (x, r, ?S)" by (simp add: record_out_def ret_def)
    finally show ?thesis using Cons.IH [of ?S] Some by (simp add: sent_cells_def ic)
  qed
qed

text \<open>The first pending list is put out by its clock and no longer hangs.\<close>

lemma count_refs_remove:
  assumes "distinct (map h_id gs)" "g \<in> set gs"
  shows "count_list (map cell_ref (concat (map h_value gs))) p =
    count_list (map cell_ref (h_value g)) p + count_list (map cell_ref (concat (map h_value (filter (\<lambda>k. k \<noteq> g) gs)))) p"
  using assms
proof (induction gs)
  case (Cons k gs)
  show ?case
  proof (cases "k = g")
    case True
    then have "g \<notin> set gs" using Cons.prems(1) by auto
    then have "filter (\<lambda>k. k \<noteq> g) gs = gs" by (auto simp: filter_id_conv)
    then show ?thesis using True by (simp add: count_list_append)
  next
    case False
    then show ?thesis using Cons by (simp add: count_list_append)
  qed
qed simp

lemma hang_tick_fires:
  assumes "firing g (pp_hang x) S ts" "world S = (x, r, tr)"
  shows "\<exists>x' r' S'. hang_tick record_out check (h_id g) (x, r, S) = Some (Inr (x', r', S')) \<and> hang_ok (pp_hang x') S' ts \<and>
    sys_quit S' = sys_quit S \<and> (\<forall>p. r' p - refs_of x' p = r p - refs_of x p) \<and>
    world S' = (x, r, tr @ sent check (sys_time S, h_value g)) \<and>
    pp_vec x' = pp_vec x \<and> pp_deltime x' = pp_deltime x \<and> pp_hang x' = filter (\<lambda>k. k \<noteq> g) (pp_hang x) \<and>
    pending (pp_hang x') ts = pending (pp_hang x) ts"
proof -
  let ?r = "fold ref_unset (h_value g) r"
  define x' where "x' = x\<lparr>pp_hang := filter (\<lambda>k. k \<noteq> g) (pp_hang x)\<rparr>"
  define S1 where "S1 = S\<lparr>world := (x, r, tr @ sent check (sys_time S, h_value g))\<rparr>"
  have g: "g \<in> set (pp_hang x)" "distinct (map h_id (pp_hang x))" using assms(1) by (simp_all add: firing_def)
  have rf: "remove_first (\<lambda>k. h_id k = h_id g) (pp_hang x) = pp_hang x'" "find (\<lambda>k. h_id k = h_id g) (pp_hang x) = Some g"
    using remove_first_hang [OF g(2,1)] by (simp_all add: x'_def)
  have "firing g (pp_hang x) S1 ts" using assms(1) by (simp add: S1_def)
  from hang_removed [OF this] obtain S2 where S2: "clock_free (h_clock g) S1 = Some (Inr S2)" "hang_ok (pp_hang x') S2 ts"
      "world S2 = world S1" "sys_quit S2 = sys_quit S1" "pending (pp_hang x') ts = pending (pp_hang x) ts"
    by (auto simp: x'_def)
  have "hang_tick record_out check (h_id g) (x, r, S) = Some (Inr (x', ?r, S2))"
    unfolding hang_tick_def using S2(1) assms(2)
    by (simp add: rf send_cells_record hang_free_def ret_def S1_def sent_def) (simp add: x'_def)
  moreover have "?r p - refs_of x' p = r p - refs_of x p" for p
    using count_refs_remove [OF g(2,1), of "Some p"] by (simp add: refs_of_def x'_def ref_unset_eq count_list_append)
  ultimately show ?thesis using S2
    by (intro exI [of _ x'] exI [of _ ?r] exI [of _ S2]) (simp add: x'_def S1_def)
qed

text \<open>The object hangs its lists on clocks as the scheduler needs it, and keeps the counts of references right.\<close>

definition pipe_keeps :: "pipe_world \<Rightarrow> pipe_world \<Rightarrow> bool" where
  "pipe_keeps v w \<longleftrightarrow> pp_vec (fst w) = pp_vec (fst v) \<and> pp_deltime (fst w) = pp_deltime (fst v) \<and>
     (\<forall>p. fst (snd w) p - refs_of (fst w) p = fst (snd v) p - refs_of (fst v) p)"

lemma pipe_fires:
  assumes "firing g (pp_hang (fst (world S))) S ts"
  shows "let S' = pipe_fn check (h_id g) m S in sys_quit S' = sys_quit S \<and>
    pp_hang (fst (world S')) = filter (\<lambda>k. k \<noteq> g) (pp_hang (fst (world S))) \<and> hang_ok (pp_hang (fst (world S'))) S' ts \<and>
    pending (pp_hang (fst (world S'))) ts = pending (pp_hang (fst (world S))) ts \<and>
    snd (snd (world S')) = snd (snd (world S)) @ sent check (sys_time S, h_value g) \<and> pipe_keeps (world S) (world S')"
proof -
  obtain x r tr where w: "world S = (x, r, tr)" by (metis prod.collapse)
  from hang_tick_fires [OF assms [unfolded w fst_conv] w, of check] obtain x' r' S' where h:
      "hang_tick record_out check (h_id g) (x, r, S) = Some (Inr (x', r', S'))" "hang_ok (pp_hang x') S' ts"
      "sys_quit S' = sys_quit S" "\<forall>p. r' p - refs_of x' p = r p - refs_of x p"
      "world S' = (x, r, tr @ sent check (sys_time S, h_value g))" "pp_vec x' = pp_vec x" "pp_deltime x' = pp_deltime x"
      "pp_hang x' = filter (\<lambda>k. k \<noteq> g) (pp_hang x)" "pending (pp_hang x') ts = pending (pp_hang x) ts"
    by blast
  then show ?thesis by (simp add: pipe_fn_def w Let_def pipe_keeps_def)
qed

interpretation pp: hanging_values "pipe_fn check" "\<lambda>w. pp_hang (fst w)" "\<lambda>w. snd (snd w)" "sent check" pipe_keeps
  by (unfold_locales, rule pipe_fires, assumption) (simp_all add: pipe_keeps_def)

text \<open>\<^bold>\<open>C28\<close>: A pipe keeps what is sent to it until the time is up. A list that comes in is taken into a queue of pending lists sorted by the time at
  which they are due, behind those that are due no later; and a tick of the scheduler puts out just the lists that are due, in the
  order of the queue and each from right to left, and leaves the others. The counts of references to pointers are kept right.\<close>

theorem pipe_is_queue:
  assumes "hang_ok (pp_hang x) S ts" "sys_quit S = 0" "heap S hc = None" "h \<notin> h_id ` set (pp_hang x)"
  shows "\<exists>x1 r1 S1 x2 r2 S2 out ts'. pipe_list h hc av (x, r, S) = Some (Inr (x1, r1, S1)) \<and>
    pp_vec x1 = fst (set_cells (pp_vec x) (take (length (pp_vec x)) av) r) \<and> pp_deltime x1 = list_deltime x av \<and>
    tick_loop (pipe_fn check) (\<lambda>S. S) until k (S1\<lparr>world := (x1, r1, tr)\<rparr>) = Some (Inr (False, S2)) \<and> world S2 = (x2, r2, out) \<and>
    (let now_pending = enter (due_time S (pp_deltime x1)) (pp_vec x1) (pending (pp_hang x) ts) in
     out = tr @ concat (map (sent check) (takeWhile (\<lambda>p. flt (fst p) until) now_pending)) \<and>
     pending (pp_hang x2) ts' = dropWhile (\<lambda>p. flt (fst p) until) now_pending) \<and>
    hang_ok (pp_hang x2) S2 ts' \<and> (\<forall>g. r2 g - refs_of x2 g = r g - refs_of x g)"
proof -
  obtain x1 r1 S1 ts1 where l: "pipe_list h hc av (x, r, S) = Some (Inr (x1, r1, S1))" "hang_ok (pp_hang x1) S1 ts1"
      "sys_quit S1 = sys_quit S" "\<forall>g. r1 g - refs_of x1 g = r g - refs_of x g"
      "pp_vec x1 = fst (set_cells (pp_vec x) (take (length (pp_vec x)) av) r)" "pp_deltime x1 = list_deltime x av"
      "pending (pp_hang x1) ts1 = enter (due_time S (pp_deltime x1)) (pp_vec x1) (pending (pp_hang x) ts)"
    using pipe_list_pending [OF assms(1,3,4), of av r] by blast
  let ?S = "S1\<lparr>world := (x1, r1, tr)\<rparr>"
  have "hang_ok (pp_hang (fst (world ?S))) ?S ts1" "sys_quit ?S = 0" using l(2,3) assms(2) by simp_all
  from pp.tick_loop_emits [OF this, of check until k] obtain S2 ts' where t:
      "tick_loop (pipe_fn check) (\<lambda>S. S) until k ?S = Some (Inr (False, S2))" "hang_ok (pp_hang (fst (world S2))) S2 ts'"
      "pending (pp_hang (fst (world S2))) ts' = dropWhile (\<lambda>p. flt (fst p) until) (pending (pp_hang x1) ts1)"
      "snd (snd (world S2)) = tr @ concat (map (sent check) (takeWhile (\<lambda>p. flt (fst p) until) (pending (pp_hang x1) ts1)))"
      "pipe_keeps (x1, r1, tr) (world S2)"
    by auto
  obtain x2 r2 out where w: "world S2 = (x2, r2, out)" by (metis prod.collapse)
  have "\<forall>g. r2 g - refs_of x2 g = r g - refs_of x g" using t(5) l(4) by (simp add: w pipe_keeps_def)
  then show ?thesis using l(1,5,6) t(1-4) w unfolding l(7) Let_def by (intro exI conjI) (assumption | simp)+
qed

text \<open>
  Clearing takes every list that hangs off the scheduler and gives back its pointers. Where the object is freed, too, no more is
  done: a pointer that the cells of the object hold stays counted.
\<close>

lemma pipe_clear_ok:
  assumes "hang_ok (pp_hang x) S ts"
  shows "\<exists>r' S'. pipe_clear (x, r, S) = Some (Inr (x\<lparr>pp_hang := []\<rparr>, r', S')) \<and> hang_ok ([] :: t_hang list) S' [] \<and>
    world S' = world S \<and> (\<forall>p. r' p = r p - refs_of x p + int (count_list (map cell_ref (pp_vec x)) (Some p)))"
proof -
  have "\<exists>r' S'. clear_hangs gs (x, r, S) = Some (Inr (if gs = [] then x else x\<lparr>pp_hang := []\<rparr>, r', S')) \<and>
      hang_ok ([] :: t_hang list) S' [] \<and> world S' = world S \<and>
      (\<forall>p. r' p = r p - int (count_list (map cell_ref (concat (map h_value gs))) (Some p)))"
    if "hang_ok gs S ts" for gs x r S ts
    using that
  proof (induction gs arbitrary: x r S ts)
    case Nil
    then show ?case by (auto simp: ret_def hang_ok_def)
  next
    case (Cons g gs)
    obtain S1 where S1: "clock_free (h_clock g) S = Some (Inr S1)" "hang_ok gs S1 (agenda_remove (h_clock g) ts)" "world S1 = world S"
      using hang_dropped [OF Cons.prems] by blast
    let ?r = "fold ref_unset (h_value g) r"
    obtain r' S' where IH: "clear_hangs gs (x\<lparr>pp_hang := gs\<rparr>, ?r, S1) = Some (Inr (x\<lparr>pp_hang := []\<rparr>, r', S'))"
        "hang_ok ([] :: t_hang list) S' []" "world S' = world S1"
        "\<forall>p. r' p = ?r p - int (count_list (map cell_ref (concat (map h_value gs))) (Some p))"
      using Cons.IH [OF S1(2), of "x\<lparr>pp_hang := gs\<rparr>" ?r] by (auto split: if_splits)
    have "clear_hangs (g # gs) (x, r, S) = clear_hangs gs (x\<lparr>pp_hang := gs\<rparr>, ?r, S1)"
      using S1(1) by (simp add: hang_free_def ret_def)
    then show ?case using IH S1(3) by (intro exI [of _ r'] exI [of _ S']) (auto simp: ref_unset_eq count_list_append)
  qed
  from this [OF assms, of x r] show ?thesis
    by (cases "pp_hang x = []") (auto simp: pipe_clear_def refs_of_def count_list_append)
qed

lemma pipe_free_leaks:
  "\<exists>r' S'. pipe_free (\<lparr>pp_vec = [PointerCell (Some 3)], pp_deltime = Fin 0, pp_hang = []\<rparr>, (\<lambda>_. 0)(3 := 1), S) =
     Some (Inr (\<lparr>pp_vec = [PointerCell (Some 3)], pp_deltime = Fin 0, pp_hang = []\<rparr>, r', S')) \<and> r' 3 = 1"
  by (simp add: pipe_free_def pipe_clear_def ret_def)

definition demo_pipe :: t_pipe where
  "demo_pipe = \<lparr>pp_vec = [FloatCell (Fin 1), SymbolCell ''a''], pp_deltime = Fin 0,
     pp_hang = [\<lparr>h_id = 10, h_clock = 0, h_value = [FloatCell (Fin 1), SymbolCell ''a'']\<rparr>]\<rparr>"

definition demo_world :: pipe_world where
  "demo_world = (demo_pipe, \<lambda>_. 0, [])"

lemma demo_pipe_hang: "pp_hang demo_pipe = [\<lparr>h_id = 10, h_clock = 0, h_value = [FloatCell (Fin 1), SymbolCell ''a'']\<rparr>]"
  and demo_pipe_vec: "pp_vec demo_pipe = [FloatCell (Fin 1), SymbolCell ''a'']" "pp_deltime demo_pipe = Fin 0"
  by (simp_all add: demo_pipe_def)

theorem pipe_is_queue_witness:
  "\<exists>x1 r1 S1 x2 r2 S2 ts'. pipe_list 11 1 [FLOAT (Fin 7)] (demo_pipe, \<lambda>_. 0, hang_sched demo_world) = Some (Inr (x1, r1, S1)) \<and>
    tick_loop (pipe_fn (\<lambda>_. True)) (\<lambda>S. S) (Fin 6) 5000 (S1\<lparr>world := (x1, r1, [])\<rparr>) = Some (Inr (False, S2)) \<and>
    world S2 = (x2, r2, [(Fin 5, 1, SYMBOL ''a''), (Fin 5, 0, FLOAT (Fin 7))]) \<and>
    pending (pp_hang x2) ts' = [(Fin 1000, [FloatCell (Fin 1), SymbolCell ''a''])]"
proof -
  have ok: "hang_ok (pp_hang demo_pipe) (hang_sched demo_world) [(0, Fin 1000)]"
    by (simp add: demo_pipe_hang hang_sched_ok)
  have h: "11 \<notin> h_id ` set (pp_hang demo_pipe)" by (simp add: demo_pipe_hang)
  obtain x1 r1 S1 x2 r2 S2 out ts' where l:
    "pipe_list 11 1 [FLOAT (Fin 7)] (demo_pipe, \<lambda>_. 0, hang_sched demo_world) = Some (Inr (x1, r1, S1))"
    "pp_vec x1 = fst (set_cells (pp_vec demo_pipe) (take (length (pp_vec demo_pipe)) [FLOAT (Fin 7)]) (\<lambda>_. 0))"
    "pp_deltime x1 = list_deltime demo_pipe [FLOAT (Fin 7)]"
    "tick_loop (pipe_fn (\<lambda>_. True)) (\<lambda>S. S) (Fin 6) 5000 (S1\<lparr>world := (x1, r1, [])\<rparr>) = Some (Inr (False, S2))"
    "world S2 = (x2, r2, out)"
    "let now_pending = enter (due_time (hang_sched demo_world) (pp_deltime x1)) (pp_vec x1)
        (pending (pp_hang demo_pipe) [(0, Fin 1000)]) in
     out = [] @ concat (map (sent (\<lambda>_. True)) (takeWhile (\<lambda>p. flt (fst p) (Fin 6)) now_pending)) \<and>
     pending (pp_hang x2) ts' = dropWhile (\<lambda>p. flt (fst p) (Fin 6)) now_pending"
    using pipe_is_queue [OF ok hang_sched_simps(1,2) h, of "[FLOAT (Fin 7)]" "\<lambda>_. 0" "\<lambda>_. True" "Fin 6" 5000 "[]"] by blast
  have "pp_vec x1 = [FloatCell (Fin 7), SymbolCell ''a'']" "pp_deltime x1 = Fin 0"
    by (simp_all add: l(2,3) demo_pipe_vec list_deltime_def)
  then have "out = [(Fin 5, 1, SYMBOL ''a''), (Fin 5, 0, FLOAT (Fin 7))]"
    "pending (pp_hang x2) ts' = [(Fin 1000, [FloatCell (Fin 1), SymbolCell ''a''])]"
    using l(6) by (simp_all add: demo_pipe_hang hang_sched_now enter_def Let_def sent_def sent_cells_def pending_def [of "[_]"] value_at_def)
  then show ?thesis using l(1,4,5) by blast
qed

end
