(* ===== verification/Makenote.thy ===== *)
theory Makenote
  imports Hang
begin

text \<open>
  The object \<open>makenote\<close> (\<open>x_midi.c\<close>): a number that comes in starts a note, which hangs on a clock and is ended when the clock expires.
  Other than in \<open>pipe\<close>, the messages for the end of a note are sent while it is still in the list.
\<close>

subsection \<open>The object\<close>

text \<open>
  \<open>mk_lost\<close> holds the structures that are allocated and whose clocks are set, but that the list does not reach any more; see
  \<open>stop_note\<close>.
\<close>

record t_makenote =
  mk_velo :: fl
  mk_dur :: fl
  mk_hang :: "fl hang list"
  mk_lost :: "fl hang list"

definition makenote_new :: "fl \<Rightarrow> fl \<Rightarrow> t_makenote" where
  "makenote_new velo dur = \<lparr>mk_velo = velo, mk_dur = dur, mk_hang = [], mk_lost = []\<rparr>"

type_synonym 'w makenote_state = "t_makenote \<times> 'w sched"

type_synonym 'w note_outlet = "fl \<Rightarrow> 'w makenote_state \<Rightarrow> 'w makenote_state cresult option"

text \<open>A structure can be read as long as it is not freed.\<close>

definition live_hang :: "addr \<Rightarrow> t_makenote \<Rightarrow> fl hang cresult" where
  "live_hang h x = (case find (\<lambda>g. h_id g = h) (mk_hang x @ mk_lost x) of None \<Rightarrow> Inl UseAfterFree | Some g \<Rightarrow> Inr g)"

text \<open>What the outlets send may come back to the object and free the note that is being ended.\<close>

definition put_off :: "'w note_outlet \<Rightarrow> 'w note_outlet \<Rightarrow> addr \<Rightarrow> 'w makenote_state \<Rightarrow> 'w makenote_state cresult option" where
  "put_off velout pitchout h st = rbind (velout (Fin 0) st)
     (\<lambda>st1. case live_hang h (fst st1) of Inl e \<Rightarrow> Some (Inl e) | Inr g \<Rightarrow> pitchout (h_value g) st1)"

definition makenote_tick :: "'w note_outlet \<Rightarrow> 'w note_outlet \<Rightarrow> addr \<Rightarrow> 'w makenote_state \<Rightarrow> 'w makenote_state cresult option" where
  "makenote_tick velout pitchout h st =
     rbind (put_off velout pitchout h st) (\<lambda>(x, S).
       case unlink_hang h (mk_hang x) of
         Inl e \<Rightarrow> Some (Inl e)
       | Inr gs \<Rightarrow> (case live_hang h x of
            Inl e \<Rightarrow> Some (Inl e)
          | Inr g \<Rightarrow> rbind (clock_free (h_clock g) S) (\<lambda>S'.
              ret (x\<lparr>mk_hang := gs, mk_lost := remove_first (\<lambda>g. h_id g = h) (mk_lost x)\<rparr>, S'))))"

definition MAKENOTE_TICK :: nat where "MAKENOTE_TICK = 8"

text \<open>The addresses of the hang and of its clock are given.\<close>

definition makenote_float ::
    "'w note_outlet \<Rightarrow> 'w note_outlet \<Rightarrow> addr \<Rightarrow> addr \<Rightarrow> fl \<Rightarrow> 'w makenote_state \<Rightarrow> 'w makenote_state cresult option" where
  "makenote_float velout pitchout h hc f st =
     (if fzero (mk_velo (fst st)) then ret st
      else rbind (velout (mk_velo (fst st)) st) (\<lambda>st1. rbind (pitchout f st1) (\<lambda>(x, S).
        rbind (clock_delay hc (if fle (Fin 0) (mk_dur x) then mk_dur x else Fin 0) (clock_new hc h MAKENOTE_TICK S))
          (\<lambda>S'. ret (x\<lparr>mk_hang := \<lparr>h_id = h, h_clock = hc, h_value = f\<rparr> # mk_hang x\<rparr>, S')))))"

text \<open>
  \<open>stop\<close> takes the notes from the front of the list. The list goes on with the note behind the one that was ended: notes that
  the outlets made meanwhile stand before it and are lost.
\<close>

definition stop_note :: "'w note_outlet \<Rightarrow> 'w note_outlet \<Rightarrow> addr \<Rightarrow> 'w makenote_state \<Rightarrow> 'w makenote_state cresult option" where
  "stop_note velout pitchout h st = rbind (put_off velout pitchout h st) (\<lambda>(x, S).
     case dropWhile (\<lambda>g. h_id g \<noteq> h) (mk_hang x) of
       [] \<Rightarrow> Some (Inl UseAfterFree)
     | g # gs \<Rightarrow> rbind (clock_free (h_clock g) S) (\<lambda>S'.
         ret (x\<lparr>mk_hang := gs, mk_lost := takeWhile (\<lambda>g. h_id g \<noteq> h) (mk_hang x) @ mk_lost x\<rparr>, S')))"

partial_function (option) makenote_stop ::
    "'w note_outlet \<Rightarrow> 'w note_outlet \<Rightarrow> 'w makenote_state \<Rightarrow> 'w makenote_state cresult option" where
  "makenote_stop velout pitchout st = (case mk_hang (fst st) of
      [] \<Rightarrow> Some (Inr st)
    | g # gs \<Rightarrow> (case stop_note velout pitchout (h_id g) st of
         None \<Rightarrow> None | Some (Inl e) \<Rightarrow> Some (Inl e) | Some (Inr st') \<Rightarrow> makenote_stop velout pitchout st'))"

fun clear_notes :: "fl hang list \<Rightarrow> 'w makenote_state \<Rightarrow> 'w makenote_state cresult option" where
  "clear_notes [] st = ret st"
| "clear_notes (g # gs) st = rbind (clock_free (h_clock g) (snd st)) (\<lambda>S'. clear_notes gs ((fst st)\<lparr>mk_hang := gs\<rparr>, S'))"

definition makenote_clear :: "'w makenote_state \<Rightarrow> 'w makenote_state cresult option" where
  "makenote_clear st = clear_notes (mk_hang (fst st)) st"

text \<open>
  Where the end of a note makes the object forget its notes, the tick goes on with a list that is empty. Where it starts a new note while
  the notes are stopped, this note is lost, and the list may be empty when its time is up.
\<close>

lemma clear_from_tick:
  assumes "hang_ok (mk_hang x) S ts" "mk_hang x = [g]"
  shows "makenote_tick (\<lambda>v. ret) (\<lambda>p. makenote_clear) (h_id g) (x, S) = Some (Inl NullDeref)"
proof -
  obtain S' where "clock_free (h_clock g) S = Some (Inr S')" using hang_dropped assms by metis
  then show ?thesis
    using assms(2) by (simp add: makenote_tick_def put_off_def live_hang_def ret_def makenote_clear_def unlink_hang_def)
qed

lemma note_from_stop:
  assumes "hang_ok (mk_hang x) S ts" "mk_hang x = [g]" "h_id n \<noteq> h_id g" "mk_lost x = []"
  shows "\<exists>S'. stop_note (\<lambda>v. ret) (\<lambda>p (x, S). ret (x\<lparr>mk_hang := n # mk_hang x\<rparr>, S)) (h_id g) (x, S) =
      Some (Inr (x\<lparr>mk_hang := [], mk_lost := [n]\<rparr>, S')) \<and>
    makenote_tick (\<lambda>v. ret) (\<lambda>p. ret) (h_id n) (x\<lparr>mk_hang := [], mk_lost := [n]\<rparr>, S') = Some (Inl NullDeref)"
proof -
  obtain S' where "clock_free (h_clock g) S = Some (Inr S')" using hang_dropped assms(1,2) by metis
  then show ?thesis
    using assms(2-4) by (simp add: stop_note_def makenote_tick_def put_off_def live_hang_def ret_def unlink_hang_def)
qed

subsection \<open>A receiver\<close>

text \<open>
  The outlets are connected as they usually are, to an object such as \<open>noteout\<close>: the velocity goes to an inlet that keeps it, and the
  pitch makes a note of it. The world holds the object, the velocity and the notes, each with its time, pitch and velocity.
\<close>

type_synonym note_world = "t_makenote \<times> fl \<times> (fl \<times> fl \<times> fl) list"

definition keep_velo :: "note_world note_outlet" where
  "keep_velo v st = ret (fst st, (snd st)\<lparr>world := (fst (world (snd st)), v, snd (snd (world (snd st))))\<rparr>)"

definition play_pitch :: "note_world note_outlet" where
  "play_pitch p st = (let w = world (snd st) in
     ret (fst st, (snd st)\<lparr>world := (fst w, fst (snd w), snd (snd w) @ [(sys_time (snd st), p, fst (snd w))])\<rparr>))"

definition note_fn :: "addr \<Rightarrow> nat \<Rightarrow> note_world sched \<Rightarrow> note_world sched" where
  "note_fn h m S = (case makenote_tick keep_velo play_pitch h (fst (world S), S) of
      Some (Inr (x', S')) \<Rightarrow> S'\<lparr>world := (x', snd (world S'))\<rparr>
    | _ \<Rightarrow> S)"

definition note_off :: "fl \<times> fl \<Rightarrow> (fl \<times> fl \<times> fl) list" where
  "note_off tp = [(fst tp, snd tp, Fin 0)]"

definition note_keeps :: "note_world \<Rightarrow> note_world \<Rightarrow> bool" where
  "note_keeps v w \<longleftrightarrow> mk_velo (fst w) = mk_velo (fst v) \<and> mk_dur (fst w) = mk_dur (fst v)"

lemma find_in_first: "find P xs = Some g \<Longrightarrow> find P (xs @ ys) = Some g"
  by (induction xs) (auto split: if_splits)

lemma put_off_played:
  assumes "live_hang h x = Inr g"
  shows "put_off keep_velo play_pitch h (x, S) = ret (x,
    S\<lparr>world := (fst (world S), Fin 0, snd (snd (world S)) @ note_off (sys_time S, h_value g))\<rparr>)"
  using assms by (simp add: put_off_def keep_velo_def play_pitch_def ret_def note_off_def Let_def)

lemma note_fires:
  assumes "firing g (mk_hang (fst (world S))) S ts"
  shows "let S' = note_fn (h_id g) m S in sys_quit S' = sys_quit S \<and>
    mk_hang (fst (world S')) = filter (\<lambda>k. k \<noteq> g) (mk_hang (fst (world S))) \<and> hang_ok (mk_hang (fst (world S'))) S' ts \<and>
    pending (mk_hang (fst (world S'))) ts = pending (mk_hang (fst (world S))) ts \<and>
    snd (snd (world S')) = snd (snd (world S)) @ note_off (sys_time S, h_value g) \<and> note_keeps (world S) (world S')"
proof -
  obtain x v tr where w: "world S = (x, v, tr)" by (metis prod.collapse)
  let ?S = "S\<lparr>world := (x, Fin 0, tr @ note_off (sys_time S, h_value g))\<rparr>"
  have f: "firing g (mk_hang x) ?S ts" using assms by (simp add: w)
  have live: "live_hang (h_id g) x = Inr g"
    using firing_found [OF f] by (simp add: live_hang_def find_in_first)
  obtain S' where S': "clock_free (h_clock g) ?S = Some (Inr S')" "hang_ok (filter (\<lambda>k. k \<noteq> g) (mk_hang x)) S' ts"
      "world S' = world ?S" "sys_quit S' = sys_quit ?S" "pending (filter (\<lambda>k. k \<noteq> g) (mk_hang x)) ts = pending (mk_hang x) ts"
    using hang_removed [OF f] by blast
  have "makenote_tick keep_velo play_pitch (h_id g) (x, S) = Some (Inr (x\<lparr>mk_hang := filter (\<lambda>k. k \<noteq> g) (mk_hang x),
      mk_lost := remove_first (\<lambda>k. h_id k = h_id g) (mk_lost x)\<rparr>, S'))"
    using S'(1) by (simp add: makenote_tick_def put_off_played [OF live] w ret_def firing_unlink [OF f] live)
  then show ?thesis using S' by (simp add: note_fn_def w Let_def note_keeps_def)
qed

interpretation mk: hanging_values note_fn "\<lambda>w. mk_hang (fst w)" "\<lambda>w. snd (snd w)" note_off note_keeps
  by (unfold_locales, rule note_fires, assumption) (simp_all add: note_keeps_def)

subsection \<open>No note is stuck\<close>

text \<open>
  What happens to an object: its inlets are set, a note is played, the notes are stopped, time passes. (The message \<open>clear\<close> is there to
  forget the notes and is left out.)
\<close>

inductive note_step :: "note_world sched \<Rightarrow> note_world sched \<Rightarrow> bool" where
  velo: "note_step S (S\<lparr>world := ((fst (world S))\<lparr>mk_velo := v\<rparr>, snd (world S))\<rparr>)"
| dur: "note_step S (S\<lparr>world := ((fst (world S))\<lparr>mk_dur := d\<rparr>, snd (world S))\<rparr>)"
| play: "makenote_float keep_velo play_pitch h hc f (fst (world S), S) = Some (Inr (x', S')) \<Longrightarrow>
    heap S hc = None \<Longrightarrow> h \<notin> h_id ` set (mk_hang (fst (world S))) \<Longrightarrow> note_step S (S'\<lparr>world := (x', snd (world S'))\<rparr>)"
| stop: "makenote_stop keep_velo play_pitch (fst (world S), S) = Some (Inr (x', S')) \<Longrightarrow>
    note_step S (S'\<lparr>world := (x', snd (world S'))\<rparr>)"
| tick: "tick_loop note_fn (\<lambda>S. S) until k S = Some (Inr (False, S')) \<Longrightarrow> note_step S S'"

definition ons :: "(fl \<times> fl \<times> fl) list \<Rightarrow> fl multiset" where
  "ons tr = mset (map (\<lambda>(t, p, v). p) (filter (\<lambda>(t, p, v). \<not> fzero v) tr))"

definition offs :: "(fl \<times> fl \<times> fl) list \<Rightarrow> fl multiset" where
  "offs tr = mset (map (\<lambda>(t, p, v). p) (filter (\<lambda>(t, p, v). fzero v) tr))"

definition balanced :: "note_world sched \<Rightarrow> agenda \<Rightarrow> bool" where
  "balanced S ts \<longleftrightarrow> (case world S of (x, v, tr) \<Rightarrow> hang_ok (mk_hang x) S ts \<and> sys_quit S = 0 \<and>
     ons tr = offs tr + mset (map snd (pending (mk_hang x) ts)))"

lemma ons_offs_append [simp]: "ons (tr @ us) = ons tr + ons us" "offs (tr @ us) = offs tr + offs us"
  by (simp_all add: ons_def offs_def)

lemma ons_offs_played:
  "ons (concat (map note_off tps)) = {#}" "offs (concat (map note_off tps)) = mset (map snd tps)"
  by (induction tps) (auto simp: ons_def offs_def note_off_def fzero_def)

lemma enter_values: "mset (map snd (enter t v ps)) = add_mset v (mset (map snd ps))"
proof -
  have "mset (map snd ps) = mset (map snd (takeWhile (\<lambda>p. fle (fst p) t) ps)) + mset (map snd (dropWhile (\<lambda>p. fle (fst p) t) ps))"
    by (metis takeWhile_dropWhile_id map_append mset_append)
  then show ?thesis by (simp add: enter_def)
qed

lemma due_time_world [simp]: "due_time (S\<lparr>world := w\<rparr>) d = due_time S d"
  by (simp add: due_time_def expiry_def clamp_time_def clock_getsystimeafter_def)

lemma play_balanced:
  assumes "balanced S ts" "heap S hc = None" "h \<notin> h_id ` set (mk_hang (fst (world S)))"
  shows "\<exists>x' S'. makenote_float keep_velo play_pitch h hc f (fst (world S), S) = Some (Inr (x', S')) \<and>
    (\<exists>ts'. balanced (S'\<lparr>world := (x', snd (world S'))\<rparr>) ts' \<and> pending (mk_hang x') ts' =
      (let x = fst (world S); ps = pending (mk_hang x) ts in if fzero (mk_velo x) then ps else enter (due_time S (mk_dur x)) f ps)) \<and>
    snd (snd (world S')) = snd (snd (world S)) @
      (if fzero (mk_velo (fst (world S))) then [] else [(sys_time S, f, mk_velo (fst (world S)))])"
proof -
  obtain x v tr where w: "world S = (x, v, tr)" by (metis prod.collapse)
  have b: "hang_ok (mk_hang x) S ts" "sys_quit S = 0" "ons tr = offs tr + mset (map snd (pending (mk_hang x) ts))"
    using assms(1) by (simp_all add: balanced_def w)
  show ?thesis
  proof (cases "fzero (mk_velo x)")
    case True
    then have "makenote_float keep_velo play_pitch h hc f (x, S) = Some (Inr (x, S))" by (simp add: makenote_float_def ret_def)
    moreover have "S\<lparr>world := (x, v, tr)\<rparr> = S" unfolding w [symmetric] by simp
    then have "balanced (S\<lparr>world := (x, v, tr)\<rparr>) ts" using assms(1) by (simp only:)
    ultimately show ?thesis using assms(1) True by (auto simp: w Let_def intro!: exI [of _ ts])
  next
    case False
    define S1 where "S1 = S\<lparr>world := (x, mk_velo x, tr @ [(sys_time S, f, mk_velo x)])\<rparr>"
    let ?x' = "x\<lparr>mk_hang := \<lparr>h_id = h, h_clock = hc, h_value = f\<rparr> # mk_hang x\<rparr>"
    have "hang_ok (mk_hang x) S1 ts" "heap S1 hc = None" "h \<notin> h_id ` set (mk_hang x)"
      using b(1) assms(2,3) by (simp_all add: S1_def w)
    from hang_added [OF this, of "mk_dur x" MAKENOTE_TICK f] obtain S' ts' where S':
        "clock_delay hc (if fle (Fin 0) (mk_dur x) then mk_dur x else Fin 0) (clock_new hc h MAKENOTE_TICK S1) = Some (Inr S')"
        "hang_ok (mk_hang ?x') S' ts'" "world S' = world S1" "sys_quit S' = sys_quit S1"
        "pending (mk_hang ?x') ts' = enter (due_time S1 (mk_dur x)) f (pending (mk_hang x) ts)" by auto
    have "makenote_float keep_velo play_pitch h hc f (x, S) = Some (Inr (?x', S'))"
      using False S'(1) by (simp add: makenote_float_def keep_velo_def play_pitch_def ret_def Let_def w S1_def split del: if_split cong: if_cong)
    moreover have "ons [(sys_time S, f, mk_velo x)] = {#f#}" "offs [(sys_time S, f, mk_velo x)] = {#}"
      using False by (simp_all add: ons_def offs_def)
    then have "balanced (S'\<lparr>world := (?x', snd (world S'))\<rparr>) ts'"
      using S'(2-5) b(2,3) by (simp add: balanced_def S1_def enter_values [unfolded mset_map])
    moreover have "snd (snd (world S')) = tr @ [(sys_time S, f, mk_velo x)]" using S'(3) by (simp add: S1_def)
    moreover have "pending (mk_hang ?x') ts' = enter (due_time S (mk_dur x)) f (pending (mk_hang x) ts)" using S'(5) by (simp add: S1_def)
    ultimately show ?thesis using False by (auto simp: w Let_def)
  qed
qed

lemma stop_balanced:
  assumes "balanced S ts"
  shows "\<exists>x' S'. makenote_stop keep_velo play_pitch (fst (world S), S) = Some (Inr (x', S')) \<and>
    balanced (S'\<lparr>world := (x', snd (world S'))\<rparr>) [] \<and> mk_hang x' = [] \<and> ons (snd (snd (world S'))) = offs (snd (snd (world S')))"
proof -
  have "\<exists>x' S'. makenote_stop keep_velo play_pitch (x, S) = Some (Inr (x', S')) \<and> hang_ok (mk_hang x') S' [] \<and> mk_hang x' = [] \<and>
      sys_quit S' = sys_quit S \<and> snd (snd (world S')) = snd (snd (world S)) @ concat (map note_off (map (\<lambda>g. (sys_time S, h_value g)) (mk_hang x)))"
    if "hang_ok (mk_hang x) S ts" for x S ts
    using that
  proof (induction "mk_hang x" arbitrary: x S ts)
    case Nil
    then have "makenote_stop keep_velo play_pitch (x, S) = Some (Inr (x, S))" by (subst makenote_stop.simps) simp
    moreover have "ts = []" using Nil by (simp add: hang_ok_def)
    ultimately show ?case using Nil by auto
  next
    case (Cons g gs)
    let ?S = "S\<lparr>world := (fst (world S), Fin 0, snd (snd (world S)) @ note_off (sys_time S, h_value g))\<rparr>"
    have live: "live_hang (h_id g) x = Inr g" by (simp add: live_hang_def Cons(2) [symmetric])
    have "hang_ok (g # gs) ?S ts" using Cons(2,3) by simp
    from hang_dropped [OF this] obtain S1 where S1: "clock_free (h_clock g) ?S = Some (Inr S1)"
        "hang_ok gs S1 (agenda_remove (h_clock g) ts)" "sys_time S1 = sys_time S" "world S1 = world ?S" "sys_quit S1 = sys_quit S" by auto
    let ?x = "x\<lparr>mk_hang := gs\<rparr>"
    have "stop_note keep_velo play_pitch (h_id g) (x, S) = Some (Inr (?x, S1))"
      using S1(1) by (simp add: stop_note_def put_off_played [OF live] ret_def Cons(2) [symmetric])
    then have step: "makenote_stop keep_velo play_pitch (x, S) = makenote_stop keep_velo play_pitch (?x, S1)"
      by (subst makenote_stop.simps) (simp add: Cons(2) [symmetric])
    have "gs = mk_hang ?x" "hang_ok (mk_hang ?x) S1 (agenda_remove (h_clock g) ts)" using S1(2) by simp_all
    from Cons(1) [OF this] show ?case using S1(3-5) step Cons(2) [symmetric] by auto
  qed
  moreover obtain x v tr where w: "world S = (x, v, tr)" by (metis prod.collapse)
  moreover have b: "hang_ok (mk_hang x) S ts" "sys_quit S = 0" "ons tr = offs tr + mset (map snd (pending (mk_hang x) ts))"
    using assms by (simp_all add: balanced_def w)
  ultimately obtain x' S' where x': "makenote_stop keep_velo play_pitch (x, S) = Some (Inr (x', S'))" "hang_ok (mk_hang x') S' []"
      "mk_hang x' = []" "sys_quit S' = sys_quit S" "snd (snd (world S')) = tr @ concat (map note_off (map (\<lambda>g. (sys_time S, h_value g)) (mk_hang x)))"
    by fastforce
  have "ons (snd (snd (world S'))) = offs (snd (snd (world S')))"
    unfolding x'(5) ons_offs_append ons_offs_played using b(3) pending_values [OF b(1)] by (simp add: o_def)
  then show ?thesis using x' b(2) by (cases "world S'") (auto simp: w balanced_def pending_def)
qed

lemma tick_balanced:
  assumes "balanced S ts"
  shows "\<exists>S' ts'. tick_loop note_fn (\<lambda>S. S) until k S = Some (Inr (False, S')) \<and> balanced S' ts' \<and>
    pending (mk_hang (fst (world S'))) ts' = dropWhile (\<lambda>p. flt (fst p) until) (pending (mk_hang (fst (world S))) ts) \<and>
    snd (snd (world S')) = snd (snd (world S)) @ concat (map note_off (takeWhile (\<lambda>p. flt (fst p) until) (pending (mk_hang (fst (world S))) ts)))"
proof -
  obtain x v tr where w: "world S = (x, v, tr)" by (metis prod.collapse)
  have b: "hang_ok (mk_hang x) S ts" "sys_quit S = 0" "ons tr = offs tr + mset (map snd (pending (mk_hang x) ts))"
    using assms by (simp_all add: balanced_def w)
  let ?ps = "pending (mk_hang x) ts" and ?early = "\<lambda>p. flt (fst p) until"
  obtain S' ts' where t: "tick_loop note_fn (\<lambda>S. S) until k S = Some (Inr (False, S'))" "hang_ok (mk_hang (fst (world S'))) S' ts'"
      "sys_quit S' = 0" "pending (mk_hang (fst (world S'))) ts' = dropWhile ?early ?ps"
      "snd (snd (world S')) = tr @ concat (map note_off (takeWhile ?early ?ps))"
    using mk.tick_loop_emits [of S ts until k] b(1,2) by (auto simp: w)
  have "mset (map snd ?ps) = mset (map snd (takeWhile ?early ?ps)) + mset (map snd (dropWhile ?early ?ps))"
    by (metis takeWhile_dropWhile_id map_append mset_append)
  then have "balanced S' ts'" using t b(3) by (simp add: balanced_def split_def ons_offs_played)
  then show ?thesis using t(1,4,5) by (auto simp: w)
qed

lemma note_step_balanced: "note_step S S' \<Longrightarrow> balanced S ts \<Longrightarrow> \<exists>ts'. balanced S' ts'"
proof (induction rule: note_step.induct)
  case (velo S v)
  then show ?case by (auto simp: balanced_def split: prod.splits)
next
  case (dur S d)
  then show ?case by (auto simp: balanced_def split: prod.splits)
next
  case (play h hc f S x' S')
  then show ?case using play_balanced [of S ts hc h f] by auto
next
  case (stop S x' S')
  then show ?case using stop_balanced [of S ts] by auto
next
  case (tick until k S S')
  then show ?case using tick_balanced [of S ts until k] by auto
qed

definition note_start :: "fl \<Rightarrow> fl \<Rightarrow> fl \<Rightarrow> note_world sched" where
  "note_start now velo dur = \<lparr>heap = (\<lambda>_. None), clock_setlist = None, sys_time = now, sys_quit = 0, sched_diddsp = 0, outlet_eventno = 0,
     world = (makenote_new velo dur, Fin 0, [])\<rparr>"

lemma reached_balanced:
  assumes "note_step\<^sup>*\<^sup>* (note_start now velo dur) S" "fle (Fin 0) now"
  shows "\<exists>ts. balanced S ts"
  using assms(1)
proof (induction rule: rtranclp_induct)
  case base
  have "balanced (note_start now velo dur) []"
    using assms(2) by (simp add: balanced_def note_start_def makenote_new_def hang_ok_def agenda_of_def agenda_sorted_def ons_def offs_def pending_def)
  then show ?case ..
qed (use note_step_balanced in blast)

text \<open>\<^bold>\<open>C29\<close>: A makenote leaves no note stuck, whatever was played with whatever velocities and durations (the message \<open>clear\<close> apart, which is there to
  forget notes). At any time every note that hangs has a clock of its own, which is set and linked in the list of the scheduler; \<open>ts\<close> are the clocks of this list with
  their times, in order. The notes that were started are those that were ended and those that hang. When a note is
  played with a velocity other than zero, it joins those that hang, due after the duration. A run of the clock loop ends just those
  notes that are due before the end of the tick, in the order of their times and each at its time, and leaves the others, and \<open>stop\<close>
  ends them all. The scheduler has no other clocks than those of the object, and the outlets lead to a receiver that does not send back.\<close>

theorem makenote_no_stuck_notes:
  assumes "note_step\<^sup>*\<^sup>* (note_start now velo dur) S" "fle (Fin 0) now"
  shows "\<exists>ts. (let x = fst (world S); ps = pending (mk_hang x) ts; notes = (\<lambda>S. snd (snd (world S))) in
    hang_ok (mk_hang x) S ts \<and> ons (notes S) = offs (notes S) + mset (map snd ps) \<and>
    (\<forall>h hc f. heap S hc = None \<longrightarrow> h \<notin> h_id ` set (mk_hang x) \<longrightarrow> (\<exists>x' S' ts'.
      makenote_float keep_velo play_pitch h hc f (x, S) = Some (Inr (x', S')) \<and> hang_ok (mk_hang x') S' ts' \<and>
      pending (mk_hang x') ts' = (if fzero (mk_velo x) then ps else enter (due_time S (mk_dur x)) f ps))) \<and>
    (\<forall>until k. \<exists>S' ts'. tick_loop note_fn (\<lambda>S. S) until k S = Some (Inr (False, S')) \<and> hang_ok (mk_hang (fst (world S'))) S' ts' \<and>
      pending (mk_hang (fst (world S'))) ts' = dropWhile (\<lambda>p. flt (fst p) until) ps \<and>
      notes S' = notes S @ concat (map note_off (takeWhile (\<lambda>p. flt (fst p) until) ps))) \<and>
    (\<exists>x' S'. makenote_stop keep_velo play_pitch (x, S) = Some (Inr (x', S')) \<and> mk_hang x' = [] \<and> ons (notes S') = offs (notes S')))"
proof -
  obtain ts where b: "balanced S ts" using reached_balanced [OF assms] by blast
  let ?x = "fst (world S)"
  let ?ps = "pending (mk_hang ?x) ts"
  have ok: "hang_ok (mk_hang ?x) S ts" "ons (snd (snd (world S))) = offs (snd (snd (world S))) + mset (map snd ?ps)"
    using b by (simp_all add: balanced_def split_def)
  have "\<exists>x' S' ts'. makenote_float keep_velo play_pitch h hc f (?x, S) = Some (Inr (x', S')) \<and> hang_ok (mk_hang x') S' ts' \<and>
      pending (mk_hang x') ts' = (if fzero (mk_velo ?x) then ?ps else enter (due_time S (mk_dur ?x)) f ?ps)"
    if new: "heap S hc = None" "h \<notin> h_id ` set (mk_hang ?x)" for h hc f
  proof -
    obtain x' S' ts' where p: "makenote_float keep_velo play_pitch h hc f (?x, S) = Some (Inr (x', S'))"
        "balanced (S'\<lparr>world := (x', snd (world S'))\<rparr>) ts'"
        "pending (mk_hang x') ts' = (if fzero (mk_velo ?x) then ?ps else enter (due_time S (mk_dur ?x)) f ?ps)"
      using play_balanced [OF b new, of f] unfolding Let_def by blast
    then have "hang_ok (mk_hang x') S' ts'" by (cases "world S'") (simp add: balanced_def)
    with p show ?thesis by blast
  qed
  moreover have "\<exists>S' ts'. tick_loop note_fn (\<lambda>S. S) until k S = Some (Inr (False, S')) \<and> hang_ok (mk_hang (fst (world S'))) S' ts' \<and>
      pending (mk_hang (fst (world S'))) ts' = dropWhile (\<lambda>p. flt (fst p) until) ?ps \<and>
      snd (snd (world S')) = snd (snd (world S)) @ concat (map note_off (takeWhile (\<lambda>p. flt (fst p) until) ?ps))" for until k
  proof -
    obtain S' ts' where t: "tick_loop note_fn (\<lambda>S. S) until k S = Some (Inr (False, S'))" "balanced S' ts'"
        "pending (mk_hang (fst (world S'))) ts' = dropWhile (\<lambda>p. flt (fst p) until) ?ps"
        "snd (snd (world S')) = snd (snd (world S)) @ concat (map note_off (takeWhile (\<lambda>p. flt (fst p) until) ?ps))"
      using tick_balanced [OF b] by blast
    have "hang_ok (mk_hang (fst (world S'))) S' ts'" using t(2) by (simp add: balanced_def split_def)
    with t show ?thesis by blast
  qed
  ultimately show ?thesis using ok stop_balanced [OF b] unfolding Let_def by (intro exI [of _ ts]) blast
qed

theorem makenote_no_stuck_notes_witness:
  "\<exists>S ts x' S'. note_step\<^sup>*\<^sup>* (note_start (Fin 0) (Fin 80) (Fin 10)) S \<and> hang_ok (mk_hang (fst (world S))) S ts \<and> ons (snd (snd (world S))) = {#Fin 60#} \<and>
    mset (map snd (pending (mk_hang (fst (world S))) ts)) = {#Fin 60#} \<and>
    makenote_stop keep_velo play_pitch (fst (world S), S) = Some (Inr (x', S')) \<and> offs (snd (snd (world S'))) = ons (snd (snd (world S')))"
proof -
  let ?S = "note_start (Fin 0) (Fin 80) (Fin 10)"
  have start: "balanced ?S []"
    by (simp add: balanced_def note_start_def makenote_new_def hang_ok_def agenda_of_def agenda_sorted_def ons_def offs_def pending_def)
  have new: "heap ?S 1 = None" "10 \<notin> h_id ` set (mk_hang (fst (world ?S)))" by (simp_all add: note_start_def makenote_new_def)
  obtain x' S' where p: "makenote_float keep_velo play_pitch 10 1 (Fin 60) (fst (world ?S), ?S) = Some (Inr (x', S'))"
      "snd (snd (world S')) = [(Fin 0, Fin 60, Fin 80)]"
    using play_balanced [OF start new, of "Fin 60"] by (auto simp: note_start_def makenote_new_def fzero_def)
  let ?S1 = "S'\<lparr>world := (x', snd (world S'))\<rparr>"
  have r: "note_step\<^sup>*\<^sup>* ?S ?S1" using note_step.play [OF p(1) new] by (rule r_into_rtranclp)
  have "ons (snd (snd (world ?S1))) = {#Fin 60#}" "offs (snd (snd (world ?S1))) = {#}"
    using p(2) by (simp_all add: ons_def offs_def fzero_def)
  then show ?thesis using makenote_no_stuck_notes [OF r] r by (fastforce simp: Let_def)
qed

end
