(* ===== verification/Poly.thy ===== *)
theory Poly
  imports XTime
begin

text \<open>
  Objects that keep track of notes (\<open>x_midi.c\<close>): \<open>poly\<close> gives every note a voice, \<open>bag\<close> remembers the notes that sound,
  \<open>stripnote\<close> drops the ends of notes.
\<close>

subsection \<open>poly\<close>

record t_voice =
  v_pitch :: fl
  v_used :: bool
  v_serial :: "64 word"

record t_poly =
  x_vec :: "t_voice list"
  x_vel :: fl
  x_serial :: "64 word"
  x_steal :: bool

definition poly_new :: "fl \<Rightarrow> fl \<Rightarrow> t_poly" where
  "poly_new fnvoice fsteal = (let n = int_of_fl fnvoice in
     \<lparr>x_vec = replicate (nat (if n < 1 then 1 else n)) \<lparr>v_pitch = Fin 0, v_used = False, v_serial = 0\<rparr>,
      x_vel = Fin 0, x_serial = 0, x_steal = \<not> fzero fsteal\<rparr>)"

text \<open>
  The loop that looks for the voice that sounds longest and for the one that is free longest. The variables for the least serial
  number are of the type \<open>unsigned int\<close>, other than the serial numbers.
\<close>

fun poly_scan :: "nat \<Rightarrow> t_voice list \<Rightarrow> nat option \<times> 32 word \<times> nat option \<times> 32 word \<Rightarrow> nat option \<times> 32 word \<times> nat option \<times> 32 word" where
  "poly_scan i [] acc = acc"
| "poly_scan i (v # vs) (firston, serialon, firstoff, serialoff) =
     poly_scan (Suc i) vs
       (if v_used v \<and> v_serial v < ucast serialon then (Some i, ucast (v_serial v), firstoff, serialoff)
        else if \<not> v_used v \<and> v_serial v < ucast serialoff then (firston, serialon, Some i, ucast (v_serial v))
        else (firston, serialon, firstoff, serialoff))"

fun poly_match :: "fl \<Rightarrow> nat \<Rightarrow> t_voice list \<Rightarrow> nat option \<times> 32 word \<Rightarrow> nat option \<times> 32 word" where
  "poly_match f i [] acc = acc"
| "poly_match f i (v # vs) (firston, serialon) =
     poly_match f (Suc i) vs
       (if v_used v \<and> feq (v_pitch v) f \<and> v_serial v < ucast serialon then (Some i, ucast (v_serial v)) else (firston, serialon))"

text \<open>What comes out of the three outlets.\<close>

datatype poly_out = Voice nat | Pitch fl | Velo fl

type_synonym 'w poly_outlet = "poly_out \<Rightarrow> t_poly \<times> 'w \<Rightarrow> (t_poly \<times> 'w) cresult option"

definition set_voice :: "nat \<Rightarrow> (t_voice \<Rightarrow> t_voice) \<Rightarrow> t_poly \<Rightarrow> t_poly" where
  "set_voice i f x = x\<lparr>x_vec := (x_vec x)[i := f (x_vec x ! i)]\<rparr>"

text \<open>\<open>v->v_serial = x->x_serial++\<close>\<close>

definition stamp :: "nat \<Rightarrow> t_poly \<Rightarrow> t_poly" where
  "stamp i x = set_voice i (\<lambda>v. v\<lparr>v_serial := x_serial x\<rparr>) (x\<lparr>x_serial := x_serial x + 1\<rparr>)"

text \<open>The messages for the end of a note; the pitch is read after the first of them is sent.\<close>

definition put_end :: "'w poly_outlet \<Rightarrow> nat \<Rightarrow> t_poly \<times> 'w \<Rightarrow> (t_poly \<times> 'w) cresult option" where
  "put_end outlet i st =
     rbind (outlet (Velo (Fin 0)) st) (\<lambda>(x, w).
     rbind (outlet (Pitch (v_pitch (x_vec x ! i))) (x, w)) (outlet (Voice (i + 1))))"

definition poly_start :: "'w poly_outlet \<Rightarrow> fl \<Rightarrow> nat \<Rightarrow> t_poly \<times> 'w \<Rightarrow> (t_poly \<times> 'w) cresult option" where
  "poly_start outlet f i st =
     rbind (outlet (Velo (x_vel (fst st))) st) (\<lambda>(x, w).
     rbind (outlet (Pitch f) (set_voice i (\<lambda>v. v\<lparr>v_pitch := f\<rparr>) x, w)) (\<lambda>st.
     rbind (outlet (Voice (i + 1)) st) ret))"

definition poly_float :: "'w poly_outlet \<Rightarrow> fl \<Rightarrow> t_poly \<times> 'w \<Rightarrow> (t_poly \<times> 'w) cresult option" where
  "poly_float outlet f st = (let x = fst st in
     if flt (Fin 0) (x_vel x) then
       (case poly_scan 0 (x_vec x) (None, 0xffffffff, None, 0xffffffff) of
          (firston, _, Some i, _) \<Rightarrow>
            rbind (poly_start outlet f i st) (\<lambda>(x, w). ret (stamp i (set_voice i (\<lambda>v. v\<lparr>v_used := True\<rparr>) x), w))
        | (Some i, _, None, _) \<Rightarrow>
            (if x_steal x then
               rbind (put_end outlet i st) (\<lambda>st. rbind (poly_start outlet f i st) (\<lambda>(x, w). ret (stamp i x, w)))
             else ret st)
        | (None, _, None, _) \<Rightarrow> ret st)
     else
       (case poly_match f 0 (x_vec x) (None, 0xffffffff) of
          (Some i, _) \<Rightarrow> put_end outlet i (stamp i (set_voice i (\<lambda>v. v\<lparr>v_used := False\<rparr>) x), snd st)
        | (None, _) \<Rightarrow> ret st))"

fun poly_stop_from :: "'w poly_outlet \<Rightarrow> nat list \<Rightarrow> t_poly \<times> 'w \<Rightarrow> (t_poly \<times> 'w) cresult option" where
  "poly_stop_from outlet [] st = ret st"
| "poly_stop_from outlet (i # ixs) st =
     (if v_used (x_vec (fst st) ! i) then
        rbind (put_end outlet i st) (\<lambda>(x, w). poly_stop_from outlet ixs (stamp i (set_voice i (\<lambda>v. v\<lparr>v_used := False\<rparr>) x), w))
      else poly_stop_from outlet ixs st)"

definition poly_stop :: "'w poly_outlet \<Rightarrow> t_poly \<times> 'w \<Rightarrow> (t_poly \<times> 'w) cresult option" where
  "poly_stop outlet st = poly_stop_from outlet [0..<length (x_vec (fst st))] st"

definition poly_clear :: "t_poly \<Rightarrow> t_poly" where
  "poly_clear x = x\<lparr>x_vec := map (\<lambda>v. v\<lparr>v_used := False, v_serial := 0\<rparr>) (x_vec x)\<rparr>"

subsection \<open>The longest first\<close>

fun oldest :: "(t_voice \<Rightarrow> bool) \<Rightarrow> nat \<Rightarrow> t_voice list \<Rightarrow> nat option \<times> 32 word \<Rightarrow> nat option \<times> 32 word" where
  "oldest P i [] acc = acc"
| "oldest P i (v # vs) (found, serial) =
     oldest P (Suc i) vs (if P v \<and> v_serial v < ucast serial then (Some i, ucast (v_serial v)) else (found, serial))"

lemma poly_scan_oldest:
  "poly_scan i vs (a, b, c, d) = (case oldest v_used i vs (a, b) of (a', b') \<Rightarrow> case oldest (\<lambda>v. \<not> v_used v) i vs (c, d) of (c', d') \<Rightarrow>
     (a', b', c', d'))"
  by (induction vs arbitrary: i a b c d) (auto split: prod.splits)

lemma poly_match_oldest: "poly_match f i vs acc = oldest (\<lambda>v. v_used v \<and> feq (v_pitch v) f) i vs acc"
  by (induction vs arbitrary: i acc) (auto split: prod.splits)

lemma oldest_append: "oldest P i (vs @ ws) acc = oldest P (i + length vs) ws (oldest P i vs acc)"
proof (induction vs arbitrary: i acc)
  case (Cons v vs)
  then show ?case by (cases acc) simp
qed simp

definition before :: "t_voice list \<Rightarrow> nat \<Rightarrow> nat \<Rightarrow> bool" where
  "before vs i j \<longleftrightarrow> v_serial (vs ! i) < v_serial (vs ! j) \<or> v_serial (vs ! i) = v_serial (vs ! j) \<and> i < j"

text \<open>As long as all serial numbers are below the greatest of 32 bits.\<close>

definition short :: "64 word \<Rightarrow> bool" where
  "short w \<longleftrightarrow> w < 0xffffffff"

lemma short_ucast: "short w \<Longrightarrow> ucast (ucast w :: 32 word) = w"
proof -
  assume "short w"
  then have "uint w < 0xffffffff" by (simp add: short_def word_less_def)
  then have "take_bit 32 (uint w) = uint w" by (intro take_bit_int_eq_self) simp_all
  then have "take_bit 32 w = w" by (metis unsigned_take_bit_eq word_uint_eq_iff)
  then show ?thesis by (simp add: word_eq_iff_unsigned unsigned_ucast_eq)
qed

lemma oldest_spec:
  assumes "\<forall>v \<in> set vs. short (v_serial v)"
  shows "case oldest P 0 vs (None, 0xffffffff) of
      (None, s) \<Rightarrow> s = 0xffffffff \<and> (\<forall>j < length vs. \<not> P (vs ! j))
    | (Some i, s) \<Rightarrow> i < length vs \<and> P (vs ! i) \<and> s = ucast (v_serial (vs ! i)) \<and>
        (\<forall>j < length vs. P (vs ! j) \<longrightarrow> j = i \<or> before vs i j)"
  using assms
proof (induction vs rule: rev_induct)
  case Nil
  then show ?case by simp
next
  case (snoc v vs)
  obtain r s where r: "oldest P 0 vs (None, 0xffffffff) = (r, s)" by fastforce
  have step: "oldest P 0 (vs @ [v]) (None, 0xffffffff) =
      (if P v \<and> v_serial v < ucast s then (Some (length vs), ucast (v_serial v)) else (r, s))"
    by (simp add: oldest_append r)
  have v: "short (v_serial v)" and IH: "case (r, s) of (None, s) \<Rightarrow> s = 0xffffffff \<and> (\<forall>j < length vs. \<not> P (vs ! j))
    | (Some i, s) \<Rightarrow> i < length vs \<and> P (vs ! i) \<and> s = ucast (v_serial (vs ! i)) \<and>
        (\<forall>j < length vs. P (vs ! j) \<longrightarrow> j = i \<or> before vs i j)"
    using snoc by (simp_all add: r)
  show ?case
  proof (cases r)
    case None
    then have "ucast s = (0xffffffff :: 64 word)" using IH by simp
    then show ?thesis using IH None v by (simp add: step short_def nth_append less_Suc_eq all_conj_distrib)
  next
    case (Some i)
    have i: "i < length vs" "P (vs ! i)" "s = ucast (v_serial (vs ! i))" "\<And>j. j < length vs \<Longrightarrow> P (vs ! j) \<Longrightarrow> j = i \<or> before vs i j"
      using IH Some by auto
    have "short (v_serial (vs ! i))" using snoc.prems i(1) by (simp add: all_set_conv_all_nth nth_append)
    then have s: "ucast s = v_serial (vs ! i)" by (simp add: i(3) short_ucast)
    have old: "before (vs @ [v]) k j \<longleftrightarrow> before vs k j" if "k < length vs" "j < length vs" for k j
      using that by (simp add: before_def nth_append)
    show ?thesis
    proof (cases "P v \<and> v_serial v < v_serial (vs ! i)")
      case True
      have "j = length vs \<or> before (vs @ [v]) (length vs) j" if "j < Suc (length vs)" "P ((vs @ [v]) ! j)" for j
        using i(4) [of j] True that by (fastforce simp: before_def nth_append less_Suc_eq)
      then show ?thesis using True by (simp add: step s nth_append)
    next
      case False
      have "j = i \<or> before (vs @ [v]) i j" if "j < Suc (length vs)" "P ((vs @ [v]) ! j)" for j
      proof (cases "j = length vs")
        case True
        then show ?thesis using False that i(1) by (auto simp: before_def nth_append)
      next
        case False
        then have "j < length vs" "P (vs ! j)" using that by (simp_all add: nth_append less_Suc_eq)
        then show ?thesis using i(4) i(1) old by blast
      qed
      then show ?thesis using False i(1,2) by (auto simp: step s i(3) [symmetric] Some nth_append)
    qed
  qed
qed

subsection \<open>Voices as a pool\<close>

text \<open>
  The abstract view: the voices that sound with their pitches, the one that sounds longest first, and the free voices in the order
  in which they became free.
\<close>

type_synonym pool = "(nat \<times> fl) list \<times> nat list"

definition pool_start :: "fl \<Rightarrow> fl \<Rightarrow> nat \<Rightarrow> poly_out list" where
  "pool_start vel f i = [Velo vel, Pitch f, Voice (i + 1)]"

definition pool_note :: "fl \<Rightarrow> bool \<Rightarrow> fl \<Rightarrow> pool \<Rightarrow> pool \<times> poly_out list" where
  "pool_note vel steal f p = (case p of (on, off) \<Rightarrow>
     if flt (Fin 0) vel then
       (case off of
          i # off' \<Rightarrow> ((on @ [(i, f)], off'), pool_start vel f i)
        | [] \<Rightarrow> (case on of
            (i, q) # on' \<Rightarrow> if steal then ((on' @ [(i, f)], []), pool_start (Fin 0) q i @ pool_start vel f i) else (p, [])
          | [] \<Rightarrow> (p, [])))
     else
       (case find (\<lambda>e. feq (snd e) f) on of
          Some (i, q) \<Rightarrow> ((filter (\<lambda>e. fst e \<noteq> i) on, off @ [i]), pool_start (Fin 0) q i)
        | None \<Rightarrow> (p, [])))"

definition pool_stop :: "pool \<Rightarrow> pool \<times> poly_out list" where
  "pool_stop p = (let ixs = sort (map fst (fst p)) in
     (([], snd p @ ixs), concat (map (\<lambda>i. pool_start (Fin 0) (the (map_of (fst p) i)) i) ixs)))"

definition serial_of :: "t_poly \<Rightarrow> nat \<Rightarrow> 64 word" where
  "serial_of x i = v_serial (x_vec x ! i)"

definition poly_rep :: "t_poly \<Rightarrow> pool \<Rightarrow> bool" where
  "poly_rep x p \<longleftrightarrow> (case p of (on, off) \<Rightarrow>
     fst ` set on = {i. i < length (x_vec x) \<and> v_used (x_vec x ! i)} \<and> set off = {i. i < length (x_vec x) \<and> \<not> v_used (x_vec x ! i)} \<and>
     sorted_wrt (before (x_vec x)) (map fst on) \<and> sorted_wrt (before (x_vec x)) off \<and>
     (\<forall>(i, q) \<in> set on. v_pitch (x_vec x ! i) = q) \<and>
     (\<forall>i < length (x_vec x). serial_of x i < x_serial x \<or> \<not> v_used (x_vec x ! i) \<and> serial_of x i = 0))"

lemma before_irrefl [simp]: "\<not> before vs i i"
  by (simp add: before_def)

lemma before_trans: "before vs i j \<Longrightarrow> before vs j k \<Longrightarrow> before vs i k"
  by (auto simp: before_def)

lemma before_distinct: "sorted_wrt (before vs) ks \<Longrightarrow> distinct ks"
  by (induction ks) auto

text \<open>The search finds the first of a list of the voices that is sorted by time.\<close>

lemma oldest_hd:
  assumes "\<forall>v \<in> set vs. short (v_serial v)" "sorted_wrt (before vs) ks" "set ks = {i. i < length vs \<and> P (vs ! i)}"
  shows "fst (oldest P 0 vs (None, 0xffffffff)) = (case ks of [] \<Rightarrow> None | k # _ \<Rightarrow> Some k)"
proof -
  obtain r s where r: "oldest P 0 vs (None, 0xffffffff) = (r, s)" by fastforce
  note spec = oldest_spec [OF assms(1), of P, unfolded r]
  show ?thesis
  proof (cases ks)
    case Nil
    then have "\<not> P (vs ! i)" if "i < length vs" for i using assms(3) that by auto
    then show ?thesis using spec Nil by (cases r) (auto simp: r)
  next
    case (Cons k ks')
    then have k: "k < length vs" "P (vs ! k)" using assms(3) by auto
    then obtain i where i: "r = Some i" using spec by (cases r) auto
    then have "i \<in> set ks" "k = i \<or> before vs i k" using spec k assms(3) by auto
    moreover have "i = k \<or> before vs k i" using calculation(1) assms(2) Cons by auto
    ultimately have "i = k" using before_trans before_irrefl by blast
    then show ?thesis using i Cons by (simp add: r)
  qed
qed

lemma before_update: "j \<noteq> i \<Longrightarrow> k \<noteq> i \<Longrightarrow> before (vs[i := v]) j k \<longleftrightarrow> before vs j k"
  by (simp add: before_def)

lemma sorted_update: "i \<notin> set ks \<Longrightarrow> sorted_wrt (before (vs[i := v])) ks \<longleftrightarrow> sorted_wrt (before vs) ks"
proof (induction ks)
  case (Cons k ks)
  then have "before (vs[i := v]) k j \<longleftrightarrow> before vs k j" if "j \<in> set ks" for j
    using that by (intro before_update) auto
  then show ?case using Cons by simp
qed simp

lemma sorted_newest:
  assumes "sorted_wrt (before vs) ks" "i \<notin> set ks" "i < length vs" "\<And>j. j \<in> set ks \<Longrightarrow> v_serial (vs ! j) < v_serial v"
  shows "sorted_wrt (before (vs[i := v])) (ks @ [i])"
proof -
  have "before (vs[i := v]) j i" if "j \<in> set ks" for j
  proof -
    have "j \<noteq> i" using that assms(2) by auto
    then show ?thesis using assms(3) assms(4) [OF that] by (simp add: before_def)
  qed
  then show ?thesis using assms(1,2) by (simp add: sorted_wrt_append sorted_update)
qed

text \<open>A voice that starts is the last of those that sound, one that ends is the last of the free ones.\<close>

definition stamped :: "t_poly \<Rightarrow> nat \<Rightarrow> t_voice \<Rightarrow> t_poly \<Rightarrow> bool" where
  "stamped x i v x' \<longleftrightarrow> x_vec x' = (x_vec x)[i := v] \<and> v_serial v = x_serial x \<and> x_serial x' = x_serial x + 1"

lemma serial_less: "short w \<Longrightarrow> w < w + 1"
  by (simp add: short_def word_less_nat_alt unat_word_ariths)

lemma stamped_serials:
  assumes "poly_rep x p" "stamped x i v x'" "short (x_serial x)" "j < length (x_vec x')"
  shows "serial_of x' j < x_serial x' \<or> \<not> v_used (x_vec x' ! j) \<and> serial_of x' j = 0"
proof (cases "j = i")
  case True
  then show ?thesis using assms serial_less [OF assms(3)] by (simp add: stamped_def serial_of_def)
next
  case False
  then have "serial_of x j < x_serial x \<or> \<not> v_used (x_vec x ! j) \<and> serial_of x j = 0"
    using assms by (auto simp: stamped_def poly_rep_def)
  then show ?thesis using False assms(2) serial_less [OF assms(3)] by (auto simp: stamped_def serial_of_def)
qed

lemma rep_starts:
  assumes rep: "poly_rep x (on, off)" and s: "stamped x i v x'" "short (x_serial x)" "i < length (x_vec x)"
    and v: "v_used v" "v_pitch v = f"
  shows "poly_rep x' (filter (\<lambda>e. fst e \<noteq> i) on @ [(i, f)], filter (\<lambda>j. j \<noteq> i) off)"
proof -
  have x': "x_vec x' = (x_vec x)[i := v]" "v_serial v = x_serial x" using s(1) by (simp_all add: stamped_def)
  have p: "fst ` set on = {i. i < length (x_vec x) \<and> v_used (x_vec x ! i)}" "set off = {i. i < length (x_vec x) \<and> \<not> v_used (x_vec x ! i)}"
      "sorted_wrt (before (x_vec x)) (map fst on)" "sorted_wrt (before (x_vec x)) off" "\<forall>(i, q) \<in> set on. v_pitch (x_vec x ! i) = q"
      "\<forall>i < length (x_vec x). serial_of x i < x_serial x \<or> \<not> v_used (x_vec x ! i) \<and> serial_of x i = 0"
    using rep by (simp_all add: poly_rep_def)
  let ?on = "filter (\<lambda>e. fst e \<noteq> i) on"
  have m: "map fst ?on = filter (\<lambda>j. j \<noteq> i) (map fst on)" by (simp add: filter_map o_def)
  have "v_serial (x_vec x ! j) < v_serial v" if "j \<in> set (map fst ?on)" for j
  proof -
    have "j \<in> fst ` set on" using that by auto
    then show ?thesis using p(1,6) x'(2) by (auto simp: serial_of_def)
  qed
  then have "sorted_wrt (before (x_vec x')) (map fst ?on @ [i])"
    unfolding x'(1) using p(3) s(3) by (intro sorted_newest) (auto simp: m intro: sorted_wrt_filter)
  moreover have "sorted_wrt (before (x_vec x')) (filter (\<lambda>j. j \<noteq> i) off)"
    using p(4) by (simp add: x'(1) sorted_update sorted_wrt_filter)
  moreover have "fst ` set (?on @ [(i, f)]) = {i. i < length (x_vec x') \<and> v_used (x_vec x' ! i)}"
  proof -
    have "fst ` set (?on @ [(i, f)]) = insert i (fst ` set on)" by auto
    then show ?thesis unfolding p(1) using s(3) v(1) by (auto simp: x'(1) nth_list_update)
  qed
  moreover have "set (filter (\<lambda>j. j \<noteq> i) off) = {i. i < length (x_vec x') \<and> \<not> v_used (x_vec x' ! i)}"
    using p(2) s(3) v(1) by (auto simp: x'(1) nth_list_update)
  moreover have "\<forall>(j, q) \<in> set (?on @ [(i, f)]). v_pitch (x_vec x' ! j) = q"
    using p(5) s(3) v(2) by (auto simp: x'(1))
  ultimately show ?thesis using stamped_serials [OF rep s(1,2)] by (simp add: poly_rep_def)
qed

lemma rep_ends:
  assumes rep: "poly_rep x (on, off)" and s: "stamped x i v x'" "short (x_serial x)" "i < length (x_vec x)"
    and v: "\<not> v_used v" "v_used (x_vec x ! i)"
  shows "poly_rep x' (filter (\<lambda>e. fst e \<noteq> i) on, off @ [i])"
proof -
  have x': "x_vec x' = (x_vec x)[i := v]" "v_serial v = x_serial x" using s(1) by (simp_all add: stamped_def)
  have p: "fst ` set on = {i. i < length (x_vec x) \<and> v_used (x_vec x ! i)}" "set off = {i. i < length (x_vec x) \<and> \<not> v_used (x_vec x ! i)}"
      "sorted_wrt (before (x_vec x)) (map fst on)" "sorted_wrt (before (x_vec x)) off" "\<forall>(i, q) \<in> set on. v_pitch (x_vec x ! i) = q"
      "\<forall>i < length (x_vec x). serial_of x i < x_serial x \<or> \<not> v_used (x_vec x ! i) \<and> serial_of x i = 0"
    using rep by (simp_all add: poly_rep_def)
  let ?on = "filter (\<lambda>e. fst e \<noteq> i) on"
  have m: "map fst ?on = filter (\<lambda>j. j \<noteq> i) (map fst on)" by (simp add: filter_map o_def)
  have i: "i \<notin> set off" using p(2) v(2) by auto
  have "serial_of x i < x_serial x" using p(6) s(3) v(2) by auto
  then have "0 < x_serial x" by (metis word_gt_0 word_not_simps(1))
  then have "v_serial (x_vec x ! j) < v_serial v" if "j \<in> set off" for j
    using that p(2,6) x'(2) by (auto simp: serial_of_def)
  then have "sorted_wrt (before (x_vec x')) (off @ [i])"
    unfolding x'(1) using p(4) s(3) i by (intro sorted_newest) auto
  moreover have "sorted_wrt (before (x_vec x')) (map fst ?on)"
    using p(3) unfolding x'(1) m by (simp add: sorted_update sorted_wrt_filter)
  moreover have "fst ` set ?on = fst ` set on - {i}" by auto
  then have "fst ` set ?on = {i. i < length (x_vec x') \<and> v_used (x_vec x' ! i)}"
    using v(1) s(3) unfolding p(1) by (auto simp: x'(1) nth_list_update)
  moreover have "set (off @ [i]) = {i. i < length (x_vec x') \<and> \<not> v_used (x_vec x' ! i)}"
    using p(2) s(3) v(1) by (auto simp: x'(1) nth_list_update)
  moreover have "\<forall>(j, q) \<in> set ?on. v_pitch (x_vec x' ! j) = q" using p(5) by (auto simp: x'(1))
  ultimately show ?thesis using stamped_serials [OF rep s(1,2)] by (simp add: poly_rep_def)
qed

subsection \<open>The operations on the pool\<close>

definition record_poly :: "poly_out list poly_outlet" where
  "record_poly m st = ret (fst st, snd st @ [m])"

lemma rep_short:
  assumes "poly_rep x p" "short (x_serial x)"
  shows "\<forall>v \<in> set (x_vec x). short (v_serial v)"
proof -
  have "short (v_serial (x_vec x ! i))" if "i < length (x_vec x)" for i
  proof -
    have "serial_of x i < x_serial x \<or> serial_of x i = 0" using assms(1) that by (auto simp: poly_rep_def)
    then show ?thesis using assms(2) by (auto simp: short_def serial_of_def)
  qed
  then show ?thesis by (auto simp: in_set_conv_nth)
qed

lemma find_filter_hd: "find P xs = (case filter P xs of [] \<Rightarrow> None | y # _ \<Rightarrow> Some y)"
  by (induction xs) auto

lemma scan_pool:
  assumes rep: "poly_rep x (on, off)" and short: "short (x_serial x)"
  shows "\<exists>s t. poly_scan 0 (x_vec x) (None, 0xffffffff, None, 0xffffffff) =
      (case on of [] \<Rightarrow> None | (i, q) # _ \<Rightarrow> Some i, s, case off of [] \<Rightarrow> None | i # _ \<Rightarrow> Some i, t)"
    and "fst (poly_match f 0 (x_vec x) (None, 0xffffffff)) = map_option fst (find (\<lambda>e. feq (snd e) f) on)"
proof -
  note s = rep_short [OF rep short]
  have p: "fst ` set on = {i. i < length (x_vec x) \<and> v_used (x_vec x ! i)}" "set off = {i. i < length (x_vec x) \<and> \<not> v_used (x_vec x ! i)}"
      "sorted_wrt (before (x_vec x)) (map fst on)" "sorted_wrt (before (x_vec x)) off" "\<forall>(i, q) \<in> set on. v_pitch (x_vec x ! i) = q"
    using rep by (simp_all add: poly_rep_def)
  have "fst (oldest v_used 0 (x_vec x) (None, 0xffffffff)) = (case on of [] \<Rightarrow> None | (i, q) # _ \<Rightarrow> Some i)"
    using oldest_hd [OF s p(3), of v_used] p(1) by (auto split: list.splits)
  moreover have "fst (oldest (\<lambda>v. \<not> v_used v) 0 (x_vec x) (None, 0xffffffff)) = (case off of [] \<Rightarrow> None | i # _ \<Rightarrow> Some i)"
    using oldest_hd [OF s p(4), of "\<lambda>v. \<not> v_used v"] p(2) by simp
  ultimately show "\<exists>s t. poly_scan 0 (x_vec x) (None, 0xffffffff, None, 0xffffffff) =
      (case on of [] \<Rightarrow> None | (i, q) # _ \<Rightarrow> Some i, s, case off of [] \<Rightarrow> None | i # _ \<Rightarrow> Some i, t)"
    by (cases "oldest v_used 0 (x_vec x) (None, 0xffffffff)", cases "oldest (\<lambda>v. \<not> v_used v) 0 (x_vec x) (None, 0xffffffff)")
      (simp add: poly_scan_oldest)
  let ?es = "filter (\<lambda>e. feq (snd e) f) on"
  have "sorted_wrt (before (x_vec x)) (map fst ?es)"
    using p(3) by (simp add: sorted_wrt_map sorted_wrt_filter)
  moreover have "set (map fst ?es) = {i. i < length (x_vec x) \<and> v_used (x_vec x ! i) \<and> feq (v_pitch (x_vec x ! i)) f}"
  proof -
    have "(i \<in> fst ` set ?es) \<longleftrightarrow> i \<in> fst ` set on \<and> feq (v_pitch (x_vec x ! i)) f" for i
      using p(5) by (force simp: image_iff)
    then show ?thesis unfolding p(1) by auto
  qed
  ultimately show "fst (poly_match f 0 (x_vec x) (None, 0xffffffff)) = map_option fst (find (\<lambda>e. feq (snd e) f) on)"
    using oldest_hd [OF s, of "map fst ?es" "\<lambda>v. v_used v \<and> feq (v_pitch v) f"]
    by (auto simp: poly_match_oldest find_filter_hd split: list.splits)
qed

lemma put_end_record: "put_end record_poly i (x, w) = ret (x, w @ pool_start (Fin 0) (v_pitch (x_vec x ! i)) i)"
  by (simp add: put_end_def record_poly_def ret_def pool_start_def)

lemma poly_start_record:
  "poly_start record_poly f i (x, w) = ret (set_voice i (\<lambda>v. v\<lparr>v_pitch := f\<rparr>) x, w @ pool_start (x_vel x) f i)"
  by (simp add: poly_start_def record_poly_def ret_def pool_start_def set_voice_def)

lemma poly_float_pool:
  assumes rep: "poly_rep x p" and short: "short (x_serial x)" and step: "pool_note (x_vel x) (x_steal x) f p = (p', out)"
  shows "\<exists>x'. poly_float record_poly f (x, w) = ret (x', w @ out) \<and> poly_rep x' p' \<and> x_vel x' = x_vel x \<and> x_steal x' = x_steal x \<and>
    length (x_vec x') = length (x_vec x) \<and> (x_serial x' = x_serial x \<or> x_serial x' = x_serial x + 1)"
proof -
  obtain on off where p: "p = (on, off)" by fastforce
  note rep = rep [unfolded p]
  have r: "fst ` set on = {i. i < length (x_vec x) \<and> v_used (x_vec x ! i)}" "set off = {i. i < length (x_vec x) \<and> \<not> v_used (x_vec x ! i)}"
      "sorted_wrt (before (x_vec x)) (map fst on)" "sorted_wrt (before (x_vec x)) off" "\<forall>(i, q) \<in> set on. v_pitch (x_vec x ! i) = q"
    using rep by (simp_all add: poly_rep_def)
  obtain s t where scan: "poly_scan 0 (x_vec x) (None, 0xffffffff, None, 0xffffffff) =
      (case on of [] \<Rightarrow> None | (i, q) # _ \<Rightarrow> Some i, s, case off of [] \<Rightarrow> None | i # _ \<Rightarrow> Some i, t)"
    using scan_pool(1) [OF rep short] by blast
  let ?new = "\<lambda>i. stamp i (set_voice i (\<lambda>v. v\<lparr>v_used := True\<rparr>) (set_voice i (\<lambda>v. v\<lparr>v_pitch := f\<rparr>) x))"
  have starts: "stamped x i ((x_vec x ! i)\<lparr>v_pitch := f, v_used := True, v_serial := x_serial x\<rparr>) (?new i)" if "i < length (x_vec x)" for i
    using that by (simp add: stamped_def stamp_def set_voice_def)
  consider (start) i off' where "flt (Fin 0) (x_vel x)" "off = i # off'"
    | (steal) i q on' where "flt (Fin 0) (x_vel x)" "off = []" "on = (i, q) # on'" "x_steal x"
    | (full) "flt (Fin 0) (x_vel x)" "off = []" "on = [] \<or> \<not> x_steal x"
    | (ends) i q where "\<not> flt (Fin 0) (x_vel x)" "find (\<lambda>e. feq (snd e) f) on = Some (i, q)"
    | (no_match) "\<not> flt (Fin 0) (x_vel x)" "find (\<lambda>e. feq (snd e) f) on = None"
    by (metis list.exhaust option.exhaust prod.exhaust)
  then show ?thesis
  proof cases
    case start
    then have i: "i < length (x_vec x)" "i \<notin> fst ` set on" "i \<notin> set off'"
      using r(1,2) before_distinct [OF r(4)] by auto
    then have same: "filter (\<lambda>e. fst e \<noteq> i) on = on" "filter (\<lambda>j. j \<noteq> i) off = off'"
      using start by (force simp: filter_id_conv)+
    have "poly_rep (?new i) (on @ [(i, f)], off')" using rep_starts [OF rep starts [OF i(1)] short i(1)] by (simp add: same)
    moreover have "poly_float record_poly f (x, w) = ret (?new i, w @ pool_start (x_vel x) f i)"
      using start by (simp add: poly_float_def scan poly_start_record ret_def split: list.split prod.split)
    ultimately show ?thesis using start step
      by (intro exI [of _ "?new i"]) (auto simp: p pool_note_def stamp_def set_voice_def)
  next
    case steal
    then have i: "i < length (x_vec x)" "v_used (x_vec x ! i)" "i \<notin> fst ` set on'" "v_pitch (x_vec x ! i) = q"
      using r(1,5) before_distinct [OF r(3)] by auto
    have new: "stamp i (set_voice i (\<lambda>v. v\<lparr>v_pitch := f\<rparr>) x) = ?new i"
    proof -
      have "(x_vec x ! i)\<lparr>v_pitch := f, v_used := True, v_serial := x_serial x\<rparr> = (x_vec x ! i)\<lparr>v_pitch := f, v_serial := x_serial x\<rparr>"
        using i(2) by (cases "x_vec x ! i") simp
      then show ?thesis using i(1) by (simp add: stamp_def set_voice_def)
    qed
    have same: "filter (\<lambda>e. fst e \<noteq> i) on = on'" using steal i(3) by (force simp: filter_id_conv)
    have "poly_rep (?new i) (on' @ [(i, f)], [])" using rep_starts [OF rep starts [OF i(1)] short i(1)] steal(2) by (simp add: same)
    moreover have "poly_float record_poly f (x, w) = ret (?new i, w @ pool_start (Fin 0) q i @ pool_start (x_vel x) f i)"
      using steal i(4) by (simp add: poly_float_def scan poly_start_record put_end_record ret_def new)
    ultimately show ?thesis using steal step
      by (intro exI [of _ "?new i"]) (auto simp: p pool_note_def stamp_def set_voice_def)
  next
    case full
    then have "poly_float record_poly f (x, w) = ret (x, w)" by (auto simp: poly_float_def scan split: list.split)
    moreover have "pool_note (x_vel x) (x_steal x) f p = (p, [])" using full by (auto simp: p pool_note_def split: list.split)
    ultimately show ?thesis using step rep p by auto
  next
    case ends
    then have "(i, q) \<in> set on" by (auto simp: find_Some_iff)
    then have i: "i < length (x_vec x)" "v_used (x_vec x ! i)" "v_pitch (x_vec x ! i) = q" using r(1,5) by force+
    let ?x' = "stamp i (set_voice i (\<lambda>v. v\<lparr>v_used := False\<rparr>) x)"
    have "stamped x i ((x_vec x ! i)\<lparr>v_used := False, v_serial := x_serial x\<rparr>) ?x'"
      using i by (simp add: stamped_def stamp_def set_voice_def)
    from rep_ends [OF rep this short i(1) _ i(2)] have "poly_rep ?x' (filter (\<lambda>e. fst e \<noteq> i) on, off @ [i])" by simp
    moreover obtain u where "poly_match f 0 (x_vec x) (None, 0xffffffff) = (Some i, u)"
      using scan_pool(2) [OF rep short, of f] ends(2) by (cases "poly_match f 0 (x_vec x) (None, 0xffffffff)") auto
    then have "poly_float record_poly f (x, w) = ret (?x', w @ pool_start (Fin 0) q i)"
      using ends i by (simp add: poly_float_def put_end_record stamp_def set_voice_def)
    ultimately show ?thesis using ends step
      by (intro exI [of _ "?x'"]) (auto simp: p pool_note_def stamp_def set_voice_def)
  next
    case no_match
    then obtain u where "poly_match f 0 (x_vec x) (None, 0xffffffff) = (None, u)"
      using scan_pool(2) [OF rep short, of f] by (cases "poly_match f 0 (x_vec x) (None, 0xffffffff)") auto
    then have "poly_float record_poly f (x, w) = ret (x, w)" using no_match by (simp add: poly_float_def)
    then show ?thesis using no_match step rep p by (auto simp: pool_note_def)
  qed
qed

text \<open>\<open>stop\<close> ends the voices in the order of their numbers.\<close>

lemma stop_from_pool:
  assumes "poly_rep x (on, off)" "unat (x_serial x) + length ixs \<le> 0xffffffff" "distinct ixs" "set ixs \<subseteq> {..<length (x_vec x)}"
  defines "gone \<equiv> filter (\<lambda>i. v_used (x_vec x ! i)) ixs"
  shows "\<exists>x'. poly_stop_from record_poly ixs (x, w) =
      ret (x', w @ concat (map (\<lambda>i. pool_start (Fin 0) (the (map_of on i)) i) gone)) \<and>
    poly_rep x' (filter (\<lambda>e. fst e \<notin> set gone) on, off @ gone) \<and> x_vel x' = x_vel x \<and> x_steal x' = x_steal x \<and>
    length (x_vec x') = length (x_vec x) \<and> unat (x_serial x') \<le> unat (x_serial x) + length ixs"
  using assms(1-4) unfolding gone_def
proof (induction ixs arbitrary: x on off w)
  case Nil
  then show ?case by (simp add: ret_def)
next
  case (Cons i ixs)
  have i: "i < length (x_vec x)" "i \<notin> set ixs" using Cons.prems by auto
  show ?case
  proof (cases "v_used (x_vec x ! i)")
    case False
    then show ?thesis using Cons.IH [of x on off w] Cons.prems by fastforce
  next
    case True
    let ?x = "stamp i (set_voice i (\<lambda>v. v\<lparr>v_used := False\<rparr>) x)" and ?on = "filter (\<lambda>e. fst e \<noteq> i) on"
    have short: "short (x_serial x)" using Cons.prems(2) by (simp add: short_def word_less_nat_alt)
    have "stamped x i ((x_vec x ! i)\<lparr>v_used := False, v_serial := x_serial x\<rparr>) ?x"
      using i by (simp add: stamped_def stamp_def set_voice_def)
    from rep_ends [OF Cons.prems(1) this short i(1) _ True] have rep: "poly_rep ?x (?on, off @ [i])" by simp
    have vec: "x_vec ?x = (x_vec x)[i := (x_vec x ! i)\<lparr>v_used := False, v_serial := x_serial x\<rparr>]"
      using i(1) by (simp add: stamp_def set_voice_def)
    have serial: "unat (x_serial ?x) = unat (x_serial x) + 1"
      using Cons.prems(2) by (simp add: stamp_def set_voice_def unat_word_ariths)
    have used: "filter (\<lambda>j. v_used (x_vec ?x ! j)) ixs = filter (\<lambda>j. v_used (x_vec x ! j)) ixs"
    proof (rule filter_cong [OF refl])
      fix j assume "j \<in> set ixs"
      then have "j \<noteq> i" using i(2) by auto
      then show "v_used (x_vec ?x ! j) = v_used (x_vec x ! j)" by (simp add: vec)
    qed
    have m: "map_of ?on j = map_of on j" if "j \<noteq> i" for j
      using that by (induction on) auto
    have outs: "concat (map (\<lambda>j. pool_start (Fin 0) (the (map_of ?on j)) j) (filter (\<lambda>j. v_used (x_vec x ! j)) ixs)) =
        concat (map (\<lambda>j. pool_start (Fin 0) (the (map_of on j)) j) (filter (\<lambda>j. v_used (x_vec x ! j)) ixs))"
    proof (intro arg_cong [where f = concat] map_cong refl)
      fix j assume "j \<in> set (filter (\<lambda>j. v_used (x_vec x ! j)) ixs)"
      then have "j \<noteq> i" using i(2) by auto
      from m [OF this] show "pool_start (Fin 0) (the (map_of ?on j)) j = pool_start (Fin 0) (the (map_of on j)) j" by (rule arg_cong)
    qed
    have q: "the (map_of on i) = v_pitch (x_vec x ! i)"
    proof -
      have "fst ` set on = {i. i < length (x_vec x) \<and> v_used (x_vec x ! i)}" and *: "\<forall>(i, q) \<in> set on. v_pitch (x_vec x ! i) = q"
        using Cons.prems(1) by (simp_all add: poly_rep_def)
      then have "i \<in> fst ` set on" using i(1) True by simp
      then obtain q where "map_of on i = Some q" by (metis map_of_eq_None_iff option.exhaust)
      then show ?thesis using * by (auto dest: map_of_SomeD)
    qed
    obtain x' where x': "poly_stop_from record_poly ixs (?x, w @ pool_start (Fin 0) (v_pitch (x_vec x ! i)) i) =
        ret (x', (w @ pool_start (Fin 0) (v_pitch (x_vec x ! i)) i) @
          concat (map (\<lambda>j. pool_start (Fin 0) (the (map_of ?on j)) j) (filter (\<lambda>j. v_used (x_vec ?x ! j)) ixs)))"
      "poly_rep x' (filter (\<lambda>e. fst e \<notin> set (filter (\<lambda>j. v_used (x_vec ?x ! j)) ixs)) ?on, (off @ [i]) @ filter (\<lambda>j. v_used (x_vec ?x ! j)) ixs)"
      "x_vel x' = x_vel ?x" "x_steal x' = x_steal ?x" "length (x_vec x') = length (x_vec ?x)"
      "unat (x_serial x') \<le> unat (x_serial ?x) + length ixs"
      using Cons.IH [OF rep, of "w @ pool_start (Fin 0) (v_pitch (x_vec x ! i)) i"] Cons.prems(2-4) serial by (auto simp: vec)
    have "filter (\<lambda>e. fst e \<notin> set (filter (\<lambda>j. v_used (x_vec x ! j)) ixs)) ?on =
        filter (\<lambda>e. fst e \<notin> set (filter (\<lambda>j. v_used (x_vec x ! j)) (i # ixs))) on"
      using True by (auto intro: filter_cong)
    note rest = this
    have step: "poly_stop_from record_poly (i # ixs) (x, w) = poly_stop_from record_poly ixs (?x, w @ pool_start (Fin 0) (v_pitch (x_vec x ! i)) i)"
      using True by (simp add: put_end_record ret_def)
    have same: "x_vel ?x = x_vel x" "x_steal ?x = x_steal x" "length (x_vec ?x) = length (x_vec x)" by (simp_all add: stamp_def set_voice_def)
    show ?thesis using x' [unfolded used outs same serial rest] True
      by (intro exI [of _ x']) (simp only: step, simp add: q)
  qed
qed

lemma poly_stop_pool:
  assumes rep: "poly_rep x p" and serial: "unat (x_serial x) + length (x_vec x) \<le> 0xffffffff" and step: "pool_stop p = (p', out)"
  shows "\<exists>x'. poly_stop record_poly (x, w) = ret (x', w @ out) \<and> poly_rep x' p' \<and> x_vel x' = x_vel x \<and> x_steal x' = x_steal x \<and>
    length (x_vec x') = length (x_vec x) \<and> unat (x_serial x') \<le> unat (x_serial x) + length (x_vec x)"
proof -
  obtain on off where p: "p = (on, off)" by fastforce
  let ?gone = "filter (\<lambda>i. v_used (x_vec x ! i)) [0..<length (x_vec x)]"
  have on: "fst ` set on = {i. i < length (x_vec x) \<and> v_used (x_vec x ! i)}" "sorted_wrt (before (x_vec x)) (map fst on)"
    using rep by (simp_all add: p poly_rep_def)
  have "set (map fst on) = set ?gone" using on(1) by auto
  then have "sort (map fst on) = ?gone"
    using before_distinct [OF on(2)] by (intro sorted_distinct_set_unique) (simp_all add: sorted_wrt_filter)
  moreover have "filter (\<lambda>e. fst e \<notin> set ?gone) on = []" using on(1) by (auto simp: filter_empty_conv)
  ultimately have "p' = (filter (\<lambda>e. fst e \<notin> set ?gone) on, off @ ?gone)"
    "out = concat (map (\<lambda>i. pool_start (Fin 0) (the (map_of on i)) i) ?gone)"
    using step by (auto simp: pool_stop_def p Let_def)
  then show ?thesis using stop_from_pool [OF rep [unfolded p], of "[0..<length (x_vec x)]" w] serial
    by (simp add: poly_stop_def atLeast0LessThan)
qed

lemma poly_clear_pool:
  assumes "poly_rep x p"
  shows "poly_rep (poly_clear x) ([], [0..<length (x_vec x)])"
proof -
  have "sorted_wrt (before (x_vec (poly_clear x))) [0..<length (x_vec x)]"
    unfolding sorted_wrt_iff_nth_less by (simp add: before_def poly_clear_def)
  then show ?thesis by (auto simp: poly_rep_def serial_of_def poly_clear_def)
qed

subsection \<open>Any sequence of messages\<close>

datatype poly_op = SetVel fl | Note fl | Stop | Clear

fun do_poly :: "poly_op \<Rightarrow> t_poly \<times> poly_out list \<Rightarrow> (t_poly \<times> poly_out list) cresult option" where
  "do_poly (SetVel f) (x, w) = ret (x\<lparr>x_vel := f\<rparr>, w)"
| "do_poly (Note f) st = poly_float record_poly f st"
| "do_poly Stop st = poly_stop record_poly st"
| "do_poly Clear (x, w) = ret (poly_clear x, w)"

fun run_poly :: "poly_op list \<Rightarrow> t_poly \<times> poly_out list \<Rightarrow> (t_poly \<times> poly_out list) cresult option" where
  "run_poly [] st = ret st"
| "run_poly (m # ms) st = rbind (do_poly m st) (run_poly ms)"

fun do_pool :: "nat \<Rightarrow> bool \<Rightarrow> poly_op \<Rightarrow> fl \<times> pool \<Rightarrow> (fl \<times> pool) \<times> poly_out list" where
  "do_pool n steal (SetVel f) (vel, p) = ((f, p), [])"
| "do_pool n steal (Note f) (vel, p) = (case pool_note vel steal f p of (p', out) \<Rightarrow> ((vel, p'), out))"
| "do_pool n steal Stop (vel, p) = (case pool_stop p of (p', out) \<Rightarrow> ((vel, p'), out))"
| "do_pool n steal Clear (vel, p) = ((vel, [], [0..<n]), [])"

fun run_pool :: "nat \<Rightarrow> bool \<Rightarrow> poly_op list \<Rightarrow> fl \<times> pool \<Rightarrow> (fl \<times> pool) \<times> poly_out list" where
  "run_pool n steal [] a = (a, [])"
| "run_pool n steal (m # ms) a = (case do_pool n steal m a of (a1, out1) \<Rightarrow>
     case run_pool n steal ms a1 of (a2, out2) \<Rightarrow> (a2, out1 @ out2))"

text \<open>The serial numbers that a message takes at most.\<close>

fun serials :: "nat \<Rightarrow> poly_op \<Rightarrow> nat" where
  "serials n (Note f) = 1"
| "serials n Stop = n"
| "serials n _ = 0"

lemma do_poly_pool:
  assumes rep: "poly_rep x p" and serial: "unat (x_serial x) + serials (length (x_vec x)) m \<le> 0xffffffff"
    and step: "do_pool (length (x_vec x)) (x_steal x) m (x_vel x, p) = ((vel', p'), out)"
  shows "\<exists>x'. do_poly m (x, w) = ret (x', w @ out) \<and> poly_rep x' p' \<and> x_vel x' = vel' \<and> x_steal x' = x_steal x \<and>
    length (x_vec x') = length (x_vec x) \<and> unat (x_serial x') \<le> unat (x_serial x) + serials (length (x_vec x)) m"
proof (cases m)
  case (SetVel f)
  have "poly_rep (x\<lparr>x_vel := f\<rparr>) p" using rep by (simp add: poly_rep_def serial_of_def)
  then show ?thesis using SetVel step by (simp add: ret_def)
next
  case (Note f)
  then have short: "short (x_serial x)" using serial by (simp add: short_def word_less_nat_alt)
  have "pool_note (x_vel x) (x_steal x) f p = (p', out)" "vel' = x_vel x" using step Note by (auto split: prod.splits)
  moreover have "unat (x_serial x + 1) = unat (x_serial x) + 1" using serial Note by (simp add: unat_word_ariths)
  ultimately show ?thesis using poly_float_pool [OF rep short, of f p' out w] Note by auto
next
  case Stop
  then have "pool_stop p = (p', out)" "vel' = x_vel x" using step by (auto split: prod.splits)
  then show ?thesis using poly_stop_pool [OF rep, of p' out w] serial Stop by simp
next
  case Clear
  then show ?thesis using poly_clear_pool [OF rep] step by (simp add: ret_def) (simp add: poly_clear_def)
qed

text \<open>\<^bold>\<open>C30\<close>: \<open>poly\<close> is a pool of voices. Whatever messages come in, a note takes the voice that has been free for the longest time or, if there is
  none and it may steal, ends the note that has sounded longest and takes its voice; the end of a note frees the voice on which this
  pitch has sounded longest; \<open>stop\<close> ends what sounds in the order of the voices. The messages sent are just those of the pool, as long as
  the serial numbers stay below the greatest of 32 bits.\<close>

theorem poly_refines_pool:
  assumes "poly_rep x p" "unat (x_serial x) + sum_list (map (serials (length (x_vec x))) ms) \<le> 0xffffffff"
    "run_pool (length (x_vec x)) (x_steal x) ms (x_vel x, p) = ((vel', p'), out)"
  shows "\<exists>x'. run_poly ms (x, w) = Some (Inr (x', w @ out)) \<and> poly_rep x' p' \<and> x_vel x' = vel' \<and> length (x_vec x') = length (x_vec x)"
  using assms
proof (induction ms arbitrary: x p w out)
  case Nil
  then show ?case by (simp add: ret_def)
next
  case (Cons m ms)
  obtain vel1 p1 out1 where s1: "do_pool (length (x_vec x)) (x_steal x) m (x_vel x, p) = ((vel1, p1), out1)" by (metis prod.collapse)
  obtain a2 out2 where s2: "run_pool (length (x_vec x)) (x_steal x) ms (vel1, p1) = (a2, out2)" by fastforce
  have out: "a2 = (vel', p')" "out = out1 @ out2" using Cons.prems(3) s1 s2 by simp_all
  obtain x1 where x1: "do_poly m (x, w) = ret (x1, w @ out1)" "poly_rep x1 p1" "x_vel x1 = vel1" "x_steal x1 = x_steal x"
      "length (x_vec x1) = length (x_vec x)" "unat (x_serial x1) \<le> unat (x_serial x) + serials (length (x_vec x)) m"
    using do_poly_pool [OF Cons.prems(1) _ s1, of w] Cons.prems(2) by auto
  have "run_pool (length (x_vec x1)) (x_steal x1) ms (x_vel x1, p1) = ((vel', p'), out2)" using s2 out x1 by simp
  from Cons.IH [OF x1(2) _ this, of "w @ out1"] show ?case using x1 Cons.prems(2) out by (auto simp: ret_def)
qed

lemma poly_new_rep:
  assumes "x = poly_new fnvoice fsteal"
  shows "poly_rep x ([], [0..<length (x_vec x)]) \<and> x_serial x = 0 \<and> 0 < length (x_vec x)"
proof -
  have "sorted_wrt (before (x_vec x)) [0..<length (x_vec x)]"
    unfolding sorted_wrt_iff_nth_less by (simp add: assms poly_new_def Let_def before_def)
  then show ?thesis by (auto simp: poly_rep_def assms poly_new_def Let_def serial_of_def)
qed

theorem poly_refines_pool_witness:
  "\<exists>x'. run_poly [SetVel (Fin 80), Note (Fin 60), Note (Fin 64), Note (Fin 67), SetVel (Fin 0), Note (Fin 64), Stop]
      (poly_new (Fin 2) (Fin 1), []) =
    Some (Inr (x', [Velo (Fin 80), Pitch (Fin 60), Voice 1, Velo (Fin 80), Pitch (Fin 64), Voice 2,
      Velo (Fin 0), Pitch (Fin 60), Voice 1, Velo (Fin 80), Pitch (Fin 67), Voice 1,
      Velo (Fin 0), Pitch (Fin 64), Voice 2, Velo (Fin 0), Pitch (Fin 67), Voice 1])) \<and> poly_rep x' ([], [1, 0])"
proof -
  let ?x = "poly_new (Fin 2) (Fin 1)"
  have x: "length (x_vec ?x) = 2" "x_steal ?x" "x_vel ?x = Fin 0" "x_serial ?x = 0"
    using rat_trunc_of_int [of 2] by (simp_all add: poly_new_def Let_def fzero_def)
  have rep: "poly_rep ?x ([], [0, 1])" using poly_new_rep [OF refl, of "Fin 2" "Fin 1"] by (simp add: x upt_rec)
  show ?thesis
    using poly_refines_pool [OF rep, of "[SetVel (Fin 80), Note (Fin 60), Note (Fin 64), Note (Fin 67), SetVel (Fin 0), Note (Fin 64), Stop]"
        _ _ _ "[]"]
    by (auto simp: x pool_note_def pool_start_def pool_stop_def numeral_2_eq_2 simp del: run_poly.simps)
qed

text \<open>After 2^32 - 1 serial numbers no voice is found any more: a free voice with this number is not taken.\<close>

lemma poly_goes_dead:
  "poly_float record_poly f (\<lparr>x_vec = [\<lparr>v_pitch = q, v_used = False, v_serial = 0xffffffff\<rparr>], x_vel = Fin 80,
     x_serial = 0x100000000, x_steal = True\<rparr>, w) =
   ret (\<lparr>x_vec = [\<lparr>v_pitch = q, v_used = False, v_serial = 0xffffffff\<rparr>], x_vel = Fin 80, x_serial = 0x100000000, x_steal = True\<rparr>, w)"
  by (simp add: poly_float_def)

subsection \<open>bag and stripnote\<close>

record t_bag =
  bg_velo :: fl
  bg_first :: "(addr \<times> fl) list"

definition bag_new :: t_bag where
  "bag_new = \<lparr>bg_velo = Fin 0, bg_first = []\<rparr>"

text \<open>\<open>a\<close> is the address of a new element.\<close>

definition bag_float :: "addr \<Rightarrow> fl \<Rightarrow> t_bag \<Rightarrow> t_bag" where
  "bag_float a f x = (if \<not> fzero (bg_velo x) then x\<lparr>bg_first := bg_first x @ [(a, f)]\<rparr>
     else x\<lparr>bg_first := remove_first (\<lambda>e. feq (snd e) f) (bg_first x)\<rparr>)"

definition bag_clear :: "t_bag \<Rightarrow> t_bag" where
  "bag_clear x = x\<lparr>bg_first := []\<rparr>"

text \<open>An element is put out while it is still the first; if it was freed meanwhile, the link behind it is read all the same.\<close>

partial_function (option) bag_flush :: "(fl \<Rightarrow> t_bag \<times> 'w \<Rightarrow> (t_bag \<times> 'w) cresult option) \<Rightarrow> t_bag \<times> 'w \<Rightarrow> (t_bag \<times> 'w) cresult option" where
  "bag_flush outlet st = (case bg_first (fst st) of
      [] \<Rightarrow> Some (Inr st)
    | e # es \<Rightarrow> (case outlet (snd e) st of
         None \<Rightarrow> None
       | Some (Inl err) \<Rightarrow> Some (Inl err)
       | Some (Inr (x, w)) \<Rightarrow>
           (if fst e \<in> fst ` set (bg_first x)
            then bag_flush outlet (x\<lparr>bg_first := tl (dropWhile (\<lambda>k. fst k \<noteq> fst e) (bg_first x))\<rparr>, w)
            else Some (Inl UseAfterFree))))"

lemma bag_flush_all:
  "bag_flush (\<lambda>f (x, w). ret (x, w @ [f])) (x, w) = Some (Inr (x\<lparr>bg_first := []\<rparr>, w @ map snd (bg_first x)))"
proof (induction "bg_first x" arbitrary: x w)
  case Nil
  then show ?case by (subst bag_flush.simps) (simp add: Nil [symmetric])
next
  case (Cons e es)
  show ?case
    using Cons(1) [of "x\<lparr>bg_first := es\<rparr>" "w @ [snd e]"] by (subst bag_flush.simps) (simp add: Cons(2) [symmetric] ret_def)
qed

lemma bag_flush_cleared: "bg_first x = [(a, f)] \<Longrightarrow> bag_flush (\<lambda>f (x, w). ret (bag_clear x, w)) (x, w) = Some (Inl UseAfterFree)"
  by (subst bag_flush.simps) (simp add: ret_def bag_clear_def)

definition stripnote_float :: "(nat \<Rightarrow> fl \<Rightarrow> 's \<Rightarrow> 's cresult option) \<Rightarrow> fl \<Rightarrow> fl \<Rightarrow> 's \<Rightarrow> 's cresult option" where
  "stripnote_float outlet velo f st = (if fzero velo then ret st else rbind (outlet 2 velo st) (outlet 1 f))"

end
