(* ===== verification/XMidi.thy ===== *)
theory XMidi
  imports Midi
begin

unbundle bit_operations_syntax

text \<open>
  The objects for MIDI input and output (\<open>x_midi.c\<close>). Objects for input are bound to a name for their kind of message and
  get a list of its parts; they keep nothing, so that they are modelled by the messages that they send.
\<close>

subsection \<open>Input\<close>

text \<open>What an object sends through its outlets, numbered from the left; an outlet that was not made is a null pointer.\<close>

type_synonym sends = "(nat \<times> fl) list"

definition outlet_float :: "bool \<Rightarrow> nat \<Rightarrow> fl \<Rightarrow> sends \<Rightarrow> sends cresult" where
  "outlet_float made n f out = (if made then Inr (out @ [(n, f)]) else Inl NullDeref)"

definition midiin_list :: "t_atom list \<Rightarrow> sends cresult" where
  "midiin_list av = cbind (outlet_float True 2 (fadd binary32 (atom_getfloatarg 1 av) (Fin 1)) [])
     (outlet_float True 1 (atom_getfloatarg 0 av))"

text \<open>
  \<open>notein\<close> and \<open>polytouchin\<close> have the same methods, with two values and a channel, and so have \<open>pgmin\<close>, \<open>bendin\<close> and
  \<open>touchin\<close>, with one. The outlet for the channel is made where no channel is given.
\<close>

record t_chanin =
  ci_channel :: fl
  ci_chanout :: bool

definition chanin_new :: "fl \<Rightarrow> t_chanin" where
  "chanin_new f = \<lparr>ci_channel = f, ci_chanout = fzero f\<rparr>"

definition notein_list :: "t_chanin \<Rightarrow> t_atom list \<Rightarrow> sends cresult" where
  "notein_list x argv = (let pitch = atom_getfloatarg 0 argv; velo = atom_getfloatarg 1 argv; channel = atom_getfloatarg 2 argv in
     if \<not> fzero (ci_channel x) then
       (if \<not> feq channel (ci_channel x) then Inr []
        else cbind (outlet_float True 2 velo []) (outlet_float True 1 pitch))
     else cbind (outlet_float (ci_chanout x) 3 channel []) (\<lambda>out.
       cbind (outlet_float True 2 velo out) (outlet_float True 1 pitch)))"

definition polytouchin_list :: "t_chanin \<Rightarrow> t_atom list \<Rightarrow> sends cresult" where
  "polytouchin_list x argv = (let pitch = atom_getfloatarg 0 argv; value = atom_getfloatarg 1 argv; channel = atom_getfloatarg 2 argv in
     if \<not> fzero (ci_channel x) then
       (if \<not> feq channel (ci_channel x) then Inr []
        else cbind (outlet_float True 2 pitch []) (outlet_float True 1 value))
     else cbind (outlet_float (ci_chanout x) 3 channel []) (\<lambda>out.
       cbind (outlet_float True 2 pitch out) (outlet_float True 1 value)))"

definition value_list :: "t_chanin \<Rightarrow> t_atom list \<Rightarrow> sends cresult" where
  "value_list x argv = (let value = atom_getfloatarg 0 argv; channel = atom_getfloatarg 1 argv in
     if \<not> fzero (ci_channel x) then
       (if \<not> feq channel (ci_channel x) then Inr [] else outlet_float True 1 value [])
     else cbind (outlet_float (ci_chanout x) 2 channel []) (outlet_float True 1 value))"

definition pgmin_list :: "t_chanin \<Rightarrow> t_atom list \<Rightarrow> sends cresult" where
  "pgmin_list = value_list"

definition bendin_list :: "t_chanin \<Rightarrow> t_atom list \<Rightarrow> sends cresult" where
  "bendin_list = value_list"

definition touchin_list :: "t_chanin \<Rightarrow> t_atom list \<Rightarrow> sends cresult" where
  "touchin_list = value_list"

record t_ctlin =
  ct_channel :: fl
  ct_ctlno :: fl
  ct_outlet2 :: bool
  ct_outlet3 :: bool

definition ctlin_new :: "t_atom list \<Rightarrow> t_ctlin" where
  "ctlin_new argv = (let ctlno = (if argv = [] then -1 else int_of_fl (atom_getfloatarg 0 argv));
       channel = int_of_fl (atom_getfloatarg 1 argv) in
     \<lparr>ct_channel = fl_of_int binary32 channel, ct_ctlno = fl_of_int binary32 ctlno,
      ct_outlet2 = (channel = 0 \<and> flt (fl_of_int binary32 ctlno) (Fin 0)), ct_outlet3 = (channel = 0)\<rparr>)"

definition ctlin_list :: "t_ctlin \<Rightarrow> t_atom list \<Rightarrow> sends cresult" where
  "ctlin_list x argv = (let ctlnumber = atom_getfloatarg 0 argv; value = atom_getfloatarg 1 argv; channel = atom_getfloatarg 2 argv in
     if fle (Fin 0) (ct_ctlno x) \<and> \<not> feq (ct_ctlno x) ctlnumber then Inr []
     else if flt (Fin 0) (ct_channel x) \<and> \<not> feq (ct_channel x) channel then Inr []
     else cbind (if fzero (ct_channel x) then outlet_float (ct_outlet3 x) 3 channel [] else Inr []) (\<lambda>out.
       cbind (if flt (ct_ctlno x) (Fin 0) then outlet_float (ct_outlet2 x) 2 ctlnumber out else Inr out)
         (outlet_float True 1 value)))"

definition midirealtimein_list :: "t_atom list \<Rightarrow> sends cresult" where
  "midirealtimein_list argv = cbind (outlet_float True 2 (atom_getfloatarg 0 argv) []) (outlet_float True 1 (atom_getfloatarg 1 argv))"

definition midiclkin_list :: "t_atom list \<Rightarrow> sends cresult" where
  "midiclkin_list argv = cbind (outlet_float True 2 (atom_getfloatarg 1 argv) []) (outlet_float True 1 (atom_getfloatarg 0 argv))"

text \<open>The name an incoming message goes to and its list.\<close>

definition SETFLOAT :: "int \<Rightarrow> t_atom" where
  "SETFLOAT i = FLOAT (fl_of_int binary32 i)"

definition in_channel :: "int \<Rightarrow> int \<Rightarrow> t_atom" where
  "in_channel portno channel = SETFLOAT (channel + push_bit 4 portno + 1)"

definition inmidi_realtimein :: "int \<Rightarrow> int \<Rightarrow> string \<times> t_atom list" where
  "inmidi_realtimein portno SysMsg = (''#midirealtimein'', [SETFLOAT portno, SETFLOAT SysMsg])"

definition inmidi_byte :: "int \<Rightarrow> int \<Rightarrow> string \<times> t_atom list" where
  "inmidi_byte portno byte = (''#midiin'', [SETFLOAT byte, SETFLOAT (portno + 1)])"

definition inmidi_sysex :: "int \<Rightarrow> int \<Rightarrow> string \<times> t_atom list" where
  "inmidi_sysex portno byte = (''#sysexin'', [SETFLOAT byte, SETFLOAT (portno + 1)])"

definition inmidi_noteon :: "int \<Rightarrow> int \<Rightarrow> int \<Rightarrow> int \<Rightarrow> string \<times> t_atom list" where
  "inmidi_noteon portno channel pitch velo = (''#notein'', [SETFLOAT pitch, SETFLOAT velo, in_channel portno channel])"

definition inmidi_controlchange :: "int \<Rightarrow> int \<Rightarrow> int \<Rightarrow> int \<Rightarrow> string \<times> t_atom list" where
  "inmidi_controlchange portno channel ctlnumber value = (''#ctlin'', [SETFLOAT ctlnumber, SETFLOAT value, in_channel portno channel])"

definition inmidi_programchange :: "int \<Rightarrow> int \<Rightarrow> int \<Rightarrow> string \<times> t_atom list" where
  "inmidi_programchange portno channel value = (''#pgmin'', [SETFLOAT (value + 1), in_channel portno channel])"

definition inmidi_pitchbend :: "int \<Rightarrow> int \<Rightarrow> int \<Rightarrow> string \<times> t_atom list" where
  "inmidi_pitchbend portno channel value = (''#bendin'', [SETFLOAT value, in_channel portno channel])"

definition inmidi_aftertouch :: "int \<Rightarrow> int \<Rightarrow> int \<Rightarrow> string \<times> t_atom list" where
  "inmidi_aftertouch portno channel value = (''#touchin'', [SETFLOAT value, in_channel portno channel])"

definition inmidi_polyaftertouch :: "int \<Rightarrow> int \<Rightarrow> int \<Rightarrow> int \<Rightarrow> string \<times> t_atom list" where
  "inmidi_polyaftertouch portno channel pitch value = (''#polytouchin'', [SETFLOAT pitch, SETFLOAT value, in_channel portno channel])"

lemmas inmidi_defs [simp] = inmidi_realtimein_def inmidi_byte_def inmidi_sysex_def inmidi_noteon_def inmidi_controlchange_def
  inmidi_programchange_def inmidi_pitchbend_def inmidi_aftertouch_def inmidi_polyaftertouch_def

fun inmidi :: "midi_event \<Rightarrow> string \<times> t_atom list" where
  "inmidi (RealtimeIn portno SysMsg) = inmidi_realtimein portno SysMsg"
| "inmidi (ByteIn portno byte) = inmidi_byte portno byte"
| "inmidi (SysexIn portno byte) = inmidi_sysex portno byte"
| "inmidi (NoteOn portno channel pitch velo) = inmidi_noteon portno channel pitch velo"
| "inmidi (ControlChange portno channel ctlnumber value) = inmidi_controlchange portno channel ctlnumber value"
| "inmidi (ProgramChange portno channel value) = inmidi_programchange portno channel value"
| "inmidi (PitchBend portno channel value) = inmidi_pitchbend portno channel value"
| "inmidi (AfterTouch portno channel value) = inmidi_aftertouch portno channel value"
| "inmidi (PolyAfterTouch portno channel pitch value) = inmidi_polyaftertouch portno channel pitch value"

text \<open>The objects that are bound to these names.\<close>

datatype in_object = MidiIn | SysexInObj | RealtimeInObj | ClkIn | NoteIn t_chanin | CtlIn t_ctlin | PgmIn t_chanin | BendIn t_chanin
  | TouchIn t_chanin | PolyTouchIn t_chanin

fun bound_to :: "in_object \<Rightarrow> string" where
  "bound_to MidiIn = ''#midiin''"
| "bound_to SysexInObj = ''#sysexin''"
| "bound_to RealtimeInObj = ''#midirealtimein''"
| "bound_to ClkIn = ''#midiclkin''"
| "bound_to (NoteIn x) = ''#notein''"
| "bound_to (CtlIn x) = ''#ctlin''"
| "bound_to (PgmIn x) = ''#pgmin''"
| "bound_to (BendIn x) = ''#bendin''"
| "bound_to (TouchIn x) = ''#touchin''"
| "bound_to (PolyTouchIn x) = ''#polytouchin''"

fun in_list :: "in_object \<Rightarrow> t_atom list \<Rightarrow> sends cresult" where
  "in_list MidiIn av = midiin_list av"
| "in_list SysexInObj av = midiin_list av"
| "in_list RealtimeInObj av = midirealtimein_list av"
| "in_list ClkIn av = midiclkin_list av"
| "in_list (NoteIn x) av = notein_list x av"
| "in_list (CtlIn x) av = ctlin_list x av"
| "in_list (PgmIn x) av = pgmin_list x av"
| "in_list (BendIn x) av = bendin_list x av"
| "in_list (TouchIn x) av = touchin_list x av"
| "in_list (PolyTouchIn x) av = polytouchin_list x av"

text \<open>What an object sends in the course of a series of messages to the names.\<close>

fun hear :: "in_object \<Rightarrow> (string \<times> t_atom list) list \<Rightarrow> sends cresult" where
  "hear x [] = Inr []"
| "hear x (m # ms) = cbind (if fst m = bound_to x then in_list x (snd m) else Inr [])
     (\<lambda>out. cbind (hear x ms) (\<lambda>out'. Inr (out @ out')))"

text \<open>The MIDI clock keeps the time of the message before and counts.\<close>

definition inmidi_clk :: "fl \<Rightarrow> fl \<times> fl \<Rightarrow> t_atom list \<times> fl \<times> fl" where
  "inmidi_clk timing pc = (let diff = fl_convert binary32 (fsub binary64 timing (fst pc)); count = fadd binary32 (snd pc) (Fin 1) in
     if feq count (Fin 3) then ([FLOAT (Fin 1), FLOAT diff], fl_convert binary32 timing, Fin 0)
     else ([FLOAT (Fin 0), FLOAT diff], fl_convert binary32 timing, count))"

subsection \<open>Output\<close>

text \<open>
  An object for output keeps its further inlets. \<open>binchan\<close> is the channel counted from 0 with the port above its lower four bits.
\<close>

datatype out_object = NoteOut fl fl | CtlOut fl fl | PgmOut fl | BendOut fl | TouchOut fl | PolyTouchOut fl fl

fun out_chan :: "out_object \<Rightarrow> fl" where
  "out_chan (NoteOut velo ch) = ch"
| "out_chan (CtlOut ctl ch) = ch"
| "out_chan (PgmOut ch) = ch"
| "out_chan (BendOut ch) = ch"
| "out_chan (TouchOut ch) = ch"
| "out_chan (PolyTouchOut pitch ch) = ch"

definition noteout_new :: "fl \<Rightarrow> out_object" where
  "noteout_new channel = NoteOut (Fin 0) (if flt channel (Fin 1) then Fin 1 else channel)"

definition default_channel :: "fl \<Rightarrow> fl" where
  "default_channel channel = (if fle channel (Fin 0) then Fin 1 else channel)"

definition ctlout_new :: "fl \<Rightarrow> fl \<Rightarrow> out_object" where
  "ctlout_new ctl channel = CtlOut ctl (default_channel channel)"

definition pgmout_new :: "fl \<Rightarrow> out_object" where
  "pgmout_new channel = PgmOut (default_channel channel)"

definition bendout_new :: "fl \<Rightarrow> out_object" where
  "bendout_new channel = BendOut (default_channel channel)"

definition touchout_new :: "fl \<Rightarrow> out_object" where
  "touchout_new channel = TouchOut (default_channel channel)"

definition polytouchout_new :: "fl \<Rightarrow> out_object" where
  "polytouchout_new channel = PolyTouchOut (Fin 0) (default_channel channel)"

definition binchan :: "fl \<Rightarrow> int" where
  "binchan ch = (let n = int_of_fl (fsub binary32 ch (Fin 1)) in if n < 0 then 0 else n)"

definition noteout_float :: "fl \<Rightarrow> fl \<Rightarrow> fl \<Rightarrow> midi_mess" where
  "noteout_float velo ch f = outmidi_noteon (drop_bit 4 (binchan ch)) (binchan ch AND 15) (int_of_fl f) (int_of_fl velo)"

definition ctlout_float :: "fl \<Rightarrow> fl \<Rightarrow> fl \<Rightarrow> midi_mess" where
  "ctlout_float ctl ch f = outmidi_controlchange (drop_bit 4 (binchan ch)) (binchan ch AND 15) (int_of_fl ctl) (int_of_fl f)"

definition pgmout_float :: "fl \<Rightarrow> fl \<Rightarrow> midi_mess" where
  "pgmout_float ch f = (let n = int_of_fl (fsub binary32 f (Fin 1)); n = (if n < 0 then 0 else if n > 127 then 127 else n) in
     outmidi_programchange (drop_bit 4 (binchan ch)) (binchan ch AND 15) n)"

definition bendout_float :: "fl \<Rightarrow> fl \<Rightarrow> midi_mess" where
  "bendout_float ch f = outmidi_pitchbend (drop_bit 4 (binchan ch)) (binchan ch AND 15) (wrap32 (int_of_fl f + 8192))"

definition touchout_float :: "fl \<Rightarrow> fl \<Rightarrow> midi_mess" where
  "touchout_float ch f = outmidi_aftertouch (drop_bit 4 (binchan ch)) (binchan ch AND 15) (int_of_fl f)"

definition polytouchout_float :: "fl \<Rightarrow> fl \<Rightarrow> fl \<Rightarrow> midi_mess" where
  "polytouchout_float pitch ch f =
     outmidi_polyaftertouch (drop_bit 4 (binchan ch)) (binchan ch AND 15) (int_of_fl pitch) (int_of_fl f)"

fun out_float :: "out_object \<Rightarrow> fl \<Rightarrow> midi_mess" where
  "out_float (NoteOut velo ch) f = noteout_float velo ch f"
| "out_float (CtlOut ctl ch) f = ctlout_float ctl ch f"
| "out_float (PgmOut ch) f = pgmout_float ch f"
| "out_float (BendOut ch) f = bendout_float ch f"
| "out_float (TouchOut ch) f = touchout_float ch f"
| "out_float (PolyTouchOut pitch ch) f = polytouchout_float pitch ch f"

text \<open>\<open>midiout\<close> sends single bytes, past the queue.\<close>

definition midiout_new :: "fl \<Rightarrow> fl" where
  "midiout_new portno = (if fle portno (Fin 0) then Fin 1 else portno)"

definition midiout_float :: "fl \<Rightarrow> fl \<Rightarrow> midi_put" where
  "midiout_float portno f = PutByte (int_of_fl (fsub binary32 portno (Fin 1))) (int_of_fl f)"

subsection \<open>From object to object\<close>

definition out_element :: "fl \<times> out_object \<times> fl \<Rightarrow> t_midiqelem" where
  "out_element s = (case s of (t, x, f) \<Rightarrow> let m = out_float x f in
     midi_element t (mm_portno m) (mm_onebyte m) (mm_a m) (mm_b m) (mm_c m))"

text \<open>What the names are told of a number that came to an object for output.\<close>

definition int_atom :: "int \<Rightarrow> t_atom" where
  "int_atom i = FLOAT (Fin (of_int i))"

fun told :: "out_object \<Rightarrow> fl \<Rightarrow> string \<times> t_atom list" where
  "told (NoteOut velo ch) f = (''#notein'', [int_atom (clip_int 127 (int_of_fl f)), int_atom (clip_int 127 (int_of_fl velo)), FLOAT ch])"
| "told (CtlOut ctl ch) f = (''#ctlin'', [int_atom (clip_int 127 (int_of_fl ctl)), int_atom (clip_int 127 (int_of_fl f)), FLOAT ch])"
| "told (PgmOut ch) f = (''#pgmin'', [int_atom (clip_int 127 (int_of_fl (fsub binary32 f (Fin 1))) + 1), FLOAT ch])"
| "told (BendOut ch) f = (''#bendin'', [int_atom (clip_int 16383 (wrap32 (int_of_fl f + 8192))), FLOAT ch])"
| "told (TouchOut ch) f = (''#touchin'', [int_atom (clip_int 127 (int_of_fl f)), FLOAT ch])"
| "told (PolyTouchOut pitch ch) f =
     (''#polytouchin'', [int_atom (clip_int 127 (int_of_fl pitch)), int_atom (clip_int 127 (int_of_fl f)), FLOAT ch])"

fun call_of :: "out_object \<Rightarrow> fl \<Rightarrow> out_call" where
  "call_of (NoteOut velo ch) f = CallNoteOn (binchan ch AND 15) (int_of_fl f) (int_of_fl velo)"
| "call_of (CtlOut ctl ch) f = CallControlChange (binchan ch AND 15) (int_of_fl ctl) (int_of_fl f)"
| "call_of (PgmOut ch) f = CallProgramChange (binchan ch AND 15) (int_of_fl (fsub binary32 f (Fin 1)))"
| "call_of (BendOut ch) f = CallPitchBend (binchan ch AND 15) (wrap32 (int_of_fl f + 8192))"
| "call_of (TouchOut ch) f = CallAfterTouch (binchan ch AND 15) (int_of_fl f)"
| "call_of (PolyTouchOut pitch ch) f = CallPolyAfterTouch (binchan ch AND 15) (int_of_fl pitch) (int_of_fl f)"

definition on_port :: "int \<Rightarrow> fl \<Rightarrow> bool" where
  "on_port p ch \<longleftrightarrow> (case ch of Fin q \<Rightarrow> q = of_int \<lfloor>q\<rfloor> \<and> 16 * p < \<lfloor>q\<rfloor> \<and> \<lfloor>q\<rfloor> \<le> 16 * p + 16 | _ \<Rightarrow> False)"

lemma on_port_channel:
  assumes "on_port p ch" "0 \<le> p" "p < 16"
  shows "drop_bit 4 (binchan ch) = p" "ch = Fin (of_int (binchan ch mod 16 + push_bit 4 p + 1))"
proof -
  obtain c where c: "ch = Fin (of_int c)" "16 * p < c" "c \<le> 16 * p + 16"
    using assms(1) by (auto simp: on_port_def split: fl.splits)
  have "\<bar>c - 1\<bar> < 2 ^ 24" using c assms(2,3) by simp
  then have "fround binary32 (of_int (c - 1)) = Fin (of_int (c - 1))" by (intro fround_of_int) (simp_all add: binary32_def)
  then have "fsub binary32 ch (Fin 1) = Fin (of_int (c - 1))" by (simp add: c fsub_def)
  moreover have "int_of_fl (Fin (of_int (c - 1))) = c - 1" using c assms(2,3) by (intro int_of_fl_of_int) simp_all
  ultimately have b: "binchan ch = c - 1" using c assms(2) by (simp add: binchan_def Let_def)
  have d: "(c - 1) div 16 = p" using c by (intro int_div_pos_eq [of _ _ _ "c - 1 - 16 * p"]) simp_all
  then show "drop_bit 4 (binchan ch) = p" by (simp add: b drop_bit_eq_div)
  have "(c - 1) mod 16 + 16 * p = c - 1" using d by (metis add.commute mult_div_mod_eq)
  then show "ch = Fin (of_int (binchan ch mod 16 + push_bit 4 p + 1))" unfolding b by (simp add: c push_bit_eq_mult)
qed

lemma SETFLOAT_small: "\<bar>i\<bar> < 2 ^ 24 \<Longrightarrow> SETFLOAT i = int_atom i"
  by (simp add: SETFLOAT_def int_atom_def fl_of_int_binary32)

lemma SETFLOAT_clip: "SETFLOAT (clip_int 127 v) = int_atom (clip_int 127 v)" "SETFLOAT (clip_int 127 v + 1) = int_atom (clip_int 127 v + 1)"
  "SETFLOAT (clip_int 16383 v) = int_atom (clip_int 16383 v)"
  using clip_bounds [of 127 v] clip_bounds [of 16383 v] by (simp_all add: SETFLOAT_small)

lemma clip_again: "clip_int 127 (if n < 0 then 0 else if n > 127 then 127 else n) = clip_int 127 n"
  by (simp add: clip_int_def)

lemma out_element_call:
  assumes "on_port p (out_chan x)" "0 \<le> p" "p < 16"
  shows "out_element (t, x, f) = call_element p (t, call_of x f)"
  using on_port_channel(1) [OF assms]
  by (cases x) (simp_all add: out_element_def call_element_def noteout_float_def ctlout_float_def pgmout_float_def bendout_float_def
    touchout_float_def polytouchout_float_def Let_def outmidi_programchange_def clip_again)

lemma heard_told:
  assumes "on_port p (out_chan x)" "0 \<le> p" "p < 16"
  shows "map inmidi (heard p (call_of x f)) = [told x f]"
proof -
  have c: "in_channel p (binchan (out_chan x) mod 16) = FLOAT (out_chan x)"
  proof -
    have "0 \<le> binchan (out_chan x) mod 16" "binchan (out_chan x) mod 16 < 16" by simp_all
    then have "\<bar>binchan (out_chan x) mod 16 + push_bit 4 p + 1\<bar> < 2 ^ 24" using assms(2,3) by (simp add: push_bit_eq_mult)
    then show ?thesis using on_port_channel(2) [OF assms] by (simp add: in_channel_def SETFLOAT_small int_atom_def)
  qed
  then show ?thesis by (cases x) (simp_all add: SETFLOAT_clip and_15)
qed

text \<open>What \<open>notein\<close> makes of it, with a channel or without one.\<close>

fun notes_heard :: "fl \<Rightarrow> out_object \<Rightarrow> fl \<Rightarrow> sends" where
  "notes_heard ch (NoteOut velo c) f =
     (let notes = [(2, Fin (of_int (clip_int 127 (int_of_fl velo)))), (1, Fin (of_int (clip_int 127 (int_of_fl f))))] in
      if fzero ch then (3, c) # notes else if feq c ch then notes else [])"
| "notes_heard ch _ f = []"

lemma notein_hears: "hear (NoteIn (chanin_new ch)) (map (\<lambda>(t, x, f). told x f) ss) = Inr (concat (map (\<lambda>(t, x, f). notes_heard ch x f) ss))"
proof (induction ss)
  case (Cons s ss)
  obtain t x f where s: "s = (t, x, f)" by (metis prod.collapse)
  show ?case using Cons
    by (cases x) (simp_all add: s cbind_def notein_list_def chanin_new_def outlet_float_def atom_getfloatarg_def int_atom_def Let_def)
qed simp

text \<open>\<^bold>\<open>C14\<close>: From the objects for output to those for input. Whatever numbers come to objects such as \<open>noteout\<close> on the channels of one port, once
  the bytes have gone through both queues and over the wire the objects for input of the Pd at the other end are told just the same:
  the note, the velocity, the controller or the program clipped to 7 bits, the bend to 14 bits and counted from 0, and the channel
  that was set, in the same order. A \<open>notein\<close> sends on the notes of its channel or, without one, all with their channels.\<close>

theorem midi_objects_agree:
  assumes "midiq_ok Qo []" "outs \<noteq> []" "concat (map added outs) = map out_element ss"
    "\<forall>(t, x, f) \<in> set ss. on_port p (out_chan x)" "\<forall>e \<in> set (concat (map added outs)). fle (q_time e) (op_time (last outs))"
    "0 \<le> p" "p < nmidiout" "midiq_ok Qi []" "ins \<noteq> []"
    "\<forall>e \<in> set (concat (map added ins)). q_portno e = p \<and> fle (q_time e) (op_time (last ins))"
    "int (length (parser S)) = MAXMIDIINDEV" "p < MAXMIDIINDEV" "events S = []"
  shows "\<exists>Qo' puts. run_queue sys_putnext outs (Qo, []) = Some (Inr (Qo', puts)) \<and>
    (filter (\<lambda>b. b < 0xf8) (map q_byte1 (concat (map added ins))) =
       filter (\<lambda>b. b < 0xf8) (map snd (concat (map (oss_bytes nmidiout) puts))) \<longrightarrow>
     (\<exists>Qi' S'. run_queue sys_dispatchnextmidiin ins (Qi, S) = Some (Inr (Qi', S')) \<and>
        map inmidi (filter channel_event (events S')) = map (\<lambda>(t, x, f). told x f) ss \<and>
        hear (NoteIn (chanin_new ch)) (map inmidi (filter channel_event (events S'))) =
          Inr (concat (map (\<lambda>(t, x, f). notes_heard ch x f) ss))))"
proof -
  have p: "0 \<le> p" "p < 16" using assms(6,12) by (simp_all add: MAXMIDIINDEV_def)
  let ?calls = "map (\<lambda>(t, x, f). (t, call_of x f)) ss"
  have "map out_element ss = map (call_element p) ?calls" using assms(4) out_element_call [OF _ p] by (auto simp: split_def)
  then have *: "concat (map added outs) = map (call_element p) ?calls" using assms(3) by simp
  have "map inmidi (concat (map (heard p \<circ> snd) ?calls)) = map (\<lambda>(t, x, f). told x f) ss"
    using assms(4)
  proof (induction ss)
    case (Cons s ss)
    then show ?case using heard_told [OF _ p] by (auto split: prod.splits)
  qed simp
  moreover note midi_loopback [OF assms(1,2) * assms(5-12)]
  ultimately show ?thesis using assms(13) notein_hears [of ch ss] by fastforce
qed

lemma demo_note:
  "on_port 0 (Fin 3)" "out_element (Fin 5, NoteOut (Fin 200) (Fin 3), Fin 60) = call_element 0 (Fin 5, CallNoteOn 2 60 200)"
proof -
  show p: "on_port 0 (Fin 3)" by (simp add: on_port_def)
  have "binchan (Fin 3) mod 16 = 2" using on_port_channel(2) [OF p] by simp
  then show "out_element (Fin 5, NoteOut (Fin 200) (Fin 3), Fin 60) = call_element 0 (Fin 5, CallNoteOn 2 60 200)"
    using out_element_call [of 0 "NoteOut (Fin 200) (Fin 3)" "Fin 5" "Fin 60"] p int_of_fl_of_int [of 60] int_of_fl_of_int [of 200]
    by (simp add: and_15 del: int_of_fl.simps)
qed

theorem midi_objects_agree_witness:
  "\<exists>Qo' puts. run_queue sys_putnext [Enqueue (out_element (Fin 5, NoteOut (Fin 200) (Fin 3), Fin 60)) (Fin 5)] (demo_queue, []) =
      Some (Inr (Qo', puts)) \<and>
    (filter (\<lambda>b. b < 0xf8) [146, 60, 0xf8, 127] = filter (\<lambda>b. b < 0xf8) (map snd (concat (map (oss_bytes 1) puts))) \<longrightarrow>
     (\<exists>Qi' S'. run_queue sys_dispatchnextmidiin
          (map (\<lambda>b. Enqueue (midi_element (Fin 5) 0 True b 0 0) (Fin 5)) [146, 60, 0xf8, 127]) (demo_queue, demo_midiin) =
        Some (Inr (Qi', S')) \<and> map inmidi (filter channel_event (events S')) = [(''#notein'', [int_atom 60, int_atom 127, FLOAT (Fin 3)])] \<and>
        hear (NoteIn (chanin_new (Fin 0))) (map inmidi (filter channel_event (events S'))) = Inr [(3, Fin 3), (2, Fin 127), (1, Fin 60)]))"
proof -
  have i: "int_of_fl (Fin 60) = 60" "int_of_fl (Fin 200) = 200" using int_of_fl_of_int [of 60] int_of_fl_of_int [of 200] by simp_all
  show ?thesis
    using midi_objects_agree [OF demo_midi_ok(1), of "[Enqueue (out_element (Fin 5, NoteOut (Fin 200) (Fin 3), Fin 60)) (Fin 5)]"
      "[(Fin 5, NoteOut (Fin 200) (Fin 3), Fin 60)]" 0 1 demo_queue
      "map (\<lambda>b. Enqueue (midi_element (Fin 5) 0 True b 0 0) (Fin 5)) [146, 60, 0xf8, 127]", OF _ _ _ _ _ _ demo_midi_ok(1) _ _ demo_midi_ok(2), of "Fin 0"]
    by (simp add: demo_note call_element_def midi_element_def outmidi_defs demo_midiin_def MAXMIDIINDEV_def clip_int_def i int_atom_def fzero_def
      del: int_of_fl.simps)
qed

text \<open>The number of the port that \<open>midiin\<close> sends is one too great: both \<open>inmidi_byte\<close> and the object add 1 to it.\<close>

lemma midiin_port:
  assumes "\<bar>p\<bar> < 2 ^ 23"
  shows "hear MidiIn [inmidi (ByteIn p b)] = Inr [(2, Fin (of_int (p + 2))), (1, fl_of_int binary32 b)]"
proof -
  have "fround binary32 (of_int (p + 2)) = Fin (of_int (p + 2))" using assms by (intro fround_of_int) (simp_all add: binary32_def)
  moreover have "SETFLOAT (p + 1) = FLOAT (Fin (of_int (p + 1)))" using assms by (simp add: SETFLOAT_small int_atom_def)
  ultimately show ?thesis
    by (simp add: midiin_list_def atom_getfloatarg_def cbind_def outlet_float_def add.commute) (simp add: SETFLOAT_def)
qed

text \<open>A \<open>ctlin\<close> that is to take all controllers of one channel lacks the outlet for the controller.\<close>

lemma ctlin_all_of_channel:
  "hear (CtlIn (ctlin_new [FLOAT (Fin (-1)), FLOAT (Fin 2)])) [(''#ctlin'', [FLOAT c, FLOAT v, FLOAT (Fin 2)])] = Inl NullDeref"
proof -
  have "int_of_fl (Fin (-1)) = -1" "int_of_fl (Fin 2) = 2" using int_of_fl_of_int [of "-1"] int_of_fl_of_int [of 2] by simp_all
  then show ?thesis
    by (simp add: ctlin_new_def ctlin_list_def Let_def atom_getfloatarg_def cbind_def outlet_float_def fl_of_int_binary32 fzero_def del: int_of_fl.simps)
qed

end
