(* ===== verification/Gpointer.thy ===== *)
theory Gpointer
  imports Clock "HOL-Library.Multiset"
begin

text \<open>
  Pointers to data (\<open>g_traversal.c\<close>, with the owners of \<open>g_canvas.c\<close>, \<open>g_graph.c\<close> and \<open>g_array.c\<close>). A pointer leads to a list of scalars or to an
  array by way of a stub, which outlives its owner as long as pointers lead to it, and bears a number that tells whether the owner was
  changed since the pointer was set.
\<close>

subsection \<open>Stubs, owners and pointers\<close>

datatype gs_which = GP_NONE | GP_GLIST addr | GP_ARRAY addr

record t_gstub =
  gs_which :: gs_which
  gs_refcount :: int

text \<open>Of a list its scalars, of an array the number of its elements. \<open>gp_un\<close> is a scalar or \<open>None\<close> for the head of a list, or the index of an element.\<close>

record t_glist =
  gl_stub :: addr
  gl_valid :: int
  gl_list :: "addr list"

record t_array =
  a_stub :: addr
  a_valid :: int
  a_n :: nat

record t_gpointer =
  gp_stub :: "addr option"
  gp_valid :: int
  gp_un :: "nat option"

text \<open>
  \<open>gps\<close> are the pointers in objects. \<open>scalar_new\<close> sets a pointer on the stack that it never unsets; \<open>lost\<close> notes to which stub each of these was set.
\<close>

record gp_world =
  stubs :: "addr \<rightharpoonup> t_gstub"
  glists :: "addr \<rightharpoonup> t_glist"
  arrays :: "addr \<rightharpoonup> t_array"
  gps :: "t_gpointer list"
  lost :: "addr list"
  glist_valid :: int

definition gstub_new :: "gs_which \<Rightarrow> t_gstub" where
  "gstub_new owner = \<lparr>gs_which = owner, gs_refcount = 0\<rparr>"

text \<open>A stub that was freed must not be used; \<open>bug\<close> only prints.\<close>

definition gstub_dis :: "addr \<Rightarrow> gp_world \<Rightarrow> gp_world cresult" where
  "gstub_dis st w = (case stubs w st of None \<Rightarrow> Inl UseAfterFree
     | Some s \<Rightarrow> (let refcount = wrap32 (gs_refcount s - 1) in
         if refcount = 0 \<and> gs_which s = GP_NONE then Inr (w\<lparr>stubs := (stubs w)(st := None)\<rparr>)
         else Inr (w\<lparr>stubs := (stubs w)(st \<mapsto> s\<lparr>gs_refcount := refcount\<rparr>)\<rparr>)))"

definition gstub_cutoff :: "addr \<Rightarrow> gp_world \<Rightarrow> gp_world cresult" where
  "gstub_cutoff st w = (case stubs w st of None \<Rightarrow> Inl UseAfterFree
     | Some s \<Rightarrow> if gs_refcount s = 0 then Inr (w\<lparr>stubs := (stubs w)(st := None)\<rparr>)
         else Inr (w\<lparr>stubs := (stubs w)(st \<mapsto> s\<lparr>gs_which := GP_NONE\<rparr>)\<rparr>))"

definition gpointer_check :: "t_gpointer \<Rightarrow> bool \<Rightarrow> gp_world \<Rightarrow> bool cresult" where
  "gpointer_check gp headok w = (case gp_stub gp of None \<Rightarrow> Inr False
     | Some st \<Rightarrow> (case stubs w st of None \<Rightarrow> Inl UseAfterFree
       | Some s \<Rightarrow> (case gs_which s of
            GP_ARRAY a \<Rightarrow> (case arrays w a of None \<Rightarrow> Inl UseAfterFree | Some ar \<Rightarrow> Inr (a_valid ar = gp_valid gp))
          | GP_GLIST g \<Rightarrow> (if \<not> headok \<and> gp_un gp = None then Inr False
              else (case glists w g of None \<Rightarrow> Inl UseAfterFree | Some gl \<Rightarrow> Inr (gl_valid gl = gp_valid gp)))
          | GP_NONE \<Rightarrow> Inr False)))"

definition refer :: "addr \<Rightarrow> gp_world \<Rightarrow> gp_world cresult" where
  "refer st w = (case stubs w st of None \<Rightarrow> Inl UseAfterFree
     | Some s \<Rightarrow> Inr (w\<lparr>stubs := (stubs w)(st \<mapsto> s\<lparr>gs_refcount := wrap32 (gs_refcount s + 1)\<rparr>)\<rparr>))"

definition set_gp :: "nat \<Rightarrow> t_gpointer \<Rightarrow> gp_world \<Rightarrow> gp_world" where
  "set_gp p gp w = w\<lparr>gps := (gps w)[p := gp]\<rparr>"

lemma set_gp_sel [simp]: "stubs (set_gp p gp w) = stubs w" "glists (set_gp p gp w) = glists w" "arrays (set_gp p gp w) = arrays w"
    "glist_valid (set_gp p gp w) = glist_valid w" "lost (set_gp p gp w) = lost w" "gps (set_gp p gp w) = (gps w)[p := gp]"
  by (simp_all add: set_gp_def)

definition gpointer_copy :: "nat \<Rightarrow> nat \<Rightarrow> gp_world \<Rightarrow> gp_world cresult" where
  "gpointer_copy from to w = (let gp = gps w ! from; w1 = set_gp to gp w in
     case gp_stub gp of Some st \<Rightarrow> refer st w1 | None \<Rightarrow> Inr w1)"

definition gpointer_unset :: "nat \<Rightarrow> gp_world \<Rightarrow> gp_world cresult" where
  "gpointer_unset p w = (case gp_stub (gps w ! p) of None \<Rightarrow> Inr w
     | Some st \<Rightarrow> cbind (gstub_dis st w) (\<lambda>w1. Inr (set_gp p ((gps w ! p)\<lparr>gp_stub := None\<rparr>) w1)))"

definition gpointer_setglist :: "nat \<Rightarrow> addr \<Rightarrow> nat option \<Rightarrow> gp_world \<Rightarrow> gp_world cresult" where
  "gpointer_setglist p g sc w =
     cbind (case gp_stub (gps w ! p) of Some st \<Rightarrow> gstub_dis st w | None \<Rightarrow> Inr w) (\<lambda>w1.
       case glists w1 g of None \<Rightarrow> Inl UseAfterFree
       | Some gl \<Rightarrow> refer (gl_stub gl) (set_gp p \<lparr>gp_stub = Some (gl_stub gl), gp_valid = gl_valid gl, gp_un = sc\<rparr> w1))"

definition gpointer_setarray :: "nat \<Rightarrow> addr \<Rightarrow> nat \<Rightarrow> gp_world \<Rightarrow> gp_world cresult" where
  "gpointer_setarray p a k w =
     cbind (case gp_stub (gps w ! p) of Some st \<Rightarrow> gstub_dis st w | None \<Rightarrow> Inr w) (\<lambda>w1.
       case arrays w1 a of None \<Rightarrow> Inl UseAfterFree
       | Some ar \<Rightarrow> refer (a_stub ar) (set_gp p \<lparr>gp_stub = Some (a_stub ar), gp_valid = a_valid ar, gp_un = Some k\<rparr> w1))"

definition gpointer_init :: "t_gpointer" where
  "gpointer_init = \<lparr>gp_stub = None, gp_valid = 0, gp_un = None\<rparr>"

text \<open>The owners. The addresses of what is new are given. All counters are \<open>int\<close>.\<close>

definition glist_init :: "addr \<Rightarrow> addr \<Rightarrow> gp_world \<Rightarrow> gp_world" where
  "glist_init g st w = w\<lparr>stubs := (stubs w)(st \<mapsto> gstub_new (GP_GLIST g)), glist_valid := wrap32 (glist_valid w + 1),
     glists := (glists w)(g \<mapsto> \<lparr>gl_stub = st, gl_valid = wrap32 (glist_valid w + 1), gl_list = []\<rparr>)\<rparr>"

definition glist_add :: "addr \<Rightarrow> addr \<Rightarrow> gp_world \<Rightarrow> gp_world cresult" where
  "glist_add g y w = (case glists w g of None \<Rightarrow> Inl UseAfterFree
     | Some gl \<Rightarrow> Inr (w\<lparr>glists := (glists w)(g \<mapsto> gl\<lparr>gl_list := gl_list gl @ [y]\<rparr>)\<rparr>))"

definition scalar_new :: "addr \<Rightarrow> gp_world \<Rightarrow> gp_world cresult" where
  "scalar_new g w = (case glists w g of None \<Rightarrow> Inl UseAfterFree
     | Some gl \<Rightarrow> refer (gl_stub gl) (w\<lparr>lost := gl_stub gl # lost w\<rparr>))"

text \<open>\<open>glist_readscalar\<close>: a scalar is made and put into the list.\<close>

definition glist_readscalar :: "addr \<Rightarrow> addr \<Rightarrow> gp_world \<Rightarrow> gp_world cresult" where
  "glist_readscalar g y w = cbind (scalar_new g w) (glist_add g y)"

definition glist_delete :: "addr \<Rightarrow> addr \<Rightarrow> gp_world \<Rightarrow> gp_world cresult" where
  "glist_delete g y w = (case glists w g of None \<Rightarrow> Inl UseAfterFree
     | Some gl \<Rightarrow> Inr (w\<lparr>glists := (glists w)(g \<mapsto> gl\<lparr>gl_list := remove1 y (gl_list gl), gl_valid := wrap32 (glist_valid w + 1)\<rparr>),
         glist_valid := wrap32 (glist_valid w + 1)\<rparr>))"

definition glist_free :: "addr \<Rightarrow> gp_world \<Rightarrow> gp_world cresult" where
  "glist_free g w = (case glists w g of None \<Rightarrow> Inl UseAfterFree
     | Some gl \<Rightarrow> cbind (gstub_cutoff (gl_stub gl) w) (\<lambda>w1. Inr (w1\<lparr>glists := (glists w1)(g := None)\<rparr>)))"

text \<open>A canvas deletes all it contains before it goes.\<close>

fun delete_objects :: "addr list \<Rightarrow> addr \<Rightarrow> gp_world \<Rightarrow> gp_world cresult" where
  "delete_objects [] g w = Inr w"
| "delete_objects (y # ys) g w = cbind (glist_delete g y w) (delete_objects ys g)"

definition canvas_free :: "addr \<Rightarrow> gp_world \<Rightarrow> gp_world cresult" where
  "canvas_free g w = (case glists w g of None \<Rightarrow> Inl UseAfterFree
     | Some gl \<Rightarrow> cbind (delete_objects (gl_list gl) g w) (glist_free g))"

definition array_new :: "addr \<Rightarrow> addr \<Rightarrow> gp_world \<Rightarrow> gp_world" where
  "array_new a st w = w\<lparr>stubs := (stubs w)(st \<mapsto> gstub_new (GP_ARRAY a)),
     arrays := (arrays w)(a \<mapsto> \<lparr>a_stub = st, a_valid = 0, a_n = 1\<rparr>)\<rparr>"

definition array_resize :: "addr \<Rightarrow> int \<Rightarrow> gp_world \<Rightarrow> gp_world cresult" where
  "array_resize a n w = (case arrays w a of None \<Rightarrow> Inl UseAfterFree
     | Some ar \<Rightarrow> Inr (w\<lparr>arrays := (arrays w)(a \<mapsto> ar\<lparr>a_n := nat (if n < 1 then 1 else n), a_valid := wrap32 (glist_valid w + 1)\<rparr>),
         glist_valid := wrap32 (glist_valid w + 1)\<rparr>))"

definition array_free :: "addr \<Rightarrow> gp_world \<Rightarrow> gp_world cresult" where
  "array_free a w = (case arrays w a of None \<Rightarrow> Inl UseAfterFree
     | Some ar \<Rightarrow> cbind (gstub_cutoff (a_stub ar) w) (\<lambda>w1. Inr (w1\<lparr>arrays := (arrays w1)(a := None)\<rparr>)))"

subsection \<open>The pointer object\<close>

text \<open>The pointer object \<open>p\<close> holds a pointer and sends it out by the outlet of the template of its scalar, the last but one outlet for a template
  it has none for. Of the editor, whether the list is visible and which scalars are selected is given.\<close>

datatype ptr_out = Ptr_error string | Pointer_out "nat option" addr | Bang_out

fun typed_outlet :: "string list \<Rightarrow> string \<Rightarrow> nat option" where
  "typed_outlet [] s = None"
| "typed_outlet (t # ts) s = (if t = s then Some 0 else map_option Suc (typed_outlet ts s))"

text \<open>The list behind a scalar, from the head where there is none; a scalar that was deleted must not be used.\<close>

definition list_behind :: "addr option \<Rightarrow> addr list \<Rightarrow> addr list cresult" where
  "list_behind sc ys = (case sc of None \<Rightarrow> Inr ys
     | Some y \<Rightarrow> (case dropWhile (\<lambda>z. z \<noteq> y) ys of [] \<Rightarrow> Inl UseAfterFree | _ # zs \<Rightarrow> Inr zs))"

definition ptrobj_vnext :: "string list \<Rightarrow> (addr \<Rightarrow> string) \<Rightarrow> (addr \<Rightarrow> bool) \<Rightarrow> (addr \<Rightarrow> bool) \<Rightarrow> bool \<Rightarrow> nat \<Rightarrow> gp_world \<Rightarrow> (ptr_out \<times> gp_world) cresult" where
  "ptrobj_vnext types sc_template visible selected wantselected p w = (let gp = gps w ! p in
     case gp_stub gp of None \<Rightarrow> Inr (Ptr_error ''ptrobj_next: no current pointer'', w)
     | Some st \<Rightarrow> (case stubs w st of None \<Rightarrow> Inl UseAfterFree
       | Some gs \<Rightarrow> (case gs_which gs of
            GP_GLIST g \<Rightarrow> (case glists w g of None \<Rightarrow> Inl UseAfterFree
              | Some gl \<Rightarrow> if gl_valid gl \<noteq> gp_valid gp then Inr (Ptr_error ''ptrobj_next: stale pointer'', w)
                  else if wantselected \<and> \<not> visible g then Inr (Ptr_error ''ptrobj_vnext: next-selected only works for a visible window'', w)
                  else cbind (list_behind (gp_un gp) (gl_list gl)) (\<lambda>ys.
                    case dropWhile (\<lambda>y. wantselected \<and> \<not> selected y) ys of
                      y # _ \<Rightarrow> Inr (Pointer_out (typed_outlet types (sc_template y)) y, set_gp p (gp\<lparr>gp_un := Some y\<rparr>) w)
                    | [] \<Rightarrow> cbind (gpointer_unset p w) (\<lambda>w'. Inr (Bang_out, w'))))
          | _ \<Rightarrow> Inr (Ptr_error ''ptrobj_next: lists only, not arrays'', w))))"

definition ptrobj_traverse :: "nat \<Rightarrow> addr option \<Rightarrow> gp_world \<Rightarrow> gp_world cresult" where
  "ptrobj_traverse p list w = (case list of Some g \<Rightarrow> gpointer_setglist p g None w | None \<Rightarrow> Inr w)"

text \<open>The object append makes a scalar behind the one its pointer leads to and moves the pointer there. It was created with fields and its template is known;
  the scalar \<open>y\<close> is new.\<close>

definition insert_behind :: "addr option \<Rightarrow> addr \<Rightarrow> addr list \<Rightarrow> addr list cresult" where
  "insert_behind sc y ys = (case sc of None \<Rightarrow> Inr (y # ys)
     | Some z \<Rightarrow> cbind (list_behind sc ys) (\<lambda>zs. Inr (takeWhile (\<lambda>u. u \<noteq> z) ys @ z # y # zs)))"

definition append_float :: "addr \<Rightarrow> nat \<Rightarrow> gp_world \<Rightarrow> (ptr_out \<times> gp_world) cresult" where
  "append_float y p w = (let gp = gps w ! p in
     case gp_stub gp of None \<Rightarrow> Inr (Ptr_error ''append: no current pointer'', w)
     | Some st \<Rightarrow> (case stubs w st of None \<Rightarrow> Inl UseAfterFree
       | Some gs \<Rightarrow> (case gs_which gs of
            GP_GLIST g \<Rightarrow> (case glists w g of None \<Rightarrow> Inl UseAfterFree
              | Some gl \<Rightarrow> if gl_valid gl \<noteq> gp_valid gp then Inr (Ptr_error ''append: stale pointer'', w)
                  else cbind (scalar_new g w) (\<lambda>w1. cbind (insert_behind (gp_un gp) y (gl_list gl)) (\<lambda>ys.
                    Inr (Pointer_out (Some 0) y, set_gp p (gp\<lparr>gp_un := Some y\<rparr>) (w1\<lparr>glists := (glists w1)(g \<mapsto> gl\<lparr>gl_list := ys\<rparr>)\<rparr>)))))
          | _ \<Rightarrow> Inr (Ptr_error ''append: lists only, not arrays'', w))))"

text \<open>The part of \<open>ptrobj_pointer\<close> before the pointer goes out.\<close>

definition ptrobj_pointer :: "nat \<Rightarrow> nat \<Rightarrow> gp_world \<Rightarrow> gp_world cresult" where
  "ptrobj_pointer p gp w = cbind (gpointer_unset p w) (gpointer_copy gp p)"

subsection \<open>No pointer dangles\<close>

definition refs_to :: "gp_world \<Rightarrow> addr \<Rightarrow> int" where
  "refs_to w st = int (count (mset (map gp_stub (gps w))) (Some st)) + int (count (mset (lost w)) st)"

lemma refs_le: "refs_to w st \<le> int (length (gps w) + length (lost w))"
  using count_le_size [of "mset (map gp_stub (gps w))" "Some st"] count_le_size [of "mset (lost w)" st]
  by (simp add: refs_to_def del: mset_map)

lemma refs_nonneg: "0 \<le> refs_to w st"
  by (simp add: refs_to_def)

text \<open>The counters do not wrap as long as there is room for \<open>k\<close> more operations: a list that is freed counts each of its scalars.\<close>

definition listed :: "gp_world \<Rightarrow> nat" where
  "listed w = (\<Sum>g \<in> dom (glists w). length (gl_list (the (glists w g))))"

definition room :: "nat \<Rightarrow> gp_world \<Rightarrow> bool" where
  "room k w \<longleftrightarrow> finite (dom (glists w)) \<and> length (gps w) + length (lost w) + k < 2 ^ 31 - 1 \<and>
     glist_valid w + int (listed w) + 2 * int k < 2 ^ 31 - 1"

definition same_owners :: "gp_world \<Rightarrow> gp_world \<Rightarrow> bool" where
  "same_owners w w' \<longleftrightarrow> glists w' = glists w \<and> arrays w' = arrays w \<and> glist_valid w' = glist_valid w \<and>
     length (gps w') = length (gps w) \<and> lost w' = lost w"

lemma room_same: "same_owners w w' \<Longrightarrow> room k w' = room k w"
  by (simp add: same_owners_def room_def listed_def)

lemma room_mono: "room k w \<Longrightarrow> j \<le> k \<Longrightarrow> room j w"
  by (auto simp: room_def)

lemma wrap_refs:
  assumes "room k w" "gs_refcount s = refs_to w st"
  shows "0 < refs_to w st \<Longrightarrow> wrap32 (gs_refcount s - 1) = gs_refcount s - 1" "0 < k \<Longrightarrow> wrap32 (gs_refcount s + 1) = gs_refcount s + 1"
  using refs_le [of w st] refs_nonneg [of w st] assms by (auto simp: room_def intro!: wrap32_id)

lemma wrap_valid: "room k w \<Longrightarrow> 0 < k \<Longrightarrow> 0 \<le> glist_valid w \<Longrightarrow> wrap32 (glist_valid w + 1) = glist_valid w + 1"
  by (intro wrap32_id) (auto simp: room_def)

lemma listed_upd:
  assumes "finite (dom (glists w))" "glists w g = Some gl"
  shows "listed (w\<lparr>glists := (glists w)(g \<mapsto> gl')\<rparr>) + length (gl_list gl) = listed w + length (gl_list gl')"
proof -
  have g: "g \<in> dom (glists w)" using assms(2) by auto
  then have "insert g (dom (glists w)) = dom (glists w)" by auto
  moreover have "(\<Sum>h \<in> dom (glists w) - {g}. length (gl_list (the (((glists w)(g \<mapsto> gl')) h)))) = (\<Sum>h \<in> dom (glists w) - {g}. length (gl_list (the (glists w h))))"
    by (intro sum.cong) auto
  ultimately show ?thesis
    unfolding listed_def using sum.remove [OF assms(1) g, of "\<lambda>h. length (gl_list (the (((glists w)(g \<mapsto> gl')) h)))"]
      sum.remove [OF assms(1) g, of "\<lambda>h. length (gl_list (the (glists w h)))"] assms(2) by simp
qed

text \<open>A pointer is good if, where its owner lives and is unchanged, there is what it leads to.\<close>

definition gp_good :: "gp_world \<Rightarrow> t_gpointer \<Rightarrow> bool" where
  "gp_good w gp \<longleftrightarrow> gp_valid gp \<le> glist_valid w \<and> (\<forall>st s. gp_stub gp = Some st \<longrightarrow> stubs w st = Some s \<longrightarrow>
     (\<forall>g gl. gs_which s = GP_GLIST g \<longrightarrow> glists w g = Some gl \<longrightarrow> gl_valid gl = gp_valid gp \<longrightarrow> set_option (gp_un gp) \<subseteq> set (gl_list gl)) \<and>
     (\<forall>a ar. gs_which s = GP_ARRAY a \<longrightarrow> arrays w a = Some ar \<longrightarrow> a_valid ar = gp_valid gp \<longrightarrow> (\<exists>k < a_n ar. gp_un gp = Some k)))"

definition stub_ok :: "gp_world \<Rightarrow> addr \<Rightarrow> bool" where
  "stub_ok w st \<longleftrightarrow> (case stubs w st of
      None \<Rightarrow> refs_to w st = 0
    | Some s \<Rightarrow> gs_refcount s = refs_to w st \<and> (case gs_which s of
         GP_NONE \<Rightarrow> refs_to w st \<noteq> 0
       | GP_GLIST g \<Rightarrow> \<exists>gl. glists w g = Some gl \<and> gl_stub gl = st
       | GP_ARRAY a \<Rightarrow> \<exists>ar. arrays w a = Some ar \<and> a_stub ar = st))"

definition owners_ok :: "gp_world \<Rightarrow> bool" where
  "owners_ok w \<longleftrightarrow> 0 \<le> glist_valid w \<and>
     (\<forall>g gl. glists w g = Some gl \<longrightarrow> gl_valid gl \<le> glist_valid w \<and> (\<exists>s. stubs w (gl_stub gl) = Some s \<and> gs_which s = GP_GLIST g)) \<and>
     (\<forall>a ar. arrays w a = Some ar \<longrightarrow> a_valid ar \<le> glist_valid w \<and> (\<exists>s. stubs w (a_stub ar) = Some s \<and> gs_which s = GP_ARRAY a))"

definition gp_inv :: "gp_world \<Rightarrow> bool" where
  "gp_inv w \<longleftrightarrow> (\<forall>st. stub_ok w st) \<and> owners_ok w \<and> (\<forall>gp \<in> set (gps w). gp_good w gp)"

lemma refs_to_set_gp:
  assumes "p < length (gps w)"
  shows "refs_to (set_gp p gp w) st = refs_to w st - (if gp_stub (gps w ! p) = Some st then 1 else 0) + (if gp_stub gp = Some st then 1 else 0)"
proof -
  have "gp_stub (gps w ! p) \<in># mset (map gp_stub (gps w))" using assms by simp
  then obtain n where n: "count (mset (map gp_stub (gps w))) (gp_stub (gps w ! p)) = Suc n"
    by (metis count_greater_zero_iff gr0_conv_Suc)
  show ?thesis
  proof (cases "gp_stub (gps w ! p) = Some st")
    case True
    then show ?thesis using assms n by (auto simp: refs_to_def set_gp_def map_update mset_update simp del: mset_map)
  next
    case False
    then show ?thesis using assms by (auto simp: refs_to_def set_gp_def map_update mset_update simp del: mset_map)
  qed
qed

lemma refs_to_stubs [simp]: "refs_to (w\<lparr>stubs := f\<rparr>) st = refs_to w st" "refs_to (w\<lparr>glists := gs\<rparr>) st = refs_to w st"
    "refs_to (w\<lparr>arrays := as\<rparr>) st = refs_to w st" "refs_to (w\<lparr>glist_valid := n\<rparr>) st = refs_to w st"
  by (simp_all add: refs_to_def)

lemma gp_good_stubs:
  assumes "gp_good w gp" "\<And>st s'. stubs w' st = Some s' \<Longrightarrow> \<exists>s. stubs w st = Some s \<and> gs_which s = gs_which s'"
    "glists w' = glists w" "arrays w' = arrays w" "glist_valid w' = glist_valid w"
  shows "gp_good w' gp"
  unfolding gp_good_def assms(3-5)
proof (intro conjI allI impI)
  show "gp_valid gp \<le> glist_valid w" using assms(1) by (simp add: gp_good_def)
next
  fix st s' g gl assume *: "gp_stub gp = Some st" "stubs w' st = Some s'" "gs_which s' = GP_GLIST g" "glists w g = Some gl" "gl_valid gl = gp_valid gp"
  obtain s where "stubs w st = Some s" "gs_which s = GP_GLIST g" using assms(2) [OF *(2)] *(3) by auto
  then show "set_option (gp_un gp) \<subseteq> set (gl_list gl)" using assms(1) * unfolding gp_good_def by blast
next
  fix st s' a ar assume *: "gp_stub gp = Some st" "stubs w' st = Some s'" "gs_which s' = GP_ARRAY a" "arrays w a = Some ar" "a_valid ar = gp_valid gp"
  obtain s where "stubs w st = Some s" "gs_which s = GP_ARRAY a" using assms(2) [OF *(2)] *(3) by auto
  then show "\<exists>k < a_n ar. gp_un gp = Some k" using assms(1) * unfolding gp_good_def by blast
qed

lemma gp_good_unset: "gp_good w gp \<Longrightarrow> gp_good w (gp\<lparr>gp_stub := None\<rparr>)"
  by (simp add: gp_good_def)

text \<open>Unsetting a pointer, and setting one that is not set.\<close>

lemma unset_inv:
  assumes "gp_inv w" "p < length (gps w)" "room k w"
  shows "\<exists>w'. gpointer_unset p w = Inr w' \<and> gp_inv w' \<and> gp_stub (gps w' ! p) = None \<and> same_owners w w'"
proof (cases "gp_stub (gps w ! p)")
  case None
  then show ?thesis using assms by (simp add: gpointer_unset_def same_owners_def)
next
  case (Some st)
  have pos: "0 < refs_to w st"
  proof -
    have "Some st \<in># mset (map gp_stub (gps w))" using assms(2) Some [symmetric] by simp
    then have "0 < count (mset (map gp_stub (gps w))) (Some st)" by (simp only: count_greater_zero_iff)
    then show ?thesis unfolding refs_to_def by linarith
  qed
  have ok: "stub_ok w st'" for st' using assms(1) by (simp add: gp_inv_def)
  with pos obtain s where s: "stubs w st = Some s" "gs_refcount s = refs_to w st" using ok [of st] by (cases "stubs w st") (auto simp: stub_ok_def simp del: split_paired_All)
  define freed where "freed \<longleftrightarrow> gs_refcount s = 1 \<and> gs_which s = GP_NONE"
  define w' where "w' = set_gp p ((gps w ! p)\<lparr>gp_stub := None\<rparr>)
    (w\<lparr>stubs := (stubs w)(st := (if freed then None else Some (s\<lparr>gs_refcount := gs_refcount s - 1\<rparr>)))\<rparr>)"
  have unset: "gpointer_unset p w = Inr w'"
    by (simp add: wrap_refs(1) [OF assms(3) s(2) pos] gpointer_unset_def Some gstub_dis_def s(1) Let_def freed_def w'_def cbind_def fun_upd_def)
  have refs: "refs_to w' st' = refs_to w st' - (if st' = st then 1 else 0)" for st'
    unfolding w'_def using assms(2) Some by (subst refs_to_set_gp) auto
  have w': "glists w' = glists w" "arrays w' = arrays w" "glist_valid w' = glist_valid w" "gps w' = (gps w)[p := (gps w ! p)\<lparr>gp_stub := None\<rparr>]"
      "stubs w' = (stubs w)(st := (if freed then None else Some (s\<lparr>gs_refcount := gs_refcount s - 1\<rparr>)))"
    by (simp_all add: w'_def set_gp_def)
  have "stub_ok w' st'" for st'
  proof (cases "st' = st")
    case True
    then show ?thesis using ok [of st] s refs [of st] by (auto simp: stub_ok_def w' freed_def split: gs_which.splits)
  next
    case False
    then show ?thesis using ok [of st'] refs [of st'] by (auto simp: stub_ok_def w' split: option.splits gs_which.splits)
  qed
  moreover have "owners_ok w'"
  proof -
    have "owners_ok w" using assms(1) by (simp add: gp_inv_def)
    then show ?thesis using s(1) unfolding owners_ok_def w' freed_def by fastforce
  qed
  moreover have "gp_good w' gp" if "gp \<in> set (gps w')" for gp
  proof -
    have "gp \<in> set (gps w) \<or> gp = (gps w ! p)\<lparr>gp_stub := None\<rparr>" using that set_update_subset_insert by (fastforce simp: w')
    moreover have "gp_good w gp" if "gp \<in> set (gps w)" for gp using assms(1) that by (simp add: gp_inv_def)
    moreover have "gp_good w (gps w ! p)" using assms by (simp add: gp_inv_def)
    ultimately have "gp_good w gp" using gp_good_unset by blast
    then show ?thesis by (rule gp_good_stubs) (use s(1) in \<open>auto simp: w' split: if_splits\<close>)
  qed
  ultimately show ?thesis using unset by (intro exI [of _ w']) (simp add: gp_inv_def w' assms(2) same_owners_def, simp add: w'_def)
qed

lemma point_inv:
  assumes "gp_inv w" "p < length (gps w)" "gp_stub (gps w ! p) = None" "gp_stub gp = Some st" "stubs w st = Some s" "gp_good w gp" "room (Suc k) w"
  shows "\<exists>w'. refer st (set_gp p gp w) = Inr w' \<and> gp_inv w' \<and> gps w' = (gps w)[p := gp] \<and> same_owners w w'"
proof -
  define w' where "w' = (set_gp p gp w)\<lparr>stubs := (stubs w)(st \<mapsto> s\<lparr>gs_refcount := gs_refcount s + 1\<rparr>)\<rparr>"
  have "stub_ok w st" using assms(1) by (simp add: gp_inv_def)
  then have "gs_refcount s = refs_to w st" using assms(5) by (simp add: stub_ok_def)
  then have "wrap32 (gs_refcount s + 1) = gs_refcount s + 1" using wrap_refs(2) [OF assms(7)] by blast
  then have "refer st (set_gp p gp w) = Inr w'" using assms(5) by (simp add: refer_def w'_def set_gp_def)
  moreover have refs: "refs_to w' st' = refs_to w st' + (if st' = st then 1 else 0)" for st'
    unfolding w'_def refs_to_stubs using assms(2-4) by (subst refs_to_set_gp) auto
  moreover have ok: "stub_ok w st'" for st' using assms(1) by (simp add: gp_inv_def)
  moreover have w': "glists w' = glists w" "arrays w' = arrays w" "glist_valid w' = glist_valid w" "gps w' = (gps w)[p := gp]"
      "stubs w' = (stubs w)(st \<mapsto> s\<lparr>gs_refcount := gs_refcount s + 1\<rparr>)"
    by (simp_all add: w'_def set_gp_def)
  moreover have "stub_ok w' st'" for st'
  proof (cases "st' = st")
    case True
    have "0 \<le> refs_to w st" by (simp add: refs_to_def)
    then show ?thesis using ok [of st] assms(5) refs [of st] True by (auto simp: stub_ok_def w' split: gs_which.splits)
  next
    case False
    then show ?thesis using ok [of st'] refs [of st'] by (auto simp: stub_ok_def w' split: option.splits gs_which.splits)
  qed
  moreover have "owners_ok w'"
  proof -
    have "owners_ok w" using assms(1) by (simp add: gp_inv_def)
    then show ?thesis using assms(5) unfolding owners_ok_def w' by fastforce
  qed
  moreover have "gp_good w' gp'" if "gp' \<in> set (gps w')" for gp'
  proof -
    have "gp' \<in> set (gps w) \<or> gp' = gp" using that set_update_subset_insert by (fastforce simp: w')
    then have "gp_good w gp'" using assms(1,6) by (auto simp: gp_inv_def)
    then show ?thesis by (rule gp_good_stubs) (use assms(5) in \<open>auto simp: w' split: if_splits\<close>)
  qed
  ultimately show ?thesis by (auto simp: gp_inv_def same_owners_def w'_def)
qed

text \<open>To set a pointer is to unset it and to point it anew.\<close>

lemma setglist_unset: "gpointer_setglist p g sc w = cbind (gpointer_unset p w) (\<lambda>w1. case glists w1 g of None \<Rightarrow> Inl UseAfterFree
    | Some gl \<Rightarrow> refer (gl_stub gl) (set_gp p \<lparr>gp_stub = Some (gl_stub gl), gp_valid = gl_valid gl, gp_un = sc\<rparr> w1))"
  unfolding gpointer_setglist_def gpointer_unset_def
  by (cases "gp_stub (gps w ! p)") (auto simp: cbind_def set_gp_def split: sum.splits option.splits)

lemma setarray_unset: "gpointer_setarray p a k w = cbind (gpointer_unset p w) (\<lambda>w1. case arrays w1 a of None \<Rightarrow> Inl UseAfterFree
    | Some ar \<Rightarrow> refer (a_stub ar) (set_gp p \<lparr>gp_stub = Some (a_stub ar), gp_valid = a_valid ar, gp_un = Some k\<rparr> w1))"
  unfolding gpointer_setarray_def gpointer_unset_def
  by (cases "gp_stub (gps w ! p)") (auto simp: cbind_def set_gp_def split: sum.splits option.splits)

lemma owner_stub_list: "owners_ok w \<Longrightarrow> glists w g = Some gl \<Longrightarrow> \<exists>s. stubs w (gl_stub gl) = Some s \<and> gs_which s = GP_GLIST g"
  by (simp add: owners_ok_def)

lemma owner_stub_array: "owners_ok w \<Longrightarrow> arrays w a = Some ar \<Longrightarrow> \<exists>s. stubs w (a_stub ar) = Some s \<and> gs_which s = GP_ARRAY a"
  by (simp add: owners_ok_def)

lemma owners_ok_from:
  assumes "owners_ok w" "glist_valid w \<le> glist_valid w'"
    "\<And>g gl. glists w' g = Some gl \<Longrightarrow> gl_valid gl \<le> glist_valid w' \<and> (\<exists>s. stubs w' (gl_stub gl) = Some s \<and> gs_which s = GP_GLIST g) \<or>
       glists w g = Some gl \<and> stubs w' (gl_stub gl) = stubs w (gl_stub gl)"
    "\<And>a ar. arrays w' a = Some ar \<Longrightarrow> a_valid ar \<le> glist_valid w' \<and> (\<exists>s. stubs w' (a_stub ar) = Some s \<and> gs_which s = GP_ARRAY a) \<or>
       arrays w a = Some ar \<and> stubs w' (a_stub ar) = stubs w (a_stub ar)"
  shows "owners_ok w'"
  unfolding owners_ok_def
proof (intro conjI allI impI)
  show "0 \<le> glist_valid w'" using assms(1,2) by (simp add: owners_ok_def)
next
  fix g gl assume *: "glists w' g = Some gl"
  have "gl_valid gl \<le> glist_valid w" "\<exists>s. stubs w (gl_stub gl) = Some s \<and> gs_which s = GP_GLIST g" if "glists w g = Some gl"
    using assms(1) that by (simp_all add: owners_ok_def)
  then show "gl_valid gl \<le> glist_valid w'" "\<exists>s. stubs w' (gl_stub gl) = Some s \<and> gs_which s = GP_GLIST g"
    using assms(3) [OF *] assms(2) by auto
next
  fix a ar assume *: "arrays w' a = Some ar"
  have "a_valid ar \<le> glist_valid w" "\<exists>s. stubs w (a_stub ar) = Some s \<and> gs_which s = GP_ARRAY a" if "arrays w a = Some ar"
    using assms(1) that by (simp_all add: owners_ok_def)
  then show "a_valid ar \<le> glist_valid w'" "\<exists>s. stubs w' (a_stub ar) = Some s \<and> gs_which s = GP_ARRAY a"
    using assms(4) [OF *] assms(2) by auto
qed

lemma setglist_inv:
  assumes "gp_inv w" "p < length (gps w)" "glists w g = Some gl" "set_option sc \<subseteq> set (gl_list gl)" "room (Suc r) w"
  shows "\<exists>w'. gpointer_setglist p g sc w = Inr w' \<and> gp_inv w' \<and> same_owners w w'"
proof -
  obtain w1 where w1: "gpointer_unset p w = Inr w1" "gp_inv w1" "gp_stub (gps w1 ! p) = None" "same_owners w w1"
    using unset_inv [OF assms(1,2,5)] by blast
  then have w1': "length (gps w1) = length (gps w)" "glists w1 = glists w" "arrays w1 = arrays w" by (simp_all add: same_owners_def)
  have room1: "room (Suc r) w1" using room_same [OF w1(4)] assms(5) by simp
  have own: "owners_ok w1" using w1(2) by (simp add: gp_inv_def)
  obtain s where s: "stubs w1 (gl_stub gl) = Some s" "gs_which s = GP_GLIST g"
    using owner_stub_list [OF own] assms(3) w1'(2) by metis
  have "gp_good w1 \<lparr>gp_stub = Some (gl_stub gl), gp_valid = gl_valid gl, gp_un = sc\<rparr>"
    using own s assms(3,4) w1' by (auto simp: gp_good_def owners_ok_def)
  from point_inv [OF w1(2) _ w1(3) _ s(1) this room1] show ?thesis
    using assms(2,3) w1(1,4) w1' by (auto simp: setglist_unset cbind_def same_owners_def)
qed

lemma setarray_inv:
  assumes "gp_inv w" "p < length (gps w)" "arrays w a = Some ar" "k < a_n ar" "room (Suc r) w"
  shows "\<exists>w'. gpointer_setarray p a k w = Inr w' \<and> gp_inv w' \<and> same_owners w w'"
proof -
  obtain w1 where w1: "gpointer_unset p w = Inr w1" "gp_inv w1" "gp_stub (gps w1 ! p) = None" "same_owners w w1"
    using unset_inv [OF assms(1,2,5)] by blast
  then have w1': "length (gps w1) = length (gps w)" "glists w1 = glists w" "arrays w1 = arrays w" by (simp_all add: same_owners_def)
  have room1: "room (Suc r) w1" using room_same [OF w1(4)] assms(5) by simp
  have own: "owners_ok w1" using w1(2) by (simp add: gp_inv_def)
  obtain s where s: "stubs w1 (a_stub ar) = Some s" "gs_which s = GP_ARRAY a"
    using owner_stub_array [OF own] assms(3) w1'(3) by metis
  have "gp_good w1 \<lparr>gp_stub = Some (a_stub ar), gp_valid = a_valid ar, gp_un = Some k\<rparr>"
    using own s assms(3,4) w1' by (auto simp: gp_good_def owners_ok_def)
  from point_inv [OF w1(2) _ w1(3) _ s(1) this room1] show ?thesis
    using assms(2,3) w1(1,4) w1' by (auto simp: setarray_unset cbind_def same_owners_def)
qed

lemma stub_of_pointer:
  assumes "gp_inv w" "gp \<in> set (gps w)" "gp_stub gp = Some st"
  shows "\<exists>s. stubs w st = Some s"
proof -
  have "stub_ok w st" using assms(1) by (simp add: gp_inv_def)
  moreover have "Some st \<in># mset (map gp_stub (gps w))" using assms(2,3) by force
  then have "count (mset (map gp_stub (gps w))) (Some st) \<noteq> 0" by (simp only: count_eq_zero_iff not_not)
  then have "refs_to w st \<noteq> 0" unfolding refs_to_def by linarith
  ultimately show ?thesis by (cases "stubs w st") (simp_all add: stub_ok_def)
qed

text \<open>A pointer that moves along its list.\<close>

lemma move_inv:
  assumes "gp_inv w" "p < length (gps w)" "gp_stub gp = gp_stub (gps w ! p)" "gp_good w gp"
  shows "gp_inv (set_gp p gp w)"
proof -
  have refs: "refs_to (set_gp p gp w) = refs_to w" using assms(2,3) by (intro ext) (simp add: refs_to_set_gp)
  have "stub_ok w st" for st using assms(1) by (simp add: gp_inv_def)
  then have "stub_ok (set_gp p gp w) st" for st unfolding stub_ok_def refs set_gp_sel .
  moreover have "owners_ok (set_gp p gp w)" using assms(1) by (simp add: gp_inv_def owners_ok_def set_gp_def)
  moreover have "gp_good (set_gp p gp w) gp'" if "gp' \<in> set (gps (set_gp p gp w))" for gp'
  proof -
    have "gp' \<in> set (gps w) \<or> gp' = gp" using that set_update_subset_insert by (fastforce simp: set_gp_def)
    then have "gp_good w gp'" using assms(1,4) by (auto simp: gp_inv_def)
    then show ?thesis by (rule gp_good_stubs) (auto simp: set_gp_def)
  qed
  ultimately show ?thesis by (simp add: gp_inv_def)
qed

lemma copy_inv:
  assumes "gp_inv w" "from < length (gps w)" "to < length (gps w)" "gp_stub (gps w ! to) = None" "room (Suc r) w"
  shows "\<exists>w'. gpointer_copy from to w = Inr w' \<and> gp_inv w' \<and> same_owners w w'"
proof (cases "gp_stub (gps w ! from)")
  case None
  have good: "gp_good w (gps w ! from)" using assms(1,2) by (simp add: gp_inv_def)
  have "gp_inv (set_gp to (gps w ! from) w)" by (rule move_inv) (simp_all add: assms None good)
  then show ?thesis using None by (simp add: gpointer_copy_def Let_def same_owners_def)
next
  case (Some st)
  have "\<exists>s. stubs w st = Some s" by (rule stub_of_pointer [OF assms(1) nth_mem [OF assms(2)] Some])
  then obtain s where s: "stubs w st = Some s" by blast
  have "gp_good w (gps w ! from)" using assms(1,2) by (simp add: gp_inv_def)
  from point_inv [OF assms(1,3,4) Some s this assms(5)] show ?thesis
    using Some by (auto simp: gpointer_copy_def Let_def)
qed

lemma list_behind_ok:
  assumes "set_option sc \<subseteq> set ys"
  shows "\<exists>zs. list_behind sc ys = Inr zs \<and> set zs \<subseteq> set ys"
proof (cases sc)
  case None
  then show ?thesis by (simp add: list_behind_def)
next
  case (Some y)
  then have "dropWhile (\<lambda>z. z \<noteq> y) ys \<noteq> []" using assms by (auto simp: dropWhile_eq_Nil_conv)
  moreover have "set (dropWhile (\<lambda>z. z \<noteq> y) ys) \<subseteq> set ys" using set_dropWhileD by (metis subsetI)
  ultimately show ?thesis using Some by (auto simp: list_behind_def split: list.splits)
qed

lemma vnext_inv:
  assumes "gp_inv w" "p < length (gps w)" "room r w"
  shows "\<exists>o' w'. ptrobj_vnext types tpl vis sel f p w = Inr (o', w') \<and> gp_inv w' \<and> same_owners w w'"
proof (cases "gp_stub (gps w ! p)")
  case None
  then show ?thesis using assms(1) by (simp add: ptrobj_vnext_def same_owners_def)
next
  case (Some st)
  obtain s where s: "stubs w st = Some s" using stub_of_pointer [OF assms(1) nth_mem [OF assms(2)] Some] by blast
  have ok: "stub_ok w st" using assms(1) by (simp add: gp_inv_def)
  show ?thesis
  proof (cases "gs_which s")
    case GP_NONE
    then show ?thesis using Some s assms(1) by (simp add: ptrobj_vnext_def same_owners_def)
  next
    case (GP_ARRAY a)
    then show ?thesis using Some s assms(1) by (simp add: ptrobj_vnext_def same_owners_def)
  next
    case (GP_GLIST g)
    then obtain gl where gl: "glists w g = Some gl" using ok s by (auto simp: stub_ok_def)
    have good: "gp_good w (gps w ! p)" using assms(1,2) by (simp add: gp_inv_def)
    show ?thesis
    proof (cases "gl_valid gl = gp_valid (gps w ! p) \<and> (f \<longrightarrow> vis g)")
      case False
      then show ?thesis using Some s GP_GLIST gl assms(1) by (auto simp: ptrobj_vnext_def Let_def same_owners_def)
    next
      case True
      then have "set_option (gp_un (gps w ! p)) \<subseteq> set (gl_list gl)" using good Some s GP_GLIST gl unfolding gp_good_def by blast
      then obtain zs where zs: "list_behind (gp_un (gps w ! p)) (gl_list gl) = Inr zs" "set zs \<subseteq> set (gl_list gl)" using list_behind_ok by blast
      show ?thesis
      proof (cases "dropWhile (\<lambda>y. f \<and> \<not> sel y) zs")
        case Nil
        obtain w' where "gpointer_unset p w = Inr w'" "gp_inv w'" "same_owners w w'" using unset_inv [OF assms] by blast
        then show ?thesis using Some s GP_GLIST gl True zs(1) Nil by (auto simp: ptrobj_vnext_def cbind_def simp del: dropWhile_eq_Nil_conv)
      next
        case (Cons y ys)
        have "y \<in> set (gl_list gl)" using zs(2) Cons set_dropWhileD [of y "\<lambda>y. f \<and> \<not> sel y" zs] by auto
        then have "gp_good w ((gps w ! p)\<lparr>gp_un := Some y\<rparr>)" using good Some s GP_GLIST gl True by (simp add: gp_good_def)
        from move_inv [OF assms(1,2) _ this] show ?thesis
          using Some s GP_GLIST gl True zs(1) Cons by (auto simp: ptrobj_vnext_def cbind_def same_owners_def)
      qed
    qed
  qed
qed

text \<open>What the operations of the owners leave of a good pointer.\<close>

lemma gp_good_owner:
  assumes "gp_good w gp" "glist_valid w \<le> glist_valid w'"
    "\<And>st s'. gp_stub gp = Some st \<Longrightarrow> stubs w' st = Some s' \<Longrightarrow> gs_which s' = GP_NONE \<or> (\<exists>s. stubs w st = Some s \<and> gs_which s = gs_which s')"
    "\<And>g gl'. glists w' g = Some gl' \<Longrightarrow> glist_valid w < gl_valid gl' \<or>
       (\<exists>gl. glists w g = Some gl \<and> gl_valid gl = gl_valid gl' \<and> set (gl_list gl) \<subseteq> set (gl_list gl'))"
    "\<And>a ar'. arrays w' a = Some ar' \<Longrightarrow> glist_valid w < a_valid ar' \<or> arrays w a = Some ar' \<or>
       (\<forall>st s. gp_stub gp = Some st \<longrightarrow> stubs w st = Some s \<longrightarrow> gs_which s \<noteq> GP_ARRAY a)"
  shows "gp_good w' gp"
proof -
  have v: "gp_valid gp \<le> glist_valid w" using assms(1) by (simp add: gp_good_def)
  show ?thesis unfolding gp_good_def
  proof (intro conjI allI impI)
    show "gp_valid gp \<le> glist_valid w'" using v assms(2) by simp
  next
    fix st s' g gl' assume *: "gp_stub gp = Some st" "stubs w' st = Some s'" "gs_which s' = GP_GLIST g" "glists w' g = Some gl'" "gl_valid gl' = gp_valid gp"
    obtain s where "stubs w st = Some s" "gs_which s = GP_GLIST g" using assms(3) [OF *(1,2)] *(3) by auto
    moreover obtain gl where "glists w g = Some gl" "gl_valid gl = gl_valid gl'" "set (gl_list gl) \<subseteq> set (gl_list gl')"
      using assms(4) [OF *(4)] *(5) v by auto
    ultimately show "set_option (gp_un gp) \<subseteq> set (gl_list gl')" using assms(1) *(1,5) unfolding gp_good_def by (metis subset_trans)
  next
    fix st s' a ar' assume *: "gp_stub gp = Some st" "stubs w' st = Some s'" "gs_which s' = GP_ARRAY a" "arrays w' a = Some ar'" "a_valid ar' = gp_valid gp"
    obtain s where s: "stubs w st = Some s" "gs_which s = GP_ARRAY a" using assms(3) [OF *(1,2)] *(3) by auto
    then have "arrays w a = Some ar'" using assms(5) [OF *(4)] *(1,5) v by auto
    then show "\<exists>k < a_n ar'. gp_un gp = Some k" using s assms(1) *(1,5) unfolding gp_good_def by blast
  qed
qed

lemma glist_init_inv:
  assumes "gp_inv w" "glists w g = None" "stubs w st = None" "room (Suc r) w"
  shows "gp_inv (glist_init g st w)"
proof -
  let ?w = "glist_init g st w"
  have ok: "stub_ok w st'" for st' using assms(1) by (simp add: gp_inv_def)
  have own: "owners_ok w" using assms(1) by (simp add: gp_inv_def)
  have v: "wrap32 (glist_valid w + 1) = glist_valid w + 1" using wrap_valid [OF assms(4)] own by (simp add: owners_ok_def)
  have none: "gp_stub gp \<noteq> Some st" if "gp \<in> set (gps w)" for gp using stub_of_pointer [OF assms(1) that] assms(3) by auto
  have owners: "gl_stub gl \<noteq> st" if "glists w g' = Some gl" for g' gl
    using owner_stub_list [OF own that] assms(3) by auto
  have owners2: "a_stub ar \<noteq> st" if "arrays w a' = Some ar" for a' ar
    using owner_stub_array [OF own that] assms(3) by auto
  have "stub_ok ?w st'" for st'
    using ok [of st'] assms(2,3)
    by (auto simp: stub_ok_def glist_init_def gstub_new_def split: option.splits gs_which.splits)
  moreover have "owners_ok ?w"
  proof (rule owners_ok_from [OF own])
    show "glist_valid w \<le> glist_valid ?w" by (simp add: glist_init_def v)
  qed (use owners owners2 own in \<open>auto simp: glist_init_def v gstub_new_def split: if_splits\<close>)
  moreover have "gp_good ?w gp" if "gp \<in> set (gps w)" for gp
  proof (rule gp_good_owner)
    show "gp_good w gp" using assms(1) that by (simp add: gp_inv_def)
  qed (use none [OF that] in \<open>auto simp: glist_init_def v split: if_splits\<close>)
  ultimately show ?thesis by (simp add: gp_inv_def glist_init_def)
qed

lemma array_new_inv:
  assumes "gp_inv w" "arrays w a = None" "stubs w st = None"
  shows "gp_inv (array_new a st w)"
proof -
  let ?w = "array_new a st w"
  have ok: "stub_ok w st'" for st' using assms(1) by (simp add: gp_inv_def)
  have own: "owners_ok w" using assms(1) by (simp add: gp_inv_def)
  have none: "gp_stub gp \<noteq> Some st" if "gp \<in> set (gps w)" for gp using stub_of_pointer [OF assms(1) that] assms(3) by auto
  have other: "gs_which s \<noteq> GP_ARRAY a" if "stubs w st' = Some s" for st' s
    using ok [of st'] that assms(2) by (auto simp: stub_ok_def)
  have owners: "gl_stub gl \<noteq> st" if "glists w g' = Some gl" for g' gl
    using owner_stub_list [OF own that] assms(3) by auto
  have owners2: "a_stub ar \<noteq> st" if "arrays w a' = Some ar" for a' ar
    using owner_stub_array [OF own that] assms(3) by auto
  have "stub_ok ?w st'" for st'
    using ok [of st'] assms(2,3)
    by (auto simp: stub_ok_def array_new_def gstub_new_def split: option.splits gs_which.splits)
  moreover have "owners_ok ?w"
  proof (rule owners_ok_from [OF own])
    show "glist_valid w \<le> glist_valid ?w" by (simp add: array_new_def)
  qed (use owners owners2 own [unfolded owners_ok_def, THEN conjunct1] in \<open>auto simp: array_new_def gstub_new_def split: if_splits\<close>)
  moreover have "gp_good ?w gp" if "gp \<in> set (gps w)" for gp
  proof (rule gp_good_owner)
    show "gp_good w gp" using assms(1) that by (simp add: gp_inv_def)
  qed (use none [OF that] other in \<open>auto simp: array_new_def split: if_splits\<close>)
  ultimately show ?thesis by (simp add: gp_inv_def array_new_def)
qed

lemma list_changed_inv:
  assumes "gp_inv w" "glists w g = Some gl" "gl_stub gl' = gl_stub gl"
    "n = glist_valid w \<and> gl_valid gl' = gl_valid gl \<and> set (gl_list gl) \<subseteq> set (gl_list gl') \<or> n = glist_valid w + 1 \<and> gl_valid gl' = n"
  shows "gp_inv (w\<lparr>glists := (glists w)(g \<mapsto> gl'), glist_valid := n\<rparr>)" (is "gp_inv ?w")
proof -
  have ok: "stub_ok w st'" for st' using assms(1) by (simp add: gp_inv_def)
  have own: "owners_ok w" using assms(1) by (simp add: gp_inv_def)
  have valid: "gl_valid gl \<le> glist_valid w" using own assms(2) by (simp add: owners_ok_def)
  have "stub_ok ?w st'" for st'
    using ok [of st'] assms(2,3) by (auto simp: stub_ok_def split: option.splits gs_which.splits)
  moreover have "owners_ok ?w"
  proof (rule owners_ok_from [OF own])
    show "glist_valid w \<le> glist_valid ?w" using assms(4) by auto
  qed (use owner_stub_list [OF own assms(2)] valid assms(3,4) in \<open>auto split: if_splits\<close>)
  moreover have "gp_good ?w gp" if "gp \<in> set (gps w)" for gp
  proof (rule gp_good_owner)
    show "gp_good w gp" using assms(1) that by (simp add: gp_inv_def)
  qed (use assms(2,4) in \<open>auto split: if_splits\<close>)
  ultimately show ?thesis by (simp add: gp_inv_def)
qed

lemma array_resized_inv:
  assumes "gp_inv w" "arrays w a = Some ar" "a_stub ar' = a_stub ar" "n = glist_valid w + 1" "a_valid ar' = n"
  shows "gp_inv (w\<lparr>arrays := (arrays w)(a \<mapsto> ar'), glist_valid := n\<rparr>)" (is "gp_inv ?w")
proof -
  have ok: "stub_ok w st'" for st' using assms(1) by (simp add: gp_inv_def)
  have own: "owners_ok w" using assms(1) by (simp add: gp_inv_def)
  have "stub_ok ?w st'" for st'
    using ok [of st'] assms(2,3) by (auto simp: stub_ok_def split: option.splits gs_which.splits)
  moreover have "owners_ok ?w"
  proof (rule owners_ok_from [OF own])
    show "glist_valid w \<le> glist_valid ?w" using assms(4) by auto
  qed (use owner_stub_array [OF own assms(2)] assms(3-) in \<open>auto split: if_splits\<close>)
  moreover have "gp_good ?w gp" if "gp \<in> set (gps w)" for gp
  proof (rule gp_good_owner)
    show "gp_good w gp" using assms(1) that by (simp add: gp_inv_def)
  qed (use assms(4,5) in \<open>auto split: if_splits\<close>)
  ultimately show ?thesis by (simp add: gp_inv_def)
qed

text \<open>An owner that is freed cuts its stub off.\<close>

lemma cutoff_inv:
  assumes "gp_inv w" "stubs w st = Some s" "gs_which s = own"
    "\<And>g. gs g = (if own = GP_GLIST g then None else glists w g)" "\<And>a. as a = (if own = GP_ARRAY a then None else arrays w a)"
    "own \<noteq> GP_NONE" "\<And>g gl. own = GP_GLIST g \<Longrightarrow> glists w g = Some gl \<Longrightarrow> gl_stub gl = st"
    "\<And>a ar. own = GP_ARRAY a \<Longrightarrow> arrays w a = Some ar \<Longrightarrow> a_stub ar = st"
  shows "gp_inv (w\<lparr>stubs := (stubs w)(st := (if gs_refcount s = 0 then None else Some (s\<lparr>gs_which := GP_NONE\<rparr>))), glists := gs, arrays := as\<rparr>)" (is "gp_inv ?w")
proof -
  have ok: "stub_ok w st'" for st' using assms(1) by (simp add: gp_inv_def)
  have own: "owners_ok w" using assms(1) by (simp add: gp_inv_def)
  have "stub_ok ?w st'" for st'
  proof (cases "st' = st")
    case True
    then show ?thesis using ok [of st] assms(2) by (auto simp: stub_ok_def split: gs_which.splits)
  next
    case False
    then show ?thesis using ok [of st'] assms(4,5,7,8) by (auto simp: stub_ok_def split: option.splits gs_which.splits)
  qed
  moreover have "owners_ok ?w"
    unfolding owners_ok_def
  proof (intro conjI allI impI)
    show "0 \<le> glist_valid ?w" using own by (simp add: owners_ok_def)
  next
    fix g gl assume *: "glists ?w g = Some gl"
    then have g: "own \<noteq> GP_GLIST g" "glists w g = Some gl" by (auto simp: assms(4) split: if_splits)
    obtain s' where s': "stubs w (gl_stub gl) = Some s'" "gs_which s' = GP_GLIST g" using owner_stub_list [OF own g(2)] by blast
    have "gl_stub gl \<noteq> st" using s' g(1) assms(2,3) by auto
    then show "gl_valid gl \<le> glist_valid ?w" "\<exists>s. stubs ?w (gl_stub gl) = Some s \<and> gs_which s = GP_GLIST g"
      using s' own g(2) by (simp_all add: owners_ok_def)
  next
    fix a ar assume *: "arrays ?w a = Some ar"
    then have a: "own \<noteq> GP_ARRAY a" "arrays w a = Some ar" by (auto simp: assms(5) split: if_splits)
    obtain s' where s': "stubs w (a_stub ar) = Some s'" "gs_which s' = GP_ARRAY a" using owner_stub_array [OF own a(2)] by blast
    have "a_stub ar \<noteq> st" using s' a(1) assms(2,3) by auto
    then show "a_valid ar \<le> glist_valid ?w" "\<exists>s. stubs ?w (a_stub ar) = Some s \<and> gs_which s = GP_ARRAY a"
      using s' own a(2) by (simp_all add: owners_ok_def)
  qed
  moreover have "gp_good ?w gp" if "gp \<in> set (gps w)" for gp
  proof (rule gp_good_owner [of w])
    show "gp_good w gp" using assms(1) that by (simp add: gp_inv_def)
  qed (auto simp: assms(2-5) split: if_splits)
  ultimately show ?thesis by (simp add: gp_inv_def)
qed

lemma glist_free_inv:
  assumes "gp_inv w" "glists w g = Some gl" "room r w" "gl_list gl = []"
  shows "\<exists>w'. glist_free g w = Inr w' \<and> gp_inv w' \<and> room r w'"
proof -
  have own: "owners_ok w" using assms(1) by (simp add: gp_inv_def)
  obtain s where s: "stubs w (gl_stub gl) = Some s" "gs_which s = GP_GLIST g" using owner_stub_list [OF own assms(2)] by blast
  have "gp_inv (w\<lparr>stubs := (stubs w)(gl_stub gl := (if gs_refcount s = 0 then None else Some (s\<lparr>gs_which := GP_NONE\<rparr>))), glists := (glists w)(g := None), arrays := arrays w\<rparr>)"
    by (rule cutoff_inv [OF assms(1) s]) (use assms(2) in auto)
  moreover have "glist_free g w = Inr (w\<lparr>stubs := (stubs w)(gl_stub gl := (if gs_refcount s = 0 then None else Some (s\<lparr>gs_which := GP_NONE\<rparr>))), glists := (glists w)(g := None), arrays := arrays w\<rparr>)"
    by (cases "gs_refcount s = 0") (simp_all add: glist_free_def assms(2) gstub_cutoff_def s(1) cbind_def)
  moreover have "(\<Sum>h \<in> dom (glists w) - {g}. length (gl_list (the (if h = g then None else glists w h)))) \<le> listed w"
  proof -
    have "(\<Sum>h \<in> dom (glists w) - {g}. length (gl_list (the (if h = g then None else glists w h)))) = (\<Sum>h \<in> dom (glists w) - {g}. length (gl_list (the (glists w h))))"
      by (intro sum.cong) simp_all
    also have "\<dots> \<le> listed w" unfolding listed_def by (intro sum_mono2) (use assms(3) in \<open>auto simp: room_def\<close>)
    finally show ?thesis .
  qed
  then have "int (\<Sum>h \<in> dom (glists w) - {g}. length (gl_list (the (if h = g then None else glists w h)))) \<le> int (listed w)" by (simp only: of_nat_le_iff)
  then have "room r (w\<lparr>stubs := st', glists := (glists w)(g := None), arrays := arrays w\<rparr>)" for st'
    using assms(3) by (simp add: room_def listed_def)
  ultimately show ?thesis by blast
qed

lemma room_delete:
  assumes "room r w" "glists w g = Some gl" "y \<in> set (gl_list gl) \<or> 0 < r"
    "w' = w\<lparr>glists := (glists w)(g \<mapsto> gl\<lparr>gl_list := remove1 y (gl_list gl), gl_valid := n\<rparr>), glist_valid := glist_valid w + 1\<rparr>"
  shows "room (if y \<in> set (gl_list gl) then r else r - 1) w'" "glist_valid w + 1 < 2 ^ 31"
proof -
  have fin: "finite (dom (glists w))" using assms(1) by (simp add: room_def)
  have "listed w' + length (gl_list gl) = listed w + length (remove1 y (gl_list gl))"
    using listed_upd [OF fin assms(2), of "gl\<lparr>gl_list := remove1 y (gl_list gl), gl_valid := n\<rparr>"] by (simp add: assms(4) listed_def)
  moreover have "length (remove1 y (gl_list gl)) + (if y \<in> set (gl_list gl) then 1 else 0) = length (gl_list gl)"
    by (auto simp: length_remove1 in_set_conv_nth)
  ultimately have l: "listed w' + (if y \<in> set (gl_list gl) then 1 else 0) = listed w" by linarith
  show "room (if y \<in> set (gl_list gl) then r else r - 1) w'" using assms(1,3) l fin by (auto simp: room_def assms(4))
  show "glist_valid w + 1 < 2 ^ 31" using assms(1,3) l by (auto simp: room_def split: if_splits)
qed

lemma glist_delete_inv:
  assumes "gp_inv w" "glists w g = Some gl" "room r w" "y \<in> set (gl_list gl) \<or> 0 < r"
  shows "\<exists>w' n. glist_delete g y w = Inr w' \<and> gp_inv w' \<and> room (if y \<in> set (gl_list gl) then r else r - 1) w' \<and>
    glists w' g = Some (gl\<lparr>gl_list := remove1 y (gl_list gl), gl_valid := n\<rparr>)"
proof -
  define w' where "w' = w\<lparr>glists := (glists w)(g \<mapsto> gl\<lparr>gl_list := remove1 y (gl_list gl), gl_valid := glist_valid w + 1\<rparr>), glist_valid := glist_valid w + 1\<rparr>"
  have "0 \<le> glist_valid w" using assms(1) by (simp add: gp_inv_def owners_ok_def)
  then have "wrap32 (glist_valid w + 1) = glist_valid w + 1" using room_delete(2) [OF assms(3,2,4) w'_def] by (intro wrap32_id) auto
  then have "glist_delete g y w = Inr w'" using assms(2) by (simp add: glist_delete_def w'_def)
  moreover have "gp_inv w'" unfolding w'_def by (rule list_changed_inv [OF assms(1,2)]) simp_all
  ultimately show ?thesis using room_delete(1) [OF assms(3,2,4) w'_def] by (intro exI [of _ w'] exI [of _ "glist_valid w + 1"]) (simp add: w'_def)
qed

lemma delete_objects_inv:
  assumes "gp_inv w" "glists w g = Some gl" "room r w" "ys = gl_list gl"
  shows "\<exists>w' gl'. delete_objects ys g w = Inr w' \<and> gp_inv w' \<and> glists w' g = Some gl' \<and> gl_list gl' = [] \<and> room r w'"
  using assms
proof (induction ys arbitrary: w gl)
  case (Cons y ys)
  obtain w1 n where w1: "glist_delete g y w = Inr w1" "gp_inv w1" "room r w1" "glists w1 g = Some (gl\<lparr>gl_list := ys, gl_valid := n\<rparr>)"
    using glist_delete_inv [OF Cons.prems(1-3), of y] Cons.prems(4) [symmetric] by auto
  then show ?case using Cons.IH [OF w1(2) w1(4) w1(3)] by (simp add: cbind_def)
qed simp

lemma canvas_free_inv:
  assumes "gp_inv w" "glists w g = Some gl" "room r w"
  shows "\<exists>w'. canvas_free g w = Inr w' \<and> gp_inv w' \<and> room r w'"
proof -
  obtain w1 gl1 where w1: "delete_objects (gl_list gl) g w = Inr w1" "gp_inv w1" "glists w1 g = Some gl1" "gl_list gl1 = []" "room r w1"
    using delete_objects_inv [OF assms refl] by blast
  obtain w2 where w2: "glist_free g w1 = Inr w2" "gp_inv w2" "room r w2" using glist_free_inv [OF w1(2,3,5,4)] by blast
  then show ?thesis using w1(1) assms(2) by (simp add: canvas_free_def cbind_def)
qed

lemma array_free_inv:
  assumes "gp_inv w" "arrays w a = Some ar" "room r w"
  shows "\<exists>w'. array_free a w = Inr w' \<and> gp_inv w' \<and> room r w'"
proof -
  have own: "owners_ok w" using assms(1) by (simp add: gp_inv_def)
  obtain s where s: "stubs w (a_stub ar) = Some s" "gs_which s = GP_ARRAY a" using owner_stub_array [OF own assms(2)] by blast
  let ?w = "w\<lparr>stubs := (stubs w)(a_stub ar := (if gs_refcount s = 0 then None else Some (s\<lparr>gs_which := GP_NONE\<rparr>))), glists := glists w, arrays := (arrays w)(a := None)\<rparr>"
  have "gp_inv ?w" by (rule cutoff_inv [OF assms(1) s]) (use assms(2) in auto)
  moreover have "array_free a w = Inr ?w"
    by (cases "gs_refcount s = 0") (simp_all add: array_free_def assms(2) gstub_cutoff_def s(1) cbind_def)
  moreover have "room r ?w" using assms(3) by (simp add: room_def listed_def)
  ultimately show ?thesis by blast
qed

subsection \<open>Every sequence of operations\<close>

datatype gp_op =
    Glist_init addr addr | Glist_scalar addr addr | Glist_delete addr addr | Canvas_free addr
  | Array_new addr addr | Array_resize addr int | Array_free addr
  | Append addr nat
  | Set_list nat addr "addr option" | Set_array nat addr nat | Unset nat
  | Traverse nat "addr option" | Next "addr \<Rightarrow> bool" bool nat | Ptrobj_pointer nat nat

text \<open>What the callers see to: an owner and a stub are made where there is none, an owner that is changed or pointed into is there, and a pointer is
  set to a scalar of the list or an element of the array. The addresses of what was freed may be given out again.\<close>

fun allowed :: "gp_op \<Rightarrow> gp_world \<Rightarrow> bool" where
  "allowed (Glist_init g st) w = (glists w g = None \<and> stubs w st = None)"
| "allowed (Glist_scalar g y) w = (glists w g \<noteq> None)"
| "allowed (Glist_delete g y) w = (glists w g \<noteq> None)"
| "allowed (Canvas_free g) w = (glists w g \<noteq> None)"
| "allowed (Array_new a st) w = (arrays w a = None \<and> stubs w st = None)"
| "allowed (Array_resize a n) w = (arrays w a \<noteq> None)"
| "allowed (Array_free a) w = (arrays w a \<noteq> None)"
| "allowed (Set_list p g sc) w = (p < length (gps w) \<and> (case glists w g of None \<Rightarrow> False
     | Some gl \<Rightarrow> (case sc of None \<Rightarrow> True | Some y \<Rightarrow> y \<in> set (gl_list gl))))"
| "allowed (Set_array p a k) w = (p < length (gps w) \<and> (case arrays w a of None \<Rightarrow> False | Some ar \<Rightarrow> k < a_n ar))"
| "allowed (Append y p) w = (p < length (gps w))"
| "allowed (Unset p) w = (p < length (gps w))"
| "allowed (Traverse p g) w = (p < length (gps w) \<and> (case g of None \<Rightarrow> True | Some g \<Rightarrow> glists w g \<noteq> None))"
| "allowed (Next sel f p) w = (p < length (gps w))"
| "allowed (Ptrobj_pointer p q) w = (p < length (gps w) \<and> q < length (gps w))"

fun gp_do :: "gp_op \<Rightarrow> gp_world \<Rightarrow> gp_world cresult" where
  "gp_do (Glist_init g st) w = Inr (glist_init g st w)"
| "gp_do (Glist_scalar g y) w = glist_readscalar g y w"
| "gp_do (Glist_delete g y) w = glist_delete g y w"
| "gp_do (Canvas_free g) w = canvas_free g w"
| "gp_do (Array_new a st) w = Inr (array_new a st w)"
| "gp_do (Array_resize a n) w = array_resize a n w"
| "gp_do (Array_free a) w = array_free a w"
| "gp_do (Set_list p g sc) w = gpointer_setglist p g sc w"
| "gp_do (Set_array p a k) w = gpointer_setarray p a k w"
| "gp_do (Append y p) w = cbind (append_float y p w) (\<lambda>(_, w'). Inr w')"
| "gp_do (Unset p) w = gpointer_unset p w"
| "gp_do (Traverse p g) w = ptrobj_traverse p g w"
| "gp_do (Next sel f p) w = cbind (ptrobj_vnext [] (\<lambda>_. []) (\<lambda>_. True) sel f p w) (\<lambda>(_, w'). Inr w')"
| "gp_do (Ptrobj_pointer p q) w = ptrobj_pointer p q w"

text \<open>An operation that is not allowed does not take place.\<close>

fun gp_run :: "gp_op list \<Rightarrow> gp_world \<Rightarrow> gp_world cresult" where
  "gp_run [] w = Inr w"
| "gp_run (x # xs) w = (if allowed x w then cbind (gp_do x w) (gp_run xs) else gp_run xs w)"

definition gp_start :: "nat \<Rightarrow> gp_world" where
  "gp_start n = \<lparr>stubs = Map.empty, glists = Map.empty, arrays = Map.empty, gps = replicate n gpointer_init, lost = [], glist_valid = 10000\<rparr>"




lemma same_owners_trans: "same_owners w w1 \<Longrightarrow> same_owners w1 w2 \<Longrightarrow> same_owners w w2"
  by (simp add: same_owners_def)

lemma ptrobj_pointer_inv:
  assumes "gp_inv w" "p < length (gps w)" "q < length (gps w)" "room (Suc r) w"
  shows "\<exists>w'. ptrobj_pointer p q w = Inr w' \<and> gp_inv w' \<and> same_owners w w'"
proof -
  obtain w1 where w1: "gpointer_unset p w = Inr w1" "gp_inv w1" "gp_stub (gps w1 ! p) = None" "same_owners w w1"
    using unset_inv [OF assms(1,2,4)] by blast
  then have l: "length (gps w1) = length (gps w)" by (simp add: same_owners_def)
  have r: "room (Suc r) w1" using room_same [OF w1(4)] assms(4) by simp
  have q: "q < length (gps w1)" and p: "p < length (gps w1)" using l assms(2,3) by simp_all
  obtain w2 where w2: "gpointer_copy q p w1 = Inr w2" "gp_inv w2" "same_owners w1 w2"
    using copy_inv [OF w1(2) q p w1(3) r] by blast
  have "ptrobj_pointer p q w = Inr w2" using w1(1) w2(1) by (simp add: ptrobj_pointer_def cbind_def)
  then show ?thesis using w2(2) same_owners_trans [OF w1(4) w2(3)] by blast
qed

lemma scalar_new_inv:
  assumes "gp_inv w" "glists w g = Some gl" "room (Suc r) w"
  shows "\<exists>w1. scalar_new g w = Inr w1 \<and> gp_inv w1 \<and> glists w1 = glists w \<and> glist_valid w1 = glist_valid w \<and> gps w1 = gps w \<and>
    length (lost w1) = Suc (length (lost w)) \<and> (\<forall>st. map_option gs_which (stubs w1 st) = map_option gs_which (stubs w st))"
proof -
  have own: "owners_ok w" and ok: "stub_ok w st" for st using assms(1) by (simp_all add: gp_inv_def)
  obtain s where s: "stubs w (gl_stub gl) = Some s" "gs_which s = GP_GLIST g" using owner_stub_list [OF own assms(2)] by blast
  define w1 where "w1 = w\<lparr>lost := gl_stub gl # lost w, stubs := (stubs w)(gl_stub gl \<mapsto> s\<lparr>gs_refcount := gs_refcount s + 1\<rparr>)\<rparr>"
  have rc: "gs_refcount s = refs_to w (gl_stub gl)" using ok [of "gl_stub gl"] s by (simp add: stub_ok_def)
  have "wrap32 (gs_refcount s + 1) = gs_refcount s + 1" using wrap_refs(2) [OF assms(3) rc] by simp
  then have new: "scalar_new g w = Inr w1" using assms(2) s(1) by (simp add: scalar_new_def refer_def w1_def)
  have refs: "refs_to w1 st = refs_to w st + (if st = gl_stub gl then 1 else 0)" for st by (simp add: refs_to_def w1_def)
  have w1: "glists w1 = glists w" "arrays w1 = arrays w" "glist_valid w1 = glist_valid w" "gps w1 = gps w"
      "stubs w1 = (stubs w)(gl_stub gl \<mapsto> s\<lparr>gs_refcount := gs_refcount s + 1\<rparr>)" by (simp_all add: w1_def)
  have "stub_ok w1 st" for st
  proof (cases "st = gl_stub gl")
    case True
    then show ?thesis using ok [of st] s refs [of st] by (auto simp: stub_ok_def w1)
  next
    case False
    then show ?thesis using ok [of st] refs [of st] by (auto simp: stub_ok_def w1 split: option.splits gs_which.splits)
  qed
  moreover have "owners_ok w1"
  proof (rule owners_ok_from [OF own])
    fix g' gl' assume *: "glists w1 g' = Some gl'"
    then show "gl_valid gl' \<le> glist_valid w1 \<and> (\<exists>s. stubs w1 (gl_stub gl') = Some s \<and> gs_which s = GP_GLIST g') \<or>
        glists w g' = Some gl' \<and> stubs w1 (gl_stub gl') = stubs w (gl_stub gl')"
    proof (cases "gl_stub gl' = gl_stub gl")
      case True
      have "glists w g' = Some gl'" using * by (simp add: w1)
      from owner_stub_list [OF own this] have "g' = g" using s True by auto
      moreover have "gl_valid gl' \<le> glist_valid w" using own \<open>glists w g' = Some gl'\<close> by (simp add: owners_ok_def)
      ultimately show ?thesis using True s(2) by (simp add: w1)
    next
      case False
      then show ?thesis using * by (simp add: w1)
    qed
  next
    fix a ar assume "arrays w1 a = Some ar"
    moreover have "a_stub ar \<noteq> gl_stub gl" if "arrays w a = Some ar" using owner_stub_array [OF own that] s by auto
    ultimately show "a_valid ar \<le> glist_valid w1 \<and> (\<exists>s. stubs w1 (a_stub ar) = Some s \<and> gs_which s = GP_ARRAY a) \<or>
        arrays w a = Some ar \<and> stubs w1 (a_stub ar) = stubs w (a_stub ar)" by (simp add: w1)
  qed (simp add: w1)
  moreover have "gp_good w1 gp" if "gp \<in> set (gps w1)" for gp
  proof (rule gp_good_stubs [of w])
    show "gp_good w gp" using assms(1) that by (simp add: gp_inv_def w1)
  qed (use s in \<open>auto simp: w1 split: if_splits\<close>)
  ultimately have "gp_inv w1" by (simp add: gp_inv_def)
  moreover have "length (lost w1) = Suc (length (lost w))" by (simp add: w1_def)
  moreover have "\<forall>st. map_option gs_which (stubs w1 st) = map_option gs_which (stubs w st)" using s by (simp add: w1)
  ultimately show ?thesis using new w1(1,3,4) by blast
qed

text \<open>A scalar more in a list that a scalar was made for.\<close>

lemma added_inv:
  assumes "gp_inv w1" "glists w1 g = Some gl" "glists w1 = glists w" "glist_valid w1 = glist_valid w" "gps w1 = gps w"
    "length (lost w1) = Suc (length (lost w))" "room (Suc r) w" "mset ys = add_mset y (mset (gl_list gl))"
  shows "gp_inv (w1\<lparr>glists := (glists w1)(g \<mapsto> gl\<lparr>gl_list := ys\<rparr>)\<rparr>)" "room r (w1\<lparr>glists := (glists w1)(g \<mapsto> gl\<lparr>gl_list := ys\<rparr>)\<rparr>)"
proof -
  have "length ys = Suc (length (gl_list gl))" "set ys = insert y (set (gl_list gl))"
    using arg_cong [OF assms(8), of size] arg_cong [OF assms(8), of set_mset] by simp_all
  then have ys: "length ys = Suc (length (gl_list gl))" "set (gl_list gl) \<subseteq> set ys" by auto
  have "gp_inv (w1\<lparr>glists := (glists w1)(g \<mapsto> gl\<lparr>gl_list := ys\<rparr>), glist_valid := glist_valid w1\<rparr>)"
    by (rule list_changed_inv [OF assms(1,2)]) (simp_all add: ys)
  then show "gp_inv (w1\<lparr>glists := (glists w1)(g \<mapsto> gl\<lparr>gl_list := ys\<rparr>)\<rparr>)" by simp
  have "finite (dom (glists w1))" using assms(3,7) by (simp add: room_def)
  moreover have "listed w1 = listed w" using assms(3) by (simp add: listed_def)
  ultimately have "listed (w1\<lparr>glists := (glists w1)(g \<mapsto> gl\<lparr>gl_list := ys\<rparr>)\<rparr>) = listed w + 1"
    using listed_upd [OF _ assms(2), of "gl\<lparr>gl_list := ys\<rparr>"] ys(1) by simp
  then show "room r (w1\<lparr>glists := (glists w1)(g \<mapsto> gl\<lparr>gl_list := ys\<rparr>)\<rparr>)"
    using assms(3-7) by (auto simp: room_def)
qed

lemma readscalar_inv:
  assumes "gp_inv w" "glists w g = Some gl" "room (Suc r) w"
  shows "\<exists>w'. glist_readscalar g y w = Inr w' \<and> gp_inv w' \<and> room r w'"
proof -
  obtain w1 where w1: "scalar_new g w = Inr w1" "gp_inv w1" "glists w1 = glists w" "glist_valid w1 = glist_valid w" "gps w1 = gps w"
      "length (lost w1) = Suc (length (lost w))" using scalar_new_inv [OF assms] by blast
  have gl1: "glists w1 g = Some gl" using assms(2) w1(3) by simp
  have "glist_readscalar g y w = Inr (w1\<lparr>glists := (glists w1)(g \<mapsto> gl\<lparr>gl_list := gl_list gl @ [y]\<rparr>)\<rparr>)"
    using w1(1) gl1 by (simp add: glist_readscalar_def cbind_def glist_add_def)
  then show ?thesis using added_inv [OF w1(2) gl1 w1(3-6) assms(3), of "gl_list gl @ [y]" y] by simp
qed

lemma insert_behind_ok:
  assumes "set_option sc \<subseteq> set ys"
  shows "\<exists>zs. insert_behind sc y ys = Inr zs \<and> mset zs = add_mset y (mset ys)"
proof (cases sc)
  case None
  then show ?thesis by (simp add: insert_behind_def)
next
  case (Some z)
  then have "z \<in> set ys" using assms by simp
  then obtain us vs where ys: "ys = us @ z # vs" "z \<notin> set us" using split_list_first by fastforce
  then have "\<forall>u \<in> set us. u \<noteq> z" by auto
  then have "dropWhile (\<lambda>u. u \<noteq> z) ys = z # vs" "takeWhile (\<lambda>u. u \<noteq> z) ys = us" using ys(1) by (simp_all add: dropWhile_append2 takeWhile_append2)
  then show ?thesis using Some ys(1) by (simp add: insert_behind_def list_behind_def cbind_def)
qed

lemma append_inv:
  assumes "gp_inv w" "p < length (gps w)" "room (Suc r) w"
  shows "\<exists>o' w'. append_float y p w = Inr (o', w') \<and> gp_inv w' \<and> room r w'"
proof (cases "gp_stub (gps w ! p)")
  case None
  then show ?thesis using assms(1) room_mono [OF assms(3), of r] by (simp add: append_float_def)
next
  case (Some st)
  obtain s where s: "stubs w st = Some s" using stub_of_pointer [OF assms(1) nth_mem [OF assms(2)] Some] by blast
  have ok: "stub_ok w st" using assms(1) by (simp add: gp_inv_def)
  have same: "room r w" using room_mono [OF assms(3), of r] by simp
  show ?thesis
  proof (cases "gs_which s")
    case (GP_GLIST g)
    then obtain gl where gl: "glists w g = Some gl" "gl_stub gl = st" using ok s by (auto simp: stub_ok_def)
    have good: "gp_good w (gps w ! p)" using assms(1,2) by (simp add: gp_inv_def)
    show ?thesis
    proof (cases "gl_valid gl = gp_valid (gps w ! p)")
      case False
      then show ?thesis using Some s GP_GLIST gl(1) assms(1) same by (simp add: append_float_def Let_def)
    next
      case True
      then have "set_option (gp_un (gps w ! p)) \<subseteq> set (gl_list gl)" using good Some s GP_GLIST gl(1) unfolding gp_good_def by blast
      then obtain ys where ys: "insert_behind (gp_un (gps w ! p)) y (gl_list gl) = Inr ys" "mset ys = add_mset y (mset (gl_list gl))"
        using insert_behind_ok by blast
      obtain w1 where w1: "scalar_new g w = Inr w1" "gp_inv w1" "glists w1 = glists w" "glist_valid w1 = glist_valid w" "gps w1 = gps w"
          "length (lost w1) = Suc (length (lost w))" "\<And>st. map_option gs_which (stubs w1 st) = map_option gs_which (stubs w st)"
        using scalar_new_inv [OF assms(1) gl(1) assms(3)] by blast
      have gl1: "glists w1 g = Some gl" using gl(1) w1(3) by simp
      define w2 where "w2 = w1\<lparr>glists := (glists w1)(g \<mapsto> gl\<lparr>gl_list := ys\<rparr>)\<rparr>"
      define gp where "gp = (gps w ! p)\<lparr>gp_un := Some y\<rparr>"
      have inv2: "gp_inv w2" "room r w2" unfolding w2_def by (rule added_inv [OF w1(2) gl1 w1(3-6) assms(3) ys(2)])+
      have "y \<in># mset ys" using ys(2) by simp
      then have "y \<in> set ys" by (simp only: set_mset_mset)
      moreover have "gs_which s' = GP_GLIST g" if "stubs w1 st = Some s'" for s'
        using w1(7) [of st] s GP_GLIST that by simp
      moreover have "gp_valid (gps w ! p) \<le> glist_valid w" using good by (simp add: gp_good_def)
      ultimately have "gp_good w2 gp" using w1(4) Some gl1 by (simp add: gp_good_def w2_def gp_def)
      then have "gp_inv (set_gp p gp w2)" by (intro move_inv [OF inv2(1)]) (simp_all add: w2_def w1(5) assms(2) gp_def)
      moreover have "room r (set_gp p gp w2)" using inv2(2) by (simp add: room_def listed_def)
      moreover have "append_float y p w = Inr (Pointer_out (Some 0) y, set_gp p gp w2)"
        using Some s GP_GLIST gl(1) gl1 True w1(1) ys(1) by (simp add: append_float_def Let_def cbind_def w2_def gp_def)
      ultimately show ?thesis by blast
    qed
  qed (use Some s assms(1) same in \<open>simp_all add: append_float_def\<close>)
qed

lemma gp_do_inv:
  assumes "gp_inv w" "allowed x w" "room (Suc r) w"
  shows "\<exists>w'. gp_do x w = Inr w' \<and> gp_inv w' \<and> room r w'"
proof -
  have v: "wrap32 (glist_valid w + 1) = glist_valid w + 1"
    using wrap_valid [OF assms(3)] assms(1) by (simp add: gp_inv_def owners_ok_def)
  have same: "same_owners w w' \<Longrightarrow> room r w'" for w' using room_same room_mono [OF assms(3), of r] by simp
  show ?thesis
  proof (cases x)
    case (Glist_init g st)
    have "listed (glist_init g st w) = listed w"
    proof -
      have "(\<Sum>h \<in> dom (glists w). length (gl_list (the (((glists w)(g \<mapsto> gl)) h)))) = listed w" for gl
        unfolding listed_def using Glist_init assms(2) by (intro sum.cong) auto
      then show ?thesis using Glist_init assms(2,3) by (simp add: listed_def glist_init_def room_def domIff)
    qed
    then have "room r (glist_init g st w)" using assms(3) v by (auto simp: room_def glist_init_def)
    then show ?thesis using assms glist_init_inv Glist_init by simp
  next
    case (Glist_scalar g y)
    then show ?thesis using assms readscalar_inv by auto
  next
    case (Glist_delete g y)
    then obtain gl where gl: "glists w g = Some gl" using assms(2) by auto
    obtain w' where "glist_delete g y w = Inr w'" "gp_inv w'" "room (if y \<in> set (gl_list gl) then Suc r else Suc r - 1) w'"
      using glist_delete_inv [OF assms(1) gl assms(3), of y] by blast
    then show ?thesis using Glist_delete room_mono [of _ w' r] by (auto split: if_splits)
  next
    case (Canvas_free g)
    then obtain gl where gl: "glists w g = Some gl" using assms(2) by auto
    show ?thesis using canvas_free_inv [OF assms(1) gl assms(3)] Canvas_free room_mono by fastforce
  next
    case (Array_new a st)
    have "room r (array_new a st w)" using room_mono [OF assms(3), of r] by (simp add: room_def listed_def array_new_def)
    then show ?thesis using Array_new assms array_new_inv by simp
  next
    case (Array_resize a n)
    then obtain ar where ar: "arrays w a = Some ar" using assms(2) by auto
    show ?thesis using array_resized_inv [OF assms(1) ar] Array_resize ar v assms(3)
      by (simp add: array_resize_def) (auto simp: room_def listed_def)
  next
    case (Array_free a)
    then obtain ar where ar: "arrays w a = Some ar" using assms(2) by auto
    show ?thesis using array_free_inv [OF assms(1) ar room_mono [OF assms(3), of r]] Array_free by auto
  next
    case (Set_list p g sc)
    then obtain gl where gl: "glists w g = Some gl" "p < length (gps w)" "set_option sc \<subseteq> set (gl_list gl)"
      using assms(2) by (auto split: option.splits)
    show ?thesis using setglist_inv [OF assms(1) gl(2,1,3) assms(3)] same Set_list by auto
  next
    case (Set_array p a k)
    then obtain ar where ar: "arrays w a = Some ar" "p < length (gps w)" "k < a_n ar" using assms(2) by (auto split: option.splits)
    show ?thesis using setarray_inv [OF assms(1) ar(2,1,3) assms(3)] same Set_array by auto
  next
    case (Append y p)
    then have "p < length (gps w)" using assms(2) by simp
    from append_inv [OF assms(1) this assms(3), of y] show ?thesis using Append by (auto simp: cbind_def)
  next
    case (Unset p)
    then show ?thesis using assms(2) unset_inv [OF assms(1) _ assms(3), of p] same by auto
  next
    case (Traverse p g)
    show ?thesis
    proof (cases g)
      case None
      then show ?thesis using Traverse assms(1) same by (simp add: ptrobj_traverse_def same_owners_def)
    next
      case (Some g')
      then obtain gl where gl: "glists w g' = Some gl" "p < length (gps w)" using Traverse assms(2) by auto
      show ?thesis using setglist_inv [OF assms(1) gl(2,1) _ assms(3), of None] same Traverse Some by (auto simp: ptrobj_traverse_def)
    qed
  next
    case (Next sel f p)
    then have "p < length (gps w)" using assms(2) by simp
    obtain o' w' where "ptrobj_vnext [] (\<lambda>_. []) (\<lambda>_. True) sel f p w = Inr (o', w')" "gp_inv w'" "same_owners w w'"
      using vnext_inv [OF assms(1) \<open>p < length (gps w)\<close> assms(3)] by blast
    then show ?thesis using Next same by (simp add: cbind_def)
  next
    case (Ptrobj_pointer p q)
    then show ?thesis using assms(2) ptrobj_pointer_inv [OF assms(1) _ _ assms(3), of p q] same by auto
  qed
qed

lemma gp_run_inv: "gp_inv w \<Longrightarrow> room (length xs + r) w \<Longrightarrow> \<exists>w'. gp_run xs w = Inr w' \<and> gp_inv w' \<and> room r w'"
proof (induction xs arbitrary: w)
  case (Cons x xs)
  show ?case
  proof (cases "allowed x w")
    case True
    then obtain w1 where "gp_do x w = Inr w1" "gp_inv w1" "room (length xs + r) w1"
      using gp_do_inv [OF Cons.prems(1) True] Cons.prems(2) by auto
    then show ?thesis using True Cons.IH by (simp add: cbind_def)
  next
    case False
    then show ?thesis using Cons.IH [OF Cons.prems(1) room_mono [OF Cons.prems(2)]] by simp
  qed
qed simp

lemma gp_inv_start: "gp_inv (gp_start n)"
proof -
  have "refs_to (gp_start n) st = 0" for st by (simp add: refs_to_def gp_start_def gpointer_init_def)
  then show ?thesis by (auto simp: gp_inv_def stub_ok_def owners_ok_def gp_good_def gp_start_def gpointer_init_def)
qed


lemma room_start: "n + 2 * k < 2 ^ 31 - 10001 \<Longrightarrow> room k (gp_start n)"
  by (simp add: room_def gp_start_def listed_def)


text \<open>The stub of a list that had a scalar is never freed.\<close>

lemma stub_of_scalar_leaks:
  "cbind (gp_run [Glist_init 7 1, Glist_scalar 7 20, Canvas_free 7] (gp_start 0)) (\<lambda>w. Inr (map_option gs_which (stubs w 1), glists w 7 = None, gps w)) =
     Inr (Some GP_NONE, True, [])"
  by code_simp

text \<open>
  Where a template is changed, a scalar in a list is replaced and freed but the number of the list is not changed: a pointer to it passes its check.
\<close>

definition template_conformscalar :: "addr \<Rightarrow> addr \<Rightarrow> addr \<Rightarrow> gp_world \<Rightarrow> gp_world cresult" where
  "template_conformscalar g x scfrom w = cbind (scalar_new g w) (\<lambda>w1. case glists w1 g of None \<Rightarrow> Inl UseAfterFree
     | Some gl \<Rightarrow> Inr (w1\<lparr>glists := (glists w1)(g \<mapsto> gl\<lparr>gl_list := map (\<lambda>y. if y = scfrom then x else y) (gl_list gl)\<rparr>)\<rparr>))"

lemma conform_dangles:
  "cbind (gp_run [Glist_init 7 1, Glist_scalar 7 20, Set_list 0 7 (Some 20)] (gp_start 1)) (\<lambda>w. cbind (template_conformscalar 7 21 20 w) (\<lambda>w.
     cbind (gpointer_check (gps w ! 0) False w) (\<lambda>ok. Inr (ok, gp_un (gps w ! 0), map_option gl_list (glists w 7))))) =
   Inr (True, Some 20, Some [21])"
  by code_simp

text \<open>A pointer object that is fed the pointer that it holds itself unsets it before it copies it, and loses it.\<close>

lemma ptrobj_pointer_loses_own:
  assumes "gp_inv w" "p < length (gps w)" "room r w"
  shows "\<exists>w'. ptrobj_pointer p p w = Inr w' \<and> gpointer_check (gps w' ! p) True w' = Inr False"
proof -
  obtain w1 where w1: "gpointer_unset p w = Inr w1" "gp_stub (gps w1 ! p) = None" using unset_inv [OF assms] by blast
  then have "ptrobj_pointer p p w = Inr w1" by (simp add: ptrobj_pointer_def cbind_def gpointer_copy_def set_gp_def)
  then show ?thesis using w1(2) by (intro exI [of _ w1]) (simp add: gpointer_check_def)
qed

text \<open>The check tells a pointer to a deleted scalar from one that is fresh, and one to an array that was resized.\<close>

lemma check_examples:
  "cbind (gp_run [Glist_init 7 1, Glist_scalar 7 20, Glist_scalar 7 21, Traverse 0 (Some 7), Next (\<lambda>_. False) False 0] (gp_start 2)) (\<lambda>w. gpointer_check (gps w ! 0) False w) = Inr True"
  "cbind (gp_run [Glist_init 7 1, Glist_scalar 7 20, Glist_scalar 7 21, Traverse 0 (Some 7), Next (\<lambda>_. False) False 0, Ptrobj_pointer 1 0,
     Glist_delete 7 20, Canvas_free 7] (gp_start 2)) (\<lambda>w. gpointer_check (gps w ! 1) False w) = Inr False"
  "cbind (gp_run [Array_new 3 1, Set_array 0 3 0] (gp_start 1)) (\<lambda>w. gpointer_check (gps w ! 0) False w) = Inr True"
  "cbind (gp_run [Array_new 3 1, Set_array 0 3 0, Array_resize 3 5] (gp_start 1)) (\<lambda>w. gpointer_check (gps w ! 0) False w) = Inr False"
  by (code_simp)+



subsection \<open>A list is traversed in its order\<close>

fun next_times :: "nat \<Rightarrow> nat \<Rightarrow> gp_world \<Rightarrow> (ptr_out list \<times> gp_world) cresult" where
  "next_times 0 p w = Inr ([], w)"
| "next_times (Suc n) p w = cbind (ptrobj_vnext [] (\<lambda>_. []) (\<lambda>_. False) (\<lambda>_. False) False p w) (\<lambda>(o1, w1).
     cbind (next_times n p w1) (\<lambda>(os, w2). Inr (o1 # os, w2)))"

definition at_list :: "nat \<Rightarrow> addr \<Rightarrow> addr list \<Rightarrow> addr option \<Rightarrow> gp_world \<Rightarrow> bool" where
  "at_list p g ys sc w \<longleftrightarrow> gp_inv w \<and> room 0 w \<and> p < length (gps w) \<and> (\<exists>st s gl. gp_stub (gps w ! p) = Some st \<and> stubs w st = Some s \<and> gs_which s = GP_GLIST g \<and>
     glists w g = Some gl \<and> gl_list gl = ys \<and> gl_valid gl = gp_valid (gps w ! p) \<and> gp_un (gps w ! p) = sc)"

lemma vnext_at:
  assumes "at_list p g ys sc w" "list_behind sc ys = Inr zs"
  shows "case zs of [] \<Rightarrow> (\<exists>w'. ptrobj_vnext [] t v s False p w = Inr (Bang_out, w'))
    | z # _ \<Rightarrow> (\<exists>w'. ptrobj_vnext [] t v s False p w = Inr (Pointer_out None z, w') \<and> at_list p g ys (Some z) w')"
proof -
  obtain st s' gl where *: "gp_stub (gps w ! p) = Some st" "stubs w st = Some s'" "gs_which s' = GP_GLIST g"
      "glists w g = Some gl" "gl_list gl = ys" "gl_valid gl = gp_valid (gps w ! p)" "gp_un (gps w ! p) = sc"
    and inv: "gp_inv w" "p < length (gps w)" "room 0 w"
    using assms(1) unfolding at_list_def by blast
  show ?thesis
  proof (cases zs)
    case Nil
    obtain w' where "gpointer_unset p w = Inr w'" using unset_inv [OF inv] by blast
    then show ?thesis using Nil * assms(2) by (simp add: ptrobj_vnext_def cbind_def)
  next
    case (Cons z zs')
    define w' where "w' = set_gp p ((gps w ! p)\<lparr>gp_un := Some z\<rparr>) w"
    have out: "ptrobj_vnext [] t v s False p w = Inr (Pointer_out None z, w')"
      using Cons * assms(2) by (simp add: ptrobj_vnext_def cbind_def w'_def)
    moreover obtain o' w'' where "ptrobj_vnext [] t v s False p w = Inr (o', w'')" "gp_inv w''" "same_owners w w''" using vnext_inv [OF inv] by blast
    ultimately have "gp_inv w'" "room 0 w'" using room_same inv(3) by auto
    then have "at_list p g ys (Some z) w'" using * inv(2) unfolding at_list_def by (simp add: w'_def)
    then show ?thesis using out Cons by simp
  qed
qed

lemma list_behind_split:
  assumes "distinct (us @ y # vs)"
  shows "list_behind (Some y) (us @ y # vs) = Inr vs"
proof -
  have "\<forall>u \<in> set us. u \<noteq> y" using assms by auto
  then have "dropWhile (\<lambda>z. z \<noteq> y) (us @ y # vs) = y # vs" by (simp add: dropWhile_append2)
  then show ?thesis by (simp add: list_behind_def)
qed

lemma next_times_from:
  assumes "distinct (us @ y # vs)" "at_list p g (us @ y # vs) (Some y) w"
  shows "\<exists>w'. next_times (length vs + 1) p w = Inr (map (Pointer_out None) vs @ [Bang_out], w')"
  using assms
proof (induction vs arbitrary: us y w)
  case Nil
  obtain w' where "ptrobj_vnext [] (\<lambda>_. []) (\<lambda>_. False) (\<lambda>_. False) False p w = Inr (Bang_out, w')"
    using vnext_at [OF Nil(2) list_behind_split [OF Nil(1)], of "\<lambda>_. []" "\<lambda>_. False" "\<lambda>_. False"] by auto
  then show ?case by (simp add: cbind_def)
next
  case (Cons v vs)
  obtain w1 where w1: "ptrobj_vnext [] (\<lambda>_. []) (\<lambda>_. False) (\<lambda>_. False) False p w = Inr (Pointer_out None v, w1)" "at_list p g (us @ y # v # vs) (Some v) w1"
    using vnext_at [OF Cons.prems(2) list_behind_split [OF Cons.prems(1)], of "\<lambda>_. []" "\<lambda>_. False" "\<lambda>_. False"] by auto
  then show ?case using Cons.IH [of "us @ [y]" v w1] Cons.prems(1) by (auto simp: cbind_def)
qed

lemma traverse_at:
  assumes "gp_inv w" "p < length (gps w)" "glists w g = Some gl" "room 1 w"
  shows "\<exists>w'. ptrobj_traverse p (Some g) w = Inr w' \<and> at_list p g (gl_list gl) None w'"
proof -
  obtain w1 where w1: "gpointer_unset p w = Inr w1" "gp_inv w1" "gp_stub (gps w1 ! p) = None" "same_owners w w1"
    using unset_inv [OF assms(1,2,4)] by blast
  then have l1: "length (gps w1) = length (gps w)" "glists w1 = glists w" by (simp_all add: same_owners_def)
  have "room (Suc 0) w1" using room_same [OF w1(4)] assms(4) by simp
  note l = l1 this
  have own: "owners_ok w1" using w1(2) by (simp add: gp_inv_def)
  have gl: "glists w1 g = Some gl" using assms(3) l(2) by simp
  obtain s where s: "stubs w1 (gl_stub gl) = Some s" "gs_which s = GP_GLIST g" using owner_stub_list [OF own gl] by blast
  define gp where "gp = \<lparr>gp_stub = Some (gl_stub gl), gp_valid = gl_valid gl, gp_un = None\<rparr>"
  have "gp_good w1 gp" using own s gl by (auto simp: gp_good_def owners_ok_def gp_def)
  then obtain w' where w': "refer (gl_stub gl) (set_gp p gp w1) = Inr w'" "gp_inv w'" "gps w' = (gps w1)[p := gp]" "same_owners w1 w'"
    using point_inv [OF w1(2) _ w1(3) _ s(1) _ l(3), of gp] assms(2) l(1) by (auto simp: gp_def)
  have w'': "glists w' = glists w1" using w'(4) by (simp add: same_owners_def)
  have room': "room 0 w'" using room_same [OF w'(4)] room_mono [OF l(3)] by simp
  have "ptrobj_traverse p (Some g) w = Inr w'"
    using w1(1) gl w'(1) by (simp add: ptrobj_traverse_def setglist_unset cbind_def gp_def)
  moreover have "\<exists>s. stubs w' (gl_stub gl) = Some s \<and> gs_which s = GP_GLIST g"
    by (rule owner_stub_list) (use w'(2) w'' gl in \<open>simp_all add: gp_inv_def\<close>)
  moreover have "gps w' ! p = gp" "p < length (gps w')" using w'(3) assms(2) l(1) by simp_all
  ultimately show ?thesis using w'(2) w'' room' gl unfolding at_list_def by (simp add: gp_def)
qed

text \<open>\<^bold>\<open>C19\<close>: A pointer object that is told to traverse a list and then to go on, once more than the list has scalars, sends out a pointer to each
  scalar of the list in their order and then a bang, and never comes upon a scalar that is gone; whatever of these operations happened before. No scalar is twice in the list, and
  the number of objects and twice that of the operations are together so small that no counter wraps.\<close>

theorem traverse_visits_all:
  assumes "gp_run ops (gp_start n) = Inr w" "p < length (gps w)" "glists w g = Some gl" "distinct (gl_list gl)"
    "n + 2 * (length ops + 1) < 2 ^ 31 - 10001"
  shows "\<exists>w' w''. ptrobj_traverse p (Some g) w = Inr w' \<and>
    next_times (length (gl_list gl) + 1) p w' = Inr (map (Pointer_out None) (gl_list gl) @ [Bang_out], w'')"
proof -
  have "\<exists>w'. gp_run ops (gp_start n) = Inr w' \<and> gp_inv w' \<and> room 1 w'"
    by (rule gp_run_inv [OF gp_inv_start room_start]) (use assms(5) in simp)
  then have inv: "gp_inv w" "room 1 w" using assms(1) by auto
  obtain w' where w': "ptrobj_traverse p (Some g) w = Inr w'" "at_list p g (gl_list gl) None w'"
    using traverse_at [OF inv(1) assms(2,3) inv(2)] by blast
  show ?thesis
  proof (cases "gl_list gl")
    case Nil
    obtain w'' where "ptrobj_vnext [] (\<lambda>_. []) (\<lambda>_. False) (\<lambda>_. False) False p w' = Inr (Bang_out, w'')"
      using vnext_at [OF w'(2), of "[]" "\<lambda>_. []" "\<lambda>_. False" "\<lambda>_. False"] Nil by (auto simp: list_behind_def)
    then show ?thesis using w'(1) Nil by (simp add: cbind_def)
  next
    case (Cons y vs)
    obtain w1 where w1: "ptrobj_vnext [] (\<lambda>_. []) (\<lambda>_. False) (\<lambda>_. False) False p w' = Inr (Pointer_out None y, w1)"
        "at_list p g (y # vs) (Some y) w1"
      using vnext_at [OF w'(2), of "gl_list gl" "\<lambda>_. []" "\<lambda>_. False" "\<lambda>_. False"] Cons by (auto simp: list_behind_def)
    obtain w'' where "next_times (length vs + 1) p w1 = Inr (map (Pointer_out None) vs @ [Bang_out], w'')"
      using next_times_from [of "[]" y vs p g w1] w1(2) assms(4) Cons by auto
    then show ?thesis using w'(1) w1(1) Cons by (simp add: cbind_def)
  qed
qed

lemma traverse_visits_all_witness:
  "\<exists>w. gp_run [Glist_init 7 1, Glist_scalar 7 20, Glist_scalar 7 21] (gp_start 2) = Inr w \<and> (\<exists>w' w''. ptrobj_traverse 1 (Some 7) w = Inr w' \<and>
     next_times 3 1 w' = Inr ([Pointer_out None 20, Pointer_out None 21, Bang_out], w''))"
proof -
  define gl where "gl = \<lparr>gl_stub = 1, gl_valid = 10001, gl_list = [20, 21::nat]\<rparr>"
  define w where "w = projr (gp_run [Glist_init 7 1, Glist_scalar 7 20, Glist_scalar 7 21] (gp_start 2))"
  have run: "gp_run [Glist_init 7 1, Glist_scalar 7 20, Glist_scalar 7 21] (gp_start 2) = Inr w" "length (gps w) = 2" "glists w 7 = Some gl"
    by (simp_all add: w_def gl_def gp_start_def glist_init_def glist_add_def glist_readscalar_def scalar_new_def refer_def gstub_new_def cbind_def)
  have "distinct (gl_list gl)" by (simp add: gl_def)
  from traverse_visits_all [OF run(1) _ run(3) this, of 1] show ?thesis using run(1,2) by (simp add: gl_def numeral_3_eq_3)
qed

end
