(* ===== verification/Socket.thy ===== *)
theory Socket
  imports Binbuf
begin

text \<open>
  Receivers for sockets (\<open>s_inter.c\<close>). Over TCP the bytes that arrive go into a ring buffer, from which messages are taken
  that end with a semicolon; over UDP each datagram is a message. What \<open>recv\<close> returns is an argument of the model.
\<close>

subsection \<open>The ring buffer\<close>

definition INBUFSIZE :: nat where "INBUFSIZE = 4096"

record t_socketreceiver =
  sr_inbuf :: string
  sr_inhead :: nat
  sr_intail :: nat

definition next_in :: "nat \<Rightarrow> nat" where
  "next_in i = (i + 1) mod INBUFSIZE"

text \<open>
  The loop of \<open>socketreceiver_doread\<close> from the position \<open>indx\<close>: the message up to a semicolon without a backslash before it and the
  position behind it, or \<open>None\<close>. \<open>k\<close> bounds the number of bytes that are still to be read; it starts with the size of the buffer, which is the
  size of \<open>messbuf\<close>, too.
\<close>

definition ends_message :: "string \<Rightarrow> nat \<Rightarrow> bool" where
  "ends_message inbuf indx \<longleftrightarrow> inbuf ! indx = CHR '';'' \<and> (indx = 0 \<or> inbuf ! (indx - 1) \<noteq> CHR 0x5C)"

fun doread_loop :: "nat \<Rightarrow> string \<Rightarrow> nat \<Rightarrow> bool \<Rightarrow> nat \<Rightarrow> (string \<times> nat) option cresult" where
  "doread_loop inhead inbuf indx first 0 = (if first \<or> indx \<noteq> inhead then Inl OutOfBounds else Inr None)"
| "doread_loop inhead inbuf indx first (Suc k) =
     (if first \<or> indx \<noteq> inhead then
        (if indx < length inbuf then
           (if ends_message inbuf indx then Inr (Some ([inbuf ! indx], next_in indx))
            else cbind (doread_loop inhead inbuf (next_in indx) False k)
              (\<lambda>r. Inr (map_option (\<lambda>(m, t). (inbuf ! indx # m, t)) r)))
         else Inl OutOfBounds)
      else Inr None)"

definition socketreceiver_doread :: "t_socketreceiver \<Rightarrow> (t_binbuf option \<times> t_socketreceiver) cresult" where
  "socketreceiver_doread x = cbind (doread_loop (sr_inhead x) (sr_inbuf x) (sr_intail x) True INBUFSIZE) (\<lambda>r.
     Inr (case r of None \<Rightarrow> (None, x) | Some (m, t) \<Rightarrow> (Some (binbuf_text m), x\<lparr>sr_intail := t\<rparr>)))"

text \<open>All messages that are complete are handed to the function \<open>f\<close> of the owner.\<close>

partial_function (option) read_messages ::
    "(t_binbuf \<Rightarrow> 'w \<Rightarrow> 'w) \<Rightarrow> t_socketreceiver \<times> 'w \<Rightarrow> (t_socketreceiver \<times> 'w) cresult option" where
  "read_messages f xw = (case socketreceiver_doread (fst xw) of
       Inl e \<Rightarrow> Some (Inl e)
     | Inr (None, x) \<Rightarrow> Some (Inr (x, snd xw))
     | Inr (Some b, x) \<Rightarrow> (if sr_inhead x = sr_intail x then Some (Inr (x, f b (snd xw))) else read_messages f (x, f b (snd xw))))"

text \<open>The room for \<open>recv\<close>; \<open>got\<close> is what it returns of the bytes that wait: at most that many.\<close>

definition readto :: "t_socketreceiver \<Rightarrow> int" where
  "readto x = (if sr_inhead x \<ge> sr_intail x then int INBUFSIZE else int (sr_intail x) - 1)"

definition store :: "nat \<Rightarrow> string \<Rightarrow> string \<Rightarrow> string cresult" where
  "store i got inbuf = (if i + length got \<le> length inbuf then Inr (take i inbuf @ got @ drop (i + length got) inbuf) else Inl OutOfBounds)"

definition socketreceiver_read ::
    "(t_binbuf \<Rightarrow> 'w \<Rightarrow> 'w) \<Rightarrow> string \<Rightarrow> t_socketreceiver \<times> 'w \<Rightarrow> (t_socketreceiver \<times> 'w) cresult option" where
  "socketreceiver_read f got xw = (case xw of (x, w) \<Rightarrow>
     if readto x = int (sr_inhead x) then Some (Inr (x\<lparr>sr_inhead := 0, sr_intail := 0\<rparr>, w))
     else (case store (sr_inhead x) got (sr_inbuf x) of
         Inl e \<Rightarrow> Some (Inl e)
       | Inr buf \<Rightarrow> (let h = sr_inhead x + length got in
           read_messages f (x\<lparr>sr_inbuf := buf, sr_inhead := (if h \<ge> INBUFSIZE then 0 else h)\<rparr>, w))))"

definition socketreceiver_new :: "string \<Rightarrow> t_socketreceiver" where
  "socketreceiver_new garbage = \<lparr>sr_inbuf = garbage, sr_inhead = 0, sr_intail = 0\<rparr>"

text \<open>A datagram, of at least one byte. Only the text up to the first semicolon is used.\<close>

definition socketreceiver_getudp :: "(t_binbuf \<Rightarrow> 'w \<Rightarrow> 'w) \<Rightarrow> string \<Rightarrow> 'w \<Rightarrow> 'w" where
  "socketreceiver_getudp f got w =
     (if last got \<noteq> CHR 0x0A then w
      else f (binbuf_text (takeWhile (\<lambda>c. c \<noteq> CHR 0x00) (takeWhile (\<lambda>c. c \<noteq> CHR '';'') (takeWhile (\<lambda>c. c \<noteq> CHR 0x00) got)))) w)"

subsection \<open>The ring holds what is not yet read\<close>

definition ring_at :: "string \<Rightarrow> nat \<Rightarrow> nat \<Rightarrow> string" where
  "ring_at buf i n = map (\<lambda>k. buf ! ((i + k) mod INBUFSIZE)) [0..<n]"

definition ring_ok :: "t_socketreceiver \<Rightarrow> string \<Rightarrow> bool" where
  "ring_ok x p \<longleftrightarrow> length (sr_inbuf x) = INBUFSIZE \<and> sr_intail x < INBUFSIZE \<and> length p \<le> INBUFSIZE \<and>
     sr_inhead x = (sr_intail x + length p) mod INBUFSIZE \<and> ring_at (sr_inbuf x) (sr_intail x) (length p) = p \<and>
     (sr_intail x = 0 \<or> sr_inbuf x ! (sr_intail x - 1) = CHR '';'')"

text \<open>The messages in a text in which no backslash stands before a semicolon, and what follows the last of them.\<close>

fun messages :: "string \<Rightarrow> string list" where
  "messages [] = []"
| "messages (c # cs) = (if c = CHR '';'' then [c] # messages cs
     else (case messages cs of [] \<Rightarrow> [] | m # ms \<Rightarrow> (c # m) # ms))"

fun remaining :: "string \<Rightarrow> string" where
  "remaining [] = []"
| "remaining (c # cs) = (if CHR '';'' \<in> set (c # cs) then remaining cs else c # cs)"

fun plain :: "string \<Rightarrow> bool" where
  "plain (b # c # cs) = (\<not> (b = CHR 0x5C \<and> c = CHR '';'') \<and> plain (c # cs))"
| "plain _ = True"

lemma messages_none [simp]: "CHR '';'' \<notin> set s \<Longrightarrow> messages s = []"
  and remaining_none [simp]: "CHR '';'' \<notin> set s \<Longrightarrow> remaining s = s"
  by (induction s) auto

lemma messages_first: "CHR '';'' \<notin> set m \<Longrightarrow> messages (m @ CHR '';'' # s) = (m @ [CHR '';'']) # messages s"
  and remaining_first: "CHR '';'' \<notin> set m \<Longrightarrow> remaining (m @ CHR '';'' # s) = remaining s"
  by (induction m) auto

lemma split_first:
  obtains "CHR '';'' \<notin> set s" | m t where "CHR '';'' \<notin> set m" "s = m @ CHR '';'' # t"
  by (meson split_list_first)

lemma messages_remaining_append:
  "messages (p @ s) = messages p @ messages (remaining p @ s) \<and> remaining (p @ s) = remaining (remaining p @ s)"
proof (induction "length p" arbitrary: p rule: less_induct)
  case less
  show ?case
  proof (rule split_first [of p])
    fix m t assume "CHR '';'' \<notin> set m" "p = m @ CHR '';'' # t"
    then show ?thesis using less [of t] by (simp add: messages_first remaining_first)
  qed simp
qed

lemmas messages_append = messages_remaining_append [THEN conjunct1]
  and remaining_append = messages_remaining_append [THEN conjunct2]

lemma remaining_free: "CHR '';'' \<notin> set (remaining s)"
  by (induction s) auto

lemma messages_remaining: "concat (messages s) @ remaining s = s"
proof (induction "length s" arbitrary: s rule: less_induct)
  case less
  show ?case
  proof (rule split_first [of s])
    fix m t assume "CHR '';'' \<notin> set m" "s = m @ CHR '';'' # t"
    then show ?thesis using less [of t] by (simp add: messages_first remaining_first)
  qed simp
qed

lemma plain_append: "plain (s @ t) \<Longrightarrow> plain s" "plain (s @ t) \<Longrightarrow> plain t"
proof -
  show "plain (s @ t) \<Longrightarrow> plain s" by (induction s rule: plain.induct) auto
  show "plain (s @ t) \<Longrightarrow> plain t"
  proof (induction s)
    case (Cons c s)
    then show ?case by (cases "s @ t") auto
  qed simp
qed

lemma INBUFSIZE_pos [simp]: "0 < INBUFSIZE"
  by (simp add: INBUFSIZE_def)

lemma next_in_mod: "next_in ((i + k) mod INBUFSIZE) = (i + Suc k) mod INBUFSIZE"
  by (simp add: next_in_def mod_Suc_eq)

lemma ring_distinct:
  assumes "j < k" "k < INBUFSIZE"
  shows "(i + j) mod INBUFSIZE \<noteq> (i + k) mod (INBUFSIZE::nat)"
proof
  assume "(i + j) mod INBUFSIZE = (i + k) mod INBUFSIZE"
  then have "INBUFSIZE dvd k - j" using assms(1) by (metis add_less_cancel_left less_imp_le mod_eq_dvd_iff_nat diff_add_inverse2 add_diff_cancel_left)
  then show False using assms by (auto dest: dvd_imp_le)
qed

text \<open>What the loop finds, with \<open>b\<close> the byte before the text that is left.\<close>

lemma doread_loop_finds:
  assumes "length buf = INBUFSIZE" "ring_at buf i (j + length q) = p @ q" "length p = j" "j + length q \<le> INBUFSIZE"
    "head = (i + (j + length q)) mod INBUFSIZE" "first \<longleftrightarrow> j = 0" "q \<noteq> [] \<or> 0 < j" "k = INBUFSIZE - j" "i < INBUFSIZE"
    "plain (p @ q)" "i = 0 \<or> buf ! (i - 1) \<noteq> CHR 0x5C"
  shows "doread_loop head buf ((i + j) mod INBUFSIZE) first k =
    Inr (case messages q of [] \<Rightarrow> None | m # _ \<Rightarrow> Some (m, (i + (j + length m)) mod INBUFSIZE))"
  using assms(2-8,10)
proof (induction q arbitrary: p j first k)
  case Nil
  then have "(i + j) mod INBUFSIZE = head" "\<not> first" by simp_all
  then show ?case by (cases k) simp_all
next
  case (Cons c q)
  have more: "first \<or> (i + j) mod INBUFSIZE \<noteq> head"
  proof (cases "j = 0")
    case False
    have "(i + j) mod INBUFSIZE \<noteq> (i + (j + length (c # q))) mod INBUFSIZE"
    proof (cases "j + length (c # q) = INBUFSIZE")
      case True
      then show ?thesis using ring_distinct [of 0 j i] False Cons.prems(3) by (simp add: True)
    next
      case ne: False
      then show ?thesis using ring_distinct [of j "j + length (c # q)" i] Cons.prems(3) by simp
    qed
    then show ?thesis using Cons.prems(4) by simp
  qed (use Cons.prems(5) in simp)
  obtain k' where k: "k = Suc k'" "k' = INBUFSIZE - Suc j" using Cons.prems(3,7) by (metis Suc_diff_Suc length_Cons less_le_trans less_add_Suc1 add_Suc_right)
  have at: "(p @ c # q) ! l = buf ! ((i + l) mod INBUFSIZE)" if "l < j + length (c # q)" for l
    using that by (simp add: Cons.prems(1) [symmetric] ring_at_def del: upt_Suc)
  have c: "buf ! ((i + j) mod INBUFSIZE) = c"
  proof -
    have "(p @ c # q) ! j = c" using Cons.prems(2) by (metis nth_append_length)
    then show ?thesis using at [of j] by simp
  qed
  have ends: "ends_message buf ((i + j) mod INBUFSIZE) \<longleftrightarrow> c = CHR '';''"
  proof (cases "c = CHR '';''")
    case True
    have "(i + j) mod INBUFSIZE = 0 \<or> buf ! ((i + j) mod INBUFSIZE - 1) \<noteq> CHR 0x5C"
    proof (cases "j = 0")
      case True
      then show ?thesis using assms(9,11) by simp
    next
      case False
      then obtain l where l: "j = Suc l" by (cases j) auto
      then obtain p' b where p: "p = p' @ [b]" "length p' = l" using Cons.prems(2) by (metis length_Suc_conv_rev)
      have "plain (b # c # q)" using Cons.prems(8) plain_append(2) [of p' "b # c # q"] by (simp add: p)
      then have b: "b \<noteq> CHR 0x5C" using True by simp
      have "buf ! ((i + l) mod INBUFSIZE) = b" using at [of l] l p by (simp add: nth_append)
      moreover have "(i + j) mod INBUFSIZE = 0 \<or> (i + j) mod INBUFSIZE - 1 = (i + l) mod INBUFSIZE"
        unfolding l by (metis add_Suc_right diff_Suc_1 mod_Suc)
      ultimately show ?thesis using b by auto
    qed
    then show ?thesis using c True by (simp add: ends_message_def)
  next
    case False
    then show ?thesis using c by (simp add: ends_message_def)
  qed
  have len: "(i + j) mod INBUFSIZE < length buf" using assms(1) by simp
  show ?case
  proof (cases "c = CHR '';''")
    case True
    then show ?thesis using more len ends c by (simp add: k(1) next_in_mod)
  next
    case False
    have "doread_loop head buf ((i + Suc j) mod INBUFSIZE) False k' =
        Inr (case messages q of [] \<Rightarrow> None | m # _ \<Rightarrow> Some (m, (i + (Suc j + length m)) mod INBUFSIZE))"
      using Cons.prems by (intro Cons.IH [of "Suc j" "p @ [c]"]) (simp_all add: k(2))
    then show ?thesis using more len ends c False by (auto simp: k(1) next_in_mod cbind_def split: list.splits)
  qed
qed

lemma ring_at_append: "ring_at buf i (m + n) = ring_at buf i m @ ring_at buf ((i + m) mod INBUFSIZE) n"
  by (rule nth_equalityI) (auto simp: ring_at_def nth_append mod_add_left_eq add.assoc)

lemma doread_spec:
  assumes "ring_ok x p" "plain p" "p \<noteq> []"
  shows "socketreceiver_doread x = Inr (case messages p of [] \<Rightarrow> (None, x)
    | m # _ \<Rightarrow> (Some (binbuf_text m), x\<lparr>sr_intail := (sr_intail x + length m) mod INBUFSIZE\<rparr>))"
proof -
  have "doread_loop (sr_inhead x) (sr_inbuf x) ((sr_intail x + 0) mod INBUFSIZE) True INBUFSIZE =
      Inr (case messages p of [] \<Rightarrow> None | m # _ \<Rightarrow> Some (m, (sr_intail x + (0 + length m)) mod INBUFSIZE))"
    using assms by (intro doread_loop_finds [where p = "[]"]) (auto simp: ring_ok_def)
  then show ?thesis using assms(1) by (auto simp: socketreceiver_doread_def cbind_def ring_ok_def split: list.splits)
qed

lemma after_message:
  assumes "ring_ok x (m @ CHR '';'' # p)"
  shows "ring_ok (x\<lparr>sr_intail := (sr_intail x + length m + 1) mod INBUFSIZE\<rparr>) p"
proof -
  let ?t = "(sr_intail x + length m + 1) mod INBUFSIZE" and ?b = "sr_inbuf x"
  have r: "length ?b = INBUFSIZE" "length m + 1 + length p \<le> INBUFSIZE" "sr_inhead x = (sr_intail x + (length m + 1 + length p)) mod INBUFSIZE"
      "ring_at ?b (sr_intail x) (length m + 1 + length p) = m @ CHR '';'' # p"
    using assms by (simp_all add: ring_ok_def)
  have split: "ring_at ?b (sr_intail x) (length m + 1) @ ring_at ?b ?t (length p) = (m @ [CHR '';'']) @ p"
    using r(4) ring_at_append [of ?b "sr_intail x" "length m + 1" "length p"] by (simp add: add.assoc)
  then have parts: "ring_at ?b (sr_intail x) (length m + 1) = m @ [CHR '';'']" "ring_at ?b ?t (length p) = p"
    by (simp_all add: append_eq_append_conv ring_at_def)
  have "?b ! ((sr_intail x + length m) mod INBUFSIZE) = CHR '';''"
    using arg_cong [OF parts(1), of "\<lambda>s. s ! length m"] by (simp add: ring_at_def del: upt_Suc)
  moreover have "?t = 0 \<or> ?t - 1 = (sr_intail x + length m) mod INBUFSIZE"
    by (metis Suc_eq_plus1 diff_Suc_1 mod_Suc)
  ultimately show ?thesis using r parts(2) by (auto simp: ring_ok_def mod_add_left_eq add.assoc)
qed

lemma read_messages_all:
  assumes "ring_ok x p" "plain p" "p \<noteq> []"
  shows "\<exists>x'. read_messages f (x, w) = Some (Inr (x', fold (\<lambda>m. f (binbuf_text m)) (messages p) w)) \<and> ring_ok x' (remaining p)"
  using assms
proof (induction "length p" arbitrary: p x w rule: less_induct)
  case less
  consider (no) "CHR '';'' \<notin> set p" | (first) m t where "CHR '';'' \<notin> set m" "p = m @ CHR '';'' # t" by (rule split_first)
  then show ?case
  proof cases
    case no
    then have "read_messages f (x, w) = Some (Inr (x, w))"
      using doread_spec [OF less.prems] by (subst read_messages.simps) simp
    then show ?thesis using no less.prems(1) by simp
  next
    case first
    let ?x = "x\<lparr>sr_intail := (sr_intail x + length m + 1) mod INBUFSIZE\<rparr>"
    have d: "socketreceiver_doread x = Inr (Some (binbuf_text (m @ [CHR '';''])), ?x)"
      using doread_spec [OF less.prems] by (simp add: first messages_first add.assoc)
    have ok: "ring_ok ?x t" using after_message less.prems(1) first(2) by simp
    have plain: "plain t" using less.prems(2) plain_append(2) [of "m @ [CHR '';'']" t] by (simp add: first(2))
    have len: "length t < INBUFSIZE" using less.prems(1) by (simp add: ring_ok_def first(2))
    have sep: "messages p = (m @ [CHR '';'']) # messages t" "remaining p = remaining t"
      using first by (simp_all add: messages_first remaining_first)
    show ?thesis
    proof (cases "t = []")
      case True
      then have "sr_inhead ?x = sr_intail ?x" using ok by (simp add: ring_ok_def)
      then have "read_messages f (x, w) = Some (Inr (?x, f (binbuf_text (m @ [CHR '';''])) w))"
        by (subst read_messages.simps) (simp add: d)
      then show ?thesis using ok True sep by simp
    next
      case False
      have "sr_inhead ?x \<noteq> sr_intail ?x"
        using ok ring_distinct [of 0 "length t" "sr_intail ?x"] False len by (auto simp: ring_ok_def)
      then have "read_messages f (x, w) = read_messages f (?x, f (binbuf_text (m @ [CHR '';''])) w)"
        by (subst read_messages.simps) (simp add: d)
      moreover have "length t < length p" by (simp add: first(2))
      ultimately show ?thesis using less.hyps [OF _ ok plain False] sep by auto
    qed
  qed
qed

text \<open>What \<open>recv\<close> may store, and that it is stored behind what is there.\<close>

definition room :: "t_socketreceiver \<Rightarrow> nat" where
  "room x = nat (readto x - int (sr_inhead x))"

lemma head_cases:
  assumes "ring_ok x p" "length p < INBUFSIZE"
  shows "sr_inhead x \<ge> sr_intail x \<and> sr_inhead x = sr_intail x + length p \<or>
    sr_inhead x < sr_intail x \<and> sr_inhead x + INBUFSIZE = sr_intail x + length p"
proof (cases "sr_intail x + length p < INBUFSIZE")
  case True
  then show ?thesis using assms by (simp add: ring_ok_def)
next
  case False
  then have "(sr_intail x + length p) mod INBUFSIZE = sr_intail x + length p - INBUFSIZE"
    using assms by (subst mod_if) (auto simp: ring_ok_def le_mod_geq)
  then show ?thesis using False assms by (auto simp: ring_ok_def)
qed

lemma store_behind:
  assumes ok: "ring_ok x p" and p: "length p < INBUFSIZE" and got: "length got \<le> room x"
  shows "\<exists>buf. store (sr_inhead x) got (sr_inbuf x) = Inr buf \<and>
    ring_ok (x\<lparr>sr_inbuf := buf, sr_inhead := (if sr_inhead x + length got \<ge> INBUFSIZE then 0 else sr_inhead x + length got)\<rparr>) (p @ got)"
proof -
  let ?h = "sr_inhead x" and ?t = "sr_intail x" and ?b = "sr_inbuf x"
  define buf where "buf = take ?h ?b @ got @ drop (?h + length got) ?b"
  have r: "length ?b = INBUFSIZE" "?t < INBUFSIZE" "ring_at ?b ?t (length p) = p" "?t = 0 \<or> ?b ! (?t - 1) = CHR '';''"
    using ok by (simp_all add: ring_ok_def)
  note h = head_cases [OF ok p]
  have hN: "?h < INBUFSIZE" using ok by (simp add: ring_ok_def)
  have fits: "?h + length got \<le> INBUFSIZE" "length p + length got \<le> INBUFSIZE" "?h < ?t \<longrightarrow> ?h + length got < ?t"
    using h got r(2) hN by (auto simp: room_def readto_def split: if_splits)
  have store: "store ?h got ?b = Inr buf" using fits(1) r(1) by (simp add: store_def buf_def)
  have len: "length buf = INBUFSIZE" using fits(1) r(1) by (simp add: buf_def)
  have old: "buf ! i = ?b ! i" if "i < ?h \<or> ?h + length got \<le> i" "i < INBUFSIZE" for i
    using that fits(1) r(1) by (auto simp: buf_def nth_append min_def)
  have new: "buf ! (?h + k) = got ! k" if "k < length got" for k
    using that fits(1) r(1) by (simp add: buf_def nth_append min_def)
  have "ring_at buf ?t (length p) = ring_at ?b ?t (length p)"
  proof (unfold ring_at_def, rule map_cong [OF refl])
    fix k assume "k \<in> set [0..<length p]"
    then have k: "k < length p" by simp
    have "(?t + k) mod INBUFSIZE < ?h \<or> ?h + length got \<le> (?t + k) mod INBUFSIZE"
    proof (cases "?t + k < INBUFSIZE")
      case True
      then show ?thesis using h k fits(3) by auto
    next
      case False
      then have "(?t + k) mod INBUFSIZE = ?t + k - INBUFSIZE" using k p r(2) by (subst mod_if) (simp add: le_mod_geq)
      then show ?thesis using h k False by auto
    qed
    then show "buf ! ((?t + k) mod INBUFSIZE) = ?b ! ((?t + k) mod INBUFSIZE)" by (intro old) simp_all
  qed
  moreover have "ring_at buf ((?t + length p) mod INBUFSIZE) (length got) = got"
  proof (rule nth_equalityI)
    fix k assume "k < length (ring_at buf ((?t + length p) mod INBUFSIZE) (length got))"
    then have k: "k < length got" by (simp add: ring_at_def)
    have "(?t + length p) mod INBUFSIZE = ?h" using ok by (simp add: ring_ok_def)
    then show "ring_at buf ((?t + length p) mod INBUFSIZE) (length got) ! k = got ! k"
      using k new fits(1) by (simp add: ring_at_def)
  qed (simp add: ring_at_def)
  ultimately have "ring_at buf ?t (length (p @ got)) = p @ got" using r(3) by (simp add: ring_at_append)
  moreover have "?t = 0 \<or> buf ! (?t - 1) = CHR '';''" using r(2,4) h fits(3) old [of "?t - 1"] by fastforce
  moreover have "(if ?h + length got \<ge> INBUFSIZE then 0 else ?h + length got) = (?t + length (p @ got)) mod INBUFSIZE"
  proof -
    have "(?t + length (p @ got)) mod INBUFSIZE = (?h + length got) mod INBUFSIZE"
      using ok by (simp add: ring_ok_def mod_add_left_eq add.assoc)
    then show ?thesis using fits(1) by (auto simp: le_less)
  qed
  ultimately show ?thesis using store len r(2) fits(2) by (simp add: ring_ok_def)
qed

subsection \<open>However the bytes arrive\<close>

text \<open>
  The bytes \<open>s\<close> arrive in reads of at most the sizes \<open>ks\<close>, each of which \<open>recv\<close> cuts to the room there is; the result holds those that are
  still to come.
\<close>

fun feed :: "(t_binbuf \<Rightarrow> 'w \<Rightarrow> 'w) \<Rightarrow> nat list \<Rightarrow> string \<Rightarrow> t_socketreceiver \<times> 'w \<Rightarrow> (string \<times> t_socketreceiver \<times> 'w) cresult option" where
  "feed f [] s xw = Some (Inr (s, xw))"
| "feed f (k # ks) s xw = (if s = [] then Some (Inr (s, xw)) else
     (let n = min k (room (fst xw)) in rbind (socketreceiver_read f (take n s) xw) (feed f ks (drop n s))))"

lemma room_pos:
  assumes "ring_ok x p" "length p \<le> INBUFSIZE - 2"
  shows "0 < room x" "readto x \<noteq> int (sr_inhead x)"
proof -
  have "length p < INBUFSIZE" "sr_inhead x < INBUFSIZE" using assms by (simp_all add: ring_ok_def INBUFSIZE_def)
  then show "0 < room x" "readto x \<noteq> int (sr_inhead x)"
    using head_cases [OF assms(1)] assms(2) by (auto simp: room_def readto_def INBUFSIZE_def)
qed

lemma read_step:
  assumes "ring_ok x p" "length p \<le> INBUFSIZE - 2" "plain (p @ got)" "got \<noteq> []" "length got \<le> room x"
  shows "\<exists>x'. socketreceiver_read f got (x, w) = Some (Inr (x', fold (\<lambda>m. f (binbuf_text m)) (messages (p @ got)) w)) \<and>
    ring_ok x' (remaining (p @ got))"
proof -
  have "length p < INBUFSIZE" using assms(2) by (simp add: INBUFSIZE_def)
  from store_behind [OF assms(1) this assms(5)] obtain buf where buf: "store (sr_inhead x) got (sr_inbuf x) = Inr buf"
      "ring_ok (x\<lparr>sr_inbuf := buf, sr_inhead := (if sr_inhead x + length got \<ge> INBUFSIZE then 0 else sr_inhead x + length got)\<rparr>) (p @ got)"
    by blast
  then show ?thesis using read_messages_all [OF buf(2) assms(3), of f w] assms(4) room_pos(2) [OF assms(1,2)]
    by (simp add: socketreceiver_read_def Let_def)
qed

text \<open>No message is longer than the buffer allows.\<close>

definition fits_buffer :: "string \<Rightarrow> bool" where
  "fits_buffer s \<longleftrightarrow> (\<forall>m \<in> set (messages s @ [remaining s]). length m < INBUFSIZE)"

lemma fits_pending: "fits_buffer (p @ s) \<Longrightarrow> CHR '';'' \<notin> set p \<Longrightarrow> s \<noteq> [] \<Longrightarrow> length p \<le> INBUFSIZE - 2"
proof (rule split_first [of s])
  assume "fits_buffer (p @ s)" "CHR '';'' \<notin> set p" "s \<noteq> []" "CHR '';'' \<notin> set s"
  then show ?thesis by (cases s) (auto simp: fits_buffer_def)
next
  fix m t assume "fits_buffer (p @ s)" "CHR '';'' \<notin> set p" "CHR '';'' \<notin> set m" "s = m @ CHR '';'' # t"
  then have "length (p @ m @ [CHR '';'']) < INBUFSIZE" using messages_first [of "p @ m" t] by (simp add: fits_buffer_def)
  then show ?thesis by simp
qed

lemma fits_rest: "fits_buffer (p @ s) \<Longrightarrow> fits_buffer (remaining p @ s)"
  using messages_append [of p s] remaining_append [of p s] by (auto simp: fits_buffer_def)

lemma plain_rest: "plain (p @ s) \<Longrightarrow> plain (remaining p @ s)"
proof -
  assume plain: "plain (p @ s)"
  have "concat (messages p) @ remaining p @ s = p @ s"
    unfolding append_assoc [symmetric] messages_remaining ..
  then have "plain (concat (messages p) @ remaining p @ s)" using plain by (rule ssubst)
  then show ?thesis by (rule plain_append(2))
qed

text \<open>\<^bold>\<open>C20\<close>: However the bytes of a connection arrive, the same messages are read. Whatever the sizes in which the bytes of a stream come in, once
  they have all arrived (which takes as many reads as there are bytes at most) the owner has been given exactly the messages of the
  stream, in order, each as the atoms of its text, and the bytes behind the last semicolon wait in the buffer. This holds
  as long as every message, and the text behind the last semicolon, is shorter than the buffer and no semicolon is escaped.\<close>

theorem socket_reads_messages:
  assumes "ring_ok x p" "CHR '';'' \<notin> set p" "plain (p @ s)" "fits_buffer (p @ s)" "length s \<le> length ks" "\<forall>k \<in> set ks. 0 < k"
  shows "\<exists>x'. feed f ks s (x, w) = Some (Inr ([], x', fold (\<lambda>m. f (binbuf_text m)) (messages (p @ s)) w)) \<and> ring_ok x' (remaining (p @ s))"
  using assms
proof (induction ks arbitrary: x p s w)
  case Nil
  then show ?case by auto
next
  case (Cons k ks)
  show ?case
  proof (cases "s = []")
    case True
    then show ?thesis using Cons.prems by auto
  next
    case False
    let ?n = "min k (room x)"
    have p: "length p \<le> INBUFSIZE - 2" using fits_pending Cons.prems(2,4) False by blast
    have n: "0 < ?n" "length (take ?n s) \<le> room x" "take ?n s \<noteq> []"
      using room_pos(1) [OF Cons.prems(1) p] Cons.prems(6) False by simp_all
    have s: "(p @ take ?n s) @ drop ?n s = p @ s" by simp
    have plain: "plain (p @ take ?n s)" using Cons.prems(3) plain_append(1) s by metis
    let ?p = "remaining (p @ take ?n s)"
    obtain x1 where x1: "socketreceiver_read f (take ?n s) (x, w) =
        Some (Inr (x1, fold (\<lambda>m. f (binbuf_text m)) (messages (p @ take ?n s)) w))" "ring_ok x1 ?p"
      using read_step [OF Cons.prems(1) p plain n(3,2), of f w] by (elim exE conjE) (rule that)
    note rest = plain_rest [of "p @ take ?n s" "drop ?n s", unfolded s, OF Cons.prems(3)]
      fits_rest [of "p @ take ?n s" "drop ?n s", unfolded s, OF Cons.prems(4)]
    have ks: "length (drop ?n s) \<le> length ks" using n(1) Cons.prems(5) False by (cases s) auto
    have ks': "\<forall>k \<in> set ks. 0 < k" using Cons.prems(6) by simp
    obtain x' where x': "feed f ks (drop ?n s) (x1, fold (\<lambda>m. f (binbuf_text m)) (messages (p @ take ?n s)) w) =
        Some (Inr ([], x', fold (\<lambda>m. f (binbuf_text m)) (messages (?p @ drop ?n s)) (fold (\<lambda>m. f (binbuf_text m)) (messages (p @ take ?n s)) w)))"
        "ring_ok x' (remaining (?p @ drop ?n s))"
      using Cons.IH [OF x1(2) remaining_free rest ks ks', of "fold (\<lambda>m. f (binbuf_text m)) (messages (p @ take ?n s)) w"] by (elim exE conjE) (rule that)
    have "messages (p @ s) = messages (p @ take ?n s) @ messages (?p @ drop ?n s)" "remaining (p @ s) = remaining (?p @ drop ?n s)"
      using messages_append [of "p @ take ?n s" "drop ?n s", unfolded s] remaining_append [of "p @ take ?n s" "drop ?n s", unfolded s] .
    then show ?thesis using x' x1(1) False by (intro exI [of _ x']) (simp add: Let_def)
  qed
qed

theorem socket_reads_messages_witness:
  "\<exists>x'. feed (\<lambda>b w. w @ [b]) [2, 9, 1, 4, 1, 1] ''1;2 ;3'' (socketreceiver_new (replicate INBUFSIZE CHR 0x00), []) =
      Some (Inr ([], x', [binbuf_text ''1;'', binbuf_text ''2 ;''])) \<and> ring_ok x' ''3''"
proof -
  have "ring_ok (socketreceiver_new (replicate INBUFSIZE CHR 0x00)) []" by (simp add: ring_ok_def socketreceiver_new_def ring_at_def)
  then show ?thesis
    using socket_reads_messages [of "socketreceiver_new (replicate INBUFSIZE CHR 0x00)" "[]" "''1;2 ;3''" "[2, 9, 1, 4, 1, 1]"
      "\<lambda>b w. w @ [b]" "[]"] by (simp add: fits_buffer_def INBUFSIZE_def)
qed

text \<open>
  The test for an escaped semicolon does not look behind the start of the buffer: a message that wraps there between the backslash and the
  semicolon is cut in two.
\<close>

lemma escaped_at_wrap:
  assumes "length buf = INBUFSIZE" "buf ! (INBUFSIZE - 1) = CHR 0x5C" "buf ! 0 = CHR '';''" "head \<noteq> 0"
  shows "doread_loop head buf (INBUFSIZE - 1) True INBUFSIZE = Inr (Some ([CHR 0x5C, CHR '';''], 1))"
proof -
  obtain k where k: "INBUFSIZE = Suc (Suc k)" by (simp add: INBUFSIZE_def numeral_eq_Suc)
  have "next_in (INBUFSIZE - 1) = 0" "next_in 0 = 1" by (simp_all add: next_in_def INBUFSIZE_def)
  then show ?thesis using assms by (simp add: k ends_message_def cbind_def)
qed

text \<open>A message of 4096 bytes or more from the start of the buffer fills it: the next read takes it for empty and overwrites what is there.\<close>

lemma full_is_empty:
  assumes "ring_ok x p" "length p = INBUFSIZE" "sr_intail x = 0"
  shows "room x = INBUFSIZE"
  using assms by (simp add: ring_ok_def room_def readto_def)

text \<open>Of a datagram with two messages the second is dropped.\<close>

lemma getudp_first_only: "socketreceiver_getudp f (''1;2;'' @ [CHR 0x0A]) w = f (binbuf_text ''1'') w"
  by (simp add: socketreceiver_getudp_def)

end
