(* ===== verification/Gui.thy ===== *)
theory Gui
  imports XTime
begin

text \<open>
  What Pd sends to its graphical interface (\<open>s_inter.c\<close>): messages are printed into a buffer, from which they go to the socket as
  far as it takes them, and a queue of updates to be drawn when there is time. What \<open>vsnprintf\<close> prints, what \<open>realloc\<close> and \<open>send\<close> return are
  arguments; the contents of new memory are zeros.
\<close>

subsection \<open>The buffer\<close>

definition GUI_ALLOCCHUNK :: int where "GUI_ALLOCCHUNK = 8192"
definition GUI_UPDATESLICE :: int where "GUI_UPDATESLICE = 512"
definition GUI_BYTESPERPING :: int where "GUI_BYTESPERPING = 1024"

text \<open>All positions, sizes and counts are \<open>int\<close>.\<close>

record guibuf =
  sys_guibuf :: "string option"
  sys_guibufhead :: int
  sys_guibuftail :: int
  sys_guibufsize :: int
  sys_bytessincelastping :: int
  sent :: string

text \<open>
  A negative size is a huge one for \<open>realloc\<close>, which then fails. Where it fails the number of bytes to write has the wrong sign: unless there are none, \<open>send\<close> is told to read
  almost all of the memory.
\<close>

definition sys_trytogetmoreguibuf :: "bool \<Rightarrow> int \<Rightarrow> guibuf \<Rightarrow> guibuf cresult" where
  "sys_trytogetmoreguibuf realloc newsize x =
     (if realloc \<and> 0 < newsize then
        (let b = (case sys_guibuf x of None \<Rightarrow> [] | Some b \<Rightarrow> b) in
         Inr (x\<lparr>sys_guibufsize := newsize, sys_guibuf := Some (take (nat newsize) (b @ replicate (nat newsize - length b) CHR 0x00))\<rparr>))
      else if sys_guibuftail x = sys_guibufhead x then Inr (x\<lparr>sys_guibufhead := 0, sys_guibuftail := 0\<rparr>)
      else Inl OutOfBounds)"

text \<open>
  \<open>vsnprintf\<close> writes what fits into \<open>n\<close> bytes, with a zero behind it; a negative \<open>n\<close> is a huge one. It returns the length of the whole text, or -1 if this
  is no \<open>int\<close>.
\<close>

definition vsnprintf :: "string \<Rightarrow> int \<Rightarrow> int \<Rightarrow> string \<Rightarrow> (string \<times> int) cresult" where
  "vsnprintf b i n m = (let w = (if n = 0 then [] else (if n < 0 then m else take (nat n - 1) m) @ [CHR 0x00]) in
     if i < 0 \<or> length b < nat i + length w then Inl OutOfBounds
     else Inr (take (nat i) b @ w @ drop (nat i + length w) b, if length m < 2 ^ 31 then int (length m) else -1))"

definition print_at :: "string \<Rightarrow> guibuf \<Rightarrow> (guibuf \<times> int) cresult" where
  "print_at m x = (case sys_guibuf x of None \<Rightarrow> Inl NullDeref
     | Some b \<Rightarrow> cbind (vsnprintf b (sys_guibufhead x) (wrap32 (sys_guibufsize x - sys_guibufhead x)) m) (\<lambda>(b', r).
         Inr (x\<lparr>sys_guibuf := Some b'\<rparr>, r)))"

definition guibuf_init :: "guibuf \<Rightarrow> guibuf" where
  "guibuf_init x = (if sys_guibuf x = None
     then x\<lparr>sys_guibuf := Some (replicate (nat GUI_ALLOCCHUNK) CHR 0x00), sys_guibufsize := GUI_ALLOCCHUNK, sys_guibufhead := 0, sys_guibuftail := 0\<rparr>
     else x)"

definition sys_vgui :: "bool \<Rightarrow> bool \<Rightarrow> bool \<Rightarrow> string \<Rightarrow> guibuf \<Rightarrow> guibuf cresult" where
  "sys_vgui sys_nogui realloc1 realloc2 m x =
     (if sys_nogui then Inr x
      else let x = guibuf_init x in
      cbind (if sys_guibufhead x > wrap32 (sys_guibufsize x - GUI_ALLOCCHUNK div 2)
          then sys_trytogetmoreguibuf realloc1 (wrap32 (sys_guibufsize x + GUI_ALLOCCHUNK)) x else Inr x) (\<lambda>x.
      cbind (print_at m x) (\<lambda>(x, msglen).
      if msglen < 0 then Inr x
      else cbind (if msglen \<ge> wrap32 (sys_guibufsize x - sys_guibufhead x)
          then cbind (sys_trytogetmoreguibuf realloc2
              (wrap32 (sys_guibufsize x + 1 + (if msglen > GUI_ALLOCCHUNK then msglen else GUI_ALLOCCHUNK))) x) (\<lambda>x.
            cbind (print_at m x) (\<lambda>(x, msglen2).
              Inr (x, if msglen \<ge> wrap32 (sys_guibufsize x - sys_guibufhead x) then wrap32 (sys_guibufsize x - sys_guibufhead x) else msglen)))
          else Inr (x, msglen)) (\<lambda>(x, msglen).
      Inr (x\<lparr>sys_guibufhead := wrap32 (sys_guibufhead x + msglen),
        sys_bytessincelastping := wrap32 (sys_bytessincelastping x + msglen)\<rparr>)))))"

text \<open>\<open>nwrote0\<close> is what \<open>send\<close> returns, which reads all that is to be written; the result says whether anything was sent.\<close>

definition sys_flushtogui :: "nat \<Rightarrow> guibuf \<Rightarrow> (bool \<times> guibuf) cresult" where
  "sys_flushtogui nwrote0 x = (case sys_guibuf x of
      None \<Rightarrow> Inr (False, x)
    | Some b \<Rightarrow>
       (let writesize = wrap32 (sys_guibufhead x - sys_guibuftail x); nwrote = (if writesize > 0 then nwrote0 else 0) in
        if writesize > 0 \<and> (sys_guibuftail x < 0 \<or> int (length b) < sys_guibuftail x + writesize) then Inl OutOfBounds
        else if nwrote = 0 then Inr (False, x)
        else let x1 = x\<lparr>sent := sent x @ take nwrote (drop (nat (sys_guibuftail x)) b)\<rparr> in
          if int nwrote \<ge> wrap32 (sys_guibufhead x - sys_guibuftail x) then Inr (True, x1\<lparr>sys_guibufhead := 0, sys_guibuftail := 0\<rparr>)
          else let tail = wrap32 (sys_guibuftail x + int nwrote) in
            if tail > sys_guibufsize x div 4
            then let n = nat (wrap32 (sys_guibufhead x - tail)) in
              Inr (True, x1\<lparr>sys_guibuf := Some (take n (drop (nat tail) b) @ drop n b),
                sys_guibufhead := wrap32 (sys_guibufhead x - tail), sys_guibuftail := 0\<rparr>)
            else Inr (True, x1\<lparr>sys_guibuftail := tail\<rparr>)))"

subsection \<open>The buffer is a queue of bytes\<close>

definition to_write :: "guibuf \<Rightarrow> nat" where
  "to_write x = nat (sys_guibufhead x - sys_guibuftail x)"

definition waiting_text :: "guibuf \<Rightarrow> string" where
  "waiting_text x = (case sys_guibuf x of None \<Rightarrow> [] | Some b \<Rightarrow> take (to_write x) (drop (nat (sys_guibuftail x)) b))"

text \<open>\<open>T\<close> bounds the number of bytes that were printed so far; the buffer is at most about twice as long.\<close>

definition gui_ok :: "int \<Rightarrow> guibuf \<Rightarrow> bool" where
  "gui_ok T x \<longleftrightarrow> 0 \<le> sys_bytessincelastping x \<and> sys_bytessincelastping x \<le> T \<and> (case sys_guibuf x of
      None \<Rightarrow> sys_guibufhead x = 0 \<and> sys_guibuftail x = 0
    | Some b \<Rightarrow> sys_guibufsize x = int (length b) \<and> GUI_ALLOCCHUNK \<le> sys_guibufsize x \<and> sys_guibufsize x \<le> 2 * T + 12288 \<and>
        0 \<le> sys_guibuftail x \<and> sys_guibuftail x \<le> sys_guibufhead x \<and> sys_guibufhead x < sys_guibufsize x \<and> sys_guibufhead x \<le> T)"

lemma vsnprintf_writes:
  assumes "h < length b" "w = take (length b - h - 1) m"
  shows "vsnprintf b (int h) (int (length b) - int h) m =
    Inr (take h b @ w @ CHR 0x00 # drop (h + length w + 1) b, if length m < 2 ^ 31 then int (length m) else -1)"
proof -
  have n: "int (length b) - int h \<noteq> 0" "\<not> int (length b) - int h < 0" "nat (int (length b) - int h) - 1 = length b - h - 1"
    "\<not> int h < 0" "nat (int h) = h" using assms(1) by linarith+
  have l: "\<not> length b < h + length (w @ [CHR 0x00])" using assms by simp
  show ?thesis unfolding vsnprintf_def Let_def n if_not_P [OF n(1)] if_not_P [OF n(2)] assms(2) [symmetric]
    using l n(4) by simp
qed

lemma getmore_ok:
  assumes "sys_guibuf x = Some b" "length b \<le> n" "0 < n"
  shows "sys_trytogetmoreguibuf True (int n) x = Inr (x\<lparr>sys_guibufsize := int n, sys_guibuf := Some (b @ replicate (n - length b) CHR 0x00)\<rparr>)"
  using assms by (simp add: sys_trytogetmoreguibuf_def Let_def)

lemma cbind_Inr: "cbind (Inr a) f = f a"
  by (simp add: cbind_def)

text \<open>The first look at the size leaves a buffer that starts with what was in it.\<close>

lemma room_made:
  assumes "gui_ok T x" "sys_guibuf x = Some b" "T < 2 ^ 30 - 16384"
  shows "\<exists>b'. (if sys_guibufhead x > wrap32 (sys_guibufsize x - GUI_ALLOCCHUNK div 2)
      then sys_trytogetmoreguibuf True (wrap32 (sys_guibufsize x + GUI_ALLOCCHUNK)) x else Inr x) = Inr (x\<lparr>sys_guibufsize := int (length b'), sys_guibuf := Some b'\<rparr>) \<and>
    length b \<le> length b' \<and> take (length b) b' = b \<and> int (length b') \<le> 2 * T + 12288"
proof -
  have ok: "sys_guibufsize x = int (length b)" "8192 \<le> length b" "int (length b) \<le> 2 * T + 12288" "0 \<le> sys_guibufhead x" "sys_guibufhead x \<le> T"
    using assms(1,2) by (auto simp: gui_ok_def GUI_ALLOCCHUNK_def)
  have T: "0 \<le> T" using assms(1) by (simp add: gui_ok_def)
  have w: "wrap32 (sys_guibufsize x - GUI_ALLOCCHUNK div 2) = int (length b) - 4096" "wrap32 (sys_guibufsize x + GUI_ALLOCCHUNK) = int (length b + 8192)"
    using ok assms(3) by (simp_all add: wrap32_id GUI_ALLOCCHUNK_def)
  show ?thesis
  proof (cases "sys_guibufhead x > int (length b) - 4096")
    case True
    have "sys_trytogetmoreguibuf True (int (length b + 8192)) x = Inr (x\<lparr>sys_guibufsize := int (length b + 8192), sys_guibuf := Some (b @ replicate 8192 CHR 0x00)\<rparr>)"
      using getmore_ok [OF assms(2), of "length b + 8192"] by simp
    then show ?thesis using True w ok(5) T by (intro exI [of _ "b @ replicate 8192 CHR 0x00"]) simp
  next
    case False
    have "x\<lparr>sys_guibufsize := int (length b), sys_guibuf := Some b\<rparr> = x" using ok(1) assms(2) by (cases x) simp
    then show ?thesis using False w ok(3) by (intro exI [of _ b]) simp
  qed
qed

text \<open>Then the message is printed once or twice.\<close>

lemma printed_at:
  assumes "sys_guibuf x = Some b" "sys_guibufsize x = int (length b)" "sys_guibufhead x = int h" "h < length b" "length b < 2 ^ 31" "length m < 2 ^ 31"
  shows "\<exists>b'. print_at m x = Inr (x\<lparr>sys_guibuf := Some b'\<rparr>, int (length m)) \<and> length b' = length b \<and> take h b' = take h b \<and>
    (h + length m < length b \<longrightarrow> take (h + length m) b' = take h b @ m)"
proof -
  let ?w = "take (length b - h - 1) m"
  let ?b = "take h b @ ?w @ CHR 0x00 # drop (h + length ?w + 1) b"
  have "wrap32 (sys_guibufsize x - sys_guibufhead x) = int (length b) - int h" using assms by (simp add: wrap32_id)
  then have "print_at m x = Inr (x\<lparr>sys_guibuf := Some ?b\<rparr>, int (length m))"
    using vsnprintf_writes [OF assms(4) refl, of m] assms(1,3,6) by (simp add: print_at_def cbind_def)
  moreover have "length ?b = length b" "take h ?b = take h b" using assms(4) by (simp_all add: min_def)
  moreover have "take (h + length m) ?b = take h b @ m" if "h + length m < length b"
    using that by (simp add: min_def)
  ultimately show ?thesis by blast
qed

text \<open>A message joins those that wait.\<close>

lemma vgui_appends:
  assumes "gui_ok T x" "T + int (length m) < 2 ^ 30 - 16384"
  shows "\<exists>x'. sys_vgui False True True m x = Inr x' \<and> gui_ok (T + int (length m)) x' \<and> waiting_text x' = waiting_text x @ m \<and> sent x' = sent x \<and>
    sys_bytessincelastping x' = sys_bytessincelastping x + int (length m)"
proof -
  have T: "0 \<le> T" using assms(1) by (simp add: gui_ok_def)
  define x0 where "x0 = guibuf_init x"
  have x0: "gui_ok T x0" "waiting_text x0 = waiting_text x" "sent x0 = sent x" "sys_bytessincelastping x0 = sys_bytessincelastping x"
    using assms(1) T by (auto simp: x0_def guibuf_init_def gui_ok_def waiting_text_def to_write_def GUI_ALLOCCHUNK_def)
  obtain b0 where b0: "sys_guibuf x0 = Some b0" by (cases "sys_guibuf x") (auto simp: x0_def guibuf_init_def)
  define h t where "h = nat (sys_guibufhead x0)" and "t = nat (sys_guibuftail x0)"
  have ht: "sys_guibufhead x0 = int h" "sys_guibuftail x0 = int t" "t \<le> h" "h < length b0" "8192 \<le> length b0" "int h \<le> T" "sys_guibufsize x0 = int (length b0)"
    using x0(1) by (auto simp: gui_ok_def b0 h_def t_def GUI_ALLOCCHUNK_def)
  obtain b1 where b1: "(if sys_guibufhead x0 > wrap32 (sys_guibufsize x0 - GUI_ALLOCCHUNK div 2)
        then sys_trytogetmoreguibuf True (wrap32 (sys_guibufsize x0 + GUI_ALLOCCHUNK)) x0 else Inr x0) =
      Inr (x0\<lparr>sys_guibufsize := int (length b1), sys_guibuf := Some b1\<rparr>)"
      "length b0 \<le> length b1" "take (length b0) b1 = b0" "int (length b1) \<le> 2 * T + 12288"
    using room_made [OF x0(1) b0] assms(2) T by auto
  have keep1: "take h b1 = take h b0" using b1(3) ht(4) by (metis less_imp_le take_take min.absorb1)
  have m: "length m < 2 ^ 31" and l1: "length b1 < 2 ^ 31" using assms(2) T b1(4) by auto
  obtain b2 where b2: "print_at m (x0\<lparr>sys_guibufsize := int (length b1), sys_guibuf := Some b1\<rparr>) =
        Inr (x0\<lparr>sys_guibufsize := int (length b1), sys_guibuf := Some b2\<rparr>, int (length m))" "length b2 = length b1" "take h b2 = take h b1"
      "h + length m < length b1 \<longrightarrow> take (h + length m) b2 = take h b1 @ m"
    using printed_at [of "x0\<lparr>sys_guibufsize := int (length b1), sys_guibuf := Some b1\<rparr>" b1 h m] ht b1(2) m l1 by auto
  let ?x2 = "x0\<lparr>sys_guibufsize := int (length b1), sys_guibuf := Some b2\<rparr>"
  have d1: "wrap32 (sys_guibufsize ?x2 - sys_guibufhead ?x2) = int (length b1) - int h" using ht l1 b1(2) by (simp add: wrap32_id)
  obtain b3 where b3: "(if int (length m) \<ge> wrap32 (sys_guibufsize ?x2 - sys_guibufhead ?x2)
          then cbind (sys_trytogetmoreguibuf True
              (wrap32 (sys_guibufsize ?x2 + 1 + (if int (length m) > GUI_ALLOCCHUNK then int (length m) else GUI_ALLOCCHUNK))) ?x2) (\<lambda>x.
            cbind (print_at m x) (\<lambda>(x, msglen2).
              Inr (x, if int (length m) \<ge> wrap32 (sys_guibufsize x - sys_guibufhead x) then wrap32 (sys_guibufsize x - sys_guibufhead x) else int (length m))))
          else Inr (?x2, int (length m))) = Inr (x0\<lparr>sys_guibufsize := int (length b3), sys_guibuf := Some b3\<rparr>, int (length m))"
      "h + length m < length b3" "take (h + length m) b3 = take h b0 @ m" "length b0 \<le> length b3" "int (length b3) \<le> 2 * (T + int (length m)) + 12288"
  proof (cases "h + length m < length b1")
    case True
    then show ?thesis using that [of b2] d1 b2(2,4) keep1 b1(2,4) by simp
  next
    case False
    define N where "N = length b1 + 1 + (if length m > 8192 then length m else 8192)"
    have n: "int N \<le> 2 * (T + int (length m)) + 12288" using False ht(6) T by (auto simp: N_def)
    have wn: "wrap32 (sys_guibufsize ?x2 + 1 + (if int (length m) > GUI_ALLOCCHUNK then int (length m) else GUI_ALLOCCHUNK)) = int N"
      using n assms(2) by (subst wrap32_id) (auto simp: GUI_ALLOCCHUNK_def N_def)
    have N1: "length b1 \<le> N" "0 < N" by (simp_all add: N_def)
    define b' where "b' = b2 @ replicate (N - length b2) CHR 0x00"
    have b': "length b' = N" "take h b' = take h b0" using b2(2,3) keep1 ht(4) b1(2) by (simp_all add: b'_def N_def)
    have more: "sys_trytogetmoreguibuf True (int N) ?x2 = Inr (x0\<lparr>sys_guibufsize := int N, sys_guibuf := Some b'\<rparr>)"
      using getmore_ok [of ?x2 b2 N] b2(2) N1 by (simp add: b'_def)
    have ln: "N < 2 ^ 31" using n assms(2) by auto
    have fits: "h + length m < N" using ht(4) b1(2) by (auto simp: N_def)
    obtain b3 where b3: "print_at m (x0\<lparr>sys_guibufsize := int N, sys_guibuf := Some b'\<rparr>) =
        Inr (x0\<lparr>sys_guibufsize := int N, sys_guibuf := Some b3\<rparr>, int (length m))" "length b3 = N" "take (h + length m) b3 = take h b0 @ m"
      using printed_at [of "x0\<lparr>sys_guibufsize := int N, sys_guibuf := Some b'\<rparr>" b' h m] ht(1) b' m ln fits by auto
    have d3: "wrap32 (int N - int h) = int N - int h" using fits ln by (intro wrap32_id) auto
    have "\<not> int (length m) \<ge> int N - int h" using fits by linarith
    moreover have "int (length m) \<ge> wrap32 (sys_guibufsize ?x2 - sys_guibufhead ?x2)" using False unfolding d1 by linarith
    ultimately have step: "(if int (length m) \<ge> wrap32 (sys_guibufsize ?x2 - sys_guibufhead ?x2)
          then cbind (sys_trytogetmoreguibuf True
              (wrap32 (sys_guibufsize ?x2 + 1 + (if int (length m) > GUI_ALLOCCHUNK then int (length m) else GUI_ALLOCCHUNK))) ?x2) (\<lambda>x.
            cbind (print_at m x) (\<lambda>(x, msglen2).
              Inr (x, if int (length m) \<ge> wrap32 (sys_guibufsize x - sys_guibufhead x) then wrap32 (sys_guibufsize x - sys_guibufhead x) else int (length m))))
          else Inr (?x2, int (length m))) = Inr (x0\<lparr>sys_guibufsize := int N, sys_guibuf := Some b3\<rparr>, int (length m))"
      unfolding wn more cbind_Inr b3(1) by (simp only: if_True cbind_Inr prod.case) (simp add: ht(1) d3 del: of_nat_add)
    have "length b0 \<le> N" using N1(1) b1(2) by simp
    then show ?thesis using step that [of b3] b3(2,3) fits n by simp
  qed
  have w: "wrap32 (int h + int (length m)) = int (h + length m)"
      "wrap32 (sys_bytessincelastping x0 + int (length m)) = sys_bytessincelastping x0 + int (length m)"
    using ht(6) assms(2) x0(1) T by (auto simp: gui_ok_def intro!: wrap32_id)
  let ?x' = "x0\<lparr>sys_guibufsize := int (length b3), sys_guibuf := Some b3, sys_guibufhead := int (h + length m),
    sys_bytessincelastping := sys_bytessincelastping x0 + int (length m)\<rparr>"
  have "sys_vgui False True True m x = Inr ?x'"
    unfolding sys_vgui_def x0_def [symmetric] Let_def if_False b1(1) cbind_Inr b2(1) prod.case b3(1) using w ht(1) by simp
  moreover have "gui_ok (T + int (length m)) ?x'" using b3(2,4,5) ht x0(1) by (auto simp: gui_ok_def GUI_ALLOCCHUNK_def)
  moreover have "waiting_text ?x' = waiting_text x0 @ m"
  proof -
    have "take (h + length m - t) (drop t b3) = drop t (take (h + length m) b3)" using ht(3) by (simp add: drop_take)
    also have "\<dots> = drop t (take h b0) @ m" using ht(3,4) b3(3) by simp
    also have "drop t (take h b0) = take (h - t) (drop t b0)" by (simp add: drop_take)
    finally have "take (h + length m - t) (drop t b3) = take (h - t) (drop t b0) @ m" .
    moreover have "nat (int h + int (length m) - int t) = h + length m - t" "nat (int h - int t) = h - t" using ht(3) by linarith+
    ultimately show ?thesis using ht(1,2) by (simp add: waiting_text_def to_write_def b0)
  qed
  ultimately show ?thesis using x0 by (intro exI [of _ ?x']) simp
qed

text \<open>A message of \<open>2 ^ 31\<close> bytes or more is dropped.\<close>

lemma vgui_drops_huge:
  assumes "gui_ok T x" "T < 2 ^ 30 - 16384" "2 ^ 31 \<le> length m"
  shows "\<exists>x'. sys_vgui False True True m x = Inr x' \<and> waiting_text x' = waiting_text x \<and> sent x' = sent x"
proof -
  have T: "0 \<le> T" using assms(1) by (simp add: gui_ok_def)
  define x0 where "x0 = guibuf_init x"
  have x0: "gui_ok T x0" "waiting_text x0 = waiting_text x" "sent x0 = sent x"
    using assms(1) T by (auto simp: x0_def guibuf_init_def gui_ok_def waiting_text_def to_write_def GUI_ALLOCCHUNK_def)
  obtain b0 where b0: "sys_guibuf x0 = Some b0" by (cases "sys_guibuf x") (auto simp: x0_def guibuf_init_def)
  define h t where "h = nat (sys_guibufhead x0)" and "t = nat (sys_guibuftail x0)"
  have ht: "sys_guibufhead x0 = int h" "sys_guibuftail x0 = int t" "t \<le> h" "h < length b0"
    using x0(1) by (auto simp: gui_ok_def b0 h_def t_def)
  obtain b1 where b1: "(if sys_guibufhead x0 > wrap32 (sys_guibufsize x0 - GUI_ALLOCCHUNK div 2)
        then sys_trytogetmoreguibuf True (wrap32 (sys_guibufsize x0 + GUI_ALLOCCHUNK)) x0 else Inr x0) =
      Inr (x0\<lparr>sys_guibufsize := int (length b1), sys_guibuf := Some b1\<rparr>)"
      "length b0 \<le> length b1" "take (length b0) b1 = b0" "int (length b1) \<le> 2 * T + 12288"
    using room_made [OF x0(1) b0 assms(2)] by auto
  let ?w = "take (length b1 - h - 1) m"
  let ?b = "take h b1 @ ?w @ CHR 0x00 # drop (h + length ?w + 1) b1"
  have n: "wrap32 (int (length b1) - int h) = int (length b1) - int h" using ht(4) b1(2,4) assms(2) by (intro wrap32_id) auto
  have "vsnprintf b1 (int h) (int (length b1) - int h) m = Inr (?b, -1)"
    using vsnprintf_writes [of h b1 ?w m] ht(4) b1(2) assms(3) by simp
  then have "print_at m (x0\<lparr>sys_guibufsize := int (length b1), sys_guibuf := Some b1\<rparr>) = Inr (x0\<lparr>sys_guibufsize := int (length b1), sys_guibuf := Some ?b\<rparr>, -1)"
    by (simp add: print_at_def ht(1) n cbind_def)
  then have "sys_vgui False True True m x = Inr (x0\<lparr>sys_guibufsize := int (length b1), sys_guibuf := Some ?b\<rparr>)"
    unfolding sys_vgui_def x0_def [symmetric] Let_def if_False b1(1) cbind_Inr by (simp add: cbind_def)
  moreover have "take (h - t) (drop t ?b) = take (h - t) (drop t b0)"
  proof -
    have "take h ?b = take h b0" using b1(2,3) ht(4) by (simp add: min_def) (metis less_imp_le take_take min.absorb1)
    then show ?thesis by (metis drop_take)
  qed
  ultimately show ?thesis using x0 ht by (auto simp: waiting_text_def to_write_def b0 nat_diff_distrib)
qed

lemma flush_sends:
  assumes "gui_ok T x" "n \<le> to_write x" "T < 2 ^ 30 - 16384"
  shows "\<exists>r x'. sys_flushtogui n x = Inr (r, x') \<and> gui_ok T x' \<and> sent x' @ waiting_text x' = sent x @ waiting_text x \<and>
    length (sent x') = length (sent x) + n"
proof (cases "sys_guibuf x")
  case None
  then show ?thesis using assms by (auto simp: sys_flushtogui_def gui_ok_def to_write_def)
next
  case (Some b)
  define h t where "h = nat (sys_guibufhead x)" and "t = nat (sys_guibuftail x)"
  have ht: "sys_guibufhead x = int h" "sys_guibuftail x = int t" "t \<le> h" "h < length b" "int h \<le> T" "sys_guibufsize x = int (length b)"
      "8192 \<le> length b" "int (length b) \<le> 2 * T + 12288" "0 \<le> sys_bytessincelastping x" "sys_bytessincelastping x \<le> T"
    using assms(1) by (auto simp: gui_ok_def Some h_def t_def GUI_ALLOCCHUNK_def)
  have l: "length b < 2 ^ 31" using ht(8) assms(3) by auto
  have d: "wrap32 (int h - int t) = int (h - t)" using ht(3,4) l by (subst wrap32_id) auto
  have tw: "to_write x = h - t" using ht(1-3) by (simp add: to_write_def nat_diff_distrib)
  have w: "waiting_text x = take (h - t) (drop t b)" by (simp add: waiting_text_def Some tw ht(2))
  consider "n = 0" | "0 < n" "n = h - t" | "0 < n" "n < h - t" using assms(2) tw by linarith
  then show ?thesis
  proof cases
    case 1
    then have "sys_flushtogui n x = Inr (False, x)" using ht d by (auto simp: sys_flushtogui_def Some Let_def)
    then show ?thesis using assms(1) 1 by (intro exI [of _ False] exI [of _ x]) simp
  next
    case 2
    have "sys_flushtogui n x = Inr (True, x\<lparr>sent := sent x @ take n (drop t b), sys_guibufhead := 0, sys_guibuftail := 0\<rparr>)"
      using 2 ht d by (auto simp: sys_flushtogui_def Some Let_def)
    moreover have "length (take n (drop t b)) = n" using 2 ht(4) by simp
    ultimately show ?thesis using w 2 ht assms(1) by (auto simp: gui_ok_def waiting_text_def to_write_def Some)
  next
    case 3
    have split: "take n (drop t b) @ take (h - (t + n)) (drop (t + n) b) = take (h - t) (drop t b)"
    proof -
      have "take (n + (h - (t + n))) (drop t b) = take n (drop t b) @ take (h - (t + n)) (drop n (drop t b))" by (rule take_add)
      moreover have "n + (h - (t + n)) = h - t" using 3 by simp
      ultimately show ?thesis by (simp add: add.commute)
    qed
    have len: "length (take n (drop t b)) = n" using 3 ht(4) by simp
    have tail: "wrap32 (int t + int n) = int (t + n)" using 3 ht(4) l by (subst wrap32_id) auto
    have hn: "wrap32 (int h - int (t + n)) = int (h - (t + n))" using 3 ht(4) l by (subst wrap32_id) auto
    have "sys_flushtogui n x = (if int (t + n) > int (length b) div 4
        then Inr (True, x\<lparr>sent := sent x @ take n (drop t b), sys_guibuf := Some (take (h - (t + n)) (drop (t + n) b) @ drop (h - (t + n)) b),
          sys_guibufhead := int (h - (t + n)), sys_guibuftail := 0\<rparr>)
        else Inr (True, x\<lparr>sent := sent x @ take n (drop t b), sys_guibuftail := int (t + n)\<rparr>))"
    proof -
      have "\<not> (0 < int (h - t) \<and> (int t < 0 \<or> int (length b) < int t + int (h - t)))" using ht(3,4) by auto
      moreover have "\<not> int n \<ge> int (h - t)" "0 < int (h - t)" using 3 by auto
      ultimately show ?thesis
        unfolding sys_flushtogui_def Some option.case Let_def ht(1,2,6) d tail hn using 3(1) by (simp add: tail hn del: of_nat_add of_nat_diff)
    qed
    moreover have "gui_ok T (x\<lparr>sent := sent x @ take n (drop t b), sys_guibuf := Some (take (h - (t + n)) (drop (t + n) b) @ drop (h - (t + n)) b),
          sys_guibufhead := int (h - (t + n)), sys_guibuftail := 0\<rparr>)"
      using ht 3 by (auto simp: gui_ok_def GUI_ALLOCCHUNK_def)
    moreover have "gui_ok T (x\<lparr>sent := sent x @ take n (drop t b), sys_guibuftail := int (t + n)\<rparr>)"
      using ht 3 by (auto simp: gui_ok_def GUI_ALLOCCHUNK_def Some)
    moreover have "waiting_text (x\<lparr>sent := sent x @ take n (drop t b), sys_guibuf := Some (take (h - (t + n)) (drop (t + n) b) @ drop (h - (t + n)) b),
          sys_guibufhead := int (h - (t + n)), sys_guibuftail := 0\<rparr>) = take (h - (t + n)) (drop (t + n) b)"
    proof -
      have "nat (int (h - (t + n))) = h - (t + n)" by (rule nat_int)
      then show ?thesis using ht(4) 3 by (simp add: waiting_text_def to_write_def del: of_nat_diff of_nat_add)
    qed
    moreover have "waiting_text (x\<lparr>sent := sent x @ take n (drop t b), sys_guibuftail := int (t + n)\<rparr>) = take (h - (t + n)) (drop (t + n) b)"
    proof -
      have "nat (int h - int (t + n)) = h - (t + n)" using 3 by linarith
      then show ?thesis by (simp add: waiting_text_def to_write_def Some ht(1) del: of_nat_add)
    qed
    ultimately show ?thesis using w split len by auto
  qed
qed

datatype gui_op = Print string | Flush nat

fun gui_run :: "gui_op list \<Rightarrow> guibuf \<Rightarrow> guibuf cresult" where
  "gui_run [] x = Inr x"
| "gui_run (Print m # ops) x = cbind (sys_vgui False True True m x) (gui_run ops)"
| "gui_run (Flush n # ops) x = cbind (sys_flushtogui (min n (to_write x)) x) (\<lambda>(r, x). gui_run ops x)"

fun printed :: "gui_op \<Rightarrow> string" where
  "printed (Print m) = m"
| "printed (Flush n) = []"

definition gui_start :: guibuf where
  "gui_start = \<lparr>sys_guibuf = None, sys_guibufhead = 0, sys_guibuftail = 0, sys_guibufsize = 0, sys_bytessincelastping = 0, sent = []\<rparr>"

lemma gui_run_ok:
  assumes "gui_ok T x" "T + int (length (concat (map printed ops))) < 2 ^ 30 - 16384"
  shows "\<exists>x'. gui_run ops x = Inr x' \<and> gui_ok (T + int (length (concat (map printed ops)))) x' \<and>
    sent x' @ waiting_text x' = sent x @ waiting_text x @ concat (map printed ops)"
  using assms
proof (induction ops arbitrary: x T)
  case (Cons op ops)
  show ?case
  proof (cases op)
    case (Print m)
    have "T + int (length m) < 2 ^ 30 - 16384" using Cons.prems(2) Print by simp
    then obtain x1 where x1: "sys_vgui False True True m x = Inr x1" "gui_ok (T + int (length m)) x1" "waiting_text x1 = waiting_text x @ m" "sent x1 = sent x"
      using vgui_appends [OF Cons.prems(1), of m] by blast
    have "T + int (length m) + int (length (concat (map printed ops))) < 2 ^ 30 - 16384" using Cons.prems(2) Print by simp
    from Cons.IH [OF x1(2) this] show ?thesis using x1 Print by (simp add: cbind_def add.assoc)
  next
    case (Flush n)
    have T: "T < 2 ^ 30 - 16384" using Cons.prems(2) by linarith
    obtain r x1 where x1: "sys_flushtogui (min n (to_write x)) x = Inr (r, x1)" "gui_ok T x1"
        "sent x1 @ waiting_text x1 = sent x @ waiting_text x"
      using flush_sends [OF Cons.prems(1) _ T, of "min n (to_write x)"] by auto
    have "T + int (length (concat (map printed ops))) < 2 ^ 30 - 16384" using Cons.prems(2) Flush by simp
    from Cons.IH [OF x1(2) this] obtain x' where x': "gui_run ops x1 = Inr x'" "gui_ok (T + int (length (concat (map printed ops)))) x'"
        "sent x' @ waiting_text x' = (sent x1 @ waiting_text x1) @ concat (map printed ops)" by auto
    have "sent x' @ waiting_text x' = sent x @ waiting_text x @ concat (map printed ops)" unfolding x'(3) x1(3) by simp
    then show ?thesis using x' x1(1) Flush by (simp add: cbind_def)
  qed
qed simp

text \<open>\<^bold>\<open>C21\<close>: The graphical interface gets just what was printed for it. Whatever the sequence of messages and of calls that flush the buffer, and however little the socket takes at
  a time, the bytes that were sent and those that wait in the buffer are together the messages, in order, and once the socket has taken all
  that waits they are sent. Every write is inside the buffer as it grows, and no \<open>int\<close> wraps. This holds where Pd runs with its GUI, as long as there is memory (\<open>realloc\<close> does not fail) and
  all messages together have less than \<open>2 ^ 30 - 16384\<close> bytes; a single message of \<open>2 ^ 31\<close> bytes would be dropped (lemma \<open>vgui_drops_huge\<close>).\<close>

theorem gui_gets_all:
  assumes "int (length (concat (map printed ops))) < 2 ^ 30 - 16384"
  shows "\<exists>x'. gui_run ops gui_start = Inr x' \<and> sent x' @ waiting_text x' = concat (map printed ops) \<and>
    (\<exists>r x2. sys_flushtogui (to_write x') x' = Inr (r, x2) \<and> sent x2 = concat (map printed ops))"
proof -
  have "gui_ok 0 gui_start" by (simp add: gui_ok_def gui_start_def)
  from gui_run_ok [OF this, of ops] assms obtain x' where x': "gui_run ops gui_start = Inr x'" "gui_ok (int (length (concat (map printed ops)))) x'"
      "sent x' @ waiting_text x' = concat (map printed ops)" by (auto simp: gui_start_def waiting_text_def)
  obtain r x2 where x2: "sys_flushtogui (to_write x') x' = Inr (r, x2)"
      "sent x2 @ waiting_text x2 = sent x' @ waiting_text x'" "length (sent x2) = length (sent x') + to_write x'"
    using flush_sends [OF x'(2) order_refl assms] by blast
  have "length (waiting_text x') = to_write x'"
    using x'(2) by (auto simp: waiting_text_def to_write_def gui_ok_def nat_diff_distrib split: option.splits)
  then have "sent x2 = concat (map printed ops)" using x2(2,3) x'(3) by (metis append_Nil2 append_eq_append_conv length_append)
  then show ?thesis using x' x2(1) by blast
qed

theorem gui_gets_all_witness:
  "\<exists>x'. gui_run [Print ''pdtk_post'', Flush 4, Print ''x''] gui_start = Inr x' \<and> sent x' @ waiting_text x' = ''pdtk_postx'' \<and>
    (\<exists>r x2. sys_flushtogui (to_write x') x' = Inr (r, x2) \<and> sent x2 = ''pdtk_postx'')"
  using gui_gets_all [of "[Print ''pdtk_post'', Flush 4, Print ''x'']"] by simp

subsection \<open>The queue of updates\<close>

text \<open>A client, its list and the number of its function.\<close>

type_synonym guiqueue = "(addr \<times> addr \<times> nat) list"

definition sys_queuegui :: "addr \<Rightarrow> addr \<Rightarrow> nat \<Rightarrow> guiqueue \<Rightarrow> guiqueue" where
  "sys_queuegui client glist f q = (if client \<in> fst ` set q then q else q @ [(client, glist, f)])"

definition sys_unqueuegui :: "addr \<Rightarrow> guiqueue \<Rightarrow> guiqueue" where
  "sys_unqueuegui client q = (case q of [] \<Rightarrow> []
     | e # q' \<Rightarrow> if fst e = client then [] else e # remove_first (\<lambda>e. fst e = client) q')"

record 'w guistate =
  gui_out :: guibuf
  sys_guiqueuehead :: guiqueue
  sys_waitingforping :: bool
  gui_world :: 'w

definition glob_ping :: "'w guistate \<Rightarrow> 'w guistate" where
  "glob_ping st = st\<lparr>sys_waitingforping := False\<rparr>"

definition sys_pretendguibytes :: "int \<Rightarrow> 'w guistate \<Rightarrow> 'w guistate" where
  "sys_pretendguibytes n st = st\<lparr>gui_out := (gui_out st)\<lparr>sys_bytessincelastping := wrap32 (sys_bytessincelastping (gui_out st) + n)\<rparr>\<rparr>"

definition flush_out :: "nat \<Rightarrow> 'w guistate \<Rightarrow> (bool \<times> 'w guistate) cresult" where
  "flush_out nwrote st = cbind (sys_flushtogui nwrote (gui_out st)) (\<lambda>(r, x). Inr (True, st\<lparr>gui_out := x\<rparr>))"

text \<open>The update of a client is taken off the queue before its function \<open>run\<close> is called, which may queue others.\<close>

partial_function (option) flushqueue_loop ::
    "(addr \<times> addr \<times> nat \<Rightarrow> 'w guistate \<Rightarrow> 'w guistate cresult) \<Rightarrow> nat \<Rightarrow> int \<Rightarrow> 'w guistate \<Rightarrow> (bool \<times> 'w guistate) cresult option" where
  "flushqueue_loop run nwrote wherestop st =
     (if sys_bytessincelastping (gui_out st) \<ge> GUI_BYTESPERPING then
        Some (cbind (sys_vgui False True True (''pdtk_ping'' @ [CHR 0x0A]) (gui_out st)) (\<lambda>x.
          Inr (True, st\<lparr>gui_out := x\<lparr>sys_bytessincelastping := 0\<rparr>, sys_waitingforping := True\<rparr>)))
      else (case sys_guiqueuehead st of
          [] \<Rightarrow> Some (flush_out nwrote st)
        | e # q \<Rightarrow> (case run e (st\<lparr>sys_guiqueuehead := q\<rparr>) of
             Inl err \<Rightarrow> Some (Inl err)
           | Inr st' \<Rightarrow>
               if sys_bytessincelastping (gui_out st') \<ge> wherestop then Some (flush_out nwrote st')
               else flushqueue_loop run nwrote wherestop st')))"

definition sys_flushqueue ::
    "(addr \<times> addr \<times> nat \<Rightarrow> 'w guistate \<Rightarrow> 'w guistate cresult) \<Rightarrow> nat \<Rightarrow> 'w guistate \<Rightarrow> (bool \<times> 'w guistate) cresult option" where
  "sys_flushqueue run nwrote st =
     (let wherestop = wrap32 (sys_bytessincelastping (gui_out st) + GUI_UPDATESLICE);
          wherestop = (if wrap32 (wherestop + GUI_UPDATESLICE div 2) > GUI_BYTESPERPING then 0x7fffffff else wherestop) in
      if sys_waitingforping st then Some (Inr (False, st))
      else if sys_guiqueuehead st = [] then Some (Inr (False, st))
      else flushqueue_loop run nwrote wherestop st)"

text \<open>\<open>nw1\<close> and \<open>nw2\<close> are what the two calls of \<open>send\<close> return; what has not been sent goes before new updates.\<close>

definition sys_poll_togui ::
    "bool \<Rightarrow> (addr \<times> addr \<times> nat \<Rightarrow> 'w guistate \<Rightarrow> 'w guistate cresult) \<Rightarrow> nat \<Rightarrow> nat \<Rightarrow> 'w guistate \<Rightarrow> (bool \<times> 'w guistate) cresult option" where
  "sys_poll_togui sys_nogui run nw1 nw2 st =
     (if sys_nogui then Some (Inr (False, st))
      else (case sys_flushtogui nw1 (gui_out st) of
          Inl e \<Rightarrow> Some (Inl e)
        | Inr (r, x) \<Rightarrow> (let st1 = st\<lparr>gui_out := x\<rparr> in
            if r then Some (Inr (True, st1))
            else if sys_guibufhead x > sys_guibuftail x then Some (Inr (False, st1))
            else sys_flushqueue run nw2 st1)))"

text \<open>As long as the socket takes nothing, updates wait.\<close>

lemma poll_waits:
  assumes "0 \<le> sys_guibuftail (gui_out st)" "int (length b) < 2 ^ 31" "sys_guibufhead (gui_out st) > sys_guibuftail (gui_out st)" "sys_guibuf (gui_out st) = Some b" "sys_guibufhead (gui_out st) \<le> int (length b)"
  shows "sys_poll_togui False run 0 n st = Some (Inr (False, st))"
  using assms by (simp add: sys_poll_togui_def sys_flushtogui_def Let_def)

text \<open>No client is queued twice.\<close>

lemma queue_once:
  assumes "distinct (map fst q)"
  shows "distinct (map fst (sys_queuegui client glist f q))" "distinct (map fst (sys_unqueuegui client q))"
proof -
  show "distinct (map fst (sys_queuegui client glist f q))" using assms by (auto simp: sys_queuegui_def)
  have sub: "fst ` set (remove_first P ks) \<subseteq> fst ` set ks" for P and ks :: guiqueue by (induction ks) auto
  have dist: "distinct (map fst (remove_first P ks))" if "distinct (map fst ks)" for P and ks :: guiqueue
    using that
  proof (induction ks)
    case (Cons k ks)
    then show ?case using sub [of P ks] by auto
  qed simp
  show "distinct (map fst (sys_unqueuegui client q))"
  proof (cases q)
    case (Cons e es)
    then show ?thesis using assms dist [of es] sub [of "\<lambda>e. fst e = client" es] by (auto simp: sys_unqueuegui_def)
  qed (simp add: sys_unqueuegui_def)
qed

text \<open>Where the client is the first in the queue, the updates of all others are forgotten with it.\<close>

lemma unqueue_first_drops_all: "sys_unqueuegui c ((c, g, f) # q) = []"
  by (simp add: sys_unqueuegui_def)

lemma unqueue_other: "c \<noteq> d \<Longrightarrow> sys_unqueuegui c ((d, h, k) # q1 @ (c, g, f) # q2) = (d, h, k) # q1 @ q2" if "c \<notin> fst ` set q1"
  using that by (induction q1) (auto simp: sys_unqueuegui_def)

text \<open>Updates that queue no others are worked off until enough was sent; then a ping is due, and nothing more is drawn before it is answered.\<close>

lemma flushqueue_returns:
  assumes run: "\<And>e st. gui_ok T (gui_out st) \<Longrightarrow> \<exists>st'. run e st = Inr st' \<and> gui_ok T (gui_out st') \<and> sys_guiqueuehead st' = sys_guiqueuehead st \<and>
      sys_waitingforping st' = sys_waitingforping st"
    and T: "T < 2 ^ 30 - 20000" and "gui_ok T (gui_out st)"
  shows "\<exists>r st'. flushqueue_loop run 0 wherestop st = Some (Inr (r, st')) \<and>
    (sys_guiqueuehead st' = [] \<or> sys_waitingforping st' \<or> sys_bytessincelastping (gui_out st') \<ge> wherestop) \<and>
    (\<exists>k. sys_guiqueuehead st' = drop k (sys_guiqueuehead st))"
  using assms(3)
proof (induction "sys_guiqueuehead st" arbitrary: st)
  case Nil
  then show ?case
    using vgui_appends [OF Nil.prems, of "''pdtk_ping'' @ [CHR 0x0A]"] flush_sends [OF Nil.prems, of 0] T
    by (subst flushqueue_loop.simps) (force simp: flush_out_def cbind_def Nil(1) [symmetric])
next
  case (Cons e q)
  show ?case
  proof (cases "sys_bytessincelastping (gui_out st) \<ge> GUI_BYTESPERPING")
    case True
    obtain x where "sys_vgui False True True (''pdtk_ping'' @ [CHR 0x0A]) (gui_out st) = Inr x" using vgui_appends [OF Cons.prems, of "''pdtk_ping'' @ [CHR 0x0A]"] T by auto
    then show ?thesis using True by (subst flushqueue_loop.simps) (auto simp: cbind_def intro: exI [of _ 0])
  next
    case False
    obtain st1 where st1: "run e (st\<lparr>sys_guiqueuehead := q\<rparr>) = Inr st1" "gui_ok T (gui_out st1)" "sys_guiqueuehead st1 = q"
      using run [of "st\<lparr>sys_guiqueuehead := q\<rparr>" e] Cons.prems by auto
    have q: "sys_guiqueuehead st = e # q" using Cons(2) by simp
    show ?thesis
    proof (cases "sys_bytessincelastping (gui_out st1) \<ge> wherestop")
      case stop: True
      have z: "sys_flushtogui 0 (gui_out st1) = Inr (False, gui_out st1)"
        using flush_sends [OF st1(2), of 0] T st1(2) by (auto simp: sys_flushtogui_def gui_ok_def Let_def wrap32_id split: option.splits)
      have "flushqueue_loop run 0 wherestop st = Some (Inr (True, st1))"
        using False stop by (subst flushqueue_loop.simps) (simp add: q st1(1) flush_out_def z cbind_def)
      then show ?thesis using stop st1(3) q by (auto intro: exI [of _ 1])
    next
      case go: False
      have "flushqueue_loop run 0 wherestop st = flushqueue_loop run 0 wherestop st1"
        using False go by (subst flushqueue_loop.simps) (simp add: q st1(1))
      moreover obtain r st' k where "flushqueue_loop run 0 wherestop st1 = Some (Inr (r, st'))"
          "sys_guiqueuehead st' = [] \<or> sys_waitingforping st' \<or> sys_bytessincelastping (gui_out st') \<ge> wherestop"
          "sys_guiqueuehead st' = drop k q"
        using Cons(1) [of st1] st1 by auto
      ultimately show ?thesis using q by (auto intro: exI [of _ "Suc k"])
    qed
  qed
qed

lemma waits_for_ping: "sys_waitingforping st \<Longrightarrow> sys_flushqueue run n st = Some (Inr (False, st))"
  by (simp add: sys_flushqueue_def Let_def)

end
