(* ===== verification/Tabfudge.thy ===== *)
theory Tabfudge
  imports DArith
begin

text \<open>
  The union of a \<open>double\<close> with two words of 32 bits (\<open>d_osc.c\<close>, \<open>d_array.c\<close>), by which oscillators split a phase into a position in a
  table and a fraction: to a phase a large number is added, so that the upper word of the sum holds its integer part, and the lower its fraction.
\<close>

unbundle bit_operations_syntax

subsection \<open>The bits of a \<open>double\<close>\<close>

text \<open>A number that is not one may have many bit patterns; \<open>nb\<close> is the one it has.\<close>

definition mag64 :: "rat \<Rightarrow> int" where
  "mag64 q = (let e = rlog 2 q in
     if e < - 1022 then \<lfloor>q * 2 ^ 1074\<rfloor> else (e + 1023) * 2 ^ 52 + (\<lfloor>q / 2 powi (e - 52)\<rfloor> - 2 ^ 52))"

fun bits64 :: "int \<Rightarrow> fl \<Rightarrow> int" where
  "bits64 nb NaN = nb mod 2 ^ 64"
| "bits64 nb (Inf s) = (if s then 2 ^ 63 else 0) + 0x7FF * 2 ^ 52"
| "bits64 nb NZero = 2 ^ 63"
| "bits64 nb (Fin q) = (if q = 0 then 0 else (if q < 0 then 2 ^ 63 else 0) + mag64 \<bar>q\<bar>)"

definition of_bits64 :: "int \<Rightarrow> fl" where
  "of_bits64 b = (let s = (b \<ge> 2 ^ 63); e = (b div 2 ^ 52) mod 2 ^ 11; f = b mod 2 ^ 52; sg = (if s then - 1 else 1) in
     if e = 0x7FF then (if f = 0 then Inf s else NaN)
     else if e = 0 then (if f = 0 then signed_zero s else Fin (sg * of_int f * 2 powi (- 1074)))
     else Fin (sg * of_int (2 ^ 52 + f) * 2 powi (e - 1075)))"

definition tf_hi :: "int \<Rightarrow> fl \<Rightarrow> int" where
  "tf_hi nb x = wrap32 (bits64 nb x div 2 ^ 32)"

definition tf_low :: "int \<Rightarrow> fl \<Rightarrow> int" where
  "tf_low nb x = bits64 nb x mod 2 ^ 32"

definition set_hi :: "int \<Rightarrow> int \<Rightarrow> fl \<Rightarrow> fl" where
  "set_hi nb h x = of_bits64 ((h mod 2 ^ 32) * 2 ^ 32 + tf_low nb x)"

abbreviation UNITBIT32 :: fl where "UNITBIT32 \<equiv> Fin 1572864"

definition normhipart :: "int \<Rightarrow> fl \<Rightarrow> int" where
  "normhipart nb unit = tf_hi nb unit"

subsection \<open>Splitting a phase\<close>

lemma tf_low_range: "0 \<le> tf_low nb x" "tf_low nb x < 2 ^ 32"
  by (simp_all add: tf_low_def)

lemma rlog_two: "2 powi k \<le> q \<Longrightarrow> q < 2 powi (k + 1) \<Longrightarrow> rlog 2 q = k"
  using rlog_unique [of 2 k q] by simp

text \<open>A unit whose binade starts at \<open>2 powi (20 + k)\<close>, its upper word, and what that makes of a lower word.\<close>

definition unit :: "nat \<Rightarrow> rat" where
  "unit k = 1572864 * 2 ^ k"

lemma unit_powi: "unit k = 3 * 2 powi (19 + int k)"
  by (simp add: unit_def power_int_add)

lemma rlog_unit: "rlog 2 (unit k) = 20 + int k"
  by (rule rlog_two) (simp_all add: unit_def power_int_add)

lemma hi_unit:
  assumes "k < 1000"
  shows "normhipart nb (Fin (unit k)) = (1043 + int k) * 2 ^ 20 + 2 ^ 19"
proof -
  have "unit k / 2 powi (20 + int k - 52) = of_int (3 * 2 ^ 51)"
    unfolding unit_powi by (simp add: power_int_add power_int_diff)
  then have "\<lfloor>unit k / 2 powi (20 + int k - 52)\<rfloor> = 3 * 2 ^ 51" by (simp only: floor_of_int)
  then have m: "mag64 (unit k) = ((1043 + int k) * 2 ^ 20 + 2 ^ 19) * 2 ^ 32"
    by (simp add: mag64_def rlog_unit Let_def)
  have "0 < unit k" by (simp add: unit_def)
  then have "bits64 nb (Fin (unit k)) = ((1043 + int k) * 2 ^ 20 + 2 ^ 19) * 2 ^ 32" using m by simp
  then have "bits64 nb (Fin (unit k)) div 2 ^ 32 = (1043 + int k) * 2 ^ 20 + 2 ^ 19" by (simp only: nonzero_mult_div_cancel_right [of "2 ^ 32" "_ :: int"] power_not_zero zero_neq_numeral [symmetric] not_False_eq_True)
  then show ?thesis unfolding normhipart_def tf_hi_def using assms by simp
qed

lemma of_bits_binade:
  assumes "0 < e" "e < 2047" "0 \<le> f" "f < 2 ^ 52"
  shows "of_bits64 (e * 2 ^ 52 + f) = Fin (of_int (2 ^ 52 + f) * 2 powi (e - 1075))"
proof -
  have d: "(e * 2 ^ 52 + f) div 2 ^ 52 = e" "(e * 2 ^ 52 + f) mod 2 ^ 52 = f" using assms(3,4) by simp_all
  have "e * 2 ^ 52 \<le> 2046 * 2 ^ 52" using assms(2) by (intro mult_right_mono) auto
  then have "\<not> e * 2 ^ 52 + f \<ge> 2 ^ 63" using assms(4) by simp
  moreover have "e mod 2 ^ 11 = e" using assms(1,2) by simp
  ultimately show ?thesis unfolding of_bits64_def d Let_def using assms(1,2) by simp
qed

lemma set_hi_unit:
  assumes "k < 1000"
  shows "set_hi nb (normhipart nb (Fin (unit k))) x = Fin (unit k + of_int (tf_low nb x) * 2 powi (int k - 32))"
proof -
  define l where "l = tf_low nb x"
  have l: "0 \<le> l" "l < 2 ^ 32" using tf_low_range [of nb x] by (simp_all add: l_def)
  define b :: int where "b = (1043 + int k) * 2 ^ 20 + 2 ^ 19"
  have "0 \<le> b" "b < 2 ^ 32" using assms by (simp_all add: b_def)
  then have "(b mod 2 ^ 32) * 2 ^ 32 + l = (1043 + int k) * 2 ^ 52 + (2 ^ 51 + l)" by (simp add: b_def)
  then have "set_hi nb b x = of_bits64 ((1043 + int k) * 2 ^ 52 + (2 ^ 51 + l))" by (simp only: set_hi_def l_def [symmetric])
  also have "\<dots> = Fin (of_int (2 ^ 52 + (2 ^ 51 + l)) * 2 powi (1043 + int k - 1075))"
    by (rule of_bits_binade) (use assms l in auto)
  also have "of_int (2 ^ 52 + (2 ^ 51 + l)) * 2 powi (1043 + int k - 1075) = unit k + of_int l * 2 powi (int k - 32)"
    unfolding unit_powi by (simp add: power_int_add power_int_diff field_simps)
  finally show ?thesis unfolding hi_unit [OF assms] b_def [symmetric] l_def [symmetric] .
qed

text \<open>What is left of it when the unit is subtracted is exact.\<close>

lemma sub_unit:
  assumes "k < 20"
  shows "fsub binary64 (set_hi nb (normhipart nb (Fin (unit k))) x) (Fin (unit k)) = Fin (of_int (tf_low nb x) * 2 powi (int k - 32))"
proof -
  have "2 powi (int k - 32) \<le> (2 powi 0 :: rat)" using assms by (intro power_int_increasing) auto
  then have "of_int (tf_low nb x) * 2 powi (int k - 32) \<le> (2 ^ 32 * 1 :: rat)"
    using tf_low_range [of nb x] by (intro mult_mono) auto
  also have "\<dots> < 2 ^ 1024" by simp
  finally have big: "of_int (tf_low nb x) * 2 powi (int k - 32) < (2 ^ 1024 :: rat)" .
  have "fround binary64 (of_int (tf_low nb x) * 2 powi (int k - 32)) = Fin (of_int (tf_low nb x) * 2 powi (int k - 32))"
    by (rule fround_exact [where m = "tf_low nb x" and e = "int k - 32"]) (use tf_low_range [of nb x] big in \<open>simp_all add: binary64_def\<close>)
  moreover have "0 < unit k" by (simp add: unit_def)
  ultimately show ?thesis using assms by (simp add: set_hi_unit fsub_def)
qed

text \<open>Where the sum lies in the binade of the unit, that is its fractional part.\<close>

lemma low_frac:
  assumes "2 ^ 20 \<le> q" "q < 2 ^ 21" "q * 2 ^ 32 \<in> \<int>"
  shows "of_int (tf_low nb (Fin q)) * 2 powi (- 32) = q - of_int \<lfloor>q\<rfloor>" "tf_hi nb (Fin q) = 1043 * 2 ^ 20 + (\<lfloor>q\<rfloor> - 2 ^ 20)"
proof -
  obtain M where M: "q * 2 ^ 32 = of_int M" using assms(3) by (auto elim: Ints_cases)
  have r: "rlog 2 q = 20" by (rule rlog_two) (use assms(1,2) in auto)
  have q: "0 < q" using assms(1) by simp
  have "q / 2 powi (20 - 52) = of_int M" unfolding M [symmetric] by (simp add: power_int_minus field_simps)
  then have "mag64 q = 1043 * 2 ^ 52 + (M - 2 ^ 52)" by (simp add: mag64_def r Let_def)
  then have b: "bits64 nb (Fin q) = M + (1042 * 2 ^ 20) * 2 ^ 32" using q by simp
  have fl: "\<lfloor>q\<rfloor> = M div 2 ^ 32"
  proof -
    have "q = of_int M / of_int (2 ^ 32)" using M by (simp add: field_simps)
    then show ?thesis by (simp only: floor_divide_of_int_eq)
  qed
  have low: "tf_low nb (Fin q) = M mod 2 ^ 32" unfolding tf_low_def b by (rule mod_mult_self1)
  have "of_int M = of_int (M div 2 ^ 32) * 2 ^ 32 + (of_int (M mod 2 ^ 32) :: rat)"
    using arg_cong [OF div_mult_mod_eq [of M "2 ^ 32"], of "of_int :: int \<Rightarrow> rat"]
    by (simp only: of_int_add of_int_mult of_int_power of_int_numeral)
  then show "of_int (tf_low nb (Fin q)) * 2 powi (- 32) = q - of_int \<lfloor>q\<rfloor>"
    unfolding low fl using M by (simp add: power_int_minus)
  have "bits64 nb (Fin q) div 2 ^ 32 = 1043 * 2 ^ 20 + (M div 2 ^ 32 - 2 ^ 20)" unfolding b by (subst div_mult_self1) simp_all
  moreover have "2 ^ 20 \<le> M div 2 ^ 32 \<and> M div 2 ^ 32 < 2 ^ 21"
    unfolding fl [symmetric] using assms(1,2) by (simp add: le_floor_iff floor_less_iff)
  ultimately show "tf_hi nb (Fin q) = 1043 * 2 ^ 20 + (\<lfloor>q\<rfloor> - 2 ^ 20)"
    unfolding tf_hi_def fl [symmetric] by (subst wrap32_id) auto
qed

end
