(* ===== verification/Osc.thy ===== *)
theory Osc
  imports Tabfudge Delay
begin

text \<open>
  Oscillators (\<open>d_osc.c\<close>): \<open>phasor~\<close>, \<open>cos~\<close>, \<open>osc~\<close>, \<open>vcf~\<close> and \<open>noise~\<close>. The cosine of the C library is an argument.
\<close>

abbreviation dbl :: "fl \<Rightarrow> fl" where "dbl \<equiv> fl_convert binary64"
abbreviation flt32 :: "fl \<Rightarrow> fl" where "flt32 \<equiv> fl_convert binary32"

definition unithi :: "int \<Rightarrow> int" where
  "unithi nb = normhipart nb UNITBIT32"

lemma unit_0 [simp]: "unit 0 = 1572864"
  by (simp add: unit_def)

subsection \<open>\<open>phasor~\<close>\<close>

record t_phasor =
  ph_phase :: fl
  ph_conv :: fl
  ph_f :: fl

definition phasor_new :: "fl \<Rightarrow> t_phasor" where
  "phasor_new f = \<lparr>ph_phase = Fin 0, ph_conv = Fin 0, ph_f = f\<rparr>"

fun phasor_loop :: "int \<Rightarrow> fl \<Rightarrow> fl list \<Rightarrow> fl \<Rightarrow> fl list \<times> fl" where
  "phasor_loop nb conv [] dphase = ([], dphase)"
| "phasor_loop nb conv (f # ins) dphase = (let tf = set_hi nb (unithi nb) dphase;
     (outs, d) = phasor_loop nb conv ins (fadd binary64 dphase (dbl (fmul binary32 f conv))) in
     (flt32 (fsub binary64 tf UNITBIT32) # outs, d))"

definition phasor_perform :: "int \<Rightarrow> fl list \<Rightarrow> t_phasor \<Rightarrow> fl list \<times> t_phasor" where
  "phasor_perform nb ins x = (let (outs, d) = phasor_loop nb (ph_conv x) ins (fadd binary64 (ph_phase x) UNITBIT32) in
     (outs, x\<lparr>ph_phase := fsub binary64 (set_hi nb (unithi nb) d) UNITBIT32\<rparr>))"

definition phasor_dsp :: "fl \<Rightarrow> t_phasor \<Rightarrow> t_phasor" where
  "phasor_dsp sr x = x\<lparr>ph_conv := flt32 (fdiv binary64 (Fin 1) (dbl sr))\<rparr>"

definition phasor_ft1 :: "fl \<Rightarrow> t_phasor \<Rightarrow> t_phasor" where
  "phasor_ft1 f x = x\<lparr>ph_phase := dbl f\<rparr>"

subsection \<open>\<open>cos~\<close>\<close>

abbreviation COSTABSIZE :: int where "COSTABSIZE \<equiv> 512"

text \<open>The table, from the cosine \<open>cosine\<close>; the phase is summed up in single precision.\<close>

fun table_loop :: "(fl \<Rightarrow> fl) \<Rightarrow> fl \<Rightarrow> nat \<Rightarrow> fl \<Rightarrow> fl list" where
  "table_loop cosine phsinc 0 phase = []"
| "table_loop cosine phsinc (Suc i) phase = flt32 (cosine (dbl phase)) # table_loop cosine phsinc i (fadd binary32 phase phsinc)"

definition cos_maketable :: "(fl \<Rightarrow> fl) \<Rightarrow> fl list" where
  "cos_maketable cosine = table_loop cosine
     (flt32 (fdiv binary64 (fmul binary64 (Fin 2) (fround binary64 (314159 / 100000))) (Fin 512))) (nat (COSTABSIZE + 1)) (Fin 0)"

definition lerp :: "fl \<Rightarrow> fl \<Rightarrow> fl \<Rightarrow> fl" where
  "lerp f1 fracp f2 = fadd binary32 f1 (fmul binary32 fracp (fsub binary32 f2 f1))"

definition frac_of :: "fl \<Rightarrow> fl" where
  "frac_of tf = flt32 (fsub binary64 tf UNITBIT32)"

definition tab_addr :: "int \<Rightarrow> fl \<Rightarrow> int" where
  "tab_addr nb tf = tf_hi nb tf AND (COSTABSIZE - 1)"

definition cos_phase :: "fl \<Rightarrow> fl" where
  "cos_phase f = fadd binary64 (dbl (fmul binary32 f (Fin 512))) UNITBIT32"

text \<open>The version in the comment of the source, which it calls the readable one.\<close>

fun cos_readable :: "int \<Rightarrow> fl list \<Rightarrow> fl list \<Rightarrow> fl list cresult" where
  "cos_readable nb tab [] = Inr []"
| "cos_readable nb tab (f # ins) = (let dphase = cos_phase f; addr = tab_addr nb dphase; fracp = frac_of (set_hi nb (unithi nb) dphase) in
     cbind (vget tab addr) (\<lambda>f1. cbind (vget tab (addr + 1)) (\<lambda>f2.
     cbind (cos_readable nb tab ins) (\<lambda>outs. Inr (lerp f1 fracp f2 # outs)))))"

text \<open>The one that runs, unwrapped by hand: a sample goes out when the next has come in. A block of no samples would never end.\<close>

fun cos_loop :: "int \<Rightarrow> fl list \<Rightarrow> fl list \<Rightarrow> fl \<Rightarrow> int \<Rightarrow> fl list cresult" where
  "cos_loop nb tab [] tf addr = cbind (vget tab addr) (\<lambda>f1. cbind (vget tab (addr + 1)) (\<lambda>f2. Inr [lerp f1 (frac_of tf) f2]))"
| "cos_loop nb tab (f # ins) tf addr = (let dphase = cos_phase f; fracp = frac_of tf in
     cbind (vget tab addr) (\<lambda>f1. cbind (vget tab (addr + 1)) (\<lambda>f2.
     cbind (cos_loop nb tab ins (set_hi nb (unithi nb) dphase) (tab_addr nb dphase)) (\<lambda>outs. Inr (lerp f1 fracp f2 # outs)))))"

definition cos_perform :: "int \<Rightarrow> fl list \<Rightarrow> fl list \<Rightarrow> fl list cresult" where
  "cos_perform nb tab ins = (case ins of [] \<Rightarrow> Inl OutOfBounds
     | f # ins \<Rightarrow> (let dphase = cos_phase f in cos_loop nb tab ins (set_hi nb (unithi nb) dphase) (tab_addr nb dphase)))"

subsection \<open>\<open>osc~\<close>\<close>

record t_osc =
  os_phase :: fl
  os_conv :: fl
  os_f :: fl

definition osc_new :: "fl \<Rightarrow> t_osc" where
  "osc_new f = \<lparr>os_phase = Fin 0, os_conv = Fin 0, os_f = f\<rparr>"

fun osc_readable :: "int \<Rightarrow> fl list \<Rightarrow> fl \<Rightarrow> fl list \<Rightarrow> fl \<Rightarrow> (fl list \<times> fl) cresult" where
  "osc_readable nb tab conv [] dphase = Inr ([], dphase)"
| "osc_readable nb tab conv (f # ins) dphase = (let addr = tab_addr nb dphase; fracp = frac_of (set_hi nb (unithi nb) dphase) in
     cbind (vget tab addr) (\<lambda>f1. cbind (vget tab (addr + 1)) (\<lambda>f2.
     cbind (osc_readable nb tab conv ins (fadd binary64 dphase (dbl (fmul binary32 f conv)))) (\<lambda>(outs, d).
     Inr (lerp f1 fracp f2 # outs, d)))))"

fun osc_loop :: "int \<Rightarrow> fl list \<Rightarrow> fl \<Rightarrow> fl list \<Rightarrow> fl \<Rightarrow> int \<Rightarrow> fl \<Rightarrow> (fl list \<times> fl) cresult" where
  "osc_loop nb tab conv [] dphase addr fracp =
     cbind (vget tab addr) (\<lambda>f1. cbind (vget tab (addr + 1)) (\<lambda>f2. Inr ([lerp f1 fracp f2], dphase)))"
| "osc_loop nb tab conv (f # ins) dphase addr fracp = (let tf = dphase in
     cbind (vget tab addr) (\<lambda>f1. let dphase = fadd binary64 dphase (dbl (fmul binary32 f conv)) in
     cbind (vget tab (addr + 1)) (\<lambda>f2. let addr = tab_addr nb tf; out1 = lerp f1 fracp f2 in
     cbind (osc_loop nb tab conv ins dphase addr (frac_of (set_hi nb (unithi nb) tf))) (\<lambda>(outs, d). Inr (out1 # outs, d)))))"

definition osc_perform :: "int \<Rightarrow> fl list \<Rightarrow> fl list \<Rightarrow> t_osc \<Rightarrow> (fl list \<times> t_osc) cresult" where
  "osc_perform nb tab ins x = (let dphase = fadd binary64 (os_phase x) UNITBIT32 in
     case ins of [] \<Rightarrow> Inl OutOfBounds
     | f # ins \<Rightarrow> (let tf = dphase; dphase = fadd binary64 dphase (dbl (fmul binary32 f (os_conv x))) in
         cbind (osc_loop nb tab (os_conv x) ins dphase (tab_addr nb tf) (frac_of (set_hi nb (unithi nb) tf))) (\<lambda>(outs, dphase).
           let top = Fin (1572864 * 512); hi = normhipart nb top; tf = fadd binary64 dphase (Fin (1572864 * 512 - 1572864)) in
           Inr (outs, x\<lparr>os_phase := fsub binary64 (set_hi nb hi tf) top\<rparr>))))"

definition osc_dsp :: "fl \<Rightarrow> t_osc \<Rightarrow> t_osc" where
  "osc_dsp sr x = x\<lparr>os_conv := fdiv binary32 (Fin 512) sr\<rparr>"

definition osc_ft1 :: "fl \<Rightarrow> t_osc \<Rightarrow> t_osc" where
  "osc_ft1 f x = x\<lparr>os_phase := dbl (fmul binary32 (Fin 512) f)\<rparr>"

subsection \<open>\<open>vcf~\<close>\<close>

record t_vcfctl =
  c_re :: fl
  c_im :: fl
  c_q :: fl
  c_isr :: fl

definition sigvcf_new :: "fl \<Rightarrow> t_vcfctl" where
  "sigvcf_new q = \<lparr>c_re = Fin 0, c_im = Fin 0, c_q = q, c_isr = Fin 0\<rparr>"

definition sigvcf_ft1 :: "fl \<Rightarrow> t_vcfctl \<Rightarrow> t_vcfctl" where
  "sigvcf_ft1 f c = c\<lparr>c_q := (if flt (Fin 0) f then f else Fin 0)\<rparr>"

definition two_pi :: fl where
  "two_pi = fround binary32 (628318 / 100000)"

definition sigvcf_dsp :: "fl \<Rightarrow> t_vcfctl \<Rightarrow> t_vcfctl" where
  "sigvcf_dsp sr c = c\<lparr>c_isr := fdiv binary32 two_pi sr\<rparr>"

text \<open>The coefficients for a frequency: the radius, and the cosine and the sine of the angle read from the table.\<close>

definition vcf_coef :: "int \<Rightarrow> fl list \<Rightarrow> fl \<Rightarrow> fl \<Rightarrow> fl \<Rightarrow> (fl \<times> fl \<times> fl) cresult" where
  "vcf_coef nb tab qinv isr f = (let
       cf = fmul binary32 f isr;
       cf = (if flt cf (Fin 0) then Fin 0 else cf);
       cfindx = fmul binary32 cf (fdiv binary32 (Fin 512) two_pi);
       r = (if flt (Fin 0) qinv then fsub binary32 (Fin 1) (fmul binary32 cf qinv) else Fin 0);
       r = (if flt r (Fin 0) then Fin 0 else r);
       oneminusr = fsub binary32 (Fin 1) r;
       dphase = fadd binary64 (dbl cfindx) UNITBIT32;
       tabindex = tf_hi nb dphase AND (COSTABSIZE - 1);
       fracp = frac_of (set_hi nb (unithi nb) dphase);
       addr2 = (tabindex - COSTABSIZE div 4) AND (COSTABSIZE - 1) in
     cbind (vget tab tabindex) (\<lambda>f1. cbind (vget tab (tabindex + 1)) (\<lambda>f2.
     cbind (vget tab addr2) (\<lambda>g1. cbind (vget tab (addr2 + 1)) (\<lambda>g2.
     Inr (oneminusr, fmul binary32 r (lerp f1 fracp f2), fmul binary32 r (lerp g1 fracp g2)))))))"

fun vcf_loop :: "int \<Rightarrow> fl list \<Rightarrow> fl \<Rightarrow> fl \<Rightarrow> fl \<Rightarrow> (fl \<times> fl) list \<Rightarrow> fl \<Rightarrow> fl \<Rightarrow> ((fl \<times> fl) list \<times> fl \<times> fl) cresult" where
  "vcf_loop nb tab ampcorrect qinv isr [] re im = Inr ([], re, im)"
| "vcf_loop nb tab ampcorrect qinv isr ((in1, in2) # ins) re im =
     cbind (vcf_coef nb tab qinv isr in2) (\<lambda>(oneminusr, coefr, coefi).
       let re' = fsub binary32 (fadd binary32 (fmul binary32 (fmul binary32 ampcorrect oneminusr) in1) (fmul binary32 coefr re)) (fmul binary32 coefi im);
           im' = fadd binary32 (fmul binary32 coefi re) (fmul binary32 coefr im) in
       cbind (vcf_loop nb tab ampcorrect qinv isr ins re' im') (\<lambda>(outs, r). Inr ((re', im') # outs, r)))"

definition sigvcf_perform :: "int \<Rightarrow> fl list \<Rightarrow> (fl \<times> fl) list \<Rightarrow> t_vcfctl \<Rightarrow> ((fl \<times> fl) list \<times> t_vcfctl) cresult" where
  "sigvcf_perform nb tab ins c = (let q = c_q c; qinv = (if flt (Fin 0) q then fdiv binary32 (Fin 1) q else Fin 0);
       ampcorrect = fsub binary32 (Fin 2) (fdiv binary32 (Fin 2) (fadd binary32 q (Fin 2))) in
     cbind (vcf_loop nb tab ampcorrect qinv (c_isr c) ins (c_re c) (c_im c)) (\<lambda>(outs, re, im).
       Inr (outs, c\<lparr>c_re := clean re, c_im := clean im\<rparr>)))"

subsection \<open>\<open>noise~\<close>\<close>

text \<open>\<open>init\<close> is the static variable, shared by all.\<close>

definition noise_new :: "int \<Rightarrow> int \<times> int" where
  "noise_new init = (let v = wrap32 (init * 1319) in (v, v))"

fun noise_perform :: "nat \<Rightarrow> int \<Rightarrow> fl list \<times> int" where
  "noise_perform 0 val = ([], val)"
| "noise_perform (Suc n) val = (let (outs, v) = noise_perform n (wrap32 (val * 435898247 + 382842987)) in
     (fmul binary32 (fl_of_int binary32 ((val AND 0x7fffffff) - 0x40000000)) (fround binary32 (1 / 0x40000000)) # outs, v))"

subsection \<open>A phase wraps around\<close>

definition unit_sample :: "fl \<Rightarrow> bool" where
  "unit_sample f = (case f of Fin q \<Rightarrow> 0 \<le> q \<and> q \<le> 1 | _ \<Rightarrow> False)"

text \<open>The phases at which the samples are taken, with the unit added, and the fractional part of one.\<close>

fun phases :: "fl \<Rightarrow> fl list \<Rightarrow> fl \<Rightarrow> fl list" where
  "phases conv [] d = []"
| "phases conv (f # ins) d = d # phases conv ins (fadd binary64 d (dbl (fmul binary32 f conv)))"

definition in_binade :: "fl \<Rightarrow> bool" where
  "in_binade d = (case d of Fin q \<Rightarrow> 2 ^ 20 \<le> q \<and> q < 2 ^ 21 | _ \<Rightarrow> False)"

definition fraction :: "fl \<Rightarrow> rat" where
  "fraction d = fval d - of_int \<lfloor>fval d\<rfloor>"

lemma sub_unitbit: "fsub binary64 (set_hi nb (unithi nb) x) UNITBIT32 = Fin (of_int (tf_low nb x) * 2 powi (- 32))"
  using sub_unit [of 0 nb x] by (simp add: unithi_def)

lemma low_unit: "0 \<le> of_int (tf_low nb x) * (2 powi (- 32) :: rat)" "of_int (tf_low nb x) * (2 powi (- 32) :: rat) < 1"
proof -
  have "of_int (tf_low nb x) < (2 ^ 32 :: rat)" using tf_low_range(2) [of nb x] by (metis of_int_less_numeral_power_cancel_iff)
  then show "of_int (tf_low nb x) * (2 powi (- 32) :: rat) < 1" by (simp add: power_int_minus)
qed (simp add: tf_low_range)

definition mag_le :: "rat \<Rightarrow> fl \<Rightarrow> bool" where
  "mag_le b f = (case f of Fin q \<Rightarrow> \<bar>q\<bar> \<le> b | NZero \<Rightarrow> True | _ \<Rightarrow> False)"

lemma fround_within:
  assumes "\<bar>q\<bar> \<le> 2 powi k" "f_emin fm \<le> k" "k < f_emax fm" "1 \<le> f_prec fm"
  shows "mag_le (2 powi k) (fround fm q)"
proof (cases "q = 0")
  case True
  then show ?thesis by (simp add: mag_le_def)
next
  case False
  define u where "u = ulp_exp fm \<bar>q\<bar>"
  define v where "v = (of_int (rhe (\<bar>q\<bar> / 2 powi u)) * 2 powi u :: rat)"
  have "(2 :: rat) powi rlog 2 \<bar>q\<bar> \<le> 2 powi k" using rlog_bounds [of "\<bar>q\<bar>" 2] False assms(1) by auto
  then have "rlog 2 \<bar>q\<bar> \<le> k" using power_int_strict_increasing [of k "rlog 2 \<bar>q\<bar>" "2 :: rat"] by force
  then have u: "u \<le> k" using assms(2,4) by (simp add: u_def ulp_exp_def)
  have scale: "(2 powi k / 2 powi u :: rat) = of_int (2 ^ nat (k - u))" using u power_int_of_nat [of "2 :: rat" "nat (k - u)"] by (simp add: power_int_diff)
  have "\<bar>q\<bar> / 2 powi u \<le> 2 powi k / (2 powi u :: rat)" by (rule divide_right_mono [OF assms(1)]) simp
  then have "rhe (\<bar>q\<bar> / 2 powi u) \<le> 2 ^ nat (k - u)" unfolding scale by (rule rhe_le_int)
  then have "of_int (rhe (\<bar>q\<bar> / 2 powi u)) \<le> (2 powi k / 2 powi u :: rat)" unfolding scale by (simp only: of_int_le_iff)
  then have v: "v \<le> 2 powi k" by (simp add: v_def pos_le_divide_eq)
  have "0 \<le> rhe (\<bar>q\<bar> / 2 powi u)" by (rule rhe_ge_int) simp
  then have v0: "0 \<le> v" by (simp add: v_def)
  have "(2 :: rat) powi k < 2 powi f_emax fm" using assms(3) by (intro power_int_strict_increasing) auto
  moreover have "fround fm q = (if v \<ge> 2 powi f_emax fm then Inf (q < 0) else if v = 0 then (if q < 0 then NZero else Fin 0)
      else Fin (if q < 0 then - v else v))"
    unfolding fround_def v_def u_def Let_def using False by simp
  ultimately show ?thesis using v v0 by (auto simp: mag_le_def)
qed

text \<open>A sum that is rounded in the binade of the unit is a multiple of \<open>2 powi -32\<close>.\<close>

lemma fround_grid:
  assumes "fround binary64 r = Fin q" "2 ^ 20 \<le> q" "q < 2 ^ 21"
  shows "q * 2 ^ 32 \<in> \<int>"
proof (cases "2 ^ 20 \<le> \<bar>r\<bar>")
  case True
  have r0: "r \<noteq> 0" using True by auto
  define u where "u = ulp_exp binary64 \<bar>r\<bar>"
  define k where "k = rhe (\<bar>r\<bar> / 2 powi u)"
  define v where "v = (of_int k * 2 powi u :: rat)"
  have "fround binary64 r = (if v \<ge> 2 powi f_emax binary64 then Inf (r < 0) else if v = 0 then (if r < 0 then NZero else Fin 0)
      else Fin (if r < 0 then - v else v))"
    unfolding fround_def v_def k_def u_def Let_def using r0 by simp
  then have "q = v \<or> q = - v" using assms(1) by (auto split: if_splits)
  then have "q = of_int k * 2 powi u \<or> q = - (of_int k * 2 powi u)" by (simp add: v_def)
  moreover have "- 32 \<le> u"
  proof -
    have "(2 :: rat) powi 20 < 2 powi (rlog 2 \<bar>r\<bar> + 1)" using rlog_bounds [of "\<bar>r\<bar>" 2] r0 True by auto
    then have "20 < rlog 2 \<bar>r\<bar> + 1" using power_int_increasing [of "rlog 2 \<bar>r\<bar> + 1" 20 "2 :: rat"] by force
    then show ?thesis by (simp add: u_def ulp_exp_def binary64_def)
  qed
  moreover have "of_int k * 2 powi u * 2 ^ 32 = (of_int (k * 2 ^ nat (u + 32)) :: rat)" if "- 32 \<le> u"
  proof -
    have "(2 :: rat) powi u * 2 ^ 32 = 2 powi (u + 32)" by (simp add: power_int_add)
    also have "\<dots> = 2 ^ nat (u + 32)" using that by (simp add: power_int_def)
    finally show ?thesis by (simp add: mult.assoc)
  qed
  ultimately show ?thesis by (metis Ints_minus Ints_of_int mult_minus_left)
next
  case False
  then have "mag_le (2 powi 20) (fround binary64 r)" by (intro fround_within) (simp_all add: binary64_def)
  then have "q \<le> 2 ^ 20" using assms(1) by (simp add: mag_le_def)
  then have "q = 2 ^ 20" using assms(1,2) by simp
  then have "q * 2 ^ 32 = of_int (2 ^ 52)" by simp
  then show ?thesis by (metis Ints_of_int)
qed

lemma fadd_round: "fadd binary64 x y = Fin q \<Longrightarrow> \<exists>r. fround binary64 r = Fin q"
  by (cases x; cases y) (auto split: if_splits)

lemma phase_fraction:
  assumes "d = fadd binary64 x y" "in_binade d"
  shows "of_int (tf_low nb d) * 2 powi (- 32) = fraction d"
proof -
  obtain q where q: "d = Fin q" "2 ^ 20 \<le> q" "q < 2 ^ 21" using assms(2) by (auto simp: in_binade_def split: fl.splits)
  obtain r where "fround binary64 r = Fin q" using fadd_round assms(1) q(1) by metis
  from low_frac(1) [OF q(2,3) fround_grid [OF this q(2,3)], of nb] show ?thesis by (simp only: q(1) fraction_def fval.simps)
qed

lemma flt32_unit: "0 \<le> q \<Longrightarrow> q \<le> 1 \<Longrightarrow> unit_sample (flt32 (Fin q))"
  using fround32_between [of 0 q 1] by (auto simp: unit_sample_def)

lemma phasor_loop_spec:
  assumes "d = fadd binary64 a b"
  shows "list_all unit_sample (fst (phasor_loop nb conv ins d))" "\<exists>a b. snd (phasor_loop nb conv ins d) = fadd binary64 a b"
    "list_all in_binade (phases conv ins d) \<Longrightarrow> fst (phasor_loop nb conv ins d) = map (\<lambda>d. flt32 (Fin (fraction d))) (phases conv ins d)"
  using assms
proof (induction ins arbitrary: d a b)
  case (Cons f ins)
  {
    case 1
    show ?case using Cons.IH(1) [OF refl] low_unit [of nb d]
      by (auto simp: Let_def split_def sub_unitbit simp del: fl_convert.simps intro!: flt32_unit)
  next
    case 2
    show ?case using Cons.IH(2) [OF refl] by (simp add: Let_def split_def)
  next
    case 3
    show ?case using Cons.IH(3) [OF _ refl] phase_fraction [OF 3(2), of nb] 3(1)
      by (simp add: Let_def split_def sub_unitbit del: fl_convert.simps)
  }
qed auto

text \<open>Whatever comes in, \<open>phasor~\<close> puts out numbers between 0 and 1 and keeps its phase in that range; and as long as the sum of its
  phases stays in the binade in which the trick with the bits of a \<open>double\<close> works, it puts out the fractional parts of that sum.\<close>

theorem phasor_wraps:
  assumes "phasor_perform nb ins x = (outs, x')"
  shows "list_all unit_sample outs \<and> (\<exists>p. ph_phase x' = Fin p \<and> 0 \<le> p \<and> p < 1) \<and>
    (let ds = phases (ph_conv x) ins (fadd binary64 (ph_phase x) UNITBIT32) in
       list_all in_binade ds \<longrightarrow> outs = map (\<lambda>d. flt32 (Fin (fraction d))) ds)"
proof -
  let ?d = "fadd binary64 (ph_phase x) UNITBIT32"
  note l = phasor_loop_spec [OF refl [of ?d], where nb = nb and conv = "ph_conv x" and ins = ins]
  have "outs = fst (phasor_loop nb (ph_conv x) ins ?d)" "ph_phase x' = fsub binary64 (set_hi nb (unithi nb) (snd (phasor_loop nb (ph_conv x) ins ?d))) UNITBIT32"
    using assms by (auto simp: phasor_perform_def Let_def split_def)
  moreover define p where "p = of_int (tf_low nb (snd (phasor_loop nb (ph_conv x) ins ?d))) * (2 powi (- 32) :: rat)"
  ultimately have "outs = fst (phasor_loop nb (ph_conv x) ins ?d)" "ph_phase x' = Fin p" by (simp_all only: sub_unitbit p_def)
  then show ?thesis using l(1,3) low_unit [of nb "snd (phasor_loop nb (ph_conv x) ins ?d)"] unfolding p_def [symmetric]
    by (simp add: Let_def)
qed

text \<open>The conversion to single precision may round up: the largest fraction becomes 1.\<close>

lemma phasor_reaches_one: "flt32 (Fin ((2 ^ 32 - 1) * 2 powi (- 32))) = Fin 1"
  by code_simp

theorem phasor_wraps_witness:
  "\<exists>outs x'. phasor_perform 0 [Fin 0] (phasor_new (Fin 0)) = (outs, x') \<and> list_all unit_sample outs \<and> (\<exists>p. ph_phase x' = Fin p \<and> 0 \<le> p \<and> p < 1) \<and>
     outs = [Fin 0]"
proof -
  obtain outs x' where r: "phasor_perform 0 [Fin 0] (phasor_new (Fin 0)) = (outs, x')" by fastforce
  have "fadd binary64 (Fin 0) UNITBIT32 = UNITBIT32" using fl_of_int_binary64 [of 1572864] by (simp add: fl_of_int_def)
  then show ?thesis using phasor_wraps [OF r] r by (simp add: phasor_new_def Let_def in_binade_def fraction_def unit_sample_def)
qed

subsection \<open>Reading the table of the cosine\<close>

lemma table_ok:
  assumes "int (length tab) = COSTABSIZE + 1"
  shows "vget tab (i AND 511) = Inr (tab ! nat (i AND 511))" "vget tab ((i AND 511) + 1) = Inr (tab ! nat ((i AND 511) + 1))"
proof -
  have "0 \<le> i AND 511" by simp
  moreover have "i AND 511 < 512" using AND_upper2 [of 511 i] by simp
  ultimately show "vget tab (i AND 511) = Inr (tab ! nat (i AND 511))" "vget tab ((i AND 511) + 1) = Inr (tab ! nat ((i AND 511) + 1))"
    using assms by (auto simp: vget_def)
qed

lemma length_table [simp]: "length (table_loop cosine phsinc n phase) = n"
  by (induction n arbitrary: phase) auto

lemma length_maketable: "int (length (cos_maketable cosine)) = COSTABSIZE + 1"
  by (simp add: cos_maketable_def)

lemma cos_loop_readable:
  "cos_loop nb tab ins (set_hi nb (unithi nb) (cos_phase f)) (tab_addr nb (cos_phase f)) = cos_readable nb tab (f # ins)"
  by (induction ins arbitrary: f) (simp_all add: Let_def)

lemma cos_readable_ok:
  assumes "int (length tab) = COSTABSIZE + 1"
  shows "\<exists>outs. cos_readable nb tab ins = Inr outs \<and> length outs = length ins"
  by (induction ins) (auto simp: Let_def tab_addr_def table_ok [OF assms] cbind_def)

lemma osc_loop_readable:
  "osc_loop nb tab conv ins (fadd binary64 d (dbl (fmul binary32 f conv))) (tab_addr nb d) (frac_of (set_hi nb (unithi nb) d)) =
   osc_readable nb tab conv (f # ins) d"
  by (induction ins arbitrary: f d) (simp_all add: Let_def)

lemma osc_readable_ok:
  assumes "int (length tab) = COSTABSIZE + 1"
  shows "\<exists>outs d'. osc_readable nb tab conv ins d = Inr (outs, d') \<and> length outs = length ins"
proof (induction ins arbitrary: d)
  case (Cons f ins)
  obtain outs d' where "osc_readable nb tab conv ins (fadd binary64 d (dbl (fmul binary32 f conv))) = Inr (outs, d')" "length outs = length ins"
    using Cons.IH by blast
  then show ?case by (simp add: Let_def tab_addr_def table_ok [OF assms] cbind_def)
qed simp

text \<open>The loops of \<open>cos~\<close> and \<open>osc~\<close> that are unwrapped by hand compute what the versions do that the source gives as the readable ones,
  and never read outside the table that \<open>cos_maketable\<close> makes, whatever the samples, infinite ones and NaN included.\<close>

theorem cos_osc_as_readable:
  assumes "ins \<noteq> []"
  shows "(\<exists>outs. cos_perform nb (cos_maketable cosine) ins = Inr outs \<and> cos_readable nb (cos_maketable cosine) ins = Inr outs \<and>
      length outs = length ins) \<and>
    (\<exists>outs x' d. osc_perform nb (cos_maketable cosine) ins x = Inr (outs, x') \<and>
      osc_readable nb (cos_maketable cosine) (os_conv x) ins (fadd binary64 (os_phase x) UNITBIT32) = Inr (outs, d) \<and> length outs = length ins)"
proof -
  let ?tab = "cos_maketable cosine" and ?d = "fadd binary64 (os_phase x) UNITBIT32"
  obtain f fs where ins: "ins = f # fs" using assms by (cases ins) auto
  have "cos_perform nb ?tab ins = cos_readable nb ?tab ins"
    by (simp add: ins cos_perform_def Let_def cos_loop_readable del: cos_readable.simps)
  moreover obtain outs d where o: "osc_readable nb ?tab (os_conv x) ins ?d = Inr (outs, d)" "length outs = length ins"
    using osc_readable_ok [OF length_maketable] by blast
  have "osc_loop nb ?tab (os_conv x) fs (fadd binary64 ?d (dbl (fmul binary32 f (os_conv x)))) (tab_addr nb ?d) (frac_of (set_hi nb (unithi nb) ?d)) = Inr (outs, d)"
    using o(1) by (simp only: osc_loop_readable ins)
  then have "\<exists>x'. osc_perform nb ?tab ins x = Inr (outs, x')" by (simp add: osc_perform_def ins Let_def cbind_def)
  ultimately show ?thesis using cos_readable_ok [OF length_maketable] o by metis
qed

theorem cos_osc_as_readable_witness:
  "\<exists>outs. cos_perform 0 (cos_maketable (\<lambda>_. Fin 1)) [Fin 0, Inf False, NaN] = Inr outs \<and> length outs = 3"
  using cos_osc_as_readable [of "[Fin 0, Inf False, NaN]" 0 "\<lambda>_. Fin 1" "osc_new (Fin 0)"] by auto

text \<open>The phase that is kept stays within the table.\<close>

lemma osc_phase_range:
  assumes "osc_perform nb tab ins x = Inr (outs, x')"
  shows "\<exists>p. os_phase x' = Fin p \<and> 0 \<le> p \<and> p < 512"
proof -
  obtain y where "os_phase x' = fsub binary64 (set_hi nb (normhipart nb (Fin (1572864 * 512))) y) (Fin (1572864 * 512))"
    using assms by (auto simp: osc_perform_def Let_def cbind_def split: list.splits sum.splits)
  also have "\<dots> = Fin (of_int (tf_low nb y) * 2 powi (9 - 32))" using sub_unit [of 9 nb y] by (simp add: unit_def)
  finally have "os_phase x' = Fin (of_int (tf_low nb y) * 2 powi (- 23))" by simp
  moreover have "of_int (tf_low nb y) < (2 ^ 32 :: rat)" using tf_low_range(2) [of nb y] by (metis of_int_less_numeral_power_cancel_iff)
  then have "of_int (tf_low nb y) * (2 powi (- 23) :: rat) < 512" by (simp add: power_int_minus)
  ultimately show ?thesis using tf_low_range(1) [of nb y] by (intro exI [of _ "of_int (tf_low nb y) * 2 powi (- 23)"]) simp
qed

text \<open>Nor does \<open>vcf~\<close> read outside the table.\<close>

lemma vcf_loop_ok:
  assumes "int (length tab) = COSTABSIZE + 1"
  shows "\<exists>outs re' im'. vcf_loop nb tab ampcorrect qinv isr ins re im = Inr (outs, re', im') \<and> length outs = length ins"
proof (induction ins arbitrary: re im)
  case (Cons f ins)
  obtain in1 in2 where f: "f = (in1, in2)" by (cases f)
  have "\<exists>r1 r2 r3. vcf_coef nb tab qinv isr in2 = Inr (r1, r2, r3)" using table_ok [OF assms] by (simp add: vcf_coef_def Let_def cbind_def)
  then obtain r1 r2 r3 where c: "vcf_coef nb tab qinv isr in2 = Inr (r1, r2, r3)" by blast
  define re1 im1 where "re1 = fsub binary32 (fadd binary32 (fmul binary32 (fmul binary32 ampcorrect r1) in1) (fmul binary32 r2 re)) (fmul binary32 r3 im)"
    and "im1 = fadd binary32 (fmul binary32 r3 re) (fmul binary32 r2 im)"
  obtain outs re' im' where "vcf_loop nb tab ampcorrect qinv isr ins re1 im1 = Inr (outs, re', im')" "length outs = length ins" using Cons by blast
  then show ?case by (simp add: f c cbind_def Let_def re1_def im1_def)
qed simp

lemma vcf_in_table: "\<exists>outs c'. sigvcf_perform nb (cos_maketable cosine) ins c = Inr (outs, c') \<and> length outs = length ins"
proof -
  define amp qi where "amp = fsub binary32 (Fin 2) (fdiv binary32 (Fin 2) (fadd binary32 (c_q c) (Fin 2)))"
    and "qi = (if flt (Fin 0) (c_q c) then fdiv binary32 (Fin 1) (c_q c) else Fin 0)"
  obtain outs re im where "vcf_loop nb (cos_maketable cosine) amp qi (c_isr c) ins (c_re c) (c_im c) = Inr (outs, re, im)" "length outs = length ins"
    using vcf_loop_ok [OF length_maketable] by blast
  then show ?thesis unfolding sigvcf_perform_def Let_def amp_def [symmetric] qi_def [symmetric] by (simp add: cbind_def)
qed

text \<open>\<open>noise~\<close> stays between -1 and 1.\<close>

lemma noise_range: "list_all (mag_le 1) (fst (noise_perform n v))"
proof (induction n arbitrary: v)
  case (Suc n)
  define i where "i = (v AND 0x7fffffff) - 0x40000000"
  have "v AND 0x7fffffff \<le> 0x7fffffff" "0 \<le> v AND 0x7fffffff" using AND_upper2 [of "0x7fffffff" v] by auto
  then have "- (2 ^ 30) \<le> i" "i \<le> 2 ^ 30" by (auto simp: i_def)
  then have "\<bar>rat_of_int i\<bar> \<le> 2 powi 30" by (simp add: abs_le_iff)
  then have a: "mag_le (2 powi 30) (fl_of_int binary32 i)" unfolding fl_of_int_def by (rule fround_within) (simp_all add: binary32_def)
  have "fround binary32 (1 / 2 ^ 30) = Fin (1 / 2 ^ 30)"
    by (rule fround_exact [where m = 1 and e = "- 30"]) (simp_all add: binary32_def power_int_minus)
  then have b: "fround binary32 (1 / 0x40000000) = Fin (1 / 2 ^ 30)" by simp
  have scaled: "mag_le 1 (fround binary32 (r * (1 / 2 ^ 30)))" if "\<bar>r\<bar> \<le> 2 powi 30" for r
    using fround_within [of "r * (1 / 2 ^ 30)" 0 binary32] that by (simp add: binary32_def abs_mult)
  have "mag_le 1 (fmul binary32 (fl_of_int binary32 i) (Fin (1 / 2 ^ 30)))"
  proof (cases "fl_of_int binary32 i")
    case (Fin r)
    then have "mag_le 1 (fround binary32 (r * (1 / 2 ^ 30)))" using a scaled by (simp add: mag_le_def)
    then show ?thesis using Fin by (auto simp: fmul_def fzero_def signed_zero_def Let_def mag_le_def)
  qed (use a in \<open>auto simp: mag_le_def fmul_def fzero_def signed_zero_def\<close>)
  then show ?case using Suc.IH by (simp add: Let_def split_def b i_def [symmetric])
qed simp

end
