(* ===== verification/Tables.thy ===== *)
theory Tables
  imports Osc DspChain Atoms
begin

text \<open>
  Objects that record into tables, play and read them (\<open>d_array.c\<close>). The words of an array are a block of memory, to which an object keeps a
  pointer from the time when it was last told of the array.
\<close>

subsection \<open>Arrays\<close>

text \<open>What is found under the name of an array. Its words are at an address.\<close>

datatype garray = No_array | Bad_template | Words nat

type_synonym words = "nat \<rightharpoonup> fl list"

definition block :: "words \<Rightarrow> nat \<Rightarrow> fl list cresult" where
  "block m a = (case m a of None \<Rightarrow> Inl UseAfterFree | Some v \<Rightarrow> Inr v)"

text \<open>The length, left as it was where there is none, and the pointer.\<close>

definition tab_set :: "garray \<Rightarrow> words \<Rightarrow> int \<Rightarrow> int \<times> nat option" where
  "tab_set g m npoints = (case g of Words a \<Rightarrow> (case m a of Some v \<Rightarrow> (int (length v), Some a) | None \<Rightarrow> (npoints, None))
     | _ \<Rightarrow> (npoints, None))"

definition zeros :: "'a list \<Rightarrow> fl list" where
  "zeros ins = map (\<lambda>_. Fin 0) ins"

subsection \<open>\<open>tabwrite~\<close>\<close>

definition PHASE_END :: int where "PHASE_END = 0x7fffffff"

record t_tabwrite_tilde =
  tw_phase :: int
  tw_nsampsintab :: int
  tw_vec :: "nat option"

definition tabwrite_tilde_new :: t_tabwrite_tilde where
  "tabwrite_tilde_new = \<lparr>tw_phase = PHASE_END, tw_nsampsintab = 0, tw_vec = None\<rparr>"

text \<open>\<open>while (nxfer--)\<close>: a negative count goes down until it wraps around.\<close>

fun write_loop :: "nat \<Rightarrow> fl list \<Rightarrow> int \<Rightarrow> fl list \<Rightarrow> fl list cresult" where
  "write_loop 0 ins p v = Inr v"
| "write_loop (Suc k) [] p v = Inl OutOfBounds"
| "write_loop (Suc k) (f # ins) p v = cbind (vput v p (clean f)) (write_loop k ins (p + 1))"

definition loop_count :: "int \<Rightarrow> nat" where
  "loop_count nxfer = nat (nxfer mod 2 ^ 32)"

text \<open>The result says whether the array is to be drawn again.\<close>

definition tabwrite_tilde_perform :: "fl list \<Rightarrow> t_tabwrite_tilde \<Rightarrow> words \<Rightarrow> (bool \<times> t_tabwrite_tilde \<times> words) cresult" where
  "tabwrite_tilde_perform ins x m = (let n = int (length ins); phase = tw_phase x; endphase = tw_nsampsintab x in
     case tw_vec x of None \<Rightarrow> Inr (False, x, m)
     | Some a \<Rightarrow>
        (if endphase > phase then
           (let nxfer = wrap32 (endphase - phase); nxfer = (if nxfer > n then n else nxfer); phase' = wrap32 (phase + nxfer) in
            cbind (block m a) (\<lambda>v. cbind (write_loop (loop_count nxfer) ins phase v) (\<lambda>v'.
            if phase' \<ge> endphase then Inr (True, x\<lparr>tw_phase := PHASE_END\<rparr>, m(a \<mapsto> v'))
            else Inr (False, x\<lparr>tw_phase := phase'\<rparr>, m(a \<mapsto> v')))))
         else Inr (False, x\<lparr>tw_phase := PHASE_END\<rparr>, m)))"

definition tabwrite_tilde_set :: "garray \<Rightarrow> words \<Rightarrow> t_tabwrite_tilde \<Rightarrow> t_tabwrite_tilde" where
  "tabwrite_tilde_set g m x = (let (n, vec) = tab_set g m (tw_nsampsintab x) in x\<lparr>tw_nsampsintab := n, tw_vec := vec\<rparr>)"

definition tabwrite_tilde_bang :: "t_tabwrite_tilde \<Rightarrow> t_tabwrite_tilde" where
  "tabwrite_tilde_bang x = x\<lparr>tw_phase := 0\<rparr>"

definition tabwrite_tilde_start :: "fl \<Rightarrow> t_tabwrite_tilde \<Rightarrow> t_tabwrite_tilde" where
  "tabwrite_tilde_start f x = x\<lparr>tw_phase := int_of_fl (if flt (Fin 0) f then f else Fin 0)\<rparr>"

definition tabwrite_tilde_stop :: "t_tabwrite_tilde \<Rightarrow> bool \<times> t_tabwrite_tilde" where
  "tabwrite_tilde_stop x = (if tw_phase x \<noteq> PHASE_END then (True, x\<lparr>tw_phase := PHASE_END\<rparr>) else (False, x))"

subsection \<open>\<open>tabplay~\<close>\<close>

record t_tabplay_tilde =
  tp_phase :: int
  tp_nsampsintab :: int
  tp_limit :: int
  tp_vec :: "nat option"

definition tabplay_tilde_new :: t_tabplay_tilde where
  "tabplay_tilde_new = \<lparr>tp_phase = PHASE_END, tp_nsampsintab = 0, tp_limit = 0, tp_vec = None\<rparr>"

fun read_loop :: "nat \<Rightarrow> int \<Rightarrow> fl list \<Rightarrow> fl list cresult" where
  "read_loop 0 p v = Inr []"
| "read_loop (Suc k) p v = cbind (vget v p) (\<lambda>f. cbind (read_loop k (p + 1) v) (\<lambda>fs. Inr (f # fs)))"

text \<open>A block of \<open>n\<close> samples. The result says whether the clock is set that sends a bang.\<close>

definition tabplay_tilde_perform :: "nat \<Rightarrow> t_tabplay_tilde \<Rightarrow> words \<Rightarrow> (fl list \<times> bool \<times> t_tabplay_tilde) cresult" where
  "tabplay_tilde_perform n x m = (let phase = tp_phase x;
       endphase = (if tp_nsampsintab x < tp_limit x then tp_nsampsintab x else tp_limit x) in
     case tp_vec x of None \<Rightarrow> Inr (replicate n (Fin 0), False, x)
     | Some a \<Rightarrow>
        (if phase \<ge> endphase then Inr (replicate n (Fin 0), False, x)
         else (let nxfer = wrap32 (endphase - phase); nxfer = (if nxfer > int n then int n else nxfer); n3 = wrap32 (int n - nxfer);
             phase' = wrap32 (phase + nxfer) in
            if loop_count nxfer + loop_count n3 > n then Inl OutOfBounds
            else cbind (block m a) (\<lambda>v. cbind (read_loop (loop_count nxfer) phase v) (\<lambda>outs.
            if phase' \<ge> endphase then Inr (outs @ replicate (loop_count n3) (Fin 0), True, x\<lparr>tp_phase := PHASE_END\<rparr>)
            else Inr (outs, False, x\<lparr>tp_phase := phase'\<rparr>))))))"

definition tabplay_tilde_set :: "garray \<Rightarrow> words \<Rightarrow> t_tabplay_tilde \<Rightarrow> t_tabplay_tilde" where
  "tabplay_tilde_set g m x = (let (n, vec) = tab_set g m (tp_nsampsintab x) in x\<lparr>tp_nsampsintab := n, tp_vec := vec\<rparr>)"

definition tabplay_tilde_list :: "t_atom list \<Rightarrow> t_tabplay_tilde \<Rightarrow> t_tabplay_tilde" where
  "tabplay_tilde_list argv x = (let start = long_of_fl (atom_getfloatarg 0 argv); len = long_of_fl (atom_getfloatarg 1 argv);
     start = (if start < 0 then 0 else start) in
     x\<lparr>tp_limit := (if len \<le> 0 then PHASE_END else wrap32 (start + len)), tp_phase := wrap32 start\<rparr>)"

definition tabplay_tilde_stop :: "t_tabplay_tilde \<Rightarrow> t_tabplay_tilde" where
  "tabplay_tilde_stop x = x\<lparr>tp_phase := PHASE_END\<rparr>"

subsection \<open>\<open>tabread~\<close>, \<open>tabread4~\<close>\<close>

record t_tabread_tilde =
  tr_npoints :: int
  tr_vec :: "nat option"

definition tabread_tilde_new :: t_tabread_tilde where
  "tabread_tilde_new = \<lparr>tr_npoints = 0, tr_vec = None\<rparr>"

definition tabread_tilde_set :: "garray \<Rightarrow> words \<Rightarrow> t_tabread_tilde \<Rightarrow> t_tabread_tilde" where
  "tabread_tilde_set g m x = (let (n, vec) = tab_set g m (tr_npoints x) in x\<lparr>tr_npoints := n, tr_vec := vec\<rparr>)"

definition clip_index :: "int \<Rightarrow> int \<Rightarrow> int" where
  "clip_index maxindex i = (if i < 0 then 0 else if i > maxindex then maxindex else i)"

fun tabread_loop :: "int \<Rightarrow> fl list \<Rightarrow> fl list \<Rightarrow> fl list cresult" where
  "tabread_loop maxindex buf [] = Inr []"
| "tabread_loop maxindex buf (f # ins) = cbind (vget buf (clip_index maxindex (int_of_fl f))) (\<lambda>out.
     cbind (tabread_loop maxindex buf ins) (\<lambda>outs. Inr (out # outs)))"

definition tabread_tilde_perform :: "fl list \<Rightarrow> t_tabread_tilde \<Rightarrow> words \<Rightarrow> fl list cresult" where
  "tabread_tilde_perform ins x m = (case tr_vec x of None \<Rightarrow> Inr (zeros ins)
     | Some a \<Rightarrow> cbind (block m a) (\<lambda>buf. tabread_loop (tr_npoints x - 1) buf ins))"

text \<open>Four samples around an index, for an interpolation.\<close>

definition interpolate_at :: "fl \<Rightarrow> int \<Rightarrow> fl list \<Rightarrow> fl cresult" where
  "interpolate_at fracp i buf = cbind (vget buf (i - 1)) (\<lambda>a. cbind (vget buf i) (\<lambda>b. cbind (vget buf (i + 1)) (\<lambda>c.
     cbind (vget buf (i + 2)) (\<lambda>d. Inr (interpolate4 fracp a b c d)))))"

definition index4 :: "int \<Rightarrow> fl \<Rightarrow> fl \<times> int" where
  "index4 maxindex findex = (let index = int_of_fl findex in
     if index < 1 then (Fin 0, 1) else if index > maxindex then (Fin 1, maxindex)
     else (flt32 (fsub binary64 findex (fl_of_int binary64 index)), index))"

fun tabread4_loop :: "int \<Rightarrow> fl \<Rightarrow> fl list \<Rightarrow> fl list \<Rightarrow> fl list cresult" where
  "tabread4_loop maxindex onset buf [] = Inr []"
| "tabread4_loop maxindex onset buf (f # ins) = (case index4 maxindex (fadd binary64 (dbl f) onset) of (fracp, i) \<Rightarrow>
     cbind (interpolate_at fracp i buf) (\<lambda>out. cbind (tabread4_loop maxindex onset buf ins) (\<lambda>outs. Inr (out # outs))))"

text \<open>\<open>onset\<close> is the number at the right inlet.\<close>

definition tabread4_tilde_perform :: "fl list \<Rightarrow> fl \<Rightarrow> t_tabread_tilde \<Rightarrow> words \<Rightarrow> fl list cresult" where
  "tabread4_tilde_perform ins onset x m = (case tr_vec x of None \<Rightarrow> Inr (zeros ins)
     | Some a \<Rightarrow> cbind (block m a) (\<lambda>buf. tabread4_loop (tr_npoints x - 3) (dbl onset) buf ins))"

subsection \<open>\<open>tabosc4~\<close>\<close>

record t_tabosc4_tilde =
  to_fnpoints :: fl
  to_finvnpoints :: fl
  to_vec :: "nat option"
  to_phase :: fl
  to_conv :: fl

definition tabosc4_tilde_new :: t_tabosc4_tilde where
  "tabosc4_tilde_new = \<lparr>to_fnpoints = Fin 512, to_finvnpoints = Fin (1 / 512), to_vec = None, to_phase = Fin 0, to_conv = Fin 0\<rparr>"

definition tabosc4_tilde_set :: "garray \<Rightarrow> words \<Rightarrow> t_tabosc4_tilde \<Rightarrow> t_tabosc4_tilde" where
  "tabosc4_tilde_set g m x = (case tab_set g m 0 of
      (_, None) \<Rightarrow> x\<lparr>to_vec := None\<rparr>
    | (pointsinarray, Some a) \<Rightarrow> (let npoints = pointsinarray - 3 in
        if npoints \<noteq> pow2_below npoints then x\<lparr>to_vec := None\<rparr>
        else x\<lparr>to_fnpoints := fl_of_int binary32 npoints,
          to_finvnpoints := flt32 (fdiv binary64 (Fin 1) (fl_of_int binary64 npoints)), to_vec := Some a\<rparr>))"

definition tabosc4_tilde_ft1 :: "fl \<Rightarrow> t_tabosc4_tilde \<Rightarrow> t_tabosc4_tilde" where
  "tabosc4_tilde_ft1 f x = x\<lparr>to_phase := dbl f\<rparr>"

definition tabosc4_tilde_dsp :: "fl \<Rightarrow> garray \<Rightarrow> words \<Rightarrow> t_tabosc4_tilde \<Rightarrow> t_tabosc4_tilde" where
  "tabosc4_tilde_dsp sr g m x = tabosc4_tilde_set g m (x\<lparr>to_conv := flt32 (fdiv binary64 (Fin 1) (dbl sr))\<rparr>)"

fun tabosc4_loop :: "int \<Rightarrow> int \<Rightarrow> fl \<Rightarrow> fl list \<Rightarrow> fl list \<Rightarrow> fl \<Rightarrow> (fl list \<times> fl) cresult" where
  "tabosc4_loop nb msk conv tab [] dphase = Inr ([], dphase)"
| "tabosc4_loop nb msk conv tab (f # ins) dphase = (let addr = tf_hi nb dphase AND msk; fracp = frac_of (set_hi nb (unithi nb) dphase) in
     cbind (interpolate_at fracp (addr + 1) tab) (\<lambda>out.
     cbind (tabosc4_loop nb msk conv tab ins (fadd binary64 dphase (dbl (fmul binary32 f conv)))) (\<lambda>(outs, d). Inr (out # outs, d))))"

definition tabosc4_tilde_perform :: "int \<Rightarrow> fl list \<Rightarrow> t_tabosc4_tilde \<Rightarrow> words \<Rightarrow> (fl list \<times> t_tabosc4_tilde) cresult" where
  "tabosc4_tilde_perform nb ins x m = (let fnpoints = to_fnpoints x; msk = int_of_fl (fsub binary32 fnpoints (Fin 1));
       conv = fmul binary32 fnpoints (to_conv x); dphase = fadd binary64 (fmul binary64 (dbl fnpoints) (to_phase x)) UNITBIT32 in
     case to_vec x of None \<Rightarrow> Inr (zeros ins, x)
     | Some a \<Rightarrow> cbind (block m a) (\<lambda>tab. cbind (tabosc4_loop nb msk conv tab ins dphase) (\<lambda>(outs, d).
         let top = fmul binary64 UNITBIT32 (dbl fnpoints); hi = normhipart nb top;
             tf = set_hi nb hi (fadd binary64 d (fsub binary64 top UNITBIT32)) in
         Inr (outs, x\<lparr>to_phase := fmul binary64 (fsub binary64 tf top) (dbl (to_finvnpoints x))\<rparr>))))"

subsection \<open>\<open>tabsend~\<close>, \<open>tabreceive~\<close>\<close>

record t_tabsend =
  ts_vec :: "nat option"
  ts_graphperiod :: int
  ts_graphcount :: int

definition tabsend_new :: t_tabsend where
  "tabsend_new = \<lparr>ts_vec = None, ts_graphperiod = 0, ts_graphcount = 0\<rparr>"

definition tabsend_perform :: "fl list \<Rightarrow> t_tabsend \<Rightarrow> words \<Rightarrow> (bool \<times> t_tabsend \<times> words) cresult" where
  "tabsend_perform ins x m = (case ts_vec x of None \<Rightarrow> Inr (False, x, m)
     | Some a \<Rightarrow> cbind (block m a) (\<lambda>v. cbind (write_loop (length ins) ins 0 v) (\<lambda>v'.
         if ts_graphcount x = 0 then Inr (True, x\<lparr>ts_graphcount := ts_graphperiod x\<rparr>, m(a \<mapsto> v'))
         else Inr (False, x\<lparr>ts_graphcount := wrap32 (ts_graphcount x - 1)\<rparr>, m(a \<mapsto> v')))))"

text \<open>For blocks of \<open>n\<close> samples at the rate \<open>sr\<close>; the number of samples that the perform routine takes, where it is put on the chain.\<close>

definition tabsend_dsp :: "garray \<Rightarrow> words \<Rightarrow> int \<Rightarrow> fl \<Rightarrow> t_tabsend \<Rightarrow> t_tabsend \<times> int option" where
  "tabsend_dsp g m n sr x = (case tab_set g m 0 of
      (_, None) \<Rightarrow> (x, None)
    | (vecsize, Some a) \<Rightarrow> (let ticksper = int_of_fl (fdiv binary32 sr (fl_of_int binary32 n));
         ticksper = (if ticksper < 1 then 1 else ticksper) in
        (x\<lparr>ts_vec := Some a, ts_graphperiod := ticksper,
           ts_graphcount := (if ts_graphcount x > ticksper then ticksper else ts_graphcount x)\<rparr>,
         Some (if n < vecsize then n else vecsize))))"

record t_tabreceive =
  tv_vec :: "nat option"
  tv_vecsize :: int

definition tabreceive_perform :: "nat \<Rightarrow> t_tabreceive \<Rightarrow> words \<Rightarrow> fl list cresult" where
  "tabreceive_perform n x m = (case tv_vec x of None \<Rightarrow> Inr (replicate n (Fin 0))
     | Some a \<Rightarrow> cbind (block m a) (\<lambda>v.
         if loop_count (tv_vecsize x) + loop_count (wrap32 (int n - tv_vecsize x)) > n then Inl OutOfBounds
         else cbind (read_loop (loop_count (tv_vecsize x)) 0 v) (\<lambda>outs.
           Inr (outs @ replicate (loop_count (wrap32 (int n - tv_vecsize x))) (Fin 0)))))"

definition tabreceive_dsp :: "garray \<Rightarrow> words \<Rightarrow> int \<Rightarrow> t_tabreceive \<Rightarrow> t_tabreceive \<times> bool" where
  "tabreceive_dsp g m n x = (case tab_set g m 0 of
      (_, None) \<Rightarrow> (x, False)
    | (vecsize, Some a) \<Rightarrow> (x\<lparr>tv_vec := Some a, tv_vecsize := (if vecsize > n then n else vecsize)\<rparr>, True))"

subsection \<open>\<open>tabread\<close>, \<open>tabread4\<close>, \<open>tabwrite\<close>\<close>

text \<open>These look the array up each time; \<open>None\<close> where an error is reported.\<close>

definition tabread_float :: "garray \<Rightarrow> words \<Rightarrow> fl \<Rightarrow> fl option cresult" where
  "tabread_float g m f = (case tab_set g m 0 of
      (_, None) \<Rightarrow> Inr None
    | (npoints, Some a) \<Rightarrow> (let n = int_of_fl f; n = (if n < 0 then 0 else if n \<ge> npoints then npoints - 1 else n) in
        if npoints \<noteq> 0 then cbind (block m a) (\<lambda>v. cbind (vget v n) (\<lambda>r. Inr (Some r))) else Inr (Some (Fin 0))))"

definition tabread4_float :: "garray \<Rightarrow> words \<Rightarrow> fl \<Rightarrow> fl option cresult" where
  "tabread4_float g m f = (case tab_set g m 0 of
      (_, None) \<Rightarrow> Inr None
    | (npoints, Some a) \<Rightarrow> cbind (block m a) (\<lambda>v.
        if npoints < 4 then Inr (Some (Fin 0))
        else if fle f (Fin 1) then cbind (vget v 1) (\<lambda>r. Inr (Some r))
        else if fle (fl_of_int binary32 (npoints - 2)) f then cbind (vget v (npoints - 2)) (\<lambda>r. Inr (Some r))
        else (let n = int_of_fl f; n = (if n \<ge> npoints - 2 then npoints - 3 else n) in
          cbind (interpolate_at (fsub binary32 f (fl_of_int binary32 n)) n v) (\<lambda>r. Inr (Some r)))))"

definition tabwrite_float :: "garray \<Rightarrow> words \<Rightarrow> fl \<Rightarrow> fl \<Rightarrow> words option cresult" where
  "tabwrite_float g m ft1 f = (case tab_set g m 0 of
      (_, None) \<Rightarrow> Inr None
    | (vecsize, Some a) \<Rightarrow> (let n = int_of_fl ft1; n = (if n < 0 then 0 else if n \<ge> vecsize then vecsize - 1 else n) in
        cbind (block m a) (\<lambda>v. cbind (vput v n f) (\<lambda>v'. Inr (Some (m(a \<mapsto> v')))))))"

subsection \<open>What is recorded is played\<close>

fun record_blocks :: "fl list list \<Rightarrow> t_tabwrite_tilde \<Rightarrow> words \<Rightarrow> (t_tabwrite_tilde \<times> words) cresult" where
  "record_blocks [] x m = Inr (x, m)"
| "record_blocks (b # bs) x m = cbind (tabwrite_tilde_perform b x m) (\<lambda>(_, x', m'). record_blocks bs x' m')"

fun play_blocks :: "nat list \<Rightarrow> t_tabplay_tilde \<Rightarrow> words \<Rightarrow> fl list cresult" where
  "play_blocks [] x m = Inr []"
| "play_blocks (n # ns) x m = cbind (tabplay_tilde_perform n x m) (\<lambda>(out, _, x'). cbind (play_blocks ns x' m) (\<lambda>outs. Inr (out @ outs)))"

definition overlay :: "nat \<Rightarrow> fl list \<Rightarrow> fl list \<Rightarrow> fl list" where
  "overlay p ins v = take p v @ take (length v - p) (map clean ins) @ drop (p + length ins) v"

lemma length_overlay [simp]: "p \<le> length v \<Longrightarrow> length (overlay p ins v) = length v"
  by (auto simp: overlay_def min_def)

lemma loop_count_small: "0 \<le> n \<Longrightarrow> n < 2 ^ 32 \<Longrightarrow> loop_count n = nat n"
  by (simp add: loop_count_def)

lemma write_loop_eq:
  assumes "k \<le> length ins" "p + k \<le> length v"
  shows "write_loop k ins (int p) v = Inr (take p v @ map clean (take k ins) @ drop (p + k) v)"
  using assms
proof (induction k arbitrary: ins p v)
  case (Suc k)
  obtain f fs where ins: "ins = f # fs" using Suc.prems(1) by (cases ins) auto
  have p: "p < length v" using Suc.prems(2) by simp
  have "vput v (int p) (clean f) = Inr (v[p := clean f])" using p by (simp add: vput_def)
  moreover have "write_loop k fs (int (Suc p)) (v[p := clean f]) =
      Inr (take (Suc p) (v[p := clean f]) @ map clean (take k fs) @ drop (Suc p + k) (v[p := clean f]))"
    by (rule Suc.IH) (use Suc.prems ins in auto)
  moreover have "take (Suc p) (v[p := clean f]) = take p v @ [clean f]" using p by (simp add: take_Suc_conv_app_nth)
  moreover have "drop (Suc p + k) (v[p := clean f]) = drop (Suc p + k) v" by simp
  ultimately show ?case by (simp add: ins cbind_def add.commute)
qed simp

lemma read_loop_eq:
  assumes "p + k \<le> length v"
  shows "read_loop k (int p) v = Inr (take k (drop p v))"
  using assms
proof (induction k arbitrary: p)
  case (Suc k)
  have "vget v (int p) = Inr (v ! p)" using Suc.prems by (simp add: vget_def)
  moreover have "read_loop k (int (Suc p)) v = Inr (take k (drop (Suc p) v))" by (rule Suc.IH) (use Suc.prems in simp)
  moreover have "take (Suc k) (drop p v) = v ! p # take k (drop (Suc p) v)" using Suc.prems by (simp add: Cons_nth_drop_Suc [symmetric])
  ultimately show ?case by (simp add: cbind_def add.commute)
qed simp

text \<open>A block is recorded behind what there is, as far as there is room.\<close>

definition recording :: "nat \<Rightarrow> nat \<Rightarrow> nat \<Rightarrow> t_tabwrite_tilde \<Rightarrow> bool" where
  "recording a L p x \<longleftrightarrow> tw_vec x = Some a \<and> tw_nsampsintab x = int L \<and> L < 2 ^ 31 - 1 \<and>
     (if p < L then tw_phase x = int p else tw_phase x = PHASE_END)"

lemma record_block:
  assumes "recording a (length v) p x" "m a = Some v"
  shows "\<exists>r x'. tabwrite_tilde_perform ins x m = Inr (r, x', m(a \<mapsto> overlay p ins v)) \<and> recording a (length v) (p + length ins) x'"
proof (cases "p < length v")
  case False
  then have "tw_phase x = PHASE_END" "overlay p ins v = v" using assms(1) by (simp_all add: recording_def overlay_def)
  moreover have "m(a \<mapsto> v) = m" using assms(2) by auto
  ultimately show ?thesis using assms False by (auto simp: tabwrite_tilde_perform_def recording_def PHASE_END_def Let_def)
next
  case True
  define k where "k = min (length v - p) (length ins)"
  have x: "tw_vec x = Some a" "tw_nsampsintab x = int (length v)" "tw_phase x = int p" "length v < 2 ^ 31 - 1"
    using assms(1) True by (simp_all add: recording_def)
  have n: "(if wrap32 (int (length v) - int p) > int (length ins) then int (length ins) else wrap32 (int (length v) - int p)) = int k"
    using x(4) True by (auto simp: k_def)
  have w: "write_loop (loop_count (int k)) ins (int p) v = Inr (overlay p ins v)"
  proof -
    have "loop_count (int k) = k" using x(4) by (subst loop_count_small) (auto simp: k_def)
    moreover have "take p v @ map clean (take k ins) @ drop (p + k) v = overlay p ins v"
      using True by (auto simp: overlay_def k_def min_def take_map)
    ultimately show ?thesis using write_loop_eq [of k ins p v] True by (simp add: k_def)
  qed
  have ph: "wrap32 (int p + int k) = int (p + k)" using x(4) True by (subst wrap32_id) (auto simp: k_def)
  have "tabwrite_tilde_perform ins x m = (if p + k \<ge> length v then Inr (True, x\<lparr>tw_phase := PHASE_END\<rparr>, m(a \<mapsto> overlay p ins v))
      else Inr (False, x\<lparr>tw_phase := int (p + k)\<rparr>, m(a \<mapsto> overlay p ins v)))"
    unfolding tabwrite_tilde_perform_def Let_def x(1-3) n ph using True by (simp add: block_def assms(2) cbind_def w)
  moreover have "p + k \<ge> length v \<longleftrightarrow> p + length ins \<ge> length v" using True by (auto simp: k_def min_def)
  moreover have "k = length ins" if "\<not> p + length ins \<ge> length v" using that by (simp add: k_def)
  ultimately show ?thesis using x by (auto simp: recording_def)
qed

lemma overlay_overlay:
  assumes "p \<le> length v"
  shows "overlay (p + length b) ins (overlay p b v) = overlay p (b @ ins) v"
proof (cases "p + length b \<le> length v")
  case True
  then have "take (p + length b) (overlay p b v) = take p v @ map clean b" using assms by (simp add: overlay_def)
  moreover have "drop (p + length b + length ins) (overlay p b v) = drop (p + length (b @ ins)) v"
    using True assms by (simp add: overlay_def add.assoc add.commute [of "length ins"])
  ultimately show ?thesis using True assms unfolding overlay_def [of "p + length b"] by (simp add: overlay_def [of p "b @ ins"])
next
  case False
  then show ?thesis using assms by (simp add: overlay_def)
qed

lemma record_blocks_from:
  assumes "recording a (length v) p x" "m a = Some v"
  shows "\<exists>x' m'. record_blocks bs x m = Inr (x', m') \<and> m' a = Some (overlay p (concat bs) v)"
  using assms
proof (induction bs arbitrary: p x m v)
  case Nil
  then show ?case by (simp add: overlay_def)
next
  case (Cons b bs)
  obtain r x' where b: "tabwrite_tilde_perform b x m = Inr (r, x', m(a \<mapsto> overlay p b v))" "recording a (length v) (p + length b) x'"
    using record_block [where v = v and m = m and a = a, OF Cons.prems(1,2), of b] by blast
  have len: "length (overlay p b v) = length v" by (cases "p \<le> length v") (simp_all add: overlay_def)
  define m1 where "m1 = m(a \<mapsto> overlay p b v)"
  have m1: "m1 a = Some (overlay p b v)" by (simp add: m1_def)
  obtain x'' m' where "record_blocks bs x' m1 = Inr (x'', m')" "m' a = Some (overlay (p + length b) (concat bs) (overlay p b v))"
    using Cons.IH [of "overlay p b v" "p + length b" x' m1] b(2) len m1 by auto
  moreover have "overlay (p + length b) (concat bs) (overlay p b v) = overlay p (b @ concat bs) v"
    using overlay_overlay by (cases "p \<le> length v") (simp_all add: overlay_def)
  ultimately show ?case using b(1) by (simp add: cbind_def m1_def [symmetric])
qed

text \<open>A block is played from where the last one ended, with silence behind the end.\<close>

definition playing :: "nat \<Rightarrow> nat \<Rightarrow> nat \<Rightarrow> t_tabplay_tilde \<Rightarrow> bool" where
  "playing a L p x \<longleftrightarrow> tp_vec x = Some a \<and> tp_nsampsintab x = int L \<and> L < 2 ^ 31 - 1 \<and> tp_limit x = PHASE_END \<and>
     (if p < L then tp_phase x = int p else tp_phase x \<ge> int L)"

lemma play_block:
  assumes "playing a (length v) p x" "m a = Some v" "n < 2 ^ 31"
  shows "\<exists>r x'. tabplay_tilde_perform n x m = Inr (take n (drop p v @ replicate n (Fin 0)), r, x') \<and> playing a (length v) (p + n) x'"
proof -
  have x: "tp_vec x = Some a" "tp_nsampsintab x = int (length v)" "length v < 2 ^ 31 - 1" "tp_limit x = PHASE_END"
    using assms(1) by (simp_all add: playing_def)
  have e: "(if tp_nsampsintab x < tp_limit x then tp_nsampsintab x else tp_limit x) = int (length v)"
    using x by (simp add: PHASE_END_def)
  show ?thesis
  proof (cases "p < length v")
    case False
    then have "tp_phase x \<ge> int (length v)" using assms(1) by (simp add: playing_def)
    then show ?thesis unfolding tabplay_tilde_perform_def e Let_def x(1) using assms(1) False by (auto simp: playing_def)
  next
    case True
    define k where "k = min (length v - p) n"
    have ph: "tp_phase x = int p" using assms(1) True by (simp add: playing_def)
    have nx: "(if wrap32 (int (length v) - int p) > int n then int n else wrap32 (int (length v) - int p)) = int k"
      using x(3) True by (auto simp: k_def)
    have n3: "wrap32 (int n - int k) = int (n - k)" using assms(3) by (subst wrap32_id) (auto simp: k_def)
    have t: "loop_count (int k) = k" "loop_count (int (n - k)) = n - k" using assms(3) x(3) by (subst loop_count_small; simp add: k_def)+
    have ph': "wrap32 (int p + int k) = int (p + k)" using x(3) True by (subst wrap32_id) (auto simp: k_def)
    have r: "read_loop k (int p) v = Inr (take k (drop p v))" by (rule read_loop_eq) (use True in \<open>simp add: k_def\<close>)
    have kn: "k \<le> n" "\<not> tp_phase x \<ge> int (length v)" using True ph by (simp_all add: k_def)
    have "tabplay_tilde_perform n x m = (if p + k \<ge> length v then Inr (take k (drop p v) @ replicate (n - k) (Fin 0), True, x\<lparr>tp_phase := PHASE_END\<rparr>)
        else Inr (take k (drop p v), False, x\<lparr>tp_phase := int (p + k)\<rparr>))"
      unfolding tabplay_tilde_perform_def e Let_def x(1) ph nx n3 ph' t using True kn by (simp add: block_def assms(2) cbind_def r)
    moreover have "take k (drop p v) @ replicate (n - k) (Fin 0) = take n (drop p v @ replicate n (Fin 0))"
      using True by (auto simp: k_def min_def)
    moreover have "k = n" if "\<not> p + k \<ge> length v" using that True by (auto simp: k_def min_def split: if_splits)
    moreover have "take n (drop p v) = take n (drop p v @ replicate n (Fin 0))" if "\<not> p + n \<ge> length v" using that by simp
    moreover have "p + k \<ge> length v \<longleftrightarrow> p + n \<ge> length v" using True by (auto simp: k_def min_def)
    ultimately show ?thesis using x by (auto simp: playing_def PHASE_END_def)
  qed
qed

lemma pad_nth: "take n (xs @ replicate n z) = map (\<lambda>i. if i < length xs then xs ! i else z) [0..<n]"
  by (rule nth_equalityI) (auto simp: nth_append)

lemma pad_split: "take n (xs @ replicate n z) @ take s (drop n xs @ replicate s z) = take (n + s) (xs @ replicate (n + s) z)"
proof -
  let ?f = "\<lambda>i. if i < length xs then xs ! i else z"
  have "map (\<lambda>i. if i < length (drop n xs) then drop n xs ! i else z) [0..<s] = map ?f [n..<n + s]"
    by (rule nth_equalityI) (auto simp: less_diff_conv2 add.commute)
  moreover have "[0..<n + s] = [0..<n] @ [n..<n + s]" using upt_add_eq_append [of 0 n s] by simp
  ultimately show ?thesis by (simp only: pad_nth map_append)
qed

lemma play_blocks_from:
  assumes "playing a (length v) p x" "m a = Some v" "\<forall>n \<in> set ns. n < 2 ^ 31"
  shows "play_blocks ns x m = Inr (take (sum_list ns) (drop p v @ replicate (sum_list ns) (Fin 0)))"
  using assms
proof (induction ns arbitrary: p x)
  case (Cons n ns)
  obtain r x' where b: "tabplay_tilde_perform n x m = Inr (take n (drop p v @ replicate n (Fin 0)), r, x')" "playing a (length v) (p + n) x'"
    using play_block [where v = v and m = m and a = a, OF Cons.prems(1,2), of n] Cons.prems(3) by fastforce
  have "play_blocks ns x' m = Inr (take (sum_list ns) (drop (p + n) v @ replicate (sum_list ns) (Fin 0)))"
    using Cons.IH [OF b(2)] Cons.prems(2,3) by simp
  moreover have "take n (drop p v @ replicate n (Fin 0)) @ take s (drop (p + n) v @ replicate s (Fin 0)) =
      take (n + s) (drop p v @ replicate (n + s) (Fin 0))" for s
    using pad_split [of n "drop p v" "Fin 0" s] by (simp add: add.commute)
  ultimately show ?case using b(1) by (simp add: cbind_def)
qed simp

text \<open>\<^bold>\<open>C26\<close>: What \<open>tabwrite~\<close> records after a bang, \<open>tabplay~\<close> plays when it gets an empty list: the samples that came in, in blocks of
  whatever sizes, as far as the array has room for them, where samples below \<open>2 ^ -63\<close> or from \<open>2 ^ 65\<close> on (NaN and infinity among them) have become 0; then what the
  array held behind them, then silence. No write and no read leaves the array. Both objects were told of the array while it had its memory, and it keeps it; it has from 1 to
  \<open>2 ^ 31 - 2\<close> points, and nothing else writes into it.\<close>

theorem record_then_play:
  assumes "m a = Some v" "v \<noteq> []" "length v < 2 ^ 31 - 1" "\<forall>n \<in> set ns. n < 2 ^ 31"
  shows "\<exists>x' m'. record_blocks bs (tabwrite_tilde_bang (tabwrite_tilde_set (Words a) m x)) m = Inr (x', m') \<and>
    play_blocks ns (tabplay_tilde_list [] (tabplay_tilde_set (Words a) m' y)) m' =
      Inr (take (sum_list ns) (take (length v) (map clean (concat bs)) @ drop (length (concat bs)) v @ replicate (sum_list ns) (Fin 0)))"
proof -
  let ?v = "overlay 0 (concat bs) v"
  have "recording a (length v) 0 (tabwrite_tilde_bang (tabwrite_tilde_set (Words a) m x))"
    using assms(1-3) by (simp add: recording_def tabwrite_tilde_bang_def tabwrite_tilde_set_def tab_set_def)
  from record_blocks_from [where v = v and m = m and a = a, OF this assms(1), of bs]
  obtain x' m' where r: "record_blocks bs (tabwrite_tilde_bang (tabwrite_tilde_set (Words a) m x)) m = Inr (x', m')" "m' a = Some ?v" by blast
  have len: "length ?v = length v" by simp
  have "playing a (length ?v) 0 (tabplay_tilde_list [] (tabplay_tilde_set (Words a) m' y))"
    using r(2) assms(2,3) by (simp add: playing_def tabplay_tilde_list_def tabplay_tilde_set_def tab_set_def atom_getfloatarg_def rat_trunc_def Let_def)
  from play_blocks_from [where v = ?v and m = m' and a = a, OF this r(2) assms(4)] show ?thesis using r(1) by (simp add: overlay_def)
qed

lemma record_then_play_witness:
  "\<exists>x' m'. record_blocks [[Fin 1, NaN], [Fin 2, Fin 3]] (tabwrite_tilde_bang (tabwrite_tilde_set (Words 7) [7 \<mapsto> [Fin 9, Fin 9, Fin 9]] tabwrite_tilde_new))
      [7 \<mapsto> [Fin 9, Fin 9, Fin 9]] = Inr (x', m') \<and>
    play_blocks [2, 2] (tabplay_tilde_list [] (tabplay_tilde_set (Words 7) m' tabplay_tilde_new)) m' = Inr [Fin 1, Fin 0, Fin 2, Fin 0]"
proof -
  define m :: words where "m = [7 \<mapsto> [Fin 9, Fin 9, Fin 9 :: fl]]"
  have m: "m 7 = Some [Fin 9, Fin 9, Fin 9]" "[Fin 9, Fin 9, Fin 9] \<noteq> []" "length [Fin 9, Fin 9, Fin 9 :: fl] < 2 ^ 31 - 1" "\<forall>n \<in> set [2, 2]. n < (2 ^ 31 :: nat)"
    by (simp_all add: m_def)
  have c: "clean (Fin 1) = Fin 1" "clean (Fin 2) = Fin 2" "clean (Fin 3) = Fin 3" "clean NaN = Fin 0" by code_simp+
  have "take (sum_list [2, 2]) (take (length [Fin 9, Fin 9, Fin 9 :: fl]) (map clean (concat [[Fin 1, NaN], [Fin 2, Fin 3]])) @
      drop (length (concat [[Fin 1, NaN], [Fin 2, Fin 3]])) [Fin 9, Fin 9, Fin 9] @ replicate (sum_list [2, 2]) (Fin 0)) = [Fin 1, Fin 0, Fin 2, Fin 0]"
    by (simp add: c numeral_eq_Suc)
  then show ?thesis
    using record_then_play [where m = m and a = 7 and v = "[Fin 9, Fin 9, Fin 9]", OF m, of "[[Fin 1, NaN], [Fin 2, Fin 3]]" tabwrite_tilde_new tabplay_tilde_new]
    unfolding m_def by (simp only:)
qed

subsection \<open>No object reads outside its array\<close>

lemma vget_in: "0 \<le> i \<Longrightarrow> i < int (length v) \<Longrightarrow> \<exists>f. vget v i = Inr f"
  by (simp add: vget_def)

lemma tabread_loop_ok:
  assumes "maxindex = int (length buf) - 1" "buf \<noteq> []"
  shows "\<exists>outs. tabread_loop maxindex buf ins = Inr outs \<and> length outs = length ins"
proof (induction ins)
  case (Cons f ins)
  have "buf \<noteq> [] \<Longrightarrow> 1 \<le> length buf" by (cases buf) auto
  then have "\<exists>g. vget buf (clip_index maxindex (int_of_fl f)) = Inr g" using assms by (intro vget_in) (auto simp: clip_index_def)
  then show ?case using Cons by (auto simp: cbind_def)
qed simp

lemma interpolate_at_ok: "1 \<le> i \<Longrightarrow> i + 2 < int (length buf) \<Longrightarrow> \<exists>r. interpolate_at fracp i buf = Inr r"
  by (simp add: interpolate_at_def vget_def cbind_def)

lemma tabread4_loop_ok:
  assumes "maxindex = int (length buf) - 3" "4 \<le> length buf"
  shows "\<exists>outs. tabread4_loop maxindex onset buf ins = Inr outs \<and> length outs = length ins"
proof (induction ins)
  case (Cons f ins)
  obtain fr i where i: "index4 maxindex (fadd binary64 (dbl f) onset) = (fr, i)" by fastforce
  then have "1 \<le> i" "i + 2 < int (length buf)" using assms by (auto simp: index4_def Let_def split: if_splits)
  then obtain r where "interpolate_at fr i buf = Inr r" using interpolate_at_ok by blast
  then show ?case using Cons i by (auto simp: cbind_def)
qed simp

lemma tabosc4_loop_ok:
  assumes "0 \<le> msk" "msk + 4 \<le> int (length tab)"
  shows "\<exists>outs d'. tabosc4_loop nb msk conv tab ins d = Inr (outs, d') \<and> length outs = length ins"
proof (induction ins arbitrary: d)
  case (Cons f ins)
  define addr where "addr = tf_hi nb d AND msk"
  have "0 \<le> addr" "addr \<le> msk" using assms(1) AND_upper2 [of msk "tf_hi nb d"] by (simp_all add: addr_def)
  then have "1 \<le> addr + 1" "addr + 1 + 2 < int (length tab)" using assms(2) by auto
  then obtain r where "interpolate_at (frac_of (set_hi nb (unithi nb) d)) (addr + 1) tab = Inr r" using interpolate_at_ok by blast
  then show ?case using Cons [of "fadd binary64 d (dbl (fmul binary32 f conv))"] by (auto simp: cbind_def Let_def addr_def [symmetric])
qed simp

lemma tabosc4_mask:
  assumes "1 \<le> npoints" "npoints < 2 ^ 24"
  shows "int_of_fl (fsub binary32 (fl_of_int binary32 npoints) (Fin 1)) = npoints - 1"
proof -
  have "fl_of_int binary32 npoints = Fin (of_int npoints)" using assms by (intro fl_of_int_binary32) auto
  moreover have "fround binary32 (of_int (npoints - 1)) = Fin (of_int (npoints - 1))"
    using fl_of_int_binary32 [of "npoints - 1"] assms by (simp add: fl_of_int_def)
  ultimately have "fsub binary32 (fl_of_int binary32 npoints) (Fin 1) = Fin (of_int (npoints - 1))" by (simp add: fsub_def)
  then show ?thesis using int_of_fl_of_int [of "npoints - 1"] assms by simp
qed

text \<open>On an array of at least four and less than \<open>2 ^ 24\<close> points that is there, the objects that read or write a
  table at the places they are given do not leave it, whatever samples and numbers come in: not \<open>tabread~\<close>, \<open>tabread4~\<close> and \<open>tabosc4~\<close>, nor \<open>tabread\<close> and
  \<open>tabwrite\<close>, nor \<open>tabread4\<close> unless it gets NaN.\<close>

theorem tables_in_bounds:
  assumes "m a = Some v" "4 \<le> length v" "length v < 2 ^ 24"
  shows "(\<exists>outs. tabread_tilde_perform ins (tabread_tilde_set (Words a) m x) m = Inr outs \<and> length outs = length ins) \<and>
    (\<exists>outs. tabread4_tilde_perform ins onset (tabread_tilde_set (Words a) m x) m = Inr outs \<and> length outs = length ins) \<and>
    (\<exists>outs y'. tabosc4_tilde_perform nb ins (tabosc4_tilde_dsp sr (Words a) m y) m = Inr (outs, y') \<and> length outs = length ins) \<and>
    (\<exists>r. tabread_float (Words a) m f = Inr r) \<and> (\<exists>r. tabwrite_float (Words a) m ft1 f = Inr r) \<and>
    (f \<noteq> NaN \<longrightarrow> (\<exists>r. tabread4_float (Words a) m f = Inr r))"
proof (intro conjI impI)
  have v: "v \<noteq> []" using assms(2) by auto
  show "\<exists>outs. tabread_tilde_perform ins (tabread_tilde_set (Words a) m x) m = Inr outs \<and> length outs = length ins"
    using tabread_loop_ok [OF refl v] assms(1) by (simp add: tabread_tilde_perform_def tabread_tilde_set_def tab_set_def block_def cbind_def)
  show "\<exists>outs. tabread4_tilde_perform ins onset (tabread_tilde_set (Words a) m x) m = Inr outs \<and> length outs = length ins"
    using tabread4_loop_ok [OF refl assms(2)] assms(1) by (simp add: tabread4_tilde_perform_def tabread_tilde_set_def tab_set_def block_def cbind_def)
  show "\<exists>outs y'. tabosc4_tilde_perform nb ins (tabosc4_tilde_dsp sr (Words a) m y) m = Inr (outs, y') \<and> length outs = length ins"
  proof (cases "length v - 3 = nat (pow2_below (int (length v) - 3))")
    case False
    then have "int (length v) - 3 \<noteq> pow2_below (int (length v) - 3)" using assms(2) by auto
    then show ?thesis using assms(1) by (simp add: tabosc4_tilde_perform_def tabosc4_tilde_dsp_def tabosc4_tilde_set_def tab_set_def zeros_def Let_def)
  next
    case True
    define np where "np = int (length v) - 3"
    have np: "1 \<le> np" "np < 2 ^ 24" "np = pow2_below np" using True assms(2,3) by (auto simp: np_def)
    define z where "z = tabosc4_tilde_dsp sr (Words a) m y"
    have z: "to_vec z = Some a" "to_fnpoints z = fl_of_int binary32 np"
      using assms(1) np(3) by (simp_all add: z_def tabosc4_tilde_dsp_def tabosc4_tilde_set_def tab_set_def np_def [symmetric] Let_def)
    have msk: "int_of_fl (fsub binary32 (to_fnpoints z) (Fin 1)) = np - 1" unfolding z(2) by (rule tabosc4_mask [OF np(1,2)])
    have "0 \<le> np - 1" "np - 1 + 4 \<le> int (length v)" using np by (simp_all add: np_def)
    then obtain outs d where "tabosc4_loop nb (np - 1) (fmul binary32 (to_fnpoints z) (to_conv z)) v ins
        (fadd binary64 (fmul binary64 (dbl (to_fnpoints z)) (to_phase z)) UNITBIT32) = Inr (outs, d)" "length outs = length ins"
      using tabosc4_loop_ok by blast
    then show ?thesis unfolding z_def [symmetric] tabosc4_tilde_perform_def Let_def msk z(1) using assms(1) by (simp add: block_def cbind_def)
  qed
  show "\<exists>r. tabread_float (Words a) m f = Inr r" "\<exists>r. tabwrite_float (Words a) m ft1 f = Inr r"
    using assms(1,2) by (auto simp: tabread_float_def tabwrite_float_def tab_set_def block_def cbind_def vget_def vput_def Let_def)
  assume f: "f \<noteq> NaN"
  have top: "fl_of_int binary32 (int (length v) - 2) = Fin (of_int (int (length v) - 2))" by (rule fl_of_int_binary32) (use assms(2,3) in auto)
  show "\<exists>r. tabread4_float (Words a) m f = Inr r"
  proof (cases "fle f (Fin 1) \<or> fle (Fin (of_int (int (length v) - 2))) f")
    case True
    then show ?thesis using assms(1,2) top by (auto simp: tabread4_float_def tab_set_def block_def cbind_def vget_def)
  next
    case False
    then obtain q where q: "f = Fin q" "1 < q" "q < of_int (int (length v) - 2)" using f by (cases f) (auto simp: fle_def)
    have fl: "1 \<le> \<lfloor>q\<rfloor>" "\<lfloor>q\<rfloor> < int (length v) - 2" using q by (auto simp: floor_less_iff)
    then have i: "int_of_fl f = \<lfloor>q\<rfloor>" using q assms(3) by (simp add: rat_trunc_def)
    obtain r where "interpolate_at (fsub binary32 f (fl_of_int binary32 \<lfloor>q\<rfloor>)) \<lfloor>q\<rfloor> v = Inr r"
      using interpolate_at_ok [of "\<lfloor>q\<rfloor>" v] fl by auto
    then show ?thesis using False fl assms(1,2) top i by (auto simp: tabread4_float_def tab_set_def block_def cbind_def Let_def)
  qed
qed

lemma tables_in_bounds_witness:
  "(\<exists>outs. tabread4_tilde_perform [NaN, Inf True, Fin 2] (Fin 0) (tabread_tilde_set (Words 7) [7 \<mapsto> replicate 4 (Fin 9)] tabread_tilde_new) [7 \<mapsto> replicate 4 (Fin 9)] = Inr outs \<and>
     length outs = length [NaN, Inf True, Fin 2]) \<and>
   (\<exists>outs y'. tabosc4_tilde_perform 0 [NaN, Inf True, Fin 2] (tabosc4_tilde_dsp (Fin 44100) (Words 7) [7 \<mapsto> replicate 4 (Fin 9)] tabosc4_tilde_new) [7 \<mapsto> replicate 4 (Fin 9)] = Inr (outs, y') \<and>
     length outs = length [NaN, Inf True, Fin 2])"
proof -
  define m :: words where "m = [7 \<mapsto> replicate 4 (Fin 9 :: fl)]"
  have m: "m 7 = Some (replicate 4 (Fin 9))" "4 \<le> length (replicate 4 (Fin 9 :: fl))" "length (replicate 4 (Fin 9 :: fl)) < 2 ^ 24" by (simp_all add: m_def)
  from tables_in_bounds [where m = m and a = 7, OF m] show ?thesis unfolding m_def by blast
qed

text \<open>Where this does not hold. An array of three points: \<open>tabread4~\<close> reads a fourth.\<close>

lemma tabread4_short_table:
  assumes "m a = Some v" "length v = 3"
  shows "tabread4_tilde_perform [Fin 0] (Fin 0) (tabread_tilde_set (Words a) m x) m = Inl OutOfBounds"
  using assms by (simp add: tabread4_tilde_perform_def tabread_tilde_set_def tab_set_def block_def cbind_def index4_def interpolate_at_def vget_def
      rat_trunc_def Let_def)

text \<open>NaN is not less than anything, so \<open>tabread4\<close> takes it for an index, the least \<open>int\<close>.\<close>

lemma tabread4_nan:
  assumes "m a = Some v" "4 \<le> length v" "length v < 2 ^ 24"
  shows "tabread4_float (Words a) m NaN = Inl OutOfBounds"
  using assms by (simp add: tabread4_float_def tab_set_def block_def cbind_def interpolate_at_def vget_def Let_def)

text \<open>A start at \<open>2 powi 31\<close> or later becomes negative: \<open>tabwrite~\<close> writes in front of the array, and \<open>tabplay~\<close> reads there.\<close>

lemma tabwrite_start_overflow:
  assumes "m a = Some v" "v \<noteq> []" "length v < 2 ^ 31"
  shows "tabwrite_tilde_perform ins (tabwrite_tilde_start (Fin (2 ^ 31)) (tabwrite_tilde_set (Words a) m x)) m = Inl OutOfBounds"
proof -
  define x' where "x' = tabwrite_tilde_start (Fin (2 ^ 31)) (tabwrite_tilde_set (Words a) m x)"
  have x': "tw_vec x' = Some a" "tw_nsampsintab x' = int (length v)" "tw_phase x' = - (2 ^ 31)"
    using assms(1) by (simp_all add: x'_def tabwrite_tilde_start_def tabwrite_tilde_set_def tab_set_def rat_trunc_def)
  have nx: "wrap32 (int (length v) - - (2 ^ 31)) = int (length v) - 2 ^ 31" using assms(3) by (simp add: wrap32_def)
  have "int (length v) - 2 ^ 31 = (int (length v) + 2 ^ 31) - 2 ^ 32" by simp
  then have "(int (length v) - 2 ^ 31) mod 2 ^ 32 = (int (length v) + 2 ^ 31) mod 2 ^ 32" by (simp only: minus_mod_self2)
  then have "loop_count (int (length v) - 2 ^ 31) = nat (int (length v) + 2 ^ 31)" using assms(3) by (simp add: loop_count_def)
  then obtain k where k: "loop_count (int (length v) - 2 ^ 31) = Suc k" by (cases "nat (int (length v) + 2 ^ 31)") auto
  have "write_loop (Suc k) ins (- (2 ^ 31)) v = Inl OutOfBounds" by (cases ins) (simp_all add: vput_def cbind_def)
  moreover have "\<not> int (length v) - 2 ^ 31 > int (length ins)" using assms(3) by auto
  ultimately show ?thesis unfolding x'_def [symmetric] tabwrite_tilde_perform_def Let_def x' nx
    using assms(1,3) k by (simp add: block_def cbind_def)
qed

lemma tabplay_start_overflow:
  assumes "m a = Some v" "v \<noteq> []" "length v < 2 ^ 29" "1 \<le> n" "n < 2 ^ 20"
  shows "tabplay_tilde_perform n (tabplay_tilde_list [FLOAT (Fin 3000000000)] (tabplay_tilde_set (Words a) m x)) m = Inl OutOfBounds"
proof -
  define x' where "x' = tabplay_tilde_list [FLOAT (Fin 3000000000)] (tabplay_tilde_set (Words a) m x)"
  have x': "tp_vec x' = Some a" "tp_nsampsintab x' = int (length v)" "tp_phase x' = - 1294967296" "tp_limit x' = PHASE_END"
    using assms(1) by (simp_all add: x'_def tabplay_tilde_list_def tabplay_tilde_set_def tab_set_def rat_trunc_def atom_getfloatarg_def wrap32_def Let_def)
  have e: "(if int (length v) < PHASE_END then int (length v) else PHASE_END) = int (length v)" using assms(3) by (simp add: PHASE_END_def)
  have nx: "(if wrap32 (int (length v) - - 1294967296) > int n then int n else wrap32 (int (length v) - - 1294967296)) = int n"
    using assms(3,5) by (subst (1 2) wrap32_id) auto
  have t: "loop_count (int n) = n" "loop_count (wrap32 (int n - int n)) = 0" using assms(5) by (simp_all add: loop_count_def)
  obtain k where n: "n = Suc k" using assms(4) by (cases n) auto
  have "read_loop (Suc k) (- 1294967296) v = Inl OutOfBounds" by (simp add: vget_def cbind_def)
  then show ?thesis unfolding x'_def [symmetric] tabplay_tilde_perform_def Let_def x' e nx t
    using assms(1) n by (simp add: block_def cbind_def)
qed

text \<open>An array that is deleted alone does not make the graph be sorted again: the objects go on with what was freed.\<close>

lemma tabread_after_free:
  assumes "m a = Some v"
  shows "tabread_tilde_perform ins (tabread_tilde_set (Words a) m x) (m(a := None)) = Inl UseAfterFree"
  using assms by (simp add: tabread_tilde_perform_def tabread_tilde_set_def tab_set_def block_def cbind_def)

end
